(* ===== verification/SP_Base.thy ===== *)
theory SP_Base
  imports Main "HOL-Library.Word"
begin

text \<open>
  The vocabulary every component of the development shares: the faults a C++ statement
  can run into (each of them is a value of the model, never an unspecified term), the
  result type that carries them, C strings as byte lists, the character classes of the
  C library in the "C" locale, and the generic facts on lists that the component proofs
  rest on. The collections \<open>contracts\<close> (what an operation does, seen through the
  abstraction of its component) and \<open>invs\<close> (an operation keeps the invariant) are
  filled by the component theories.
\<close>

named_theorems contracts \<open>what an operation does, seen through its abstraction function\<close>
named_theorems invs \<open>an operation keeps the invariant of its component\<close>

subsection \<open>Faults and results\<close>

text \<open>
  A statement whose behaviour C++ leaves undefined, and a failed \<open>assert\<close>, end the
  model's run with one of these values.
\<close>

datatype fault =
    OutOfBounds      \<comment> \<open>a read or write outside an allocation\<close>
  | UseAfterFree     \<comment> \<open>a read through a pointer into a freed or moved allocation\<close>
  | NullDeref        \<comment> \<open>NULL where an object or a string is required\<close>
  | AssertFail       \<comment> \<open>\<open>assert\<close> with a false argument\<close>
  | SignedOverflow   \<comment> \<open>arithmetic on \<open>int\<close> that leaves its 32 bits\<close>
  | BadCast          \<comment> \<open>a cast of an object to a class it does not have\<close>
  | Hang             \<comment> \<open>a loop that does not end\<close>

type_synonym 'a res = "fault + 'a"

definition res_bind :: "'a res \<Rightarrow> ('a \<Rightarrow> 'b res) \<Rightarrow> 'b res" where
  "res_bind m f = (case m of Inl e \<Rightarrow> Inl e | Inr x \<Rightarrow> f x)"

lemma res_bind_simps [simp]:
  "res_bind (Inl e) f = Inl e"
  "res_bind (Inr x) f = f x"
  by (simp_all add: res_bind_def)

lemma res_bind_eq_Inr_iff:
  "res_bind m f = Inr y \<longleftrightarrow> (\<exists>x. m = Inr x \<and> f x = Inr y)"
  by (cases m) auto

subsection \<open>C strings\<close>

text \<open>
  A \<open>char\<close> is a byte. A C string is the bytes in front of the first NUL, so \<open>cstr\<close> is
  what \<open>strlen\<close>, \<open>strcpy\<close> and \<open>%s\<close> see of a block of memory.
\<close>

type_synonym byte = char
type_synonym bytes = "char list"

abbreviation NUL :: char where "NUL \<equiv> CHR 0x00"
abbreviation LF :: char where "LF \<equiv> CHR 0x0A"
abbreviation CR :: char where "CR \<equiv> CHR 0x0D"
abbreviation DOT :: char where "DOT \<equiv> CHR ''.''"

definition cstr :: "bytes \<Rightarrow> bytes" where
  "cstr xs = takeWhile (\<lambda>c. c \<noteq> NUL) xs"

definition is_cstr :: "bytes \<Rightarrow> bool" where
  "is_cstr xs \<longleftrightarrow> NUL \<notin> set xs"

lemma cstr_id [simp]: "is_cstr xs \<Longrightarrow> cstr xs = xs"
  by (auto simp: is_cstr_def cstr_def)

lemma is_cstr_cstr [simp]: "is_cstr (cstr xs)"
  by (auto simp: is_cstr_def cstr_def dest: set_takeWhileD)

lemma is_cstr_append [simp]: "is_cstr (xs @ ys) \<longleftrightarrow> is_cstr xs \<and> is_cstr ys"
  by (auto simp: is_cstr_def)

lemma is_cstr_Nil [simp]: "is_cstr []"
  by (simp add: is_cstr_def)

lemma is_cstr_Cons [simp]: "is_cstr (c # xs) \<longleftrightarrow> c \<noteq> NUL \<and> is_cstr xs"
  by (auto simp: is_cstr_def)

lemma cstr_append_NUL: "is_cstr xs \<Longrightarrow> cstr (xs @ NUL # ys) = xs"
  by (auto simp: cstr_def is_cstr_def takeWhile_tail)

text \<open>\<open>isspace\<close> in the "C" locale: space, tab, LF, VT, FF and CR.\<close>

definition isspace :: "char \<Rightarrow> bool" where
  "isspace c \<longleftrightarrow> c \<in> {CHR 0x20, CHR 0x09, CHR 0x0A, CHR 0x0B, CHR 0x0C, CHR 0x0D}"

definition isdigit :: "char \<Rightarrow> bool" where
  "isdigit c \<longleftrightarrow> 48 \<le> (of_char c :: nat) \<and> (of_char c :: nat) \<le> 57"

text \<open>\<open>tolower\<close> in the "C" locale, and the comparison \<open>strcasecmp(..) == 0\<close>.\<close>

definition tolower :: "char \<Rightarrow> char" where
  "tolower c = (let n = (of_char c :: nat) in
     if 65 \<le> n \<and> n \<le> 90 then char_of (n + 32) else c)"

definition strcaseeq :: "bytes \<Rightarrow> bytes \<Rightarrow> bool" where
  "strcaseeq xs ys \<longleftrightarrow> map tolower (cstr xs) = map tolower (cstr ys)"

text \<open>\<open>strncasecmp(xs, ys, n) == 0\<close>: the comparison looks at \<open>n\<close> characters at most.\<close>

definition strncaseeq :: "bytes \<Rightarrow> bytes \<Rightarrow> nat \<Rightarrow> bool" where
  "strncaseeq xs ys n \<longleftrightarrow> map tolower (take n (cstr xs)) = map tolower (take n (cstr ys))"

lemma strcaseeq_refl [simp]: "strcaseeq xs xs"
  by (simp add: strcaseeq_def)

lemma strcaseeq_sym: "strcaseeq xs ys \<longleftrightarrow> strcaseeq ys xs"
  by (auto simp: strcaseeq_def)

lemma strcaseeq_trans: "strcaseeq xs ys \<Longrightarrow> strcaseeq ys zs \<Longrightarrow> strcaseeq xs zs"
  by (simp add: strcaseeq_def)

subsection \<open>First occurrence of a pattern\<close>

text \<open>
  \<open>find_sub pat xs\<close> is the offset of the first occurrence of \<open>pat\<close> in \<open>xs\<close>: the
  reference for every search loop of the code (\<open>memchr\<close>/\<open>memcmp\<close> scans, \<open>strstr\<close>).
\<close>

definition prefix_at :: "'a list \<Rightarrow> 'a list \<Rightarrow> bool" where
  "prefix_at pat xs \<longleftrightarrow> take (length pat) xs = pat"

fun find_sub :: "'a list \<Rightarrow> 'a list \<Rightarrow> nat option" where
  "find_sub pat [] = (if pat = [] then Some 0 else None)"
| "find_sub pat (x # xs) =
     (if prefix_at pat (x # xs) then Some 0 else map_option Suc (find_sub pat xs))"

lemma prefix_at_length: "prefix_at pat xs \<Longrightarrow> length pat \<le> length xs"
  unfolding prefix_at_def by (metis length_take min.cobounded1 min_def)

lemma prefix_at_append [simp]: "prefix_at pat (pat @ ys)"
  by (simp add: prefix_at_def)

lemma prefix_at_Cons [simp]:
  "prefix_at (p # pat) (x # xs) \<longleftrightarrow> p = x \<and> prefix_at pat xs"
  by (auto simp: prefix_at_def)

lemma prefix_at_Nil [simp]: "prefix_at [] xs" "prefix_at (p # pat) [] \<longleftrightarrow> False"
  by (simp_all add: prefix_at_def)

lemma prefix_atE:
  assumes "prefix_at pat xs"
  obtains ys where "xs = pat @ ys"
  using assms unfolding prefix_at_def by (metis append_take_drop_id)

lemma find_sub_Some:
  "find_sub pat xs = Some i \<Longrightarrow>
     prefix_at pat (drop i xs) \<and> i + length pat \<le> length xs \<and> (\<forall>j<i. \<not> prefix_at pat (drop j xs))"
proof (induction xs arbitrary: i)
  case Nil
  then show ?case by (auto split: if_splits)
next
  case (Cons x xs)
  show ?case
  proof (cases "prefix_at pat (x # xs)")
    case True
    with Cons.prems prefix_at_length [OF True] show ?thesis by simp
  next
    case False
    with Cons.prems obtain k where k: "find_sub pat xs = Some k" "i = Suc k" by auto
    from Cons.IH [OF k(1)] k(2) False show ?thesis
      by (auto simp: less_Suc_eq_0_disj)
  qed
qed

lemma find_sub_None: "find_sub pat xs = None \<Longrightarrow> \<not> prefix_at pat (drop j xs)"
proof (induction xs arbitrary: j)
  case Nil
  then show ?case by (cases pat) auto
next
  case (Cons x xs)
  then show ?case by (cases j) (auto split: if_splits)
qed

lemma find_sub_eq_Some_iff:
  "find_sub pat xs = Some i \<longleftrightarrow>
     prefix_at pat (drop i xs) \<and> i + length pat \<le> length xs \<and> (\<forall>j<i. \<not> prefix_at pat (drop j xs))"
    (is "_ \<longleftrightarrow> ?R i")
proof
  assume r: "?R i"
  then obtain k where k: "find_sub pat xs = Some k"
    using find_sub_None by (cases "find_sub pat xs") blast+
  from find_sub_Some [OF k] r have "k = i" by (metis nat_neq_iff)
  with k show "find_sub pat xs = Some i" by simp
qed (rule find_sub_Some)

lemma find_sub_skip:
  "\<forall>j<k. \<not> prefix_at pat (drop j xs) \<Longrightarrow> k \<le> length xs \<Longrightarrow>
     find_sub pat xs = map_option (\<lambda>i. i + k) (find_sub pat (drop k xs))"
proof (induction k arbitrary: xs)
  case (Suc k)
  then obtain x ys where xs: "xs = x # ys" by (cases xs) auto
  have "\<not> prefix_at pat (x # ys)" using Suc.prems(1) xs by (metis drop0 zero_less_Suc)
  moreover have "\<forall>j<k. \<not> prefix_at pat (drop j ys)" using Suc.prems(1) xs by (metis Suc_less_eq drop_Suc_Cons)
  ultimately show ?case using Suc.IH [of ys] Suc.prems(2) xs by (simp add: option.map_comp o_def)
qed (simp add: option.map_ident)

lemma find_sub_NoneI: "\<forall>j. j < length xs \<longrightarrow> \<not> prefix_at pat (drop j xs) \<Longrightarrow> pat \<noteq> [] \<Longrightarrow> find_sub pat xs = None"
  by (metis (no_types, lifting) find_sub_Some add_lessD1 drop_all leI length_greater_0_conv
      not_None_eq prefix_at_length le_zero_eq list.size(3))

subsection \<open>Sizes and memory blocks\<close>

text \<open>
  \<open>size_t\<close> has 64 bits and is a \<open>nat\<close> kept below \<open>size_max\<close>; \<open>to_size\<close> and \<open>to_int\<close> are the
  implicit conversions between \<open>int\<close> and \<open>size_t\<close>.
\<close>

definition size_max :: nat where "size_max = 2 ^ 64"

definition to_size :: "int \<Rightarrow> nat" where
  "to_size i = nat (i mod 2 ^ 64)"

definition to_int :: "nat \<Rightarrow> int" where
  "to_int n = (int n + 2 ^ 31) mod 2 ^ 32 - 2 ^ 31"

lemma to_size_nonneg [simp]: "0 \<le> i \<Longrightarrow> i < 2 ^ 64 \<Longrightarrow> to_size i = nat i"
  by (simp add: to_size_def)

lemma to_int_small [simp]: "n < 2 ^ 31 \<Longrightarrow> to_int n = int n"
  by (simp add: to_int_def)

text \<open>
  \<open>mem_get\<close> and \<open>mem_put\<close> read and write a stretch of a block, \<open>memchr\<close> scans one: the answer
  is the offset of the first match. A scan that would run past the block faults unless it meets
  the byte before.
\<close>

definition mem_get :: "nat \<Rightarrow> nat \<Rightarrow> bytes \<Rightarrow> bytes res" where
  "mem_get a n m = (if a + n \<le> length m then Inr (take n (drop a m)) else Inl OutOfBounds)"

definition mem_put :: "nat \<Rightarrow> bytes \<Rightarrow> bytes \<Rightarrow> bytes res" where
  "mem_put a xs m =
     (if a + length xs \<le> length m then Inr (take a m @ xs @ drop (a + length xs) m) else Inl OutOfBounds)"

fun memchr :: "bytes \<Rightarrow> nat \<Rightarrow> nat \<Rightarrow> char \<Rightarrow> nat option res" where
  "memchr m a 0 c = Inr None"
| "memchr m a (Suc n) c =
     (if length m \<le> a then Inl OutOfBounds
      else if m ! a = c then Inr (Some a) else memchr m (Suc a) n c)"

lemma memchr_Some:
  "memchr m a n c = Inr (Some p) \<Longrightarrow> a \<le> p \<and> p < a + n \<and> p < length m \<and> m ! p = c \<and> (\<forall>j. a \<le> j \<and> j < p \<longrightarrow> m ! j \<noteq> c)"
proof (induction n arbitrary: a)
  case (Suc n)
  show ?case
  proof (cases "m ! a = c")
    case True
    with Suc.prems show ?thesis by (auto split: if_splits)
  next
    case False
    with Suc.prems have "memchr m (Suc a) n c = Inr (Some p)" by (auto split: if_splits)
    from Suc.IH [OF this] False show ?thesis by (auto simp: Suc_le_eq) (metis le_neq_implies_less)
  qed
qed simp

lemma memchr_None:
  "memchr m a n c = Inr None \<Longrightarrow> a \<le> j \<Longrightarrow> j < a + n \<Longrightarrow> m ! j \<noteq> c"
proof (induction n arbitrary: a)
  case (Suc n)
  then show ?case by (cases "j = a") (auto split: if_splits)
qed simp

lemma memchr_total: "a + n \<le> length m \<Longrightarrow> \<exists>r. memchr m a n c = Inr r"
  by (induction n arbitrary: a) auto

text \<open>
  The allocator is a parameter: \<open>realloc\<close> answers a block of the requested size that keeps the
  bytes of the old one, or NULL; \<open>malloc\<close> of some sizes may fail. No allocator hands out
  \<open>mem_limit\<close> bytes, far above the address space of any machine.
\<close>

record libc =
  lc_realloc :: "bytes \<Rightarrow> nat \<Rightarrow> bytes option"
  lc_malloc :: "nat \<Rightarrow> bool"

definition mem_limit :: nat where "mem_limit = 2 ^ 62"

definition libc_ok :: "libc \<Rightarrow> bool" where
  "libc_ok lc \<longleftrightarrow> (\<forall>b n b'. lc_realloc lc b n = Some b' \<longrightarrow>
     n < mem_limit \<and> length b' = n \<and> take (min (length b) n) b' = take n b)"

text \<open>\<open>realloc\<close> never fails for sizes up to \<open>k\<close>.\<close>

definition libc_room :: "libc \<Rightarrow> nat \<Rightarrow> bool" where
  "libc_room lc k \<longleftrightarrow> (\<forall>m n. n \<le> k \<longrightarrow> lc_realloc lc m n \<noteq> None)"

text \<open>An allocator with room for everything below 1 GiB that clears new bytes, for concrete runs.\<close>

definition libc_plain :: libc where
  "libc_plain = \<lparr> lc_realloc = (\<lambda>b n. if n < 2 ^ 30 then Some (take n b @ replicate (n - length b) NUL) else None),
     lc_malloc = (\<lambda>_. True) \<rparr>"

lemma libc_plain_room: "k < 2 ^ 30 \<Longrightarrow> libc_room libc_plain k"
  by (simp add: libc_room_def libc_plain_def)

lemma libc_plain_ok: "libc_ok libc_plain"
  by (auto simp: libc_ok_def libc_plain_def min_def mem_limit_def split: if_splits)

subsection \<open>Generic list facts\<close>

definition del_at :: "nat \<Rightarrow> 'a list \<Rightarrow> 'a list" where
  "del_at i xs = take i xs @ drop (Suc i) xs"

lemma length_del_at [simp]: "i < length xs \<Longrightarrow> length (del_at i xs) = length xs - 1"
  by (auto simp: del_at_def)

lemma del_at_0 [simp]: "del_at 0 (x # xs) = xs"
  by (simp add: del_at_def)

lemma set_del_at: "set (del_at i xs) \<subseteq> set xs"
  by (auto simp: del_at_def dest: in_set_takeD in_set_dropD)

lemma del_at_last: "xs \<noteq> [] \<Longrightarrow> del_at (length xs - 1) xs = butlast xs"
  by (simp add: del_at_def butlast_conv_take)

lemma map_del_at: "map f (del_at i xs) = del_at i (map f xs)"
  by (simp add: del_at_def take_map drop_map)

lemma distinct_del_at: "distinct xs \<Longrightarrow> distinct (del_at i xs)"
  unfolding del_at_def
  by (auto simp: set_take_disj_set_drop_if_distinct)

lemma del_at_mem:
  "distinct xs \<Longrightarrow> i < length xs \<Longrightarrow> set (del_at i xs) = set xs - {xs ! i}"
proof -
  assume d: "distinct xs" and i: "i < length xs"
  have xs: "xs = take i xs @ xs ! i # drop (Suc i) xs"
    using i by (simp add: Cons_nth_drop_Suc)
  from d have "distinct (take i xs @ xs ! i # drop (Suc i) xs)"
    using xs by simp
  then show ?thesis
    unfolding del_at_def by (subst (3) xs) auto
qed

lemma nth_del_at:
  "i < length xs \<Longrightarrow> j < length xs - 1 \<Longrightarrow> del_at i xs ! j = (if j < i then xs ! j else xs ! Suc j)"
  by (auto simp: del_at_def nth_append)

subsection \<open>Simulation of an abstract specification\<close>

text \<open>
  The contract shape of the containers: an operation answers something and moves to a new state,
  or it faults; the specification is a function that takes the abstract state and the answer to
  the next abstract state, \<open>None\<close> when it does not allow the answer. \<open>grow\<close> bounds what an
  operation adds to the size \<open>meas\<close> of the abstract state, which must stay below \<open>limit\<close> (the
  sizes of the code are machine integers).
\<close>

fun run_ops :: "('o \<Rightarrow> 's \<Rightarrow> ('a \<times> 's) res) \<Rightarrow> 'o list \<Rightarrow> 's \<Rightarrow> ('a list \<times> 's) res" where
  "run_ops step [] s = Inr ([], s)"
| "run_ops step (op # ops) s =
     res_bind (step op s) (\<lambda>(a, s'). res_bind (run_ops step ops s') (\<lambda>(as, s''). Inr (a # as, s'')))"

fun accepts :: "('o \<Rightarrow> 'v \<Rightarrow> 'a \<Rightarrow> 'v option) \<Rightarrow> 'o list \<Rightarrow> 'v \<Rightarrow> 'a list \<Rightarrow> 'v option" where
  "accepts spec [] v [] = Some v"
| "accepts spec (op # ops) v (a # as) =
     (case spec op v a of None \<Rightarrow> None | Some v' \<Rightarrow> accepts spec ops v' as)"
| "accepts spec _ v _ = None"

locale simulation =
  fixes step :: "'o \<Rightarrow> 's \<Rightarrow> ('a \<times> 's) res"
    and spec :: "'o \<Rightarrow> 'v \<Rightarrow> 'a \<Rightarrow> 'v option"
    and view :: "'s \<Rightarrow> 'v"
    and inv :: "'s \<Rightarrow> bool"
    and ok :: "'o \<Rightarrow> bool"
    and grow :: "'o \<Rightarrow> nat"
    and meas :: "'v \<Rightarrow> nat"
    and limit :: nat
  assumes sim: "inv s \<Longrightarrow> ok op \<Longrightarrow> meas (view s) + grow op < limit \<Longrightarrow>
      \<exists>a s'. step op s = Inr (a, s') \<and> inv s' \<and> spec op (view s) a = Some (view s')"
    and bounded: "spec op v a = Some v' \<Longrightarrow> meas v' \<le> meas v + grow op"
begin

lemma run_ok:
  "inv s \<Longrightarrow> list_all ok ops \<Longrightarrow> meas (view s) + sum_list (map grow ops) < limit \<Longrightarrow>
     \<exists>as s'. run_ops step ops s = Inr (as, s') \<and> inv s' \<and> accepts spec ops (view s) as = Some (view s')"
proof (induction ops arbitrary: s)
  case (Cons op ops)
  then have "ok op" "meas (view s) + grow op < limit" by auto
  from sim [OF Cons.prems(1) this] obtain a s1 where
    s1: "step op s = Inr (a, s1)" "inv s1" "spec op (view s) a = Some (view s1)" by blast
  have "meas (view s1) + sum_list (map grow ops) < limit"
    using bounded [OF s1(3)] Cons.prems(3) by simp
  with Cons.IH [OF s1(2)] Cons.prems(2) s1 show ?case by auto
qed simp

end

end
