(* ===== verification/SP_ArrayList.thy ===== *)
theory SP_ArrayList
  imports SP_Base
begin

text \<open>
  \<open>SP_ArrayList\<close> (sputils.hpp, sputils.cpp): the growable array of pointers every list of
  the library is built on. The state is the capacity, the count and the memory cells; a
  cell is \<open>None\<close> when it holds NULL or was never written. The abstract view is the list of
  the stored pointers; \<open>lst_get\<close> and \<open>lst_take\<close> state the index convention
  (\<open>LAST_INDEX\<close>, out-of-range) on that view, and the later theories use the view.
  Counts stay far below \<open>INT_MAX\<close>, so they are natural numbers here.
\<close>

record 'a array_list =
  al_mMaxCount :: nat
  al_mCount :: nat
  al_mFirst :: "'a option list"

definition LAST_INDEX :: int where
  "LAST_INDEX = -1"

definition ArrayList_new :: "int \<Rightarrow> 'a array_list" where
  "ArrayList_new initCount =
     (let n = (if initCount \<le> 0 then 2 else nat initCount)
      in \<lparr> al_mMaxCount = n, al_mCount = 0, al_mFirst = replicate n None \<rparr>)"

definition ArrayList_getCount :: "'a array_list \<Rightarrow> int" where
  "ArrayList_getCount a = int (al_mCount a)"

definition ArrayList_grow :: "'a array_list \<Rightarrow> 'a array_list" where
  "ArrayList_grow a =
     (if al_mMaxCount a \<le> al_mCount a
      then let m = (al_mMaxCount a * 3) div 2 + 1
           in a\<lparr> al_mMaxCount := m,
                 al_mFirst := take (al_mCount a) (al_mFirst a)
                   @ replicate (m - al_mCount a) None \<rparr>
      else a)"

definition ArrayList_append :: "'a option \<Rightarrow> 'a array_list \<Rightarrow> int \<times> 'a array_list" where
  "ArrayList_append value a =
     (case value of
        None \<Rightarrow> (-1, a)
      | Some x \<Rightarrow>
          let b = ArrayList_grow a
          in (0, b\<lparr> al_mFirst := (al_mFirst b)[al_mCount b := Some x],
                    al_mCount := Suc (al_mCount b) \<rparr>))"

text \<open>The index an argument names in a list of \<open>n\<close> items: \<open>LAST_INDEX\<close> is the last one.\<close>

definition lst_index :: "int \<Rightarrow> nat \<Rightarrow> int" where
  "lst_index index n = (if index = LAST_INDEX then int n - 1 else index)"

definition ArrayList_takeItem :: "int \<Rightarrow> 'a array_list \<Rightarrow> 'a option \<times> 'a array_list" where
  "ArrayList_takeItem index a =
     (let i = lst_index index (al_mCount a) in
      if i < 0 \<or> int (al_mCount a) \<le> i then (None, a)
      else let k = nat i; cells = al_mFirst a; m = al_mMaxCount a in
        (cells ! k,
         a\<lparr> al_mCount := al_mCount a - 1,
            al_mFirst := (if k + 1 < m
              then take k cells @ drop (k + 1) cells @ [cells ! (m - 1)]
              else cells[k := None]) \<rparr>))"

definition ArrayList_getItem :: "int \<Rightarrow> 'a array_list \<Rightarrow> 'a option" where
  "ArrayList_getItem index a =
     (let i = lst_index index (al_mCount a) in
      if i < 0 \<or> int (al_mCount a) \<le> i then None else al_mFirst a ! nat i)"

definition ArrayList_clean :: "'a array_list \<Rightarrow> 'a array_list" where
  "ArrayList_clean a =
     a\<lparr> al_mCount := 0, al_mFirst := replicate (al_mMaxCount a) None \<rparr>"

subsection \<open>Invariant and abstraction\<close>

definition ArrayList_inv :: "'a array_list \<Rightarrow> bool" where
  "ArrayList_inv a \<longleftrightarrow>
     0 < al_mMaxCount a \<and> al_mCount a \<le> al_mMaxCount a \<and>
     length (al_mFirst a) = al_mMaxCount a \<and>
     (\<forall>i < al_mCount a. al_mFirst a ! i \<noteq> None)"

definition ArrayList_abs :: "'a array_list \<Rightarrow> 'a list" where
  "ArrayList_abs a = map the (take (al_mCount a) (al_mFirst a))"

text \<open>The index convention on the abstract list.\<close>

definition lst_get :: "int \<Rightarrow> 'a list \<Rightarrow> 'a option" where
  "lst_get index xs =
     (let i = lst_index index (length xs) in
      if i < 0 \<or> int (length xs) \<le> i then None else Some (xs ! nat i))"

definition lst_take :: "int \<Rightarrow> 'a list \<Rightarrow> 'a option \<times> 'a list" where
  "lst_take index xs =
     (let i = lst_index index (length xs) in
      if i < 0 \<or> int (length xs) \<le> i then (None, xs)
         else (Some (xs ! nat i), del_at (nat i) xs))"

lemma lst_take_last: "xs \<noteq> [] \<Longrightarrow> lst_take LAST_INDEX xs = (Some (last xs), butlast xs)"
  by (cases xs rule: rev_cases) (simp_all add: lst_take_def lst_index_def Let_def del_at_def)

lemma lst_take_first: "lst_take 0 (x # xs) = (Some x, xs)"
  by (simp add: lst_take_def lst_index_def LAST_INDEX_def Let_def)

lemma lst_take_nth:
  "i < length xs \<Longrightarrow> lst_take (int i) xs = (Some (xs ! i), del_at i xs)"
  by (simp add: lst_take_def lst_index_def LAST_INDEX_def Let_def)

lemma lst_get_nth: "i < length xs \<Longrightarrow> lst_get (int i) xs = Some (xs ! i)"
  by (simp add: lst_get_def lst_index_def LAST_INDEX_def Let_def)

lemma length_ArrayList_abs [simp]:
  "ArrayList_inv a \<Longrightarrow> length (ArrayList_abs a) = al_mCount a"
  by (simp add: ArrayList_abs_def ArrayList_inv_def)

lemma ArrayList_inv_new [invs, simp]: "ArrayList_inv (ArrayList_new n)"
  by (auto simp: ArrayList_inv_def ArrayList_new_def Let_def)

lemma ArrayList_abs_new [contracts, simp]: "ArrayList_abs (ArrayList_new n) = []"
  by (auto simp: ArrayList_abs_def ArrayList_new_def Let_def)

lemma ArrayList_grow_facts:
  assumes "ArrayList_inv a"
  shows "ArrayList_inv (ArrayList_grow a)"
    and "ArrayList_abs (ArrayList_grow a) = ArrayList_abs a"
    and "al_mCount (ArrayList_grow a) = al_mCount a"
    and "al_mCount (ArrayList_grow a) < al_mMaxCount (ArrayList_grow a)"
  using assms
  by (auto simp: ArrayList_grow_def ArrayList_inv_def ArrayList_abs_def Let_def nth_append)

lemma ArrayList_append_inv [invs]:
  assumes "ArrayList_inv a"
  shows "ArrayList_inv (snd (ArrayList_append v a))"
proof (cases v)
  case None
  with assms show ?thesis by (simp add: ArrayList_append_def)
next
  case (Some x)
  note g = ArrayList_grow_facts [OF assms]
  show ?thesis
    using Some g(1,4)
    by (auto simp: ArrayList_append_def Let_def ArrayList_inv_def nth_list_update less_Suc_eq)
qed

lemma ArrayList_append_abs [contracts]:
  assumes "ArrayList_inv a"
  shows "ArrayList_abs (snd (ArrayList_append (Some x) a)) = ArrayList_abs a @ [x]"
proof -
  note g = ArrayList_grow_facts [OF assms]
  have "ArrayList_abs (snd (ArrayList_append (Some x) a)) = ArrayList_abs (ArrayList_grow a) @ [x]"
    using g(1,4)
    by (simp add: ArrayList_append_def Let_def ArrayList_abs_def ArrayList_inv_def
        take_Suc_conv_app_nth)
  then show ?thesis by (simp add: g(2))
qed

lemma ArrayList_append_ret [simp]:
  "fst (ArrayList_append (Some x) a) = 0"
  "ArrayList_append None a = (-1, a)"
  by (simp_all add: ArrayList_append_def Let_def)

lemma ArrayList_cell:
  "ArrayList_inv a \<Longrightarrow> i < al_mCount a \<Longrightarrow> al_mFirst a ! i = Some (ArrayList_abs a ! i)"
  by (simp add: ArrayList_inv_def ArrayList_abs_def)

lemma ArrayList_getItem_abs [contracts]:
  "ArrayList_inv a \<Longrightarrow> ArrayList_getItem i a = lst_get i (ArrayList_abs a)"
  by (auto simp: ArrayList_getItem_def lst_get_def Let_def ArrayList_cell)

text \<open>The cells after \<open>takeItem\<close>: the ones behind the taken cell moved down by one.\<close>

lemma takeItem_cells:
  assumes "k < n" "n \<le> length cells" "i < n - 1"
  shows "(if k + 1 < length cells
          then take k cells @ drop (k + 1) cells @ [cells ! (length cells - 1)]
          else cells[k := None]) ! i = (if i < k then cells ! i else cells ! Suc i)"
  using assms by (auto simp: nth_append nth_list_update)

lemma ArrayList_takeItem_inv [invs]:
  assumes "ArrayList_inv a"
  shows "ArrayList_inv (snd (ArrayList_takeItem i a))"
proof (cases "lst_index i (al_mCount a) < 0 \<or> int (al_mCount a) \<le> lst_index i (al_mCount a)")
  case True
  with assms show ?thesis by (simp add: ArrayList_takeItem_def Let_def)
next
  case False
  define k where "k = nat (lst_index i (al_mCount a))"
  have k: "k < al_mCount a" using False by (auto simp: k_def)
  show ?thesis
    using assms False k takeItem_cells [OF k, of "al_mFirst a"]
    unfolding ArrayList_takeItem_def Let_def
    by (auto simp: k_def [symmetric] ArrayList_inv_def)
qed

lemma ArrayList_takeItem_abs [contracts]:
  assumes "ArrayList_inv a"
  shows "map_prod id ArrayList_abs (ArrayList_takeItem i a) = lst_take i (ArrayList_abs a)"
proof (cases "lst_index i (al_mCount a) < 0 \<or> int (al_mCount a) \<le> lst_index i (al_mCount a)")
  case True
  with assms show ?thesis
    by (auto simp: ArrayList_takeItem_def lst_take_def Let_def)
next
  case False
  define k where "k = nat (lst_index i (al_mCount a))"
  have k: "k < al_mCount a" using False by (auto simp: k_def)
  have len: "length (al_mFirst a) = al_mMaxCount a" "al_mCount a \<le> al_mMaxCount a"
    using assms by (auto simp: ArrayList_inv_def)
  have abs: "ArrayList_abs (snd (ArrayList_takeItem i a)) = del_at k (ArrayList_abs a)"
    using False k len takeItem_cells [OF k, of "al_mFirst a"]
    unfolding ArrayList_takeItem_def Let_def
    by (intro nth_equalityI) (auto simp: k_def [symmetric] ArrayList_abs_def nth_del_at)
  show ?thesis
    using abs False ArrayList_cell [OF assms k] assms
    by (auto simp: ArrayList_takeItem_def lst_take_def Let_def k_def [symmetric])
qed

lemma ArrayList_clean_inv [invs]: "ArrayList_inv a \<Longrightarrow> ArrayList_inv (ArrayList_clean a)"
  by (simp add: ArrayList_clean_def ArrayList_inv_def)

lemma ArrayList_clean_abs [contracts]: "ArrayList_abs (ArrayList_clean a) = []"
  by (simp add: ArrayList_clean_def ArrayList_abs_def)

lemmas ArrayList_contracts =
  ArrayList_append_abs ArrayList_getItem_abs ArrayList_takeItem_abs ArrayList_clean_abs
  ArrayList_append_inv ArrayList_takeItem_inv ArrayList_clean_inv

subsection \<open>The interface of an item list\<close>

text \<open>
  The classes built on the array (\<open>SP_SidList\<close>, \<open>SP_MsgBlockList\<close>, \<open>SP_Response\<close>, the
  output list of a session) use these four calls only. What they need of them is proved
  here once: the loop that takes items until the count is 0 ends and empties the list.
\<close>

locale item_list =
  fixes cnt :: "'s \<Rightarrow> int"
    and get :: "int \<Rightarrow> 's \<Rightarrow> 'a option"
    and app :: "'a option \<Rightarrow> 's \<Rightarrow> int \<times> 's"
    and tak :: "int \<Rightarrow> 's \<Rightarrow> 'a option \<times> 's"
    and abs :: "'s \<Rightarrow> 'a list"
    and inv :: "'s \<Rightarrow> bool"
  assumes cnt_abs: "inv s \<Longrightarrow> cnt s = int (length (abs s))"
    and get_abs: "inv s \<Longrightarrow> get i s = lst_get i (abs s)"
    and app_abs: "inv s \<Longrightarrow> abs (snd (app (Some x) s)) = abs s @ [x]"
    and app_inv: "inv s \<Longrightarrow> inv (snd (app v s))"
    and tak_abs: "inv s \<Longrightarrow> fst (tak i s) = fst (lst_take i (abs s)) \<and>
                    abs (snd (tak i s)) = snd (lst_take i (abs s))"
    and tak_inv: "inv s \<Longrightarrow> inv (snd (tak i s))"
begin

text \<open>\<open>for( ; getCount() > 0; ) use( takeItem( index ) )\<close>, with fuel for the loop.\<close>

fun drain :: "nat \<Rightarrow> int \<Rightarrow> 's \<Rightarrow> ('a option list \<times> 's) option" where
  "drain 0 i s = (if 0 < cnt s then None else Some ([], s))"
| "drain (Suc n) i s =
     (if 0 < cnt s
      then (case tak i s of (r, t) \<Rightarrow> map_option (map_prod (Cons r) id) (drain n i t))
      else Some ([], s))"

lemma drain_last:
  assumes "inv s" "length (abs s) \<le> n"
  shows "\<exists>t. drain n LAST_INDEX s = Some (map Some (rev (abs s)), t) \<and> inv t \<and> abs t = []"
  using assms
proof (induction n arbitrary: s)
  case 0
  then show ?case by (simp add: cnt_abs)
next
  case (Suc n)
  show ?case
  proof (cases "abs s" rule: rev_cases)
    case Nil
    with Suc.prems show ?thesis by (simp add: cnt_abs)
  next
    case (snoc xs x)
    obtain r t where t: "tak LAST_INDEX s = (r, t)" by fastforce
    have "r = Some x" "abs t = xs" "inv t"
      using tak_abs [OF Suc.prems(1), of LAST_INDEX] tak_inv [OF Suc.prems(1), of LAST_INDEX]
        snoc t by (simp_all add: lst_take_def lst_index_def Let_def del_at_def)
    with Suc.IH [of t] Suc.prems snoc t show ?thesis by (auto simp: cnt_abs)
  qed
qed

lemma drain_first:
  assumes "inv s" "length (abs s) \<le> n"
  shows "\<exists>t. drain n 0 s = Some (map Some (abs s), t) \<and> inv t \<and> abs t = []"
  using assms
proof (induction n arbitrary: s)
  case 0
  then show ?case by (simp add: cnt_abs)
next
  case (Suc n)
  show ?case
  proof (cases "abs s")
    case Nil
    with Suc.prems show ?thesis by (simp add: cnt_abs)
  next
    case (Cons x xs)
    obtain r t where t: "tak 0 s = (r, t)" by fastforce
    have "r = Some x" "abs t = xs" "inv t"
      using tak_abs [OF Suc.prems(1), of 0] tak_inv [OF Suc.prems(1), of 0]
        Cons t by (simp_all add: lst_take_def lst_index_def LAST_INDEX_def Let_def)
    with Suc.IH [of t] Suc.prems Cons t show ?thesis by (auto simp: cnt_abs)
  qed
qed

end

interpretation al: item_list ArrayList_getCount ArrayList_getItem ArrayList_append
    ArrayList_takeItem ArrayList_abs ArrayList_inv
proof (unfold_locales, goal_cases)
  case (5 s i)
  from ArrayList_takeItem_abs [OF 5, of i, symmetric] show ?case by simp
qed (auto simp: ArrayList_contracts ArrayList_getCount_def)

text \<open>The list view is an item list too, so its clients use the same loop facts.\<close>

interpretation lst: item_list "\<lambda>xs. int (length xs)" lst_get
    "\<lambda>v xs. (case v of None \<Rightarrow> (-1, xs) | Some x \<Rightarrow> (0, xs @ [x]))" lst_take id "\<lambda>_. True"
  by unfold_locales (auto split: option.splits)

subsection \<open>Any use of the array is a use of a list\<close>

datatype 'a list_op = LAppend "'a option" | LGet int | LTake int | LCount | LClean

datatype 'a list_out = OutRet int | OutPtr "'a option" | OutUnit

fun ArrayList_exec :: "'a list_op list \<Rightarrow> 'a array_list \<Rightarrow> 'a list_out list" where
  "ArrayList_exec [] a = []"
| "ArrayList_exec (LAppend v # ops) a =
     OutRet (fst (ArrayList_append v a)) # ArrayList_exec ops (snd (ArrayList_append v a))"
| "ArrayList_exec (LGet i # ops) a = OutPtr (ArrayList_getItem i a) # ArrayList_exec ops a"
| "ArrayList_exec (LTake i # ops) a =
     OutPtr (fst (ArrayList_takeItem i a)) # ArrayList_exec ops (snd (ArrayList_takeItem i a))"
| "ArrayList_exec (LCount # ops) a = OutRet (ArrayList_getCount a) # ArrayList_exec ops a"
| "ArrayList_exec (LClean # ops) a = OutUnit # ArrayList_exec ops (ArrayList_clean a)"

fun list_spec :: "'a list_op list \<Rightarrow> 'a list \<Rightarrow> 'a list_out list" where
  "list_spec [] xs = []"
| "list_spec (LAppend None # ops) xs = OutRet (-1) # list_spec ops xs"
| "list_spec (LAppend (Some x) # ops) xs = OutRet 0 # list_spec ops (xs @ [x])"
| "list_spec (LGet i # ops) xs = OutPtr (lst_get i xs) # list_spec ops xs"
| "list_spec (LTake i # ops) xs =
     OutPtr (fst (lst_take i xs)) # list_spec ops (snd (lst_take i xs))"
| "list_spec (LCount # ops) xs = OutRet (int (length xs)) # list_spec ops xs"
| "list_spec (LClean # ops) xs = OutUnit # list_spec ops []"

lemma ArrayList_exec_spec:
  "ArrayList_inv a \<Longrightarrow> ArrayList_exec ops a = list_spec ops (ArrayList_abs a)"
  by (induction ops "ArrayList_abs a" arbitrary: a rule: list_spec.induct)
    (simp_all add: ArrayList_contracts al.tak_abs al.cnt_abs)

text \<open>
  The growable array behaves as a list. Any sequence of \<open>append\<close> (NULL included),
  \<open>getItem\<close>, \<open>takeItem\<close> (every index, \<open>LAST_INDEX\<close> and out-of-range ones included),
  \<open>getCount\<close> and \<open>clean\<close> on a new \<open>SP_ArrayList\<close> answers what the same sequence answers
  on a list, whatever the initial capacity.
\<close>

theorem ArrayList_is_list: "ArrayList_exec ops (ArrayList_new n) = list_spec ops []"
  by (simp add: ArrayList_exec_spec)

end
