(* ===== verification/SP_CircleQueue.thy ===== *)
theory SP_CircleQueue
  imports SP_Base
begin

text \<open>
  \<open>SP_CircleQueue\<close> (sputils.hpp, sputils.cpp): the ring buffer under the input queue, the
  output queue and the executor queue. The state is the ring as the code keeps it (cells,
  head, tail, count, capacity); the abstract view is the list of queued items, oldest
  first. The locale \<open>fifo\<close> is the interface its clients rely on; it is interpreted here
  on the ring and in \<open>SP_MsgQueue\<close> on the queue of event_msgqueue.c. The counters are
  \<open>unsigned int\<close>; a ring of more than \<open>2 ^ 30\<close> cells does not occur, so natural numbers
  show every value they take.
\<close>

subsection \<open>The interface of a queue\<close>

text \<open>
  \<open>push\<close> answers 0 when it has stored the item and leaves the queue alone otherwise;
  \<open>pop\<close> answers \<open>None\<close> (NULL) on an empty queue.
\<close>

locale fifo =
  fixes push :: "'a \<Rightarrow> 'q \<Rightarrow> int \<times> 'q"
    and pop :: "'q \<Rightarrow> 'a option \<times> 'q"
    and len :: "'q \<Rightarrow> nat"
    and abs :: "'q \<Rightarrow> 'a list"
    and inv :: "'q \<Rightarrow> bool"
  assumes push_inv: "inv q \<Longrightarrow> inv (snd (push x q))"
    and push_abs: "inv q \<Longrightarrow> fst (push x q) = 0 \<Longrightarrow> abs (snd (push x q)) = abs q @ [x]"
    and push_full: "inv q \<Longrightarrow> fst (push x q) \<noteq> 0 \<Longrightarrow> snd (push x q) = q"
    and pop_inv: "inv q \<Longrightarrow> inv (snd (pop q))"
    and pop_fst: "inv q \<Longrightarrow> fst (pop q) = (case abs q of [] \<Rightarrow> None | x # _ \<Rightarrow> Some x)"
    and pop_abs: "inv q \<Longrightarrow> abs (snd (pop q)) = tl (abs q)"
    and len_abs: "inv q \<Longrightarrow> len q = length (abs q)"
begin

text \<open>Pushing a sequence of items and popping until the queue is empty.\<close>

fun push_all :: "'a list \<Rightarrow> 'q \<Rightarrow> int list \<times> 'q" where
  "push_all [] q = ([], q)"
| "push_all (x # xs) q =
     (let (r, q') = push x q; (rs, q'') = push_all xs q' in (r # rs, q''))"

fun pop_all :: "nat \<Rightarrow> 'q \<Rightarrow> 'a list \<times> 'q" where
  "pop_all 0 q = ([], q)"
| "pop_all (Suc n) q =
     (case pop q of (None, q') \<Rightarrow> ([], q')
      | (Some x, q') \<Rightarrow> (let (xs, q'') = pop_all n q' in (x # xs, q'')))"

lemma push_all_inv: "inv q \<Longrightarrow> inv (snd (push_all xs q))"
proof (induction xs arbitrary: q)
  case (Cons x xs)
  then show ?case using push_inv [OF Cons.prems, of x]
    by (auto simp: Let_def split: prod.splits) (metis snd_conv)
qed simp

lemma push_all_abs:
  assumes "inv q" "\<forall>r \<in> set (fst (push_all xs q)). r = 0"
  shows "abs (snd (push_all xs q)) = abs q @ xs"
  using assms
proof (induction xs arbitrary: q)
  case (Cons x xs)
  obtain r q' where p: "push x q = (r, q')" by fastforce
  have q': "inv q'" using push_inv [OF Cons.prems(1), of x] p by simp
  have "r = 0" using Cons.prems(2) p by (auto simp: Let_def split: prod.splits)
  then have "abs q' = abs q @ [x]" using push_abs [OF Cons.prems(1), of x] p by simp
  moreover have "\<forall>r \<in> set (fst (push_all xs q')). r = 0"
    using Cons.prems(2) p by (auto simp: Let_def split: prod.splits)
  ultimately show ?case using Cons.IH [OF q'] p
    by (auto simp: Let_def split: prod.splits)
qed simp

lemma pop_all_abs:
  assumes "inv q" "length (abs q) \<le> n"
  shows "fst (pop_all n q) = abs q \<and> abs (snd (pop_all n q)) = [] \<and> inv (snd (pop_all n q))"
  using assms
proof (induction n arbitrary: q)
  case 0
  then show ?case by simp
next
  case (Suc n)
  obtain r q' where p: "pop q = (r, q')" by fastforce
  have q': "inv q'" "abs q' = tl (abs q)" "r = (case abs q of [] \<Rightarrow> None | x # _ \<Rightarrow> Some x)"
    using pop_inv [OF Suc.prems(1)] pop_abs [OF Suc.prems(1)] pop_fst [OF Suc.prems(1)] p
    by simp_all
  show ?case
  proof (cases "abs q")
    case Nil
    with p q' show ?thesis by simp
  next
    case (Cons x xs)
    with Suc.prems(2) q'(2) have "length (abs q') \<le> n" by simp
    from Suc.IH [OF q'(1) this] Cons p q' show ?thesis
      by (auto simp: Let_def split: prod.splits)
  qed
qed

text \<open>What is pushed into an empty queue comes out again, in the same order.\<close>

lemma push_pop_order:
  assumes "inv q" "abs q = []" "\<forall>r \<in> set (fst (push_all xs q)). r = 0" "length xs \<le> n"
  shows "fst (pop_all n (snd (push_all xs q))) = xs"
  using pop_all_abs [OF push_all_inv [OF assms(1)], of xs n] push_all_abs [OF assms(1,3)] assms
  by simp

end

subsection \<open>The ring buffer\<close>

record 'a circle_queue =
  cq_mEntries :: "'a option list"
  cq_mHead :: nat
  cq_mTail :: nat
  cq_mCount :: nat
  cq_mMaxCount :: nat

definition CircleQueue_new :: "'a circle_queue" where
  "CircleQueue_new =
     \<lparr> cq_mEntries = replicate 8 None, cq_mHead = 0, cq_mTail = 0, cq_mCount = 0,
       cq_mMaxCount = 8 \<rparr>"

text \<open>The part of \<open>push\<close> that moves the items of a full ring into a larger one.\<close>

definition CircleQueue_grow :: "'a circle_queue \<Rightarrow> 'a circle_queue" where
  "CircleQueue_grow q =
     (if cq_mMaxCount q \<le> cq_mCount q
      then let m = (cq_mMaxCount q * 3) div 2 + 1;
               (headLen, tailLen) =
                 (if cq_mHead q < cq_mTail q then (cq_mTail q - cq_mHead q, 0)
                  else (cq_mCount q - cq_mTail q, cq_mTail q))
           in q\<lparr> cq_mMaxCount := m,
                 cq_mEntries := take headLen (drop (cq_mHead q) (cq_mEntries q))
                   @ take tailLen (cq_mEntries q)
                   @ replicate (m - (headLen + tailLen)) None,
                 cq_mHead := 0,
                 cq_mTail := headLen + tailLen \<rparr>
      else q)"

definition CircleQueue_push :: "'a \<Rightarrow> 'a circle_queue \<Rightarrow> 'a circle_queue" where
  "CircleQueue_push item q =
     (let p = CircleQueue_grow q
      in p\<lparr> cq_mEntries := (cq_mEntries p)[cq_mTail p := Some item],
            cq_mTail := (cq_mTail p + 1) mod cq_mMaxCount p,
            cq_mCount := cq_mCount p + 1 \<rparr>)"

definition CircleQueue_pop :: "'a circle_queue \<Rightarrow> 'a option \<times> 'a circle_queue" where
  "CircleQueue_pop q =
     (if 0 < cq_mCount q
      then (cq_mEntries q ! cq_mHead q,
            q\<lparr> cq_mHead := (cq_mHead q + 1) mod cq_mMaxCount q,
               cq_mCount := cq_mCount q - 1 \<rparr>)
      else (None, q))"

definition CircleQueue_top :: "'a circle_queue \<Rightarrow> 'a option" where
  "CircleQueue_top q = (if 0 < cq_mCount q then cq_mEntries q ! cq_mHead q else None)"

definition CircleQueue_getLength :: "'a circle_queue \<Rightarrow> nat" where
  "CircleQueue_getLength q = cq_mCount q"

subsection \<open>Invariant and abstraction\<close>

definition ring_pos :: "'a circle_queue \<Rightarrow> nat \<Rightarrow> nat" where
  "ring_pos q i = (cq_mHead q + i) mod cq_mMaxCount q"

definition CircleQueue_inv :: "'a circle_queue \<Rightarrow> bool" where
  "CircleQueue_inv q \<longleftrightarrow>
     0 < cq_mMaxCount q \<and> length (cq_mEntries q) = cq_mMaxCount q \<and>
     cq_mHead q < cq_mMaxCount q \<and> cq_mCount q \<le> cq_mMaxCount q \<and>
     cq_mTail q = ring_pos q (cq_mCount q) \<and>
     (\<forall>i < cq_mCount q. cq_mEntries q ! ring_pos q i \<noteq> None)"

definition CircleQueue_abs :: "'a circle_queue \<Rightarrow> 'a list" where
  "CircleQueue_abs q = map (\<lambda>i. the (cq_mEntries q ! ring_pos q i)) [0..<cq_mCount q]"

lemma length_CircleQueue_abs [simp]: "length (CircleQueue_abs q) = cq_mCount q"
  by (simp add: CircleQueue_abs_def)

lemma cq_mCount_pos: "0 < cq_mCount q \<longleftrightarrow> CircleQueue_abs q \<noteq> []"
  by (metis length_CircleQueue_abs length_greater_0_conv)

lemma CircleQueue_new_inv [invs, simp]: "CircleQueue_inv CircleQueue_new"
  by (simp add: CircleQueue_inv_def CircleQueue_new_def ring_pos_def)

lemma CircleQueue_new_abs [contracts, simp]: "CircleQueue_abs CircleQueue_new = []"
  by (simp add: CircleQueue_abs_def CircleQueue_new_def)

lemma ring_pos_less: "CircleQueue_inv q \<Longrightarrow> ring_pos q i < length (cq_mEntries q)"
  by (simp add: CircleQueue_inv_def ring_pos_def)

lemma mod_shift_inj:
  assumes "i < m" "j < m" "(h + i) mod m = (h + j) mod (m::nat)"
  shows "i = j"
proof -
  have "(int h + int i) mod int m = (int h + int j) mod int m"
    using assms(3) by (metis of_nat_add zmod_int)
  then have d: "int m dvd int i - int j" by (simp add: mod_eq_dvd_iff)
  have b: "\<bar>int i - int j\<bar> < int m" using assms(1,2) by arith
  show ?thesis
  proof (rule ccontr)
    assume "i \<noteq> j"
    then have "int i - int j \<noteq> 0" by simp
    from dvd_imp_le_int [OF this d] b show False by simp
  qed
qed

lemma ring_pos_inj:
  "CircleQueue_inv q \<Longrightarrow> i < cq_mMaxCount q \<Longrightarrow> j < cq_mMaxCount q \<Longrightarrow>
     ring_pos q i = ring_pos q j \<Longrightarrow> i = j"
  unfolding ring_pos_def by (rule mod_shift_inj)

text \<open>A full ring has its tail on its head, so the two copied pieces are the whole ring in order.\<close>

lemma CircleQueue_grow_full:
  assumes inv: "CircleQueue_inv q" and full: "cq_mCount q = cq_mMaxCount q"
  shows "cq_mTail q = cq_mHead q"
    and "take (cq_mCount q - cq_mTail q) (drop (cq_mHead q) (cq_mEntries q))
         @ take (cq_mTail q) (cq_mEntries q) = map Some (CircleQueue_abs q)"
proof -
  show th: "cq_mTail q = cq_mHead q"
    using assms by (simp add: CircleQueue_inv_def ring_pos_def)
  show "take (cq_mCount q - cq_mTail q) (drop (cq_mHead q) (cq_mEntries q))
         @ take (cq_mTail q) (cq_mEntries q) = map Some (CircleQueue_abs q)" (is "?l = _")
  proof (rule nth_equalityI)
    show "length ?l = length (map Some (CircleQueue_abs q))"
      using assms th by (simp add: CircleQueue_inv_def)
    fix i assume "i < length ?l"
    then have i: "i < cq_mMaxCount q" using assms th by (simp add: CircleQueue_inv_def)
    have pos: "ring_pos q i = (if cq_mHead q + i < cq_mMaxCount q then cq_mHead q + i
                 else i + cq_mHead q - cq_mMaxCount q)"
      using inv i by (auto simp: ring_pos_def CircleQueue_inv_def mod_if add.commute)
    have "?l ! i = cq_mEntries q ! ring_pos q i"
      using inv full i by (auto simp: th pos nth_append CircleQueue_inv_def min_def)
    also have "\<dots> = Some (CircleQueue_abs q ! i)"
      using inv full i by (auto simp: CircleQueue_abs_def CircleQueue_inv_def)
    finally show "?l ! i = map Some (CircleQueue_abs q) ! i" using i full by simp
  qed
qed

lemma CircleQueue_grow_facts:
  assumes "CircleQueue_inv q"
  shows "CircleQueue_inv (CircleQueue_grow q)"
    and "CircleQueue_abs (CircleQueue_grow q) = CircleQueue_abs q"
    and "cq_mCount (CircleQueue_grow q) = cq_mCount q"
    and "cq_mCount (CircleQueue_grow q) < cq_mMaxCount (CircleQueue_grow q)"
proof -
  let ?p = "CircleQueue_grow q"
  have "CircleQueue_inv ?p \<and> CircleQueue_abs ?p = CircleQueue_abs q
    \<and> cq_mCount ?p = cq_mCount q \<and> cq_mCount ?p < cq_mMaxCount ?p"
  proof (cases "cq_mMaxCount q \<le> cq_mCount q")
    case False
    with assms show ?thesis by (simp add: CircleQueue_grow_def)
  next
    case True
    with assms have full: "cq_mCount q = cq_mMaxCount q" by (simp add: CircleQueue_inv_def)
    let ?m = "(cq_mMaxCount q * 3) div 2 + 1"
    have m: "cq_mMaxCount q < ?m" by simp
    have p: "?p = q\<lparr> cq_mMaxCount := ?m,
        cq_mEntries := map Some (CircleQueue_abs q) @ replicate (?m - cq_mMaxCount q) None,
        cq_mHead := 0, cq_mTail := cq_mMaxCount q \<rparr>"
      using True full assms CircleQueue_grow_full [OF assms full]
      by (simp add: CircleQueue_grow_def Let_def CircleQueue_inv_def)
    have r: "ring_pos ?p i = i" if "i \<le> cq_mMaxCount q" for i
      using that m by (simp add: p ring_pos_def)
    have a: "CircleQueue_abs ?p = CircleQueue_abs q"
      using full r by (intro nth_equalityI) (auto simp: p CircleQueue_abs_def nth_append)
    show ?thesis
      using a full m r by (auto simp: p CircleQueue_inv_def nth_append)
  qed
  then show "CircleQueue_inv ?p" "CircleQueue_abs ?p = CircleQueue_abs q"
    "cq_mCount ?p = cq_mCount q" "cq_mCount ?p < cq_mMaxCount ?p" by blast+
qed

lemma CircleQueue_push_facts:
  assumes "CircleQueue_inv q"
  shows "CircleQueue_inv (CircleQueue_push x q)"
    and "CircleQueue_abs (CircleQueue_push x q) = CircleQueue_abs q @ [x]"
proof -
  define p where "p = CircleQueue_grow q"
  note g = CircleQueue_grow_facts [OF assms, folded p_def]
  let ?n = "CircleQueue_push x q"
  have n: "?n = p\<lparr> cq_mEntries := (cq_mEntries p)[ring_pos p (cq_mCount p) := Some x],
      cq_mTail := (cq_mTail p + 1) mod cq_mMaxCount p, cq_mCount := cq_mCount p + 1 \<rparr>"
    using g(1) by (simp add: CircleQueue_push_def p_def [symmetric] Let_def CircleQueue_inv_def)
  have pos: "ring_pos ?n i = ring_pos p i" for i by (simp add: n ring_pos_def)
  have old: "ring_pos p i \<noteq> ring_pos p (cq_mCount p)" if "i < cq_mCount p" for i
    using ring_pos_inj [OF g(1), of i "cq_mCount p"] that g(4) by auto
  have new: "ring_pos p (cq_mCount p) < length (cq_mEntries p)"
    by (rule ring_pos_less [OF g(1)])
  have tl: "(cq_mTail p + 1) mod cq_mMaxCount p = ring_pos p (cq_mCount p + 1)"
    using g(1) by (simp add: CircleQueue_inv_def ring_pos_def mod_Suc_eq)
  show "CircleQueue_inv ?n"
    using g(1,4) old new tl
    by (auto simp: CircleQueue_inv_def pos) (auto simp: n nth_list_update less_Suc_eq)
  have "CircleQueue_abs ?n = CircleQueue_abs p @ [x]"
    using old [symmetric] new by (simp add: CircleQueue_abs_def pos) (auto simp: n nth_list_update)
  then show "CircleQueue_abs ?n = CircleQueue_abs q @ [x]" by (simp add: g(2))
qed

lemma CircleQueue_cell:
  "CircleQueue_inv q \<Longrightarrow> i < cq_mCount q \<Longrightarrow>
     cq_mEntries q ! ring_pos q i = Some (CircleQueue_abs q ! i)"
  by (simp add: CircleQueue_inv_def CircleQueue_abs_def)

lemma CircleQueue_head:
  "CircleQueue_inv q \<Longrightarrow> 0 < cq_mCount q \<Longrightarrow>
     cq_mEntries q ! cq_mHead q = Some (hd (CircleQueue_abs q))"
  using CircleQueue_cell [of q 0]
  by (simp add: ring_pos_def CircleQueue_inv_def hd_conv_nth length_greater_0_conv [symmetric]
      del: length_greater_0_conv)

lemma CircleQueue_top_abs [contracts]:
  "CircleQueue_inv q \<Longrightarrow>
     CircleQueue_top q = (case CircleQueue_abs q of [] \<Rightarrow> None | x # _ \<Rightarrow> Some x)"
  using CircleQueue_head [of q]
  by (auto simp: CircleQueue_top_def cq_mCount_pos split: list.splits)

lemma CircleQueue_pop_fst [contracts]:
  "CircleQueue_inv q \<Longrightarrow>
     fst (CircleQueue_pop q) = (case CircleQueue_abs q of [] \<Rightarrow> None | x # _ \<Rightarrow> Some x)"
  using CircleQueue_head [of q]
  by (auto simp: CircleQueue_pop_def cq_mCount_pos split: list.splits)

lemma CircleQueue_pop_facts:
  assumes "CircleQueue_inv q"
  shows "CircleQueue_inv (snd (CircleQueue_pop q))"
    and "CircleQueue_abs (snd (CircleQueue_pop q)) = tl (CircleQueue_abs q)"
proof -
  let ?n = "snd (CircleQueue_pop q)"
  have "CircleQueue_inv ?n \<and> CircleQueue_abs ?n = tl (CircleQueue_abs q)"
  proof (cases "0 < cq_mCount q")
    case False
    with assms show ?thesis by (simp add: CircleQueue_pop_def CircleQueue_abs_def)
  next
    case True
    have pos: "ring_pos ?n i = ring_pos q (Suc i)" for i
      using True by (simp add: CircleQueue_pop_def ring_pos_def mod_add_left_eq)
    have "CircleQueue_inv ?n"
      using assms True by (auto simp: CircleQueue_inv_def pos) (simp_all add: CircleQueue_pop_def)
    moreover have "CircleQueue_abs ?n = tl (CircleQueue_abs q)"
    proof (rule nth_equalityI)
      show "length (CircleQueue_abs ?n) = length (tl (CircleQueue_abs q))"
        using True by (simp add: CircleQueue_pop_def)
      fix i assume "i < length (CircleQueue_abs ?n)"
      then have i: "Suc i < cq_mCount q" using True by (simp add: CircleQueue_pop_def)
      then have "CircleQueue_abs ?n ! i = the (cq_mEntries q ! ring_pos q (Suc i))"
        using True pos [of i] by (simp add: CircleQueue_abs_def CircleQueue_pop_def)
      with i show "CircleQueue_abs ?n ! i = tl (CircleQueue_abs q) ! i"
        by (simp add: nth_tl) (simp add: CircleQueue_abs_def)
    qed
    ultimately show ?thesis by simp
  qed
  then show "CircleQueue_inv ?n" "CircleQueue_abs ?n = tl (CircleQueue_abs q)" by blast+
qed

lemma CircleQueue_getLength_abs [contracts]:
  "CircleQueue_getLength q = length (CircleQueue_abs q)"
  by (simp add: CircleQueue_getLength_def)

lemmas CircleQueue_contracts =
  CircleQueue_push_facts CircleQueue_pop_facts CircleQueue_pop_fst CircleQueue_top_abs
  CircleQueue_getLength_abs

interpretation cq: fifo "\<lambda>x q. (0, CircleQueue_push x q)" CircleQueue_pop CircleQueue_getLength
    CircleQueue_abs CircleQueue_inv
  by unfold_locales (auto simp: CircleQueue_contracts)

subsection \<open>Any use of the queue is a use of a list\<close>

datatype 'a queue_op = QPush 'a | QPop | QTop | QLength

datatype 'a queue_out = OutNone | OutItem "'a option" | OutLength nat

fun CircleQueue_exec :: "'a queue_op list \<Rightarrow> 'a circle_queue \<Rightarrow> 'a queue_out list" where
  "CircleQueue_exec [] q = []"
| "CircleQueue_exec (QPush x # ops) q = OutNone # CircleQueue_exec ops (CircleQueue_push x q)"
| "CircleQueue_exec (QPop # ops) q =
     OutItem (fst (CircleQueue_pop q)) # CircleQueue_exec ops (snd (CircleQueue_pop q))"
| "CircleQueue_exec (QTop # ops) q = OutItem (CircleQueue_top q) # CircleQueue_exec ops q"
| "CircleQueue_exec (QLength # ops) q =
     OutLength (CircleQueue_getLength q) # CircleQueue_exec ops q"

definition first_item :: "'a list \<Rightarrow> 'a option" where
  "first_item xs = (case xs of [] \<Rightarrow> None | x # _ \<Rightarrow> Some x)"

fun queue_spec :: "'a queue_op list \<Rightarrow> 'a list \<Rightarrow> 'a queue_out list" where
  "queue_spec [] xs = []"
| "queue_spec (QPush x # ops) xs = OutNone # queue_spec ops (xs @ [x])"
| "queue_spec (QPop # ops) xs = OutItem (first_item xs) # queue_spec ops (tl xs)"
| "queue_spec (QTop # ops) xs = OutItem (first_item xs) # queue_spec ops xs"
| "queue_spec (QLength # ops) xs = OutLength (length xs) # queue_spec ops xs"

lemma CircleQueue_exec_spec:
  "CircleQueue_inv q \<Longrightarrow> CircleQueue_exec ops q = queue_spec ops (CircleQueue_abs q)"
  by (induction ops "CircleQueue_abs q" arbitrary: q rule: queue_spec.induct)
    (simp_all add: CircleQueue_contracts first_item_def)

text \<open>
  The ring buffer with its wrap-around and growth behaves as a FIFO list. Any sequence of
  \<open>push\<close>, \<open>pop\<close>, \<open>top\<close> and \<open>getLength\<close> on a new \<open>SP_CircleQueue\<close> answers what the same
  sequence answers on an unbounded list.
\<close>

theorem CircleQueue_is_fifo: "CircleQueue_exec ops CircleQueue_new = queue_spec ops []"
  by (simp add: CircleQueue_exec_spec)

end
