(* ===== verification/SP_BlockingQueue.thy ===== *)
theory SP_BlockingQueue
  imports SP_CircleQueue
begin

text \<open>
  \<open>SP_BlockingQueue\<close> (sputils.hpp, sputils.cpp): a ring behind a mutex and a condition
  variable. Every method is one critical section, except that \<open>pop\<close> releases the mutex
  inside \<open>sp_thread_cond_wait\<close>; so \<open>pop\<close> is up to two steps, with the waiting thread in
  between. The steps of the threads interleave freely. \<open>sp_thread_cond_signal\<close> wakes one
  waiting thread, if there is one, and \<open>sp_thread_cond_wait\<close> may return without a signal,
  as POSIX allows. The state keeps the pushed items and the values \<open>pop\<close> returned as a
  history; the code has no counterpart of these two fields.
\<close>

type_synonym thread_id = nat

record 'a blocking_queue =
  bq_mQueue :: "'a circle_queue"
  bq_waiting :: "thread_id set"       \<comment> \<open>blocked in \<open>sp_thread_cond_wait\<close>\<close>
  bq_woken :: "thread_id set"         \<comment> \<open>signalled, not yet holding the mutex again\<close>
  bq_pushed :: "'a list"
  bq_popped :: "(thread_id \<times> 'a option) list"

definition BlockingQueue_new :: "'a blocking_queue" where
  "BlockingQueue_new =
     \<lparr> bq_mQueue = CircleQueue_new, bq_waiting = {}, bq_woken = {}, bq_pushed = [], bq_popped = [] \<rparr>"

datatype 'a bq_event =
    BqPush 'a "thread_id option"   \<comment> \<open>an item and the thread the signal wakes\<close>
  | BqPop thread_id                \<comment> \<open>\<open>pop\<close> that finds the queue non-empty\<close>
  | BqWait thread_id               \<comment> \<open>\<open>pop\<close> that finds it empty and waits\<close>
  | BqWake thread_id               \<comment> \<open>the rest of \<open>pop\<close> after \<open>sp_thread_cond_wait\<close> returns\<close>
  | BqSpurious thread_id           \<comment> \<open>a wake-up without a signal\<close>

definition BlockingQueue_push :: "'a \<Rightarrow> thread_id option \<Rightarrow> 'a blocking_queue \<Rightarrow> 'a blocking_queue" where
  "BlockingQueue_push item sig s =
     s\<lparr> bq_mQueue := CircleQueue_push item (bq_mQueue s),
        bq_waiting := bq_waiting s - set_option sig,
        bq_woken := bq_woken s \<union> set_option sig,
        bq_pushed := bq_pushed s @ [item] \<rparr>"

text \<open>The tail of \<open>pop\<close>, entered with the mutex held and whatever the queue holds then.\<close>

definition BlockingQueue_pop :: "thread_id \<Rightarrow> 'a blocking_queue \<Rightarrow> 'a blocking_queue" where
  "BlockingQueue_pop t s =
     (let (ret, q) = CircleQueue_pop (bq_mQueue s)
      in s\<lparr> bq_mQueue := q, bq_woken := bq_woken s - {t},
            bq_popped := bq_popped s @ [(t, ret)] \<rparr>)"

definition BlockingQueue_top :: "'a blocking_queue \<Rightarrow> 'a option" where
  "BlockingQueue_top s = CircleQueue_top (bq_mQueue s)"

definition BlockingQueue_getLength :: "'a blocking_queue \<Rightarrow> nat" where
  "BlockingQueue_getLength s = CircleQueue_getLength (bq_mQueue s)"

definition bq_idle :: "thread_id \<Rightarrow> 'a blocking_queue \<Rightarrow> bool" where
  "bq_idle t s \<longleftrightarrow> t \<notin> bq_waiting s \<and> t \<notin> bq_woken s"

inductive bq_step :: "'a blocking_queue \<Rightarrow> 'a bq_event \<Rightarrow> 'a blocking_queue \<Rightarrow> bool" where
  push_none: "bq_waiting s = {} \<Longrightarrow>
     bq_step s (BqPush x None) (BlockingQueue_push x None s)"
| push_wake: "t \<in> bq_waiting s \<Longrightarrow>
     bq_step s (BqPush x (Some t)) (BlockingQueue_push x (Some t) s)"
| pop_now: "bq_idle t s \<Longrightarrow> BlockingQueue_getLength s \<noteq> 0 \<Longrightarrow>
     bq_step s (BqPop t) (BlockingQueue_pop t s)"
| pop_wait: "bq_idle t s \<Longrightarrow> BlockingQueue_getLength s = 0 \<Longrightarrow>
     bq_step s (BqWait t) (s\<lparr> bq_waiting := insert t (bq_waiting s) \<rparr>)"
| pop_wake: "t \<in> bq_woken s \<Longrightarrow>
     bq_step s (BqWake t) (BlockingQueue_pop t s)"
| spurious: "t \<in> bq_waiting s \<Longrightarrow>
     bq_step s (BqSpurious t)
       (s\<lparr> bq_waiting := bq_waiting s - {t}, bq_woken := insert t (bq_woken s) \<rparr>)"

inductive bq_run :: "'a bq_event list \<Rightarrow> 'a blocking_queue \<Rightarrow> bool" where
  start: "bq_run [] BlockingQueue_new"
| step: "bq_run es s \<Longrightarrow> bq_step s e t \<Longrightarrow> bq_run (es @ [e]) t"

inductive_simps bq_step_simps:
  "bq_step s (BqPush x w) t" "bq_step s (BqPop i) t" "bq_step s (BqWait i) t"
  "bq_step s (BqWake i) t" "bq_step s (BqSpurious i) t"

inductive_cases bq_stepE: "bq_step s e t"

subsection \<open>Every item is delivered once, in order\<close>

definition bq_delivered :: "'a blocking_queue \<Rightarrow> 'a list" where
  "bq_delivered s = List.map_filter snd (bq_popped s)"

definition bq_inv :: "'a blocking_queue \<Rightarrow> bool" where
  "bq_inv s \<longleftrightarrow> CircleQueue_inv (bq_mQueue s) \<and>
     bq_pushed s = bq_delivered s @ CircleQueue_abs (bq_mQueue s)"

lemma bq_delivered_snoc:
  "bq_delivered (s\<lparr> bq_popped := bq_popped s @ [(t, r)] \<rparr>) =
     bq_delivered s @ (case r of None \<Rightarrow> [] | Some x \<Rightarrow> [x])"
  by (simp add: bq_delivered_def List.map_filter_def split: option.splits)

lemma BlockingQueue_pop_inv: "bq_inv s \<Longrightarrow> bq_inv (BlockingQueue_pop t s)"
proof -
  assume inv: "bq_inv s"
  then have q: "CircleQueue_inv (bq_mQueue s)" by (simp add: bq_inv_def)
  obtain r q' where p: "CircleQueue_pop (bq_mQueue s) = (r, q')" by fastforce
  have q': "CircleQueue_inv q'" "CircleQueue_abs q' = tl (CircleQueue_abs (bq_mQueue s))"
    and r: "r = (case CircleQueue_abs (bq_mQueue s) of [] \<Rightarrow> None | x # _ \<Rightarrow> Some x)"
    using cq.pop_inv [OF q] cq.pop_abs [OF q] cq.pop_fst [OF q] p by simp_all
  from inv q' r p show ?thesis
    by (auto simp: bq_inv_def BlockingQueue_pop_def bq_delivered_def List.map_filter_def
        split: list.splits)
qed

lemma BlockingQueue_push_inv: "bq_inv s \<Longrightarrow> bq_inv (BlockingQueue_push x w s)"
  using cq.push_inv [of "bq_mQueue s" x] cq.push_abs [of "bq_mQueue s" x]
  by (simp add: bq_inv_def BlockingQueue_push_def bq_delivered_def)

lemma bq_step_inv: "bq_step s e t \<Longrightarrow> bq_inv s \<Longrightarrow> bq_inv t"
  by (induction rule: bq_step.induct)
    (simp_all add: BlockingQueue_push_inv BlockingQueue_pop_inv, simp_all add: bq_inv_def bq_delivered_def)

lemma bq_run_inv: "bq_run es s \<Longrightarrow> bq_inv s"
proof (induction rule: bq_run.induct)
  case start
  show ?case
    by (simp add: bq_inv_def BlockingQueue_new_def bq_delivered_def List.map_filter_def)
next
  case (step es s e t)
  then show ?case by (blast intro: bq_step_inv)
qed

subsection \<open>When \<open>pop\<close> answers NULL\<close>

text \<open>
  One consumer, no spurious wake-up: a woken consumer finds the item it was woken for,
  because nobody else takes items.
\<close>

fun bq_event_of :: "thread_id \<Rightarrow> 'a bq_event \<Rightarrow> bool" where
  "bq_event_of c (BqPush x w) = True"
| "bq_event_of c (BqPop t) = (t = c)"
| "bq_event_of c (BqWait t) = (t = c)"
| "bq_event_of c (BqWake t) = (t = c)"
| "bq_event_of c (BqSpurious t) = False"

definition bq_single :: "thread_id \<Rightarrow> 'a blocking_queue \<Rightarrow> bool" where
  "bq_single c s \<longleftrightarrow> bq_inv s \<and> bq_waiting s \<union> bq_woken s \<subseteq> {c} \<and>
     (bq_woken s \<noteq> {} \<longrightarrow> CircleQueue_abs (bq_mQueue s) \<noteq> []) \<and>
     (\<forall>(t, r) \<in> set (bq_popped s). r \<noteq> None)"

lemma bq_pop_nonempty:
  assumes "bq_inv s" "CircleQueue_abs (bq_mQueue s) \<noteq> []"
  shows "\<exists>x. bq_popped (BlockingQueue_pop t s) = bq_popped s @ [(t, Some x)]"
proof -
  have "CircleQueue_inv (bq_mQueue s)" using assms(1) by (simp add: bq_inv_def)
  from cq.pop_fst [OF this] assms(2) show ?thesis
    by (auto simp: BlockingQueue_pop_def Let_def split: prod.splits list.splits)
qed

lemma bq_pop_sets:
  "bq_waiting (BlockingQueue_pop t s) = bq_waiting s"
  "bq_woken (BlockingQueue_pop t s) = bq_woken s - {t}"
  by (simp_all add: BlockingQueue_pop_def split: prod.splits)

lemma bq_single_step:
  assumes "bq_step s e t" "bq_single c s" "bq_event_of c e"
  shows "bq_single c t"
proof -
  have inv: "bq_inv s" and inv': "bq_inv t"
    using assms bq_step_inv by (auto simp: bq_single_def)
  from assms(1) show ?thesis
  proof (cases rule: bq_step.cases)
    case (push_none x)
    with assms(2) inv' cq.push_abs [of "bq_mQueue s" x] inv show ?thesis
      by (auto simp: bq_single_def BlockingQueue_push_def bq_inv_def)
  next
    case (push_wake w x)
    with assms(2) inv' cq.push_abs [of "bq_mQueue s" x] inv show ?thesis
      by (auto simp: bq_single_def BlockingQueue_push_def bq_inv_def)
  next
    case (pop_now w)
    with inv have "CircleQueue_abs (bq_mQueue s) \<noteq> []"
      using cq_mCount_pos [of "bq_mQueue s"]
      by (simp add: BlockingQueue_getLength_def CircleQueue_getLength_def)
    from bq_pop_nonempty [OF inv this, of w] pop_now assms(2,3) inv' show ?thesis
      by (auto simp: bq_single_def bq_pop_sets bq_idle_def)
  next
    case (pop_wait w)
    with assms(2,3) inv' show ?thesis by (auto simp: bq_single_def bq_idle_def)
  next
    case (pop_wake w)
    with assms(2) have "CircleQueue_abs (bq_mQueue s) \<noteq> []" by (auto simp: bq_single_def)
    from bq_pop_nonempty [OF inv this, of w] pop_wake assms(2,3) inv' show ?thesis
      by (auto simp: bq_single_def bq_pop_sets)
  next
    case (spurious w)
    with assms(3) show ?thesis by simp
  qed
qed

lemma bq_single_run:
  "bq_run es s \<Longrightarrow> \<forall>e \<in> set es. bq_event_of c e \<Longrightarrow> bq_single c s"
proof (induction rule: bq_run.induct)
  case start
  show ?case using bq_run_inv [OF bq_run.start]
    by (simp add: bq_single_def) (simp add: BlockingQueue_new_def)
next
  case (step es s e t)
  then show ?case by (auto intro: bq_single_step)
qed

text \<open>
  C32: whatever the interleaving of producers and consumers, the items that left an
  \<open>SP_BlockingQueue\<close> followed by the items still in its ring are the pushed items in the
  order they were pushed: no item is lost, duplicated or overtaken.
\<close>

theorem BlockingQueue_delivers_in_order:
  assumes "bq_run es s"
  shows "bq_pushed s = bq_delivered s @ CircleQueue_abs (bq_mQueue s)"
  using bq_run_inv [OF assms] by (simp add: bq_inv_def)

lemma bq_run_example:
  "bq_run [BqWait 1, BqPush (7::nat) (Some 1), BqWake 1]
     (BlockingQueue_pop 1 (BlockingQueue_push 7 (Some 1)
       (BlockingQueue_new\<lparr> bq_waiting := {1} \<rparr>)))"
proof -
  let ?s1 = "(BlockingQueue_new :: nat blocking_queue)\<lparr> bq_waiting := {1} \<rparr>"
  have 1: "bq_run ([] @ [BqWait 1]) ?s1"
    by (rule bq_run.step [OF bq_run.start])
      (simp add: bq_step_simps bq_idle_def BlockingQueue_getLength_def BlockingQueue_new_def
        CircleQueue_getLength_def CircleQueue_new_def)
  have 2: "bq_run (([] @ [BqWait 1]) @ [BqPush 7 (Some 1)]) (BlockingQueue_push 7 (Some 1) ?s1)"
    by (rule bq_run.step [OF 1]) (simp add: bq_step_simps)
  have "bq_run ((([] @ [BqWait 1]) @ [BqPush 7 (Some 1)]) @ [BqWake 1])
      (BlockingQueue_pop 1 (BlockingQueue_push 7 (Some 1) ?s1))"
    by (rule bq_run.step [OF 2]) (simp add: bq_step_simps BlockingQueue_push_def)
  then show ?thesis by simp
qed

theorem BlockingQueue_delivers_in_order_witness:
  "\<exists>s. bq_pushed s = bq_delivered s @ CircleQueue_abs (bq_mQueue s) \<and> bq_pushed s = [7::nat]"
  by (rule exI, rule conjI, rule BlockingQueue_delivers_in_order [OF bq_run_example])
    (simp add: BlockingQueue_pop_def BlockingQueue_push_def BlockingQueue_new_def split: prod.splits)

text \<open>
  With one consumer thread (the event loop of an \<open>SP_Executor\<close>) and no spurious wake-up,
  \<open>pop\<close> never answers NULL, although it tests the length with an \<open>if\<close> and not in a loop.
\<close>

theorem BlockingQueue_single_consumer:
  assumes "bq_run es s" "\<forall>e \<in> set es. bq_event_of c e"
  shows "None \<notin> snd ` set (bq_popped s)"
  using bq_single_run [OF assms] by (auto simp: bq_single_def)

theorem BlockingQueue_single_consumer_witness:
  "None \<notin> snd ` set (bq_popped (BlockingQueue_pop 1 (BlockingQueue_push (7::nat) (Some 1)
      (BlockingQueue_new\<lparr> bq_waiting := {1} \<rparr>))))"
  by (rule BlockingQueue_single_consumer [OF bq_run_example, of 1]) simp

text \<open>
  With two consumers the comment "blocking until can pop" is not what the code does.
  Without any spurious wake-up, a consumer that calls \<open>pop\<close> between the signal and the
  return of another consumer's \<open>sp_thread_cond_wait\<close> takes the item, and the woken \<open>pop\<close>
  answers NULL.
\<close>

theorem BlockingQueue_stolen_wakeup:
  "\<exists>s. bq_run [BqWait 1, BqPush (7::nat) (Some 1), BqPop 2, BqWake 1] s \<and>
     bq_pushed s = [7] \<and> bq_popped s = [(2, Some 7), (1, None)]"
proof -
  let ?s1 = "(BlockingQueue_new :: nat blocking_queue)\<lparr> bq_waiting := {1} \<rparr>"
  let ?s2 = "BlockingQueue_push 7 (Some 1) ?s1"
  let ?es = "[BqWait 1, BqPush 7 (Some 1), BqPop 2, BqWake 1]"
  have 1: "bq_run ([] @ [BqWait 1]) ?s1"
    by (rule bq_run.step [OF bq_run.start])
      (simp add: bq_step_simps bq_idle_def BlockingQueue_getLength_def BlockingQueue_new_def
        CircleQueue_getLength_def CircleQueue_new_def)
  have 2: "bq_run (([] @ [BqWait 1]) @ [BqPush 7 (Some 1)]) ?s2"
    by (rule bq_run.step [OF 1]) (simp add: bq_step_simps)
  have 3: "bq_run ((([] @ [BqWait 1]) @ [BqPush 7 (Some 1)]) @ [BqPop 2]) (BlockingQueue_pop 2 ?s2)"
    by (rule bq_run.step [OF 2])
      (simp add: bq_step_simps bq_idle_def BlockingQueue_push_def BlockingQueue_getLength_def
        CircleQueue_getLength_def CircleQueue_push_def BlockingQueue_new_def Let_def)
  have "bq_run (((([] @ [BqWait 1]) @ [BqPush 7 (Some 1)]) @ [BqPop 2]) @ [BqWake 1])
      (BlockingQueue_pop 1 (BlockingQueue_pop 2 ?s2))"
    by (rule bq_run.step [OF 3])
      (simp add: bq_step_simps bq_pop_sets BlockingQueue_push_def)
  then have "bq_run ?es (BlockingQueue_pop 1 (BlockingQueue_pop 2 ?s2))" by simp
  moreover have "bq_popped (BlockingQueue_pop 1 (BlockingQueue_pop 2 ?s2)) = [(2, Some 7), (1, None)]"
    by (simp add: BlockingQueue_pop_def BlockingQueue_push_def BlockingQueue_new_def
        CircleQueue_push_def CircleQueue_grow_def CircleQueue_pop_def CircleQueue_new_def Let_def)
  moreover have "bq_pushed (BlockingQueue_pop 1 (BlockingQueue_pop 2 ?s2)) = [7]"
    by (simp add: BlockingQueue_pop_def BlockingQueue_push_def BlockingQueue_new_def
        split: prod.splits)
  ultimately show ?thesis by blast
qed

end
