(* ===== verification/SP_SidList.thy ===== *)
theory SP_SidList
  imports SP_ArrayList
begin

text \<open>
  Session identifiers and \<open>SP_SidList\<close> (spresponse.hpp, spresponse.cpp). An \<open>SP_Sid_t\<close> is a
  16-bit slot number and a 16-bit sequence number. The list stores pointers to malloc'ed
  copies in an \<open>SP_ArrayList\<close>; through the list view of that class it is a list of sids.
\<close>

type_synonym u16 = "16 word"

record sp_sid =
  sid_mKey :: u16
  sid_mSeq :: u16

definition eTimerKey :: u16 where "eTimerKey = 0"
definition eTimerSeq :: u16 where "eTimerSeq = 65535"
definition ePushKey :: u16 where "ePushKey = 1"
definition ePushSeq :: u16 where "ePushSeq = 65535"

text \<open>The comparison of two sids, field by field in the code, is equality of the records.\<close>

definition sid_eq :: "sp_sid \<Rightarrow> sp_sid \<Rightarrow> bool" where
  "sid_eq a b \<longleftrightarrow> sid_mKey a = sid_mKey b \<and> sid_mSeq a = sid_mSeq b"

lemma sid_eq_iff [simp]: "sid_eq a b \<longleftrightarrow> a = b"
  by (auto simp: sid_eq_def)

type_synonym sid_list = "sp_sid list"

definition SidList_new :: sid_list where
  "SidList_new = []"

definition SidList_getCount :: "sid_list \<Rightarrow> int" where
  "SidList_getCount l = int (length l)"

definition SidList_add :: "sp_sid \<Rightarrow> sid_list \<Rightarrow> sid_list" where
  "SidList_add sid l = l @ [sid]"

definition SidList_get :: "int \<Rightarrow> sid_list \<Rightarrow> sp_sid" where
  "SidList_get index l =
     (case lst_get index l of None \<Rightarrow> \<lparr> sid_mKey = 0, sid_mSeq = 0 \<rparr> | Some p \<Rightarrow> p)"

definition SidList_take :: "int \<Rightarrow> sid_list \<Rightarrow> sp_sid \<times> sid_list" where
  "SidList_take index l = (SidList_get index l, snd (lst_take index l))"

text \<open>The scan of \<open>find\<close> from index \<open>i\<close> on.\<close>

fun SidList_scan :: "sp_sid \<Rightarrow> int \<Rightarrow> sid_list \<Rightarrow> int" where
  "SidList_scan sid i [] = -1"
| "SidList_scan sid i (p # l) = (if sid_eq p sid then i else SidList_scan sid (i + 1) l)"

definition SidList_find :: "sp_sid \<Rightarrow> sid_list \<Rightarrow> int" where
  "SidList_find sid l = SidList_scan sid 0 l"

text \<open>\<open>reset\<close>: \<open>takeItem( LAST_INDEX )\<close> until the count is 0.\<close>

function SidList_reset :: "sid_list \<Rightarrow> sid_list" where
  "SidList_reset l =
     (if 0 < SidList_getCount l then SidList_reset (snd (lst_take LAST_INDEX l)) else l)"
  by pat_completeness auto
termination
  by (relation "measure length")
    (auto simp: SidList_getCount_def lst_take_last)

declare SidList_reset.simps [simp del]

subsection \<open>Contracts\<close>

lemma SidList_reset_empty [contracts]: "SidList_reset l = []"
proof (induction "length l" arbitrary: l)
  case 0
  then show ?case by (subst SidList_reset.simps) (simp add: SidList_getCount_def)
next
  case (Suc n)
  then have "l \<noteq> []" by auto
  with Suc show ?case
    by (simp add: SidList_reset.simps [of l] SidList_getCount_def lst_take_last)
qed

lemma SidList_scan_range:
  "SidList_scan sid i l = (if sid \<in> set l then i + int (length (takeWhile (\<lambda>p. p \<noteq> sid) l)) else -1)"
  by (induction l arbitrary: i) auto

lemma SidList_find_eq:
  "SidList_find sid l = (if sid \<in> set l then int (length (takeWhile (\<lambda>p. p \<noteq> sid) l)) else -1)"
  by (simp add: SidList_find_def SidList_scan_range)

lemma length_takeWhile_mem: "x \<in> set l \<Longrightarrow> length (takeWhile (\<lambda>p. p \<noteq> x) l) < length l"
  by (induction l) auto

lemma SidList_find_Some:
  assumes "sid \<in> set l"
  shows "\<exists>i. SidList_find sid l = int i \<and> i < length l \<and> l ! i = sid \<and> (\<forall>j<i. l ! j \<noteq> sid)"
proof -
  let ?i = "length (takeWhile (\<lambda>p. p \<noteq> sid) l)"
  have "?i < length l" using assms by (rule length_takeWhile_mem)
  moreover have "l ! ?i = sid" using nth_length_takeWhile [OF calculation] by simp
  moreover have "l ! j \<noteq> sid" if "j < ?i" for j
    using set_takeWhileD [OF nth_mem [OF that]] takeWhile_nth [OF that] by simp
  ultimately show ?thesis using assms by (auto simp: SidList_find_eq)
qed

text \<open>
  The idiom of the event loop: \<open>index = find( sid ); if( index >= 0 ) take( index )\<close>. It drops the
  first occurrence of the sid and leaves a list without it alone.
\<close>

definition SidList_drop :: "sp_sid \<Rightarrow> sid_list \<Rightarrow> sid_list" where
  "SidList_drop sid l =
     (let index = SidList_find sid l
      in if 0 \<le> index then snd (SidList_take index l) else l)"

lemma SidList_drop_eq [contracts]: "SidList_drop sid l = remove1 sid l"
proof (cases "sid \<in> set l")
  case False
  then show ?thesis by (simp add: SidList_drop_def SidList_find_eq remove1_idem)
next
  case True
  then obtain i where i: "SidList_find sid l = int i" "i < length l" "l ! i = sid"
    "\<forall>j<i. l ! j \<noteq> sid" using SidList_find_Some by blast
  have l: "l = take i l @ sid # drop (Suc i) l" using id_take_nth_drop [OF i(2)] i(3) by simp
  have "sid \<notin> set (take i l)" using i(4) by (auto simp: in_set_conv_nth)
  then have "remove1 sid l = take i l @ drop (Suc i) l"
    by (subst l) (simp add: remove1_append)
  with i show ?thesis
    by (simp add: SidList_drop_def SidList_take_def lst_take_nth del_at_def)
qed

lemma SidList_getCount_abs [contracts]: "SidList_getCount l = int (length l)"
  by (simp add: SidList_getCount_def)

text \<open>
  \<open>find\<close> answers the least index at which the sid stands and -1 exactly when it does not
  occur, so the idiom "find, then take if the index is not negative" drops the first
  occurrence of the sid and nothing else; \<open>reset\<close> ends with the empty list.
\<close>

theorem SidList_find_take:
  "SidList_drop sid l = remove1 sid l \<and> (SidList_find sid l = -1 \<longleftrightarrow> sid \<notin> set l) \<and>
     SidList_reset l = []"
  using SidList_find_eq [of sid l] by (simp add: SidList_drop_eq SidList_reset_empty)

end
