(* ===== verification/SP_SessionManager.thy ===== *)
theory SP_SessionManager
  imports SP_SidList
begin

text \<open>
  \<open>SP_SessionManager\<close> (spsession.hpp, spsession.cpp): the table from 16-bit keys to sessions.
  The 64 rows of 1024 entries are allocated on demand; the entries that are not in use are
  chained through \<open>mNext\<close> inside the table, with key 0 as the end of the chain (row 0 is
  never allocated). Every entry counts in \<open>mSeq\<close> how often it was freed, modulo \<open>2 ^ 16\<close>, so
  that a sid of a session that is gone does not name its successor. An entry row is a
  function from columns; \<open>calloc\<close> zeroes it. A failed \<open>assert\<close> is the fault \<open>AssertFail\<close>.
\<close>

record 's session_entry =
  se_mSeq :: u16
  se_mNext :: u16
  se_mSession :: "'s option"

record 's session_manager =
  sm_mCount :: int
  sm_mArray :: "nat \<Rightarrow> (nat \<Rightarrow> 's session_entry) option"
  sm_mFreeCount :: int
  sm_mFreeList :: u16

definition eColPerRow :: nat where "eColPerRow = 1024"

definition mArray_rows :: nat where "mArray_rows = 64"

definition row_of :: "u16 \<Rightarrow> nat" where "row_of key = unat key div eColPerRow"

definition col_of :: "u16 \<Rightarrow> nat" where "col_of key = unat key mod eColPerRow"

definition mk_key :: "nat \<Rightarrow> nat \<Rightarrow> u16" where
  "mk_key row col = of_nat (eColPerRow * row + col)"

definition SessionManager_new :: "'s session_manager" where
  "SessionManager_new =
     \<lparr> sm_mCount = 0, sm_mArray = (\<lambda>_. None), sm_mFreeCount = 0, sm_mFreeList = 0 \<rparr>"

definition zero_entry :: "'s session_entry" where
  "zero_entry = \<lparr> se_mSeq = 0, se_mNext = 0, se_mSession = None \<rparr>"

text \<open>The loop \<open>for( int i = eColPerRow - 1; i >= 0; i-- )\<close> that chains a new row.\<close>

fun chain_row :: "nat \<Rightarrow> nat \<Rightarrow> (nat \<Rightarrow> 's session_entry) \<Rightarrow> u16 \<Rightarrow> (nat \<Rightarrow> 's session_entry) \<times> u16" where
  "chain_row avail 0 row free = (row, free)"
| "chain_row avail (Suc i) row free =
     chain_row avail i (row(i := (row i)\<lparr> se_mNext := free \<rparr>)) (mk_key avail i)"

definition SessionManager_addRow :: "'s session_manager \<Rightarrow> 's session_manager" where
  "SessionManager_addRow m =
     (case find (\<lambda>i. sm_mArray m i = None) [1..<mArray_rows] of
        None \<Rightarrow> m
      | Some avail \<Rightarrow>
          (case chain_row avail eColPerRow (\<lambda>_. zero_entry) (sm_mFreeList m) of (row, free) \<Rightarrow>
             m\<lparr> sm_mFreeCount := sm_mFreeCount m + int eColPerRow,
                sm_mArray := (sm_mArray m)(avail := Some row),
                sm_mFreeList := free \<rparr>))"

text \<open>
  \<open>allocKey\<close> answers the key, the sequence number it writes through \<open>seq\<close> (nothing when the
  key is 0) and the new state. A chain that leads into a row that does not exist would be a
  NULL dereference.
\<close>

definition SessionManager_allocKey :: "'s session_manager \<Rightarrow> (u16 \<times> u16 option \<times> 's session_manager) res" where
  "SessionManager_allocKey m0 =
     (let m = (if sm_mFreeList m0 = 0 then SessionManager_addRow m0 else m0);
          key = sm_mFreeList m
      in if key = 0 then Inr (0, None, m)
         else case sm_mArray m (row_of key) of
             None \<Rightarrow> Inl NullDeref
           | Some row \<Rightarrow>
               Inr (key, Some (se_mSeq (row (col_of key))),
                    m\<lparr> sm_mFreeCount := sm_mFreeCount m - 1,
                       sm_mFreeList := se_mNext (row (col_of key)) \<rparr>))"

definition SessionManager_getCount :: "'s session_manager \<Rightarrow> int" where
  "SessionManager_getCount m = sm_mCount m"

definition SessionManager_getFreeCount :: "'s session_manager \<Rightarrow> int" where
  "SessionManager_getFreeCount m = sm_mFreeCount m"

definition SessionManager_put :: "u16 \<Rightarrow> u16 \<Rightarrow> 's \<Rightarrow> 's session_manager \<Rightarrow> 's session_manager res" where
  "SessionManager_put key seq session m =
     (case sm_mArray m (row_of key) of
        None \<Rightarrow> Inl AssertFail
      | Some row \<Rightarrow>
          let e = row (col_of key) in
          if se_mSession e \<noteq> None then Inl AssertFail
          else if seq \<noteq> se_mSeq e then Inl AssertFail
          else Inr (m\<lparr> sm_mArray := (sm_mArray m)(row_of key :=
                          Some (row(col_of key := e\<lparr> se_mSession := Some session \<rparr>))),
                       sm_mCount := sm_mCount m + 1 \<rparr>))"

text \<open>\<open>get\<close> answers the session (or NULL) and the sequence number it writes through \<open>seq\<close>.\<close>

definition SessionManager_get :: "u16 \<Rightarrow> 's session_manager \<Rightarrow> 's option \<times> u16" where
  "SessionManager_get key m =
     (case sm_mArray m (row_of key) of
        None \<Rightarrow> (None, 0)
      | Some row \<Rightarrow> (se_mSession (row (col_of key)), se_mSeq (row (col_of key))))"

definition SessionManager_remove :: "u16 \<Rightarrow> u16 \<Rightarrow> 's session_manager \<Rightarrow> ('s option \<times> 's session_manager) res" where
  "SessionManager_remove key seq m =
     (case sm_mArray m (row_of key) of
        None \<Rightarrow> Inr (None, m)
      | Some row \<Rightarrow>
          let e = row (col_of key) in
          if seq \<noteq> se_mSeq e then Inl AssertFail
          else Inr (se_mSession e,
                    m\<lparr> sm_mArray := (sm_mArray m)(row_of key :=
                          Some (row(col_of key := e\<lparr> se_mSession := None,
                            se_mSeq := se_mSeq e + 1, se_mNext := sm_mFreeList m \<rparr>))),
                       sm_mFreeList := key,
                       sm_mFreeCount := sm_mFreeCount m + 1,
                       sm_mCount := sm_mCount m - 1 \<rparr>))"

text \<open>
  The test every client makes after \<open>get\<close>: \<open>seq == sid.mSeq && NULL != session\<close>. It is the
  table as a map from sids to sessions.
\<close>

definition session_of :: "'s session_manager \<Rightarrow> sp_sid \<Rightarrow> 's option" where
  "session_of m sid =
     (case SessionManager_get (sid_mKey sid) m of (session, seq) \<Rightarrow>
        if seq = sid_mSeq sid then session else None)"

subsection \<open>Keys, rows and columns\<close>

lemma row_of_less: "row_of key < mArray_rows"
proof -
  have "unat key < 65536" using unsigned_less [of key] by simp
  then show ?thesis by (simp add: row_of_def mArray_rows_def eColPerRow_def less_mult_imp_div_less)
qed

lemma col_of_less: "col_of key < eColPerRow"
  by (simp add: col_of_def eColPerRow_def)

lemma key_row_col: "key = key' \<longleftrightarrow> row_of key = row_of key' \<and> col_of key = col_of key'"
  unfolding row_of_def col_of_def by (metis div_mod_decomp word_unat_eq_iff)

lemma unat_mk_key:
  assumes "r < mArray_rows" "c < eColPerRow"
  shows "unat (mk_key r c) = eColPerRow * r + c"
proof -
  have "eColPerRow * r + c < 2 ^ LENGTH(16)"
    using assms by (simp add: mArray_rows_def eColPerRow_def)
  then show ?thesis unfolding mk_key_def unat_of_nat by (rule mod_less)
qed

lemma mk_key_row [simp]: "r < mArray_rows \<Longrightarrow> c < eColPerRow \<Longrightarrow> row_of (mk_key r c) = r"
  by (simp add: row_of_def unat_mk_key)

lemma mk_key_col [simp]: "r < mArray_rows \<Longrightarrow> c < eColPerRow \<Longrightarrow> col_of (mk_key r c) = c"
  by (simp add: col_of_def unat_mk_key)

lemma mk_key_of [simp]: "mk_key (row_of key) (col_of key) = key"
  by (simp add: key_row_col row_of_less col_of_less)

subsection \<open>Invariant\<close>

text \<open>
  The entry of a key, and the chain of free keys: \<open>free_chain m k ks\<close> says that the links
  from \<open>k\<close> lead through exactly the keys \<open>ks\<close> to the end marker 0.
\<close>

definition entry_of :: "'s session_manager \<Rightarrow> u16 \<Rightarrow> 's session_entry option" where
  "entry_of m key = map_option (\<lambda>row. row (col_of key)) (sm_mArray m (row_of key))"

definition next_of :: "'s session_manager \<Rightarrow> u16 \<Rightarrow> u16" where
  "next_of m key = (case entry_of m key of None \<Rightarrow> 0 | Some e \<Rightarrow> se_mNext e)"

definition live :: "'s session_manager \<Rightarrow> u16 \<Rightarrow> bool" where
  "live m key \<longleftrightarrow> (\<exists>e. entry_of m key = Some e \<and> se_mSession e \<noteq> None)"

fun free_chain :: "'s session_manager \<Rightarrow> u16 \<Rightarrow> u16 list \<Rightarrow> bool" where
  "free_chain m k [] \<longleftrightarrow> k = 0"
| "free_chain m k (x # xs) \<longleftrightarrow> k = x \<and> x \<noteq> 0 \<and> free_chain m (next_of m x) xs"

text \<open>
  The table is consistent with a set \<open>out\<close> of keys handed out by \<open>allocKey\<close> and not given
  back: each key of an allocated row is either on the free chain (once) or out, only keys
  that are out hold sessions, and the two counters count.
\<close>

definition sm_inv :: "u16 set \<Rightarrow> 's session_manager \<Rightarrow> bool" where
  "sm_inv out m \<longleftrightarrow>
     sm_mArray m 0 = None \<and>
     (\<exists>ks. free_chain m (sm_mFreeList m) ks \<and> distinct ks \<and> sm_mFreeCount m = int (length ks) \<and>
        set ks \<inter> out = {} \<and> set ks \<union> out = {k. entry_of m k \<noteq> None}) \<and>
     (\<forall>k. live m k \<longrightarrow> k \<in> out) \<and>
     sm_mCount m = int (card {k. live m k})"

lemma get_entry_of:
  "SessionManager_get key m =
     (case entry_of m key of None \<Rightarrow> (None, 0) | Some e \<Rightarrow> (se_mSession e, se_mSeq e))"
  by (simp add: SessionManager_get_def entry_of_def split: option.splits)

definition seq_of :: "'s session_manager \<Rightarrow> u16 \<Rightarrow> u16" where
  "seq_of m key = snd (SessionManager_get key m)"

lemma seq_of_entry:
  "seq_of m key = (case entry_of m key of None \<Rightarrow> 0 | Some e \<Rightarrow> se_mSeq e)"
  by (simp add: seq_of_def get_entry_of split: option.splits)

lemma session_of_entry:
  "session_of m sid = (case entry_of m (sid_mKey sid) of None \<Rightarrow> None
     | Some e \<Rightarrow> if se_mSeq e = sid_mSeq sid then se_mSession e else None)"
  by (simp add: session_of_def get_entry_of split: option.splits)

lemma live_session_of: "live m key \<longleftrightarrow> (\<exists>seq. session_of m \<lparr> sid_mKey = key, sid_mSeq = seq \<rparr> \<noteq> None)"
  by (auto simp: live_def session_of_entry split: option.splits)

lemma session_of_live: "session_of m sid = Some s \<Longrightarrow> live m (sid_mKey sid)"
  by (auto simp: live_def session_of_entry split: option.splits if_splits)

lemma free_chain_cong:
  "\<forall>k \<in> set ks. next_of m' k = next_of m k \<Longrightarrow> free_chain m' h ks = free_chain m h ks"
  by (induction ks arbitrary: h) auto

lemma free_chain_head: "free_chain m k ks \<Longrightarrow> k \<noteq> 0 \<Longrightarrow> \<exists>xs. ks = k # xs"
  by (cases ks) auto

lemma free_chain_0: "free_chain m 0 ks \<Longrightarrow> ks = []"
  by (cases ks) auto

lemma free_chain_nonzero: "free_chain m k ks \<Longrightarrow> 0 \<notin> set ks"
  by (induction ks arbitrary: k) auto

lemma entry_of_update:
  assumes "sm_mArray m (row_of key) = Some row"
  shows "entry_of (m\<lparr> sm_mArray := (sm_mArray m)(row_of key := Some (row(col_of key := e))) \<rparr>) k
     = (if k = key then Some e else entry_of m k)"
  using assms by (auto simp: entry_of_def key_row_col)

lemma entry_of_more [simp]:
  "entry_of (m\<lparr> sm_mCount := c \<rparr>) k = entry_of m k"
  "entry_of (m\<lparr> sm_mFreeCount := f \<rparr>) k = entry_of m k"
  "entry_of (m\<lparr> sm_mFreeList := l \<rparr>) k = entry_of m k"
  by (simp_all add: entry_of_def)

lemma sm_inv_new: "sm_inv {} SessionManager_new"
  by (auto simp: sm_inv_def SessionManager_new_def live_def entry_of_def intro!: exI [of _ "[]"])

lemma chain_row_eq:
  "chain_row avail n row free =
     (\<lambda>c. if c < n then (row c)\<lparr> se_mNext := (if Suc c < n then mk_key avail (Suc c) else free) \<rparr>
          else row c,
      if n = 0 then free else mk_key avail 0)"
proof (induction n arbitrary: row free)
  case (Suc n)
  show ?case
    unfolding chain_row.simps Suc.IH
  proof (rule prod_eqI)
    show "fst (\<lambda>c. if c < n then ((row(n := (row n)\<lparr>se_mNext := free\<rparr>)) c)
              \<lparr>se_mNext := if Suc c < n then mk_key avail (Suc c) else mk_key avail n\<rparr>
            else (row(n := (row n)\<lparr>se_mNext := free\<rparr>)) c,
          if n = 0 then mk_key avail n else mk_key avail 0) =
        fst (\<lambda>c. if c < Suc n then (row c)
              \<lparr>se_mNext := if Suc c < Suc n then mk_key avail (Suc c) else free\<rparr> else row c,
          if Suc n = 0 then free else mk_key avail 0)" (is "fst (?f, _) = fst (?g, _)")
    proof -
      have "?f c = ?g c" for c
        by (cases "c < n"; cases "c = n"; cases "Suc c = n") simp_all
      then show ?thesis by auto
    qed
  qed simp
qed simp

definition all_rows :: "'s session_manager \<Rightarrow> bool" where
  "all_rows m \<longleftrightarrow> (\<forall>i \<in> {1..<mArray_rows}. sm_mArray m i \<noteq> None)"

lemma addRow_none: "all_rows m \<Longrightarrow> SessionManager_addRow m = m"
proof -
  assume "all_rows m"
  then have "find (\<lambda>i. sm_mArray m i = None) [1..<mArray_rows] = None"
    by (auto simp: all_rows_def find_None_iff)
  then show ?thesis by (simp add: SessionManager_addRow_def)
qed

lemma addRow_some:
  assumes "\<not> all_rows m"
  obtains avail where "1 \<le> avail" "avail < mArray_rows" "sm_mArray m avail = None"
    "SessionManager_addRow m = m\<lparr> sm_mFreeCount := sm_mFreeCount m + int eColPerRow,
       sm_mArray := (sm_mArray m)(avail := Some (\<lambda>c. if c < eColPerRow
         then zero_entry\<lparr> se_mNext := (if Suc c < eColPerRow then mk_key avail (Suc c)
                else sm_mFreeList m) \<rparr> else zero_entry)),
       sm_mFreeList := mk_key avail 0 \<rparr>"
proof -
  let ?P = "\<lambda>i. sm_mArray m i = None"
  from assms have "find ?P [1..<mArray_rows] \<noteq> None"
    by (auto simp: all_rows_def find_None_iff)
  then obtain avail where f: "find ?P [1..<mArray_rows] = Some avail" by auto
  then have "1 \<le> avail" "avail < mArray_rows" "?P avail"
    by (auto simp: find_Some_iff)
  moreover have "0 < eColPerRow" by (simp add: eColPerRow_def)
  ultimately show thesis
    using f by (intro that [of avail]) (simp_all add: SessionManager_addRow_def chain_row_eq)
qed

lemma free_chain_row:
  assumes "\<forall>c < n. next_of m (mk_key r c) = (if Suc c < n then mk_key r (Suc c) else 0)"
    and "\<forall>c < n. mk_key r c \<noteq> 0" and "c \<le> n"
  shows "free_chain m (if c < n then mk_key r c else 0) (map (mk_key r) [c..<n])"
  using assms(3)
proof (induction rule: inc_induct)
  case base
  then show ?case by simp
next
  case (step i)
  have u: "map (mk_key r) [i..<n] = mk_key r i # map (mk_key r) [Suc i..<n]"
    using step.hyps by (simp add: upt_conv_Cons)
  show ?case unfolding u using step assms(1,2) by simp
qed

lemma mk_key_inj:
  "r < mArray_rows \<Longrightarrow> c < eColPerRow \<Longrightarrow> c' < eColPerRow \<Longrightarrow> mk_key r c = mk_key r c' \<longleftrightarrow> c = c'"
  by (metis mk_key_col)

lemma mk_key_nonzero: "1 \<le> r \<Longrightarrow> r < mArray_rows \<Longrightarrow> c < eColPerRow \<Longrightarrow> mk_key r c \<noteq> 0"
  using unat_mk_key [of r c] by (auto simp: eColPerRow_def)

lemma addRow_inv:
  assumes inv: "sm_inv out m" and empty: "sm_mFreeList m = 0"
  shows "sm_inv out (SessionManager_addRow m) \<and>
    (sm_mFreeList (SessionManager_addRow m) = 0 \<longleftrightarrow> all_rows m) \<and>
    session_of (SessionManager_addRow m) = session_of m \<and> seq_of (SessionManager_addRow m) = seq_of m"
proof (cases "all_rows m")
  case True
  with assms addRow_none show ?thesis by metis
next
  case False
  define n where "n = SessionManager_addRow m"
  from addRow_some [OF False] obtain avail where a: "1 \<le> avail" "avail < mArray_rows"
    "sm_mArray m avail = None"
    and eq: "n = m\<lparr> sm_mFreeCount := sm_mFreeCount m + int eColPerRow,
     sm_mArray := (sm_mArray m)(avail := Some (\<lambda>c. if c < eColPerRow
       then zero_entry\<lparr> se_mNext := (if Suc c < eColPerRow then mk_key avail (Suc c)
              else sm_mFreeList m) \<rparr> else zero_entry)),
     sm_mFreeList := mk_key avail 0 \<rparr>" unfolding n_def .
  define ks where "ks = map (mk_key avail) [0..<eColPerRow]"
  have ent: "entry_of n k = (if row_of k = avail
      then Some (zero_entry\<lparr> se_mNext := (if Suc (col_of k) < eColPerRow
             then mk_key avail (Suc (col_of k)) else 0) \<rparr>)
      else entry_of m k)" for k
    using empty col_of_less [of k] unfolding eq by (simp add: entry_of_def)
  have noent: "entry_of m k = None" if "row_of k = avail" for k
    using that a by (simp add: entry_of_def)
  have pos: "0 < eColPerRow" by (simp add: eColPerRow_def)
  from inv empty have old: "out = {k. entry_of m k \<noteq> None}" "sm_mFreeCount m = 0"
    by (auto simp: sm_inv_def dest: free_chain_0)
  have live: "live n k \<longleftrightarrow> live m k" for k
    by (auto simp: live_def ent noent zero_entry_def)
  have free: "sm_mFreeList n = mk_key avail 0" by (simp add: eq)
  have chain: "free_chain n (sm_mFreeList n) ks"
    using free_chain_row [of eColPerRow n avail 0] a pos
    by (simp add: next_of_def ent mk_key_nonzero ks_def free)
  have dist: "distinct ks"
    using a by (auto simp: ks_def distinct_map inj_on_def mk_key_inj)
  have setks: "set ks = {k. row_of k = avail}"
    using a by (auto simp: image_iff ks_def) (metis atLeastLessThan_iff col_of_less le0 mk_key_of)
  have "sm_inv out n"
    unfolding sm_inv_def
  proof (intro conjI exI [of _ ks])
    show "sm_mArray n 0 = None" using inv a by (auto simp: sm_inv_def eq)
    show "sm_mFreeCount n = int (length ks)" using old by (simp add: eq ks_def)
    show "set ks \<inter> out = {}" unfolding setks using old(1) noent by auto
    show "set ks \<union> out = {k. entry_of n k \<noteq> None}" unfolding setks old(1) ent by auto
    show "\<forall>k. live n k \<longrightarrow> k \<in> out" using inv live by (simp add: sm_inv_def)
    show "sm_mCount n = int (card {k. live n k})" using inv live by (simp add: sm_inv_def eq)
  qed (fact chain dist)+
  moreover have "session_of n = session_of m" "seq_of n = seq_of m"
    by (auto simp: session_of_entry seq_of_entry ent noent zero_entry_def fun_eq_iff)
  ultimately show ?thesis using a pos False free unfolding n_def by (simp add: mk_key_nonzero)
qed

lemma allocKey_inv:
  assumes inv: "sm_inv out m"
  shows "\<exists>key sq n. SessionManager_allocKey m = Inr (key, sq, n) \<and> session_of n = session_of m \<and> seq_of n = seq_of m \<and>
    (if key = 0 then sq = None \<and> sm_inv out n \<and> all_rows m \<and> sm_mFreeList m = 0
     else key \<notin> out \<and> sm_inv (insert key out) n \<and> (\<exists>e. entry_of n key = Some e \<and> sq = Some (se_mSeq e)))"
proof -
  define m' where "m' = (if sm_mFreeList m = 0 then SessionManager_addRow m else m)"
  have inv': "sm_inv out m'" and ses: "session_of m' = session_of m" "seq_of m' = seq_of m"
    and full: "sm_mFreeList m' = 0 \<Longrightarrow> all_rows m \<and> sm_mFreeList m = 0"
    using addRow_inv inv by (auto simp: m'_def split: if_splits)
  have alloc: "SessionManager_allocKey m =
    (if sm_mFreeList m' = 0 then Inr (0, None, m')
     else case sm_mArray m' (row_of (sm_mFreeList m')) of
         None \<Rightarrow> Inl NullDeref
       | Some row \<Rightarrow>
           Inr (sm_mFreeList m', Some (se_mSeq (row (col_of (sm_mFreeList m')))),
                m'\<lparr> sm_mFreeCount := sm_mFreeCount m' - 1,
                   sm_mFreeList := se_mNext (row (col_of (sm_mFreeList m'))) \<rparr>))"
    unfolding SessionManager_allocKey_def Let_def m'_def by (rule refl)
  show ?thesis
  proof (cases "sm_mFreeList m' = 0")
    case True
    then show ?thesis using inv' ses full
      by (intro exI [of _ 0] exI [of _ None] exI [of _ m']) (simp add: alloc)
  next
    case False
    define key where "key = sm_mFreeList m'"
    define n where "n = m'\<lparr> sm_mFreeCount := sm_mFreeCount m' - 1, sm_mFreeList := next_of m' key \<rparr>"
    from inv' obtain ks where ks: "free_chain m' key ks" "distinct ks"
      "sm_mFreeCount m' = int (length ks)" "set ks \<inter> out = {}"
      "set ks \<union> out = {k. entry_of m' k \<noteq> None}"
      unfolding sm_inv_def key_def by blast
    with False obtain xs where xs: "ks = key # xs"
      using free_chain_head unfolding key_def by blast
    with ks(5) obtain e where e: "entry_of m' key = Some e" by auto
    have ent: "entry_of n k = entry_of m' k" for k by (simp add: n_def)
    have nxt: "next_of n = next_of m'" by (simp add: next_of_def ent fun_eq_iff)
    have live: "live n k = live m' k" for k by (simp add: live_def ent)
    have out: "key \<notin> out" using ks(4) xs by auto
    have "sm_inv (insert key out) n"
      unfolding sm_inv_def
    proof (intro conjI exI [of _ xs])
      show "sm_mArray n 0 = None" using inv' by (simp add: sm_inv_def n_def)
      show "free_chain n (sm_mFreeList n) xs"
        using ks(1) xs free_chain_cong [of xs n m'] by (simp add: nxt) (simp add: n_def)
      show "distinct xs" "sm_mFreeCount n = int (length xs)" "set xs \<inter> insert key out = {}"
        using ks(2-4) xs by (auto simp: n_def)
      show "set xs \<union> insert key out = {k. entry_of n k \<noteq> None}" using ks(5) xs by (auto simp: ent)
      show "\<forall>k. live n k \<longrightarrow> k \<in> insert key out" using inv' by (simp add: sm_inv_def live)
      show "sm_mCount n = int (card {k. live n k})"
        using inv' by (simp add: sm_inv_def live) (simp add: n_def)
    qed
    moreover have "SessionManager_allocKey m = Inr (key, Some (se_mSeq e), n)"
      using False e
      by (auto simp: alloc key_def [symmetric] n_def next_of_def entry_of_def)
    moreover have "session_of n = session_of m" "seq_of n = seq_of m"
      by (simp_all add: ses [symmetric] session_of_entry seq_of_entry ent fun_eq_iff)
    ultimately show ?thesis using out e False by (auto simp: key_def [symmetric] ent)
  qed
qed

lemma put_inv:
  assumes inv: "sm_inv out m" and k: "key \<in> out" and e: "entry_of m key = Some e"
    and free: "se_mSession e = None"
  shows "\<exists>n. SessionManager_put key (se_mSeq e) s m = Inr n \<and> sm_inv out n \<and>
    session_of n = (session_of m)(\<lparr> sid_mKey = key, sid_mSeq = se_mSeq e \<rparr> \<mapsto> s) \<and> seq_of n = seq_of m"
proof -
  from e obtain row where row: "sm_mArray m (row_of key) = Some row" "row (col_of key) = e"
    by (auto simp: entry_of_def)
  define n where "n = m\<lparr> sm_mArray := (sm_mArray m)(row_of key :=
      Some (row(col_of key := e\<lparr> se_mSession := Some s \<rparr>))), sm_mCount := sm_mCount m + 1 \<rparr>"
  have put: "SessionManager_put key (se_mSeq e) s m = Inr n"
    using row free by (simp add: SessionManager_put_def n_def)
  have ent: "entry_of n k = (if k = key then Some (e\<lparr> se_mSession := Some s \<rparr>) else entry_of m k)" for k
    using entry_of_update [OF row(1)] by (simp add: n_def)
  have nxt: "next_of n k = next_of m k" for k by (simp add: next_of_def ent e)
  have dead: "\<not> live m key" using e free by (simp add: live_def)
  have live: "{k. live n k} = insert key {k. live m k}" by (auto simp: live_def ent)
  have "key \<noteq> 0" using inv e by (auto simp: sm_inv_def entry_of_def row_of_def)
  have "sm_inv out n"
    using inv unfolding sm_inv_def
  proof (elim conjE exE, intro conjI exI)
    fix ks assume ks: "free_chain m (sm_mFreeList m) ks" "distinct ks"
      "sm_mFreeCount m = int (length ks)" "set ks \<inter> out = {}" "set ks \<union> out = {k. entry_of m k \<noteq> None}"
    show "free_chain n (sm_mFreeList n) ks"
      using ks(1) free_chain_cong [of ks n m] nxt by (simp add: n_def)
    show "distinct ks" "sm_mFreeCount n = int (length ks)" "set ks \<inter> out = {}"
      using ks by (simp_all add: n_def)
    show "set ks \<union> out = {k. entry_of n k \<noteq> None}" using ks(5) e by (auto simp: ent)
    assume "sm_mArray m 0 = None"
    then show "sm_mArray n 0 = None" using row by (cases "row_of key = 0") (simp_all add: n_def)
    assume "\<forall>k. live m k \<longrightarrow> k \<in> out"
    then show "\<forall>k. live n k \<longrightarrow> k \<in> out" using live k by (auto simp: set_eq_iff)
    assume "sm_mCount m = int (card {k. live m k})"
    then show "sm_mCount n = int (card {k. live n k})"
      unfolding live using dead by (simp add: n_def card_insert_disjoint)
  qed
  moreover have "session_of n = (session_of m)(\<lparr> sid_mKey = key, sid_mSeq = se_mSeq e \<rparr> \<mapsto> s)"
    by (rule ext) (auto simp: session_of_entry ent e free split: option.splits)
  moreover have "seq_of n = seq_of m" by (auto simp: seq_of_entry ent e fun_eq_iff)
  ultimately show ?thesis using put by blast
qed

lemma remove_inv:
  assumes inv: "sm_inv out m" and s: "session_of m sid = Some s"
  shows "\<exists>n. SessionManager_remove (sid_mKey sid) (sid_mSeq sid) m = Inr (Some s, n) \<and>
    sm_inv (out - {sid_mKey sid}) n \<and> session_of n = (session_of m)(sid := None) \<and>
    seq_of n = (seq_of m)(sid_mKey sid := seq_of m (sid_mKey sid) + 1)"
proof -
  define key where "key = sid_mKey sid"
  from s obtain e where e: "entry_of m key = Some e" and sq: "se_mSeq e = sid_mSeq sid"
    and ses: "se_mSession e = Some s"
    by (auto simp: session_of_entry key_def split: option.splits if_splits)
  from e obtain row where row: "sm_mArray m (row_of key) = Some row" "row (col_of key) = e"
    by (auto simp: entry_of_def)
  define e' where "e' = e\<lparr> se_mSession := None, se_mSeq := se_mSeq e + 1, se_mNext := sm_mFreeList m \<rparr>"
  define n where "n = m\<lparr> sm_mArray := (sm_mArray m)(row_of key := Some (row(col_of key := e'))),
      sm_mFreeList := key, sm_mFreeCount := sm_mFreeCount m + 1, sm_mCount := sm_mCount m - 1 \<rparr>"
  have rem: "SessionManager_remove key (sid_mSeq sid) m = Inr (Some s, n)"
    using row sq ses by (simp add: SessionManager_remove_def n_def e'_def)
  have ent: "entry_of n k = (if k = key then Some e' else entry_of m k)" for k
    using entry_of_update [OF row(1)] by (simp add: n_def)
  have alive: "live m key" using e ses by (simp add: live_def)
  have live: "{k. live n k} = {k. live m k} - {key}" by (auto simp: live_def ent e'_def)
  have kout: "key \<in> out" using inv alive by (simp add: sm_inv_def)
  have key0: "key \<noteq> 0" using inv e by (auto simp: sm_inv_def entry_of_def row_of_def)
  have "sm_inv (out - {key}) n"
    using inv unfolding sm_inv_def
  proof (elim conjE exE, intro conjI exI)
    fix ks assume ks: "free_chain m (sm_mFreeList m) ks" "distinct ks"
      "sm_mFreeCount m = int (length ks)" "set ks \<inter> out = {}" "set ks \<union> out = {k. entry_of m k \<noteq> None}"
    have kk: "key \<notin> set ks" using ks(4) kout by auto
    then have "\<forall>k \<in> set ks. next_of n k = next_of m k" by (auto simp: next_of_def ent)
    then have "free_chain n (sm_mFreeList m) ks" using ks(1) free_chain_cong by blast
    moreover have "next_of n key = sm_mFreeList m" "sm_mFreeList n = key"
      by (simp_all add: next_of_def ent e'_def) (simp add: n_def)
    ultimately show "free_chain n (sm_mFreeList n) (key # ks)" using key0 by simp
    show "distinct (key # ks)" "sm_mFreeCount n = int (length (key # ks))"
      "set (key # ks) \<inter> (out - {key}) = {}"
      using ks kk by (auto simp: n_def)
    show "set (key # ks) \<union> (out - {key}) = {k. entry_of n k \<noteq> None}"
      using ks(5) kout by (auto simp: ent)
    assume "sm_mArray m 0 = None"
    then show "sm_mArray n 0 = None" using row by (cases "row_of key = 0") (simp_all add: n_def)
    assume "\<forall>k. live m k \<longrightarrow> k \<in> out"
    then show "\<forall>k. live n k \<longrightarrow> k \<in> out - {key}" using live by blast
    assume "sm_mCount m = int (card {k. live m k})"
    moreover have "0 < card {k. live m k}" using alive by (auto simp: card_gt_0_iff)
    ultimately show "sm_mCount n = int (card {k. live n k})"
      unfolding live using alive by (simp add: n_def card_Diff_singleton of_nat_diff)
  qed
  moreover have "session_of n = (session_of m)(sid := None)"
    using e sq by (auto simp: fun_eq_iff session_of_entry ent e'_def key_def [symmetric] split: option.splits)
  moreover have "seq_of n = (seq_of m)(key := seq_of m key + 1)"
    by (auto simp: seq_of_entry ent e e'_def fun_eq_iff)
  ultimately show ?thesis using rem unfolding key_def by blast
qed


subsection \<open>The table as its clients use it\<close>

text \<open>
  \<open>onAccept\<close> takes a key and stores the session under it; every handler tests the sid with
  \<open>get\<close>; \<open>doClose\<close> removes a session it has found.
\<close>

definition SessionTable_open :: "'s \<Rightarrow> 's session_manager \<Rightarrow> (sp_sid option \<times> 's session_manager) res" where
  "SessionTable_open s m =
     res_bind (SessionManager_allocKey m) (\<lambda>(key, seq, n).
       if key = 0 then Inr (None, n)
       else res_bind (SessionManager_put key (the seq) s n) (\<lambda>n'.
         Inr (Some \<lparr> sid_mKey = key, sid_mSeq = the seq \<rparr>, n')))"

definition SessionTable_close :: "sp_sid \<Rightarrow> 's session_manager \<Rightarrow> ('s option \<times> 's session_manager) res" where
  "SessionTable_close sid m =
     (if session_of m sid = None then Inr (None, m)
      else SessionManager_remove (sid_mKey sid) (sid_mSeq sid) m)"

datatype 's table_op = Open 's | Close sp_sid | Find sp_sid

datatype 's table_ans = Opened "sp_sid option" | Found "'s option"

definition table_capacity :: nat where "table_capacity = 64512"

text \<open>
  The abstract table is a finite map. It accepts an answer of \<open>Open\<close> when the sid has a key
  outside row 0 that no session of the map has, or when no sid is answered and the map is full.
\<close>

fun table_ok :: "(sp_sid \<rightharpoonup> 's) \<Rightarrow> 's table_op list \<Rightarrow> 's table_ans list \<Rightarrow> bool" where
  "table_ok t [] [] \<longleftrightarrow> True"
| "table_ok t (Open s # ops) (Opened None # as) \<longleftrightarrow>
     card (dom t) = table_capacity \<and> table_ok t ops as"
| "table_ok t (Open s # ops) (Opened (Some sid) # as) \<longleftrightarrow>
     card (dom t) < table_capacity \<and> eColPerRow \<le> unat (sid_mKey sid) \<and>
     sid_mKey sid \<notin> sid_mKey ` dom t \<and> table_ok (t(sid \<mapsto> s)) ops as"
| "table_ok t (Close sid # ops) (Found a # as) \<longleftrightarrow> a = t sid \<and> table_ok (t(sid := None)) ops as"
| "table_ok t (Find sid # ops) (Found a # as) \<longleftrightarrow> a = t sid \<and> table_ok t ops as"
| "table_ok t _ _ \<longleftrightarrow> False"

fun opened_sids :: "'s table_ans list \<Rightarrow> sp_sid list" where
  "opened_sids [] = []"
| "opened_sids (Opened (Some sid) # as) = sid # opened_sids as"
| "opened_sids (_ # as) = opened_sids as"

fun count_close :: "'s table_op list \<Rightarrow> nat" where
  "count_close [] = 0"
| "count_close (Close _ # ops) = Suc (count_close ops)"
| "count_close (_ # ops) = count_close ops"

fun table_run ::
  "('s \<Rightarrow> 't \<Rightarrow> (sp_sid option \<times> 't) res) \<Rightarrow> (sp_sid \<Rightarrow> 't \<Rightarrow> ('s option \<times> 't) res) \<Rightarrow>
   ('t \<Rightarrow> sp_sid \<Rightarrow> 's option) \<Rightarrow> 's table_op list \<Rightarrow> 't \<Rightarrow> ('s table_ans list \<times> 't) res" where
  "table_run opn cls fnd [] t = Inr ([], t)"
| "table_run opn cls fnd (Open s # ops) t =
     res_bind (opn s t) (\<lambda>(a, t'). res_bind (table_run opn cls fnd ops t') (\<lambda>(as, t'').
       Inr (Opened a # as, t'')))"
| "table_run opn cls fnd (Close sid # ops) t =
     res_bind (cls sid t) (\<lambda>(a, t'). res_bind (table_run opn cls fnd ops t') (\<lambda>(as, t'').
       Inr (Found a # as, t'')))"
| "table_run opn cls fnd (Find sid # ops) t =
     res_bind (table_run opn cls fnd ops t) (\<lambda>(as, t'). Inr (Found (fnd t sid) # as, t'))"

text \<open>
  The contract: \<open>fnd t\<close> is the map, \<open>gen t key\<close> the number the next sid of \<open>key\<close> carries.
\<close>

locale session_table =
  fixes opn :: "'s \<Rightarrow> 't \<Rightarrow> (sp_sid option \<times> 't) res"
    and cls :: "sp_sid \<Rightarrow> 't \<Rightarrow> ('s option \<times> 't) res"
    and fnd :: "'t \<Rightarrow> sp_sid \<Rightarrow> 's option"
    and gen :: "'t \<Rightarrow> u16 \<Rightarrow> u16"
    and inv :: "'t \<Rightarrow> bool"
  assumes opn_ok: "inv t \<Longrightarrow> \<exists>a t'. opn s t = Inr (a, t') \<and> inv t' \<and> gen t' = gen t \<and>
      (case a of None \<Rightarrow> fnd t' = fnd t \<and> card (dom (fnd t)) = table_capacity
       | Some sid \<Rightarrow> fnd t' = (fnd t)(sid \<mapsto> s) \<and> card (dom (fnd t)) < table_capacity \<and>
           eColPerRow \<le> unat (sid_mKey sid) \<and> sid_mKey sid \<notin> sid_mKey ` dom (fnd t) \<and>
           sid_mSeq sid = gen t (sid_mKey sid))"
    and cls_ok: "inv t \<Longrightarrow> \<exists>t'. cls sid t = Inr (fnd t sid, t') \<and> inv t' \<and>
      fnd t' = (fnd t)(sid := None) \<and>
      gen t' = (if fnd t sid = None then gen t else (gen t)(sid_mKey sid := gen t (sid_mKey sid) + 1))"
    and fnd_gen: "inv t \<Longrightarrow> fnd t sid = Some s \<Longrightarrow> sid_mSeq sid = gen t (sid_mKey sid)"
begin

lemma run_ok:
  "inv t \<Longrightarrow> \<exists>as t'. table_run opn cls fnd ops t = Inr (as, t') \<and> inv t' \<and> table_ok (fnd t) ops as"
proof (induction ops arbitrary: t)
  case (Cons op ops)
  show ?case
  proof (cases op)
    case (Open s)
    from opn_ok [OF Cons.prems, of s] obtain a t1 where
      t1: "opn s t = Inr (a, t1)" "inv t1"
        "case a of None \<Rightarrow> fnd t1 = fnd t \<and> card (dom (fnd t)) = table_capacity
         | Some sid \<Rightarrow> fnd t1 = (fnd t)(sid \<mapsto> s) \<and> card (dom (fnd t)) < table_capacity \<and>
             eColPerRow \<le> unat (sid_mKey sid) \<and> sid_mKey sid \<notin> sid_mKey ` dom (fnd t) \<and>
             sid_mSeq sid = gen t (sid_mKey sid)" by blast
    with Cons.IH [OF t1(2)] Open show ?thesis by (cases a) (auto simp del: fun_upd_apply)
  next
    case (Close sid)
    from cls_ok [OF Cons.prems, of sid] obtain t1 where
      "cls sid t = Inr (fnd t sid, t1)" "inv t1" "fnd t1 = (fnd t)(sid := None)" by blast
    with Cons.IH [of t1] Close show ?thesis by (auto simp del: fun_upd_apply)
  next
    case (Find sid)
    with Cons.IH [OF Cons.prems] show ?thesis by auto
  qed
qed simp

lemma run_fresh:
  assumes "inv t" "table_run opn cls fnd ops t = Inr (as, t')"
    and "\<forall>k. gen t k = of_nat (c k)" "\<forall>k. c k + count_close ops < 65536"
    and "\<forall>sid \<in> I. fnd t sid \<noteq> None \<or> (\<exists>j < c (sid_mKey sid). sid_mSeq sid = of_nat j)"
  shows "distinct (opened_sids as) \<and> set (opened_sids as) \<inter> I = {}"
  using assms
proof (induction ops arbitrary: t as c I)
  case (Cons op ops)
  show ?case
  proof (cases op)
    case (Open s)
    from opn_ok [OF Cons.prems(1), of s] obtain a t1 where
      t1: "opn s t = Inr (a, t1)" "inv t1" "gen t1 = gen t" and
      a: "case a of None \<Rightarrow> fnd t1 = fnd t \<and> card (dom (fnd t)) = table_capacity
         | Some sid \<Rightarrow> fnd t1 = (fnd t)(sid \<mapsto> s) \<and> card (dom (fnd t)) < table_capacity \<and>
             eColPerRow \<le> unat (sid_mKey sid) \<and> sid_mKey sid \<notin> sid_mKey ` dom (fnd t) \<and>
             sid_mSeq sid = gen t (sid_mKey sid)" by blast
    from Cons.prems(2) Open t1(1) obtain as' where
      as': "as = Opened a # as'" "table_run opn cls fnd ops t1 = Inr (as', t')"
      by (auto simp: res_bind_eq_Inr_iff)
    have c: "\<forall>k. gen t1 k = of_nat (c k)" "\<forall>k. c k + count_close ops < 65536"
      using Cons.prems(3,4) t1(3) Open by simp_all
    show ?thesis
    proof (cases a)
      case None
      with Cons.IH [OF t1(2) as'(2) c] Cons.prems(5) a as'(1) show ?thesis by simp
    next
      case (Some sid)
      have "sid \<notin> I"
      proof
        assume "sid \<in> I"
        with Cons.prems(5) have "fnd t sid \<noteq> None \<or> (\<exists>j < c (sid_mKey sid). sid_mSeq sid = of_nat j)" by blast
        then obtain j where j: "j < c (sid_mKey sid)" "sid_mSeq sid = of_nat j"
          using a Some by (auto simp: image_iff)
        have "c (sid_mKey sid) < 65536" using Cons.prems(4) by (metis add_lessD1)
        moreover have "of_nat j = (of_nat (c (sid_mKey sid)) :: u16)"
          using a Some j(2) Cons.prems(3) by simp
        ultimately show False
          using j(1) by (simp add: word_of_nat_eq_iff take_bit_nat_eq_self)
      qed
      moreover have "\<forall>x \<in> insert sid I. fnd t1 x \<noteq> None \<or> (\<exists>j < c (sid_mKey x). sid_mSeq x = of_nat j)"
        using Cons.prems(5) a Some by auto
      ultimately show ?thesis using Cons.IH [OF t1(2) as'(2) c, of "insert sid I"] as'(1) Some by simp
    qed
  next
    case (Close sid)
    from cls_ok [OF Cons.prems(1), of sid] obtain t1 where
      t1: "cls sid t = Inr (fnd t sid, t1)" "inv t1" "fnd t1 = (fnd t)(sid := None)"
        "gen t1 = (if fnd t sid = None then gen t else (gen t)(sid_mKey sid := gen t (sid_mKey sid) + 1))"
      by blast
    from Cons.prems(2) Close t1(1) obtain as' where
      as': "as = Found (fnd t sid) # as'" "table_run opn cls fnd ops t1 = Inr (as', t')"
      by (auto simp: res_bind_eq_Inr_iff)
    define c' where "c' = (if fnd t sid = None then c else c(sid_mKey sid := c (sid_mKey sid) + 1))"
    have 1: "\<forall>k. gen t1 k = of_nat (c' k)" using t1(4) Cons.prems(3) by (simp add: c'_def)
    have 2: "\<forall>k. c' k + count_close ops < 65536"
      using Cons.prems(4) Close by (auto simp: c'_def Suc_lessD)
    have 3: "\<forall>x \<in> I. fnd t1 x \<noteq> None \<or> (\<exists>j < c' (sid_mKey x). sid_mSeq x = of_nat j)"
    proof
      fix x assume x: "x \<in> I"
      show "fnd t1 x \<noteq> None \<or> (\<exists>j < c' (sid_mKey x). sid_mSeq x = of_nat j)"
      proof (cases "x = sid \<and> fnd t sid \<noteq> None")
        case True
        then have "sid_mSeq x = of_nat (c (sid_mKey x))"
          using fnd_gen [OF Cons.prems(1)] Cons.prems(3) by auto
        then show ?thesis using True by (intro disjI2 exI [of _ "c (sid_mKey x)"]) (simp add: c'_def)
      next
        case False
        have le: "c (sid_mKey x) \<le> c' (sid_mKey x)" by (simp add: c'_def)
        from Cons.prems(5) x
        have "fnd t x \<noteq> None \<or> (\<exists>j < c (sid_mKey x). sid_mSeq x = of_nat j)" by blast
        moreover have "fnd t x \<noteq> None \<Longrightarrow> fnd t1 x \<noteq> None" using False t1(3) by auto
        ultimately show ?thesis using le by (meson order_less_le_trans)
      qed
    qed
    from Cons.IH [OF t1(2) as'(2) 1 2 3] as'(1) show ?thesis by simp
  next
    case (Find sid)
    from Cons.prems(2) Find obtain as' where
      "as = Found (fnd t sid) # as'" "table_run opn cls fnd ops t = Inr (as', t')"
      by (auto simp: res_bind_eq_Inr_iff)
    with Cons.IH [OF Cons.prems(1) _ Cons.prems(3) _ Cons.prems(5)] Cons.prems(4) Find
    show ?thesis by simp
  qed
qed simp

end

subsection \<open>The table meets the contract\<close>

text \<open>Between two operations of a client the keys that are out are the keys with a session.\<close>

definition table_inv :: "'s session_manager \<Rightarrow> bool" where
  "table_inv m \<longleftrightarrow> sm_inv {k. live m k} m"

lemma live_dom: "{k. live m k} = sid_mKey ` dom (session_of m)"
proof -
  have "live m (sid_mKey sid)" if "session_of m sid = Some s" for sid s
    using that by (rule session_of_live)
  moreover have "\<exists>sid. session_of m sid \<noteq> None \<and> sid_mKey sid = k" if "live m k" for k
    using that by (metis live_session_of sp_sid.select_convs(1))
  ultimately show ?thesis by (auto simp: image_iff dom_def) metis
qed

lemma card_live: "card {k. live m k} = card (dom (session_of m))"
  unfolding live_dom
proof (rule card_image)
  show "inj_on sid_mKey (dom (session_of m))"
    by (auto simp: inj_on_def session_of_entry dom_def intro!: sp_sid.equality split: option.splits if_splits)
qed

lemma keys_from_row1:
  "{k. 1 \<le> row_of k} = (\<lambda>n. of_nat n :: u16) ` {1024..<65536}" "inj_on (\<lambda>n. of_nat n :: u16) {1024..<65536}"
proof -
  have lt: "unat (k :: u16) < 65536" for k using unsigned_less [of k] by simp
  have k: "k = of_nat (unat k)" for k :: u16 by simp
  have u: "unat (of_nat n :: u16) = n" if "n < 65536" for n
    using that by (simp add: unat_of_nat)
  show "{k. 1 \<le> row_of k} = (\<lambda>n. of_nat n :: u16) ` {1024..<65536}"
    using k lt by (auto simp: row_of_def eColPerRow_def u Suc_le_eq div_greater_zero_iff image_iff)
      (metis atLeastLessThan_iff k lt)
  show "inj_on (\<lambda>n. of_nat n :: u16) {1024..<65536}"
    by (rule inj_onI) (metis atLeastLessThan_iff u)
qed

lemma card_keys: "card {k :: u16. 1 \<le> row_of k} = table_capacity"
  unfolding keys_from_row1(1) card_image [OF keys_from_row1(2)] by (simp add: table_capacity_def)

lemma sm_inv_entry_row: "sm_inv out m \<Longrightarrow> entry_of m k = Some e \<Longrightarrow> 1 \<le> row_of k"
  by (cases "row_of k") (auto simp: sm_inv_def entry_of_def)

lemma open_ok:
  assumes "table_inv m"
  shows "\<exists>a n. SessionTable_open s m = Inr (a, n) \<and> table_inv n \<and> seq_of n = seq_of m \<and>
    (case a of None \<Rightarrow> session_of n = session_of m \<and> card (dom (session_of m)) = table_capacity
     | Some sid \<Rightarrow> session_of n = (session_of m)(sid \<mapsto> s) \<and> card (dom (session_of m)) < table_capacity \<and>
         eColPerRow \<le> unat (sid_mKey sid) \<and> sid_mKey sid \<notin> sid_mKey ` dom (session_of m) \<and>
         sid_mSeq sid = seq_of m (sid_mKey sid))"
proof -
  define out where "out = {k. live m k}"
  from assms have inv: "sm_inv out m" by (simp add: table_inv_def out_def)
  from allocKey_inv [OF inv] obtain key sq n where
    n: "SessionManager_allocKey m = Inr (key, sq, n)" "session_of n = session_of m" "seq_of n = seq_of m"
    and key: "if key = 0 then sq = None \<and> sm_inv out n \<and> all_rows m \<and> sm_mFreeList m = 0
     else key \<notin> out \<and> sm_inv (insert key out) n \<and> (\<exists>e. entry_of n key = Some e \<and> sq = Some (se_mSeq e))"
    by blast
  have live: "live n k = live m k" for k using n(2) by (simp add: live_session_of)
  have sub: "out \<subseteq> {k. 1 \<le> row_of k}"
    using sm_inv_entry_row [OF inv] by (auto simp: out_def live_def)
  show ?thesis
  proof (cases "key = 0")
    case True
    with key have full: "all_rows m" "sm_mFreeList m = 0" and invn: "sm_inv out n" by auto
    from inv full(2) have "out = {k. entry_of m k \<noteq> None}"
      by (auto simp: sm_inv_def dest: free_chain_0)
    moreover have "entry_of m k \<noteq> None" if "1 \<le> row_of k" for k
      using full(1) that row_of_less [of k] by (auto simp: all_rows_def entry_of_def)
    ultimately have "out = {k. 1 \<le> row_of k}" using sub by auto
    then have "card (dom (session_of m)) = table_capacity"
      using card_keys card_live [of m] by (simp add: out_def)
    then show ?thesis using True n invn live
      by (intro exI [of _ None] exI [of _ n]) (simp add: SessionTable_open_def table_inv_def out_def)
  next
    case False
    with key obtain e where e: "entry_of n key = Some e" "sq = Some (se_mSeq e)"
      and out: "key \<notin> out" and invn: "sm_inv (insert key out) n" by auto
    have free: "se_mSession e = None"
      using out e(1) live [of key] by (auto simp: out_def live_def)
    define sid where "sid = \<lparr> sid_mKey = key, sid_mSeq = se_mSeq e \<rparr>"
    from put_inv [OF invn _ e(1) free, of s] obtain n' where
      n': "SessionManager_put key (se_mSeq e) s n = Inr n'" "sm_inv (insert key out) n'"
        "session_of n' = (session_of n)(sid \<mapsto> s)" "seq_of n' = seq_of n"
      unfolding sid_def by blast
    have live': "{k. live n' k} = insert key out"
      unfolding live_dom n'(3) n(2) using live_dom [of m] by (auto simp: out_def sid_def)
    have row: "1 \<le> row_of key" by (rule sm_inv_entry_row [OF invn e(1)])
    then have "out \<subset> {k. 1 \<le> row_of k}" using sub out by auto
    then have "card out < table_capacity" by (metis card_keys finite psubset_card_mono)
    moreover have "eColPerRow \<le> unat key"
      using row by (simp add: row_of_def eColPerRow_def Suc_le_eq div_greater_zero_iff)
    moreover have "se_mSeq e = seq_of m key" using n(3) e(1) by (metis seq_of_entry option.simps(5))
    ultimately show ?thesis using n n' e out live' False
      by (intro exI [of _ "Some sid"] exI [of _ n'])
        (simp add: SessionTable_open_def table_inv_def sid_def card_live [symmetric] live_dom [symmetric] out_def)
  qed
qed

lemma close_ok:
  assumes "table_inv m"
  shows "\<exists>n. SessionTable_close sid m = Inr (session_of m sid, n) \<and> table_inv n \<and>
    session_of n = (session_of m)(sid := None) \<and>
    seq_of n = (if session_of m sid = None then seq_of m
      else (seq_of m)(sid_mKey sid := seq_of m (sid_mKey sid) + 1))"
proof (cases "session_of m sid")
  case None
  then show ?thesis using assms
    by (intro exI [of _ m]) (simp add: SessionTable_close_def fun_upd_idem)
next
  case (Some s)
  from assms have inv: "sm_inv {k. live m k} m" by (simp add: table_inv_def)
  from remove_inv [OF inv Some] obtain n where
    n: "SessionManager_remove (sid_mKey sid) (sid_mSeq sid) m = Inr (Some s, n)"
      "sm_inv ({k. live m k} - {sid_mKey sid}) n" "session_of n = (session_of m)(sid := None)"
      "seq_of n = (seq_of m)(sid_mKey sid := seq_of m (sid_mKey sid) + 1)" by blast
  have "{k. live n k} = {k. live m k} - {sid_mKey sid}"
  proof -
    have "sid' = sid" if "session_of m sid' = Some s'" "sid_mKey sid' = sid_mKey sid" for sid' s'
      using that Some
      by (auto simp: session_of_entry intro!: sp_sid.equality split: option.splits if_splits)
    then show ?thesis unfolding live_dom n(3) by (auto simp: dom_def image_iff)
  qed
  then show ?thesis using n Some by (intro exI [of _ n]) (simp add: SessionTable_close_def table_inv_def)
qed

lemma session_of_seq: "session_of m sid = Some s \<Longrightarrow> sid_mSeq sid = seq_of m (sid_mKey sid)"
  by (auto simp: session_of_entry seq_of_entry split: option.splits if_splits)

interpretation st: session_table SessionTable_open SessionTable_close session_of seq_of table_inv
  by (unfold_locales; rule open_ok close_ok session_of_seq; assumption)

lemma table_inv_new: "table_inv SessionManager_new"
  using sm_inv_new [where 'a='a]
  by (simp add: table_inv_def live_def entry_of_def SessionManager_new_def)

definition SessionTable_run :: "'s table_op list \<Rightarrow> ('s table_ans list \<times> 's session_manager) res" where
  "SessionTable_run ops = table_run SessionTable_open SessionTable_close session_of ops SessionManager_new"

text \<open>
  C18: Used as the server uses it (take a key and store a session under it, look a sid up, remove
  a session that was found), the session table never fails an assertion or dereferences NULL,
  and it behaves as a finite map: a lookup finds exactly the session stored last under that sid
  and not removed since, a new sid never has the key of a stored session nor a key below 1024
  (the reserved system sids), and no key is answered exactly when 64512 sessions are stored.
\<close>

theorem SessionManager_is_map:
  fixes ops :: "'a table_op list"
  shows "\<exists>as m. SessionTable_run ops = Inr (as, m) \<and> table_inv m \<and> table_ok Map.empty ops as"
proof -
  have "session_of (SessionManager_new :: 'a session_manager) = Map.empty"
    by (auto simp: session_of_entry entry_of_def SessionManager_new_def)
  with st.run_ok [OF table_inv_new, of ops] show ?thesis by (simp add: SessionTable_run_def)
qed

text \<open>
  C19: A sid is never issued twice, so a message, event or response that still carries the sid of
  a session that is gone cannot reach another session, as long as fewer than 65536 removals were
  made in the lifetime of the table (the 16-bit sequence number of a key then cannot have wrapped).
\<close>

theorem SessionManager_sids_unique:
  fixes ops :: "'a table_op list"
  assumes "SessionTable_run ops = Inr (as, m)" and "count_close ops < 65536"
  shows "distinct (opened_sids as)"
proof -
  have "seq_of (SessionManager_new :: 'a session_manager) k = of_nat 0" for k
    by (simp add: seq_of_entry entry_of_def SessionManager_new_def)
  then show ?thesis
    using st.run_fresh [OF table_inv_new, of ops as m "\<lambda>_. 0" "{}"] assms
    by (simp add: SessionTable_run_def)
qed


lemma SessionManager_sids_unique_witness:
  "\<exists>as m. SessionTable_run [Open (7 :: nat), Close \<lparr> sid_mKey = 1024, sid_mSeq = 0 \<rparr>, Open 8] = Inr (as, m) \<and>
     distinct (opened_sids as)"
proof -
  let ?ops = "[Open (7 :: nat), Close \<lparr> sid_mKey = 1024, sid_mSeq = 0 \<rparr>, Open 8]"
  obtain as m where run: "SessionTable_run ?ops = Inr (as, m)"
    using st.run_ok [OF table_inv_new, of ?ops] by (auto simp: SessionTable_run_def)
  moreover have "count_close ?ops < 65536" by simp
  ultimately show ?thesis using SessionManager_sids_unique [OF run] by blast
qed

end
