(* ===== verification/SP_Win32Buffer.thy ===== *)
theory SP_Win32Buffer
  imports SP_Base
begin

text \<open>
  \<open>spwin32buffer\<close> (spwin32buffer.hpp, spwin32buffer.cpp): the byte buffer under \<open>SP_Buffer\<close> on
  Windows, adapted from libevent. A block from \<open>realloc\<close> holds the live bytes in the window of
  length \<open>off\<close> that starts at \<open>buffer\<close>; draining moves the start of the window, so \<open>misalign\<close>
  bytes in front of it are free again. The block is the list of its bytes and \<open>buffer\<close> is the
  distance from \<open>orig_buffer\<close>. \<open>wb_gen\<close> numbers the allocations: a pointer into the buffer is a
  pair of that number and an offset, and it dangles once the number has changed. The change
  callback is recorded as the list of its calls.
\<close>

record win32buffer =
  wb_block :: "bytes option"
  wb_gen :: nat
  wb_buffer :: nat
  wb_misalign :: nat
  wb_totallen :: nat
  wb_off :: nat
  wb_cb :: bool
  wb_log :: "(nat \<times> nat) list"

definition win32buffer_new :: win32buffer where
  "win32buffer_new = \<lparr> wb_block = None, wb_gen = 0, wb_buffer = 0, wb_misalign = 0,
     wb_totallen = 0, wb_off = 0, wb_cb = False, wb_log = [] \<rparr>"

definition win32buffer_setcb :: "bool \<Rightarrow> win32buffer \<Rightarrow> win32buffer" where
  "win32buffer_setcb cb b = b\<lparr> wb_cb := cb \<rparr>"

text \<open>The bytes of the block; a NULL block has none.\<close>

definition wb_mem :: "win32buffer \<Rightarrow> bytes" where
  "wb_mem b = (case wb_block b of None \<Rightarrow> [] | Some m \<Rightarrow> m)"

definition wb_notify :: "bool \<Rightarrow> nat \<Rightarrow> win32buffer \<Rightarrow> win32buffer" where
  "wb_notify changed oldoff b =
     (if changed \<and> wb_cb b then b\<lparr> wb_log := wb_log b @ [(oldoff, wb_off b)] \<rparr> else b)"

definition win32buffer_align :: "win32buffer \<Rightarrow> win32buffer res" where
  "win32buffer_align b =
     res_bind (mem_get (wb_buffer b) (wb_off b) (wb_mem b)) (\<lambda>xs.
     res_bind (mem_put 0 xs (wb_mem b)) (\<lambda>m.
       Inr (b\<lparr> wb_block := map_option (\<lambda>_. m) (wb_block b), wb_buffer := 0, wb_misalign := 0 \<rparr>)))"

text \<open>
  The loop \<open>while (length < need) length <<= 1\<close>. After 64 doublings a 64-bit length is 0 and
  stays 0, so 65 tests decide it: \<open>None\<close> stands for a loop that does not end.
\<close>

fun double_until :: "nat \<Rightarrow> nat \<Rightarrow> nat \<Rightarrow> nat option" where
  "double_until 0 len need = None"
| "double_until (Suc f) len need =
     (if len < need then double_until f ((2 * len) mod size_max) need else Some len)"

text \<open>The answer 0 (success) or -1 of the C function is the first component.\<close>

definition win32buffer_expand :: "libc \<Rightarrow> nat \<Rightarrow> win32buffer \<Rightarrow> (int \<times> win32buffer) res" where
  "win32buffer_expand lc datlen b =
     (let need = (wb_misalign b + wb_off b + datlen) mod size_max in
      if need \<le> wb_totallen b then Inr (0, b)
      else if datlen \<le> wb_misalign b then
        res_bind (win32buffer_align b) (\<lambda>b'. Inr (0, b'))
      else
        case double_until 65 (max 256 (wb_totallen b)) need of
          None \<Rightarrow> Inl Hang
        | Some newlen \<Rightarrow>
            res_bind (if wb_buffer b \<noteq> 0 then win32buffer_align b else Inr b) (\<lambda>b'.
              case lc_realloc lc (wb_mem b') newlen of
                None \<Rightarrow> Inr (-1, b')
              | Some m \<Rightarrow>
                  Inr (0, b'\<lparr> wb_block := Some m, wb_buffer := 0, wb_gen := Suc (wb_gen b'),
                              wb_totallen := newlen \<rparr>)))"

definition win32buffer_add :: "libc \<Rightarrow> bytes \<Rightarrow> win32buffer \<Rightarrow> (int \<times> win32buffer) res" where
  "win32buffer_add lc data b =
     (let need = (wb_misalign b + wb_off b + length data) mod size_max;
          oldoff = wb_off b
      in res_bind (if wb_totallen b < need then win32buffer_expand lc (length data) b else Inr (0, b))
           (\<lambda>(r, b1).
             if r = -1 then Inr (-1, b1)
             else res_bind (mem_put (wb_buffer b1 + wb_off b1) data (wb_mem b1)) (\<lambda>m.
               Inr (0, wb_notify (data \<noteq> []) oldoff
                 (b1\<lparr> wb_block := map_option (\<lambda>_. m) (wb_block b1),
                      wb_off := wb_off b1 + length data \<rparr>)))))"

definition win32buffer_drain :: "nat \<Rightarrow> win32buffer \<Rightarrow> win32buffer" where
  "win32buffer_drain len b =
     (let oldoff = wb_off b;
          b' = (if wb_off b \<le> len then b\<lparr> wb_off := 0, wb_buffer := 0, wb_misalign := 0 \<rparr>
                else b\<lparr> wb_buffer := wb_buffer b + len, wb_misalign := wb_misalign b + len,
                        wb_off := wb_off b - len \<rparr>)
      in wb_notify (wb_off b' \<noteq> oldoff) oldoff b')"

text \<open>\<open>remove\<close> answers the bytes it copies to the caller; their number is the C result.\<close>

definition win32buffer_remove :: "nat \<Rightarrow> win32buffer \<Rightarrow> (bytes \<times> win32buffer) res" where
  "win32buffer_remove datlen b =
     (let nread = (if wb_off b \<le> datlen then wb_off b else datlen)
      in res_bind (mem_get (wb_buffer b) nread (wb_mem b)) (\<lambda>xs.
           Inr (xs, win32buffer_drain nread b)))"

text \<open>
  \<open>readline\<close>: the loop counter is a 32-bit \<open>unsigned int\<close>, so a buffer of \<open>2 ^ 32\<close> bytes or more
  without a line end in its first \<open>2 ^ 32\<close> bytes is scanned forever.
\<close>

fun line_end :: "bytes \<Rightarrow> nat" where
  "line_end [] = 0"
| "line_end (c # cs) = (if c = CR \<or> c = LF then 0 else Suc (line_end cs))"

definition win32buffer_readline :: "libc \<Rightarrow> win32buffer \<Rightarrow> (bytes option \<times> win32buffer) res" where
  "win32buffer_readline lc b =
     res_bind (mem_get (wb_buffer b) (wb_off b) (wb_mem b)) (\<lambda>data.
       let len = wb_off b; i = line_end data in
       if 2 ^ 32 - 1 \<le> i \<and> 2 ^ 32 \<le> len then (if i = 2 ^ 32 - 1 then Inl OutOfBounds else Inl Hang)
       else if i = len then Inr (None, b)
       else if \<not> lc_malloc lc (i + 1) then Inr (None, win32buffer_drain i b)
       else
         let line = take i data;
             i' = (if i < len - 1 \<and> (data ! (i + 1) = CR \<or> data ! (i + 1) = LF) \<and> data ! (i + 1) \<noteq> data ! i
                   then i + 1 else i)
         in Inr (Some line, win32buffer_drain (i' + 1) b))"

text \<open>
  \<open>find\<close> scans with \<open>memchr\<close> for the first byte and compares. The answer is the offset of the
  match from \<open>orig_buffer\<close>.
\<close>

function win32buffer_find_loop :: "bytes \<Rightarrow> bytes \<Rightarrow> nat \<Rightarrow> nat \<Rightarrow> nat \<Rightarrow> nat option res" where
  "win32buffer_find_loop m what len search end =
     (if \<not> search < end then Inr None
      else case memchr m search (end - search) (hd what) of
          Inl f \<Rightarrow> Inl f
        | Inr None \<Rightarrow> Inr None
        | Inr (Some p) \<Rightarrow>
            if end < p + len then Inr None
            else if take len (drop p m) = take len what then Inr (Some p)
            else win32buffer_find_loop m what len (p + 1) end)"
  by pat_completeness auto
termination
  by (relation "measure (\<lambda>(m, what, len, search, end). end - search)") (auto dest: memchr_Some)

declare win32buffer_find_loop.simps [simp del]

definition win32buffer_find :: "bytes \<Rightarrow> nat \<Rightarrow> win32buffer \<Rightarrow> nat option res" where
  "win32buffer_find what len b =
     win32buffer_find_loop (wb_mem b) what len (wb_buffer b) (wb_buffer b + wb_off b)"

text \<open>
  \<open>add_buffer\<close> moves everything of the second buffer to the end of the first: it swaps the
  blocks when the first is empty. The buffers are distinct objects.
\<close>

definition wb_swap_blocks :: "win32buffer \<Rightarrow> win32buffer \<Rightarrow> win32buffer" where
  "wb_swap_blocks x y = x\<lparr> wb_block := wb_block y, wb_gen := wb_gen y, wb_buffer := wb_buffer y,
     wb_misalign := wb_misalign y, wb_totallen := wb_totallen y, wb_off := wb_off y \<rparr>"

definition win32buffer_add_buffer ::
  "libc \<Rightarrow> win32buffer \<Rightarrow> win32buffer \<Rightarrow> (int \<times> win32buffer \<times> win32buffer) res" where
  "win32buffer_add_buffer lc outbuf inbuf =
     (if wb_off outbuf = 0 then
        let oldoff = wb_off inbuf;
            out1 = wb_swap_blocks outbuf inbuf;
            in1 = wb_swap_blocks inbuf outbuf
        in Inr (0, wb_notify (oldoff \<noteq> 0) 0 out1, wb_notify (wb_off in1 \<noteq> oldoff) oldoff in1)
      else
        res_bind (mem_get (wb_buffer inbuf) (wb_off inbuf) (wb_mem inbuf)) (\<lambda>data.
        res_bind (win32buffer_add lc data outbuf) (\<lambda>(r, out1).
          Inr (r, out1, if r = 0 then win32buffer_drain (wb_off inbuf) inbuf else inbuf))))"

text \<open>
  \<open>add_vprintf\<close>: \<open>text\<close> is what the format and the arguments print. On Windows \<open>_vsnprintf\<close>
  answers -1 when the text does not fit (\<open>win\<close>), elsewhere \<open>vsnprintf\<close> answers its length.
  After one expansion by that length the text fits, so two rounds are enough (the third would
  be \<open>Hang\<close>).
\<close>

fun add_vprintf_loop :: "libc \<Rightarrow> bool \<Rightarrow> nat \<Rightarrow> bytes \<Rightarrow> nat \<Rightarrow> win32buffer \<Rightarrow> (int \<times> win32buffer) res" where
  "add_vprintf_loop lc win 0 text oldoff b = Inl Hang"
| "add_vprintf_loop lc win (Suc f) text oldoff b =
     (let used = wb_misalign b + wb_off b in
      if wb_totallen b < used then Inl AssertFail
      else
        let space = wb_totallen b - used;
            shown = take (space - 1) text
        in if win \<and> space = 0 then Inl OutOfBounds
           else res_bind (if space = 0 then Inr (wb_mem b)
                          else mem_put (wb_buffer b + wb_off b) (shown @ [NUL]) (wb_mem b)) (\<lambda>m.
             let b1 = b\<lparr> wb_block := map_option (\<lambda>_. m) (wb_block b) \<rparr> in
             if win \<and> space - 1 < length text then Inr (-1, b1)
             else if length text < space then
               Inr (int (length text), wb_notify True oldoff (b1\<lparr> wb_off := wb_off b1 + length text \<rparr>))
             else res_bind (win32buffer_expand lc (length text + 1) b1) (\<lambda>(r, b2).
               if r = -1 then Inr (-1, b2) else add_vprintf_loop lc win f text oldoff b2)))"

definition win32buffer_add_vprintf :: "libc \<Rightarrow> bool \<Rightarrow> bytes \<Rightarrow> win32buffer \<Rightarrow> (int \<times> win32buffer) res" where
  "win32buffer_add_vprintf lc win text b =
     res_bind (win32buffer_expand lc 64 b) (\<lambda>(_, b1). add_vprintf_loop lc win 2 text (wb_off b) b1)"

text \<open>
  \<open>read\<close> and \<open>write\<close>: \<open>avail\<close> is what \<open>ioctl(FIONREAD)\<close> answers (\<open>None\<close> when it fails), \<open>recv\<close>
  gives the received bytes for a request of at most that many, \<open>None\<close> for an error.
\<close>

definition EVBUFFER_MAX_READ :: int where "EVBUFFER_MAX_READ = 4096"

definition read_limit :: "int option \<Rightarrow> int \<Rightarrow> nat \<Rightarrow> int" where
  "read_limit avail howmuch totallen =
     (let n = (case avail of None \<Rightarrow> EVBUFFER_MAX_READ
               | Some n \<Rightarrow>
                   if n = 0 then EVBUFFER_MAX_READ
                   else if EVBUFFER_MAX_READ < n \<and> howmuch < n then
                     max EVBUFFER_MAX_READ (if 4 * to_int totallen < n then to_int (4 * totallen) else n)
                   else n)
      in if howmuch < 0 \<or> n < howmuch then n else howmuch)"

definition win32buffer_read ::
  "libc \<Rightarrow> int option \<Rightarrow> (nat \<Rightarrow> bytes option) \<Rightarrow> int \<Rightarrow> win32buffer \<Rightarrow> (int \<times> win32buffer) res" where
  "win32buffer_read lc avail recv howmuch b =
     (let oldoff = wb_off b; n = read_limit avail howmuch (wb_totallen b) in
      res_bind (win32buffer_expand lc (to_size n) b) (\<lambda>(r, b1).
        if r = -1 then Inr (-1, b1)
        else case recv (nat n) of
            None \<Rightarrow> Inr (-1, b1)
          | Some data \<Rightarrow>
              if data = [] then Inr (0, b1)
              else res_bind (mem_put (wb_buffer b1 + wb_off b1) data (wb_mem b1)) (\<lambda>m.
                Inr (int (length data), wb_notify True oldoff
                  (b1\<lparr> wb_block := map_option (\<lambda>_. m) (wb_block b1), wb_off := wb_off b1 + length data \<rparr>)))))"

definition win32buffer_write :: "(bytes \<Rightarrow> int) \<Rightarrow> win32buffer \<Rightarrow> (int \<times> win32buffer) res" where
  "win32buffer_write send b =
     res_bind (mem_get (wb_buffer b) (wb_off b) (wb_mem b)) (\<lambda>data.
       let n = send data in
       if n = -1 then Inr (-1, b)
       else if n = 0 then Inr (0, b)
       else Inr (n, win32buffer_drain (to_size n) b))"


subsection \<open>Invariant and contents\<close>

definition wb_inv :: "win32buffer \<Rightarrow> bool" where
  "wb_inv b \<longleftrightarrow> wb_buffer b = wb_misalign b \<and> wb_misalign b + wb_off b \<le> wb_totallen b \<and>
     length (wb_mem b) = wb_totallen b \<and> wb_totallen b < mem_limit \<and>
     (wb_block b \<noteq> None \<longrightarrow> 0 < wb_totallen b)"

definition wb_contents :: "win32buffer \<Rightarrow> bytes" where
  "wb_contents b = take (wb_off b) (drop (wb_buffer b) (wb_mem b))"

lemma wb_inv_new [simp]: "wb_inv win32buffer_new"
  by (simp add: wb_inv_def win32buffer_new_def wb_mem_def mem_limit_def)

lemma wb_contents_new [simp]: "wb_contents win32buffer_new = []"
  by (simp add: wb_contents_def win32buffer_new_def)

lemma length_wb_contents: "wb_inv b \<Longrightarrow> length (wb_contents b) = wb_off b"
  by (auto simp: wb_inv_def wb_contents_def)

lemma wb_mem_simps [simp]:
  "wb_mem (b\<lparr> wb_block := None \<rparr>) = []" "wb_mem (b\<lparr> wb_block := Some m \<rparr>) = m"
  "wb_mem (b\<lparr> wb_gen := g \<rparr>) = wb_mem b" "wb_mem (b\<lparr> wb_buffer := n \<rparr>) = wb_mem b"
  "wb_mem (b\<lparr> wb_misalign := n \<rparr>) = wb_mem b" "wb_mem (b\<lparr> wb_totallen := n \<rparr>) = wb_mem b"
  "wb_mem (b\<lparr> wb_off := n \<rparr>) = wb_mem b" "wb_mem (b\<lparr> wb_log := l \<rparr>) = wb_mem b"
  by (simp_all add: wb_mem_def)

lemma wb_notify_simps [simp]:
  "wb_block (wb_notify c o1 b) = wb_block b" "wb_gen (wb_notify c o1 b) = wb_gen b"
  "wb_buffer (wb_notify c o1 b) = wb_buffer b" "wb_misalign (wb_notify c o1 b) = wb_misalign b"
  "wb_totallen (wb_notify c o1 b) = wb_totallen b" "wb_off (wb_notify c o1 b) = wb_off b"
  "wb_cb (wb_notify c o1 b) = wb_cb b"
  by (simp_all add: wb_notify_def)

lemma wb_mem_notify [simp]: "wb_mem (wb_notify c o1 b) = wb_mem b"
  by (simp add: wb_mem_def)

lemma wb_inv_notify [simp]: "wb_inv (wb_notify c o1 b) = wb_inv b"
  by (simp add: wb_inv_def)

lemma wb_contents_notify [simp]: "wb_contents (wb_notify c o1 b) = wb_contents b"
  by (simp add: wb_contents_def)

lemma wb_mem_map_block [simp]:
  "wb_block b \<noteq> None \<Longrightarrow> wb_mem (b\<lparr> wb_block := map_option (\<lambda>_. m) (wb_block b) \<rparr>) = m"
  by (auto simp: wb_mem_def)

lemma wb_inv_block: "wb_inv b \<Longrightarrow> wb_block b = None \<Longrightarrow> wb_totallen b = 0 \<and> wb_off b = 0 \<and> wb_misalign b = 0"
  by (simp add: wb_inv_def wb_mem_def)

lemma double_until_ok:
  "need \<le> len * 2 ^ f \<Longrightarrow> 2 * need \<le> size_max \<Longrightarrow>
     \<exists>l. double_until (Suc f) len need = Some l \<and> need \<le> l \<and> len \<le> l \<and> l \<le> max len (2 * need)"
proof (induction f arbitrary: len)
  case (Suc f)
  show ?case
  proof (cases "len < need")
    case True
    then have "2 * len < size_max" using Suc.prems by simp
    with Suc.IH [of "2 * len"] Suc.prems True show ?thesis by auto
  qed simp
qed simp

lemma align_ok:
  assumes "wb_inv b"
  shows "\<exists>m. win32buffer_align b = Inr (b\<lparr> wb_block := map_option (\<lambda>_. m) (wb_block b), wb_buffer := 0, wb_misalign := 0 \<rparr>)
    \<and> length m = length (wb_mem b) \<and> take (wb_off b) m = wb_contents b"
proof -
  have len: "wb_buffer b + wb_off b \<le> length (wb_mem b)" using assms by (simp add: wb_inv_def)
  let ?m = "wb_contents b @ drop (wb_off b) (wb_mem b)"
  have "win32buffer_align b = Inr (b\<lparr> wb_block := map_option (\<lambda>_. ?m) (wb_block b), wb_buffer := 0, wb_misalign := 0 \<rparr>)"
    using len by (simp add: win32buffer_align_def mem_get_def mem_put_def wb_contents_def)
  moreover have "length (wb_contents b) = wb_off b" using assms by (rule length_wb_contents)
  ultimately show ?thesis using len by (intro exI [of _ ?m]) simp
qed

text \<open>What every successful change of the capacity keeps, and the room it leaves.\<close>

definition same_view :: "win32buffer \<Rightarrow> win32buffer \<Rightarrow> bool" where
  "same_view b b' \<longleftrightarrow> wb_contents b' = wb_contents b \<and> wb_off b' = wb_off b \<and>
     wb_cb b' = wb_cb b \<and> wb_log b' = wb_log b"

lemma same_view_refl [simp]: "same_view b b"
  by (simp add: same_view_def)

definition expand_bound :: "win32buffer \<Rightarrow> nat \<Rightarrow> nat" where
  "expand_bound b n = max (max 256 (wb_totallen b)) (2 * (wb_misalign b + wb_off b + n))"

lemma expand_ok:
  assumes inv: "wb_inv b" and lc: "libc_ok lc" and n: "n \<le> mem_limit"
  shows "\<exists>r b'. win32buffer_expand lc n b = Inr (r, b') \<and> wb_inv b' \<and> same_view b b' \<and>
    (r = 0 \<and> wb_misalign b' + wb_off b' + n \<le> wb_totallen b' \<or>
     r = -1 \<and> \<not> libc_room lc (expand_bound b n))"
proof -
  define need where "need = wb_misalign b + wb_off b + n"
  have need: "2 * need \<le> size_max" and modneed: "need mod size_max = need"
    using inv n by (simp_all add: need_def wb_inv_def mem_limit_def size_max_def)
  consider (fits) "need \<le> wb_totallen b" | (shift) "\<not> need \<le> wb_totallen b" "n \<le> wb_misalign b"
    | (grow) "\<not> need \<le> wb_totallen b" "\<not> n \<le> wb_misalign b" by blast
  then show ?thesis
  proof cases
    case fits
    then show ?thesis using inv modneed by (simp add: win32buffer_expand_def need_def)
  next
    case shift
    from align_ok [OF inv] obtain m where
      m: "win32buffer_align b = Inr (b\<lparr> wb_block := map_option (\<lambda>_. m) (wb_block b), wb_buffer := 0, wb_misalign := 0 \<rparr>)"
        "length m = length (wb_mem b)" "take (wb_off b) m = wb_contents b" by blast
    have blk: "wb_block b \<noteq> None" using shift wb_inv_block [OF inv] by (cases "wb_block b") (auto simp: need_def)
    show ?thesis using shift modneed m blk inv
      by (auto simp: win32buffer_expand_def need_def [symmetric] wb_inv_def same_view_def wb_contents_def wb_mem_def)
  next
    case grow
    obtain newlen where nl: "double_until 65 (max 256 (wb_totallen b)) need = Some newlen"
      "need \<le> newlen" "max 256 (wb_totallen b) \<le> newlen" "newlen \<le> expand_bound b n"
    proof -
      have "need \<le> max 256 (wb_totallen b) * 2 ^ 64"
        using need by (simp add: size_max_def max_def)
      from double_until_ok [OF this need] that show thesis
        by (auto simp: expand_bound_def need_def)
    qed
    obtain b1 where b1: "(if wb_buffer b \<noteq> 0 then win32buffer_align b else Inr b) = Inr b1"
      "wb_inv b1" "same_view b b1" "wb_buffer b1 = 0" "wb_totallen b1 = wb_totallen b"
    proof (cases "wb_buffer b = 0")
      case True
      with that [of b] inv show thesis by simp
    next
      case False
      from align_ok [OF inv] obtain m where
        m: "win32buffer_align b = Inr (b\<lparr> wb_block := map_option (\<lambda>_. m) (wb_block b), wb_buffer := 0, wb_misalign := 0 \<rparr>)"
          "length m = length (wb_mem b)" "take (wb_off b) m = wb_contents b" by blast
      have blk: "wb_block b \<noteq> None" using False inv wb_inv_block [OF inv] by (auto simp: wb_inv_def)
      show thesis
        by (rule that [of "b\<lparr> wb_block := map_option (\<lambda>_. m) (wb_block b), wb_buffer := 0, wb_misalign := 0 \<rparr>"])
          (use m blk inv False in \<open>auto simp: wb_inv_def same_view_def wb_contents_def wb_mem_def\<close>)
    qed
    show ?thesis
    proof (cases "lc_realloc lc (wb_mem b1) newlen")
      case None
      then have "\<not> libc_room lc (expand_bound b n)" using nl(4) by (auto simp: libc_room_def)
      with None show ?thesis using grow modneed nl(1) b1
        by (simp add: win32buffer_expand_def need_def [symmetric])
    next
      case (Some m)
      then have m: "length m = newlen" "newlen < mem_limit"
        "take (min (length (wb_mem b1)) newlen) m = take newlen (wb_mem b1)"
        using lc by (auto simp: libc_ok_def)
      have mem: "take (wb_totallen b) m = wb_mem b1"
        using m(3) nl(3) b1 by (simp add: wb_inv_def)
      have off: "wb_off b \<le> wb_totallen b" using inv by (simp add: wb_inv_def)
      have "take (wb_off b) m = take (wb_off b) (wb_mem b1)"
        using off by (simp add: mem [symmetric])
      then show ?thesis using Some grow modneed nl b1 m off
        by (auto simp: win32buffer_expand_def need_def [symmetric] wb_inv_def same_view_def wb_contents_def)
          (simp_all add: need_def)
    qed
  qed
qed

lemma add_ok:
  assumes inv: "wb_inv b" and lc: "libc_ok lc" and n: "length data \<le> mem_limit"
  shows "\<exists>r b'. win32buffer_add lc data b = Inr (r, b') \<and> wb_inv b' \<and> wb_cb b' = wb_cb b \<and>
    (r = 0 \<and> wb_contents b' = wb_contents b @ data \<or>
     r = -1 \<and> wb_contents b' = wb_contents b \<and> \<not> libc_room lc (expand_bound b (length data)))"
proof -
  have modneed: "(wb_misalign b + wb_off b + length data) mod size_max = wb_misalign b + wb_off b + length data"
    using inv n by (simp add: wb_inv_def mem_limit_def size_max_def)
  obtain r b1 where b1:
    "(if wb_totallen b < wb_misalign b + wb_off b + length data then win32buffer_expand lc (length data) b
      else Inr (0, b)) = Inr (r, b1)"
    "wb_inv b1" "same_view b b1"
    "r = 0 \<and> wb_misalign b1 + wb_off b1 + length data \<le> wb_totallen b1 \<or>
     r = -1 \<and> \<not> libc_room lc (expand_bound b (length data))"
  proof (cases "wb_totallen b < wb_misalign b + wb_off b + length data")
    case True
    with expand_ok [OF inv lc n] that show thesis by auto
  next
    case False
    with that [of 0 b] inv show thesis by simp
  qed
  show ?thesis
  proof (cases "r = -1")
    case True
    with b1 show ?thesis
      by (intro exI [of _ "-1"] exI [of _ b1]) (simp add: win32buffer_add_def modneed same_view_def)
  next
    case False
    with b1(4) have r: "r = 0" and room: "wb_misalign b1 + wb_off b1 + length data \<le> wb_totallen b1" by auto
    define m where "m = take (wb_buffer b1 + wb_off b1) (wb_mem b1) @ data @
      drop (wb_buffer b1 + wb_off b1 + length data) (wb_mem b1)"
    define b2 where "b2 = b1\<lparr> wb_block := map_option (\<lambda>_. m) (wb_block b1), wb_off := wb_off b1 + length data \<rparr>"
    have put: "mem_put (wb_buffer b1 + wb_off b1) data (wb_mem b1) = Inr m"
      using room b1(2) by (simp add: mem_put_def m_def wb_inv_def)
    have eq: "win32buffer_add lc data b = Inr (0, wb_notify (data \<noteq> []) (wb_off b) b2)"
      using b1(1) r put by (simp add: win32buffer_add_def modneed b2_def)
    have "wb_inv b2 \<and> wb_contents b2 = wb_contents b1 @ data"
    proof (cases "wb_block b1")
      case None
      with wb_inv_block [OF b1(2)] room b1(2) show ?thesis
        by (simp add: b2_def wb_inv_def wb_mem_def wb_contents_def)
    next
      case (Some m0)
      then have mem: "wb_mem b2 = m" by (simp add: b2_def wb_mem_def)
      have "length m = wb_totallen b1" using room b1(2) by (auto simp: m_def wb_inv_def)
      then have "wb_inv b2" using room b1(2) unfolding wb_inv_def mem by (simp add: b2_def)
      moreover have "take (wb_buffer b1 + wb_off b1) (wb_mem b1) = take (wb_buffer b1) (wb_mem b1) @ wb_contents b1"
        by (simp add: take_add wb_contents_def)
      then have "wb_contents b2 = wb_contents b1 @ data"
        using room b1(2) length_wb_contents [OF b1(2)] unfolding wb_contents_def [of b2] mem
        by (simp add: b2_def m_def wb_inv_def)
      ultimately show ?thesis ..
    qed
    then show ?thesis using b1(3) eq by (simp add: same_view_def b2_def)
  qed
qed

lemma drain_ok:
  assumes "wb_inv b"
  shows "wb_inv (win32buffer_drain n b)" "wb_contents (win32buffer_drain n b) = drop n (wb_contents b)"
    "wb_cb (win32buffer_drain n b) = wb_cb b" "wb_mem (win32buffer_drain n b) = wb_mem b"
    "wb_gen (win32buffer_drain n b) = wb_gen b"
  using assms by (auto simp: win32buffer_drain_def Let_def wb_inv_def wb_contents_def drop_take ac_simps)

lemma mem_get_contents: "wb_inv b \<Longrightarrow> n \<le> wb_off b \<Longrightarrow>
    mem_get (wb_buffer b) n (wb_mem b) = Inr (take n (wb_contents b))"
  by (auto simp: mem_get_def wb_inv_def wb_contents_def min_def)

lemma remove_ok:
  assumes "wb_inv b"
  shows "win32buffer_remove n b = Inr (take n (wb_contents b), win32buffer_drain n b)"
proof -
  have "win32buffer_drain (wb_off b) b = win32buffer_drain n b" if "wb_off b \<le> n"
    using that by (simp add: win32buffer_drain_def)
  then show ?thesis using assms length_wb_contents [OF assms]
    by (simp add: win32buffer_remove_def mem_get_contents)
qed

subsection \<open>Lines\<close>

text \<open>The first line of a byte sequence and what follows its end (one or two characters).\<close>

fun get_line :: "bytes \<Rightarrow> (bytes \<times> bytes) option" where
  "get_line [] = None"
| "get_line (c # cs) =
     (if c = CR \<or> c = LF then
        Some ([], case cs of [] \<Rightarrow> [] | d # ds \<Rightarrow> if (d = CR \<or> d = LF) \<and> d \<noteq> c then ds else cs)
      else map_option (\<lambda>(l, r). (c # l, r)) (get_line cs))"

lemma line_end_le: "line_end xs \<le> length xs"
  by (induction xs) auto

lemma get_line_eq:
  "get_line xs = (let i = line_end xs in
     if i = length xs then None
     else Some (take i xs,
       drop (if i < length xs - 1 \<and> (xs ! (i + 1) = CR \<or> xs ! (i + 1) = LF) \<and> xs ! (i + 1) \<noteq> xs ! i
             then i + 2 else i + 1) xs))"
proof (induction xs)
  case (Cons c cs)
  show ?case
  proof (cases "c = CR \<or> c = LF")
    case True
    then show ?thesis by (cases cs) (auto simp: Let_def)
  next
    case False
    then show ?thesis using Cons.IH line_end_le [of cs] by (cases cs) (auto simp: Let_def)
  qed
qed simp

lemma readline_ok:
  assumes inv: "wb_inv b" and small: "wb_off b < 2 ^ 32" and lc: "\<forall>n. lc_malloc lc n"
  shows "win32buffer_readline lc b =
    (case get_line (wb_contents b) of None \<Rightarrow> Inr (None, b)
     | Some (l, r) \<Rightarrow> Inr (Some l, win32buffer_drain (wb_off b - length r) b)) \<and>
    (\<forall>l r. get_line (wb_contents b) = Some (l, r) \<longrightarrow> drop (wb_off b - length r) (wb_contents b) = r)"
proof -
  note len = length_wb_contents [OF inv]
  let ?i = "line_end (wb_contents b)"
  have le: "?i \<le> wb_off b" using line_end_le [of "wb_contents b"] len by simp
  show ?thesis
  proof (cases "?i = wb_off b")
    case True
    then show ?thesis using inv small len
      by (simp add: win32buffer_readline_def mem_get_contents get_line_eq)
  next
    case False
    then show ?thesis using inv small len le lc
      by (auto simp: win32buffer_readline_def mem_get_contents get_line_eq Let_def)
  qed
qed

subsection \<open>Search\<close>

text \<open>
  The reference: the first occurrence of a pattern in the window from \<open>s\<close> to \<open>e\<close> of a block,
  and the three facts that a scan for the first byte of the pattern needs.
\<close>

definition find_from :: "bytes \<Rightarrow> nat \<Rightarrow> bytes \<Rightarrow> nat \<Rightarrow> nat option" where
  "find_from m e pat s = map_option (\<lambda>i. i + s) (find_sub pat (take (e - s) (drop s m)))"

lemma prefix_at_window:
  assumes "e \<le> length m" "j \<le> e - s" "s \<le> e"
  shows "prefix_at pat (drop j (take (e - s) (drop s m))) \<longleftrightarrow>
    s + j + length pat \<le> e \<and> take (length pat) (drop (s + j) m) = pat"
  using assms by (auto simp: prefix_at_def drop_take min_def ac_simps dest: arg_cong [of _ _ length])

lemma window_first:
  assumes "take (length pat) (drop p m) = pat" "pat \<noteq> []" "p < length m"
  shows "m ! p = hd pat"
  using assms by (cases pat) (auto simp: Cons_nth_drop_Suc [symmetric])

lemma window_prefix_first:
  assumes "prefix_at pat (drop j (take (e - s) (drop s m)))" "j < e - s" "e \<le> length m" "pat \<noteq> []"
  shows "s + j + length pat \<le> e \<and> m ! (s + j) = hd pat"
  using assms prefix_at_window [of e m j s pat] window_first [of pat "s + j" m] by simp

lemma find_from_None:
  assumes "e \<le> length m" "pat \<noteq> []" "\<forall>j. s \<le> j \<and> j + length pat \<le> e \<longrightarrow> m ! j \<noteq> hd pat"
  shows "find_from m e pat s = None"
proof -
  have "\<not> prefix_at pat (drop j (take (e - s) (drop s m)))" if "j < e - s" for j
    using window_prefix_first [OF _ that assms(1,2)] assms(3) le_add1 by blast
  then have "find_sub pat (take (e - s) (drop s m)) = None"
    using assms(1,2) by (intro find_sub_NoneI) simp_all
  then show ?thesis by (simp add: find_from_def)
qed

lemma find_from_hit:
  assumes "e \<le> length m" "pat \<noteq> []" "s \<le> p" "p + length pat \<le> e" "take (length pat) (drop p m) = pat"
    "\<forall>j. s \<le> j \<and> j < p \<longrightarrow> m ! j \<noteq> hd pat"
  shows "find_from m e pat s = Some p"
proof -
  have "\<not> prefix_at pat (drop j (take (e - s) (drop s m)))" if "j < p - s" for j
    using window_prefix_first [of pat j e s m] that assms by (auto simp: less_diff_conv add.commute)
  moreover have "prefix_at pat (drop (p - s) (take (e - s) (drop s m)))"
    using assms prefix_at_window [of e m "p - s" s pat] by simp
  ultimately have "find_sub pat (take (e - s) (drop s m)) = Some (p - s)"
    unfolding find_sub_eq_Some_iff using assms by simp
  then show ?thesis using assms(3) by (simp add: find_from_def)
qed

lemma find_from_skip:
  assumes "e \<le> length m" "pat \<noteq> []" "s \<le> p" "p < e" "take (length pat) (drop p m) \<noteq> pat"
    "\<forall>j. s \<le> j \<and> j < p \<longrightarrow> m ! j \<noteq> hd pat"
  shows "find_from m e pat s = find_from m e pat (p + 1)"
proof -
  let ?d = "take (e - s) (drop s m)"
  have "\<not> prefix_at pat (drop j ?d)" if "j < p + 1 - s" for j
  proof (cases "j = p - s")
    case True
    then show ?thesis using assms prefix_at_window [of e m "p - s" s pat] by simp
  next
    case False
    with that have "j < p - s" by simp
    then show ?thesis using window_prefix_first [of pat j e s m] assms by (auto simp: less_diff_conv add.commute)
  qed
  then have "find_sub pat ?d = map_option (\<lambda>i. i + (p + 1 - s)) (find_sub pat (drop (p + 1 - s) ?d))"
    using assms by (intro find_sub_skip) simp_all
  moreover have "drop (p + 1 - s) ?d = take (e - (p + 1)) (drop (p + 1) m)"
    using assms by (simp add: drop_take)
  ultimately show ?thesis using assms(3) by (simp add: find_from_def option.map_comp o_def)
qed

lemma wb_window: "wb_inv b \<Longrightarrow> wb_buffer b + wb_off b \<le> length (wb_mem b)"
  by (simp add: wb_inv_def)

lemma find_from_contents:
  "find_from (wb_mem b) (wb_buffer b + wb_off b) pat (wb_buffer b) =
     map_option (\<lambda>i. i + wb_buffer b) (find_sub pat (wb_contents b))"
  by (simp add: find_from_def wb_contents_def)

lemma win32buffer_find_loop_ok:
  assumes e: "e \<le> length m" and len: "0 < len" "len \<le> length what"
  shows "win32buffer_find_loop m what len s e = Inr (find_from m e (take len what) s)"
proof (induction "e - s" arbitrary: s rule: less_induct)
  case less
  have pat: "length (take len what) = len" "take len what \<noteq> []" "hd (take len what) = hd what"
    using len by auto
  note unf = win32buffer_find_loop.simps [of m what len s e]
  show ?case
  proof (cases "s < e")
    case False
    then show ?thesis using pat(2) by (simp add: unf find_from_def)
  next
    case True
    from memchr_total [of s "e - s" m "hd what"] e True obtain r
      where r: "memchr m s (e - s) (hd what) = Inr r" by auto
    show ?thesis
    proof (cases r)
      case None
      have "find_from m e (take len what) s = None"
        by (rule find_from_None [OF e pat(2)]) (use memchr_None [OF r [unfolded None]] pat True len in auto)
      then show ?thesis using True r None by (simp add: unf)
    next
      case (Some p)
      note p = memchr_Some [OF r [unfolded Some]]
      show ?thesis
      proof (cases "e < p + len")
        case out: True
        have "find_from m e (take len what) s = None"
        proof (rule find_from_None [OF e pat(2)], intro allI impI)
          fix j assume "s \<le> j \<and> j + length (take len what) \<le> e"
          then show "m ! j \<noteq> hd (take len what)" using p out pat(1,3) by auto
        qed
        then show ?thesis using True r Some out by (simp add: unf)
      next
        case inside: False
        show ?thesis
        proof (cases "take len (drop p m) = take len what")
          case hit: True
          then have "find_from m e (take len what) s = Some p"
            by (intro find_from_hit [OF e pat(2)]) (use p pat inside in auto)
          then show ?thesis using True r Some inside hit by (simp add: unf)
        next
          case miss: False
          have "find_from m e (take len what) s = find_from m e (take len what) (p + 1)"
            by (rule find_from_skip [OF e pat(2)]) (use p pat miss True in auto)
          moreover have "win32buffer_find_loop m what len (p + 1) e = Inr (find_from m e (take len what) (p + 1))"
            by (rule less.hyps) (use p True in auto)
          ultimately show ?thesis using True r Some inside miss by (simp add: unf)
        qed
      qed
    qed
  qed
qed

lemma win32buffer_find_ok:
  assumes "wb_inv b" "0 < len" "len \<le> length what"
  shows "win32buffer_find what len b =
    Inr (map_option (\<lambda>i. i + wb_buffer b) (find_sub (take len what) (wb_contents b)))"
  using assms by (simp add: win32buffer_find_def win32buffer_find_loop_ok find_from_contents wb_window)

end
