(* ===== verification/SP_Buffer.thy ===== *)
theory SP_Buffer
  imports SP_Win32Buffer
begin

text \<open>
  \<open>SP_Buffer\<close> (spbuffer.hpp, spbuffer.cpp): the byte buffer of sessions, messages and decoders, on
  top of \<open>spwin32buffer\<close> (the Windows build; elsewhere the same calls go to libevent's evbuffer).
  A \<open>const void *\<close> argument is the block it points to; a pointer that an operation answers is the
  rest of the block from there on.
\<close>

type_synonym sp_buffer = win32buffer

definition SPBuffer_new :: sp_buffer where
  "SPBuffer_new = win32buffer_new"

definition SPBuffer_append :: "libc \<Rightarrow> bytes \<Rightarrow> int \<Rightarrow> sp_buffer \<Rightarrow> (int \<times> sp_buffer) res" where
  "SPBuffer_append lc src len b =
     res_bind (if len \<le> 0 then (if NUL \<in> set src then Inr (to_int (length (cstr src))) else Inl OutOfBounds)
               else Inr len) (\<lambda>n.
     res_bind (mem_get 0 (to_size n) src) (\<lambda>data. win32buffer_add lc data b))"

definition SPBuffer_getSize :: "sp_buffer \<Rightarrow> nat" where
  "SPBuffer_getSize b = wb_off b"

definition SPBuffer_getCapacity :: "sp_buffer \<Rightarrow> int" where
  "SPBuffer_getCapacity b = to_int (wb_totallen b)"

text \<open>\<open>getBuffer\<close> makes room for a terminator; the answer of \<open>expand\<close> is not looked at.\<close>

definition SPBuffer_getBuffer :: "libc \<Rightarrow> sp_buffer \<Rightarrow> (bytes \<times> sp_buffer) res" where
  "SPBuffer_getBuffer lc b =
     (if wb_block b = None then Inr ([NUL], b)
      else res_bind (win32buffer_expand lc 1 b) (\<lambda>(_, b1).
           res_bind (mem_put (wb_buffer b1 + wb_off b1) [NUL] (wb_mem b1)) (\<lambda>m.
             Inr (drop (wb_buffer b1) m, b1\<lparr> wb_block := map_option (\<lambda>_. m) (wb_block b1) \<rparr>))))"

definition SPBuffer_getRawBuffer :: "sp_buffer \<Rightarrow> bytes" where
  "SPBuffer_getRawBuffer b = drop (wb_buffer b) (wb_mem b)"

text \<open>\<open>append\<close> of another buffer; \<open>getBuffer\<close> may grow that one.\<close>

definition SPBuffer_append_buffer ::
  "libc \<Rightarrow> sp_buffer \<Rightarrow> sp_buffer \<Rightarrow> (int \<times> sp_buffer \<times> sp_buffer) res" where
  "SPBuffer_append_buffer lc other b =
     (if 0 < SPBuffer_getSize other then
        res_bind (SPBuffer_getBuffer lc other) (\<lambda>(src, other').
        res_bind (SPBuffer_append lc src (to_int (SPBuffer_getSize other')) b) (\<lambda>(r, b').
          Inr (r, b', other')))
      else Inr (0, b, other))"

definition SPBuffer_printf :: "libc \<Rightarrow> bool \<Rightarrow> bytes \<Rightarrow> bytes \<Rightarrow> sp_buffer \<Rightarrow> (int \<times> sp_buffer) res" where
  "SPBuffer_printf lc win fmt text b =
     (if CHR ''%'' \<in> set (cstr fmt) then win32buffer_add_vprintf lc win text b
      else SPBuffer_append lc fmt 0 b)"

definition SPBuffer_erase :: "int \<Rightarrow> sp_buffer \<Rightarrow> sp_buffer" where
  "SPBuffer_erase len b = win32buffer_drain (to_size len) b"

definition SPBuffer_reset :: "sp_buffer \<Rightarrow> sp_buffer" where
  "SPBuffer_reset b = SPBuffer_erase (to_int (SPBuffer_getSize b)) b"

definition SPBuffer_truncate :: "int \<Rightarrow> sp_buffer \<Rightarrow> int \<times> sp_buffer" where
  "SPBuffer_truncate len b =
     (if len < to_int (SPBuffer_getSize b) then (0, b\<lparr> wb_off := to_size len \<rparr>) else (-1, b))"

definition SPBuffer_reserve :: "libc \<Rightarrow> int \<Rightarrow> sp_buffer \<Rightarrow> sp_buffer res" where
  "SPBuffer_reserve lc len b =
     res_bind (win32buffer_expand lc (to_size (len - int (SPBuffer_getSize b))) b) (\<lambda>(_, b'). Inr b')"

definition SPBuffer_getLine :: "libc \<Rightarrow> sp_buffer \<Rightarrow> (bytes option \<times> sp_buffer) res" where
  "SPBuffer_getLine lc b = win32buffer_readline lc b"

text \<open>
  \<open>take( buffer, len )\<close> copies into a caller's array of \<open>cap\<close> bytes and terminates it; the
  answer is the number of bytes copied, here with the bytes.
\<close>

definition SPBuffer_take_bytes :: "nat \<Rightarrow> int \<Rightarrow> sp_buffer \<Rightarrow> (bytes \<times> sp_buffer) res" where
  "SPBuffer_take_bytes cap len b =
     res_bind (win32buffer_remove (to_size (len - 1)) b) (\<lambda>(xs, b').
       if cap < length xs + 1 then Inl OutOfBounds else Inr (xs, b'))"

definition SPBuffer_take :: "sp_buffer \<Rightarrow> sp_buffer \<times> sp_buffer" where
  "SPBuffer_take b = (b, SPBuffer_new)"

text \<open>
  \<open>find\<close> answers a pointer into the block: the number of the allocation and the offset in it.
  With an empty key the scan covers one byte more than the contents.
\<close>

type_synonym wb_ptr = "nat \<times> nat"

function SPBuffer_find_loop :: "bytes \<Rightarrow> bytes \<Rightarrow> nat \<Rightarrow> nat \<Rightarrow> nat \<Rightarrow> nat option res" where
  "SPBuffer_find_loop m what len search end =
     (if end < search \<or> end - search < len then Inr None
      else case memchr m search (end - search - len + 1) (hd what) of
          Inl f \<Rightarrow> Inl f
        | Inr None \<Rightarrow> Inr None
        | Inr (Some p) \<Rightarrow>
            if take len (drop p m) = take len what then Inr (Some p)
            else SPBuffer_find_loop m what len (p + 1) end)"
  by pat_completeness auto
termination
  by (relation "measure (\<lambda>(m, what, len, search, end). Suc end - search)") (auto simp del: memchr.simps dest!: memchr_Some)

declare SPBuffer_find_loop.simps [simp del]

definition SPBuffer_find :: "bytes \<Rightarrow> nat \<Rightarrow> sp_buffer \<Rightarrow> wb_ptr option res" where
  "SPBuffer_find key len b =
     res_bind (SPBuffer_find_loop (wb_mem b) key len (wb_buffer b) (wb_buffer b + wb_off b)) (\<lambda>r.
       Inr (map_option (\<lambda>p. (wb_gen b, p)) r))"

subsection \<open>Contracts over the contents\<close>

lemma append_contract:
  assumes "wb_inv b" "libc_ok lc" "length data < 2 ^ 31"
  shows "SPBuffer_append lc (data @ rest) (int (length data)) b =
    (if data = [] then SPBuffer_append lc rest 0 b else win32buffer_add lc data b)"
  using assms by (simp add: SPBuffer_append_def mem_get_def)

lemma append_string:
  assumes "is_cstr s" "length s < 2 ^ 31"
  shows "SPBuffer_append lc (s @ NUL # rest) 0 b = win32buffer_add lc s b"
  using assms by (simp add: SPBuffer_append_def mem_get_def cstr_append_NUL)

lemma to_size_to_int: "n < 2 ^ 31 \<Longrightarrow> to_size (to_int n) = n"
  by simp

lemma reset_contract:
  assumes "wb_inv b" "wb_off b < 2 ^ 31"
  shows "wb_inv (SPBuffer_reset b)" "wb_contents (SPBuffer_reset b) = []"
  using assms length_wb_contents [OF assms(1)]
  by (simp_all add: SPBuffer_reset_def SPBuffer_erase_def SPBuffer_getSize_def drain_ok)

lemma truncate_contract:
  assumes "wb_inv b" "0 \<le> len" "wb_off b < 2 ^ 31"
  shows "SPBuffer_truncate len b = (if nat len < wb_off b then (0, b\<lparr> wb_off := nat len \<rparr>) else (-1, b))"
    and "nat len < wb_off b \<Longrightarrow> wb_inv (b\<lparr> wb_off := nat len \<rparr>) \<and>
      wb_contents (b\<lparr> wb_off := nat len \<rparr>) = take (nat len) (wb_contents b)"
  using assms by (auto simp: SPBuffer_truncate_def SPBuffer_getSize_def wb_inv_def wb_contents_def min_def)

text \<open>\<open>reserve\<close> works for any length: below the current size the difference wraps around and back.\<close>

lemma wrap_back: "x \<le> y \<Longrightarrow> y < size_max \<Longrightarrow>
    (c + y + to_size (int x - int y)) mod size_max = (c + x) mod size_max"
proof -
  assume a: "x \<le> y" "y < size_max"
  show ?thesis
  proof (cases "x = y")
    case False
    have "to_size (int x - int y) = size_max - (y - x)"
    proof -
      have "(int x - int y) mod 2 ^ 64 = (int x - int y + 2 ^ 64) mod 2 ^ 64" by simp
      also have "\<dots> = int x - int y + 2 ^ 64"
        using a False by (intro mod_pos_pos_trivial) (simp_all add: size_max_def)
      finally show ?thesis using a by (simp add: to_size_def size_max_def nat_diff_distrib)
    qed
    then have "c + y + to_size (int x - int y) = (c + x) + size_max" using a by simp
    then show ?thesis by (metis mod_add_self2)
  qed simp
qed

text \<open>The block is full to its end, and the allocator does not have what \<open>expand\<close> asks for.\<close>

definition no_room :: "libc \<Rightarrow> nat \<Rightarrow> sp_buffer \<Rightarrow> bool" where
  "no_room lc n b \<longleftrightarrow> wb_misalign b + wb_off b = wb_totallen b \<and> \<not> libc_room lc (expand_bound b n)"

lemma put_terminator:
  assumes inv: "wb_inv b" and room: "wb_misalign b + wb_off b < wb_totallen b"
  shows "\<exists>m. mem_put (wb_buffer b + wb_off b) [NUL] (wb_mem b) = Inr m \<and>
    wb_inv (b\<lparr> wb_block := map_option (\<lambda>_. m) (wb_block b) \<rparr>) \<and>
    same_view b (b\<lparr> wb_block := map_option (\<lambda>_. m) (wb_block b) \<rparr>) \<and>
    take (Suc (wb_off b)) (drop (wb_buffer b) m) = wb_contents b @ [NUL]"
proof -
  have lt: "wb_buffer b + wb_off b < length (wb_mem b)" using inv room by (simp add: wb_inv_def)
  define m where "m = take (wb_buffer b + wb_off b) (wb_mem b) @ NUL # drop (Suc (wb_buffer b + wb_off b)) (wb_mem b)"
  define b2 where "b2 = b\<lparr> wb_block := map_option (\<lambda>_. m) (wb_block b) \<rparr>"
  have blk: "wb_block b \<noteq> None" using lt by (cases "wb_block b") (auto simp: wb_mem_def)
  then have mem: "wb_mem b2 = m" unfolding b2_def by simp
  have pre: "take (wb_buffer b + wb_off b) (wb_mem b) = take (wb_buffer b) (wb_mem b) @ wb_contents b"
    by (simp add: take_add wb_contents_def)
  have "length m = length (wb_mem b)" using lt by (simp add: m_def)
  then have "wb_inv b2" using inv blk unfolding wb_inv_def mem by (simp add: b2_def)
  moreover have "wb_contents b2 = wb_contents b"
    using lt length_wb_contents [OF inv] unfolding wb_contents_def [of b2] mem by (simp add: b2_def m_def pre)
  moreover have "take (Suc (wb_off b)) (drop (wb_buffer b) m) = wb_contents b @ [NUL]"
    using lt length_wb_contents [OF inv] by (simp add: m_def pre)
  moreover have "mem_put (wb_buffer b + wb_off b) [NUL] (wb_mem b) = Inr m" using lt by (simp add: mem_put_def m_def)
  ultimately show ?thesis by (intro exI [of _ m]) (simp add: same_view_def b2_def)
qed

text \<open>\<open>getBuffer\<close> answers the contents and a terminator, or writes behind a block that cannot grow.\<close>

lemma getBuffer_cases:
  assumes inv: "wb_inv b" and lc: "libc_ok lc"
  shows "(\<exists>xs b'. SPBuffer_getBuffer lc b = Inr (xs, b') \<and> wb_inv b' \<and> same_view b b' \<and>
      take (Suc (wb_off b)) xs = wb_contents b @ [NUL]) \<or>
    SPBuffer_getBuffer lc b = Inl OutOfBounds \<and> no_room lc 1 b"
proof (cases "wb_block b")
  case None
  with wb_inv_block [OF inv] inv show ?thesis by (simp add: SPBuffer_getBuffer_def wb_contents_def)
next
  case (Some m0)
  have "1 \<le> mem_limit" by (simp add: mem_limit_def)
  from expand_ok [OF inv lc this] obtain r b1 where b1: "win32buffer_expand lc 1 b = Inr (r, b1)" "wb_inv b1"
    "same_view b b1" "r = 0 \<and> wb_misalign b1 + wb_off b1 + 1 \<le> wb_totallen b1 \<or> \<not> libc_room lc (expand_bound b 1)"
    by blast
  show ?thesis
  proof (cases "wb_misalign b1 + wb_off b1 < wb_totallen b1")
    case True
    from put_terminator [OF b1(2) this] obtain m where
      "mem_put (wb_buffer b1 + wb_off b1) [NUL] (wb_mem b1) = Inr m"
      "wb_inv (b1\<lparr> wb_block := map_option (\<lambda>_. m) (wb_block b1) \<rparr>)"
      "same_view b1 (b1\<lparr> wb_block := map_option (\<lambda>_. m) (wb_block b1) \<rparr>)"
      "take (Suc (wb_off b1)) (drop (wb_buffer b1) m) = wb_contents b1 @ [NUL]" by blast
    then show ?thesis using Some b1(1,3) by (simp add: SPBuffer_getBuffer_def same_view_def)
  next
    case False
    have "\<not> wb_misalign b + wb_off b < wb_totallen b"
    proof
      assume lt: "wb_misalign b + wb_off b < wb_totallen b"
      then have "win32buffer_expand lc 1 b = Inr (0, b)"
        using inv by (simp add: win32buffer_expand_def wb_inv_def mem_limit_def size_max_def)
      with b1(1) lt False show False by simp
    qed
    then have "no_room lc 1 b" using b1(4) False inv by (auto simp: no_room_def wb_inv_def)
    moreover have "SPBuffer_getBuffer lc b = Inl OutOfBounds"
      using Some b1(1,2) False by (simp add: SPBuffer_getBuffer_def mem_put_def wb_inv_def)
    ultimately show ?thesis by simp
  qed
qed

lemma getBuffer_contract:
  assumes inv: "wb_inv b" and lc: "libc_ok lc"
    and room: "wb_misalign b + wb_off b < wb_totallen b \<or> libc_room lc (expand_bound b 1)"
  shows "\<exists>xs b'. SPBuffer_getBuffer lc b = Inr (xs, b') \<and> wb_inv b' \<and> same_view b b' \<and>
    take (Suc (wb_off b)) xs = wb_contents b @ [NUL]"
  using getBuffer_cases [OF inv lc] room by (auto simp: no_room_def)

lemma reserve_contract:
  assumes "wb_inv b" "libc_ok lc" "int (wb_off b) \<le> len" "len < 2 ^ 31"
  shows "\<exists>b'. SPBuffer_reserve lc len b = Inr b' \<and> wb_inv b' \<and> same_view b b'"
proof -
  have "to_size (len - int (wb_off b)) \<le> mem_limit" using assms by (simp add: mem_limit_def)
  from expand_ok [OF assms(1,2) this] show ?thesis
    by (auto simp: SPBuffer_reserve_def SPBuffer_getSize_def)
qed

lemma reserve_small:
  assumes "wb_inv b" "libc_ok lc" "0 \<le> len" "len \<le> int (wb_off b)"
  shows "SPBuffer_reserve lc len b = Inr b"
proof -
  have "wb_misalign b + nat len \<le> wb_totallen b" using assms by (auto simp: wb_inv_def)
  moreover have "wb_off b < size_max" "wb_misalign b + nat len < size_max" using assms
    by (auto simp: wb_inv_def size_max_def mem_limit_def)
  then have "(wb_misalign b + wb_off b + to_size (int (nat len) - int (wb_off b))) mod size_max = wb_misalign b + nat len"
    using wrap_back [of "nat len" "wb_off b" "wb_misalign b"] assms by simp
  ultimately show ?thesis using assms
    by (simp add: SPBuffer_reserve_def SPBuffer_getSize_def win32buffer_expand_def)
qed

lemma SPBuffer_find_loop_ok:
  assumes e: "e \<le> length m" and len: "0 < len" "len \<le> length what"
  shows "SPBuffer_find_loop m what len s e = Inr (find_from m e (take len what) s)"
proof (induction "Suc e - s" arbitrary: s rule: less_induct)
  case less
  have pat: "length (take len what) = len" "take len what \<noteq> []" "hd (take len what) = hd what"
    using len by auto
  note unf = SPBuffer_find_loop.simps [of m what len s e]
  show ?case
  proof (cases "e < s \<or> e - s < len")
    case True
    then have "find_from m e (take len what) s = None"
      by (intro find_from_None [OF e pat(2)]) (use pat(1) in auto)
    then show ?thesis using True by (simp add: unf)
  next
    case False
    then have se: "s + len \<le> e" by auto
    have "s + (e - s - len + 1) \<le> length m" using e se len by simp
    from memchr_total [OF this, of "hd what"] obtain r
      where r: "memchr m s (e - s - len + 1) (hd what) = Inr r" by blast
    show ?thesis
    proof (cases r)
      case None
      have "find_from m e (take len what) s = None"
        by (rule find_from_None [OF e pat(2)]) (use memchr_None [OF r [unfolded None]] pat se len in auto)
      then show ?thesis using False r None by (simp add: unf)
    next
      case (Some p)
      note p = memchr_Some [OF r [unfolded Some]]
      show ?thesis
      proof (cases "take len (drop p m) = take len what")
        case hit: True
        then have "find_from m e (take len what) s = Some p"
          by (intro find_from_hit [OF e pat(2)]) (use p pat se in auto)
        then show ?thesis using False r Some hit by (simp add: unf)
      next
        case miss: False
        have "find_from m e (take len what) s = find_from m e (take len what) (p + 1)"
          by (rule find_from_skip [OF e pat(2)]) (use p pat miss se len in auto)
        moreover have "SPBuffer_find_loop m what len (p + 1) e = Inr (find_from m e (take len what) (p + 1))"
          by (rule less.hyps) (use p se in auto)
        ultimately show ?thesis using False r Some miss by (simp add: unf)
      qed
    qed
  qed
qed

lemma find_contract:
  assumes "wb_inv b" "0 < len" "len \<le> length key"
  shows "SPBuffer_find key len b =
    Inr (map_option (\<lambda>i. (wb_gen b, i + wb_buffer b)) (find_sub (take len key) (wb_contents b)))"
  using assms by (simp add: SPBuffer_find_def SPBuffer_find_loop_ok find_from_contents wb_window
      option.map_comp o_def)

subsection \<open>Simulation with faults\<close>

text \<open>As \<open>simulation\<close>, for operations that may fault where \<open>bad\<close> allows it.\<close>

locale simulation_upto =
  fixes step :: "'o \<Rightarrow> 's \<Rightarrow> ('a \<times> 's) res"
    and spec :: "'o \<Rightarrow> 'v \<Rightarrow> 'a \<Rightarrow> 'v option"
    and view :: "'s \<Rightarrow> 'v" and inv :: "'s \<Rightarrow> bool" and ok :: "'o \<Rightarrow> bool"
    and grow :: "'o \<Rightarrow> nat" and meas :: "'v \<Rightarrow> nat" and limit :: nat
    and bad :: "fault \<Rightarrow> 'o \<Rightarrow> 's \<Rightarrow> bool"
  assumes sim_upto: "inv s \<Longrightarrow> ok op \<Longrightarrow> meas (view s) + grow op < limit \<Longrightarrow>
      (case step op s of Inr (a, s') \<Rightarrow> inv s' \<and> spec op (view s) a = Some (view s') | Inl f \<Rightarrow> bad f op s)"
    and bounded: "spec op v a = Some v' \<Longrightarrow> meas v' \<le> meas v + grow op"
begin

lemma run_upto:
  "inv s \<Longrightarrow> list_all ok ops \<Longrightarrow> meas (view s) + sum_list (map grow ops) < limit \<Longrightarrow>
   (case run_ops step ops s of
      Inr (as, s') \<Rightarrow> inv s' \<and> accepts spec ops (view s) as = Some (view s')
    | Inl f \<Rightarrow> (\<exists>before op after as s'. ops = before @ op # after \<and> run_ops step before s = Inr (as, s') \<and> bad f op s'))"
proof (induction ops arbitrary: s)
  case (Cons op ops)
  then have op: "ok op" "meas (view s) + grow op < limit" by auto
  note sim = sim_upto [OF Cons.prems(1) op]
  show ?case
  proof (cases "step op s")
    case (Inl f)
    then have "bad f op s" using sim by simp
    then show ?thesis using Inl by (auto intro!: exI [of _ "[]"])
  next
    case (Inr p)
    obtain a s1 where p: "p = (a, s1)" by (cases p)
    then have s1: "inv s1" "spec op (view s) a = Some (view s1)" using sim Inr by simp_all
    have "meas (view s1) + sum_list (map grow ops) < limit" using bounded [OF s1(2)] Cons.prems(3) by simp
    note IH = Cons.IH [OF s1(1) _ this]
    show ?thesis
    proof (cases "run_ops step ops s1")
      case (Inl f)
      then obtain before op' after as s' where b: "ops = before @ op' # after" "run_ops step before s1 = Inr (as, s')" "bad f op' s'"
        using IH Cons.prems(2) by auto
      have "op # ops = (op # before) @ op' # after" "run_ops step (op # before) s = Inr (a # as, s')"
        using b \<open>step op s = Inr p\<close> p by simp_all
      then have "\<exists>before op' after as s'. op # ops = before @ op' # after \<and> run_ops step before s = Inr (as, s') \<and> bad f op' s'"
        using b(3) by blast
      moreover have "run_ops step (op # ops) s = Inl f" using Inl \<open>step op s = Inr p\<close> p by simp
      ultimately show ?thesis by (simp only: sum.case)
    next
      case (Inr q)
      then show ?thesis using \<open>step op s = Inr p\<close> p s1 IH Cons.prems(2) by (cases q) simp
    qed
  qed
qed simp

end

subsection \<open>Formatted text\<close>

text \<open>\<open>expand\<close> moves the contents to the front at most, so room at the end stays.\<close>

lemma expand_space:
  assumes inv: "wb_inv b" and lt: "wb_misalign b + wb_off b < wb_totallen b" and n: "n \<le> mem_limit"
    and e: "win32buffer_expand lc n b = Inr (r, b')"
  shows "wb_misalign b' + wb_off b' < wb_totallen b'"
proof -
  define need where "need = wb_misalign b + wb_off b + n"
  have need: "2 * need \<le> size_max" "need mod size_max = need"
    using inv n by (simp_all add: need_def wb_inv_def mem_limit_def size_max_def)
  from align_ok [OF inv] obtain m where al: "win32buffer_align b =
    Inr (b\<lparr> wb_block := map_option (\<lambda>_. m) (wb_block b), wb_buffer := 0, wb_misalign := 0 \<rparr>)" by blast
  have "need \<le> max 256 (wb_totallen b) * 2 ^ 64" using need(1) by (simp add: size_max_def)
  from double_until_ok [OF this need(1)] obtain l where
    l: "double_until 65 (max 256 (wb_totallen b)) need = Some l" "max 256 (wb_totallen b) \<le> l" by auto
  show ?thesis
    using e al l lt inv by (auto simp: win32buffer_expand_def need_def [symmetric] need wb_inv_def split: if_splits option.splits)
qed

lemma put_at_end:
  assumes inv: "wb_inv b" and room: "wb_misalign b + wb_off b + length xs < wb_totallen b"
  shows "\<exists>m. mem_put (wb_buffer b + wb_off b) (xs @ [NUL]) (wb_mem b) = Inr m \<and>
    wb_inv (b\<lparr> wb_block := map_option (\<lambda>_. m) (wb_block b), wb_off := wb_off b + length xs \<rparr>) \<and>
    wb_contents (b\<lparr> wb_block := map_option (\<lambda>_. m) (wb_block b), wb_off := wb_off b + length xs \<rparr>) = wb_contents b @ xs \<and>
    wb_inv (b\<lparr> wb_block := map_option (\<lambda>_. m) (wb_block b) \<rparr>) \<and>
    wb_contents (b\<lparr> wb_block := map_option (\<lambda>_. m) (wb_block b) \<rparr>) = wb_contents b"
proof -
  define m where "m = take (wb_buffer b + wb_off b) (wb_mem b) @ (xs @ [NUL]) @
    drop (wb_buffer b + wb_off b + length (xs @ [NUL])) (wb_mem b)"
  have put: "mem_put (wb_buffer b + wb_off b) (xs @ [NUL]) (wb_mem b) = Inr m"
    using inv room by (simp add: mem_put_def m_def wb_inv_def)
  obtain m0 where blk: "wb_block b = Some m0" using room wb_inv_block [OF inv] by (cases "wb_block b") auto
  have len: "length m = wb_totallen b" using inv room by (auto simp: m_def wb_inv_def)
  have pre: "take (wb_buffer b + wb_off b) (wb_mem b) = take (wb_buffer b) (wb_mem b) @ wb_contents b"
    by (simp add: take_add wb_contents_def)
  have c: "take n (drop (wb_buffer b) m) = take n (wb_contents b @ xs @ [NUL])" if "n \<le> wb_off b + length xs" for n
    using that inv room length_wb_contents [OF inv] unfolding m_def pre by (simp add: wb_inv_def)
  have buf: "wb_misalign b + wb_off b + length xs < wb_totallen b" "wb_buffer b = wb_misalign b" "wb_totallen b < mem_limit"
    using inv room by (simp_all add: wb_inv_def)
  have 1: "wb_inv (b\<lparr> wb_block := Some m, wb_off := wb_off b + length xs \<rparr>)" "wb_inv (b\<lparr> wb_block := Some m \<rparr>)"
    using buf len by (simp_all add: wb_inv_def wb_mem_def)
  have 2: "wb_contents (b\<lparr> wb_block := Some m, wb_off := wb_off b + length xs \<rparr>) = wb_contents b @ xs"
    "wb_contents (b\<lparr> wb_block := Some m \<rparr>) = wb_contents b"
    using c [of "wb_off b"] c [of "wb_off b + length xs"] length_wb_contents [OF inv]
    by (simp_all add: wb_contents_def [of "b\<lparr> wb_block := Some m \<rparr>"]
        wb_contents_def [of "b\<lparr> wb_block := Some m, wb_off := wb_off b + length xs \<rparr>"] wb_mem_def [of "b\<lparr> wb_block := Some m, wb_off := wb_off b + length xs \<rparr>"])
  show ?thesis using put blk 1 2 by (intro exI [of _ m]) simp
qed

text \<open>
  One round of the loop of \<open>add_vprintf\<close>: the text is appended, or nothing is and the answer is -1;
  elsewhere than on Windows a text without room is tried again in a block that is large enough.
\<close>

definition printed :: "bytes \<Rightarrow> sp_buffer \<Rightarrow> int \<Rightarrow> sp_buffer \<Rightarrow> bool" where
  "printed text b r b' \<longleftrightarrow> wb_inv b' \<and>
     (r = int (length text) \<and> wb_contents b' = wb_contents b @ text \<or> r = -1 \<and> wb_contents b' = wb_contents b)"

lemma vprintf_fits:
  assumes inv: "wb_inv b" and room: "wb_misalign b + wb_off b + length text < wb_totallen b"
  shows "\<exists>b'. add_vprintf_loop lc win (Suc f) text oldoff b = Inr (int (length text), b') \<and> printed text b (int (length text)) b'"
  using put_at_end [OF inv room] room by (auto simp: printed_def Let_def)

lemma vprintf_loop_ok:
  assumes inv: "wb_inv b" and lc: "libc_ok lc" and small: "length text < mem_limit"
    and room: "wb_misalign b + wb_off b < wb_totallen b \<or> \<not> win"
  shows "\<exists>r b'. add_vprintf_loop lc win 2 text oldoff b = Inr (r, b') \<and> printed text b r b'"
proof (cases "wb_misalign b + wb_off b + length text < wb_totallen b")
  case True
  from vprintf_fits [OF inv this] show ?thesis unfolding numeral_2_eq_2 by blast
next
  case no_fit: False
  define space where "space = wb_totallen b - (wb_misalign b + wb_off b)"
  define b1m where "b1m = (if space = 0 then Inr (wb_mem b)
    else mem_put (wb_buffer b + wb_off b) (take (space - 1) text @ [NUL]) (wb_mem b))"
  have used: "\<not> wb_totallen b < wb_misalign b + wb_off b" using inv by (simp add: wb_inv_def)
  have "\<exists>m. b1m = Inr m \<and> wb_inv (b\<lparr> wb_block := map_option (\<lambda>_. m) (wb_block b) \<rparr>) \<and>
    wb_contents (b\<lparr> wb_block := map_option (\<lambda>_. m) (wb_block b) \<rparr>) = wb_contents b"
  proof (cases "space = 0")
    case True
    have "b\<lparr> wb_block := map_option (\<lambda>_. wb_mem b) (wb_block b) \<rparr> = b" by (cases "wb_block b") (simp_all add: wb_mem_def)
    then show ?thesis using True inv by (simp add: b1m_def)
  next
    case False
    have "wb_misalign b + wb_off b + length (take (space - 1) text) < wb_totallen b"
      using False no_fit by (auto simp: space_def)
    from put_at_end [OF inv this] False show ?thesis by (auto simp: b1m_def)
  qed
  then obtain m where m: "b1m = Inr m" "wb_inv (b\<lparr> wb_block := map_option (\<lambda>_. m) (wb_block b) \<rparr>)"
    "wb_contents (b\<lparr> wb_block := map_option (\<lambda>_. m) (wb_block b) \<rparr>) = wb_contents b" by blast
  let ?b1 = "b\<lparr> wb_block := map_option (\<lambda>_. m) (wb_block b) \<rparr>"
  have loop: "add_vprintf_loop lc win 2 text oldoff b = (if win then Inr (-1, ?b1) else
    res_bind (win32buffer_expand lc (length text + 1) ?b1) (\<lambda>(r, b2).
      if r = -1 then Inr (-1, b2) else add_vprintf_loop lc win (Suc 0) text oldoff b2))"
    using used no_fit room m(1) unfolding numeral_2_eq_2 by (auto simp: Let_def space_def b1m_def)
  have "length text + 1 \<le> mem_limit" using small by simp
  from expand_ok [OF m(2) lc this] obtain r b2 where e: "win32buffer_expand lc (length text + 1) ?b1 = Inr (r, b2)"
    "wb_inv b2" "same_view ?b1 b2" "r = -1 \<or> r = 0 \<and> wb_misalign b2 + wb_off b2 + (length text + 1) \<le> wb_totallen b2" by blast
  show ?thesis
  proof (cases "win \<or> r = -1")
    case True
    then show ?thesis using loop e m by (auto simp: printed_def same_view_def)
  next
    case False
    with e have "wb_misalign b2 + wb_off b2 + length text < wb_totallen b2" by simp
    from vprintf_fits [OF e(2) this, of lc win 0 oldoff] obtain b3 where
      "add_vprintf_loop lc win (Suc 0) text oldoff b2 = Inr (int (length text), b3)" "printed text b2 (int (length text)) b3" by blast
    then show ?thesis using False e m(3) unfolding loop
      by (auto simp: printed_def same_view_def simp del: add_vprintf_loop.simps)
  qed
qed

lemma vprintf_cases:
  assumes inv: "wb_inv b" and lc: "libc_ok lc" and small: "length text < mem_limit"
  shows "(\<exists>r b'. win32buffer_add_vprintf lc win text b = Inr (r, b') \<and> printed text b r b') \<or>
    win32buffer_add_vprintf lc win text b = Inl OutOfBounds \<and> win \<and> no_room lc 64 b"
proof -
  have "64 \<le> mem_limit" by (simp add: mem_limit_def)
  from expand_ok [OF inv lc this] obtain r b1 where e: "win32buffer_expand lc 64 b = Inr (r, b1)" "wb_inv b1" "same_view b b1"
    "r = 0 \<and> wb_misalign b1 + wb_off b1 + 64 \<le> wb_totallen b1 \<or> r = -1 \<and> \<not> libc_room lc (expand_bound b 64)" by blast
  show ?thesis
  proof (cases "wb_misalign b1 + wb_off b1 < wb_totallen b1 \<or> \<not> win")
    case True
    from vprintf_loop_ok [OF e(2) lc small True] e(1,3) show ?thesis
      by (auto simp: win32buffer_add_vprintf_def printed_def same_view_def)
  next
    case False
    then have full: "wb_misalign b1 + wb_off b1 = wb_totallen b1" "win" using e(2) by (auto simp: wb_inv_def)
    then have "add_vprintf_loop lc win 2 text (wb_off b) b1 = Inl OutOfBounds" by (simp add: numeral_2_eq_2)
    moreover have "no_room lc 64 b"
    proof -
      have "wb_misalign b + wb_off b = wb_totallen b"
      proof (rule ccontr)
        assume "wb_misalign b + wb_off b \<noteq> wb_totallen b"
        then have lt: "wb_misalign b + wb_off b < wb_totallen b" using inv by (simp add: wb_inv_def)
        show False using expand_space [OF inv lt _ e(1)] full by (simp add: mem_limit_def)
      qed
      then show ?thesis using e(4) full by (auto simp: no_room_def)
    qed
    ultimately show ?thesis using e(1) full by (simp add: win32buffer_add_vprintf_def)
  qed
qed

subsection \<open>The buffer as a stream of bytes\<close>

datatype buf_op = Append bytes | AppendBuffer sp_buffer | Printf bytes bytes | Erase nat | Reset | Truncate nat
  | Reserve nat | TakeBytes nat | TakeAll | GetLine | FindKey bytes | GetBuffer

datatype buf_ans = Ret int | Done | Bytes bytes | Line "bytes option" | Found "nat option" | Copied int bytes

text \<open>
  One call on the code's model, on Windows if \<open>win\<close>. \<open>append\<close> of another buffer answers what that one
  holds afterwards; \<open>Printf fmt text\<close> prints \<open>text\<close> if the format has arguments; \<open>take( buffer, n + 1 )\<close>
  gets an array of \<open>n + 1\<close> bytes; a found pointer is answered as its distance from \<open>getRawBuffer\<close>;
  \<open>getBuffer\<close> answers its block up to the terminator.
\<close>

fun buf_step :: "libc \<Rightarrow> bool \<Rightarrow> buf_op \<Rightarrow> sp_buffer \<Rightarrow> (buf_ans \<times> sp_buffer) res" where
  "buf_step lc win (Append xs) b =
     res_bind (SPBuffer_append lc (xs @ [NUL]) (int (length xs)) b) (\<lambda>(r, b'). Inr (Ret r, b'))"
| "buf_step lc win (AppendBuffer other) b =
     res_bind (SPBuffer_append_buffer lc other b) (\<lambda>(r, b', other'). Inr (Copied r (wb_contents other'), b'))"
| "buf_step lc win (Printf fmt out) b =
     res_bind (SPBuffer_printf lc win (fmt @ [NUL]) out b) (\<lambda>(r, b'). Inr (Ret r, b'))"
| "buf_step lc win (Erase n) b = Inr (Done, SPBuffer_erase (int n) b)"
| "buf_step lc win Reset b = Inr (Done, SPBuffer_reset b)"
| "buf_step lc win (Truncate n) b = (case SPBuffer_truncate (int n) b of (r, b') \<Rightarrow> Inr (Ret r, b'))"
| "buf_step lc win (Reserve n) b = res_bind (SPBuffer_reserve lc (int n) b) (\<lambda>b'. Inr (Done, b'))"
| "buf_step lc win (TakeBytes n) b =
     res_bind (SPBuffer_take_bytes (n + 1) (int n + 1) b) (\<lambda>(xs, b'). Inr (Bytes xs, b'))"
| "buf_step lc win TakeAll b = (case SPBuffer_take b of (taken, b') \<Rightarrow> Inr (Bytes (wb_contents taken), b'))"
| "buf_step lc win GetLine b = res_bind (SPBuffer_getLine lc b) (\<lambda>(l, b'). Inr (Line l, b'))"
| "buf_step lc win (FindKey key) b =
     res_bind (SPBuffer_find key (length key) b) (\<lambda>r.
       Inr (Found (map_option (\<lambda>(g, p). p - wb_buffer b) r), b))"
| "buf_step lc win GetBuffer b =
     res_bind (SPBuffer_getBuffer lc b) (\<lambda>(xs, b'). Inr (Bytes (take (Suc (SPBuffer_getSize b')) xs), b'))"

text \<open>
  The stream: append at the end, take from the front. A failed append leaves it as it was. When
  \<open>malloc\<close> has no room for a line, \<open>getLine\<close> answers NULL and the line is lost up to its end.
\<close>

fun buf_spec :: "buf_op \<Rightarrow> bytes \<Rightarrow> buf_ans \<Rightarrow> bytes option" where
  "buf_spec (Append xs) v (Ret r) = (if r = 0 then Some (v @ xs) else if r = -1 then Some v else None)"
| "buf_spec (AppendBuffer other) v (Copied r xs) =
     (if xs \<noteq> wb_contents other then None else if r = 0 then Some (v @ xs) else if r = -1 then Some v else None)"
| "buf_spec (Printf fmt out) v (Ret r) =
     (if r = -1 then Some v
      else if CHR ''%'' \<in> set fmt then (if r = int (length out) then Some (v @ out) else None)
      else if r = 0 then Some (v @ fmt) else None)"
| "buf_spec (Erase n) v Done = Some (drop n v)"
| "buf_spec Reset v Done = Some []"
| "buf_spec (Truncate n) v (Ret r) =
     (if r = (if n < length v then 0 else -1) then Some (take n v) else None)"
| "buf_spec (Reserve n) v Done = Some v"
| "buf_spec (TakeBytes n) v (Bytes xs) = (if xs = take n v then Some (drop n v) else None)"
| "buf_spec TakeAll v (Bytes xs) = (if xs = v then Some [] else None)"
| "buf_spec GetLine v (Line l) =
     (case get_line v of None \<Rightarrow> if l = None then Some v else None
      | Some (l', rest) \<Rightarrow>
          if l = Some l' then Some rest else if l = None then Some (drop (length l') v) else None)"
| "buf_spec (FindKey key) v (Found r) = (if r = find_sub key v then Some v else None)"
| "buf_spec GetBuffer v (Bytes xs) = (if xs = v @ [NUL] then Some v else None)"
| "buf_spec _ v _ = None"

fun buf_small :: "buf_op \<Rightarrow> bool" where
  "buf_small (Append xs) \<longleftrightarrow> length xs < 2 ^ 31"
| "buf_small (AppendBuffer other) \<longleftrightarrow> wb_inv other \<and> wb_off other < 2 ^ 31"
| "buf_small (Printf fmt out) \<longleftrightarrow> is_cstr fmt \<and> length fmt < 2 ^ 31 \<and> length out < 2 ^ 31"
| "buf_small (Erase n) \<longleftrightarrow> n < 2 ^ 31"
| "buf_small (Truncate n) \<longleftrightarrow> n < 2 ^ 31"
| "buf_small (Reserve n) \<longleftrightarrow> n < 2 ^ 31"
| "buf_small (TakeBytes n) \<longleftrightarrow> n + 1 < 2 ^ 31"
| "buf_small (FindKey key) \<longleftrightarrow> key \<noteq> []"
| "buf_small _ \<longleftrightarrow> True"

fun buf_grow :: "buf_op \<Rightarrow> nat" where
  "buf_grow (Append xs) = length xs"
| "buf_grow (AppendBuffer other) = wb_off other"
| "buf_grow (Printf fmt out) = max (length fmt) (length out)"
| "buf_grow _ = 0"

text \<open>The calls that ignore the answer of \<open>expand\<close>, in a state where it is -1 and no byte is left.\<close>

fun buf_refused :: "libc \<Rightarrow> bool \<Rightarrow> buf_op \<Rightarrow> sp_buffer \<Rightarrow> bool" where
  "buf_refused lc win GetBuffer b = no_room lc 1 b"
| "buf_refused lc win (AppendBuffer other) b = no_room lc 1 other"
| "buf_refused lc win (Printf fmt out) b = (win \<and> CHR ''%'' \<in> set fmt \<and> no_room lc 64 b)"
| "buf_refused lc win _ b = False"

definition libc_good :: "libc \<Rightarrow> bool" where
  "libc_good lc \<longleftrightarrow> libc_ok lc \<and> (\<forall>n. lc_malloc lc n)"

lemma get_line_length: "get_line v = Some (l, r) \<Longrightarrow> length r < length v"
proof (induction v arbitrary: l r)
  case (Cons c cs)
  then show ?case by (auto split: if_splits list.splits)
qed simp

lemma buf_spec_bounded: "buf_spec op v a = Some v' \<Longrightarrow> length v' \<le> length v + buf_grow op"
  by (cases "(op, v, a)" rule: buf_spec.cases)
    (auto split: if_splits option.splits dest: get_line_length simp: wb_contents_def)

lemma getLine_any:
  assumes inv: "wb_inv b" and small: "wb_off b < 2 ^ 32"
  shows "\<exists>l b'. SPBuffer_getLine lc b = Inr (l, b') \<and> wb_inv b' \<and>
    buf_spec GetLine (wb_contents b) (Line l) = Some (wb_contents b')"
proof (cases "lc_malloc lc (line_end (wb_contents b) + 1) \<or> line_end (wb_contents b) = wb_off b")
  case True
  define lc' where "lc' = lc\<lparr> lc_malloc := \<lambda>_. True \<rparr>"
  have "win32buffer_readline lc b = win32buffer_readline lc' b"
    using True inv small length_wb_contents [OF inv]
    by (auto simp: win32buffer_readline_def mem_get_contents lc'_def Let_def)
  moreover have "\<forall>n. lc_malloc lc' n" by (simp add: lc'_def)
  from readline_ok [OF inv small this] have "\<exists>l b'. win32buffer_readline lc' b = Inr (l, b') \<and> wb_inv b' \<and>
    buf_spec GetLine (wb_contents b) (Line l) = Some (wb_contents b')"
    using inv by (auto simp: drain_ok split: option.splits)
  ultimately show ?thesis by (simp add: SPBuffer_getLine_def)
next
  case False
  have "get_line (wb_contents b) \<noteq> None" "line_end (wb_contents b) < length (wb_contents b)"
    using False line_end_le [of "wb_contents b"] length_wb_contents [OF inv] by (auto simp: get_line_eq Let_def)
  then show ?thesis using False inv small length_wb_contents [OF inv]
    by (auto simp: SPBuffer_getLine_def win32buffer_readline_def mem_get_contents get_line_eq Let_def drain_ok)
qed

lemma append_buffer_cases:
  assumes inv: "wb_inv b" and lc: "libc_ok lc" and other: "wb_inv other" "wb_off other < 2 ^ 31"
  shows "(\<exists>r b' other'. SPBuffer_append_buffer lc other b = Inr (r, b', other') \<and> wb_inv b' \<and> wb_contents other' = wb_contents other \<and>
      (r = 0 \<and> wb_contents b' = wb_contents b @ wb_contents other \<or> r = -1 \<and> wb_contents b' = wb_contents b)) \<or>
    SPBuffer_append_buffer lc other b = Inl OutOfBounds \<and> no_room lc 1 other"
proof (cases "wb_off other = 0")
  case True
  then have "wb_contents other = []" using length_wb_contents [OF other(1)] by simp
  then show ?thesis using True inv by (simp add: SPBuffer_append_buffer_def SPBuffer_getSize_def)
next
  case False
  from getBuffer_cases [OF other(1) lc] show ?thesis
  proof (elim disjE conjE exE)
    fix xs other' assume g: "SPBuffer_getBuffer lc other = Inr (xs, other')" "same_view other other'"
      "take (Suc (wb_off other)) xs = wb_contents other @ [NUL]"
    note len = length_wb_contents [OF other(1)]
    have "take (wb_off other) xs = wb_contents other"
      using arg_cong [OF g(3), of "take (wb_off other)"] len by (simp add: min_def)
    then have xs: "xs = wb_contents other @ drop (wb_off other) xs" by (metis append_take_drop_id)
    have "SPBuffer_append lc xs (int (wb_off other)) b = win32buffer_add lc (wb_contents other) b"
      using append_contract [OF inv lc, of "wb_contents other" "drop (wb_off other) xs"] other(2) len False
      by (subst xs) (auto simp del: append_take_drop_id)
    moreover have "length (wb_contents other) \<le> mem_limit" using other(2) len by (simp add: mem_limit_def)
    note add_ok [OF inv lc this]
    ultimately show ?thesis using g(1,2) False other(2)
      by (auto simp: SPBuffer_append_buffer_def SPBuffer_getSize_def same_view_def)
  qed (use False in \<open>simp add: SPBuffer_append_buffer_def SPBuffer_getSize_def\<close>)
qed

lemma add_any:
  assumes "wb_inv b" "libc_ok lc" "length xs < 2 ^ 31"
  shows "\<exists>r b'. win32buffer_add lc xs b = Inr (r, b') \<and> wb_inv b' \<and>
    (r = 0 \<and> wb_contents b' = wb_contents b @ xs \<or> r = -1 \<and> wb_contents b' = wb_contents b)"
  using add_ok [OF assms(1,2), of xs] assms(3) by (auto simp: mem_limit_def)

text \<open>Every call does what the stream does, or it is one of those that write behind a block that cannot grow.\<close>

lemma buf_step_ok:
  assumes lc: "libc_ok lc" and inv: "wb_inv b" and small: "buf_small op"
    and room: "length (wb_contents b) + buf_grow op < 2 ^ 31"
  shows "(\<exists>a b'. buf_step lc win op b = Inr (a, b') \<and> wb_inv b' \<and> buf_spec op (wb_contents b) a = Some (wb_contents b')) \<or>
    buf_step lc win op b = Inl OutOfBounds \<and> buf_refused lc win op b"
proof -
  have off: "wb_off b < 2 ^ 31" using room length_wb_contents [OF inv] by simp
  show ?thesis
  proof (cases op)
    case (Append xs)
    moreover have "SPBuffer_append lc (xs @ [NUL]) (int (length xs)) b = win32buffer_add lc xs b"
      using small Append append_string [of "[]"] append_contract [OF inv lc] by simp
    ultimately show ?thesis using add_any [OF inv lc, of xs] small by auto
  next
    case (AppendBuffer other)
    with append_buffer_cases [OF inv lc, of other] small show ?thesis by auto
  next
    case (Printf fmt out)
    show ?thesis
    proof (cases "CHR ''%'' \<in> set fmt")
      case True
      have "length out < mem_limit" using small Printf by (simp add: mem_limit_def)
      from vprintf_cases [OF inv lc this, of win] True Printf small show ?thesis
        by (auto simp: SPBuffer_printf_def printed_def cstr_append_NUL)
    next
      case False
      then show ?thesis using add_any [OF inv lc, of fmt] append_string [of fmt lc "[]" b] Printf small
        by (auto simp: SPBuffer_printf_def cstr_append_NUL)
    qed
  next
    case (Erase n)
    then show ?thesis using inv small by (simp add: SPBuffer_erase_def drain_ok)
  next
    case Reset
    then show ?thesis using reset_contract [OF inv off] by simp
  next
    case (Truncate n)
    then show ?thesis using truncate_contract [OF inv _ off, of "int n"] length_wb_contents [OF inv] inv by auto
  next
    case (Reserve n)
    then show ?thesis
      using reserve_contract [OF inv lc, of "int n"] reserve_small [OF inv lc, of "int n"] small inv
      by (cases "wb_off b \<le> n") (auto simp: same_view_def)
  next
    case (TakeBytes n)
    then show ?thesis using inv small by (simp add: SPBuffer_take_bytes_def remove_ok drain_ok)
  next
    case TakeAll
    then show ?thesis using inv by (simp add: SPBuffer_take_def SPBuffer_new_def)
  next
    case GetLine
    have "wb_off b < 2 ^ 32" using off by simp
    from getLine_any [OF inv this, of lc] GetLine show ?thesis by auto
  next
    case (FindKey key)
    then show ?thesis using inv small by (auto simp: find_contract option.map_comp o_def option.map_ident split: option.splits)
  next
    case GetBuffer
    with getBuffer_cases [OF inv lc] show ?thesis by (auto simp: SPBuffer_getSize_def same_view_def)
  qed
qed

lemma libc_plain_good: "libc_good libc_plain"
  using libc_plain_ok by (simp add: libc_good_def) (simp add: libc_plain_def)

definition buf_fault :: "libc \<Rightarrow> bool \<Rightarrow> fault \<Rightarrow> buf_op \<Rightarrow> sp_buffer \<Rightarrow> bool" where
  "buf_fault lc win f op b \<longleftrightarrow> f = OutOfBounds \<and> buf_refused lc win op b"

lemma buf_simulation:
  assumes "libc_ok lc"
  shows "simulation_upto (buf_step lc win) buf_spec wb_contents wb_inv buf_small buf_grow length (2 ^ 31) (buf_fault lc win)"
proof
  fix b op assume "wb_inv b" "buf_small op" "length (wb_contents b) + buf_grow op < 2 ^ 31"
  from buf_step_ok [OF assms this, of win]
  show "case buf_step lc win op b of Inr (a, b') \<Rightarrow> wb_inv b' \<and> buf_spec op (wb_contents b) a = Some (wb_contents b')
    | Inl f \<Rightarrow> buf_fault lc win f op b" by (auto simp: buf_fault_def)
qed (rule buf_spec_bounded)

interpretation buf: simulation_upto "buf_step libc_plain win" buf_spec wb_contents wb_inv buf_small buf_grow length "2 ^ 31"
    "buf_fault libc_plain win" for win
  by (rule buf_simulation [OF libc_plain_ok])

text \<open>
  C28: With less than 2 GiB appended in all, a sequence of any calls on a new \<open>SP_Buffer\<close> behaves as a
  stream of bytes, whatever sizes \<open>realloc\<close> and \<open>malloc\<close> refuse, on Windows and elsewhere: an append,
  of bytes, of a string, of another buffer or of formatted text, puts its bytes at the end or
  answers -1 and changes nothing, \<open>erase\<close>, \<open>take\<close>, \<open>truncate\<close> and \<open>reset\<close> drop exactly the bytes they
  should, \<open>getLine\<close> takes the first line, or answers NULL and drops it when there is no memory,
  \<open>find\<close> answers the first occurrence of a key that is not empty, and \<open>getBuffer\<close> answers the contents
  with a terminator. No call leaves its block, but for one case: \<open>getBuffer\<close>, on the buffer or on
  one that is appended to it, and formatted \<open>printf\<close> on Windows write behind a block that is full
  to its end when \<open>realloc\<close> refuses to enlarge it, since they ignore that \<open>expand\<close> has failed.
\<close>

theorem SPBuffer_is_stream:
  assumes "libc_ok lc" "list_all buf_small ops" "sum_list (map buf_grow ops) < 2 ^ 31"
  shows "case run_ops (buf_step lc win) ops SPBuffer_new of
      Inr (as, b) \<Rightarrow> wb_inv b \<and> accepts buf_spec ops [] as = Some (wb_contents b)
    | Inl f \<Rightarrow> f = OutOfBounds \<and> (\<exists>before op after as b. ops = before @ op # after \<and>
        run_ops (buf_step lc win) before SPBuffer_new = Inr (as, b) \<and> buf_refused lc win op b)"
proof -
  have new: "wb_inv SPBuffer_new" "wb_contents SPBuffer_new = []" by (simp_all add: SPBuffer_new_def)
  have "length (wb_contents SPBuffer_new) + sum_list (map buf_grow ops) < 2 ^ 31" using assms(3) new(2) by simp
  note run = simulation_upto.run_upto [OF buf_simulation [OF assms(1), of win] new(1) assms(2) this]
  show ?thesis
  proof (cases "run_ops (buf_step lc win) ops SPBuffer_new")
    case (Inl f)
    with run show ?thesis by (auto simp: buf_fault_def)
  next
    case (Inr p)
    with run new(2) show ?thesis by (cases p) simp
  qed
qed

text \<open>A run that succeeds, and one where the allocator has no more room and \<open>getBuffer\<close> faults.\<close>

definition libc_tight :: libc where
  "libc_tight = \<lparr> lc_realloc = (\<lambda>b n. if n \<le> 256 then Some (take n b @ replicate (n - length b) NUL) else None),
     lc_malloc = (\<lambda>_. False) \<rparr>"

definition buf_demo :: "buf_op list" where
  "buf_demo = [Append ''a\<newline>bc'', GetBuffer, GetLine, Erase 1, Printf ''%d'' ''7'', TakeAll]"

lemma double_until_65: "double_until 65 len need = (if len < need then double_until 64 ((2 * len) mod size_max) need else Some len)"
  using double_until.simps(2) [of 64 len need] by simp

lemma double_until_64: "double_until 64 len need = (if len < need then double_until 63 ((2 * len) mod size_max) need else Some len)"
  using double_until.simps(2) [of 63 len need] by simp

lemma vprintf_loop_2: "add_vprintf_loop lc win 2 = add_vprintf_loop lc win (Suc (Suc 0))"
  by (simp only: numeral_2_eq_2)

lemmas buf_demo_simps = SPBuffer_new_def win32buffer_new_def SPBuffer_append_def win32buffer_add_def win32buffer_expand_def
  double_until_65 double_until_64 size_max_def wb_mem_def mem_get_def mem_put_def SPBuffer_getBuffer_def SPBuffer_getSize_def cstr_def
  wb_notify_def

lemma tight_run: "run_ops (buf_step libc_tight False) [Append (replicate 256 CHR ''x''), GetBuffer] SPBuffer_new = Inl OutOfBounds"
  by (simp add: buf_demo_simps libc_tight_def)

lemma plain_run: "\<exists>as b. run_ops (buf_step libc_plain True) buf_demo SPBuffer_new = Inr (as, b)"
  by (simp add: buf_demo_def buf_demo_simps libc_plain_def SPBuffer_getLine_def win32buffer_readline_def
      SPBuffer_printf_def win32buffer_add_vprintf_def SPBuffer_take_def vprintf_loop_2 win32buffer_drain_def
      SPBuffer_erase_def to_size_def)

lemma SPBuffer_is_stream_witness:
  "(\<exists>as b. run_ops (buf_step libc_plain True) buf_demo SPBuffer_new = Inr (as, b) \<and> wb_inv b \<and>
     accepts buf_spec buf_demo [] as = Some (wb_contents b)) \<and>
   run_ops (buf_step libc_tight False) [Append (replicate 256 CHR ''x''), GetBuffer] SPBuffer_new = Inl OutOfBounds"
proof -
  obtain as b where r: "run_ops (buf_step libc_plain True) buf_demo SPBuffer_new = Inr (as, b)" using plain_run by blast
  have "list_all buf_small buf_demo" "sum_list (map buf_grow buf_demo) < 2 ^ 31" by (simp_all add: buf_demo_def is_cstr_def)
  from SPBuffer_is_stream [OF libc_plain_ok this, of True] r
  have "wb_inv b" "accepts buf_spec buf_demo [] as = Some (wb_contents b)" by simp_all
  then show ?thesis using r tight_run by simp
qed

text \<open>
  \<open>getBuffer\<close> answers the contents followed by a terminator and keeps contents and size,
  when the block has a free byte at its end or \<open>realloc\<close> can provide one.
\<close>

theorem SPBuffer_getBuffer_terminated:
  assumes "wb_inv b" "libc_ok lc"
    and "wb_misalign b + wb_off b < wb_totallen b \<or> libc_room lc (expand_bound b 1)"
  shows "\<exists>xs b'. SPBuffer_getBuffer lc b = Inr (xs, b') \<and> wb_inv b' \<and> same_view b b' \<and>
    take (Suc (wb_off b)) xs = wb_contents b @ [NUL]"
  using assms by (rule getBuffer_contract)

definition full_buffer :: win32buffer where
  "full_buffer = \<lparr> wb_block = Some ''abc'', wb_gen = 1, wb_buffer = 0, wb_misalign = 0,
     wb_totallen = 3, wb_off = 3, wb_cb = False, wb_log = [] \<rparr>"

lemma full_buffer_inv: "wb_inv full_buffer"
  by (simp add: full_buffer_def wb_inv_def wb_mem_def mem_limit_def)

lemma SPBuffer_getBuffer_terminated_witness:
  "\<exists>xs b'. SPBuffer_getBuffer libc_plain full_buffer = Inr (xs, b') \<and> wb_inv b' \<and> same_view full_buffer b' \<and>
    take (Suc (wb_off full_buffer)) xs = wb_contents full_buffer @ [NUL]"
proof -
  have "libc_room libc_plain (expand_bound full_buffer 1)"
    by (rule libc_plain_room) (simp add: expand_bound_def full_buffer_def)
  with SPBuffer_getBuffer_terminated [OF full_buffer_inv libc_plain_ok] show ?thesis by blast
qed

text \<open>
  \<open>getBuffer\<close> does not look at the answer of \<open>expand\<close>: when the buffer is full and the
  allocator has no more memory, the terminator is written one byte past the block.
\<close>

theorem SPBuffer_getBuffer_unchecked:
  assumes "wb_inv b" "wb_block b \<noteq> None" "wb_misalign b = 0" "wb_off b = wb_totallen b"
    and none: "\<forall>m n. lc_realloc lc m n = None"
  shows "SPBuffer_getBuffer lc b = Inl OutOfBounds"
proof -
  have tot: "wb_totallen b < mem_limit" "wb_buffer b = 0" "length (wb_mem b) = wb_totallen b"
    using assms by (simp_all add: wb_inv_def)
  then have need: "(wb_totallen b + 1) mod size_max = wb_totallen b + 1"
    by (simp add: size_max_def mem_limit_def)
  have "wb_totallen b + 1 \<le> max 256 (wb_totallen b) * 2 ^ 64" "2 * (wb_totallen b + 1) \<le> size_max"
    using tot(1) by (simp_all add: size_max_def mem_limit_def)
  from double_until_ok [OF this] obtain l where
    "double_until 65 (max 256 (wb_totallen b)) (wb_totallen b + 1) = Some l" by auto
  with assms tot need have "win32buffer_expand lc 1 b = Inr (-1, b)"
    by (simp add: win32buffer_expand_def)
  with assms tot show ?thesis by (simp add: SPBuffer_getBuffer_def mem_put_def)
qed

lemma SPBuffer_getBuffer_unchecked_witness:
  "SPBuffer_getBuffer \<lparr> lc_realloc = (\<lambda>_ _. None), lc_malloc = (\<lambda>_. True) \<rparr> full_buffer = Inl OutOfBounds"
  by (rule SPBuffer_getBuffer_unchecked [OF full_buffer_inv]) (simp_all add: full_buffer_def)

subsection \<open>printf\<close>

text \<open>
  On Windows a formatted \<open>printf\<close> appends its text when the block has room for it and a
  terminator; when it has not, it answers -1 and the text is lost although the allocator has
  memory: \<open>_vsnprintf\<close> reports the missing room with -1 and not with the length that the
  loop waits for, so the buffer never grows by more than the 64 bytes asked for at the start.
\<close>

theorem SPBuffer_printf_windows:
  assumes inv: "wb_inv b" and room: "wb_misalign b + wb_off b + 64 \<le> wb_totallen b"
    and fmt: "CHR ''%'' \<in> set (cstr fmt)"
  shows "\<exists>b'. SPBuffer_printf lc True fmt text b =
      Inr (if wb_misalign b + wb_off b + length text < wb_totallen b then int (length text) else -1, b') \<and>
    wb_inv b' \<and> wb_contents b' = (if wb_misalign b + wb_off b + length text < wb_totallen b
      then wb_contents b @ text else wb_contents b)"
proof -
  define space where "space = wb_totallen b - (wb_misalign b + wb_off b)"
  have "wb_misalign b + wb_off b + 64 < size_max" using inv room by (simp add: wb_inv_def mem_limit_def size_max_def)
  then have ex: "win32buffer_expand lc 64 b = Inr (0, b)" using room by (simp add: win32buffer_expand_def)
  show ?thesis
  proof (cases "wb_misalign b + wb_off b + length text < wb_totallen b")
    case True
    from put_at_end [OF inv True] True ex fmt room show ?thesis
      by (auto simp: SPBuffer_printf_def win32buffer_add_vprintf_def numeral_2_eq_2 Let_def)
  next
    case False
    let ?xs = "take (space - 1) text"
    have l: "length ?xs = space - 1" using False by (auto simp: space_def)
    then have r: "wb_misalign b + wb_off b + length ?xs < wb_totallen b" using room by (simp add: space_def)
    have "space - 1 < length text" "space \<noteq> 0" "\<not> wb_totallen b < wb_misalign b + wb_off b"
      using False room by (auto simp: space_def)
    with put_at_end [OF inv r] False ex fmt show ?thesis
      by (auto simp: SPBuffer_printf_def win32buffer_add_vprintf_def numeral_2_eq_2 Let_def space_def [symmetric])
  qed
qed

definition room_buffer :: win32buffer where
  "room_buffer = \<lparr> wb_block = Some (replicate 70 NUL), wb_gen = 1, wb_buffer = 0, wb_misalign = 0,
     wb_totallen = 70, wb_off = 0, wb_cb = False, wb_log = [] \<rparr>"

lemma SPBuffer_printf_windows_witness:
  "\<exists>b'. SPBuffer_printf libc_plain True ''%d'' (replicate 70 CHR ''1'') room_buffer = Inr (-1, b') \<and>
    wb_inv b' \<and> wb_contents b' = []"
proof -
  have "wb_inv room_buffer" by (simp add: wb_inv_def room_buffer_def mem_limit_def wb_mem_def)
  moreover have "wb_misalign room_buffer + wb_off room_buffer + 64 \<le> wb_totallen room_buffer"
    by (simp add: room_buffer_def)
  moreover have "CHR ''%'' \<in> set (cstr ''%d'')" by (simp add: cstr_def)
  ultimately show ?thesis
    using SPBuffer_printf_windows [of room_buffer "''%d''" libc_plain "replicate 70 CHR ''1''"]
    by (simp add: room_buffer_def wb_contents_def)
qed

end
