(* ===== verification/SP_MsgDecoder.thy ===== *)
theory SP_MsgDecoder
  imports SP_Buffer
begin

text \<open>
  The message decoders (spmsgdecoder.hpp, spmsgdecoder.cpp): they cut the bytes that a session
  has read into messages. Pointers into the input buffer are kept as the code keeps them, across
  calls that may move the bytes or the block, so a read through a dangling one is a fault. The
  queue of the multi line decoder and the list of the chunk decoder are the list views of
  \<open>SP_CircleQueue\<close> and \<open>SP_ArrayList\<close>.
\<close>

datatype decode_ret = eOK | eMoreData

subsection \<open>SP_DefaultMsgDecoder\<close>

definition DefaultDecoder_decode ::
  "libc \<Rightarrow> sp_buffer \<Rightarrow> sp_buffer \<Rightarrow> (decode_ret \<times> sp_buffer \<times> sp_buffer) res" where
  "DefaultDecoder_decode lc inb mBuffer =
     (if 0 < SPBuffer_getSize inb then
        res_bind (SPBuffer_append_buffer lc inb (SPBuffer_reset mBuffer)) (\<lambda>(_, m, inb').
          Inr (eOK, m, SPBuffer_reset inb'))
      else Inr (eMoreData, mBuffer, inb))"

subsection \<open>SP_LineMsgDecoder\<close>

definition LineDecoder_decode :: "libc \<Rightarrow> sp_buffer \<Rightarrow> (decode_ret \<times> bytes option \<times> sp_buffer) res" where
  "LineDecoder_decode lc inb =
     res_bind (SPBuffer_getLine lc inb) (\<lambda>(mLine, inb').
       Inr (if mLine = None then eMoreData else eOK, mLine, inb'))"

subsection \<open>SP_MultiLineMsgDecoder\<close>

text \<open>The loop ends because every line takes at least one byte; the fuel is the size and one more.\<close>

fun MultiLineDecoder_loop ::
  "nat \<Rightarrow> libc \<Rightarrow> sp_buffer \<Rightarrow> bytes list \<Rightarrow> decode_ret \<Rightarrow> (decode_ret \<times> bytes list \<times> sp_buffer) res" where
  "MultiLineDecoder_loop 0 lc inb mQueue ret = Inl Hang"
| "MultiLineDecoder_loop (Suc f) lc inb mQueue ret =
     res_bind (SPBuffer_getLine lc inb) (\<lambda>(line, inb').
       case line of
         None \<Rightarrow> Inr (ret, mQueue, inb')
       | Some l \<Rightarrow> MultiLineDecoder_loop f lc inb' (mQueue @ [l]) eOK)"

definition MultiLineDecoder_decode ::
  "libc \<Rightarrow> sp_buffer \<Rightarrow> bytes list \<Rightarrow> (decode_ret \<times> bytes list \<times> sp_buffer) res" where
  "MultiLineDecoder_decode lc inb mQueue =
     MultiLineDecoder_loop (Suc (SPBuffer_getSize inb)) lc inb mQueue eMoreData"

subsection \<open>SP_DotTermMsgDecoder\<close>

definition CRLF_DOT_CRLF :: bytes where "CRLF_DOT_CRLF = [CR, LF, DOT, CR, LF]"

definition LF_DOT_LF :: bytes where "LF_DOT_LF = [LF, DOT, LF]"

text \<open>\<open>strncmp\<close> against a pattern without NUL stops at the first difference.\<close>

fun strncmp_eq :: "bytes \<Rightarrow> nat \<Rightarrow> bytes \<Rightarrow> bool res" where
  "strncmp_eq m a [] = Inr True"
| "strncmp_eq m a (c # cs) =
     (if length m \<le> a then Inl OutOfBounds
      else if m ! a \<noteq> c then Inr False else strncmp_eq m (Suc a) cs)"

text \<open>
  The loop that removes the stuffed dots in place: \<open>src\<close> reads and \<open>des\<close> writes the block. The
  test for the end is made before the dot is skipped.
\<close>

function unstuff_loop :: "bytes \<Rightarrow> nat \<Rightarrow> nat \<Rightarrow> bytes res" where
  "unstuff_loop m src des =
     (if length m \<le> src then Inl OutOfBounds
      else if m ! src = NUL then mem_put des [NUL] m
      else let src' = (if m ! src = DOT \<and> m ! (src - 1) = LF then src + 1 else src) in
        if length m \<le> src' then Inl OutOfBounds
        else if length m \<le> des then Inl OutOfBounds
        else unstuff_loop (m[des := m ! src']) (src' + 1) (des + 1))"
  by pat_completeness auto
termination
  by (relation "measure (\<lambda>(m, src, des). length m - src)") auto

declare unstuff_loop.simps [simp del]

definition find_dot_term :: "sp_buffer \<Rightarrow> wb_ptr option res" where
  "find_dot_term inb =
     res_bind (SPBuffer_find CRLF_DOT_CRLF 5 inb) (\<lambda>pos.
       if pos = None then SPBuffer_find LF_DOT_LF 3 inb else Inr pos)"

text \<open>The test \<open>strncmp( pos, .., 3 )\<close> through a pointer that was taken from an earlier state.\<close>

definition erase_dot_term :: "wb_ptr \<Rightarrow> sp_buffer \<Rightarrow> sp_buffer res" where
  "erase_dot_term pos inb =
     (if fst pos \<noteq> wb_gen inb then Inl UseAfterFree
      else res_bind (strncmp_eq (wb_mem inb) (snd pos) LF_DOT_LF) (\<lambda>short.
        Inr (SPBuffer_erase (if short then 3 else 5) inb)))"

definition DotTermDecoder_decode :: "libc \<Rightarrow> sp_buffer \<Rightarrow> (decode_ret \<times> bytes option \<times> sp_buffer) res" where
  "DotTermDecoder_decode lc inb =
     res_bind (find_dot_term inb) (\<lambda>r.
       case r of
         None \<Rightarrow> Inr (eMoreData, None, inb)
       | Some pos \<Rightarrow>
           let len = to_int (snd pos - wb_buffer inb) in
           if \<not> lc_malloc lc (to_size (len + 1)) then Inl NullDeref
           else
             res_bind (SPBuffer_getBuffer lc inb) (\<lambda>(src, inb1).
             res_bind (mem_get 0 (to_size len) src) (\<lambda>copied.
             let inb2 = SPBuffer_erase len inb1 in
             res_bind (unstuff_loop (copied @ [NUL]) 1 1) (\<lambda>mBuffer.
             res_bind (erase_dot_term pos inb2) (\<lambda>inb3.
               Inr (eOK, Some (cstr mBuffer), inb3))))))"

subsection \<open>SP_DotTermChunkMsgDecoder\<close>

definition MAX_SIZE_PER_CHUNK :: int where "MAX_SIZE_PER_CHUNK = 65536"

text \<open>
  The 16-byte array \<open>dotTerm\<close>: the last five bytes of the previous chunk, which the code reads at
  \<open>getRawBuffer() + getSize() - 5\<close>, and the first five of the input, followed by zeros.
\<close>

definition dotTerm_of :: "sp_buffer \<Rightarrow> sp_buffer \<Rightarrow> bytes res" where
  "dotTerm_of prev inb =
     (if wb_buffer prev + wb_off prev < 5 then Inl OutOfBounds
      else res_bind (mem_get (wb_buffer prev + wb_off prev - 5) 5 (wb_mem prev)) (\<lambda>a.
           res_bind (mem_get (wb_buffer inb) (min 5 (wb_off inb)) (wb_mem inb)) (\<lambda>b.
             Inr (cstr (a @ b @ [NUL])))))"

definition ChunkDecoder_span ::
  "sp_buffer \<Rightarrow> sp_buffer \<Rightarrow> (sp_buffer \<times> sp_buffer) option res" where
  "ChunkDecoder_span prev inb =
     res_bind (dotTerm_of prev inb) (\<lambda>dotTerm.
       let long = find_sub CRLF_DOT_CRLF dotTerm;
           pos = (if long = None then find_sub LF_DOT_LF dotTerm else long)
       in case pos of
            None \<Rightarrow> Inr None
          | Some p \<Rightarrow>
              let prevLen = 5 - int p;
                  lastLen = (if prefix_at LF_DOT_LF (drop p dotTerm) then 3 - prevLen else 5 - prevLen)
              in if prevLen < 5 \<and> lastLen < 5 then
                   Inr (Some (snd (SPBuffer_truncate (int (wb_off prev) - prevLen) prev),
                              SPBuffer_erase lastLen inb))
                 else Inl AssertFail)"

definition ChunkDecoder_decode ::
  "libc \<Rightarrow> sp_buffer \<Rightarrow> sp_buffer list \<Rightarrow> (decode_ret \<times> sp_buffer list \<times> sp_buffer) res" where
  "ChunkDecoder_decode lc inb mList =
     (if SPBuffer_getSize inb = 0 then Inr (eMoreData, mList, inb)
      else
        res_bind (find_dot_term inb) (\<lambda>r.
          case r of
            Some pos \<Rightarrow>
              res_bind
                (if snd pos \<noteq> wb_buffer inb then
                   let len = to_int (snd pos - wb_buffer inb) in
                   res_bind (SPBuffer_getBuffer lc inb) (\<lambda>(src, inb1).
                   res_bind (SPBuffer_append lc src len SPBuffer_new) (\<lambda>(_, last).
                     Inr (mList @ [last], SPBuffer_erase len inb1)))
                 else Inr (mList, inb)) (\<lambda>(mList', inb2).
              res_bind (erase_dot_term pos inb2) (\<lambda>inb3. Inr (eOK, mList', inb3)))
          | None \<Rightarrow>
              res_bind (if mList = [] then Inr None else ChunkDecoder_span (last mList) inb) (\<lambda>span.
                case span of
                  Some (prev', inb') \<Rightarrow> Inr (eOK, butlast mList @ [prev'], inb')
                | None \<Rightarrow>
                    let (mList', inb1) =
                      (if MAX_SIZE_PER_CHUNK - 1024 * 4 \<le> int (SPBuffer_getSize inb)
                       then (case SPBuffer_take inb of (taken, rest) \<Rightarrow> (mList @ [taken], rest))
                       else (mList, inb))
                    in res_bind (SPBuffer_reserve lc MAX_SIZE_PER_CHUNK inb1) (\<lambda>inb2.
                         Inr (eMoreData, mList', inb2)))))"

text \<open>\<open>getMsg\<close> joins the chunks in a new block and removes the stuffed dots there.\<close>

definition ChunkDecoder_getMsg :: "libc \<Rightarrow> sp_buffer list \<Rightarrow> (bytes \<times> sp_buffer list) res" where
  "ChunkDecoder_getMsg lc mList =
     (let joined = concat (map wb_contents mList) in
      if \<not> lc_malloc lc (length joined + 1) then Inl NullDeref
      else res_bind (unstuff_loop (joined @ [NUL]) 1 1) (\<lambda>ret. Inr (cstr ret, [])))"

subsection \<open>Lines\<close>

function lines_of :: "bytes \<Rightarrow> bytes list \<times> bytes" where
  "lines_of v =
     (case get_line v of None \<Rightarrow> ([], v)
      | Some (l, rest) \<Rightarrow> (case lines_of rest of (ls, v') \<Rightarrow> (l # ls, v')))"
  by pat_completeness auto
termination
  by (relation "measure length") (auto dest: get_line_length)

declare lines_of.simps [simp del]

lemma lines_of_cases:
  "get_line v = None \<Longrightarrow> lines_of v = ([], v)"
  "get_line v = Some (l, r) \<Longrightarrow> lines_of v = (l # fst (lines_of r), snd (lines_of r))"
  by (subst lines_of.simps; simp split: prod.splits)+

lemma lines_of_rest: "get_line (snd (lines_of v)) = None"
proof (induction v rule: lines_of.induct)
  case (1 v)
  then show ?case by (cases "get_line v") (auto simp: lines_of_cases)
qed

lemma getLine_contract:
  assumes "libc_good lc" "wb_inv b" "wb_off b < 2 ^ 31"
  shows "\<exists>b'. SPBuffer_getLine lc b = Inr (map_option fst (get_line (wb_contents b)), b') \<and> wb_inv b' \<and>
    wb_contents b' = (case get_line (wb_contents b) of None \<Rightarrow> wb_contents b | Some (l, r) \<Rightarrow> r)"
proof -
  have "wb_off b < 2 ^ 32" using assms(3) by simp
  from readline_ok [OF assms(2) this, of lc] assms show ?thesis
    by (auto simp: SPBuffer_getLine_def libc_good_def drain_ok split: option.splits)
qed

lemma multiline_loop_ok:
  assumes "libc_good lc"
  shows "wb_inv b \<Longrightarrow> wb_off b < 2 ^ 31 \<Longrightarrow> wb_off b < f \<Longrightarrow> lines_of (wb_contents b) = (ls, v) \<Longrightarrow>
    \<exists>b'. MultiLineDecoder_loop f lc b q ret = Inr (if ls = [] then ret else eOK, q @ ls, b') \<and>
      wb_inv b' \<and> wb_contents b' = v"
proof (induction f arbitrary: b q ret ls)
  case (Suc f)
  from getLine_contract [OF assms Suc.prems(1,2)] obtain b1 where
    b1: "SPBuffer_getLine lc b = Inr (map_option fst (get_line (wb_contents b)), b1)" "wb_inv b1"
      "wb_contents b1 = (case get_line (wb_contents b) of None \<Rightarrow> wb_contents b | Some (l, r) \<Rightarrow> r)" by blast
  show ?case
  proof (cases "get_line (wb_contents b)")
    case None
    with b1 Suc.prems(4) show ?thesis by (simp add: lines_of_cases)
  next
    case (Some p)
    obtain l r where p: "p = (l, r)" by fastforce
    from get_line_length [OF Some [unfolded p]] have "wb_off b1 < wb_off b"
      using b1 Some p length_wb_contents [OF Suc.prems(1)] length_wb_contents [OF b1(2)] by simp
    then have lt: "wb_off b1 < 2 ^ 31" "wb_off b1 < f" using Suc.prems by simp_all
    have ls: "ls = l # fst (lines_of (wb_contents b1))" "lines_of (wb_contents b1) = (fst (lines_of (wb_contents b1)), v)"
      using Suc.prems(4) Some p b1(3) by (auto simp: lines_of_cases prod_eq_iff)
    from Suc.IH [OF b1(2) lt ls(2), of "q @ [l]" eOK] b1 Some p ls(1) show ?thesis by auto
  qed
qed simp

text \<open>
  \<open>SP_MultiLineMsgDecoder::decode\<close> ends, and it moves every complete line of the input to the
  queue, in order, leaving the rest without a line end in the buffer; it answers \<open>eOK\<close> exactly
  when it found a line.
\<close>

theorem MultiLineDecoder_all_lines:
  assumes "libc_good lc" "wb_inv b" "wb_off b < 2 ^ 31"
  shows "case lines_of (wb_contents b) of (ls, v) \<Rightarrow>
    get_line v = None \<and>
    (\<exists>b'. MultiLineDecoder_decode lc b q = Inr (if ls = [] then eMoreData else eOK, q @ ls, b') \<and>
      wb_inv b' \<and> wb_contents b' = v)"
  using multiline_loop_ok [OF assms, of "Suc (wb_off b)" "fst (lines_of (wb_contents b))"
      "snd (lines_of (wb_contents b))" q eMoreData] lines_of_rest [of "wb_contents b"]
  by (auto simp: MultiLineDecoder_decode_def SPBuffer_getSize_def split: prod.splits)

definition sample_buffer :: "bytes \<Rightarrow> nat \<Rightarrow> sp_buffer" where
  "sample_buffer xs room = \<lparr> wb_block = Some (xs @ replicate room NUL), wb_gen = 1, wb_buffer = 0,
     wb_misalign = 0, wb_totallen = length xs + room, wb_off = length xs, wb_cb = False, wb_log = [] \<rparr>"

lemma sample_buffer:
  "0 < length xs + room \<Longrightarrow> length xs + room < mem_limit \<Longrightarrow> wb_inv (sample_buffer xs room)"
  "wb_contents (sample_buffer xs room) = xs" "wb_off (sample_buffer xs room) = length xs"
  "wb_misalign (sample_buffer xs room) = 0" "wb_totallen (sample_buffer xs room) = length xs + room"
  "wb_buffer (sample_buffer xs room) = 0"
  by (simp_all add: sample_buffer_def wb_inv_def wb_mem_def wb_contents_def)

lemma MultiLineDecoder_all_lines_witness:
  "\<exists>b'. MultiLineDecoder_decode libc_plain (sample_buffer ''ab\<newline>cd\<newline>\<newline>ef'' 1) [''x''] =
      Inr (eOK, [''x'', ''ab'', ''cd'', []], b') \<and> wb_inv b' \<and> wb_contents b' = ''ef''"
  using MultiLineDecoder_all_lines [OF libc_plain_good sample_buffer(1), of "''ab\<newline>cd\<newline>\<newline>ef''" 1 "[''x'']"]
  by (simp add: sample_buffer mem_limit_def lines_of.simps)

text \<open>
  The comments promise lines up to CRLF, but a bare CR ends a line too: when the two
  characters of a line end arrive in separate reads, \<open>SP_LineMsgDecoder\<close> answers the line and
  then an extra empty line.
\<close>

theorem LineDecoder_split_crlf:
  "(case LineDecoder_decode libc_plain (sample_buffer [CHR ''a'', CR] 8) of
      Inr (r1, l1, b1) \<Rightarrow>
        r1 = eOK \<and> l1 = Some ''a'' \<and>
        (case SPBuffer_append libc_plain [LF, NUL] 1 b1 of
           Inr (_, b2) \<Rightarrow> (case LineDecoder_decode libc_plain b2 of
               Inr (r2, l2, b3) \<Rightarrow> r2 = eOK \<and> l2 = Some [] \<and> wb_contents b3 = []
             | Inl _ \<Rightarrow> False)
         | Inl _ \<Rightarrow> False)
    | Inl _ \<Rightarrow> False)"
  by (simp add: LineDecoder_decode_def SPBuffer_getLine_def win32buffer_readline_def sample_buffer_def
      mem_get_def wb_mem_def libc_plain_def win32buffer_drain_def wb_notify_def SPBuffer_append_def
      win32buffer_add_def mem_put_def size_max_def wb_contents_def)

subsection \<open>Removing stuffed dots\<close>

text \<open>
  The transparency rule on lists: after LF a dot is dropped. \<open>None\<close> when the dot is the last
  character, where the code's loop leaves its block. \<open>stuff\<close> is the sender's side.
\<close>

fun unstuff :: "char \<Rightarrow> bytes \<Rightarrow> bytes option" where
  "unstuff p [] = Some []"
| "unstuff p (c # cs) =
     (if c = DOT \<and> p = LF then (case cs of [] \<Rightarrow> None | d # ds \<Rightarrow> map_option (Cons d) (unstuff d ds))
      else map_option (Cons c) (unstuff c cs))"

fun stuff :: "char \<Rightarrow> bytes \<Rightarrow> bytes" where
  "stuff p [] = []"
| "stuff p (c # cs) = (if c = DOT \<and> p = LF then DOT # DOT # stuff DOT cs else c # stuff c cs)"

lemma unstuff_stuff: "unstuff p (stuff p xs) = Some xs"
  by (induction xs arbitrary: p) auto

lemma is_cstr_stuff: "is_cstr xs \<Longrightarrow> is_cstr (stuff p xs)"
  by (induction xs arbitrary: p) auto

lemma unstuff_copy:
  "(pre @ mid @ e # rest)[length pre := c] = pre @ c # tl (mid @ [e]) @ rest"
  by (cases mid) auto

lemma unstuff_loop_ok:
  assumes "is_cstr pre" "is_cstr xs" "pre @ mid \<noteq> []" "last (pre @ mid) = p"
  shows "case unstuff p xs of
      Some ys \<Rightarrow> \<exists>m. unstuff_loop (pre @ mid @ xs @ [NUL]) (length pre + length mid) (length pre) = Inr m \<and> cstr m = pre @ ys
    | None \<Rightarrow> unstuff_loop (pre @ mid @ xs @ [NUL]) (length pre + length mid) (length pre) = Inl OutOfBounds"
  using assms
proof (induction p xs arbitrary: pre mid rule: unstuff.induct)
  case (1 p)
  have "take (length pre) (pre @ mid @ [NUL]) = pre" by simp
  with 1 show ?case
    by (subst unstuff_loop.simps) (simp add: nth_append mem_put_def cstr_append_NUL)
next
  case (2 p c cs)
  let ?m = "pre @ mid @ (c # cs) @ [NUL]"
  let ?src = "length pre + length mid"
  have at: "?m ! ?src = c" by (metis append.assoc length_append nth_append_length append_Cons)
  have prev: "?m ! (?src - 1) = p"
  proof -
    have "?m ! (?src - 1) = (pre @ mid) ! (length (pre @ mid) - 1)"
      using "2.prems"(3) by (subst append_assoc [symmetric], subst nth_append) auto
    then show ?thesis using "2.prems"(3,4) by (simp add: last_conv_nth)
  qed
  have c: "c \<noteq> NUL" "is_cstr cs" using "2.prems"(2) by simp_all
  show ?case
  proof (cases "c = DOT \<and> p = LF")
    case False
    let ?mid = "tl (mid @ [c]) @ []"
    have step: "unstuff_loop ?m ?src (length pre) =
        unstuff_loop ((pre @ [c]) @ tl (mid @ [c]) @ cs @ [NUL]) (length (pre @ [c]) + length (tl (mid @ [c]))) (length (pre @ [c]))"
      using False c at prev unstuff_copy [of pre mid c "cs @ [NUL]" c]
      by (subst unstuff_loop.simps) (auto simp: Let_def)
    have "last ((pre @ [c]) @ tl (mid @ [c])) = c" by (cases mid) auto
    with "2.IH"(2) [OF False, of "pre @ [c]" "tl (mid @ [c])"] False c "2.prems"(1) step show ?thesis
      by (auto split: option.splits)
  next
    case True
    show ?thesis
    proof (cases cs)
      case Nil
      have "unstuff_loop ?m ?src (length pre) = Inl OutOfBounds"
        using True c at prev Nil
        by (subst unstuff_loop.simps) (auto simp: Let_def unstuff_loop.simps nth_append)
      with True Nil show ?thesis by simp
    next
      case (Cons d ds)
      have step: "unstuff_loop ?m ?src (length pre) =
          unstuff_loop ((pre @ [d]) @ tl (mid @ [c, d]) @ ds @ [NUL]) (length (pre @ [d]) + length (tl (mid @ [c, d]))) (length (pre @ [d]))"
      proof -
        have at': "?m ! Suc ?src = d"
          using Cons nth_append_length [of "pre @ mid @ [c]" d "ds @ [NUL]"] by simp
        show ?thesis
          using True c at prev Cons at' unstuff_copy [of pre mid c "d # ds @ [NUL]" d]
          by (subst unstuff_loop.simps) (cases mid; auto simp: Let_def)
      qed
      have "last ((pre @ [d]) @ tl (mid @ [c, d])) = d" by (cases mid) auto
      with "2.IH"(1) [OF True Cons, of "pre @ [d]" "tl (mid @ [c, d])"] True c "2.prems"(1) step Cons show ?thesis
        by (auto split: option.splits)
    qed
  qed
qed

subsection \<open>The dot terminated message\<close>

definition dot_pos :: "bytes \<Rightarrow> nat option" where
  "dot_pos v = (case find_sub CRLF_DOT_CRLF v of None \<Rightarrow> find_sub LF_DOT_LF v | Some i \<Rightarrow> Some i)"

definition term_len :: "bytes \<Rightarrow> nat \<Rightarrow> nat" where
  "term_len v i = (if prefix_at LF_DOT_LF (drop i v) then 3 else 5)"

lemma dot_pos_bound: "dot_pos v = Some i \<Longrightarrow> i + term_len v i \<le> length v \<and> 3 \<le> term_len v i"
  by (auto simp: dot_pos_def term_len_def CRLF_DOT_CRLF_def LF_DOT_LF_def
      dest!: find_sub_Some split: option.splits elim!: prefix_atE)

lemma find_dot_term_ok:
  "wb_inv b \<Longrightarrow> find_dot_term b =
     Inr (map_option (\<lambda>i. (wb_gen b, i + wb_buffer b)) (dot_pos (wb_contents b)))"
  by (simp add: find_dot_term_def find_contract CRLF_DOT_CRLF_def LF_DOT_LF_def dot_pos_def split: option.splits)

lemma strncmp_eq_ok: "a + length pat \<le> length m \<Longrightarrow> strncmp_eq m a pat = Inr (prefix_at pat (drop a m))"
proof (induction pat arbitrary: a)
  case (Cons c cs)
  then have "drop a m = m ! a # drop (Suc a) m" by (simp add: Cons_nth_drop_Suc)
  with Cons show ?case by simp
qed simp

lemma getBuffer_room:
  assumes "wb_inv b" "wb_misalign b + wb_off b < wb_totallen b"
  defines "m \<equiv> take (wb_buffer b + wb_off b) (wb_mem b) @ NUL # drop (Suc (wb_buffer b + wb_off b)) (wb_mem b)"
  shows "SPBuffer_getBuffer lc b = Inr (drop (wb_buffer b) m, b\<lparr> wb_block := Some m \<rparr>)"
    and "wb_inv (b\<lparr> wb_block := Some m \<rparr>)" "wb_contents (b\<lparr> wb_block := Some m \<rparr>) = wb_contents b"
    and "take (wb_off b) (drop (wb_buffer b) m) = wb_contents b"
proof -
  obtain m0 where blk: "wb_block b = Some m0" using assms(1,2) wb_inv_block [OF assms(1)] by (cases "wb_block b") auto
  have ex: "win32buffer_expand lc 1 b = Inr (0, b)"
    using assms(1,2) by (simp add: win32buffer_expand_def wb_inv_def mem_limit_def size_max_def)
  have lt: "wb_buffer b + wb_off b < length (wb_mem b)" using assms(1,2) by (simp add: wb_inv_def)
  show "SPBuffer_getBuffer lc b = Inr (drop (wb_buffer b) m, b\<lparr> wb_block := Some m \<rparr>)"
    using blk ex lt by (simp add: SPBuffer_getBuffer_def mem_put_def m_def)
  have "length m = length (wb_mem b)" using lt by (simp add: m_def)
  then show "wb_inv (b\<lparr> wb_block := Some m \<rparr>)" using assms(1,2) by (simp add: wb_inv_def)
  have pre: "take (wb_buffer b + wb_off b) (wb_mem b) = take (wb_buffer b) (wb_mem b) @ wb_contents b"
    by (simp add: take_add wb_contents_def)
  show "take (wb_off b) (drop (wb_buffer b) m) = wb_contents b"
    using lt length_wb_contents [OF assms(1)] unfolding m_def pre by simp
  then show "wb_contents (b\<lparr> wb_block := Some m \<rparr>) = wb_contents b"
    by (simp add: wb_contents_def [of "b\<lparr> wb_block := Some m \<rparr>"])
qed

lemma erase_contract:
  "wb_inv b \<Longrightarrow> n < 2 ^ 31 \<Longrightarrow> wb_inv (SPBuffer_erase (int n) b) \<and>
     wb_contents (SPBuffer_erase (int n) b) = drop n (wb_contents b) \<and>
     wb_mem (SPBuffer_erase (int n) b) = wb_mem b \<and> wb_gen (SPBuffer_erase (int n) b) = wb_gen b"
  by (simp add: SPBuffer_erase_def drain_ok)

lemma prefix_at_take:
  "i + length pat \<le> n \<Longrightarrow> prefix_at pat (drop i (take n xs)) \<longleftrightarrow> prefix_at pat (drop i xs)"
  by (simp add: prefix_at_def drop_take min_def)

lemma prefix_at_of_take: "prefix_at pat (drop j (take n xs)) \<Longrightarrow> prefix_at pat (drop j xs)"
  by (metis append.assoc append_take_drop_id drop_take prefix_atE prefix_at_append)

text \<open>The common tail of the two decoders: cut at the terminator of a block with a free byte.\<close>

lemma cut_at_dot:
  assumes inv: "wb_inv b" and off: "wb_off b < 2 ^ 31"
    and room: "wb_misalign b + wb_off b < wb_totallen b"
    and pos: "dot_pos (wb_contents b) = Some i"
  shows "\<exists>src b1 b3. SPBuffer_getBuffer lc b = Inr (src, b1) \<and>
    mem_get 0 i src = Inr (take i (wb_contents b)) \<and>
    erase_dot_term (wb_gen b, i + wb_buffer b) (SPBuffer_erase (int i) b1) = Inr b3 \<and> wb_inv b3 \<and>
    wb_contents b3 = drop (i + term_len (wb_contents b) i) (wb_contents b)"
proof -
  define m where "m = take (wb_buffer b + wb_off b) (wb_mem b) @ NUL # drop (Suc (wb_buffer b + wb_off b)) (wb_mem b)"
  note g = getBuffer_room [OF inv room, folded m_def]
  define b1 where "b1 = b\<lparr> wb_block := Some m \<rparr>"
  have len: "length (wb_contents b) = wb_off b" by (rule length_wb_contents [OF inv])
  have i: "i + term_len (wb_contents b) i \<le> wb_off b" "3 \<le> term_len (wb_contents b) i"
    using dot_pos_bound [OF pos] len by auto
  have lm: "wb_buffer b + wb_off b < length m" using inv room by (simp add: m_def wb_inv_def)
  have take_i: "take i (drop (wb_buffer b) m) = take i (wb_contents b)"
    using arg_cong [OF g(4), of "take i"] i by simp
  define b2 where "b2 = SPBuffer_erase (int i) b1"
  have b2: "wb_inv b2" "wb_contents b2 = drop i (wb_contents b)" "wb_mem b2 = m" "wb_gen b2 = wb_gen b"
    using erase_contract [OF g(2), of i] i off g(3) by (auto simp: b2_def b1_def)
  have "prefix_at LF_DOT_LF (drop (i + wb_buffer b) m) = prefix_at LF_DOT_LF (drop i (drop (wb_buffer b) m))"
    by simp
  also have "\<dots> = prefix_at LF_DOT_LF (drop i (wb_contents b))"
    using prefix_at_take [of i LF_DOT_LF "wb_off b" "drop (wb_buffer b) m"] i g(4) by (simp add: LF_DOT_LF_def)
  finally have cmp: "strncmp_eq m (i + wb_buffer b) LF_DOT_LF = Inr (prefix_at LF_DOT_LF (drop i (wb_contents b)))"
    using i lm by (subst strncmp_eq_ok) (simp_all add: LF_DOT_LF_def)
  define k where "k = term_len (wb_contents b) i"
  have "erase_dot_term (wb_gen b, i + wb_buffer b) b2 = Inr (SPBuffer_erase (int k) b2)"
    using b2 cmp by (simp add: erase_dot_term_def k_def term_len_def)
  moreover have "wb_inv (SPBuffer_erase (int k) b2) \<and> wb_contents (SPBuffer_erase (int k) b2) = drop (i + k) (wb_contents b)"
    using erase_contract [OF b2(1), of k] b2(2) i off by (simp add: k_def add.commute)
  moreover have "mem_get 0 i (drop (wb_buffer b) m) = Inr (take i (wb_contents b))"
    using take_i i lm by (simp add: mem_get_def)
  ultimately show ?thesis using g(1) by (auto simp: b1_def [symmetric] b2_def [symmetric] k_def)
qed

lemma DotTermDecoder_ok:
  assumes inv: "wb_inv b" and lc: "libc_good lc" and off: "wb_off b < 2 ^ 31"
    and room: "wb_misalign b + wb_off b < wb_totallen b"
    and pos: "dot_pos (wb_contents b) = Some i" and msg: "take i (wb_contents b) = c # cs" "is_cstr (c # cs)"
  shows "case unstuff c cs of
      None \<Rightarrow> DotTermDecoder_decode lc b = Inl OutOfBounds
    | Some ys \<Rightarrow> \<exists>b'. DotTermDecoder_decode lc b = Inr (eOK, Some (c # ys), b') \<and> wb_inv b' \<and>
        wb_contents b' = drop (i + term_len (wb_contents b) i) (wb_contents b)"
proof -
  have i: "i < 2 ^ 31" using dot_pos_bound [OF pos] off length_wb_contents [OF inv] by simp
  from cut_at_dot [OF inv off room pos, of lc] obtain src b1 b3 where
    b: "SPBuffer_getBuffer lc b = Inr (src, b1)" "mem_get 0 i src = Inr (c # cs)"
      "erase_dot_term (wb_gen b, i + wb_buffer b) (SPBuffer_erase (int i) b1) = Inr b3" "wb_inv b3"
      "wb_contents b3 = drop (i + term_len (wb_contents b) i) (wb_contents b)"
    using msg(1) by auto
  have dec: "DotTermDecoder_decode lc b =
    res_bind (unstuff_loop (c # cs @ [NUL]) 1 1) (\<lambda>m. Inr (eOK, Some (cstr m), b3))"
    using b i lc by (simp add: DotTermDecoder_decode_def find_dot_term_ok [OF inv] pos libc_good_def)
  from unstuff_loop_ok [of "[c]" cs "[]" c] msg(2) show ?thesis
    unfolding dec using b(4,5) by (auto split: option.splits)
qed

lemma stuff_no_term:
  "j \<le> Suc (length (stuff p xs)) \<Longrightarrow>
     \<not> prefix_at [LF, DOT, CR] (drop j (p # stuff p xs @ CR # zs))"
proof (induction p xs arbitrary: j rule: stuff.induct)
  case (1 p)
  then show ?case by (cases j) auto
next
  case (2 p c cs)
  show ?case
  proof (cases "c = DOT \<and> p = LF")
    case True
    show ?thesis
    proof (cases j)
      case (Suc k)
      then show ?thesis using "2.IH"(1) [OF True, of "k - 1"] "2.prems" True by (cases k) auto
    qed (use True in auto)
  next
    case False
    then show ?thesis using "2.IH"(2) [OF False, of "j - 1"] "2.prems"
      by (cases j) (auto simp del: drop_append)
  qed
qed

lemma drop_stuffed: "drop (Suc (length w) + 5) (c # w @ CRLF_DOT_CRLF @ rest) = rest"
proof -
  have "drop (length (c # w) + 5) ((c # w) @ CRLF_DOT_CRLF @ rest) = drop 5 (CRLF_DOT_CRLF @ rest)"
    by (simp only: drop_append) simp
  then show ?thesis by (simp add: CRLF_DOT_CRLF_def)
qed

lemma dot_pos_stuffed:
  "dot_pos (c # stuff c cs @ CRLF_DOT_CRLF @ rest) = Some (Suc (length (stuff c cs)))" (is "dot_pos ?v = Some ?n")
  "term_len (c # stuff c cs @ CRLF_DOT_CRLF @ rest) (Suc (length (stuff c cs))) = 5"
proof -
  have at: "drop ?n ?v = CRLF_DOT_CRLF @ rest" by simp
  have "\<not> prefix_at CRLF_DOT_CRLF (drop j ?v)" if "j < ?n" for j
  proof
    assume "prefix_at CRLF_DOT_CRLF (drop j ?v)"
    then obtain ys where "drop j ?v = CRLF_DOT_CRLF @ ys" by (rule prefix_atE)
    then have "drop (Suc j) ?v = LF # DOT # CR # LF # ys"
      by (metis CRLF_DOT_CRLF_def append_Cons append_Nil drop_Suc tl_drop list.sel(3))
    then show False
      using stuff_no_term [of "Suc j" c cs "tl (CRLF_DOT_CRLF @ rest)"] that
      by (simp add: CRLF_DOT_CRLF_def)
  qed
  then have "find_sub CRLF_DOT_CRLF ?v = Some ?n"
    unfolding find_sub_eq_Some_iff by (simp only: at) simp
  then show "dot_pos ?v = Some ?n" by (simp add: dot_pos_def)
  show "term_len ?v ?n = 5" unfolding term_len_def at by (simp add: LF_DOT_LF_def CRLF_DOT_CRLF_def)
qed

text \<open>
  C29: A sender doubles the dot of every line that starts with one, the first line included, and ends
  with CR LF dot CR LF. For a message of at least one character and without NUL, in a buffer of less than
  2 GiB whose block has a free byte, and when malloc does not fail, \<open>SP_DotTermMsgDecoder::decode\<close> consumes exactly the message and its
  terminator: no line of the message can end it early, and whatever follows stays in the buffer.
  The answer is the message itself when it does not start with a dot. The loop that removes the
  doubled dots starts behind the first character, so a dot doubled on the first line stays doubled.
\<close>

theorem DotTermDecoder_roundtrip:
  assumes "wb_inv b" "libc_good lc" "wb_off b < 2 ^ 31" "wb_misalign b + wb_off b < wb_totallen b"
    and "wb_contents b = stuff LF m @ CRLF_DOT_CRLF @ rest" "m \<noteq> []" "is_cstr m"
  shows "\<exists>b'. DotTermDecoder_decode lc b = Inr (eOK, Some (if hd m = DOT then DOT # m else m), b') \<and>
    wb_inv b' \<and> wb_contents b' = rest"
proof -
  define cs where "cs = (if hd m = DOT then m else tl m)"
  have wire: "stuff LF m = hd m # stuff (hd m) cs" "hd m # cs = (if hd m = DOT then DOT # m else m)"
    using assms(6) by (cases m; simp add: cs_def)+
  have m: "is_cstr (hd m # cs)" using assms(6,7) by (cases m) (auto simp: cs_def)
  then have "is_cstr (hd m # stuff (hd m) cs)" using is_cstr_stuff by simp
  with DotTermDecoder_ok [OF assms(1-4), of "Suc (length (stuff (hd m) cs))" "hd m" "stuff (hd m) cs"] show ?thesis
    unfolding assms(5) wire(1) wire(2) [symmetric] append_Cons dot_pos_stuffed drop_stuffed by (simp add: unstuff_stuff)
qed

text \<open>The second line comes back as it was, the first one with the dot that the sender had added.\<close>

lemma DotTermDecoder_roundtrip_witness:
  "\<exists>b'. DotTermDecoder_decode libc_plain (sample_buffer (''..a\<newline>..b'' @ CRLF_DOT_CRLF @ ''QUIT'') 1) =
      Inr (eOK, Some ''..a\<newline>.b'', b') \<and> wb_inv b' \<and> wb_contents b' = ''QUIT''"
proof -
  have "stuff LF ''.a\<newline>.b'' = ''..a\<newline>..b''" by simp
  with DotTermDecoder_roundtrip [of "sample_buffer (''..a\<newline>..b'' @ CRLF_DOT_CRLF @ ''QUIT'') 1" libc_plain "''.a\<newline>.b''" "''QUIT''"]
  show ?thesis by (simp add: libc_plain_good sample_buffer mem_limit_def CRLF_DOT_CRLF_def)
qed

text \<open>
  An empty message, whose terminator stands at the start of the buffer, makes the loop of
  \<open>decode\<close> start past the end of the block it has just allocated.
\<close>

theorem DotTermDecoder_empty_message:
  assumes "wb_inv b" "libc_good lc" "wb_off b < 2 ^ 31" "wb_misalign b + wb_off b < wb_totallen b"
    and "wb_contents b = CRLF_DOT_CRLF @ rest"
  shows "DotTermDecoder_decode lc b = Inl OutOfBounds"
proof -
  have "dot_pos (wb_contents b) = Some 0"
    using assms(5) by (simp add: dot_pos_def CRLF_DOT_CRLF_def)
  with cut_at_dot [OF assms(1,3,4), of 0 lc] assms(2) show ?thesis
    by (auto simp: DotTermDecoder_decode_def find_dot_term_ok [OF assms(1)] libc_good_def unstuff_loop.simps)
qed

lemma DotTermDecoder_empty_message_witness:
  "DotTermDecoder_decode libc_plain (sample_buffer (CRLF_DOT_CRLF @ []) 1) = Inl OutOfBounds"
  by (rule DotTermDecoder_empty_message)
    (simp_all add: libc_plain_good sample_buffer mem_limit_def CRLF_DOT_CRLF_def)

lemma expand_full:
  assumes "wb_inv b" "libc_ok lc" "wb_misalign b = 0" "wb_off b = wb_totallen b" "libc_room lc (expand_bound b 1)"
  shows "\<exists>b'. win32buffer_expand lc 1 b = Inr (0, b') \<and> wb_gen b' = Suc (wb_gen b) \<and> wb_buffer b' = 0"
proof -
  have tot: "wb_totallen b < mem_limit" "wb_buffer b = 0" "length (wb_mem b) = wb_totallen b"
    using assms by (simp_all add: wb_inv_def)
  then have need: "(wb_totallen b + 1) mod size_max = wb_totallen b + 1"
    by (simp add: size_max_def mem_limit_def)
  have "wb_totallen b + 1 \<le> max 256 (wb_totallen b) * 2 ^ 64" "2 * (wb_totallen b + 1) \<le> size_max"
    using tot(1) by (simp_all add: size_max_def mem_limit_def)
  from double_until_ok [OF this] obtain l where
    l: "double_until 65 (max 256 (wb_totallen b)) (wb_totallen b + 1) = Some l"
      "l \<le> max (max 256 (wb_totallen b)) (2 * (wb_totallen b + 1))" by auto
  with assms(3-5) obtain m where "lc_realloc lc (wb_mem b) l = Some m"
    by (auto simp: libc_room_def expand_bound_def)
  with assms tot need l show ?thesis by (simp add: win32buffer_expand_def)
qed

text \<open>
  The decoder keeps the pointer to the terminator across \<open>getBuffer\<close>. When the block is
  exactly full, \<open>getBuffer\<close> has to reallocate it and the final \<open>strncmp\<close> reads through a pointer
  into the freed block, for every well-formed message.
\<close>

theorem DotTermDecoder_dangling:
  assumes "wb_inv b" "libc_good lc" "wb_off b < 2 ^ 31" "wb_misalign b = 0" "wb_off b = wb_totallen b"
    and "libc_room lc (expand_bound b 1)"
    and "wb_contents b = c # stuff c cs @ CRLF_DOT_CRLF @ rest" "is_cstr (c # cs)"
  shows "DotTermDecoder_decode lc b = Inl UseAfterFree"
proof -
  have lc: "libc_ok lc" using assms(2) by (simp add: libc_good_def)
  define n where "n = Suc (length (stuff c cs))"
  have n: "n < 2 ^ 31" "n \<le> wb_off b"
    using length_wb_contents [OF assms(1)] assms(3) by (simp_all add: n_def assms(7) CRLF_DOT_CRLF_def)
  from expand_full [OF assms(1) lc assms(4-6)] obtain b0 where
    b0: "win32buffer_expand lc 1 b = Inr (0, b0)" "wb_gen b0 = Suc (wb_gen b)" "wb_buffer b0 = 0" by blast
  from getBuffer_contract [OF assms(1) lc] assms(6) obtain src b1 where
    g: "SPBuffer_getBuffer lc b = Inr (src, b1)" "wb_inv b1" "same_view b b1"
      "take (Suc (wb_off b)) src = wb_contents b @ [NUL]" by blast
  have blk: "wb_block b \<noteq> None"
    using n(2) n_def wb_inv_block [OF assms(1)] by (cases "wb_block b") auto
  have gen: "wb_gen b1 = Suc (wb_gen b)"
    using g(1) blk b0 by (auto simp: SPBuffer_getBuffer_def res_bind_eq_Inr_iff)
  have "take n src = take n (wb_contents b)"
    using arg_cong [OF g(4), of "take n"] n(2) length_wb_contents [OF assms(1)] by simp
  then have src: "take n src = c # stuff c cs" by (simp add: n_def assms(7))
  then have "mem_get 0 n src = Inr (c # stuff c cs)"
    using src arg_cong [OF g(4), of length] n(2) length_wb_contents [OF assms(1)]
    by (simp add: mem_get_def)
  moreover have "wb_gen (SPBuffer_erase (int n) b1) = Suc (wb_gen b)"
    using erase_contract [OF g(2) n(1)] gen by simp
  moreover have "\<exists>m. unstuff_loop (c # stuff c cs @ [NUL]) 1 1 = Inr m"
    using unstuff_loop_ok [of "[c]" "stuff c cs" "[]" c] assms(8) is_cstr_stuff
    by (auto simp: unstuff_stuff)
  moreover have "find_dot_term b = Inr (Some (wb_gen b, n + wb_buffer b))"
    using find_dot_term_ok [OF assms(1)] dot_pos_stuffed(1) by (simp add: assms(7) n_def)
  moreover have "lc_malloc lc k" for k using assms(2) by (simp add: libc_good_def)
  ultimately show ?thesis using g(1) n(1)
    by (auto simp: DotTermDecoder_decode_def erase_dot_term_def)
qed

lemma DotTermDecoder_dangling_witness:
  "DotTermDecoder_decode libc_plain (sample_buffer (CHR ''a'' # stuff CHR ''a'' ''b'' @ CRLF_DOT_CRLF @ []) 0) = Inl UseAfterFree"
proof (rule DotTermDecoder_dangling [where c = "CHR ''a''" and cs = "''b''" and rest = "[]"])
  show "libc_room libc_plain (expand_bound (sample_buffer (CHR ''a'' # stuff CHR ''a'' ''b'' @ CRLF_DOT_CRLF @ []) 0) 1)"
    by (rule libc_plain_room) (simp add: expand_bound_def sample_buffer CRLF_DOT_CRLF_def)
qed (simp_all add: libc_plain_good sample_buffer mem_limit_def CRLF_DOT_CRLF_def)

subsection \<open>The chunked dot terminated message\<close>

text \<open>
  A terminator that spans two chunks is found in the last five bytes of the first and the first
  five of the second: the search there answers what a search in the joined bytes would.
\<close>

lemma find_sub_append_none:
  assumes "find_sub pat X = None" "length P \<le> j"
  shows "\<not> prefix_at pat (drop j (P @ X))"
  using assms find_sub_None [of pat X "j - length P"] by simp

lemma find_sub_span:
  assumes none: "find_sub pat P = None" "find_sub pat X = None" and len: "pat \<noteq> []" "length pat \<le> 5" "5 \<le> length P"
  shows "find_sub pat (P @ X) =
    map_option (\<lambda>i. i + (length P - 5)) (find_sub pat (drop (length P - 5) P @ take 5 X))"
proof -
  let ?k = "length P - 5"
  let ?l = "drop ?k P"
  have "\<not> prefix_at pat (drop j (P @ X))" if "j < ?k" for j
  proof -
    have "j + length pat \<le> length P" using that len by simp
    then have "prefix_at pat (drop j (P @ X)) = prefix_at pat (drop j P)"
      using prefix_at_take [of j pat "length P" "P @ X"] by simp
    then show ?thesis using find_sub_None [OF none(1)] by simp
  qed
  then have skip: "find_sub pat (P @ X) = map_option (\<lambda>i. i + ?k) (find_sub pat (?l @ X))"
    using find_sub_skip [of ?k pat "P @ X"] len by simp
  have l: "length ?l = 5" using len by simp
  have "?l @ take 5 X = take 10 (?l @ X)" using l by simp
  moreover have "find_sub pat (take 10 (?l @ X)) = find_sub pat (?l @ X)"
  proof -
    have eq: "prefix_at pat (drop j (take 10 (?l @ X))) = prefix_at pat (drop j (?l @ X))" if "j < 5" for j
      using that len by (intro prefix_at_take) simp
    have no: "\<not> prefix_at pat (drop j (?l @ X))" if "5 \<le> j" for j
      using that l find_sub_append_none [OF none(2), of ?l j] by simp
    show ?thesis
    proof (cases "find_sub pat (?l @ X)")
      case None
      have "\<not> prefix_at pat (drop j (take 10 (?l @ X)))" for j
      proof
        assume p: "prefix_at pat (drop j (take 10 (?l @ X)))"
        then show False using prefix_at_of_take find_sub_None [OF None] by blast
      qed
      then have "find_sub pat (take 10 (?l @ X)) = None" using len(1) by (intro find_sub_NoneI) auto
      then show ?thesis using None by simp
    next
      case (Some i)
      note i = find_sub_Some [OF Some]
      then have "i < 5" using no leI by blast
      then have "find_sub pat (take 10 (?l @ X)) = Some i"
        unfolding find_sub_eq_Some_iff using i eq len by auto
      then show ?thesis using Some by simp
    qed
  qed
  ultimately show ?thesis using skip by simp
qed

lemma dot_pos_None: "dot_pos v = None \<longleftrightarrow> find_sub CRLF_DOT_CRLF v = None \<and> find_sub LF_DOT_LF v = None"
  by (auto simp: dot_pos_def split: option.splits)

lemma dot_pos_span:
  assumes "dot_pos P = None" "dot_pos X = None" "5 \<le> length P"
  shows "dot_pos (P @ X) = map_option (\<lambda>i. i + (length P - 5)) (dot_pos (drop (length P - 5) P @ take 5 X))"
proof -
  have "find_sub CRLF_DOT_CRLF (P @ X) =
      map_option (\<lambda>i. i + (length P - 5)) (find_sub CRLF_DOT_CRLF (drop (length P - 5) P @ take 5 X))"
    "find_sub LF_DOT_LF (P @ X) =
      map_option (\<lambda>i. i + (length P - 5)) (find_sub LF_DOT_LF (drop (length P - 5) P @ take 5 X))"
    using assms by (intro find_sub_span; simp add: dot_pos_None CRLF_DOT_CRLF_def LF_DOT_LF_def)+
  then show ?thesis by (simp add: dot_pos_def split: option.splits)
qed

lemma dot_pos_Some:
  assumes "dot_pos v = Some i"
  shows "prefix_at (if term_len v i = 3 then LF_DOT_LF else CRLF_DOT_CRLF) (drop i v)"
    "i + term_len v i \<le> length v" "term_len v i = 3 \<or> term_len v i = 5"
  using assms dot_pos_bound [OF assms]
  by (auto simp: dot_pos_def term_len_def dest!: find_sub_Some split: option.splits)

text \<open>Where the match lies in the ten bytes: it reaches into both halves.\<close>

lemma dot_pos_straddles:
  assumes "dot_pos P = None" "dot_pos X = None" "5 \<le> length P"
    and p: "dot_pos (drop (length P - 5) P @ take 5 X) = Some p" (is "dot_pos ?D = _")
  shows "p < 5 \<and> 5 < p + term_len ?D p \<and> term_len (P @ X) (p + (length P - 5)) = term_len ?D p"
proof -
  let ?k = "length P - 5"
  let ?pat = "if term_len ?D p = 3 then LF_DOT_LF else CRLF_DOT_CRLF"
  note d = dot_pos_Some [OF p]
  have pat: "find_sub ?pat P = None" "find_sub ?pat X = None" "length ?pat = term_len ?D p"
    using assms d(3) by (auto simp: dot_pos_None LF_DOT_LF_def CRLF_DOT_CRLF_def)
  have PX: "drop (p + ?k) (P @ X) = drop p (drop ?k P @ X)" using assms(3) by (simp add: add.commute)
  have D: "?D = take 10 (drop ?k P @ X)" using assms(3) by simp
  have p10: "p + term_len ?D p \<le> 10" using d(2) by simp
  have at: "prefix_at q (drop p ?D) = prefix_at q (drop (p + ?k) (P @ X))" if "p + length q \<le> 10" for q
    unfolding D PX using that by (rule prefix_at_take)
  have hit: "prefix_at ?pat (drop (p + ?k) (P @ X))" using d(1) at [of ?pat] pat(3) p10 by metis
  have "p < 5"
  proof (rule ccontr)
    assume "\<not> p < 5"
    then have "length P \<le> p + ?k" using assms(3) by simp
    then show False using find_sub_append_none [OF pat(2)] hit by blast
  qed
  moreover have "5 < p + term_len ?D p"
  proof (rule ccontr)
    assume "\<not> 5 < p + term_len ?D p"
    then have "p + ?k + length ?pat \<le> length P" using assms(3) pat(3) by simp
    then have "prefix_at ?pat (drop (p + ?k) P)"
      using hit prefix_at_take [of "p + ?k" ?pat "length P" "P @ X"] by simp
    then show False using find_sub_None [OF pat(1)] by blast
  qed
  moreover have "term_len (P @ X) (p + ?k) = term_len ?D p"
    using at [of LF_DOT_LF] p10 d(3) by (auto simp: term_len_def LF_DOT_LF_def split: if_splits)
  ultimately show ?thesis by blast
qed

lemma ChunkDecoder_span_ok:
  assumes inv: "wb_inv prev" "wb_inv inb" and off: "wb_off prev < 2 ^ 31" "wb_off inb < 2 ^ 31" "5 \<le> wb_off prev"
    and none: "dot_pos (wb_contents prev) = None" "dot_pos (wb_contents inb) = None"
    and cstr: "is_cstr (wb_contents prev)" "is_cstr (wb_contents inb)"
  shows "case dot_pos (wb_contents prev @ wb_contents inb) of
      None \<Rightarrow> ChunkDecoder_span prev inb = Inr None
    | Some i \<Rightarrow> \<exists>prev' inb'. ChunkDecoder_span prev inb = Inr (Some (prev', inb')) \<and> wb_inv prev' \<and> wb_inv inb' \<and>
        i < wb_off prev \<and> wb_contents prev' = take i (wb_contents prev) \<and>
        wb_contents inb' = drop (i + term_len (wb_contents prev @ wb_contents inb) i) (wb_contents prev @ wb_contents inb)"
proof -
  define P where "P = wb_contents prev"
  define X where "X = wb_contents inb"
  have len: "length P = wb_off prev" "length X = wb_off inb"
    using length_wb_contents inv by (auto simp: P_def X_def)
  define D where "D = drop (length P - 5) P @ take 5 X"
  have "mem_get (wb_buffer prev + wb_off prev - 5) 5 (wb_mem prev) = Inr (drop (length P - 5) P)"
  proof -
    have "wb_buffer prev + wb_off prev \<le> length (wb_mem prev)" using inv(1) by (rule wb_window)
    then show ?thesis using off(3) len(1)
      by (auto simp: mem_get_def P_def wb_contents_def drop_take add.commute)
  qed
  moreover have "mem_get (wb_buffer inb) (min 5 (wb_off inb)) (wb_mem inb) = Inr (take 5 X)"
    using mem_get_contents [OF inv(2), of "min 5 (wb_off inb)"] len(2) by (simp add: X_def min_def)
  moreover have "cstr (drop (length P - 5) P @ take 5 X @ [NUL]) = D"
    using cstr cstr_append_NUL [of D "[]"]
    by (simp add: D_def P_def X_def is_cstr_def) (metis in_set_dropD in_set_takeD)
  ultimately have dt: "dotTerm_of prev inb = Inr D" using off(3) by (simp add: dotTerm_of_def)
  have span: "dot_pos (P @ X) = map_option (\<lambda>i. i + (length P - 5)) (dot_pos D)"
    unfolding D_def by (rule dot_pos_span) (use none off(3) len in \<open>simp_all add: P_def X_def\<close>)
  show ?thesis
  proof (cases "dot_pos D")
    case None
    then have "ChunkDecoder_span prev inb = Inr None"
      by (simp add: ChunkDecoder_span_def dt dot_pos_None)
    then show ?thesis using span None by (simp add: P_def X_def)
  next
    case (Some p)
    have st: "p < 5 \<and> 5 < p + term_len D p \<and> term_len (P @ X) (p + (length P - 5)) = term_len D p"
      unfolding D_def
      by (rule dot_pos_straddles) (use none off(3) len Some in \<open>simp_all add: P_def X_def D_def\<close>)
    define k where "k = term_len D p"
    have k: "k = 3 \<or> k = 5" using dot_pos_Some(3) [OF Some] by (simp add: k_def)
    define i where "i = p + (length P - 5)"
    have i: "i < wb_off prev" using st off(3) len unfolding i_def by linarith
    define n where "n = k - (5 - p)"
    have n: "int k - (5 - int p) = int n" "n < 5" "n < 2 ^ 31" "5 - int p < 5"
      using st k by (auto simp: n_def k_def [symmetric])
    have pos: "(if find_sub CRLF_DOT_CRLF D = None then find_sub LF_DOT_LF D else find_sub CRLF_DOT_CRLF D) = Some p"
      using Some by (auto simp: dot_pos_def split: option.splits)
    have "ChunkDecoder_span prev inb =
        Inr (Some (snd (SPBuffer_truncate (int i) prev), SPBuffer_erase (int n) inb))"
    proof -
      have "int (wb_off prev) - (5 - int p) = int i" using st off(3) len unfolding i_def by linarith
      moreover have "(if prefix_at LF_DOT_LF (drop p D) then 3 - (5 - int p) else 5 - (5 - int p)) = int n"
        using n(1) by (auto simp: k_def term_len_def split: if_splits)
      ultimately show ?thesis using n(2,4)
        by (simp only: ChunkDecoder_span_def dt res_bind_simps Let_def pos option.case) simp
    qed
    moreover have "snd (SPBuffer_truncate (int i) prev) = prev\<lparr> wb_off := i \<rparr>"
      "wb_inv (prev\<lparr> wb_off := i \<rparr>)" "wb_contents (prev\<lparr> wb_off := i \<rparr>) = take i P"
      using truncate_contract [OF inv(1) _ off(1), of "int i"] i by (auto simp: P_def)
    moreover have "wb_contents (SPBuffer_erase (int n) inb) = drop (i + k) (P @ X)" "wb_inv (SPBuffer_erase (int n) inb)"
      using erase_contract [OF inv(2) n(3)] st k off(3) len by (auto simp: X_def n_def i_def k_def [symmetric])
    ultimately show ?thesis using span Some i st by (auto simp: P_def X_def i_def k_def)
  qed
qed

text \<open>
  C30: \<open>SP_DotTermChunkMsgDecoder::decode\<close> finds a terminator that spans the last chunk and the new
  input: it answers \<open>eOK\<close> exactly when the joined bytes contain a terminator, cuts the chunk at the
  terminator and leaves what follows it in the input; otherwise no byte is lost or moved out of
  order. Chunk and input hold no terminator of their own and no NUL, and the chunk has at least
  five bytes, as every full chunk has.
\<close>

theorem ChunkDecoder_spanning_terminator:
  assumes "wb_inv prev" "wb_inv inb" "libc_good lc" "wb_off prev < 2 ^ 31" "wb_off inb < 2 ^ 31"
    and "5 \<le> wb_off prev" "0 < wb_off inb"
    and "dot_pos (wb_contents prev) = None" "dot_pos (wb_contents inb) = None"
    and "is_cstr (wb_contents prev)" "is_cstr (wb_contents inb)"
  shows "case dot_pos (wb_contents prev @ wb_contents inb) of
      Some i \<Rightarrow> \<exists>prev' inb'. ChunkDecoder_decode lc inb (ms @ [prev]) = Inr (eOK, ms @ [prev'], inb') \<and>
        wb_inv prev' \<and> wb_inv inb' \<and> wb_contents prev' = take i (wb_contents prev @ wb_contents inb) \<and>
        wb_contents inb' = drop (i + term_len (wb_contents prev @ wb_contents inb) i) (wb_contents prev @ wb_contents inb)
    | None \<Rightarrow> \<exists>ms' inb'. ChunkDecoder_decode lc inb (ms @ [prev]) = Inr (eMoreData, ms @ [prev] @ ms', inb') \<and>
        wb_inv inb' \<and> concat (map wb_contents ms') @ wb_contents inb' = wb_contents inb"
proof -
  note span = ChunkDecoder_span_ok [OF assms(1,2,4,5,6,8-11)]
  have find: "find_dot_term inb = Inr None"
    using find_dot_term_ok [OF assms(2)] assms(9) by simp
  have lc: "libc_ok lc" using assms(3) by (simp add: libc_good_def)
  show ?thesis
  proof (cases "dot_pos (wb_contents prev @ wb_contents inb)")
    case (Some i)
    with span obtain prev' inb' where
      "ChunkDecoder_span prev inb = Inr (Some (prev', inb'))" "wb_inv prev'" "wb_inv inb'" "i < wb_off prev"
      "wb_contents prev' = take i (wb_contents prev)"
      "wb_contents inb' = drop (i + term_len (wb_contents prev @ wb_contents inb) i) (wb_contents prev @ wb_contents inb)"
      by auto
    with find Some assms(7) length_wb_contents [OF assms(1)] show ?thesis
      by (simp add: ChunkDecoder_decode_def SPBuffer_getSize_def)
  next
    case None
    with span have sp: "ChunkDecoder_span prev inb = Inr None" by simp
    define full where "full = (MAX_SIZE_PER_CHUNK - 1024 * 4 \<le> int (wb_off inb))"
    define b where "b = (if full then SPBuffer_new else inb)"
    have b: "wb_inv b" "wb_off b < 2 ^ 31" using assms(2,5)
      by (auto simp: b_def SPBuffer_new_def) (simp add: win32buffer_new_def)
    have "\<exists>b'. SPBuffer_reserve lc MAX_SIZE_PER_CHUNK b = Inr b' \<and> wb_inv b' \<and> wb_contents b' = wb_contents b"
      using reserve_contract [OF b(1) lc, of MAX_SIZE_PER_CHUNK] reserve_small [OF b(1) lc, of MAX_SIZE_PER_CHUNK] b(1)
      by (cases "int (wb_off b) \<le> MAX_SIZE_PER_CHUNK") (auto simp: MAX_SIZE_PER_CHUNK_def same_view_def)
    then obtain b' where b': "SPBuffer_reserve lc MAX_SIZE_PER_CHUNK b = Inr b'" "wb_inv b'"
      "wb_contents b' = wb_contents b" by blast
    have "ChunkDecoder_decode lc inb (ms @ [prev]) = Inr (eMoreData, ms @ [prev] @ (if full then [inb] else []), b')"
      using find sp assms(7) b'(1)
      by (auto simp: ChunkDecoder_decode_def SPBuffer_getSize_def SPBuffer_take_def full_def b_def)
    moreover have "concat (map wb_contents (if full then [inb] else [])) @ wb_contents b' = wb_contents inb"
      using b'(3) by (simp add: b_def SPBuffer_new_def)
    ultimately show ?thesis using None b'(2)
      by (auto intro!: exI [of _ "if full then [inb] else []"] exI [of _ b'])
  qed
qed

lemma ChunkDecoder_spanning_terminator_witness:
  "\<exists>prev' inb'. ChunkDecoder_decode libc_plain (sample_buffer [CR, LF, CHR ''x''] 0)
      ([] @ [sample_buffer [CHR ''h'', CHR ''i'', CR, LF, DOT] 0]) = Inr (eOK, [prev'], inb') \<and>
    wb_contents prev' = ''hi'' \<and> wb_contents inb' = ''x''"
proof -
  have "dot_pos ([CHR ''h'', CHR ''i'', CR, LF, DOT] @ [CR, LF, CHR ''x'']) = Some 2"
    "term_len ([CHR ''h'', CHR ''i'', CR, LF, DOT] @ [CR, LF, CHR ''x'']) 2 = 5"
    "dot_pos [CHR ''h'', CHR ''i'', CR, LF, DOT] = None" "dot_pos [CR, LF, CHR ''x''] = None"
    by (simp_all add: dot_pos_def term_len_def CRLF_DOT_CRLF_def LF_DOT_LF_def)
  with ChunkDecoder_spanning_terminator [OF sample_buffer(1) sample_buffer(1) libc_plain_good,
      of "[CHR ''h'', CHR ''i'', CR, LF, DOT]" 0 "[CR, LF, CHR ''x'']" 0 "[]"]
  show ?thesis by (auto simp: sample_buffer mem_limit_def)
qed

text \<open>
  An empty message is accepted by the chunk decoder without a chunk, and \<open>getMsg\<close> then starts
  its loop past the end of the one-byte block.
\<close>

theorem ChunkDecoder_empty_message:
  assumes "wb_inv b" "wb_off b < 2 ^ 31" "libc_good lc" "wb_contents b = CRLF_DOT_CRLF @ rest"
  shows "(\<exists>b'. ChunkDecoder_decode lc b [] = Inr (eOK, [], b') \<and> wb_contents b' = rest) \<and>
    ChunkDecoder_getMsg lc [] = Inl OutOfBounds"
proof -
  have len: "wb_off b = 5 + length rest" using length_wb_contents [OF assms(1)] assms(4) by (simp add: CRLF_DOT_CRLF_def)
  have "dot_pos (wb_contents b) = Some 0"
    using assms(4) by (simp add: dot_pos_def CRLF_DOT_CRLF_def)
  then have find: "find_dot_term b = Inr (Some (wb_gen b, wb_buffer b))"
    using find_dot_term_ok [OF assms(1)] by simp
  have win: "wb_buffer b + 3 \<le> length (wb_mem b)" using wb_window [OF assms(1)] len by simp
  have "\<not> prefix_at LF_DOT_LF (drop (wb_buffer b) (wb_mem b))"
  proof
    assume "prefix_at LF_DOT_LF (drop (wb_buffer b) (wb_mem b))"
    then have "prefix_at LF_DOT_LF (wb_contents b)"
      using prefix_at_take [of 0 LF_DOT_LF "wb_off b"] len by (simp add: wb_contents_def LF_DOT_LF_def)
    then show False by (simp add: assms(4) LF_DOT_LF_def CRLF_DOT_CRLF_def)
  qed
  then have "erase_dot_term (wb_gen b, wb_buffer b) b = Inr (SPBuffer_erase 5 b)"
    using strncmp_eq_ok [of "wb_buffer b" LF_DOT_LF "wb_mem b"] win
    by (simp add: erase_dot_term_def LF_DOT_LF_def)
  then have "\<exists>b'. ChunkDecoder_decode lc b [] = Inr (eOK, [], b') \<and> wb_contents b' = rest"
    using find len erase_contract [OF assms(1), of 5] assms(4)
    by (simp add: ChunkDecoder_decode_def SPBuffer_getSize_def CRLF_DOT_CRLF_def)
  moreover have "ChunkDecoder_getMsg lc [] = Inl OutOfBounds"
    using assms(3) by (simp add: ChunkDecoder_getMsg_def libc_good_def unstuff_loop.simps)
  ultimately show ?thesis ..
qed

lemma ChunkDecoder_empty_message_witness:
  "(\<exists>b'. ChunkDecoder_decode libc_plain (sample_buffer (CRLF_DOT_CRLF @ ''QUIT'') 0) [] = Inr (eOK, [], b') \<and>
      wb_contents b' = ''QUIT'') \<and> ChunkDecoder_getMsg libc_plain [] = Inl OutOfBounds"
  by (rule ChunkDecoder_empty_message)
    (simp_all add: libc_plain_good sample_buffer mem_limit_def CRLF_DOT_CRLF_def)

end
