(* ===== verification/SP_StrUtils.thy ===== *)
theory SP_StrUtils
  imports SP_Base
begin

text \<open>
  The string helpers of sputils.cpp: \<open>sp_strtok\<close>, which copies the n-th field of a string, and
  \<open>sp_strlcpy\<close>. A C string is its bytes without the terminator; a pointer into it is the suffix
  that starts there, NULL is \<open>None\<close>.
\<close>

text \<open>\<open>None\<close> is the delimiter 0, the white space mode.\<close>

definition strtok_delim :: "char \<Rightarrow> char option" where
  "strtok_delim c = (if isspace c \<or> c = NUL then None else Some c)"

text \<open>The pointer to the next delimiter, NULL when there is none.\<close>

definition to_delim :: "char option \<Rightarrow> bytes \<Rightarrow> bytes option" where
  "to_delim d s =
     (let t = (case d of None \<Rightarrow> dropWhile (\<lambda>c. \<not> isspace c) s | Some c \<Rightarrow> dropWhile (\<lambda>x. x \<noteq> c) s)
      in if t = [] then None else Some t)"

text \<open>The loop that steps over \<open>index\<close> fields.\<close>

fun strtok_seek :: "char option \<Rightarrow> nat \<Rightarrow> bytes \<Rightarrow> bytes option" where
  "strtok_seek d 0 s = Some s"
| "strtok_seek d (Suc n) s =
     (case to_delim d s of None \<Rightarrow> None | Some t \<Rightarrow> strtok_seek d n (dropWhile isspace (tl t)))"

definition trim_tail :: "bytes \<Rightarrow> bytes" where
  "trim_tail s = rev (dropWhile isspace (rev s))"

text \<open>\<open>sp_strlcpy\<close> into an array of \<open>n\<close> bytes.\<close>

definition sp_strlcpy :: "bytes \<Rightarrow> nat \<Rightarrow> bytes" where
  "sp_strlcpy src n = take (n - 1) (cstr src)"

text \<open>
  The answer is the code, the string left in \<open>dest\<close> (an array of \<open>len\<close> bytes) and the pointer
  stored through \<open>next\<close>. A NULL source is dereferenced at once.
\<close>

definition sp_strtok :: "bytes option \<Rightarrow> nat \<Rightarrow> nat \<Rightarrow> char \<Rightarrow> (int \<times> bytes \<times> bytes option) res" where
  "sp_strtok src index len delimiter =
     (case src of None \<Rightarrow> Inl NullDeref
      | Some s0 \<Rightarrow>
          if len = 0 then Inl OutOfBounds
          else
            let d = strtok_delim delimiter in
            case strtok_seek d index (dropWhile isspace (cstr s0)) of
              None \<Rightarrow> Inr (-1, [], None)
            | Some s \<Rightarrow>
                if s = [] then Inr (-1, [], None)
                else case to_delim d s of
                    None \<Rightarrow> Inr (if len \<le> length s then -2 else 0, trim_tail (take (len - 1) s), None)
                  | Some t \<Rightarrow>
                      let n = length s - length t;
                          l = min len (n + 1);
                          rest = dropWhile isspace (tl t)
                      in Inr (if len \<le> n then -2 else 0, trim_tail (take (l - 1) s),
                              if rest = [] then None else Some rest))"

subsection \<open>Words\<close>

text \<open>The reference for the white space mode: the maximal runs of other characters.\<close>

function str_words :: "bytes \<Rightarrow> bytes list" where
  "str_words s =
     (let t = dropWhile isspace s in
      if t = [] then []
      else takeWhile (\<lambda>c. \<not> isspace c) t # str_words (dropWhile (\<lambda>c. \<not> isspace c) t))"
  by pat_completeness auto
termination
proof (relation "measure length", simp, goal_cases)
  case (1 s t)
  then obtain c cs where "dropWhile isspace s = c # cs" by (cases "dropWhile isspace s") auto
  moreover from this have "\<not> isspace c" by (metis dropWhile_eq_Cons_conv)
  moreover have "length (dropWhile isspace s) \<le> length s" by (rule length_dropWhile_le)
  ultimately show ?case using 1 length_dropWhile_le [of "\<lambda>c. \<not> isspace c" cs] by auto
qed

declare str_words.simps [simp del]

lemma str_words_skip: "str_words (dropWhile isspace s) = str_words s"
  by (subst (1 2) str_words.simps) simp

lemma str_words_Nil [simp]: "str_words [] = []"
  by (subst str_words.simps) simp

text \<open>The state of the scan: no leading white space.\<close>

definition at_word :: "bytes \<Rightarrow> bool" where
  "at_word s \<longleftrightarrow> s = [] \<or> \<not> isspace (hd s)"

lemma at_word_drop [simp]: "at_word (dropWhile isspace s)"
  unfolding at_word_def using hd_dropWhile [of isspace s] by blast

lemma str_words_at:
  "at_word s \<Longrightarrow> s \<noteq> [] \<Longrightarrow>
     str_words s = takeWhile (\<lambda>c. \<not> isspace c) s #
       str_words (dropWhile isspace (tl (dropWhile (\<lambda>c. \<not> isspace c) s)))"
proof -
  assume a: "at_word s" "s \<noteq> []"
  then have d: "dropWhile isspace s = s" by (cases s) (auto simp: at_word_def)
  let ?t = "dropWhile (\<lambda>c. \<not> isspace c) s"
  have "str_words ?t = str_words (dropWhile isspace (tl ?t))"
  proof (cases ?t)
    case (Cons c cs)
    then have "isspace c" by (metis dropWhile_eq_Cons_conv)
    then have "dropWhile isspace ?t = dropWhile isspace cs" using Cons by simp
    then show ?thesis using Cons str_words_skip [of ?t] by simp
  next
    case Nil
    then show ?thesis by (simp only: list.sel dropWhile.simps)
  qed
  then show ?thesis using a d by (subst str_words.simps) (simp add: Let_def)
qed

lemma str_words_empty: "at_word s \<Longrightarrow> str_words s = [] \<longleftrightarrow> s = []"
  by (metis list.distinct(1) str_words_Nil str_words_at)

lemma strtok_seek_words:
  "at_word s \<Longrightarrow>
     (case strtok_seek None n s of
        None \<Rightarrow> length (str_words s) \<le> n
      | Some t \<Rightarrow> at_word t \<and> str_words t = drop n (str_words s))"
proof (induction n arbitrary: s)
  case (Suc n)
  let ?t = "dropWhile (\<lambda>c. \<not> isspace c) s"
  show ?case
  proof (cases "?t = []")
    case True
    then have "str_words s = (if s = [] then [] else [takeWhile (\<lambda>c. \<not> isspace c) s])"
      using str_words_at [OF Suc.prems] by (cases "s = []") (simp_all only: True list.sel dropWhile.simps str_words_Nil if_True if_False simp_thms)
    then show ?thesis using True by (simp add: to_delim_def)
  next
    case False
    then have "s \<noteq> []" by auto
    from str_words_at [OF Suc.prems this] Suc.IH [of "dropWhile isspace (tl ?t)"] False show ?thesis
      by (auto simp: to_delim_def split: option.splits)
  qed
qed simp

lemma trim_tail_id: "\<forall>c \<in> set s. \<not> isspace c \<Longrightarrow> trim_tail s = s"
proof -
  assume "\<forall>c \<in> set s. \<not> isspace c"
  then have "\<forall>c \<in> set (rev s). \<not> isspace c" by simp
  then have "dropWhile isspace (rev s) = rev s" by (cases "rev s") auto
  then show ?thesis by (simp add: trim_tail_def)
qed

lemma take_takeWhile_length:
  "take (length t - length (dropWhile P t)) t = takeWhile P t"
proof -
  have "length t = length (takeWhile P t) + length (dropWhile P t)"
    by (metis length_append takeWhile_dropWhile_id)
  then have "length t - length (dropWhile P t) = length (takeWhile P t)" by simp
  then show ?thesis by (metis append_eq_conv_conj takeWhile_dropWhile_id)
qed

text \<open>
  With a white space delimiter \<open>sp_strtok\<close> copies the word of the given index: it answers -1
  and an empty string when there is no such word, -2 and the first \<open>len - 1\<close> characters when the
  word does not fit, and 0 and the whole word otherwise; the pointer it stores leads to the words
  after it, and it is NULL when that was the last one.
\<close>

theorem sp_strtok_words:
  assumes "is_cstr s" "0 < len" "isspace delimiter"
  shows "\<exists>nxt. sp_strtok (Some s) i len delimiter =
      (if i < length (str_words s)
       then Inr (if len \<le> length (str_words s ! i) then -2 else 0, take (len - 1) (str_words s ! i), nxt)
       else Inr (-1, [], nxt)) \<and>
    (case nxt of None \<Rightarrow> drop (Suc i) (str_words s) = []
     | Some t \<Rightarrow> str_words t = drop (Suc i) (str_words s) \<and> drop (Suc i) (str_words s) \<noteq> [])"
proof -
  let ?s = "dropWhile isspace s"
  have d: "strtok_delim delimiter = None" using assms(3) by (simp add: strtok_delim_def)
  note seek = strtok_seek_words [of ?s i, simplified str_words_skip]
  show ?thesis
  proof (cases "strtok_seek None i ?s")
    case None
    with seek d assms show ?thesis by (auto simp: sp_strtok_def)
  next
    case (Some t)
    with seek have t: "at_word t" "str_words t = drop i (str_words s)" by auto
    show ?thesis
    proof (cases "t = []")
      case True
      with t Some d assms show ?thesis by (auto simp: sp_strtok_def)
    next
      case False
      let ?w = "takeWhile (\<lambda>c. \<not> isspace c) t"
      let ?u = "dropWhile (\<lambda>c. \<not> isspace c) t"
      note w = str_words_at [OF t(1) False]
      have i: "i < length (str_words s)" using w t(2) by (metis drop_all leI list.distinct(1))
      then have nth: "str_words s ! i = ?w" and rest: "drop (Suc i) (str_words s) = str_words (dropWhile isspace (tl ?u))"
        using w t(2) by (simp_all add: Cons_nth_drop_Suc [symmetric])
      have trim: "trim_tail (take k ?w) = take k ?w" for k
        by (intro trim_tail_id) (auto dest: in_set_takeD set_takeWhileD)
      show ?thesis
      proof (cases "?u = []")
        case True
        then have wt: "?w = t" by (metis append_Nil2 takeWhile_dropWhile_id)
        moreover have "drop (Suc i) (str_words s) = []" unfolding rest True by simp
        ultimately show ?thesis using Some False True d assms i nth [unfolded wt] trim [unfolded wt]
            trim [of "length t", unfolded wt]
          by (auto simp: sp_strtok_def to_delim_def)
      next
        case u: False
        let ?n = "length t - length ?u"
        have n: "?n = length ?w" "take ?n t = ?w"
          using take_takeWhile_length [of t "\<lambda>c. \<not> isspace c"] by (auto dest: arg_cong [of _ _ length])
        define m where "m = ?n"
        have "take (len - 1) ?w = take (min (len - 1) m) t"
          unfolding n(2) [symmetric] m_def [symmetric] by (simp only: take_take)
        moreover have "min len (m + 1) - 1 = min (len - 1) m" using assms(2) by linarith
        ultimately have "take (min len (?n + 1) - 1) t = take (len - 1) ?w" by (simp only: m_def)
        moreover have "dropWhile isspace (tl ?u) = [] \<longleftrightarrow> str_words (dropWhile isspace (tl ?u)) = []"
          by (metis at_word_drop str_words_empty)
        ultimately show ?thesis using Some False u d assms i nth trim rest n(1)
          by (auto simp: sp_strtok_def to_delim_def Let_def)
      qed
    qed
  qed
qed

lemma sp_strtok_words_witness:
  "\<exists>nxt. sp_strtok (Some ''GET /index.html HTTP/1.1'') 1 8 CHR '' '' =
      (if 1 < length (str_words ''GET /index.html HTTP/1.1'')
       then Inr (if 8 \<le> length (str_words ''GET /index.html HTTP/1.1'' ! 1) then -2 else 0,
                 take (8 - 1) (str_words ''GET /index.html HTTP/1.1'' ! 1), nxt)
       else Inr (-1, [], nxt)) \<and>
    (case nxt of None \<Rightarrow> drop (Suc 1) (str_words ''GET /index.html HTTP/1.1'') = []
     | Some t \<Rightarrow> str_words t = drop (Suc 1) (str_words ''GET /index.html HTTP/1.1'') \<and>
        drop (Suc 1) (str_words ''GET /index.html HTTP/1.1'') \<noteq> [])"
  by (rule sp_strtok_words) (simp_all add: isspace_def)

end
