(* ===== verification/SP_Message.thy ===== *)
theory SP_Message
  imports SP_SidList SP_StrUtils
begin

text \<open>
  Message blocks, messages, responses and requests (spmsgblock.cpp, spresponse.cpp,
  sprequest.cpp). A buffer inside a message is its contents, which the refinement theorem of
  \<open>SP_Buffer\<close> justifies; lists are the list views of \<open>SP_ArrayList\<close>. A lazily created part
  (\<open>mMsg\<close>, \<open>mToList\<close>, ...) is \<open>None\<close> until its getter is called. Messages are shared between
  the output lists of sessions, so the event loop keeps them in a store; here they are values.
\<close>

subsection \<open>Message blocks\<close>

text \<open>The second argument is \<open>mToBeOwner\<close>; \<open>SP_SimpleMsgBlock\<close> keeps a pointer and a size.\<close>

datatype msg_block = BufferMsgBlock bytes bool | SimpleMsgBlock "bytes option" nat bool

definition BufferMsgBlock_new :: msg_block where
  "BufferMsgBlock_new = BufferMsgBlock [] True"

definition SimpleMsgBlock_new :: msg_block where
  "SimpleMsgBlock_new = SimpleMsgBlock None 0 False"

fun MsgBlock_getSize :: "msg_block \<Rightarrow> nat" where
  "MsgBlock_getSize (BufferMsgBlock b own) = length b"
| "MsgBlock_getSize (SimpleMsgBlock data n own) = n"

text \<open>The bytes behind \<open>getData\<close>, as far as \<open>getSize\<close> says they reach.\<close>

fun MsgBlock_getData :: "msg_block \<Rightarrow> bytes res" where
  "MsgBlock_getData (BufferMsgBlock b own) = Inr b"
| "MsgBlock_getData (SimpleMsgBlock data n own) =
     (case data of None \<Rightarrow> if n = 0 then Inr [] else Inl NullDeref
      | Some d \<Rightarrow> mem_get 0 n d)"

text \<open>\<open>SP_BufferMsgBlock::append\<close>; a length of 0 stands for \<open>strlen\<close>.\<close>

fun BufferMsgBlock_append :: "bytes \<Rightarrow> nat \<Rightarrow> msg_block \<Rightarrow> msg_block" where
  "BufferMsgBlock_append src len (BufferMsgBlock b own) =
     BufferMsgBlock (b @ (if len = 0 then cstr src else take len src)) own"
| "BufferMsgBlock_append src len blk = blk"

text \<open>The destructor and \<open>setData\<close> free the data that the block owns: the second answer.\<close>

fun MsgBlock_free :: "msg_block \<Rightarrow> bytes option" where
  "MsgBlock_free (BufferMsgBlock b own) = (if own then Some b else None)"
| "MsgBlock_free (SimpleMsgBlock data n own) = (if own then data else None)"

definition SimpleMsgBlock_setData :: "bytes option \<Rightarrow> nat \<Rightarrow> bool \<Rightarrow> msg_block \<Rightarrow> msg_block \<times> bytes option" where
  "SimpleMsgBlock_setData data n own blk = (SimpleMsgBlock data n own, MsgBlock_free blk)"

type_synonym msg_block_list = "msg_block list"

definition MsgBlockList_new :: msg_block_list where
  "MsgBlockList_new = []"

definition MsgBlockList_getCount :: "msg_block_list \<Rightarrow> int" where
  "MsgBlockList_getCount l = int (length l)"

definition MsgBlockList_append :: "msg_block \<Rightarrow> msg_block_list \<Rightarrow> msg_block_list" where
  "MsgBlockList_append blk l = l @ [blk]"

definition MsgBlockList_getItem :: "int \<Rightarrow> msg_block_list \<Rightarrow> msg_block option" where
  "MsgBlockList_getItem index l = lst_get index l"

definition MsgBlockList_takeItem :: "int \<Rightarrow> msg_block_list \<Rightarrow> msg_block option \<times> msg_block_list" where
  "MsgBlockList_takeItem index l = lst_take index l"

text \<open>\<open>getTotalSize\<close> is a loop over the indices; \<open>reset\<close> takes from the end and deletes.\<close>

fun MsgBlockList_sum :: "nat \<Rightarrow> msg_block_list \<Rightarrow> nat" where
  "MsgBlockList_sum totalSize [] = totalSize"
| "MsgBlockList_sum totalSize (blk # l) = MsgBlockList_sum (totalSize + MsgBlock_getSize blk) l"

definition MsgBlockList_getTotalSize :: "msg_block_list \<Rightarrow> nat" where
  "MsgBlockList_getTotalSize l = MsgBlockList_sum 0 l"

function MsgBlockList_reset :: "msg_block_list \<Rightarrow> bytes list \<Rightarrow> msg_block_list \<times> bytes list" where
  "MsgBlockList_reset l freed =
     (if 0 < MsgBlockList_getCount l then
        (case lst_take LAST_INDEX l of
           (Some blk, l') \<Rightarrow> MsgBlockList_reset l'
             (case MsgBlock_free blk of None \<Rightarrow> freed | Some d \<Rightarrow> freed @ [d])
         | (None, l') \<Rightarrow> (l', freed))
      else (l, freed))"
  by pat_completeness auto
termination
  by (relation "measure (\<lambda>(l, freed). length l)")
    (auto simp: MsgBlockList_getCount_def lst_take_last)

declare MsgBlockList_reset.simps [simp del]

lemma MsgBlockList_sum_eq: "MsgBlockList_sum n l = n + sum_list (map MsgBlock_getSize l)"
  by (induction l arbitrary: n) auto

lemma MsgBlockList_getTotalSize_eq [contracts]:
  "MsgBlockList_getTotalSize l = sum_list (map MsgBlock_getSize l)"
  by (simp add: MsgBlockList_getTotalSize_def MsgBlockList_sum_eq)

lemma MsgBlockList_reset_eq [contracts]:
  "MsgBlockList_reset l freed = ([], freed @ List.map_filter MsgBlock_free (rev l))"
proof (induction l arbitrary: freed rule: rev_induct)
  case Nil
  then show ?case by (subst MsgBlockList_reset.simps) (simp add: MsgBlockList_getCount_def)
next
  case (snoc blk l)
  then show ?case
    by (subst MsgBlockList_reset.simps)
      (auto simp: MsgBlockList_getCount_def lst_take_last map_filter_simps split: option.splits)
qed

subsection \<open>SP_Message\<close>

record sp_message =
  mg_mMsg :: "bytes option"
  mg_mFollowBlockList :: "msg_block_list option"
  mg_mToList :: "sid_list option"
  mg_mSuccess :: "sid_list option"
  mg_mFailure :: "sid_list option"
  mg_mCompletionKey :: int

definition Message_new :: "int \<Rightarrow> sp_message" where
  "Message_new completionKey = \<lparr> mg_mMsg = None, mg_mFollowBlockList = None, mg_mToList = None,
     mg_mSuccess = None, mg_mFailure = None, mg_mCompletionKey = completionKey \<rparr>"

definition lazy :: "'a \<Rightarrow> 'a option \<Rightarrow> 'a" where
  "lazy d x = (case x of None \<Rightarrow> d | Some v \<Rightarrow> v)"

text \<open>The getters create the part on first use: the answer and the message afterwards.\<close>

definition Message_getToList :: "sp_message \<Rightarrow> sid_list" where
  "Message_getToList m = lazy SidList_new (mg_mToList m)"

definition Message_setToList :: "sid_list \<Rightarrow> sp_message \<Rightarrow> sp_message" where
  "Message_setToList l m = m\<lparr> mg_mToList := Some l \<rparr>"

definition Message_getMsg :: "sp_message \<Rightarrow> bytes" where
  "Message_getMsg m = lazy [] (mg_mMsg m)"

definition Message_append :: "bytes \<Rightarrow> sp_message \<Rightarrow> sp_message" where
  "Message_append xs m = m\<lparr> mg_mMsg := Some (Message_getMsg m @ xs) \<rparr>"

definition Message_getFollowBlockList :: "sp_message \<Rightarrow> msg_block_list" where
  "Message_getFollowBlockList m = lazy MsgBlockList_new (mg_mFollowBlockList m)"

definition Message_getSuccess :: "sp_message \<Rightarrow> sid_list" where
  "Message_getSuccess m = lazy SidList_new (mg_mSuccess m)"

definition Message_addSuccess :: "sp_sid \<Rightarrow> sp_message \<Rightarrow> sp_message" where
  "Message_addSuccess sid m = m\<lparr> mg_mSuccess := Some (SidList_add sid (Message_getSuccess m)) \<rparr>"

definition Message_getFailure :: "sp_message \<Rightarrow> sid_list" where
  "Message_getFailure m = lazy SidList_new (mg_mFailure m)"

definition Message_addFailure :: "sp_sid \<Rightarrow> sp_message \<Rightarrow> sp_message" where
  "Message_addFailure sid m = m\<lparr> mg_mFailure := Some (SidList_add sid (Message_getFailure m)) \<rparr>"

definition Message_getTotalSize :: "sp_message \<Rightarrow> nat" where
  "Message_getTotalSize m =
     (case mg_mMsg m of None \<Rightarrow> 0 | Some b \<Rightarrow> length b) +
     (case mg_mFollowBlockList m of None \<Rightarrow> 0 | Some l \<Rightarrow> MsgBlockList_getTotalSize l)"

definition Message_reset :: "sp_message \<Rightarrow> sp_message" where
  "Message_reset m =
     m\<lparr> mg_mMsg := map_option (\<lambda>_. []) (mg_mMsg m),
        mg_mFollowBlockList := map_option (\<lambda>l. fst (MsgBlockList_reset l [])) (mg_mFollowBlockList m),
        mg_mToList := map_option SidList_reset (mg_mToList m),
        mg_mSuccess := map_option SidList_reset (mg_mSuccess m),
        mg_mFailure := map_option SidList_reset (mg_mFailure m) \<rparr>"

text \<open>
  The idiom of the event loop for a message that leaves the output list of a session: the sid
  moves from the to list to the success or failure list.
\<close>

definition Message_done :: "bool \<Rightarrow> sp_sid \<Rightarrow> sp_message \<Rightarrow> sp_message" where
  "Message_done ok sid m =
     (let m' = Message_setToList (SidList_drop sid (Message_getToList m)) m
      in if ok then Message_addSuccess sid m' else Message_addFailure sid m')"

lemma Message_lists [simp]:
  "Message_getToList (Message_setToList l m) = l"
  "Message_getToList (Message_addSuccess s m) = Message_getToList m"
  "Message_getToList (Message_addFailure s m) = Message_getToList m"
  "Message_getSuccess (Message_setToList l m) = Message_getSuccess m"
  "Message_getSuccess (Message_addSuccess s m) = Message_getSuccess m @ [s]"
  "Message_getSuccess (Message_addFailure s m) = Message_getSuccess m"
  "Message_getFailure (Message_setToList l m) = Message_getFailure m"
  "Message_getFailure (Message_addSuccess s m) = Message_getFailure m"
  "Message_getFailure (Message_addFailure s m) = Message_getFailure m @ [s]"
  by (simp_all add: Message_getToList_def Message_setToList_def Message_addSuccess_def
      Message_addFailure_def Message_getSuccess_def Message_getFailure_def lazy_def SidList_add_def)

lemma Message_data [simp]:
  "Message_getTotalSize (Message_setToList l m) = Message_getTotalSize m"
  "Message_getTotalSize (Message_addSuccess s m) = Message_getTotalSize m"
  "Message_getTotalSize (Message_addFailure s m) = Message_getTotalSize m"
  "Message_getTotalSize (Message_done ok s m) = Message_getTotalSize m"
  "Message_getMsg (Message_done ok s m) = Message_getMsg m"
  "Message_getFollowBlockList (Message_done ok s m) = Message_getFollowBlockList m"
  by (simp_all add: Message_getTotalSize_def Message_setToList_def Message_addSuccess_def
      Message_addFailure_def Message_done_def Message_getMsg_def Message_getFollowBlockList_def Let_def)

lemma Message_done_lists [simp]:
  "Message_getToList (Message_done ok s m) = remove1 s (Message_getToList m)"
  "Message_getSuccess (Message_done ok s m) = (if ok then Message_getSuccess m @ [s] else Message_getSuccess m)"
  "Message_getFailure (Message_done ok s m) = (if ok then Message_getFailure m else Message_getFailure m @ [s])"
  by (simp_all add: Message_done_def SidList_drop_eq Let_def)

lemma Message_reset_empty [contracts]:
  "Message_getTotalSize (Message_reset m) = 0" "Message_getToList (Message_reset m) = []"
  "Message_getSuccess (Message_reset m) = []" "Message_getFailure (Message_reset m) = []"
  by (auto simp: Message_getTotalSize_def Message_reset_def MsgBlockList_reset_eq MsgBlockList_getTotalSize_eq
      Message_getToList_def Message_getSuccess_def Message_getFailure_def lazy_def SidList_reset_empty SidList_new_def
      split: option.splits)

subsection \<open>SP_Response\<close>

text \<open>
  The messages of a response belong to it alone until the event loop takes them, so they are
  values here. \<open>rs_mReply\<close> says whether the reply exists and at which position; the pointer
  \<open>mReply\<close> stays set after \<open>takeMessage\<close> has handed the object out (\<open>ReplyTaken\<close>).
\<close>

datatype reply_ref = NoReply | ReplyAt nat | ReplyTaken

record sp_response =
  rs_mFromSid :: sp_sid
  rs_mReply :: reply_ref
  rs_mToCloseList :: "sid_list option"
  rs_mList :: "sp_message list"

definition Response_new :: "sp_sid \<Rightarrow> sp_response" where
  "Response_new fromSid = \<lparr> rs_mFromSid = fromSid, rs_mReply = NoReply, rs_mToCloseList = None, rs_mList = [] \<rparr>"

definition Response_getReply :: "sp_response \<Rightarrow> reply_ref \<times> sp_response" where
  "Response_getReply r =
     (case rs_mReply r of
        NoReply \<Rightarrow>
          let reply = Message_setToList (SidList_add (rs_mFromSid r) (Message_getToList (Message_new 0))) (Message_new 0);
              ref = ReplyAt (length (rs_mList r))
          in (ref, r\<lparr> rs_mReply := ref, rs_mList := rs_mList r @ [reply] \<rparr>)
      | ref \<Rightarrow> (ref, r))"

definition Response_addMessage :: "sp_message \<Rightarrow> sp_response \<Rightarrow> sp_response" where
  "Response_addMessage msg r = r\<lparr> rs_mList := rs_mList r @ [msg] \<rparr>"

definition Response_peekMessage :: "sp_response \<Rightarrow> sp_message option" where
  "Response_peekMessage r = lst_get 0 (rs_mList r)"

definition Response_takeMessage :: "sp_response \<Rightarrow> sp_message option \<times> sp_response" where
  "Response_takeMessage r =
     (case lst_take 0 (rs_mList r) of (msg, l) \<Rightarrow>
        (msg, r\<lparr> rs_mList := l,
                 rs_mReply := (case rs_mReply r of
                     ReplyAt 0 \<Rightarrow> (if msg = None then ReplyAt 0 else ReplyTaken)
                   | ReplyAt (Suc n) \<Rightarrow> (if msg = None then ReplyAt (Suc n) else ReplyAt n)
                   | ref \<Rightarrow> ref) \<rparr>))"

definition Response_getToCloseList :: "sp_response \<Rightarrow> sid_list" where
  "Response_getToCloseList r = lazy SidList_new (rs_mToCloseList r)"

definition Response_addToClose :: "sp_sid \<Rightarrow> sp_response \<Rightarrow> sp_response" where
  "Response_addToClose sid r = r\<lparr> rs_mToCloseList := Some (SidList_add sid (Response_getToCloseList r)) \<rparr>"

text \<open>What a handler writes with \<open>getReply()->getMsg()->append( .. )\<close>.\<close>

definition Response_reply :: "bytes \<Rightarrow> sp_response \<Rightarrow> sp_response res" where
  "Response_reply xs r =
     (case Response_getReply r of
        (ReplyAt i, r') \<Rightarrow> Inr (r'\<lparr> rs_mList := (rs_mList r')[i := Message_append xs (rs_mList r' ! i)] \<rparr>)
      | (_, r') \<Rightarrow> Inl UseAfterFree)"

definition reply_ok :: "sp_response \<Rightarrow> bool" where
  "reply_ok r \<longleftrightarrow> (case rs_mReply r of
     ReplyAt i \<Rightarrow> i < length (rs_mList r) \<and> Message_getToList (rs_mList r ! i) = [rs_mFromSid r]
   | _ \<Rightarrow> True)"

lemma reply_ok_new: "reply_ok (Response_new sid)"
  by (simp add: reply_ok_def Response_new_def)

lemma reply_ok_add: "reply_ok r \<Longrightarrow> reply_ok (Response_addMessage msg r)"
  by (auto simp: reply_ok_def Response_addMessage_def nth_append split: reply_ref.splits)

lemma Response_reply_ok:
  assumes "reply_ok r" "rs_mReply r \<noteq> ReplyTaken"
  shows "\<exists>i r'. Response_reply xs r = Inr r' \<and> reply_ok r' \<and> rs_mReply r' = ReplyAt i \<and>
    (rs_mReply r = NoReply \<longrightarrow> i = length (rs_mList r)) \<and>
    Message_getMsg (rs_mList r' ! i) =
      (case rs_mReply r of ReplyAt j \<Rightarrow> Message_getMsg (rs_mList r ! j) | _ \<Rightarrow> []) @ xs"
  using assms
  by (cases "rs_mReply r")
    (auto simp: Response_reply_def Response_getReply_def reply_ok_def Message_append_def
      Message_getMsg_def Message_getToList_def Message_setToList_def Message_new_def lazy_def
      SidList_add_def SidList_new_def Let_def)

text \<open>The loop \<open>for( msg = takeMessage(); NULL != msg; ... )\<close> sees the messages in order.\<close>

function Response_takeAll :: "sp_response \<Rightarrow> sp_message list" where
  "Response_takeAll r =
     (case Response_takeMessage r of (None, _) \<Rightarrow> [] | (Some m, r') \<Rightarrow> m # Response_takeAll r')"
  by pat_completeness auto
termination
  by (relation "measure (\<lambda>r. length (rs_mList r))")
    (auto simp: Response_takeMessage_def lst_take_def lst_index_def LAST_INDEX_def Let_def split: if_splits)

declare Response_takeAll.simps [simp del]

lemma Response_takeAll_eq [contracts]: "Response_takeAll r = rs_mList r"
proof (induction "rs_mList r" arbitrary: r)
  case Nil
  then show ?case
    by (subst Response_takeAll.simps)
      (simp add: Response_takeMessage_def lst_take_def lst_index_def LAST_INDEX_def Let_def)
next
  case (Cons m ms)
  have "Response_takeMessage r = (Some m, snd (Response_takeMessage r))"
    "rs_mList (snd (Response_takeMessage r)) = ms"
    using lst_take_first [of m ms] Cons.hyps(2) by (simp_all add: Response_takeMessage_def)
  with Cons.hyps show ?case by (subst Response_takeAll.simps) (metis (no_types, lifting) case_prod_conv option.simps(5))
qed

subsection \<open>SP_Request\<close>

text \<open>The decoder is a parameter of the record: it is replaced by \<open>setMsgDecoder\<close>.\<close>

record 'd sp_request =
  rq_mDecoder :: 'd
  rq_mClientIP :: bytes
  rq_mClientPort :: int
  rq_mServerIP :: bytes

definition Request_new :: "'d \<Rightarrow> 'd sp_request" where
  "Request_new defaultDecoder =
     \<lparr> rq_mDecoder = defaultDecoder, rq_mClientIP = [], rq_mClientPort = 0, rq_mServerIP = [] \<rparr>"

definition Request_setMsgDecoder :: "'d \<Rightarrow> 'd sp_request \<Rightarrow> 'd sp_request" where
  "Request_setMsgDecoder d r = r\<lparr> rq_mDecoder := d \<rparr>"

definition Request_setClientIP :: "bytes \<Rightarrow> 'd sp_request \<Rightarrow> 'd sp_request" where
  "Request_setClientIP ip r = r\<lparr> rq_mClientIP := sp_strlcpy ip 32 \<rparr>"

definition Request_setClientPort :: "int \<Rightarrow> 'd sp_request \<Rightarrow> 'd sp_request" where
  "Request_setClientPort port r = r\<lparr> rq_mClientPort := port \<rparr>"

definition Request_setServerIP :: "bytes \<Rightarrow> 'd sp_request \<Rightarrow> 'd sp_request" where
  "Request_setServerIP ip r = r\<lparr> rq_mServerIP := sp_strlcpy ip 32 \<rparr>"

end
