(* ===== verification/SP_IOChannel.thy ===== *)
theory SP_IOChannel
  imports SP_Message
begin

text \<open>
  \<open>SP_IOChannel::transmit\<close> (spiochannel.cpp): gather the pending bytes of a session's output list
  into an I/O vector, write it, and advance over what was written. Messages are shared between
  the output lists of several sessions, so an output list holds the numbers of messages in a
  store. The answers of \<open>write_vec\<close> are a parameter: one number for each call, and after the
  last one the call would block (-1).
\<close>

type_synonym msg_id = nat
type_synonym msg_store = "msg_id \<Rightarrow> sp_message option"

record out_state =
  ot_store :: msg_store
  ot_mOutList :: "msg_id list"
  ot_mOutOffset :: nat
  ot_completed :: "msg_id list"

definition get_msg :: "msg_store \<Rightarrow> msg_id \<Rightarrow> sp_message res" where
  "get_msg st i = (case st i of None \<Rightarrow> Inl UseAfterFree | Some m \<Rightarrow> Inr m)"

text \<open>
  One block of at most \<open>mx\<close>: skip it when the offset reaches over it, otherwise add the rest of
  it. The accumulator is the offset and the vector.
\<close>

definition iov_add :: "bytes \<Rightarrow> nat \<times> bytes list \<Rightarrow> nat \<times> bytes list" where
  "iov_add data acc =
     (case acc of (outOffset, iov) \<Rightarrow>
        if length data \<le> outOffset then (outOffset - length data, iov)
        else (0, iov @ [drop outOffset data]))"

fun iov_blocks :: "nat \<Rightarrow> msg_block list \<Rightarrow> nat \<times> bytes list \<Rightarrow> (nat \<times> bytes list) res" where
  "iov_blocks mx [] acc = Inr acc"
| "iov_blocks mx (blk # blks) acc =
     (if length (snd acc) < mx
      then res_bind (MsgBlock_getData blk) (\<lambda>data. iov_blocks mx blks (iov_add data acc))
      else Inr acc)"

fun iov_messages :: "nat \<Rightarrow> sp_message list \<Rightarrow> nat \<times> bytes list \<Rightarrow> (nat \<times> bytes list) res" where
  "iov_messages mx [] acc = Inr acc"
| "iov_messages mx (m # ms) acc =
     (if length (snd acc) < mx
      then res_bind (iov_blocks mx (Message_getFollowBlockList m) (iov_add (Message_getMsg m) acc))
             (iov_messages mx ms)
      else Inr acc)"

fun get_msgs :: "msg_store \<Rightarrow> msg_id list \<Rightarrow> sp_message list res" where
  "get_msgs st [] = Inr []"
| "get_msgs st (i # is) = res_bind (get_msg st i) (\<lambda>m. res_bind (get_msgs st is) (\<lambda>ms. Inr (m # ms)))"

text \<open>
  The loop after the write: every message that is written in full leaves the list, its sid moves
  from the to list to the success list, and a message without receivers left goes to the output
  result queue.
\<close>

fun out_advance :: "sp_sid \<Rightarrow> nat \<Rightarrow> msg_id list \<Rightarrow> msg_store \<Rightarrow> msg_id list \<Rightarrow>
    (nat \<times> msg_id list \<times> msg_store \<times> msg_id list) res" where
  "out_advance sid outOffset [] st outq = Inr (outOffset, [], st, outq)"
| "out_advance sid outOffset (i # outList) st outq =
     res_bind (get_msg st i) (\<lambda>m.
       if Message_getTotalSize m \<le> outOffset then
         let m' = Message_done True sid m
         in out_advance sid (outOffset - Message_getTotalSize m) outList (st(i \<mapsto> m'))
              (if SidList_getCount (Message_getToList m') \<le> 0 then outq @ [i] else outq)
       else Inr (outOffset, i # outList, st, outq))"

text \<open>\<open>transmit\<close> calls itself while something was written and messages are left.\<close>

fun transmit :: "nat \<Rightarrow> sp_sid \<Rightarrow> int list \<Rightarrow> out_state \<Rightarrow> (int \<times> bytes list list \<times> out_state) res" where
  "transmit mx sid rets s =
     res_bind (get_msgs (ot_store s) (ot_mOutList s)) (\<lambda>ms.
     res_bind (iov_messages mx ms (ot_mOutOffset s, [])) (\<lambda>(_, iov).
       case rets of
         [] \<Rightarrow> Inr (-1, [iov], s)
       | len # rets' \<Rightarrow>
           if len \<le> 0 then Inr (len, [iov], s)
           else
             res_bind (out_advance sid (ot_mOutOffset s + nat len) (ot_mOutList s) (ot_store s) (ot_completed s))
               (\<lambda>(outOffset, outList, st, outq).
                 let s' = \<lparr> ot_store = st, ot_mOutList = outList, ot_mOutOffset = outOffset, ot_completed = outq \<rparr>
                 in if outList \<noteq> [] then
                      res_bind (transmit mx sid rets' s') (\<lambda>(tmpLen, iovs, s'').
                        Inr (if 0 < tmpLen then len + tmpLen else len, iov # iovs, s''))
                    else Inr (len, [iov], s'))))"

declare transmit.simps [simp del]

subsection \<open>The stream of pending bytes\<close>

fun block_bytes :: "msg_block \<Rightarrow> bytes" where
  "block_bytes (BufferMsgBlock b own) = b"
| "block_bytes (SimpleMsgBlock data n own) = (case data of None \<Rightarrow> [] | Some d \<Rightarrow> take n d)"

definition block_ok :: "msg_block \<Rightarrow> bool" where
  "block_ok b \<longleftrightarrow> MsgBlock_getData b = Inr (block_bytes b) \<and> length (block_bytes b) = MsgBlock_getSize b"

definition msg_chunks :: "sp_message \<Rightarrow> bytes list" where
  "msg_chunks m = Message_getMsg m # map block_bytes (Message_getFollowBlockList m)"

definition msg_bytes :: "sp_message \<Rightarrow> bytes" where
  "msg_bytes m = concat (msg_chunks m)"

definition msg_ok :: "sp_message \<Rightarrow> bool" where
  "msg_ok m \<longleftrightarrow> list_all block_ok (Message_getFollowBlockList m)"

lemma msg_bytes_done [simp]: "msg_bytes (Message_done ok s m) = msg_bytes m" "msg_ok (Message_done ok s m) = msg_ok m"
  by (simp_all add: msg_bytes_def msg_chunks_def msg_ok_def)

lemma length_msg_bytes: "msg_ok m \<Longrightarrow> length (msg_bytes m) = Message_getTotalSize m"
proof -
  have "list_all block_ok l \<Longrightarrow> sum_list (map (length \<circ> block_bytes) l) = sum_list (map MsgBlock_getSize l)" for l
    by (induction l) (auto simp: block_ok_def)
  then show "msg_ok m \<Longrightarrow> length (msg_bytes m) = Message_getTotalSize m"
    by (auto simp: msg_bytes_def msg_chunks_def Message_getTotalSize_def msg_ok_def length_concat
        Message_getMsg_def Message_getFollowBlockList_def lazy_def MsgBlockList_getTotalSize_eq
        MsgBlockList_new_def split: option.splits)
qed

text \<open>The vector holds a prefix of the pending bytes; below the limit it holds all of them.\<close>

definition iov_inv :: "bytes \<Rightarrow> nat \<Rightarrow> nat \<times> bytes list \<Rightarrow> bool" where
  "iov_inv seen start acc \<longleftrightarrow>
     concat (snd acc) = drop start seen \<and>
     (fst acc = start - length seen) \<and> (length seen < start \<longrightarrow> snd acc = [])"

lemma iov_add_inv: "iov_inv seen start acc \<Longrightarrow> iov_inv (seen @ data) start (iov_add data acc)"
  by (cases acc) (auto simp: iov_inv_def iov_add_def)

lemma iov_blocks_ok:
  "list_all block_ok blks \<Longrightarrow> iov_inv seen start acc \<Longrightarrow>
     \<exists>acc' pre suf. iov_blocks mx blks acc = Inr acc' \<and> concat (map block_bytes blks) = pre @ suf \<and>
       iov_inv (seen @ pre) start acc' \<and> (length (snd acc') < mx \<longrightarrow> suf = [])"
proof (induction blks arbitrary: acc seen)
  case (Cons b bs)
  show ?case
  proof (cases "length (snd acc) < mx")
    case True
    have b: "MsgBlock_getData b = Inr (block_bytes b)" using Cons.prems(1) by (simp add: block_ok_def)
    from Cons.IH [OF _ iov_add_inv [OF Cons.prems(2), of "block_bytes b"]] Cons.prems(1)
    obtain acc' pre suf where "iov_blocks mx bs (iov_add (block_bytes b) acc) = Inr acc'"
      "concat (map block_bytes bs) = pre @ suf" "iov_inv ((seen @ block_bytes b) @ pre) start acc'"
      "length (snd acc') < mx \<longrightarrow> suf = []" by auto
    then show ?thesis using True b
      by (intro exI [of _ acc'] exI [of _ "block_bytes b @ pre"] exI [of _ suf]) simp
  next
    case False
    then show ?thesis using Cons.prems(2)
      by (intro exI [of _ acc] exI [of _ "[]"] exI [of _ "concat (map block_bytes (b # bs))"]) simp
  qed
qed simp

lemma iov_messages_ok:
  "list_all msg_ok ms \<Longrightarrow> iov_inv seen start acc \<Longrightarrow>
     \<exists>acc' pre suf. iov_messages mx ms acc = Inr acc' \<and> concat (map msg_bytes ms) = pre @ suf \<and>
       iov_inv (seen @ pre) start acc' \<and> (length (snd acc') < mx \<longrightarrow> suf = [])"
proof (induction ms arbitrary: acc seen)
  case (Cons m ms)
  show ?case
  proof (cases "length (snd acc) < mx")
    case True
    from Cons.prems(1) have m: "list_all block_ok (Message_getFollowBlockList m)" by (simp add: msg_ok_def)
    from iov_blocks_ok [OF m iov_add_inv [OF Cons.prems(2), of "Message_getMsg m"], of mx]
    obtain acc1 pre1 suf1 where 1: "iov_blocks mx (Message_getFollowBlockList m) (iov_add (Message_getMsg m) acc) = Inr acc1"
      "concat (map block_bytes (Message_getFollowBlockList m)) = pre1 @ suf1"
      "iov_inv ((seen @ Message_getMsg m) @ pre1) start acc1" "length (snd acc1) < mx \<longrightarrow> suf1 = []" by blast
    have mb: "msg_bytes m = Message_getMsg m @ pre1 @ suf1" using 1(2) by (simp add: msg_bytes_def msg_chunks_def)
    show ?thesis
    proof (cases "length (snd acc1) < mx")
      case more: True
      then have "iov_inv (seen @ msg_bytes m) start acc1" using 1(3,4) mb by simp
      from Cons.IH [OF _ this] Cons.prems(1) obtain acc' pre suf where
        "iov_messages mx ms acc1 = Inr acc'" "concat (map msg_bytes ms) = pre @ suf"
        "iov_inv ((seen @ msg_bytes m) @ pre) start acc'" "length (snd acc') < mx \<longrightarrow> suf = []" by auto
      then show ?thesis using True 1(1)
        by (intro exI [of _ acc'] exI [of _ "msg_bytes m @ pre"] exI [of _ suf]) simp
    next
      case full: False
      then have "iov_messages mx ms acc1 = Inr acc1" by (cases ms) simp_all
      then show ?thesis using True 1(1,3) full mb
        by (intro exI [of _ acc1] exI [of _ "Message_getMsg m @ pre1"] exI [of _ "suf1 @ concat (map msg_bytes ms)"]) simp
    qed
  next
    case False
    then show ?thesis using Cons.prems(2)
      by (intro exI [of _ acc] exI [of _ "[]"] exI [of _ "concat (map msg_bytes (m # ms))"]) simp
  qed
qed simp

lemma iov_prefix:
  assumes "list_all msg_ok ms"
  shows "\<exists>start iov rest. iov_messages mx ms (off, []) = Inr (start, iov) \<and>
    drop off (concat (map msg_bytes ms)) = concat iov @ rest \<and> (length iov < mx \<longrightarrow> rest = [])"
proof -
  have "iov_inv [] off (off, [])" by (simp add: iov_inv_def)
  from iov_messages_ok [OF assms this, of mx] obtain acc' pre suf where
    "iov_messages mx ms (off, []) = Inr acc'" "concat (map msg_bytes ms) = pre @ suf"
    "iov_inv pre off acc'" "length (snd acc') < mx \<longrightarrow> suf = []" by auto
  then show ?thesis
    by (cases acc') (auto simp: iov_inv_def intro!: exI [of _ "drop (off - length pre) suf"])
qed

subsection \<open>Advancing over what was written\<close>

definition out_ok :: "msg_store \<Rightarrow> msg_id list \<Rightarrow> bool" where
  "out_ok st l \<longleftrightarrow> list_all (\<lambda>i. \<exists>m. st i = Some m \<and> msg_ok m) l"

definition stored_bytes :: "msg_store \<Rightarrow> msg_id \<Rightarrow> bytes" where
  "stored_bytes st i = (case st i of None \<Rightarrow> [] | Some m \<Rightarrow> msg_bytes m)"

definition pending :: "out_state \<Rightarrow> bytes" where
  "pending s = drop (ot_mOutOffset s) (concat (map (stored_bytes (ot_store s)) (ot_mOutList s)))"

lemma get_msgs_ok:
  "out_ok st l \<Longrightarrow> \<exists>ms. get_msgs st l = Inr ms \<and> list_all msg_ok ms \<and> map msg_bytes ms = map (stored_bytes st) l"
  by (induction l) (auto simp: out_ok_def get_msg_def stored_bytes_def)

lemma stored_bytes_done:
  "st i = Some m \<Longrightarrow> stored_bytes (st(i \<mapsto> Message_done ok sid m)) = stored_bytes st"
  by (auto simp: stored_bytes_def fun_eq_iff)

lemma out_ok_done:
  "st i = Some m \<Longrightarrow> out_ok st l \<Longrightarrow> out_ok (st(i \<mapsto> Message_done ok sid m)) l"
  unfolding out_ok_def by (induction l) auto

lemma out_advance_ok:
  "out_ok st l \<Longrightarrow> off \<le> length (concat (map (stored_bytes st) l)) \<Longrightarrow>
     \<exists>off' l' st' outq' taken. out_advance sid off l st outq = Inr (off', l', st', outq') \<and> out_ok st' l' \<and>
       l = taken @ l' \<and> stored_bytes st' = stored_bytes st \<and>
       drop off' (concat (map (stored_bytes st) l')) = drop off (concat (map (stored_bytes st) l)) \<and>
       off' \<le> length (concat (map (stored_bytes st) l')) \<and>
       (l' \<noteq> [] \<longrightarrow> off' < length (stored_bytes st (hd l')))"
proof (induction l arbitrary: off st outq)
  case (Cons i l)
  then obtain m where m: "st i = Some m" "msg_ok m" by (auto simp: out_ok_def)
  have len: "length (stored_bytes st i) = Message_getTotalSize m"
    using m length_msg_bytes by (simp add: stored_bytes_def)
  show ?case
  proof (cases "Message_getTotalSize m \<le> off")
    case True
    let ?st = "st(i \<mapsto> Message_done True sid m)"
    have sb: "stored_bytes ?st = stored_bytes st" using m(1) by (rule stored_bytes_done)
    have "out_ok ?st l" using Cons.prems(1) m(1) by (intro out_ok_done) (simp_all add: out_ok_def)
    moreover have "off - Message_getTotalSize m \<le> length (concat (map (stored_bytes ?st) l))"
      using Cons.prems(2) True by (simp add: len sb)
    ultimately obtain off' l' st' outq' taken where
      r: "out_advance sid (off - Message_getTotalSize m) l ?st
          (if SidList_getCount (Message_getToList (Message_done True sid m)) \<le> 0 then outq @ [i] else outq) = Inr (off', l', st', outq')"
      "out_ok st' l'" "l = taken @ l'" "stored_bytes st' = stored_bytes ?st"
      "drop off' (concat (map (stored_bytes ?st) l')) = drop (off - Message_getTotalSize m) (concat (map (stored_bytes ?st) l))"
      "off' \<le> length (concat (map (stored_bytes ?st) l'))" "l' \<noteq> [] \<longrightarrow> off' < length (stored_bytes ?st (hd l'))"
      using Cons.IH by blast
    then show ?thesis using True m len unfolding sb
      by (intro exI [of _ off'] exI [of _ l'] exI [of _ st'] exI [of _ outq'] exI [of _ "i # taken"])
        (simp add: get_msg_def Let_def)
  next
    case False
    then show ?thesis using Cons.prems m len
      by (intro exI [of _ off] exI [of _ "i # l"] exI [of _ st] exI [of _ outq] exI [of _ "[]"])
        (simp add: get_msg_def)
  qed
qed simp

subsection \<open>transmit sends the stream\<close>

text \<open>The bytes that the calls of \<open>write_vec\<close> took, each the first \<open>r\<close> of its vector.\<close>

fun sent :: "int list \<Rightarrow> bytes list list \<Rightarrow> bytes" where
  "sent (r # rs) (v # vs) = take (nat r) (concat v) @ sent rs vs"
| "sent _ _ = []"

text \<open>The contract of \<open>write_vec\<close>: it does not write more than the vector holds.\<close>

fun writes_ok :: "int list \<Rightarrow> bytes list list \<Rightarrow> bool" where
  "writes_ok (r # rs) (v # vs) \<longleftrightarrow> r \<le> int (length (concat v)) \<and> writes_ok rs vs"
| "writes_ok _ _ \<longleftrightarrow> True"

lemma sent_Nil [simp]: "sent rs [] = []"
  by (cases rs) auto

lemma writes_ok_Nil [simp]: "writes_ok rs []"
  by (cases rs) auto

lemma transmit_stream:
  assumes "transmit mx sid rets s = Inr (len, iovs, s')" "writes_ok rets iovs"
    and "out_ok (ot_store s) (ot_mOutList s)"
    and "ot_mOutOffset s \<le> length (concat (map (stored_bytes (ot_store s)) (ot_mOutList s)))"
  shows "sent rets iovs @ pending s' = pending s \<and> out_ok (ot_store s') (ot_mOutList s') \<and>
    ot_mOutOffset s' \<le> length (concat (map (stored_bytes (ot_store s')) (ot_mOutList s'))) \<and>
    (if 0 < len then len = int (length (sent rets iovs)) else sent rets iovs = [])"
  using assms
proof (induction rets arbitrary: s len iovs)
  case Nil
  from get_msgs_ok [OF Nil.prems(3)] obtain ms where ms: "get_msgs (ot_store s) (ot_mOutList s) = Inr ms"
    "list_all msg_ok ms" by blast
  from iov_prefix [OF ms(2), of mx "ot_mOutOffset s"] Nil.prems ms(1) show ?case
    by (auto simp: transmit.simps)
next
  case (Cons r rets)
  from get_msgs_ok [OF Cons.prems(3)] obtain ms where ms: "get_msgs (ot_store s) (ot_mOutList s) = Inr ms"
    "list_all msg_ok ms" "map msg_bytes ms = map (stored_bytes (ot_store s)) (ot_mOutList s)" by blast
  from iov_prefix [OF ms(2), of mx "ot_mOutOffset s"] obtain start iov rest where
    iov: "iov_messages mx ms (ot_mOutOffset s, []) = Inr (start, iov)" "pending s = concat iov @ rest"
    unfolding pending_def ms(3) by blast
  show ?case
  proof (cases "r \<le> 0")
    case True
    with Cons.prems(1,3,4) ms(1) iov(1) show ?thesis by (auto simp: transmit.simps)
  next
    case False
    have tr: "transmit mx sid (r # rets) s =
      res_bind (out_advance sid (ot_mOutOffset s + nat r) (ot_mOutList s) (ot_store s) (ot_completed s))
        (\<lambda>(outOffset, outList, st, outq).
          let s' = \<lparr> ot_store = st, ot_mOutList = outList, ot_mOutOffset = outOffset, ot_completed = outq \<rparr>
          in if outList \<noteq> [] then
               res_bind (transmit mx sid rets s') (\<lambda>(tmpLen, iovs, s'').
                 Inr (if 0 < tmpLen then r + tmpLen else r, iov # iovs, s''))
             else Inr (r, [iov], s'))"
      using False ms(1) iov(1) by (subst transmit.simps) simp
    obtain iovs1 where iovs1: "iovs = iov # iovs1"
      using Cons.prems(1) unfolding tr
      by (auto simp: res_bind_eq_Inr_iff Let_def split: prod.splits if_splits)
    have r: "nat r \<le> length (concat iov)" using Cons.prems(2) iovs1 False by (simp add: nat_le_iff del: length_concat)
    then have plen: "nat r \<le> length (pending s)" using iov(2) by simp
    then have off: "ot_mOutOffset s + nat r \<le> length (concat (map (stored_bytes (ot_store s)) (ot_mOutList s)))"
      using Cons.prems(4) by (simp add: pending_def)
    from out_advance_ok [OF Cons.prems(3) off, of sid "ot_completed s"] obtain off' l' st' outq' where
      adv: "out_advance sid (ot_mOutOffset s + nat r) (ot_mOutList s) (ot_store s) (ot_completed s) = Inr (off', l', st', outq')"
      "out_ok st' l'" "stored_bytes st' = stored_bytes (ot_store s)"
      "drop off' (concat (map (stored_bytes (ot_store s)) l')) =
        drop (ot_mOutOffset s + nat r) (concat (map (stored_bytes (ot_store s)) (ot_mOutList s)))"
      "off' \<le> length (concat (map (stored_bytes (ot_store s)) l'))" by blast
    define s1 where "s1 = \<lparr> ot_store = st', ot_mOutList = l', ot_mOutOffset = off', ot_completed = outq' \<rparr>"
    have p1: "pending s = take (nat r) (concat iov) @ pending s1"
      using adv(3,4) r iov(2) by (simp add: pending_def s1_def add.commute flip: drop_drop)
    have ok1: "out_ok (ot_store s1) (ot_mOutList s1)"
      "ot_mOutOffset s1 \<le> length (concat (map (stored_bytes (ot_store s1)) (ot_mOutList s1)))"
      using adv by (simp_all add: s1_def)
    show ?thesis
    proof (cases "l' = []")
      case True
      then have "iovs = [iov]" "s' = s1" "len = r"
        using Cons.prems(1) adv(1) unfolding tr by (auto simp: s1_def Let_def)
      then show ?thesis using p1 ok1 False r by simp
    next
      case more: False
      then obtain tmpLen where tmp: "transmit mx sid rets s1 = Inr (tmpLen, iovs1, s')"
        "len = (if 0 < tmpLen then r + tmpLen else r)"
        using Cons.prems(1) adv(1) iovs1 unfolding tr s1_def
        by (auto simp: res_bind_eq_Inr_iff Let_def split: prod.splits)
      have "writes_ok rets iovs1" using Cons.prems(2) iovs1 by simp
      from Cons.IH [OF tmp(1) this ok1] p1 iovs1 tmp(2) False r show ?thesis by auto
    qed
  qed
qed

lemma out_advance_total:
  "out_ok st l \<Longrightarrow> \<exists>off' l' st' outq'. out_advance sid off l st outq = Inr (off', l', st', outq') \<and> out_ok st' l'"
proof (induction l arbitrary: off st outq)
  case (Cons i l)
  then obtain m where m: "st i = Some m" "msg_ok m" by (auto simp: out_ok_def)
  show ?case
  proof (cases "Message_getTotalSize m \<le> off")
    case True
    have "out_ok (st(i \<mapsto> Message_done True sid m)) l"
      using Cons.prems m(1) by (intro out_ok_done) (simp_all add: out_ok_def)
    from Cons.IH [OF this] True m show ?thesis by (simp add: get_msg_def Let_def del: fun_upd_apply)
  next
    case False
    then show ?thesis using Cons.prems m by (simp add: get_msg_def)
  qed
qed simp

lemma transmit_total:
  "out_ok (ot_store s) (ot_mOutList s) \<Longrightarrow> \<exists>len iovs s'. transmit mx sid rets s = Inr (len, iovs, s')"
proof (induction rets arbitrary: s)
  case Nil
  from get_msgs_ok [OF Nil] obtain ms where "get_msgs (ot_store s) (ot_mOutList s) = Inr ms" "list_all msg_ok ms" by blast
  with iov_prefix [of ms mx "ot_mOutOffset s"] show ?case by (auto simp: transmit.simps)
next
  case (Cons r rets)
  from get_msgs_ok [OF Cons.prems] obtain ms where ms: "get_msgs (ot_store s) (ot_mOutList s) = Inr ms" "list_all msg_ok ms" by blast
  from iov_prefix [OF ms(2), of mx "ot_mOutOffset s"] obtain start iov where
    iov: "iov_messages mx ms (ot_mOutOffset s, []) = Inr (start, iov)" by blast
  from out_advance_total [OF Cons.prems, of sid "ot_mOutOffset s + nat r" "ot_completed s"] obtain off' l' st' outq' where
    adv: "out_advance sid (ot_mOutOffset s + nat r) (ot_mOutList s) (ot_store s) (ot_completed s) = Inr (off', l', st', outq')"
      "out_ok st' l'" by blast
  from Cons.IH [of "\<lparr> ot_store = st', ot_mOutList = l', ot_mOutOffset = off', ot_completed = outq' \<rparr>"] adv ms iov
  show ?case by (cases "r \<le> 0"; subst transmit.simps) (auto simp: Let_def)
qed


definition sample_msg :: "bytes \<Rightarrow> sp_sid \<Rightarrow> sp_message" where
  "sample_msg xs sid = Message_setToList [sid] (Message_append xs (Message_new 0))"

definition sample_out :: out_state where
  "sample_out = \<lparr> ot_store = [0 \<mapsto> sample_msg ''hello'' \<lparr> sid_mKey = 1024, sid_mSeq = 0 \<rparr>,
       1 \<mapsto> sample_msg ''world'' \<lparr> sid_mKey = 1024, sid_mSeq = 0 \<rparr>],
     ot_mOutList = [0, 1], ot_mOutOffset = 1, ot_completed = [] \<rparr>"


end
