(* ===== verification/SP_EventCb.thy ===== *)
theory SP_EventCb
  imports SP_SessionManager SP_IOChannel "HOL-Library.Multiset"
begin

text \<open>
  The event loop of the server (speventcb.cpp, spsession.cpp): one thread runs the callbacks
  \<open>onAccept\<close>, \<open>onRead\<close>, \<open>onWrite\<close> and \<open>onResponse\<close>, worker threads take tasks from the input
  queue, run the user's handlers and push responses, a completion thread takes finished
  messages. Sessions and messages are heap objects: a number that the store does not map is a
  deleted object, and reading it is the fault \<open>UseAfterFree\<close>. The threads are interleaved: a step is one callback of the loop
  thread, or one stage of a worker between two accesses to shared state. Handlers, decoders,
  sockets and libevent's choice of the next event are the free choices of a step.
\<close>

subsection \<open>SP_Session\<close>

datatype session_status = eNormal | eWouldExit | eExit

text \<open>
  \<open>ss_readEv\<close> and \<open>ss_writeEv\<close> say whether the two libevent events are added. The decoder is a
  function of its state and the input: the result, the next state and the rest of the input.
\<close>

record 'd session =
  ss_mSid :: sp_sid
  ss_readEv :: bool
  ss_writeEv :: bool
  ss_mRequest :: "'d sp_request"
  ss_mInBuffer :: bytes
  ss_mOutOffset :: nat
  ss_mOutList :: "msg_id list"
  ss_mStatus :: session_status
  ss_mRunning :: bool
  ss_mWriting :: bool
  ss_mReading :: bool
  ss_mTotalRead :: "32 word"
  ss_mTotalWrite :: "32 word"

definition Session_new :: "'d \<Rightarrow> sp_sid \<Rightarrow> 'd session" where
  "Session_new d sid = \<lparr> ss_mSid = sid, ss_readEv = False, ss_writeEv = False,
     ss_mRequest = Request_new d, ss_mInBuffer = [], ss_mOutOffset = 0, ss_mOutList = [],
     ss_mStatus = eNormal, ss_mRunning = False, ss_mWriting = False, ss_mReading = False,
     ss_mTotalRead = 0, ss_mTotalWrite = 0 \<rparr>"

definition Session_addRead :: "nat \<Rightarrow> 'd session \<Rightarrow> 'd session" where
  "Session_addRead len s = s\<lparr> ss_mTotalRead := ss_mTotalRead s + of_nat len \<rparr>"

definition Session_addWrite :: "nat \<Rightarrow> 'd session \<Rightarrow> 'd session" where
  "Session_addWrite len s = s\<lparr> ss_mTotalWrite := ss_mTotalWrite s + of_nat len \<rparr>"

subsection \<open>SP_EventArg: the state the threads share\<close>

type_synonym obj = nat

datatype task = Worker obj | Error obj | Timeout obj | Close obj | Start obj

text \<open>How far a worker thread is with the task it has taken.\<close>

datatype stage = Taken task
  | Handled obj sp_response            \<comment> \<open>\<open>worker\<close>: before \<open>setRunning( 0 )\<close>\<close>
  | Started obj sp_response session_status  \<comment> \<open>\<open>start\<close>: before \<open>setStatus( status )\<close>\<close>
  | StatusSet obj sp_response          \<comment> \<open>\<open>start\<close>: before \<open>setRunning( 0 )\<close>\<close>
  | Pushing sp_response                \<comment> \<open>before \<open>msgqueue_push\<close>, the session is not touched any more\<close>
  | Destroying obj                     \<comment> \<open>before \<open>delete session\<close>\<close>

record 'd event_arg =
  ea_mSessionManager :: "obj session_manager"
  ea_sessions :: "obj \<Rightarrow> 'd session option"
  ea_msgs :: msg_store
  ea_mInputResultQueue :: "task list"
  ea_mOutputResultQueue :: "msg_id list"
  ea_mResponseQueue :: "sp_response list"
  ea_active :: "stage list"
  ea_nextObj :: obj
  ea_nextMsg :: msg_id

record accept_arg =
  ac_mReqQueueSize :: int
  ac_mMaxConnections :: int
  ac_mRefusedMsg :: bytes

definition EventArg_new :: "'d event_arg" where
  "EventArg_new = \<lparr> ea_mSessionManager = SessionManager_new, ea_sessions = (\<lambda>_. None),
     ea_msgs = (\<lambda>_. None), ea_mInputResultQueue = [], ea_mOutputResultQueue = [],
     ea_mResponseQueue = [], ea_active = [], ea_nextObj = 0, ea_nextMsg = 0 \<rparr>"

definition get_session :: "obj \<Rightarrow> 'd event_arg \<Rightarrow> 'd session res" where
  "get_session o1 ea = (case ea_sessions ea o1 of None \<Rightarrow> Inl UseAfterFree | Some s \<Rightarrow> Inr s)"

definition set_session :: "obj \<Rightarrow> 'd session \<Rightarrow> 'd event_arg \<Rightarrow> 'd event_arg" where
  "set_session o1 s ea = ea\<lparr> ea_sessions := (ea_sessions ea)(o1 \<mapsto> s) \<rparr>"

definition push_task :: "task \<Rightarrow> 'd event_arg \<Rightarrow> 'd event_arg" where
  "push_task t ea = ea\<lparr> ea_mInputResultQueue := ea_mInputResultQueue ea @ [t] \<rparr>"

text \<open>The lookup \<open>manager->get( sid.mKey, &seq )\<close> with the test \<open>seq == sid.mSeq && NULL != session\<close>.\<close>

definition find_session :: "sp_sid \<Rightarrow> 'd event_arg \<Rightarrow> obj option" where
  "find_session sid ea = session_of (ea_mSessionManager ea) sid"

subsection \<open>SP_EventHelper: the part that runs in the event loop\<close>

definition EventHelper_isSystemSid :: "sp_sid \<Rightarrow> bool" where
  "EventHelper_isSystemSid sid \<longleftrightarrow>
     sid_mKey sid = eTimerKey \<and> sid_mSeq sid = eTimerSeq \<or>
     sid_mKey sid = ePushKey \<and> sid_mSeq sid = ePushSeq"

definition EventHelper_doCompletion :: "msg_id \<Rightarrow> 'd event_arg \<Rightarrow> 'd event_arg" where
  "EventHelper_doCompletion i ea = ea\<lparr> ea_mOutputResultQueue := ea_mOutputResultQueue ea @ [i] \<rparr>"

text \<open>\<open>addEvent( session, events, fd )\<close> with the flags \<open>EV_WRITE\<close> and \<open>EV_READ\<close> of \<open>events\<close>.\<close>

definition EventCallback_addEvent :: "bool \<Rightarrow> bool \<Rightarrow> 'd session \<Rightarrow> 'd session" where
  "EventCallback_addEvent ev_write ev_read s =
     (let s1 = (if ev_write \<and> \<not> ss_mWriting s then s\<lparr> ss_mWriting := True, ss_writeEv := True \<rparr> else s)
      in if ev_read \<and> \<not> ss_mReading s1 then s1\<lparr> ss_mReading := True, ss_readEv := True \<rparr> else s1)"

definition event_del_both :: "'d session \<Rightarrow> 'd session" where
  "event_del_both s = s\<lparr> ss_writeEv := False, ss_readEv := False \<rparr>"

definition EventHelper_doWork :: "obj \<Rightarrow> 'd event_arg \<Rightarrow> 'd event_arg res" where
  "EventHelper_doWork o1 ea =
     res_bind (get_session o1 ea) (\<lambda>s.
       if ss_mStatus s = eNormal
       then Inr (push_task (Worker o1) (set_session o1 (s\<lparr> ss_mRunning := True \<rparr>) ea))
       else Inr (set_session o1 (s\<lparr> ss_mInBuffer := [] \<rparr>) ea))"

text \<open>
  The loop of \<open>doError\<close> and \<open>doTimeout\<close>: every message of the output list, from the last one,
  fails for this session.
\<close>

function fail_out_list :: "sp_sid \<Rightarrow> msg_id list \<Rightarrow> msg_store \<Rightarrow> msg_id list \<Rightarrow> (msg_store \<times> msg_id list) res" where
  "fail_out_list sid outList st outq =
     (case lst_take LAST_INDEX outList of
        (None, _) \<Rightarrow> Inr (st, outq)
      | (Some i, outList') \<Rightarrow>
          res_bind (get_msg st i) (\<lambda>m.
            let m' = Message_done False sid m
            in fail_out_list sid outList' (st(i \<mapsto> m'))
                 (if SidList_getCount (Message_getToList m') \<le> 0 then outq @ [i] else outq)))"
  by pat_completeness auto
termination
proof (relation "measure (\<lambda>(sid, outList, st, outq). length outList)", simp, goal_cases)
  case (1 sid outList st outq x1 x2 x2a)
  then show ?case by (cases "outList = []")
      (auto simp: lst_take_last, auto simp: lst_take_def lst_index_def LAST_INDEX_def Let_def)
qed

declare fail_out_list.simps [simp del]

definition EventHelper_fail :: "(obj \<Rightarrow> task) \<Rightarrow> obj \<Rightarrow> 'd event_arg \<Rightarrow> 'd event_arg res" where
  "EventHelper_fail mk o1 ea =
     res_bind (get_session o1 ea) (\<lambda>s.
     res_bind (fail_out_list (ss_mSid s) (ss_mOutList s) (ea_msgs ea) (ea_mOutputResultQueue ea)) (\<lambda>(st, outq).
     res_bind (SessionManager_remove (sid_mKey (ss_mSid s)) (sid_mSeq (ss_mSid s)) (ea_mSessionManager ea)) (\<lambda>(_, mgr).
       Inr (push_task (mk o1)
         ((set_session o1 ((event_del_both s)\<lparr> ss_mOutList := [] \<rparr>) ea)
            \<lparr> ea_msgs := st, ea_mOutputResultQueue := outq, ea_mSessionManager := mgr \<rparr>)))))"

definition EventHelper_doError :: "obj \<Rightarrow> 'd event_arg \<Rightarrow> 'd event_arg res" where
  "EventHelper_doError o1 ea = EventHelper_fail Error o1 ea"

definition EventHelper_doTimeout :: "obj \<Rightarrow> 'd event_arg \<Rightarrow> 'd event_arg res" where
  "EventHelper_doTimeout o1 ea = EventHelper_fail Timeout o1 ea"

definition EventHelper_doClose :: "obj \<Rightarrow> 'd event_arg \<Rightarrow> 'd event_arg res" where
  "EventHelper_doClose o1 ea =
     res_bind (get_session o1 ea) (\<lambda>s.
     res_bind (SessionManager_remove (sid_mKey (ss_mSid s)) (sid_mSeq (ss_mSid s)) (ea_mSessionManager ea)) (\<lambda>(_, mgr).
       Inr (push_task (Close o1) ((set_session o1 (event_del_both s) ea)\<lparr> ea_mSessionManager := mgr \<rparr>))))"

definition EventHelper_doStart :: "obj \<Rightarrow> 'd event_arg \<Rightarrow> 'd event_arg res" where
  "EventHelper_doStart o1 ea =
     res_bind (get_session o1 ea) (\<lambda>s.
       Inr (push_task (Start o1) (set_session o1 (s\<lparr> ss_mRunning := True \<rparr>) ea)))"

subsection \<open>SP_EventCallback\<close>

text \<open>
  \<open>onAccept\<close>; a failed \<open>accept\<close> is no step. \<open>new\<close> throws rather than answer NULL, so the branch
  for a NULL session is dead. The third argument is the state of a new request's decoder, then
  the addresses of the peer and of the socket (\<open>None\<close> when \<open>getsockname\<close> fails).
\<close>

definition EventCallback_onAccept ::
  "accept_arg \<Rightarrow> 'd \<Rightarrow> bytes \<Rightarrow> int \<Rightarrow> bytes option \<Rightarrow> 'd event_arg \<Rightarrow> 'd event_arg res" where
  "EventCallback_onAccept ac d ip port serverIP ea =
     res_bind (SessionManager_allocKey (ea_mSessionManager ea)) (\<lambda>(key, seq, mgr).
       if key = 0 then Inl AssertFail
       else
         let sid = \<lparr> sid_mKey = key, sid_mSeq = the seq \<rparr>;
             o1 = ea_nextObj ea;
             s0 = Session_new d sid;
             req = Request_setClientPort port (Request_setClientIP ip (ss_mRequest s0));
             req' = (case serverIP of None \<Rightarrow> req | Some a \<Rightarrow> Request_setServerIP a req);
             s = s0\<lparr> ss_mRequest := req' \<rparr>
         in res_bind (SessionManager_put key (the seq) o1 mgr) (\<lambda>mgr'.
           let ea1 = (set_session o1 s ea)\<lparr> ea_mSessionManager := mgr', ea_nextObj := o1 + 1 \<rparr>
           in if ac_mMaxConnections ac < SessionManager_getCount mgr' \<or>
                 ac_mReqQueueSize ac \<le> int (length (ea_mInputResultQueue ea))
              then
                let i = ea_nextMsg ea;
                    msg = Message_append [CR, LF] (Message_append (cstr (ac_mRefusedMsg ac)) (Message_new 0));
                    s' = EventCallback_addEvent True False (s\<lparr> ss_mOutList := [i], ss_mStatus := eExit \<rparr>)
                in Inr ((set_session o1 s' ea1)\<lparr> ea_msgs := (ea_msgs ea)(i \<mapsto> msg), ea_nextMsg := i + 1 \<rparr>)
              else EventHelper_doStart o1 ea1))"

text \<open>The decoder runs on the input buffer; \<open>doWork\<close> starts when it has a message.\<close>

type_synonym 'd decoder = "'d \<Rightarrow> bytes \<Rightarrow> bool \<times> 'd \<times> bytes"

definition decode_and_work :: "'d decoder \<Rightarrow> obj \<Rightarrow> 'd event_arg \<Rightarrow> 'd event_arg res" where
  "decode_and_work dec o1 ea =
     res_bind (get_session o1 ea) (\<lambda>s.
       case dec (rq_mDecoder (ss_mRequest s)) (ss_mInBuffer s) of (ok, d', rest) \<Rightarrow>
         let ea' = set_session o1 (s\<lparr> ss_mRequest := Request_setMsgDecoder d' (ss_mRequest s), ss_mInBuffer := rest \<rparr>) ea
         in if ok then EventHelper_doWork o1 ea' else Inr ea')"

definition update_session :: "obj \<Rightarrow> ('d session \<Rightarrow> 'd session) \<Rightarrow> 'd event_arg \<Rightarrow> 'd event_arg res" where
  "update_session o1 f ea = res_bind (get_session o1 ea) (\<lambda>s. Inr (set_session o1 (f s) ea))"

text \<open>
  What an event brings: data, a read that answers 0 or -1 while \<open>errno\<close> is \<open>EAGAIN\<close> (it may be left
  over from an earlier call) or holds another value, or the timeout of the event. \<open>Received\<close>
  nothing is an end of file with another value in \<open>errno\<close>.
\<close>

datatype read_event = Received bytes | ReadAgain | ReadError | ReadTimeout

definition EventCallback_onRead :: "'d decoder \<Rightarrow> obj \<Rightarrow> read_event \<Rightarrow> 'd event_arg \<Rightarrow> 'd event_arg res" where
  "EventCallback_onRead dec o1 e ea =
     res_bind (update_session o1 (\<lambda>s. s\<lparr> ss_readEv := False, ss_mReading := False \<rparr>) ea) (\<lambda>ea1.
     res_bind (get_session o1 ea1) (\<lambda>s.
       if e = ReadTimeout then (if \<not> ss_mRunning s then EventHelper_doTimeout o1 ea1 else Inr ea1)
       else case e of
         Received data \<Rightarrow>
           if data \<noteq> [] then
             let ea2 = set_session o1 (Session_addRead (length data) (s\<lparr> ss_mInBuffer := ss_mInBuffer s @ data \<rparr>)) ea1
             in res_bind (if \<not> ss_mRunning s then decode_and_work dec o1 ea2 else Inr ea2)
                  (update_session o1 (EventCallback_addEvent False True))
           else if \<not> ss_mRunning s then EventHelper_doError o1 ea1 else Inr ea1
       | ReadAgain \<Rightarrow> update_session o1 (EventCallback_addEvent False True) ea1
       | _ \<Rightarrow> if \<not> ss_mRunning s then EventHelper_doError o1 ea1 else Inr ea1))"

text \<open>
  \<open>onWrite\<close>: the answers of \<open>write_vec\<close> and whether \<open>errno\<close> is \<open>EAGAIN\<close> when \<open>transmit\<close> fails.
\<close>

datatype write_event = Writable "int list" bool | WriteTimeout

definition SP_MAX_IOV :: nat where "SP_MAX_IOV = 8"

definition run_transmit :: "obj \<Rightarrow> int list \<Rightarrow> 'd event_arg \<Rightarrow> (int \<times> 'd event_arg) res" where
  "run_transmit o1 rets ea =
     res_bind (get_session o1 ea) (\<lambda>s.
     res_bind (transmit SP_MAX_IOV (ss_mSid s) rets
         \<lparr> ot_store = ea_msgs ea, ot_mOutList = ss_mOutList s, ot_mOutOffset = ss_mOutOffset s,
           ot_completed = ea_mOutputResultQueue ea \<rparr>) (\<lambda>(len, iovs, out).
       Inr (len, (set_session o1 (s\<lparr> ss_mOutList := ot_mOutList out, ss_mOutOffset := ot_mOutOffset out \<rparr>) ea)
         \<lparr> ea_msgs := ot_store out, ea_mOutputResultQueue := ot_completed out \<rparr>)))"

text \<open>The first part of \<open>onWrite\<close>: \<open>ret\<close> and the state after the transmission.\<close>

definition write_part :: "obj \<Rightarrow> int list \<Rightarrow> bool \<Rightarrow> 'd event_arg \<Rightarrow> (int \<times> 'd event_arg) res" where
  "write_part o1 rets eagain ea =
     res_bind (get_session o1 ea) (\<lambda>s.
       if ss_mOutList s = [] then Inr (0, ea)
       else
         res_bind (run_transmit o1 rets ea) (\<lambda>(len, ea1).
         res_bind (get_session o1 ea1) (\<lambda>s1.
           if 0 < len then
             let ea2 = set_session o1 (Session_addWrite (nat len) s1) ea1
             in if ss_mOutList s1 \<noteq> []
                then res_bind (update_session o1 (EventCallback_addEvent True False) ea2) (\<lambda>ea3. Inr (0, ea3))
                else Inr (0, ea2)
           else if \<not> eagain then
             (if \<not> ss_mRunning s1 then res_bind (EventHelper_doError o1 ea1) (\<lambda>ea2. Inr (-1, ea2))
              else Inr (-1, ea1))
           else res_bind (update_session o1 (EventCallback_addEvent True False) ea1) (\<lambda>ea2. Inr (0, ea2)))))"

definition exit_part :: "obj \<Rightarrow> int \<Rightarrow> 'd event_arg \<Rightarrow> (int \<times> 'd event_arg) res" where
  "exit_part o1 ret ea =
     (if ret \<noteq> 0 then Inr (ret, ea)
      else res_bind (get_session o1 ea) (\<lambda>s.
        if ss_mOutList s = [] \<and> ss_mStatus s = eExit then
          (if \<not> ss_mRunning s then res_bind (EventHelper_doClose o1 ea) (\<lambda>ea'. Inr (-1, ea'))
           else Inr (-1, ea))
        else Inr (0, ea)))"

definition EventCallback_onWrite :: "'d decoder \<Rightarrow> obj \<Rightarrow> write_event \<Rightarrow> 'd event_arg \<Rightarrow> 'd event_arg res" where
  "EventCallback_onWrite dec o1 e ea =
     res_bind (update_session o1 (\<lambda>s. s\<lparr> ss_writeEv := False, ss_mWriting := False \<rparr>) ea) (\<lambda>ea1.
     res_bind (get_session o1 ea1) (\<lambda>s.
       case e of
         WriteTimeout \<Rightarrow> if \<not> ss_mRunning s then EventHelper_doTimeout o1 ea1 else Inr ea1
       | Writable rets eagain \<Rightarrow>
           res_bind (write_part o1 rets eagain ea1) (\<lambda>(ret, ea2).
           res_bind (exit_part o1 ret ea2) (\<lambda>(ret', ea3).
             if ret' = 0 then
               res_bind (get_session o1 ea3) (\<lambda>s3.
                 if \<not> ss_mRunning s3 then decode_and_work dec o1 ea3 else Inr ea3)
             else Inr ea3))))"

text \<open>
  The loop over the receivers of a message in \<open>onResponse\<close>, from index \<open>i - 1\<close> down to 0: a
  receiver that is gone, or that is about to exit and is not the sender, fails.
\<close>

fun deliver :: "sp_sid \<Rightarrow> msg_id \<Rightarrow> nat \<Rightarrow> 'd event_arg \<Rightarrow> 'd event_arg res" where
  "deliver fromSid i 0 ea = Inr ea"
| "deliver fromSid i (Suc n) ea =
     res_bind (get_msg (ea_msgs ea) i) (\<lambda>m.
       let sid = SidList_get (int n) (Message_getToList m);
           failed = ea\<lparr> ea_msgs := (ea_msgs ea)(i \<mapsto> Message_addFailure sid
             (Message_setToList (snd (SidList_take (int n) (Message_getToList m))) m)) \<rparr>
       in case find_session sid ea of
            None \<Rightarrow> deliver fromSid i n failed
          | Some o1 \<Rightarrow>
              res_bind (get_session o1 ea) (\<lambda>s.
                if \<not> sid_eq fromSid sid \<and> ss_mStatus s = eExit then deliver fromSid i n failed
                else deliver fromSid i n (set_session o1
                  (EventCallback_addEvent True False (s\<lparr> ss_mOutList := ss_mOutList s @ [i] \<rparr>)) ea)))"

text \<open>A message without data fails for all its receivers, taken from the end of the list.\<close>

function fail_all :: "sp_message \<Rightarrow> sp_message" where
  "fail_all m =
     (if 0 < SidList_getCount (Message_getToList m) then
        (case SidList_take LAST_INDEX (Message_getToList m) of (sid, l) \<Rightarrow>
           fail_all (Message_addFailure sid (Message_setToList l m)))
      else m)"
  by pat_completeness auto
termination
  by (relation "measure (\<lambda>m. length (Message_getToList m))")
    (auto simp: SidList_getCount_def SidList_take_def lst_take_last)

declare fail_all.simps [simp del]

definition process_message :: "sp_sid \<Rightarrow> sp_message \<Rightarrow> 'd event_arg \<Rightarrow> 'd event_arg res" where
  "process_message fromSid m ea =
     (let i = ea_nextMsg ea;
          ea1 = ea\<lparr> ea_msgs := (ea_msgs ea)(i \<mapsto> m), ea_nextMsg := i + 1 \<rparr>
      in res_bind
           (if 0 < Message_getTotalSize m then deliver fromSid i (nat (SidList_getCount (Message_getToList m))) ea1
            else Inr (ea1\<lparr> ea_msgs := (ea_msgs ea1)(i \<mapsto> fail_all m) \<rparr>)) (\<lambda>ea2.
         res_bind (get_msg (ea_msgs ea2) i) (\<lambda>m2.
           Inr (if SidList_getCount (Message_getToList m2) \<le> 0 then EventHelper_doCompletion i ea2 else ea2))))"

fun process_messages :: "sp_sid \<Rightarrow> sp_message list \<Rightarrow> 'd event_arg \<Rightarrow> 'd event_arg res" where
  "process_messages fromSid [] ea = Inr ea"
| "process_messages fromSid (m # ms) ea =
     res_bind (process_message fromSid m ea) (process_messages fromSid ms)"

fun close_sessions :: "sp_sid list \<Rightarrow> 'd event_arg \<Rightarrow> 'd event_arg res" where
  "close_sessions [] ea = Inr ea"
| "close_sessions (sid # sids) ea =
     (case find_session sid ea of
        None \<Rightarrow> close_sessions sids ea
      | Some o1 \<Rightarrow>
          res_bind (update_session o1 (\<lambda>s. EventCallback_addEvent True False (s\<lparr> ss_mStatus := eExit \<rparr>)) ea)
            (close_sessions sids))"

definition response_from :: "'d session \<Rightarrow> 'd session" where
  "response_from s =
     (let s1 = (if ss_mStatus s = eWouldExit then s\<lparr> ss_mStatus := eExit \<rparr> else s);
          s2 = (if ss_mStatus s1 \<noteq> eNormal then s1\<lparr> ss_readEv := False \<rparr> else s1)
      in EventCallback_addEvent False True (EventCallback_addEvent True False s2))"

definition EventCallback_onResponse :: "sp_response \<Rightarrow> 'd event_arg \<Rightarrow> 'd event_arg res" where
  "EventCallback_onResponse response ea =
     (let fromSid = rs_mFromSid response in
      res_bind
        (if \<not> EventHelper_isSystemSid fromSid then
           (case find_session fromSid ea of
              None \<Rightarrow> Inr ea
            | Some o1 \<Rightarrow> update_session o1 response_from ea)
         else Inr ea) (\<lambda>ea1.
      res_bind (process_messages fromSid (Response_takeAll response) ea1) (\<lambda>ea2.
        close_sessions (Response_getToCloseList response) ea2)))"

subsection \<open>The worker threads\<close>

text \<open>
  What a handler may answer: its result, the next decoder state of the request, and the messages
  and sids it put into the response. Messages must be well formed (a block's size matches its
  data).
\<close>

record 'd handler_result =
  hr_ret :: int
  hr_decoder :: 'd
  hr_messages :: "sp_message list"
  hr_toClose :: "sp_sid list"

definition handler_ok :: "'d handler_result \<Rightarrow> bool" where
  "handler_ok h \<longleftrightarrow> list_all msg_ok (hr_messages h)"

definition fill_response :: "'d handler_result \<Rightarrow> sp_response \<Rightarrow> sp_response" where
  "fill_response h r = r\<lparr> rs_mList := rs_mList r @ hr_messages h,
     rs_mToCloseList := Some (Response_getToCloseList r @ hr_toClose h) \<rparr>"

text \<open>
  One stage of one worker thread. \<open>worker\<close>: handle and \<open>setStatus\<close>, \<open>setRunning( 0 )\<close>, push;
  \<open>start\<close>: \<open>init\<close> (\<open>initRet\<close>) and the start handler, \<open>setStatus\<close>, \<open>setRunning( 0 )\<close>, push; the
  others push the response of their handler, if they have one, and delete the session.
\<close>

definition EventHelper_worker :: "'d handler_result \<Rightarrow> obj \<Rightarrow> 'd event_arg \<Rightarrow> (stage \<times> 'd event_arg) res" where
  "EventHelper_worker h o1 ea =
     res_bind (get_session o1 ea) (\<lambda>s.
       let response = fill_response h (Response_new (ss_mSid s));
           s' = s\<lparr> ss_mRequest := Request_setMsgDecoder (hr_decoder h) (ss_mRequest s) \<rparr>;
           s'' = (if hr_ret h \<noteq> 0 then s'\<lparr> ss_mStatus := eWouldExit \<rparr> else s')
       in Inr (Handled o1 response, set_session o1 s'' ea))"

definition EventHelper_start :: "int \<Rightarrow> 'd handler_result \<Rightarrow> obj \<Rightarrow> 'd event_arg \<Rightarrow> (stage \<times> 'd event_arg) res" where
  "EventHelper_start initRet h o1 ea =
     res_bind (get_session o1 ea) (\<lambda>s.
       let response = fill_response h (Response_new (ss_mSid s));
           s' = s\<lparr> ss_mRequest := Request_setMsgDecoder (hr_decoder h) (ss_mRequest s) \<rparr>;
           status = (if initRet = 0 \<and> hr_ret h = 0 then eNormal else eWouldExit);
           response' = (if initRet = 0 then response else Response_new (ss_mSid s))
       in Inr (Started o1 response' status, set_session o1 s' ea))"

definition push_response :: "sp_response \<Rightarrow> 'd event_arg \<Rightarrow> 'd event_arg" where
  "push_response r ea = ea\<lparr> ea_mResponseQueue := ea_mResponseQueue ea @ [r] \<rparr>"

definition EventHelper_error :: "'d handler_result \<Rightarrow> obj \<Rightarrow> 'd event_arg \<Rightarrow> (stage \<times> 'd event_arg) res" where
  "EventHelper_error h o1 ea =
     res_bind (get_session o1 ea) (\<lambda>s.
       Inr (Destroying o1, push_response (fill_response h (Response_new (ss_mSid s))) ea))"

definition EventHelper_timeout :: "'d handler_result \<Rightarrow> obj \<Rightarrow> 'd event_arg \<Rightarrow> (stage \<times> 'd event_arg) res" where
  "EventHelper_timeout h o1 ea =
     res_bind (get_session o1 ea) (\<lambda>s.
       Inr (Destroying o1, push_response (fill_response h (Response_new (ss_mSid s))) ea))"

definition EventHelper_myclose :: "obj \<Rightarrow> 'd event_arg \<Rightarrow> (stage \<times> 'd event_arg) res" where
  "EventHelper_myclose o1 ea = res_bind (get_session o1 ea) (\<lambda>_. Inr (Destroying o1, ea))"

fun worker_stage :: "int \<Rightarrow> 'd handler_result \<Rightarrow> stage \<Rightarrow> 'd event_arg \<Rightarrow> (stage option \<times> 'd event_arg) res" where
  "worker_stage initRet h (Taken (Worker o1)) ea = res_bind (EventHelper_worker h o1 ea) (\<lambda>(st, ea'). Inr (Some st, ea'))"
| "worker_stage initRet h (Taken (Start o1)) ea = res_bind (EventHelper_start initRet h o1 ea) (\<lambda>(st, ea'). Inr (Some st, ea'))"
| "worker_stage initRet h (Taken (Error o1)) ea = res_bind (EventHelper_error h o1 ea) (\<lambda>(st, ea'). Inr (Some st, ea'))"
| "worker_stage initRet h (Taken (Timeout o1)) ea = res_bind (EventHelper_timeout h o1 ea) (\<lambda>(st, ea'). Inr (Some st, ea'))"
| "worker_stage initRet h (Taken (Close o1)) ea = res_bind (EventHelper_myclose o1 ea) (\<lambda>(st, ea'). Inr (Some st, ea'))"
| "worker_stage initRet h (Handled o1 r) ea =
     res_bind (update_session o1 (\<lambda>s. s\<lparr> ss_mRunning := False \<rparr>) ea) (\<lambda>ea'. Inr (Some (Pushing r), ea'))"
| "worker_stage initRet h (Started o1 r status) ea =
     res_bind (update_session o1 (\<lambda>s. s\<lparr> ss_mStatus := status \<rparr>) ea) (\<lambda>ea'. Inr (Some (StatusSet o1 r), ea'))"
| "worker_stage initRet h (StatusSet o1 r) ea =
     res_bind (update_session o1 (\<lambda>s. s\<lparr> ss_mRunning := False \<rparr>) ea) (\<lambda>ea'. Inr (Some (Pushing r), ea'))"
| "worker_stage initRet h (Pushing r) ea = Inr (None, push_response r ea)"
| "worker_stage initRet h (Destroying o1) ea =
     res_bind (get_session o1 ea) (\<lambda>_. Inr (None, ea\<lparr> ea_sessions := (ea_sessions ea)(o1 := None) \<rparr>))"

subsection \<open>Interleaving\<close>

datatype 'd server_step =
    Accept 'd bytes int "bytes option"
  | Readable obj read_event
  | Writeable obj write_event
  | TakeResponse
  | TakeTask
  | WorkerStage nat int "'d handler_result"
  | TakeCompleted

text \<open>
  A step that is not enabled (an event that is not added, an empty queue) leaves the state alone:
  \<open>None\<close>. The completion handler is the default one, which deletes the message.
\<close>

definition server_step :: "accept_arg \<Rightarrow> 'd decoder \<Rightarrow> 'd server_step \<Rightarrow> 'd event_arg \<Rightarrow> 'd event_arg res option" where
  "server_step ac dec step ea =
     (case step of
        Accept d ip port serverIP \<Rightarrow> Some (EventCallback_onAccept ac d ip port serverIP ea)
      | Readable o1 e \<Rightarrow>
          (case ea_sessions ea o1 of
             Some s \<Rightarrow> if ss_readEv s then Some (EventCallback_onRead dec o1 e ea) else None
           | None \<Rightarrow> None)
      | Writeable o1 e \<Rightarrow>
          (case ea_sessions ea o1 of
             Some s \<Rightarrow> if ss_writeEv s then Some (EventCallback_onWrite dec o1 e ea) else None
           | None \<Rightarrow> None)
      | TakeResponse \<Rightarrow>
          (case ea_mResponseQueue ea of
             [] \<Rightarrow> None
           | r # rs \<Rightarrow> Some (EventCallback_onResponse r (ea\<lparr> ea_mResponseQueue := rs \<rparr>)))
      | TakeTask \<Rightarrow>
          (case ea_mInputResultQueue ea of
             [] \<Rightarrow> None
           | t # ts \<Rightarrow> Some (Inr (ea\<lparr> ea_mInputResultQueue := ts, ea_active := ea_active ea @ [Taken t] \<rparr>)))
      | WorkerStage k initRet h \<Rightarrow>
          if k < length (ea_active ea) \<and> handler_ok h then
            Some (res_bind (worker_stage initRet h (ea_active ea ! k) ea) (\<lambda>(st, ea').
              Inr (ea'\<lparr> ea_active := (case st of None \<Rightarrow> del_at k (ea_active ea')
                                           | Some st' \<Rightarrow> (ea_active ea')[k := st']) \<rparr>)))
          else None
      | TakeCompleted \<Rightarrow>
          (case ea_mOutputResultQueue ea of
             [] \<Rightarrow> None
           | i # is \<Rightarrow> Some (res_bind (get_msg (ea_msgs ea) i) (\<lambda>_.
               Inr (ea\<lparr> ea_mOutputResultQueue := is, ea_msgs := (ea_msgs ea)(i := None) \<rparr>)))))"

fun server_run :: "accept_arg \<Rightarrow> 'd decoder \<Rightarrow> 'd server_step list \<Rightarrow> 'd event_arg \<Rightarrow> 'd event_arg res" where
  "server_run ac dec [] ea = Inr ea"
| "server_run ac dec (st # sts) ea =
     (case server_step ac dec st ea of
        None \<Rightarrow> server_run ac dec sts ea
      | Some r \<Rightarrow> res_bind r (server_run ac dec sts))"

end
