(* ===== verification/SP_EventInv.thy ===== *)
theory SP_EventInv
  imports SP_EventCb
begin

text \<open>
  The invariant of the event loop and its worker threads, and that every step keeps it: who may
  still touch a session, and which messages are still wanted by a session.
\<close>

subsection \<open>Who holds a session\<close>

text \<open>
  A task or a worker stage holds the session it will touch; the flag says that it will delete it.
\<close>

fun task_holder :: "task \<Rightarrow> obj \<times> bool" where
  "task_holder (Worker o1) = (o1, False)"
| "task_holder (Start o1) = (o1, False)"
| "task_holder (Error o1) = (o1, True)"
| "task_holder (Timeout o1) = (o1, True)"
| "task_holder (Close o1) = (o1, True)"

fun stage_holder :: "stage \<Rightarrow> (obj \<times> bool) option" where
  "stage_holder (Taken t) = Some (task_holder t)"
| "stage_holder (Handled o1 r) = Some (o1, False)"
| "stage_holder (Started o1 r st) = Some (o1, False)"
| "stage_holder (StatusSet o1 r) = Some (o1, False)"
| "stage_holder (Pushing r) = None"
| "stage_holder (Destroying o1) = Some (o1, True)"

definition opt_mset :: "'a option \<Rightarrow> 'a multiset" where
  "opt_mset x = (case x of None \<Rightarrow> {#} | Some y \<Rightarrow> {#y#})"

definition holders :: "'d event_arg \<Rightarrow> (obj \<times> bool) multiset" where
  "holders ea = mset (map task_holder (ea_mInputResultQueue ea)) +
     sum_list (map (\<lambda>st. opt_mset (stage_holder st)) (ea_active ea))"

definition holds :: "'d event_arg \<Rightarrow> obj \<Rightarrow> (obj \<times> bool) multiset" where
  "holds ea o1 = filter_mset (\<lambda>h. fst h = o1) (holders ea)"

definition in_table :: "'d event_arg \<Rightarrow> obj \<Rightarrow> 'd session \<Rightarrow> bool" where
  "in_table ea o1 s \<longleftrightarrow> find_session (ss_mSid s) ea = Some o1"

definition only_sid :: "'d event_arg \<Rightarrow> obj \<Rightarrow> sp_sid \<Rightarrow> bool" where
  "only_sid ea o1 sid0 \<longleftrightarrow> (\<forall>sid. find_session sid ea = Some o1 \<longrightarrow> sid = sid0)"

definition no_sid :: "'d event_arg \<Rightarrow> obj \<Rightarrow> bool" where
  "no_sid ea o1 \<longleftrightarrow> (\<forall>sid. find_session sid ea \<noteq> Some o1)"

text \<open>
  A session in the table is held by one worker exactly while it is running, and by nobody else; a
  session outside the table has one holder, which will delete it; a deleted session has no holder
  and is not in the table. The parameter \<open>exact\<close> is set for the server on libevent: there a
  session outside the table has no event and no output either, and the books of the messages
  balance. The server on completion ports (\<open>SP_IocpInv\<close>) keeps the rest.
\<close>

definition obj_inv :: "bool \<Rightarrow> 'd event_arg \<Rightarrow> obj \<Rightarrow> bool" where
  "obj_inv exact ea o1 \<longleftrightarrow>
     (case ea_sessions ea o1 of
        None \<Rightarrow> holds ea o1 = {#} \<and> no_sid ea o1
      | Some s \<Rightarrow>
          only_sid ea o1 (ss_mSid s) \<and>
          (if in_table ea o1 s then holds ea o1 = (if ss_mRunning s then {#(o1, False)#} else {#})
           else holds ea o1 = {#(o1, True)#} \<and>
             (exact \<longrightarrow> \<not> ss_readEv s \<and> \<not> ss_writeEv s \<and> ss_mOutList s = [])))"

definition stage_response :: "stage \<Rightarrow> sp_response option" where
  "stage_response st = (case st of Handled _ r \<Rightarrow> Some r | Started _ r _ \<Rightarrow> Some r
     | StatusSet _ r \<Rightarrow> Some r | Pushing r \<Rightarrow> Some r | _ \<Rightarrow> None)"

definition response_ok :: "sp_response \<Rightarrow> bool" where
  "response_ok r \<longleftrightarrow> list_all msg_ok (rs_mList r)"

definition sess_inv :: "bool \<Rightarrow> 'd event_arg \<Rightarrow> bool" where
  "sess_inv exact ea \<longleftrightarrow> table_inv (ea_mSessionManager ea) \<and> (\<forall>o1. obj_inv exact ea o1) \<and>
     (\<forall>o1 \<ge> ea_nextObj ea. ea_sessions ea o1 = None) \<and>
     list_all response_ok (ea_mResponseQueue ea) \<and>
     list_all (\<lambda>st. \<forall>r. stage_response st = Some r \<longrightarrow> response_ok r) (ea_active ea)"

subsection \<open>Who still wants a message\<close>

text \<open>How often a message stands in the output list of the session that a sid names.\<close>

definition occ_of :: "'d event_arg \<Rightarrow> msg_id \<Rightarrow> sp_sid \<Rightarrow> nat" where
  "occ_of ea i sid =
     (case find_session sid ea of None \<Rightarrow> 0
      | Some o1 \<Rightarrow> (case ea_sessions ea o1 of None \<Rightarrow> 0 | Some s \<Rightarrow> count_list (ss_mOutList s) i))"

text \<open>
  The to list of a stored message holds each sid as often as the message stands in that session's
  output list; only the refusal of \<open>onAccept\<close> has an empty to list and stands in one output list.
  A message that no session wants is in the output result queue, once, and no other message is.
  When \<open>exact\<close> is not set, messages can be lost, so the equalities are bounds.
\<close>

definition agree :: "bool \<Rightarrow> nat \<Rightarrow> nat \<Rightarrow> bool" where
  "agree exact a b \<longleftrightarrow> (if exact then a = b else a \<le> b)"

lemma agree_simps [simp]:
  "agree True a b \<longleftrightarrow> a = b" "agree False a b \<longleftrightarrow> a \<le> b" "agree exact a a" "agree exact a 0 \<longleftrightarrow> a = 0"
  by (auto simp: agree_def)

lemma agree_le: "agree exact a b \<Longrightarrow> a \<le> b"
  by (simp add: agree_def split: if_splits)

definition msg_inv :: "bool \<Rightarrow> msg_store \<Rightarrow> msg_id list \<Rightarrow> (msg_id \<Rightarrow> sp_sid \<Rightarrow> nat) \<Rightarrow> msg_id \<Rightarrow> bool" where
  "msg_inv exact st outq occ i \<longleftrightarrow>
     (case st i of
        None \<Rightarrow> (\<forall>sid. occ i sid = 0) \<and> i \<notin> set outq
      | Some m \<Rightarrow> msg_ok m \<and>
          ((\<forall>sid. agree exact (occ i sid) (count_list (Message_getToList m) sid)) \<or>
           Message_getToList m = [] \<and> (\<exists>s0. \<forall>sid. agree exact (occ i sid) (if sid = s0 then 1 else 0))) \<and>
          agree exact (count_list outq i) (if Message_getToList m = [] \<and> (\<forall>sid. occ i sid = 0) then 1 else 0))"

definition msgs_inv :: "bool \<Rightarrow> 'd event_arg \<Rightarrow> bool" where
  "msgs_inv exact ea \<longleftrightarrow> (\<forall>i. msg_inv exact (ea_msgs ea) (ea_mOutputResultQueue ea) (occ_of ea) i) \<and>
     (\<forall>i \<ge> ea_nextMsg ea. ea_msgs ea i = None)"

definition server_inv :: "bool \<Rightarrow> 'd event_arg \<Rightarrow> bool" where
  "server_inv exact ea \<longleftrightarrow> sess_inv exact ea \<and> msgs_inv exact ea"

subsection \<open>Frame lemmas\<close>

lemma ea_simps [simp]:
  "ea_sessions (set_session o1 s ea) = (ea_sessions ea)(o1 \<mapsto> s)"
  "ea_mSessionManager (set_session o1 s ea) = ea_mSessionManager ea"
  "ea_msgs (set_session o1 s ea) = ea_msgs ea"
  "ea_mInputResultQueue (set_session o1 s ea) = ea_mInputResultQueue ea"
  "ea_mOutputResultQueue (set_session o1 s ea) = ea_mOutputResultQueue ea"
  "ea_mResponseQueue (set_session o1 s ea) = ea_mResponseQueue ea"
  "ea_active (set_session o1 s ea) = ea_active ea"
  "ea_nextObj (set_session o1 s ea) = ea_nextObj ea"
  "ea_nextMsg (set_session o1 s ea) = ea_nextMsg ea"
  "ea_sessions (push_task t ea) = ea_sessions ea"
  "ea_mSessionManager (push_task t ea) = ea_mSessionManager ea"
  "ea_msgs (push_task t ea) = ea_msgs ea"
  "ea_mInputResultQueue (push_task t ea) = ea_mInputResultQueue ea @ [t]"
  "ea_mOutputResultQueue (push_task t ea) = ea_mOutputResultQueue ea"
  "ea_mResponseQueue (push_task t ea) = ea_mResponseQueue ea"
  "ea_active (push_task t ea) = ea_active ea"
  "ea_nextObj (push_task t ea) = ea_nextObj ea"
  "ea_nextMsg (push_task t ea) = ea_nextMsg ea"
  by (simp_all add: set_session_def push_task_def)

lemma find_session_simps [simp]:
  "find_session sid (set_session o1 s ea) = find_session sid ea"
  "find_session sid (push_task t ea) = find_session sid ea"
  "find_session sid (ea\<lparr> ea_msgs := st \<rparr>) = find_session sid ea"
  "find_session sid (ea\<lparr> ea_mOutputResultQueue := q \<rparr>) = find_session sid ea"
  "find_session sid (ea\<lparr> ea_mResponseQueue := rq \<rparr>) = find_session sid ea"
  "find_session sid (ea\<lparr> ea_mInputResultQueue := iq \<rparr>) = find_session sid ea"
  "find_session sid (ea\<lparr> ea_active := a \<rparr>) = find_session sid ea"
  "find_session sid (ea\<lparr> ea_nextMsg := n \<rparr>) = find_session sid ea"
  "find_session sid (ea\<lparr> ea_nextObj := n \<rparr>) = find_session sid ea"
  "find_session sid (ea\<lparr> ea_sessions := ss \<rparr>) = find_session sid ea"
  "find_session sid (ea\<lparr> ea_mSessionManager := m \<rparr>) = session_of m sid"
  by (simp_all add: find_session_def)

lemma holders_simps [simp]:
  "holders (set_session o1 s ea) = holders ea"
  "holders (push_task t ea) = add_mset (task_holder t) (holders ea)"
  "holders (ea\<lparr> ea_msgs := st \<rparr>) = holders ea"
  "holders (ea\<lparr> ea_mOutputResultQueue := q \<rparr>) = holders ea"
  "holders (ea\<lparr> ea_mResponseQueue := rq \<rparr>) = holders ea"
  "holders (ea\<lparr> ea_nextMsg := n \<rparr>) = holders ea"
  "holders (ea\<lparr> ea_nextObj := n \<rparr>) = holders ea"
  "holders (ea\<lparr> ea_sessions := ss \<rparr>) = holders ea"
  "holders (ea\<lparr> ea_mSessionManager := m \<rparr>) = holders ea"
  by (simp_all add: holders_def)

lemma holds_eqI: "holders ea' = holders ea \<Longrightarrow> holds ea' o1 = holds ea o1"
  by (simp add: holds_def)

lemma obj_inv_cong:
  assumes "ea_sessions ea' o1 = ea_sessions ea o1" "holds ea' o1 = holds ea o1"
    "\<And>sid. find_session sid ea' = find_session sid ea"
  shows "obj_inv exact ea' o1 = obj_inv exact ea o1"
  unfolding obj_inv_def in_table_def only_sid_def no_sid_def assms by (rule refl)

text \<open>The session invariant looks at the table, the sessions, the holders and the responses only.\<close>

lemma sess_inv_cong:
  assumes "ea_mSessionManager ea' = ea_mSessionManager ea" "ea_sessions ea' = ea_sessions ea"
    "holders ea' = holders ea" "ea_nextObj ea' = ea_nextObj ea"
    "ea_mResponseQueue ea' = ea_mResponseQueue ea" "ea_active ea' = ea_active ea"
  shows "sess_inv exact ea' = sess_inv exact ea"
proof -
  have "obj_inv exact ea' o1 = obj_inv exact ea o1" for o1
    using assms by (intro obj_inv_cong) (simp_all add: holds_def find_session_def)
  then show ?thesis using assms by (simp add: sess_inv_def)
qed

lemma sess_inv_simps [simp]:
  "sess_inv exact (ea\<lparr> ea_msgs := st \<rparr>) = sess_inv exact ea"
  "sess_inv exact (ea\<lparr> ea_mOutputResultQueue := q \<rparr>) = sess_inv exact ea"
  "sess_inv exact (ea\<lparr> ea_nextMsg := n \<rparr>) = sess_inv exact ea"
  by (rule sess_inv_cong; simp)+

lemma sess_inv_obj: "sess_inv exact ea \<Longrightarrow> obj_inv exact ea o1"
  by (simp add: sess_inv_def)

lemma find_session_object:
  assumes "sess_inv exact ea" "find_session sid ea = Some o1"
  obtains s where "ea_sessions ea o1 = Some s" "ss_mSid s = sid" "in_table ea o1 s"
  using sess_inv_obj [OF assms(1), of o1] assms(2)
  by (cases "ea_sessions ea o1") (auto simp: obj_inv_def in_table_def no_sid_def only_sid_def)

lemma armed_in_table:
  "sess_inv True ea \<Longrightarrow> ea_sessions ea o1 = Some s \<Longrightarrow> ss_readEv s \<or> ss_writeEv s \<Longrightarrow> in_table ea o1 s"
  using sess_inv_obj [of True ea o1] by (auto simp: obj_inv_def split: if_splits)

lemma frame_simps [simp]:
  "only_sid (set_session o2 s2 ea) = only_sid ea" "no_sid (set_session o2 s2 ea) = no_sid ea"
  "in_table (set_session o2 s2 ea) = in_table ea" "holds (set_session o2 s2 ea) = holds ea"
  "only_sid (push_task t ea) = only_sid ea" "no_sid (push_task t ea) = no_sid ea"
  "in_table (push_task t ea) = in_table ea"
  by (simp_all add: only_sid_def no_sid_def in_table_def holds_def fun_eq_iff)

lemma obj_inv_in:
  "ea_sessions ea o1 = Some s \<Longrightarrow> in_table ea o1 s \<Longrightarrow>
     obj_inv exact ea o1 \<longleftrightarrow> only_sid ea o1 (ss_mSid s) \<and>
       holds ea o1 = (if ss_mRunning s then {#(o1, False)#} else {#})"
  by (simp only: obj_inv_def option.case if_True)

lemma obj_inv_out:
  "ea_sessions ea o1 = Some s \<Longrightarrow> \<not> in_table ea o1 s \<Longrightarrow>
     obj_inv exact ea o1 \<longleftrightarrow> only_sid ea o1 (ss_mSid s) \<and>
       holds ea o1 = {#(o1, True)#} \<and> (exact \<longrightarrow> \<not> ss_readEv s \<and> \<not> ss_writeEv s \<and> ss_mOutList s = [])"
  by (simp only: obj_inv_def option.case if_False)

lemma obj_inv_gone:
  "ea_sessions ea o1 = None \<Longrightarrow> obj_inv exact ea o1 \<longleftrightarrow> holds ea o1 = {#} \<and> no_sid ea o1"
  by (simp only: obj_inv_def option.case)

text \<open>A change of a session in the table that keeps its sid and its running flag.\<close>

lemma sess_inv_update:
  assumes inv: "sess_inv exact ea" and s: "ea_sessions ea o1 = Some s" "in_table ea o1 s"
    and same: "ss_mSid s' = ss_mSid s" "ss_mRunning s' = ss_mRunning s"
  shows "sess_inv exact (set_session o1 s' ea)"
proof -
  have "obj_inv exact (set_session o1 s' ea) o2" for o2
  proof (cases "o2 = o1")
    case True
    have "in_table (set_session o1 s' ea) o1 s'" using s(2) same(1) by (simp add: in_table_def)
    then have "obj_inv exact (set_session o1 s' ea) o1 = obj_inv exact ea o1"
      using s same by (simp add: obj_inv_in)
    then show ?thesis using True sess_inv_obj [OF inv, of o1] by simp
  next
    case False
    then have "obj_inv exact (set_session o1 s' ea) o2 = obj_inv exact ea o2" by (intro obj_inv_cong) (simp_all add: holds_def)
    then show ?thesis using sess_inv_obj [OF inv] by simp
  qed
  then show ?thesis using inv s by (auto simp: sess_inv_def)
qed

lemma occ_of_update:
  assumes "sess_inv exact ea" "ea_sessions ea o1 = Some s" "in_table ea o1 s" "ss_mSid s' = ss_mSid s"
  shows "occ_of (set_session o1 s' ea) i sid =
    (if sid = ss_mSid s then count_list (ss_mOutList s') i else occ_of ea i sid)"
proof (cases "find_session sid ea = Some o1")
  case True
  with sess_inv_obj [OF assms(1), of o1] assms(2) have "sid = ss_mSid s" by (simp add: obj_inv_def only_sid_def)
  with True show ?thesis by (simp add: occ_of_def)
next
  case False
  with assms(3) have "sid \<noteq> ss_mSid s" by (auto simp: in_table_def)
  then show ?thesis using False by (auto simp: occ_of_def split: option.splits)
qed

lemma occ_of_same:
  assumes "sess_inv exact ea" "ea_sessions ea o1 = Some s" "in_table ea o1 s" "ss_mSid s' = ss_mSid s" "ss_mOutList s' = ss_mOutList s"
  shows "occ_of (set_session o1 s' ea) = occ_of ea"
  using assms by (auto simp: fun_eq_iff occ_of_update) (auto simp: occ_of_def in_table_def)

lemma occ_of_cong:
  assumes "ea_sessions ea' = ea_sessions ea" "\<And>sid. find_session sid ea' = find_session sid ea"
  shows "occ_of ea' = occ_of ea"
  unfolding occ_of_def assms by (rule refl)

lemma occ_of_simps [simp]:
  "occ_of (push_task t ea) = occ_of ea"
  "occ_of (ea\<lparr> ea_msgs := st \<rparr>) = occ_of ea"
  "occ_of (ea\<lparr> ea_mOutputResultQueue := q \<rparr>) = occ_of ea"
  "occ_of (ea\<lparr> ea_mResponseQueue := rq \<rparr>) = occ_of ea"
  "occ_of (ea\<lparr> ea_mInputResultQueue := iq \<rparr>) = occ_of ea"
  "occ_of (ea\<lparr> ea_active := a \<rparr>) = occ_of ea"
  "occ_of (ea\<lparr> ea_nextMsg := n \<rparr>) = occ_of ea"
  "occ_of (ea\<lparr> ea_nextObj := n \<rparr>) = occ_of ea"
  by (rule occ_of_cong; simp)+

lemma msgs_inv_cong:
  assumes "ea_msgs ea' = ea_msgs ea" "ea_mOutputResultQueue ea' = ea_mOutputResultQueue ea"
    "occ_of ea' = occ_of ea" "ea_nextMsg ea' = ea_nextMsg ea"
  shows "msgs_inv exact ea' = msgs_inv exact ea"
  using assms by (simp add: msgs_inv_def)

text \<open>The usual small update: flags, buffers, status or request of a session in the table.\<close>

lemma server_inv_update:
  assumes "server_inv exact ea" "ea_sessions ea o1 = Some s" "in_table ea o1 s"
    and "ss_mSid s' = ss_mSid s" "ss_mRunning s' = ss_mRunning s" "ss_mOutList s' = ss_mOutList s"
  shows "server_inv exact (set_session o1 s' ea)"
proof -
  have "sess_inv exact ea" using assms(1) by (simp add: server_inv_def)
  then have "sess_inv exact (set_session o1 s' ea)" "occ_of (set_session o1 s' ea) = occ_of ea"
    using assms sess_inv_update occ_of_same by blast+
  then show ?thesis using assms(1) msgs_inv_cong [of "set_session o1 s' ea" ea] by (simp add: server_inv_def)
qed

subsection \<open>Messages leave the output lists\<close>

definition occ_upd :: "(msg_id \<Rightarrow> sp_sid \<Rightarrow> nat) \<Rightarrow> sp_sid \<Rightarrow> msg_id list \<Rightarrow> msg_id \<Rightarrow> sp_sid \<Rightarrow> nat" where
  "occ_upd occ sid l i x = (if x = sid then count_list l i else occ i x)"

lemma occ_of_set:
  assumes "sess_inv exact ea" "ea_sessions ea o1 = Some s" "in_table ea o1 s" "ss_mSid s' = ss_mSid s"
  shows "occ_of (set_session o1 s' ea) = occ_upd (occ_of ea) (ss_mSid s) (ss_mOutList s')"
  using occ_of_update [OF assms] by (simp add: fun_eq_iff occ_upd_def)

lemma occ_of_self:
  assumes "sess_inv exact ea" "ea_sessions ea o1 = Some s" "in_table ea o1 s"
  shows "occ_of ea = occ_upd (occ_of ea) (ss_mSid s) (ss_mOutList s)"
  using occ_of_same [OF assms, of s] occ_of_set [OF assms, of s] by simp

lemma occ_upd_upd [simp]: "occ_upd (occ_upd occ sid l) sid l' = occ_upd occ sid l'"
  by (simp add: fun_eq_iff occ_upd_def)

lemma getCount_le0 [simp]: "SidList_getCount l \<le> 0 \<longleftrightarrow> l = []"
  by (simp add: SidList_getCount_def)

lemma count_list_zero: "(\<forall>x. count_list l x = 0) \<longleftrightarrow> l = []"
  by (cases l) (simp_all add: count_list_0_iff, blast)

lemma msg_inv_cong:
  assumes "st' j = st j" "count_list q' j = count_list q j" "\<And>x. occ' j x = occ j x"
  shows "msg_inv exact st' q' occ' j = msg_inv exact st q occ j"
proof -
  have "j \<in> set q' \<longleftrightarrow> j \<in> set q" using assms(2) by (metis count_list_0_iff)
  then show ?thesis by (simp add: msg_inv_def assms split: option.splits)
qed

text \<open>One occurrence leaves the output list of a session: the sid leaves the to list with it.\<close>

lemma msg_inv_done:
  assumes inv: "\<forall>j. msg_inv exact st q (occ_upd occ sid l) j" and m: "st i = Some m"
    and l: "\<And>j. count_list l j = count_list l' j + (if j = i then 1 else 0)"
  shows "\<forall>j. msg_inv exact (st(i \<mapsto> Message_done ok sid m))
    (if SidList_getCount (Message_getToList (Message_done ok sid m)) \<le> 0 then q @ [i] else q) (occ_upd occ sid l') j"
proof
  fix j
  show "msg_inv exact (st(i \<mapsto> Message_done ok sid m))
    (if SidList_getCount (Message_getToList (Message_done ok sid m)) \<le> 0 then q @ [i] else q) (occ_upd occ sid l') j"
  proof (cases "j = i")
    case False
    then have "msg_inv exact (st(i \<mapsto> Message_done ok sid m))
      (if SidList_getCount (Message_getToList (Message_done ok sid m)) \<le> 0 then q @ [i] else q) (occ_upd occ sid l') j =
      msg_inv exact st q (occ_upd occ sid l) j"
      using l [of j] by (intro msg_inv_cong) (simp_all add: occ_upd_def)
    then show ?thesis using inv by simp
  next
    case True
    let ?t = "Message_getToList m" and ?o = "occ_upd occ sid l i" and ?o' = "occ_upd occ sid l' i"
    have o: "?o x = ?o' x + (if x = sid then 1 else 0)" for x using l [of i] by (simp add: occ_upd_def)
    then have pos: "0 < ?o sid" by simp
    from inv m have i: "msg_ok m" "(\<forall>x. agree exact (?o x) (count_list ?t x)) \<or>
        ?t = [] \<and> (\<exists>s0. \<forall>x. agree exact (?o x) (if x = s0 then 1 else 0))"
      "agree exact (count_list q i) (if ?t = [] \<and> (\<forall>x. ?o x = 0) then 1 else 0)"
      using spec [OF inv, of i] unfolding msg_inv_def m option.case by blast+
    from pos have nz: "\<not> (?t = [] \<and> (\<forall>x. ?o x = 0))" by (auto dest: spec [of _ sid])
    have q: "count_list q i = 0" using i(3) unfolding if_not_P [OF nz] by simp
    from i(2) have bal: "\<forall>x. agree exact (?o' x) (count_list (remove1 sid ?t) x)"
    proof
      assume a: "\<forall>x. agree exact (?o x) (count_list ?t x)"
      have c: "0 < count_list ?t sid" using agree_le [OF a [rule_format, of sid]] pos by linarith
      then have "sid \<in> set ?t" by (metis count_list_0_iff less_numeral_extra(3))
      with c have "count_list ?t x = count_list (remove1 sid ?t) x + (if x = sid then 1 else 0)" for x
        by (auto simp: count_list_remove1)
      then show ?thesis using a o by (auto simp: agree_def split: if_splits)
    next
      assume "?t = [] \<and> (\<exists>s0. \<forall>x. agree exact (?o x) (if x = s0 then 1 else 0))"
      then obtain s0 where t: "?t = []" and s0: "\<And>x. agree exact (?o x) (if x = s0 then 1 else 0)" by blast
      from agree_le [OF s0 [of sid]] pos have "s0 = sid" by (auto split: if_splits)
      then have "?o' x = 0" for x using agree_le [OF s0 [of x]] o [of x] by (simp split: if_splits)
      then show ?thesis using t by simp
    qed
    then have "remove1 sid ?t = [] \<Longrightarrow> \<forall>x. ?o' x = 0" by simp
    then show ?thesis using True i(1) q bal by (auto simp: msg_inv_def)
  qed
qed

lemma msg_inv_stored:
  assumes "\<forall>j. msg_inv exact st q (occ_upd occ sid l) j" "i \<in> set l"
  shows "\<exists>m. st i = Some m \<and> msg_ok m"
proof -
  have "occ_upd occ sid l i sid \<noteq> 0" using assms(2) by (simp add: occ_upd_def count_list_0_iff)
  then show ?thesis using assms(1) by (auto simp: msg_inv_def dest!: spec [of _ i] split: option.splits)
qed

lemma out_advance_inv:
  "\<forall>j. msg_inv exact st q (occ_upd occ sid l) j \<Longrightarrow>
     \<exists>off' l' st' q'. out_advance sid off l st q = Inr (off', l', st', q') \<and>
       (\<forall>j. msg_inv exact st' q' (occ_upd occ sid l') j) \<and> (\<forall>j. st' j = None \<longleftrightarrow> st j = None)"
proof (induction l arbitrary: off st q)
  case (Cons i l)
  from msg_inv_stored [OF Cons.prems, of i] obtain m where m: "st i = Some m" by auto
  show ?case
  proof (cases "Message_getTotalSize m \<le> off")
    case True
    have "\<forall>j. msg_inv exact (st(i \<mapsto> Message_done True sid m))
      (if SidList_getCount (Message_getToList (Message_done True sid m)) \<le> 0 then q @ [i] else q) (occ_upd occ sid l) j"
      by (rule msg_inv_done [OF Cons.prems m]) simp
    from Cons.IH [OF this, of "off - Message_getTotalSize m"] obtain off' l' st' q' where
      "out_advance sid (off - Message_getTotalSize m) l (st(i \<mapsto> Message_done True sid m))
        (if SidList_getCount (Message_getToList (Message_done True sid m)) \<le> 0 then q @ [i] else q) = Inr (off', l', st', q')"
      "\<forall>j. msg_inv exact st' q' (occ_upd occ sid l') j" "\<forall>j. st' j = None \<longleftrightarrow> (st(i \<mapsto> Message_done True sid m)) j = None" by blast
    then show ?thesis using True m
      by (intro exI [of _ off'] exI [of _ l'] exI [of _ st'] exI [of _ q']) (simp add: get_msg_def Let_def)
  next
    case False
    then show ?thesis using Cons.prems m by (auto simp: get_msg_def)
  qed
qed simp

lemma transmit_inv:
  "\<forall>j. msg_inv exact (ot_store s) (ot_completed s) (occ_upd occ sid (ot_mOutList s)) j \<Longrightarrow>
     \<exists>len iovs s'. transmit mx sid rets s = Inr (len, iovs, s') \<and>
       (\<forall>j. msg_inv exact (ot_store s') (ot_completed s') (occ_upd occ sid (ot_mOutList s')) j) \<and>
       (\<forall>j. ot_store s' j = None \<longleftrightarrow> ot_store s j = None)"
proof (induction rets arbitrary: s)
  case Nil
  have "out_ok (ot_store s) (ot_mOutList s)"
    using msg_inv_stored [OF Nil.prems] by (auto simp: out_ok_def list_all_iff)
  from get_msgs_ok [OF this] obtain ms where ms: "get_msgs (ot_store s) (ot_mOutList s) = Inr ms" "list_all msg_ok ms" by blast
  from iov_prefix [OF ms(2), of mx "ot_mOutOffset s"] ms(1) Nil.prems show ?case
    by (auto simp: transmit.simps)
next
  case (Cons r rets)
  have "out_ok (ot_store s) (ot_mOutList s)"
    using msg_inv_stored [OF Cons.prems] by (auto simp: out_ok_def list_all_iff)
  from get_msgs_ok [OF this] obtain ms where ms: "get_msgs (ot_store s) (ot_mOutList s) = Inr ms" "list_all msg_ok ms" by blast
  from iov_prefix [OF ms(2), of mx "ot_mOutOffset s"] obtain start iov where
    iov: "iov_messages mx ms (ot_mOutOffset s, []) = Inr (start, iov)" by blast
  from out_advance_inv [OF Cons.prems, of "ot_mOutOffset s + nat r"] obtain off' l' st' q' where
    adv: "out_advance sid (ot_mOutOffset s + nat r) (ot_mOutList s) (ot_store s) (ot_completed s) = Inr (off', l', st', q')"
      "\<forall>j. msg_inv exact st' q' (occ_upd occ sid l') j" "\<forall>j. st' j = None \<longleftrightarrow> ot_store s j = None" by blast
  define s1 where "s1 = \<lparr> ot_store = st', ot_mOutList = l', ot_mOutOffset = off', ot_completed = q' \<rparr>"
  have "\<forall>j. msg_inv exact (ot_store s1) (ot_completed s1) (occ_upd occ sid (ot_mOutList s1)) j"
    using adv(2) by (simp add: s1_def)
  from Cons.IH [OF this] obtain len iovs s' where
    rec: "transmit mx sid rets s1 = Inr (len, iovs, s')"
      "\<forall>j. msg_inv exact (ot_store s') (ot_completed s') (occ_upd occ sid (ot_mOutList s')) j"
      "\<forall>j. ot_store s' j = None \<longleftrightarrow> ot_store s1 j = None" by blast
  show ?case
  proof (cases "r \<le> 0")
    case True
    with ms(1) iov Cons.prems show ?thesis by (subst transmit.simps) simp
  next
    case False
    show ?thesis
    proof (cases "l' = []")
      case True
      then have "transmit mx sid (r # rets) s = Inr (r, [iov], s1)"
        using False ms(1) iov adv(1) by (subst transmit.simps) (simp add: s1_def Let_def)
      then show ?thesis using adv(2,3) by (simp add: s1_def)
    next
      case more: False
      then have "transmit mx sid (r # rets) s = Inr (if 0 < len then r + len else r, iov # iovs, s')"
        using False ms(1) iov adv(1) rec(1) by (subst transmit.simps) (simp add: s1_def Let_def)
      then show ?thesis using rec(2,3) adv(3) by (simp add: s1_def)
    qed
  qed
qed

lemma fail_out_list_inv:
  "\<forall>j. msg_inv exact st q (occ_upd occ sid l) j \<Longrightarrow>
     \<exists>st' q'. fail_out_list sid l st q = Inr (st', q') \<and>
       (\<forall>j. msg_inv exact st' q' (occ_upd occ sid []) j) \<and> (\<forall>j. st' j = None \<longleftrightarrow> st j = None)"
proof (induction l arbitrary: st q rule: rev_induct)
  case Nil
  then show ?case
    by (subst fail_out_list.simps) (simp add: lst_take_def lst_index_def LAST_INDEX_def Let_def)
next
  case (snoc i l)
  from msg_inv_stored [OF snoc.prems, of i] obtain m where m: "st i = Some m" by auto
  have "\<forall>j. msg_inv exact (st(i \<mapsto> Message_done False sid m))
    (if SidList_getCount (Message_getToList (Message_done False sid m)) \<le> 0 then q @ [i] else q) (occ_upd occ sid l) j"
    by (rule msg_inv_done [OF snoc.prems m]) simp
  from snoc.IH [OF this] obtain st' q' where
    "fail_out_list sid l (st(i \<mapsto> Message_done False sid m))
       (if SidList_getCount (Message_getToList (Message_done False sid m)) \<le> 0 then q @ [i] else q) = Inr (st', q')"
    "\<forall>j. msg_inv exact st' q' (occ_upd occ sid []) j" "\<forall>j. st' j = None \<longleftrightarrow> (st(i \<mapsto> Message_done False sid m)) j = None" by blast
  then show ?case using m
    by (subst fail_out_list.simps) (simp add: lst_take_last get_msg_def Let_def)
qed

end
