(* ===== verification/SP_EventSteps.thy ===== *)
theory SP_EventSteps
  imports SP_EventInv
begin

text \<open>
  Every callback of the event loop and every stage of a worker keeps the invariant and runs
  without a fault; the only assertion that can fail is the one in \<open>onAccept\<close> when the session
  table is full.
\<close>

subsection \<open>Tasks\<close>

lemma holds_push:
  "holds (push_task t ea) o1 = (if fst (task_holder t) = o1 then add_mset (task_holder t) (holds ea o1) else holds ea o1)"
  by (simp add: holds_def)

lemma sess_inv_run:
  assumes inv: "sess_inv exact ea" and s: "ea_sessions ea o1 = Some s" "in_table ea o1 s" "\<not> ss_mRunning s"
    and s': "ss_mSid s' = ss_mSid s" "ss_mRunning s'" and t: "task_holder t = (o1, False)"
  shows "sess_inv exact (push_task t (set_session o1 s' ea))"
proof -
  have tab: "in_table ea o1 s'" using s(2) s'(1) by (simp add: in_table_def)
  have "obj_inv exact (push_task t (set_session o1 s' ea)) o2" for o2
  proof (cases "o2 = o1")
    case True
    have "only_sid ea o1 (ss_mSid s)" "holds ea o1 = {#}"
      using sess_inv_obj [OF inv, of o1] s by (simp_all add: obj_inv_in)
    then show ?thesis using True s' t tab by (subst obj_inv_in [of _ _ s']) (simp_all add: holds_push)
  next
    case False
    then have "obj_inv exact (push_task t (set_session o1 s' ea)) o2 = obj_inv exact ea o2"
      using t by (intro obj_inv_cong) (simp_all add: holds_push)
    then show ?thesis using sess_inv_obj [OF inv] by simp
  qed
  then show ?thesis using inv s by (auto simp: sess_inv_def)
qed

text \<open>The session that leaves the table, with the task that will delete it.\<close>

lemma sess_inv_leave:
  assumes inv: "sess_inv exact ea" and s: "ea_sessions ea o1 = Some s" "in_table ea o1 s" "\<not> ss_mRunning s"
    and s': "ss_mSid s' = ss_mSid s" "exact \<Longrightarrow> \<not> ss_readEv s' \<and> \<not> ss_writeEv s' \<and> ss_mOutList s' = []"
    and t: "task_holder t = (o1, True)"
    and mgr: "table_inv mgr" "session_of mgr = (session_of (ea_mSessionManager ea))(ss_mSid s := None)"
  shows "sess_inv exact (push_task t ((set_session o1 s' ea)\<lparr> ea_mSessionManager := mgr \<rparr>))" (is "sess_inv exact ?ea")
proof -
  have find: "find_session sid ?ea = (if sid = ss_mSid s then None else find_session sid ea)" for sid
    by (simp add: mgr(2)) (simp add: find_session_def)
  have o1: "only_sid ea o1 (ss_mSid s)" "holds ea o1 = {#}" "find_session (ss_mSid s) ea = Some o1"
    using sess_inv_obj [OF inv, of o1] s by (simp_all add: obj_inv_in) (simp add: in_table_def)
  have holds: "holds ?ea o2 = (if o1 = o2 then add_mset (o1, True) (holds ea o2) else holds ea o2)" for o2
    using t by (simp add: holds_push) (simp add: holds_def)
  have none: "no_sid ?ea o1"
    using o1(1) unfolding no_sid_def only_sid_def find by auto
  have "obj_inv exact ?ea o2" for o2
  proof (cases "o2 = o1")
    case True
    have "\<not> in_table ?ea o1 s'" using none unfolding in_table_def no_sid_def by blast
    moreover have "only_sid ?ea o1 (ss_mSid s')" using none unfolding only_sid_def no_sid_def by blast
    ultimately show ?thesis using True s' o1(2) holds
      by (subst obj_inv_out [of _ _ s']) simp_all
  next
    case False
    have "find_session sid ?ea = Some o2 \<longleftrightarrow> find_session sid ea = Some o2" for sid
      unfolding find using False o1(3) by simp
    then have "only_sid ?ea o2 = only_sid ea o2" "no_sid ?ea o2 = no_sid ea o2" "in_table ?ea o2 = in_table ea o2"
      by (simp_all add: only_sid_def no_sid_def in_table_def fun_eq_iff)
    moreover have "ea_sessions ?ea o2 = ea_sessions ea o2" "holds ?ea o2 = holds ea o2" using False holds by simp_all
    ultimately have "obj_inv exact ?ea o2 = obj_inv exact ea o2" unfolding obj_inv_def by (simp only:)
    then show ?thesis using sess_inv_obj [OF inv] by simp
  qed
  then show ?thesis using inv s mgr(1) by (auto simp: sess_inv_def)
qed

lemma remove_session:
  assumes "sess_inv exact ea" "ea_sessions ea o1 = Some s" "in_table ea o1 s"
  shows "\<exists>mgr. SessionManager_remove (sid_mKey (ss_mSid s)) (sid_mSeq (ss_mSid s)) (ea_mSessionManager ea) = Inr (Some o1, mgr) \<and>
    table_inv mgr \<and> session_of mgr = (session_of (ea_mSessionManager ea))(ss_mSid s := None)"
proof -
  have tab: "table_inv (ea_mSessionManager ea)" "session_of (ea_mSessionManager ea) (ss_mSid s) = Some o1"
    using assms by (simp_all add: sess_inv_def in_table_def find_session_def)
  from close_ok [OF tab(1), of "ss_mSid s"] tab(2) show ?thesis by (auto simp: SessionTable_close_def)
qed

text \<open>What the callbacks promise: no fault, the invariant, and whether the session is still live.\<close>

definition live_obj :: "'d event_arg \<Rightarrow> obj \<Rightarrow> bool" where
  "live_obj ea o1 \<longleftrightarrow> (\<exists>s. ea_sessions ea o1 = Some s \<and> in_table ea o1 s)"

definition keeps :: "bool \<Rightarrow> 'd event_arg res \<Rightarrow> bool" where
  "keeps exact r \<longleftrightarrow> (\<exists>ea'. r = Inr ea' \<and> server_inv exact ea')"

definition keeps_live :: "bool \<Rightarrow> obj \<Rightarrow> 'd event_arg res \<Rightarrow> bool" where
  "keeps_live exact o1 r \<longleftrightarrow> (\<exists>ea'. r = Inr ea' \<and> server_inv exact ea' \<and> live_obj ea' o1)"

lemma keeps_live_keeps: "keeps_live exact o1 r \<Longrightarrow> keeps exact r"
  by (auto simp: keeps_def keeps_live_def)

lemma keeps_Inr [simp]: "keeps exact (Inr ea) \<longleftrightarrow> server_inv exact ea" "keeps_live exact o1 (Inr ea) \<longleftrightarrow> server_inv exact ea \<and> live_obj ea o1"
  by (auto simp: keeps_def keeps_live_def)

lemma keeps_bind:
  "keeps_live exact o1 r \<Longrightarrow> (\<And>ea. server_inv exact ea \<Longrightarrow> live_obj ea o1 \<Longrightarrow> keeps exact (f ea)) \<Longrightarrow> keeps exact (res_bind r f)"
  by (auto simp: keeps_live_def)

lemma keeps_live_bind:
  "keeps_live exact o1 r \<Longrightarrow> (\<And>ea. server_inv exact ea \<Longrightarrow> live_obj ea o1 \<Longrightarrow> keeps_live exact o1 (f ea)) \<Longrightarrow> keeps_live exact o1 (res_bind r f)"
  by (auto simp: keeps_live_def)

lemma get_live: "live_obj ea o1 \<Longrightarrow> \<exists>s. get_session o1 ea = Inr s \<and> ea_sessions ea o1 = Some s \<and> in_table ea o1 s"
  by (auto simp: live_obj_def get_session_def)

lemma live_set: "live_obj ea o1 \<Longrightarrow> ea_sessions ea o1 = Some s \<Longrightarrow> ss_mSid s' = ss_mSid s \<Longrightarrow> live_obj (set_session o1 s' ea) o1"
  by (simp add: live_obj_def) (simp add: in_table_def)

lemma set_keeps_live:
  assumes "server_inv exact ea" "live_obj ea o1" "ea_sessions ea o1 = Some s"
    "ss_mSid s' = ss_mSid s" "ss_mRunning s' = ss_mRunning s" "ss_mOutList s' = ss_mOutList s"
  shows "server_inv exact (set_session o1 s' ea) \<and> live_obj (set_session o1 s' ea) o1"
proof
  show "live_obj (set_session o1 s' ea) o1" by (rule live_set [OF assms(2-4)])
  have "in_table ea o1 s" using assms(2,3) by (auto simp: live_obj_def)
  then show "server_inv exact (set_session o1 s' ea)" by (rule server_inv_update [OF assms(1,3) _ assms(4-6)])
qed

lemma update_keeps_live:
  assumes "server_inv exact ea" "live_obj ea o1"
    "\<And>s. ss_mSid (f s) = ss_mSid s \<and> ss_mRunning (f s) = ss_mRunning s \<and> ss_mOutList (f s) = ss_mOutList s"
  shows "keeps_live exact o1 (update_session o1 f ea)"
proof -
  from get_live [OF assms(2)] obtain s where s: "get_session o1 ea = Inr s" "ea_sessions ea o1 = Some s" by blast
  with set_keeps_live [OF assms(1,2) s(2), of "f s"] assms(3) show ?thesis by (simp add: update_session_def)
qed

lemma addEvent_same [simp]:
  "ss_mSid (EventCallback_addEvent w r s) = ss_mSid s"
  "ss_mRunning (EventCallback_addEvent w r s) = ss_mRunning s"
  "ss_mOutList (EventCallback_addEvent w r s) = ss_mOutList s"
  "ss_mStatus (EventCallback_addEvent w r s) = ss_mStatus s"
  by (simp_all add: EventCallback_addEvent_def Let_def)

lemma doWork_keeps:
  assumes "server_inv exact ea" "live_obj ea o1" "ea_sessions ea o1 = Some s" "\<not> ss_mRunning s"
  shows "keeps_live exact o1 (EventHelper_doWork o1 ea)"
proof (cases "ss_mStatus s = eNormal")
  case True
  let ?ea = "push_task (Worker o1) (set_session o1 (s\<lparr> ss_mRunning := True \<rparr>) ea)"
  have tab: "in_table ea o1 s" using assms(2,3) by (auto simp: live_obj_def)
  have inv: "sess_inv exact ea" "msgs_inv exact ea" using assms(1) by (simp_all add: server_inv_def)
  have "sess_inv exact ?ea" by (rule sess_inv_run [OF inv(1) assms(3) tab assms(4)]) simp_all
  moreover have "occ_of ?ea = occ_of ea" using occ_of_same [OF inv(1) assms(3) tab] by simp
  then have "msgs_inv exact ?ea" using inv(2) msgs_inv_cong [of ?ea ea] by simp
  moreover have "live_obj ?ea o1" using tab by (simp add: live_obj_def) (simp add: in_table_def)
  ultimately show ?thesis using True assms(3)
    by (simp add: EventHelper_doWork_def get_session_def server_inv_def)
next
  case False
  then show ?thesis using set_keeps_live [OF assms(1-3)] assms(3)
    by (simp add: EventHelper_doWork_def get_session_def)
qed

lemma decode_and_work_keeps:
  assumes "server_inv exact ea" "live_obj ea o1" "ea_sessions ea o1 = Some s" "\<not> ss_mRunning s"
  shows "keeps_live exact o1 (decode_and_work dec o1 ea)"
proof -
  obtain ok d' rest where d: "dec (rq_mDecoder (ss_mRequest s)) (ss_mInBuffer s) = (ok, d', rest)" by (cases "dec (rq_mDecoder (ss_mRequest s)) (ss_mInBuffer s)")
  let ?s = "s\<lparr> ss_mRequest := Request_setMsgDecoder d' (ss_mRequest s), ss_mInBuffer := rest \<rparr>"
  have k: "server_inv exact (set_session o1 ?s ea) \<and> live_obj (set_session o1 ?s ea) o1"
    by (rule set_keeps_live [OF assms(1-3)]) simp_all
  have "keeps_live exact o1 (EventHelper_doWork o1 (set_session o1 ?s ea))"
    by (rule doWork_keeps [of _ _ _ ?s]) (use k assms(4) in simp_all)
  then show ?thesis using d k assms(3) by (simp add: decode_and_work_def get_session_def Let_def)
qed

text \<open>A session leaves the table, and the messages it still had to send leave the books.\<close>

lemma server_inv_leave:
  assumes inv: "server_inv exact ea" and s: "ea_sessions ea o1 = Some s" "in_table ea o1 s" "\<not> ss_mRunning s"
    and s': "ss_mSid s' = ss_mSid s" "exact \<Longrightarrow> \<not> ss_readEv s' \<and> \<not> ss_writeEv s' \<and> ss_mOutList s' = []"
    and t: "task_holder t = (o1, True)"
    and mgr: "table_inv mgr" "session_of mgr = (session_of (ea_mSessionManager ea))(ss_mSid s := None)"
    and m: "\<forall>j. msg_inv exact st q (occ_upd (occ_of ea) (ss_mSid s) []) j" "\<forall>j. st j = None \<longleftrightarrow> ea_msgs ea j = None"
  shows "server_inv exact (push_task t ((set_session o1 s' ea)
      \<lparr> ea_msgs := st, ea_mOutputResultQueue := q, ea_mSessionManager := mgr \<rparr>))" (is "server_inv exact ?ea")
proof -
  have sinv: "sess_inv exact ea" "msgs_inv exact ea" using inv by (simp_all add: server_inv_def)
  define ea0 where "ea0 = push_task t ((set_session o1 s' ea)\<lparr> ea_mSessionManager := mgr \<rparr>)"
  have "sess_inv exact ea0" unfolding ea0_def by (rule sess_inv_leave [OF sinv(1) s s' t mgr])
  then have "sess_inv exact ?ea" by (subst (asm) sess_inv_cong [symmetric, where ea' = ?ea]) (simp_all add: ea0_def)
  moreover have "occ_of ?ea = occ_upd (occ_of ea) (ss_mSid s) []"
  proof (intro ext)
    fix i sid
    have ses: "ea_sessions ?ea = ea_sessions (set_session o1 s' ea)" by simp
    have find: "find_session x ?ea = (if x = ss_mSid s then None else find_session x (set_session o1 s' ea))" for x
      by (simp add: mgr(2)) (simp add: find_session_def)
    have "occ_of ?ea i sid = (if sid = ss_mSid s then 0 else occ_of (set_session o1 s' ea) i sid)"
      unfolding occ_of_def ses find by simp
    then show "occ_of ?ea i sid = occ_upd (occ_of ea) (ss_mSid s) [] i sid"
      using occ_of_update [OF sinv(1) s(1,2) s'(1)] by (simp add: occ_upd_def)
  qed
  then have "msgs_inv exact ?ea" using m sinv(2) by (simp add: msgs_inv_def)
  ultimately show ?thesis by (simp add: server_inv_def)
qed

lemma fail_keeps:
  assumes "server_inv exact ea" "live_obj ea o1" "ea_sessions ea o1 = Some s" "\<not> ss_mRunning s"
    and "task_holder (mk o1) = (o1, True)"
  shows "keeps exact (EventHelper_fail mk o1 ea)"
proof -
  have tab: "in_table ea o1 s" using assms(2,3) by (auto simp: live_obj_def)
  have inv: "sess_inv exact ea" "msgs_inv exact ea" using assms(1) by (simp_all add: server_inv_def)
  have "\<forall>j. msg_inv exact (ea_msgs ea) (ea_mOutputResultQueue ea) (occ_upd (occ_of ea) (ss_mSid s) (ss_mOutList s)) j"
    using inv(2) occ_of_self [OF inv(1) assms(3) tab] by (simp add: msgs_inv_def)
  from fail_out_list_inv [OF this] obtain st q where
    f: "fail_out_list (ss_mSid s) (ss_mOutList s) (ea_msgs ea) (ea_mOutputResultQueue ea) = Inr (st, q)"
      "\<forall>j. msg_inv exact st q (occ_upd (occ_of ea) (ss_mSid s) []) j" "\<forall>j. st j = None \<longleftrightarrow> ea_msgs ea j = None" by blast
  from remove_session [OF inv(1) assms(3) tab] obtain mgr where
    m: "SessionManager_remove (sid_mKey (ss_mSid s)) (sid_mSeq (ss_mSid s)) (ea_mSessionManager ea) = Inr (Some o1, mgr)"
      "table_inv mgr" "session_of mgr = (session_of (ea_mSessionManager ea))(ss_mSid s := None)" by blast
  have "server_inv exact (push_task (mk o1) ((set_session o1 ((event_del_both s)\<lparr> ss_mOutList := [] \<rparr>) ea)
      \<lparr> ea_msgs := st, ea_mOutputResultQueue := q, ea_mSessionManager := mgr \<rparr>))"
    by (rule server_inv_leave [OF assms(1,3) tab assms(4) _ _ assms(5) m(2,3) f(2,3)]) (simp_all add: event_del_both_def)
  then show ?thesis using f(1) m(1) assms(3) by (simp add: EventHelper_fail_def get_session_def)
qed

subsection \<open>onRead and onWrite\<close>

lemma close_keeps:
  assumes "server_inv exact ea" "live_obj ea o1" "ea_sessions ea o1 = Some s" "\<not> ss_mRunning s" "ss_mOutList s = []"
  shows "keeps exact (EventHelper_doClose o1 ea)"
proof -
  have tab: "in_table ea o1 s" using assms(2,3) by (auto simp: live_obj_def)
  have inv: "sess_inv exact ea" "msgs_inv exact ea" using assms(1) by (simp_all add: server_inv_def)
  from remove_session [OF inv(1) assms(3) tab] obtain mgr where
    m: "SessionManager_remove (sid_mKey (ss_mSid s)) (sid_mSeq (ss_mSid s)) (ea_mSessionManager ea) = Inr (Some o1, mgr)"
      "table_inv mgr" "session_of mgr = (session_of (ea_mSessionManager ea))(ss_mSid s := None)" by blast
  have "\<forall>j. msg_inv exact (ea_msgs ea) (ea_mOutputResultQueue ea) (occ_upd (occ_of ea) (ss_mSid s) []) j"
    using inv(2) occ_of_self [OF inv(1) assms(3) tab] assms(5) by (simp add: msgs_inv_def)
  then have "server_inv exact (push_task (Close o1) ((set_session o1 (event_del_both s) ea)
      \<lparr> ea_msgs := ea_msgs ea, ea_mOutputResultQueue := ea_mOutputResultQueue ea, ea_mSessionManager := mgr \<rparr>))"
    by (intro server_inv_leave [OF assms(1,3) tab assms(4) _ _ _ m(2,3)]) (simp_all add: event_del_both_def assms(5))
  then show ?thesis using m(1) assms(3)
    by (simp add: EventHelper_doClose_def get_session_def set_session_def)
qed

lemma doTimeout_keeps:
  "server_inv exact ea \<Longrightarrow> live_obj ea o1 \<Longrightarrow> ea_sessions ea o1 = Some s \<Longrightarrow> \<not> ss_mRunning s \<Longrightarrow> keeps exact (EventHelper_doTimeout o1 ea)"
  by (simp add: EventHelper_doTimeout_def fail_keeps)

lemma doError_keeps:
  "server_inv exact ea \<Longrightarrow> live_obj ea o1 \<Longrightarrow> ea_sessions ea o1 = Some s \<Longrightarrow> \<not> ss_mRunning s \<Longrightarrow> keeps exact (EventHelper_doError o1 ea)"
  by (simp add: EventHelper_doError_def fail_keeps)

lemma onRead_keeps:
  assumes "server_inv exact ea" "live_obj ea o1"
  shows "keeps exact (EventCallback_onRead dec o1 e ea)"
  unfolding EventCallback_onRead_def
proof (rule keeps_bind [OF update_keeps_live [OF assms]])
  fix ea1 :: "'a event_arg"
  assume ea1: "server_inv exact ea1" "live_obj ea1 o1"
  from get_live [OF ea1(2)] obtain s where s: "get_session o1 ea1 = Inr s" "ea_sessions ea1 o1 = Some s" by blast
  note fail = doTimeout_keeps [OF ea1 s(2)] doError_keeps [OF ea1 s(2)]
  have add: "keeps_live exact o1 (update_session o1 (EventCallback_addEvent False True) ea2)"
    if "server_inv exact ea2" "live_obj ea2 o1" for ea2 :: "'a event_arg"
    by (rule update_keeps_live [OF that]) simp
  show "keeps exact (res_bind (get_session o1 ea1) (\<lambda>s.
       if e = ReadTimeout then (if \<not> ss_mRunning s then EventHelper_doTimeout o1 ea1 else Inr ea1)
       else case e of
         Received data \<Rightarrow>
           if data \<noteq> [] then
             let ea2 = set_session o1 (Session_addRead (length data) (s\<lparr> ss_mInBuffer := ss_mInBuffer s @ data \<rparr>)) ea1
             in res_bind (if \<not> ss_mRunning s then decode_and_work dec o1 ea2 else Inr ea2)
                  (update_session o1 (EventCallback_addEvent False True))
           else if \<not> ss_mRunning s then EventHelper_doError o1 ea1 else Inr ea1
       | ReadAgain \<Rightarrow> update_session o1 (EventCallback_addEvent False True) ea1
       | _ \<Rightarrow> if \<not> ss_mRunning s then EventHelper_doError o1 ea1 else Inr ea1))"
  proof (cases e)
    case (Received data)
    show ?thesis
    proof (cases "data = []")
      case True
      then show ?thesis using Received s(1) fail ea1 by simp
    next
      case False
      define s2 where "s2 = Session_addRead (length data) (s\<lparr> ss_mInBuffer := ss_mInBuffer s @ data \<rparr>)"
      define ea2 where "ea2 = set_session o1 s2 ea1"
      have ea2: "server_inv exact ea2" "live_obj ea2 o1" "ea_sessions ea2 o1 = Some s2" "ss_mRunning s2 = ss_mRunning s"
        using set_keeps_live [OF ea1 s(2), of s2] by (simp_all add: ea2_def s2_def Session_addRead_def)
      have "keeps_live exact o1 (if \<not> ss_mRunning s then decode_and_work dec o1 ea2 else Inr ea2)"
        using decode_and_work_keeps [OF ea2(1-3)] ea2 by simp
      then have "keeps exact (res_bind (if \<not> ss_mRunning s then decode_and_work dec o1 ea2 else Inr ea2)
          (update_session o1 (EventCallback_addEvent False True)))"
        by (rule keeps_bind) (rule keeps_live_keeps, rule add)
      then show ?thesis
        using Received False s(1) by (auto simp: s2_def [symmetric] ea2_def [symmetric] Let_def)
    qed
  next
    case ReadAgain
    then show ?thesis using s(1) keeps_live_keeps [OF add [OF ea1]] by simp
  qed (use s(1) fail ea1 in simp_all)
qed simp

lemma run_transmit_keeps:
  assumes "server_inv exact ea" "live_obj ea o1"
  shows "\<exists>len ea'. run_transmit o1 rets ea = Inr (len, ea') \<and> server_inv exact ea' \<and> live_obj ea' o1"
proof -
  from get_live [OF assms(2)] obtain s where s: "get_session o1 ea = Inr s" "ea_sessions ea o1 = Some s" "in_table ea o1 s" by blast
  have inv: "sess_inv exact ea" "msgs_inv exact ea" using assms(1) by (simp_all add: server_inv_def)
  define out where "out = \<lparr> ot_store = ea_msgs ea, ot_mOutList = ss_mOutList s, ot_mOutOffset = ss_mOutOffset s,
           ot_completed = ea_mOutputResultQueue ea \<rparr>"
  have "\<forall>j. msg_inv exact (ot_store out) (ot_completed out) (occ_upd (occ_of ea) (ss_mSid s) (ot_mOutList out)) j"
    using inv(2) occ_of_self [OF inv(1) s(2,3)] by (simp add: msgs_inv_def out_def)
  from transmit_inv [OF this, of SP_MAX_IOV rets] obtain len iovs out' where
    t: "transmit SP_MAX_IOV (ss_mSid s) rets out = Inr (len, iovs, out')"
      "\<forall>j. msg_inv exact (ot_store out') (ot_completed out') (occ_upd (occ_of ea) (ss_mSid s) (ot_mOutList out')) j"
      "\<forall>j. ot_store out' j = None \<longleftrightarrow> ot_store out j = None" by blast
  define s' where "s' = s\<lparr> ss_mOutList := ot_mOutList out', ss_mOutOffset := ot_mOutOffset out' \<rparr>"
  define ea0 where "ea0 = set_session o1 s' ea"
  define ea' where "ea' = ea0\<lparr> ea_msgs := ot_store out', ea_mOutputResultQueue := ot_completed out' \<rparr>"
  have "sess_inv exact ea0" unfolding ea0_def by (rule sess_inv_update [OF inv(1) s(2,3)]) (simp_all add: s'_def)
  then have "sess_inv exact ea'" by (simp add: ea'_def)
  moreover have "occ_of ea' = occ_upd (occ_of ea) (ss_mSid s) (ot_mOutList out')"
    using occ_of_set [OF inv(1) s(2,3), of s'] by (simp add: ea'_def ea0_def s'_def)
  then have "msgs_inv exact ea'" using t(2,3) inv(2) by (simp add: msgs_inv_def ea'_def ea0_def out_def)
  moreover have "live_obj ea' o1"
    using s by (simp add: live_obj_def ea'_def ea0_def) (simp add: in_table_def s'_def)
  ultimately show ?thesis using s(1) t(1)
    by (simp add: run_transmit_def out_def [symmetric] server_inv_def ea'_def ea0_def s'_def)
qed

text \<open>The state after a part of \<open>onWrite\<close>: with \<open>ret = 0\<close> the session is still live.\<close>

definition keeps_ret :: "bool \<Rightarrow> obj \<Rightarrow> (int \<times> 'd event_arg) res \<Rightarrow> bool" where
  "keeps_ret exact o1 r \<longleftrightarrow> (\<exists>ret ea'. r = Inr (ret, ea') \<and> server_inv exact ea' \<and> (ret = 0 \<longrightarrow> live_obj ea' o1))"

lemma keeps_retI:
  "server_inv exact ea \<Longrightarrow> (ret = 0 \<Longrightarrow> live_obj ea o1) \<Longrightarrow> keeps_ret exact o1 (Inr (ret, ea))"
  "keeps exact r \<Longrightarrow> ret \<noteq> 0 \<Longrightarrow> keeps_ret exact o1 (res_bind r (\<lambda>ea2. Inr (ret, ea2)))"
  "keeps_live exact o1 r \<Longrightarrow> keeps_ret exact o1 (res_bind r (\<lambda>ea2. Inr (ret, ea2)))"
  by (auto simp: keeps_ret_def keeps_def keeps_live_def)

lemma write_part_keeps:
  assumes "server_inv exact ea" "live_obj ea o1"
  shows "keeps_ret exact o1 (write_part o1 rets eagain ea)"
proof -
  from get_live [OF assms(2)] obtain s where s: "get_session o1 ea = Inr s" by blast
  show ?thesis
  proof (cases "ss_mOutList s = []")
    case True
    then show ?thesis using s assms by (simp add: write_part_def keeps_retI)
  next
    case False
    from run_transmit_keeps [OF assms, of rets] obtain len ea1 where
      t: "run_transmit o1 rets ea = Inr (len, ea1)" "server_inv exact ea1" "live_obj ea1 o1" by blast
    from get_live [OF t(3)] obtain s1 where s1: "get_session o1 ea1 = Inr s1" "ea_sessions ea1 o1 = Some s1" by blast
    have add: "keeps_live exact o1 (update_session o1 (EventCallback_addEvent True False) ea2)"
      if "server_inv exact ea2" "live_obj ea2 o1" for ea2 :: "'a event_arg"
      by (rule update_keeps_live [OF that]) simp
    define ea2 where "ea2 = set_session o1 (Session_addWrite (nat len) s1) ea1"
    have ea2: "server_inv exact ea2" "live_obj ea2 o1"
      using set_keeps_live [OF t(2,3) s1(2), of "Session_addWrite (nat len) s1"]
      by (simp_all add: ea2_def Session_addWrite_def)
    show ?thesis
      using False s t s1 add [OF ea2] add [OF t(2,3)] ea2 doError_keeps [OF t(2,3) s1(2)]
      by (simp add: write_part_def ea2_def [symmetric] Let_def keeps_retI)
  qed
qed

lemma exit_part_keeps:
  assumes "server_inv exact ea" "ret = 0 \<Longrightarrow> live_obj ea o1"
  shows "keeps_ret exact o1 (exit_part o1 ret ea)"
proof (cases "ret = 0")
  case True
  from get_live [OF assms(2) [OF True]] obtain s where s: "get_session o1 ea = Inr s" "ea_sessions ea o1 = Some s" by blast
  show ?thesis using True s assms close_keeps [OF assms(1) assms(2) [OF True] s(2)]
    by (simp add: exit_part_def keeps_retI)
next
  case False
  then show ?thesis using assms by (simp add: exit_part_def keeps_retI)
qed

lemma onWrite_keeps:
  assumes "server_inv exact ea" "live_obj ea o1"
  shows "keeps exact (EventCallback_onWrite dec o1 e ea)"
  unfolding EventCallback_onWrite_def
proof (rule keeps_bind [OF update_keeps_live [OF assms]])
  fix ea1 :: "'a event_arg"
  assume ea1: "server_inv exact ea1" "live_obj ea1 o1"
  from get_live [OF ea1(2)] obtain s where s: "get_session o1 ea1 = Inr s" "ea_sessions ea1 o1 = Some s" by blast
  show "keeps exact (res_bind (get_session o1 ea1) (\<lambda>s.
       case e of
         WriteTimeout \<Rightarrow> if \<not> ss_mRunning s then EventHelper_doTimeout o1 ea1 else Inr ea1
       | Writable rets eagain \<Rightarrow>
           res_bind (write_part o1 rets eagain ea1) (\<lambda>(ret, ea2).
           res_bind (exit_part o1 ret ea2) (\<lambda>(ret', ea3).
             if ret' = 0 then
               res_bind (get_session o1 ea3) (\<lambda>s3.
                 if \<not> ss_mRunning s3 then decode_and_work dec o1 ea3 else Inr ea3)
             else Inr ea3))))"
  proof (cases e)
    case WriteTimeout
    then show ?thesis using s(1) ea1 doTimeout_keeps [OF ea1 s(2)] by simp
  next
    case (Writable rets eagain)
    from write_part_keeps [OF ea1, of rets eagain] obtain ret ea2 where
      w: "write_part o1 rets eagain ea1 = Inr (ret, ea2)" "server_inv exact ea2" "ret = 0 \<longrightarrow> live_obj ea2 o1"
      by (auto simp: keeps_ret_def)
    from exit_part_keeps [of exact ea2 ret o1] w obtain ret' ea3 where
      x: "exit_part o1 ret ea2 = Inr (ret', ea3)" "server_inv exact ea3" "ret' = 0 \<longrightarrow> live_obj ea3 o1"
      by (auto simp: keeps_ret_def)
    show ?thesis
    proof (cases "ret' = 0")
      case True
      then have l: "live_obj ea3 o1" using x(3) by simp
      from get_live [OF l] obtain s3 where s3: "get_session o1 ea3 = Inr s3" "ea_sessions ea3 o1 = Some s3" by blast
      from decode_and_work_keeps [OF x(2) l s3(2)] show ?thesis
        using Writable s(1) w(1) x True s3 by (auto intro: keeps_live_keeps)
    next
      case False
      then show ?thesis using Writable s(1) w(1) x by simp
    qed
  qed
qed simp

end
