(* ===== verification/SP_EventLoop.thy ===== *)
theory SP_EventLoop
  imports SP_EventSteps
begin

text \<open>
  The steps that create sessions and messages, the worker stages, and the whole server: every
  interleaving of its threads keeps the invariant.
\<close>

subsection \<open>onAccept\<close>

lemma doStart_keeps:
  assumes "server_inv exact ea" "live_obj ea o1" "ea_sessions ea o1 = Some s" "\<not> ss_mRunning s"
  shows "keeps exact (EventHelper_doStart o1 ea)"
proof -
  let ?ea = "push_task (Start o1) (set_session o1 (s\<lparr> ss_mRunning := True \<rparr>) ea)"
  have tab: "in_table ea o1 s" using assms(2,3) by (auto simp: live_obj_def)
  have inv: "sess_inv exact ea" "msgs_inv exact ea" using assms(1) by (simp_all add: server_inv_def)
  have "sess_inv exact ?ea" by (rule sess_inv_run [OF inv(1) assms(3) tab assms(4)]) simp_all
  moreover have "occ_of ?ea = occ_of ea" using occ_of_same [OF inv(1) assms(3) tab] by simp
  then have "msgs_inv exact ?ea" using inv(2) msgs_inv_cong [of ?ea ea] by simp
  ultimately show ?thesis using assms(3)
    by (simp add: EventHelper_doStart_def get_session_def server_inv_def)
qed

text \<open>A new session enters the table, with a sid that is not in it.\<close>

lemma server_inv_new:
  assumes inv: "server_inv exact ea" and o1: "o1 = ea_nextObj ea"
    and s: "\<not> ss_mRunning s" "ss_mOutList s = []"
    and mgr: "table_inv mgr" "session_of mgr = (session_of (ea_mSessionManager ea))(ss_mSid s \<mapsto> o1)"
      "find_session (ss_mSid s) ea = None"
  shows "server_inv exact ((set_session o1 s ea)\<lparr> ea_mSessionManager := mgr, ea_nextObj := o1 + 1 \<rparr>)
    \<and> live_obj ((set_session o1 s ea)\<lparr> ea_mSessionManager := mgr, ea_nextObj := o1 + 1 \<rparr>) o1"
proof -
  let ?ea = "(set_session o1 s ea)\<lparr> ea_mSessionManager := mgr, ea_nextObj := o1 + 1 \<rparr>"
  have sinv: "sess_inv exact ea" and minv: "msgs_inv exact ea" using inv by (simp_all add: server_inv_def)
  have find: "find_session sid ?ea = (if sid = ss_mSid s then Some o1 else find_session sid ea)" for sid
    by (simp add: mgr(2)) (simp add: find_session_def)
  have gone: "ea_sessions ea o1 = None" using sinv o1 by (simp add: sess_inv_def)
  then have none: "holds ea o1 = {#}" "no_sid ea o1"
    using sess_inv_obj [OF sinv, of o1] by (simp_all add: obj_inv_gone)
  have tab: "in_table ?ea o1 s" using find by (simp add: in_table_def)
  have holds: "holds ?ea o2 = holds ea o2" for o2 by (simp add: holds_def)
  have "obj_inv exact ?ea o2" for o2
  proof (cases "o2 = o1")
    case True
    have "only_sid ?ea o1 (ss_mSid s)" using none(2) unfolding only_sid_def no_sid_def find by auto
    then show ?thesis using True s tab holds none(1) by (subst obj_inv_in [of _ _ s]) simp_all
  next
    case False
    have "find_session sid ?ea = Some o2 \<longleftrightarrow> find_session sid ea = Some o2" for sid
      unfolding find using False mgr(3) by simp
    then have "only_sid ?ea o2 = only_sid ea o2" "no_sid ?ea o2 = no_sid ea o2" "in_table ?ea o2 = in_table ea o2"
      by (simp_all add: only_sid_def no_sid_def in_table_def fun_eq_iff)
    moreover have "ea_sessions ?ea o2 = ea_sessions ea o2" using False by simp
    ultimately have "obj_inv exact ?ea o2 = obj_inv exact ea o2" unfolding obj_inv_def holds by (simp only:)
    then show ?thesis using sess_inv_obj [OF sinv] by simp
  qed
  then have "sess_inv exact ?ea" using sinv mgr(1) o1 by (simp add: sess_inv_def)
  moreover have "occ_of ?ea i sid = occ_of ea i sid" for i sid
  proof (cases "find_session sid ea = Some o1")
    case True
    then show ?thesis using none(2) by (simp add: no_sid_def)
  next
    case False
    then show ?thesis using s(2) mgr(3) unfolding occ_of_def find by (auto split: option.splits)
  qed
  then have "msgs_inv exact ?ea" using minv msgs_inv_cong [of ?ea ea] by (simp add: fun_eq_iff)
  ultimately show ?thesis using tab by (simp add: server_inv_def live_obj_def)
qed

text \<open>A fresh message enters the output list of a session: \<open>onAccept\<close>'s refusal.\<close>

lemma refuse_keeps:
  assumes "server_inv exact ea" "live_obj ea o1" "ea_sessions ea o1 = Some s" "ss_mOutList s = []"
    and s': "ss_mSid s' = ss_mSid s" "ss_mRunning s' = ss_mRunning s" "ss_mOutList s' = [ea_nextMsg ea]"
    and m: "msg_ok m" "Message_getToList m = []"
  shows "server_inv exact ((set_session o1 s' ea)\<lparr> ea_msgs := (ea_msgs ea)(ea_nextMsg ea \<mapsto> m), ea_nextMsg := ea_nextMsg ea + 1 \<rparr>)"
proof -
  let ?i = "ea_nextMsg ea"
  let ?ea = "(set_session o1 s' ea)\<lparr> ea_msgs := (ea_msgs ea)(?i \<mapsto> m), ea_nextMsg := ?i + 1 \<rparr>"
  have tab: "in_table ea o1 s" using assms(2,3) by (auto simp: live_obj_def)
  have inv: "sess_inv exact ea" "msgs_inv exact ea" using assms(1) by (simp_all add: server_inv_def)
  have "sess_inv exact ?ea" using sess_inv_update [OF inv(1) assms(3) tab s'(1,2)] by simp
  moreover have occ: "occ_of ?ea = occ_upd (occ_of ea) (ss_mSid s) [?i]"
    using occ_of_set [OF inv(1) assms(3) tab s'(1)] s'(3) by simp
  have old: "msg_inv exact (ea_msgs ea) (ea_mOutputResultQueue ea) (occ_of ea) j" "ea_msgs ea ?i = None" for j
    using inv(2) by (auto simp: msgs_inv_def)
  have "msg_inv exact (ea_msgs ?ea) (ea_mOutputResultQueue ?ea) (occ_of ?ea) j" for j
  proof (cases "j = ?i")
    case True
    from old(1) [of ?i] old(2) have "\<forall>sid. occ_of ea ?i sid = 0" "?i \<notin> set (ea_mOutputResultQueue ea)"
      by (simp_all add: msg_inv_def)
    then show ?thesis using True m unfolding occ
      by (auto simp: msg_inv_def occ_upd_def count_list_0_iff)
  next
    case False
    have "occ_of ea j (ss_mSid s) = 0" using occ_of_self [OF inv(1) assms(3) tab] assms(4)
      by (metis count_list.simps(1) occ_upd_def)
    then have "msg_inv exact (ea_msgs ?ea) (ea_mOutputResultQueue ?ea) (occ_of ?ea) j =
      msg_inv exact (ea_msgs ea) (ea_mOutputResultQueue ea) (occ_of ea) j"
      using False unfolding occ by (intro msg_inv_cong) (auto simp: occ_upd_def)
    then show ?thesis using old(1) by simp
  qed
  then have "msgs_inv exact ?ea" using inv(2) by (simp add: msgs_inv_def)
  ultimately show ?thesis by (simp add: server_inv_def)
qed

definition table_full :: "'d event_arg \<Rightarrow> bool" where
  "table_full ea \<longleftrightarrow> card (dom (session_of (ea_mSessionManager ea))) = table_capacity"

text \<open>The key allocation and the insertion of \<open>onAccept\<close> are an \<open>open\<close> of the session table.\<close>

lemma onAccept_table:
  assumes "table_inv m"
  obtains sq n where "SessionManager_allocKey m = Inr (0, sq, n)" "card (dom (session_of m)) = table_capacity"
  | key sq n n' where "SessionManager_allocKey m = Inr (key, sq, n)" "key \<noteq> 0"
      "SessionManager_put key (the sq) (o1 :: obj) n = Inr n'" "table_inv n'"
      "session_of n' = (session_of m)(\<lparr> sid_mKey = key, sid_mSeq = the sq \<rparr> \<mapsto> o1)"
      "session_of m \<lparr> sid_mKey = key, sid_mSeq = the sq \<rparr> = None"
      "card (dom (session_of m)) < table_capacity"
proof -
  from open_ok [OF assms, of o1] obtain a n0 where a: "SessionTable_open o1 m = Inr (a, n0)" "table_inv n0"
    "case a of None \<Rightarrow> session_of n0 = session_of m \<and> card (dom (session_of m)) = table_capacity
     | Some sid \<Rightarrow> session_of n0 = (session_of m)(sid \<mapsto> o1) \<and> card (dom (session_of m)) < table_capacity \<and>
         eColPerRow \<le> unat (sid_mKey sid) \<and> sid_mKey sid \<notin> sid_mKey ` dom (session_of m) \<and>
         sid_mSeq sid = seq_of m (sid_mKey sid)" by blast
  from a(1) obtain key sq n where n: "SessionManager_allocKey m = Inr (key, sq, n)"
    by (auto simp: SessionTable_open_def res_bind_eq_Inr_iff)
  show thesis
  proof (cases "key = 0")
    case True
    then have "a = None" using a(1) n by (simp add: SessionTable_open_def)
    then show ?thesis using that(1) n True a(3) by simp
  next
    case False
    let ?sid = "\<lparr> sid_mKey = key, sid_mSeq = the sq \<rparr>"
    from a(1) n False have "a = Some ?sid" "SessionManager_put key (the sq) o1 n = Inr n0"
      by (auto simp: SessionTable_open_def res_bind_eq_Inr_iff)
    moreover from this a(3) have "key \<notin> sid_mKey ` dom (session_of m)" by simp
    then have "session_of m ?sid = None" by (metis domIff image_eqI sp_sid.simps(1))
    ultimately show ?thesis using that(2) n False a(2,3) by simp
  qed
qed

lemma onAccept_keeps:
  assumes inv: "server_inv exact ea"
  shows "if table_full ea then EventCallback_onAccept ac d ip port serverIP ea = Inl AssertFail
    else keeps exact (EventCallback_onAccept ac d ip port serverIP ea)"
proof -
  have tab: "table_inv (ea_mSessionManager ea)" using inv by (simp add: server_inv_def sess_inv_def)
  show ?thesis
  proof (rule onAccept_table [OF tab, of _ "ea_nextObj ea"], goal_cases)
    case (1 sq n)
    then show ?case by (simp add: EventCallback_onAccept_def table_full_def)
  next
    case (2 key sq n n')
    define sid where "sid = \<lparr> sid_mKey = key, sid_mSeq = the sq \<rparr>"
    define s0 where "s0 = Session_new d sid"
    define req where "req = (case serverIP of
        None \<Rightarrow> Request_setClientPort port (Request_setClientIP ip (ss_mRequest s0))
      | Some a \<Rightarrow> Request_setServerIP a (Request_setClientPort port (Request_setClientIP ip (ss_mRequest s0))))"
    define s where "s = s0\<lparr> ss_mRequest := req \<rparr>"
    define ea1 where "ea1 = (set_session (ea_nextObj ea) s ea)\<lparr> ea_mSessionManager := n', ea_nextObj := ea_nextObj ea + 1 \<rparr>"
    have s: "ss_mSid s = sid" "\<not> ss_mRunning s" "ss_mOutList s = []"
      by (simp_all add: s_def s0_def Session_new_def)
    have ea1: "server_inv exact ea1" "live_obj ea1 (ea_nextObj ea)" "ea_sessions ea1 (ea_nextObj ea) = Some s"
      using server_inv_new [OF inv refl, of s n'] s 2 by (simp_all add: ea1_def sid_def find_session_def)
    have ea1_eq: "ea_msgs ea1 = ea_msgs ea" "ea_nextMsg ea1 = ea_nextMsg ea" by (simp_all add: ea1_def)
    define msg where "msg = Message_append [CR, LF] (Message_append (cstr (ac_mRefusedMsg ac)) (Message_new 0))"
    have msg: "msg_ok msg" "Message_getToList msg = []"
      by (simp_all add: msg_def msg_ok_def Message_append_def Message_new_def Message_getFollowBlockList_def
          Message_getToList_def lazy_def MsgBlockList_new_def SidList_new_def)
    define s' where "s' = EventCallback_addEvent True False (s\<lparr> ss_mOutList := [ea_nextMsg ea], ss_mStatus := eExit \<rparr>)"
    have refuse: "server_inv exact ((set_session (ea_nextObj ea) s' ea1)\<lparr> ea_msgs := (ea_msgs ea)(ea_nextMsg ea \<mapsto> msg), ea_nextMsg := ea_nextMsg ea + 1 \<rparr>)"
      using refuse_keeps [OF ea1 s(3), of s' msg] s msg unfolding ea1_eq by (simp add: s'_def)
    have "\<not> table_full ea" using 2 by (simp add: table_full_def)
    moreover have "EventCallback_onAccept ac d ip port serverIP ea =
      (if ac_mMaxConnections ac < SessionManager_getCount n' \<or> ac_mReqQueueSize ac \<le> int (length (ea_mInputResultQueue ea))
       then Inr ((set_session (ea_nextObj ea) s' ea1)\<lparr> ea_msgs := (ea_msgs ea)(ea_nextMsg ea \<mapsto> msg), ea_nextMsg := ea_nextMsg ea + 1 \<rparr>)
       else EventHelper_doStart (ea_nextObj ea) ea1)"
      using 2 unfolding EventCallback_onAccept_def Let_def s'_def msg_def ea1_def s_def req_def s0_def sid_def by simp
    ultimately show ?case using refuse doStart_keeps [OF ea1 s(2)] by simp
  qed
qed

subsection \<open>onResponse\<close>

text \<open>
  While \<open>deliver\<close> works on message \<open>i\<close>, its first \<open>n\<close> receivers are still to be seen: the others
  stand in the to list as often as the message stands in their output lists.
\<close>

definition deliver_inv :: "msg_id \<Rightarrow> nat \<Rightarrow> 'd event_arg \<Rightarrow> bool" where
  "deliver_inv i n ea \<longleftrightarrow> sess_inv True ea \<and>
     (\<forall>j. j \<noteq> i \<longrightarrow> msg_inv True (ea_msgs ea) (ea_mOutputResultQueue ea) (occ_of ea) j) \<and>
     (\<forall>j \<ge> ea_nextMsg ea. ea_msgs ea j = None) \<and> i \<notin> set (ea_mOutputResultQueue ea) \<and>
     (\<exists>m. ea_msgs ea i = Some m \<and> msg_ok m \<and> n \<le> length (Message_getToList m) \<and>
        (\<forall>sid. count_list (Message_getToList m) sid = occ_of ea i sid + count_list (take n (Message_getToList m)) sid))"

lemma count_list_del_at:
  "n < length l \<Longrightarrow> count_list l x = count_list (del_at n l) x + (if l ! n = x then 1 else 0)"
proof -
  assume "n < length l"
  then have "l = take n l @ l ! n # drop (Suc n) l" by (rule id_take_nth_drop)
  then have "count_list l x = count_list (take n l @ l ! n # drop (Suc n) l) x" by simp
  then show ?thesis by (simp add: del_at_def)
qed

lemma take_del_at: "take n (del_at n l) = take n l"
  by (auto simp: del_at_def)

lemma deliver_fail_inv:
  assumes "deliver_inv i (Suc n) ea" "ea_msgs ea i = Some m"
  shows "deliver_inv i n (ea\<lparr> ea_msgs := (ea_msgs ea)(i \<mapsto> Message_addFailure sid
      (Message_setToList (snd (SidList_take (int n) (Message_getToList m))) m)) \<rparr>)"
proof -
  let ?l = "Message_getToList m"
  let ?m = "Message_addFailure sid (Message_setToList (del_at n ?l) m)"
  have l: "n < length ?l" "msg_ok m"
    "\<forall>x. count_list ?l x = occ_of ea i x + count_list (take (Suc n) ?l) x"
    using assms by (auto simp: deliver_inv_def)
  have bal: "count_list (del_at n ?l) x = occ_of ea i x + count_list (take n ?l) x" for x
    using l(3) [rule_format, of x] count_list_del_at [OF l(1), of x]
    by (simp add: take_Suc_conv_app_nth [OF l(1)] split: if_splits)
  have other: "msg_inv True ((ea_msgs ea)(i \<mapsto> ?m)) q occ j = msg_inv True (ea_msgs ea) q occ j" if "j \<noteq> i" for q occ j
    using that by (intro msg_inv_cong) simp_all
  have "msg_ok ?m" using l(2)
    by (simp add: msg_ok_def Message_addFailure_def Message_setToList_def Message_getFollowBlockList_def)
  then show ?thesis
    using assms l(1) bal other
    by (auto simp: deliver_inv_def SidList_take_def lst_take_nth take_del_at)
qed

lemma occ_of_in:
  "ea_sessions ea o1 = Some s \<Longrightarrow> in_table ea o1 s \<Longrightarrow> occ_of ea j (ss_mSid s) = count_list (ss_mOutList s) j"
  by (simp add: occ_of_def in_table_def)

lemma deliver_ok_inv:
  assumes inv: "deliver_inv i (Suc n) ea" and m: "ea_msgs ea i = Some m" "Message_getToList m ! n = ss_mSid s"
    and s: "ea_sessions ea o1 = Some s" "in_table ea o1 s"
    and s': "ss_mSid s' = ss_mSid s" "ss_mRunning s' = ss_mRunning s" "ss_mOutList s' = ss_mOutList s @ [i]"
  shows "deliver_inv i n (set_session o1 s' ea)"
proof -
  let ?l = "Message_getToList m"
  have sinv: "sess_inv True ea" and l: "n < length ?l" "msg_ok m"
    "\<forall>x. count_list ?l x = occ_of ea i x + count_list (take (Suc n) ?l) x"
    using inv m(1) by (auto simp: deliver_inv_def)
  have occ: "occ_of (set_session o1 s' ea) j x = occ_of ea j x + (if x = ss_mSid s \<and> j = i then 1 else 0)" for j x
    using occ_of_set [OF sinv s s'(1)] occ_of_in [OF s, of j] s'(3) by (auto simp: occ_upd_def)
  have bal: "count_list ?l x = occ_of (set_session o1 s' ea) i x + count_list (take n ?l) x" for x
    using l(3) [rule_format, of x] m(2) unfolding occ by (simp add: take_Suc_conv_app_nth [OF l(1)])
  have "msg_inv True (ea_msgs ea) (ea_mOutputResultQueue ea) (occ_of (set_session o1 s' ea)) j" if "j \<noteq> i" for j
  proof -
    have "msg_inv True (ea_msgs ea) (ea_mOutputResultQueue ea) (occ_of (set_session o1 s' ea)) j =
      msg_inv True (ea_msgs ea) (ea_mOutputResultQueue ea) (occ_of ea) j"
      using that occ by (intro msg_inv_cong) simp_all
    then show ?thesis using inv that by (simp add: deliver_inv_def)
  qed
  then show ?thesis using sess_inv_update [OF sinv s s'(1,2)] inv m(1) l(1,2) bal
    by (simp add: deliver_inv_def)
qed

lemma deliver_ok:
  "deliver_inv i n ea \<Longrightarrow> \<exists>ea'. deliver fromSid i n ea = Inr ea' \<and> deliver_inv i 0 ea' \<and> ea_nextMsg ea' = ea_nextMsg ea"
proof (induction n arbitrary: ea)
  case 0
  then show ?case by simp
next
  case (Suc n)
  then obtain m where m: "ea_msgs ea i = Some m" "Suc n \<le> length (Message_getToList m)"
    by (auto simp: deliver_inv_def)
  define sid where "sid = SidList_get (int n) (Message_getToList m)"
  have nth: "Message_getToList m ! n = sid" using m(2) by (simp add: sid_def SidList_get_def lst_get_nth)
  define failed where "failed = ea\<lparr> ea_msgs := (ea_msgs ea)(i \<mapsto> Message_addFailure sid
             (Message_setToList (snd (SidList_take (int n) (Message_getToList m))) m)) \<rparr>"
  have f: "deliver_inv i n failed" "ea_nextMsg failed = ea_nextMsg ea"
    using deliver_fail_inv [OF Suc.prems m(1), of sid] by (simp_all add: failed_def)
  show ?case
  proof (cases "find_session sid ea")
    case None
    then have "deliver fromSid i (Suc n) ea = deliver fromSid i n failed"
      using m(1) by (simp add: get_msg_def Let_def sid_def [symmetric] failed_def)
    then show ?thesis using Suc.IH [OF f(1)] f(2) by simp
  next
    case (Some o1)
    have sinv: "sess_inv True ea" using Suc.prems by (simp add: deliver_inv_def)
    from find_session_object [OF sinv Some] obtain s where
      s: "ea_sessions ea o1 = Some s" "ss_mSid s = sid" "in_table ea o1 s" .
    define s' where "s' = EventCallback_addEvent True False (s\<lparr> ss_mOutList := ss_mOutList s @ [i] \<rparr>)"
    have ok: "deliver_inv i n (set_session o1 s' ea)" "ea_nextMsg (set_session o1 s' ea) = ea_nextMsg ea"
      using deliver_ok_inv [OF Suc.prems m(1) _ s(1,3), of s'] nth s(2) by (simp_all add: s'_def)
    have "deliver fromSid i (Suc n) ea =
      (if \<not> sid_eq fromSid sid \<and> ss_mStatus s = eExit then deliver fromSid i n failed
       else deliver fromSid i n (set_session o1 s' ea))"
      using m(1) Some s(1) by (simp add: get_msg_def get_session_def Let_def sid_def [symmetric] failed_def s'_def)
    then show ?thesis using Suc.IH [OF f(1)] f(2) Suc.IH [OF ok(1)] ok(2) by simp
  qed
qed

lemma fail_all_eq:
  "Message_getToList (fail_all m) = [] \<and> msg_ok (fail_all m) = msg_ok m \<and>
   Message_getFailure (fail_all m) = Message_getFailure m @ rev (Message_getToList m)"
proof (induction "Message_getToList m" arbitrary: m rule: rev_induct)
  case Nil
  then show ?case by (subst (1 2 3) fail_all.simps) (simp add: SidList_getCount_def)
next
  case (snoc x l)
  define m' where "m' = Message_addFailure x (Message_setToList l m)"
  have l: "Message_getToList m \<noteq> []" "last (Message_getToList m) = x" "butlast (Message_getToList m) = l"
    using snoc.hyps(2) [symmetric] by simp_all
  have n: "nat (int (length (Message_getToList m)) - 1) = length (Message_getToList m) - 1" by arith
  have "fst (SidList_take LAST_INDEX (Message_getToList m)) = x"
    using l n by (simp add: SidList_take_def SidList_get_def lst_get_def lst_index_def LAST_INDEX_def Let_def last_conv_nth)
  then have "fail_all m = fail_all m'" using l
    by (subst fail_all.simps) (simp add: SidList_getCount_def m'_def SidList_take_def lst_take_last)
  moreover have "msg_ok m' = msg_ok m"
    by (simp add: m'_def msg_ok_def Message_addFailure_def Message_setToList_def Message_getFollowBlockList_def)
  ultimately show ?case using snoc.hyps(1) [of m'] snoc.hyps(2) [symmetric] by (simp add: m'_def)
qed

text \<open>A message enters the store with nobody's output list holding it.\<close>

lemma deliver_inv_start:
  assumes "server_inv True ea" "msg_ok m"
  shows "deliver_inv (ea_nextMsg ea) (length (Message_getToList m))
    (ea\<lparr> ea_msgs := (ea_msgs ea)(ea_nextMsg ea \<mapsto> m), ea_nextMsg := ea_nextMsg ea + 1 \<rparr>)"
proof -
  let ?i = "ea_nextMsg ea"
  have inv: "sess_inv True ea" "\<And>j. msg_inv True (ea_msgs ea) (ea_mOutputResultQueue ea) (occ_of ea) j"
    "\<And>j. ea_nextMsg ea \<le> j \<Longrightarrow> ea_msgs ea j = None"
    using assms(1) by (simp_all add: server_inv_def msgs_inv_def)
  have zero: "occ_of ea ?i sid = 0 \<and> ?i \<notin> set (ea_mOutputResultQueue ea)" for sid
    using inv(2) [of ?i] inv(3) [of ?i] by (simp add: msg_inv_def)
  have "msg_inv True ((ea_msgs ea)(?i \<mapsto> m)) (ea_mOutputResultQueue ea) (occ_of ea) j" if "j \<noteq> ?i" for j
    using inv(2) [of j] that msg_inv_cong [of "(ea_msgs ea)(?i \<mapsto> m)" j "ea_msgs ea"] by simp
  then show ?thesis using assms(2) inv zero by (simp add: deliver_inv_def)
qed

text \<open>The end of \<open>process_message\<close>: the completion of a message that nobody waits for.\<close>

lemma deliver_inv_end:
  assumes "deliver_inv i 0 ea" "ea_msgs ea i = Some m"
  shows "server_inv True (if SidList_getCount (Message_getToList m) \<le> 0 then EventHelper_doCompletion i ea else ea)"
    (is "server_inv True ?ea")
proof -
  have inv: "sess_inv True ea" "\<And>j. j \<noteq> i \<Longrightarrow> msg_inv True (ea_msgs ea) (ea_mOutputResultQueue ea) (occ_of ea) j"
    "\<And>j. ea_nextMsg ea \<le> j \<Longrightarrow> ea_msgs ea j = None" "i \<notin> set (ea_mOutputResultQueue ea)" "msg_ok m"
    "\<forall>sid. count_list (Message_getToList m) sid = occ_of ea i sid"
    using assms by (auto simp: deliver_inv_def)
  have sess: "sess_inv True ?ea" using inv(1) by (simp add: EventHelper_doCompletion_def)
  have occ: "occ_of ?ea = occ_of ea" by (simp add: EventHelper_doCompletion_def)
  have "msg_inv True (ea_msgs ?ea) (ea_mOutputResultQueue ?ea) (occ_of ea) j" for j
  proof (cases "j = i")
    case True
    have "Message_getToList m = [] \<longleftrightarrow> (\<forall>sid. occ_of ea i sid = 0)"
      using inv(6) count_list_zero [of "Message_getToList m"] by simp
    moreover have "count_list (ea_mOutputResultQueue ea) i = 0" using inv(4) by (simp add: count_list_0_iff)
    ultimately show ?thesis using True assms(2) inv(5,6)
      by (auto simp: msg_inv_def EventHelper_doCompletion_def)
  next
    case False
    then have "msg_inv True (ea_msgs ?ea) (ea_mOutputResultQueue ?ea) (occ_of ea) j =
      msg_inv True (ea_msgs ea) (ea_mOutputResultQueue ea) (occ_of ea) j"
      by (intro msg_inv_cong) (simp_all add: EventHelper_doCompletion_def)
    then show ?thesis using inv(2) False by simp
  qed
  moreover have "\<forall>j \<ge> ea_nextMsg ?ea. ea_msgs ?ea j = None"
    using inv(3) by (simp add: EventHelper_doCompletion_def)
  ultimately show ?thesis using sess by (simp only: server_inv_def msgs_inv_def occ) blast
qed

lemma process_message_keeps:
  assumes "server_inv True ea" "msg_ok m"
  shows "keeps True (process_message fromSid m ea)"
proof -
  let ?i = "ea_nextMsg ea"
  define ea1 where "ea1 = ea\<lparr> ea_msgs := (ea_msgs ea)(?i \<mapsto> m), ea_nextMsg := ?i + 1 \<rparr>"
  have start: "deliver_inv ?i (length (Message_getToList m)) ea1"
    unfolding ea1_def by (rule deliver_inv_start [OF assms])
  define r where "r = (if 0 < Message_getTotalSize m
    then deliver fromSid ?i (nat (SidList_getCount (Message_getToList m))) ea1
    else Inr (ea1\<lparr> ea_msgs := (ea_msgs ea1)(?i \<mapsto> fail_all m) \<rparr>))"
  have "\<exists>ea2. r = Inr ea2 \<and> deliver_inv ?i 0 ea2"
  proof (cases "0 < Message_getTotalSize m")
    case True
    then show ?thesis using deliver_ok [OF start, of fromSid] by (auto simp: r_def SidList_getCount_def)
  next
    case False
    have zero: "occ_of ea1 ?i sid = 0" for sid
      using start by (auto simp: deliver_inv_def ea1_def)
    have "msg_inv True ((ea_msgs ea1)(?i \<mapsto> fail_all m)) q occ j = msg_inv True (ea_msgs ea1) q occ j" if "j \<noteq> ?i" for q occ j
      using that by (intro msg_inv_cong) simp_all
    then have "deliver_inv ?i 0 (ea1\<lparr> ea_msgs := (ea_msgs ea1)(?i \<mapsto> fail_all m) \<rparr>)"
      using start zero fail_all_eq [of m] assms(2) by (auto simp: deliver_inv_def)
    then show ?thesis using False by (simp add: r_def)
  qed
  then obtain ea2 m2 where ea2: "r = Inr ea2" "deliver_inv ?i 0 ea2" "ea_msgs ea2 ?i = Some m2"
    by (auto simp: deliver_inv_def)
  have "process_message fromSid m ea = Inr (if SidList_getCount (Message_getToList m2) \<le> 0
      then EventHelper_doCompletion ?i ea2 else ea2)"
    unfolding process_message_def Let_def ea1_def [symmetric] r_def [symmetric]
    using ea2(1,3) by (simp add: get_msg_def)
  then show ?thesis using deliver_inv_end [OF ea2(2,3)] by simp
qed

lemma process_messages_keeps:
  "server_inv True ea \<Longrightarrow> list_all msg_ok ms \<Longrightarrow> keeps True (process_messages fromSid ms ea)"
proof (induction ms arbitrary: ea)
  case Nil
  then show ?case by simp
next
  case (Cons m ms)
  then have "keeps True (process_message fromSid m ea)" by (intro process_message_keeps) simp_all
  then obtain ea1 where ea1: "process_message fromSid m ea = Inr ea1" "server_inv True ea1" by (auto simp: keeps_def)
  have "keeps True (process_messages fromSid ms ea1)" by (rule Cons.IH [OF ea1(2)]) (use Cons.prems in simp)
  with ea1(1) show ?case by simp
qed

lemma find_live: "server_inv True ea \<Longrightarrow> find_session sid ea = Some o1 \<Longrightarrow> live_obj ea o1"
  by (auto simp: server_inv_def live_obj_def elim: find_session_object)

lemma close_sessions_keeps: "server_inv True ea \<Longrightarrow> keeps True (close_sessions sids ea)"
proof (induction sids arbitrary: ea)
  case Nil
  then show ?case by simp
next
  case (Cons sid sids)
  show ?case
  proof (cases "find_session sid ea")
    case None
    then show ?thesis using Cons by simp
  next
    case (Some o1)
    have "keeps_live True o1 (update_session o1 (\<lambda>s. EventCallback_addEvent True False (s\<lparr> ss_mStatus := eExit \<rparr>)) ea)"
      by (rule update_keeps_live [OF Cons.prems find_live [OF Cons.prems Some]]) simp
    then have "keeps True (res_bind (update_session o1 (\<lambda>s. EventCallback_addEvent True False (s\<lparr> ss_mStatus := eExit \<rparr>)) ea)
        (close_sessions sids))" by (rule keeps_bind) (rule Cons.IH)
    then show ?thesis using Some by simp
  qed
qed

lemma onResponse_keeps:
  assumes "server_inv True ea" "response_ok r"
  shows "keeps True (EventCallback_onResponse r ea)"
proof -
  let ?sid = "rs_mFromSid r"
  define r1 where "r1 = (if \<not> EventHelper_isSystemSid ?sid
     then (case find_session ?sid ea of None \<Rightarrow> Inr ea | Some o1 \<Rightarrow> update_session o1 response_from ea) else Inr ea)"
  have "keeps_live True o1 (update_session o1 response_from ea)" if "find_session ?sid ea = Some o1" for o1
    by (rule update_keeps_live [OF assms(1) find_live [OF assms(1) that]]) (simp add: response_from_def Let_def)
  then have "keeps True r1" using assms(1) by (auto simp: r1_def intro: keeps_live_keeps split: option.splits)
  then obtain ea1 where ea1: "r1 = Inr ea1" "server_inv True ea1" by (auto simp: keeps_def)
  have "keeps True (process_messages ?sid (Response_takeAll r) ea1)"
    by (rule process_messages_keeps [OF ea1(2)]) (use assms(2) in \<open>simp add: response_ok_def Response_takeAll_eq\<close>)
  then obtain ea2 where ea2: "process_messages ?sid (Response_takeAll r) ea1 = Inr ea2" "server_inv True ea2"
    by (auto simp: keeps_def)
  show ?thesis using close_sessions_keeps [OF ea2(2)] ea1(1) ea2(1)
    unfolding EventCallback_onResponse_def Let_def r1_def [symmetric] by simp
qed

end
