(* ===== verification/SP_Run.thy ===== *)
theory SP_Run
  imports SP_Base
begin

text \<open>
  Runs of a step function. A step that is not enabled answers \<open>None\<close> and is passed over; a fault ends
  the run. The locale says once what every such machine gives: when each enabled step keeps an
  invariant or ends in a fault that is allowed where it happens, so does every run.
\<close>

fun run_steps :: "('st \<Rightarrow> 's \<Rightarrow> 's res option) \<Rightarrow> 'st list \<Rightarrow> 's \<Rightarrow> 's res" where
  "run_steps step [] s = Inr s"
| "run_steps step (st # sts) s =
     (case step st s of None \<Rightarrow> run_steps step sts s | Some r \<Rightarrow> res_bind r (run_steps step sts))"

lemma run_steps_append:
  "run_steps step (xs @ ys) s = res_bind (run_steps step xs s) (run_steps step ys)"
  by (induction xs arbitrary: s) (auto split: option.splits sum.splits simp: res_bind_def)

text \<open>
  The step at which a run ends in a fault. \<open>ok\<close> restricts the steps, \<open>bad f st s\<close> are the faults that
  step \<open>st\<close> may have in state \<open>s\<close>.
\<close>

definition faulted ::
    "('st \<Rightarrow> 's \<Rightarrow> 's res option) \<Rightarrow> (fault \<Rightarrow> 'st \<Rightarrow> 's \<Rightarrow> bool) \<Rightarrow> fault \<Rightarrow> 'st list \<Rightarrow> 's \<Rightarrow> bool" where
  "faulted step bad f sts s \<longleftrightarrow> (\<exists>before st after s'. sts = before @ st # after \<and>
     run_steps step before s = Inr s' \<and> bad f st s')"

lemma faulted_Cons:
  assumes "faulted step bad f sts s1" "\<And>ys. run_steps step (st # ys) s = run_steps step ys s1"
  shows "faulted step bad f (st # sts) s"
proof -
  from assms(1) obtain before st' after s' where
    "sts = before @ st' # after" "run_steps step before s1 = Inr s'" "bad f st' s'" by (auto simp: faulted_def)
  then have "st # sts = (st # before) @ st' # after" "run_steps step (st # before) s = Inr s'" "bad f st' s'"
    unfolding assms(2) by simp_all
  then show ?thesis unfolding faulted_def by blast
qed

locale stepper =
  fixes step :: "'st \<Rightarrow> 's \<Rightarrow> 's res option" and ok :: "'st \<Rightarrow> bool" and inv :: "'s \<Rightarrow> bool"
    and bad :: "fault \<Rightarrow> 'st \<Rightarrow> 's \<Rightarrow> bool"
  assumes step_keeps: "inv s \<Longrightarrow> ok st \<Longrightarrow> step st s = Some r \<Longrightarrow>
    (case r of Inr s' \<Rightarrow> inv s' | Inl f \<Rightarrow> bad f st s)"
begin

lemma run_inv:
  "inv s \<Longrightarrow> list_all ok sts \<Longrightarrow>
   (case run_steps step sts s of Inr s' \<Rightarrow> inv s' | Inl f \<Rightarrow> faulted step bad f sts s)"
proof (induction sts arbitrary: s)
  case (Cons st sts)
  have ok: "ok st" "list_all ok sts" using Cons.prems(2) by simp_all
  have later: "case run_steps step (st # sts) s of Inr s' \<Rightarrow> inv s' | Inl f \<Rightarrow> faulted step bad f (st # sts) s"
    if "inv s1" "\<And>ys. run_steps step (st # ys) s = run_steps step ys s1" for s1
    using Cons.IH [OF that(1) ok(2)] that(2) by (auto split: sum.splits intro: faulted_Cons [OF _ that(2)])
  show ?case
  proof (cases "step st s")
    case None
    then show ?thesis by (intro later [OF Cons.prems(1)]) simp
  next
    case (Some r)
    show ?thesis
    proof (cases r)
      case (Inl f)
      then have "bad f st s" using step_keeps [OF Cons.prems(1) ok(1) Some] by simp
      then have "faulted step bad f (st # sts) s" unfolding faulted_def
        by (intro exI [of _ "[]"] exI [of _ st] exI [of _ sts] exI [of _ s]) simp
      then show ?thesis using Some Inl by simp
    next
      case (Inr s1)
      then have "inv s1" using step_keeps [OF Cons.prems(1) ok(1) Some] by simp
      then show ?thesis by (rule later) (use Some Inr in simp)
    qed
  qed
qed simp

end

end
