(* ===== verification/SP_ServerRun.thy ===== *)
theory SP_ServerRun
  imports SP_EventLoop SP_Run
begin

text \<open>
  The whole server (speventcb.cpp): a worker stage keeps the invariant, hence every interleaving of
  the loop thread, the workers and the completion thread does; the properties of such runs, and a
  run in which two responses overtake each other.
\<close>

subsection \<open>The worker stages\<close>

lemma sum_list_del_at:
  "k < length xs \<Longrightarrow> sum_list (map f xs) = f (xs ! k) + sum_list (map f (del_at k xs))" for f :: "'a \<Rightarrow> 'b :: comm_monoid_add"
  by (subst id_take_nth_drop [of k xs]) (simp_all add: del_at_def add.left_commute)

lemma del_at_update: "del_at k (xs[k := x]) = del_at k xs"
  by (simp add: del_at_def)

definition holders_rest :: "nat \<Rightarrow> 'd event_arg \<Rightarrow> (obj \<times> bool) multiset" where
  "holders_rest k ea = mset (map task_holder (ea_mInputResultQueue ea)) +
     sum_list (map (\<lambda>st. opt_mset (stage_holder st)) (del_at k (ea_active ea)))"

lemma holders_split:
  assumes "k < length (ea_active ea)"
  shows "holders ea = opt_mset (stage_holder (ea_active ea ! k)) + holders_rest k ea"
    "holders (ea\<lparr> ea_active := (ea_active ea)[k := st] \<rparr>) = opt_mset (stage_holder st) + holders_rest k ea"
    "holders (ea\<lparr> ea_active := del_at k (ea_active ea) \<rparr>) = holders_rest k ea"
  using assms sum_list_del_at [of k "ea_active ea" "\<lambda>st. opt_mset (stage_holder st)"]
    sum_list_del_at [of k "(ea_active ea)[k := st]" "\<lambda>st. opt_mset (stage_holder st)"]
  by (simp_all add: holders_def holders_rest_def del_at_update)

lemma holder_running:
  assumes "sess_inv exact ea" "(o1, False) \<in># holders ea"
  obtains s where "ea_sessions ea o1 = Some s" "in_table ea o1 s" "ss_mRunning s" "holds ea o1 = {#(o1, False)#}"
proof (cases "ea_sessions ea o1")
  case None
  have "(o1, False) \<in># holds ea o1" using assms(2) by (simp add: holds_def)
  then show ?thesis using sess_inv_obj [OF assms(1), of o1] None by (simp add: obj_inv_gone)
next
  case (Some s)
  have h: "(o1, False) \<in># holds ea o1" using assms(2) by (simp add: holds_def)
  show ?thesis
  proof (cases "in_table ea o1 s")
    case True
    then show ?thesis using sess_inv_obj [OF assms(1), of o1] h Some that by (auto simp: obj_inv_in split: if_splits)
  next
    case False
    then show ?thesis using sess_inv_obj [OF assms(1), of o1] h Some by (simp add: obj_inv_out)
  qed
qed

lemma holder_doomed:
  assumes "sess_inv exact ea" "(o1, True) \<in># holders ea"
  obtains s where "ea_sessions ea o1 = Some s" "no_sid ea o1" "holds ea o1 = {#(o1, True)#}"
proof (cases "ea_sessions ea o1")
  case None
  have "(o1, True) \<in># holds ea o1" using assms(2) by (simp add: holds_def)
  then show ?thesis using sess_inv_obj [OF assms(1), of o1] None by (simp add: obj_inv_gone)
next
  case (Some s)
  have h: "(o1, True) \<in># holds ea o1" using assms(2) by (simp add: holds_def)
  show ?thesis
  proof (cases "in_table ea o1 s")
    case True
    then show ?thesis using sess_inv_obj [OF assms(1), of o1] h Some by (auto simp: obj_inv_in split: if_splits)
  next
    case False
    then have "no_sid ea o1" using sess_inv_obj [OF assms(1), of o1] Some
      by (auto simp: obj_inv_out only_sid_def no_sid_def in_table_def)
    then show ?thesis using sess_inv_obj [OF assms(1), of o1] Some False that by (simp add: obj_inv_out)
  qed
qed

text \<open>The holders are the same: the object part of the invariant does not see the change.\<close>

lemma sess_inv_holders:
  assumes "sess_inv exact ea" "ea_mSessionManager ea' = ea_mSessionManager ea" "ea_sessions ea' = ea_sessions ea"
    "holders ea' = holders ea" "ea_nextObj ea' = ea_nextObj ea"
    "list_all response_ok (ea_mResponseQueue ea')"
    "list_all (\<lambda>st. \<forall>r. stage_response st = Some r \<longrightarrow> response_ok r) (ea_active ea')"
  shows "sess_inv exact ea'"
proof -
  have "obj_inv exact ea' o1 = obj_inv exact ea o1" for o1
    using assms(2-4) by (intro obj_inv_cong) (simp_all add: holds_def find_session_def)
  then show ?thesis using assms by (simp add: sess_inv_def)
qed

lemma list_all_update: "list_all P xs \<Longrightarrow> P x \<Longrightarrow> list_all P (xs[k := x])"
  by (auto simp: list_all_iff dest!: set_update_subset_insert [THEN subsetD])

lemma list_all_del_at: "list_all P xs \<Longrightarrow> list_all P (del_at k xs)"
  using set_del_at [of k xs] by (auto simp: list_all_iff)

lemma server_inv_simps [simp]:
  "msgs_inv exact (ea\<lparr> ea_active := A \<rparr>) = msgs_inv exact ea"
  "msgs_inv exact (ea\<lparr> ea_mResponseQueue := rq \<rparr>) = msgs_inv exact ea"
  "msgs_inv exact (ea\<lparr> ea_mInputResultQueue := iq \<rparr>) = msgs_inv exact ea"
  by (rule msgs_inv_cong; simp)+

lemma stage_same:
  assumes "server_inv exact ea" "k < length (ea_active ea)" "stage_holder st = stage_holder (ea_active ea ! k)"
    "\<And>r. stage_response st = Some r \<Longrightarrow> response_ok r"
  shows "server_inv exact (ea\<lparr> ea_active := (ea_active ea)[k := st] \<rparr>)"
proof -
  have inv: "sess_inv exact ea" using assms(1) by (simp add: server_inv_def)
  have h: "holders (ea\<lparr> ea_active := (ea_active ea)[k := st] \<rparr>) = holders ea"
    using holders_split [OF assms(2)] assms(3) by simp
  have "sess_inv exact (ea\<lparr> ea_active := (ea_active ea)[k := st] \<rparr>)"
    by (rule sess_inv_holders [OF inv]) (use inv assms(4) h in \<open>simp_all add: sess_inv_def list_all_update\<close>)
  then show ?thesis using assms(1) by (simp add: server_inv_def)
qed

text \<open>\<open>setRunning( 0 )\<close>: the worker lets the session go.\<close>

lemma stage_release:
  assumes "server_inv exact ea" and k: "k < length (ea_active ea)" "stage_holder (ea_active ea ! k) = Some (o1, False)"
    and s: "ea_sessions ea o1 = Some s" and r: "response_ok r"
  shows "server_inv exact ((set_session o1 (s\<lparr> ss_mRunning := False \<rparr>) ea)\<lparr> ea_active := (ea_active ea)[k := Pushing r] \<rparr>)"
    (is "server_inv exact ?ea")
proof -
  have inv: "sess_inv exact ea" "msgs_inv exact ea" using assms(1) by (simp_all add: server_inv_def)
  let ?s = "s\<lparr> ss_mRunning := False \<rparr>"
  let ?base = "ea\<lparr> ea_active := (ea_active ea)[k := Pushing r] \<rparr>"
  have h: "holders ea = add_mset (o1, False) (holders_rest k ea)" "holders ?base = holders_rest k ea"
    using holders_split [OF k(1)] k(2) by (simp_all add: opt_mset_def)
  have hea: "holders ?ea = holders_rest k ea" using h(2) by (simp add: holders_def)
  have "(o1, False) \<in># holders ea" using h(1) by simp
  from holder_running [OF inv(1) this] s have tab: "in_table ea o1 s" and one: "holds ea o1 = {#(o1, False)#}" by auto
  have holds: "holds ea o2 = (if o2 = o1 then add_mset (o1, False) (holds ?ea o2) else holds ?ea o2)" for o2
    by (auto simp: holds_def h(1) hea)
  have find: "find_session sid ?ea = find_session sid ea" for sid by simp
  have "obj_inv exact ?ea o2" for o2
  proof (cases "o2 = o1")
    case True
    have "in_table ?ea o1 ?s" using tab by (simp add: in_table_def)
    moreover have "only_sid ?ea o1 (ss_mSid s)" "holds ?ea o1 = {#}"
      using sess_inv_obj [OF inv(1), of o1] s tab one holds [of o1]
      by (simp_all add: obj_inv_in) (simp add: only_sid_def)
    moreover have "ea_sessions ?ea o1 = Some ?s" by simp
    ultimately show ?thesis unfolding True by (subst obj_inv_in) (assumption, assumption, simp)
  next
    case False
    then have "obj_inv exact ?ea o2 = obj_inv exact ea o2" using holds [of o2] by (intro obj_inv_cong) simp_all
    then show ?thesis using sess_inv_obj [OF inv(1)] by simp
  qed
  then have "sess_inv exact ?ea" using inv(1) s r
    by (auto simp: sess_inv_def stage_response_def intro!: list_all_update)
  moreover have "occ_of ?ea = occ_of ea" using occ_of_same [OF inv(1) s tab, of ?s] by simp
  then have "msgs_inv exact ?ea" using inv(2) msgs_inv_cong [of ?ea ea] by simp
  ultimately show ?thesis by (simp add: server_inv_def)
qed

text \<open>\<open>delete session\<close>: nobody else holds it, and no sid finds it.\<close>

lemma stage_destroy:
  assumes "server_inv exact ea" and k: "k < length (ea_active ea)" "stage_holder (ea_active ea ! k) = Some (o1, True)"
  shows "server_inv exact (ea\<lparr> ea_sessions := (ea_sessions ea)(o1 := None), ea_active := del_at k (ea_active ea) \<rparr>)"
    (is "server_inv exact ?ea")
proof -
  have inv: "sess_inv exact ea" "msgs_inv exact ea" using assms(1) by (simp_all add: server_inv_def)
  have h: "holders ea = add_mset (o1, True) (holders_rest k ea)"
    "holders (ea\<lparr> ea_active := del_at k (ea_active ea) \<rparr>) = holders_rest k ea"
    using holders_split [OF k(1)] k(2) by (simp_all add: opt_mset_def)
  have hea: "holders ?ea = holders_rest k ea" using h(2) by (simp add: holders_def)
  have "(o1, True) \<in># holders ea" using h(1) by simp
  from holder_doomed [OF inv(1) this] have none: "no_sid ea o1" and one: "holds ea o1 = {#(o1, True)#}" by auto
  have holds: "holds ea o2 = (if o2 = o1 then add_mset (o1, True) (holds ?ea o2) else holds ?ea o2)" for o2
    by (auto simp: holds_def h(1) hea)
  have "obj_inv exact ?ea o2" for o2
  proof (cases "o2 = o1")
    case True
    have "no_sid ?ea o1" "holds ?ea o1 = {#}" using none one holds [of o1] by (simp_all add: no_sid_def)
    then show ?thesis using True by (subst obj_inv_gone) simp_all
  next
    case False
    then have "obj_inv exact ?ea o2 = obj_inv exact ea o2" using holds [of o2] by (intro obj_inv_cong) simp_all
    then show ?thesis using sess_inv_obj [OF inv(1)] by simp
  qed
  then have "sess_inv exact ?ea" using inv(1) by (auto simp: sess_inv_def intro!: list_all_del_at)
  moreover have "occ_of ?ea i sid = occ_of ea i sid" for i sid
    using none by (auto simp: occ_of_def no_sid_def split: option.splits)
  then have "msgs_inv exact ?ea" using inv(2) msgs_inv_cong [of ?ea ea] by (simp add: fun_eq_iff)
  ultimately show ?thesis by (simp add: server_inv_def)
qed

lemma stage_push:
  assumes "server_inv exact ea" and k: "k < length (ea_active ea)" "ea_active ea ! k = Pushing r"
  shows "server_inv exact ((push_response r ea)\<lparr> ea_active := del_at k (ea_active ea) \<rparr>)" (is "server_inv exact ?ea")
proof -
  have inv: "sess_inv exact ea" using assms(1) by (simp_all add: server_inv_def)
  have "holders (ea\<lparr> ea_active := del_at k (ea_active ea) \<rparr>) = holders ea"
    using holders_split [OF k(1)] k(2) by (simp add: opt_mset_def)
  then have h: "holders ?ea = holders ea" by (simp add: holders_def push_response_def)
  have "response_ok r" using inv k by (auto simp: sess_inv_def list_all_length stage_response_def)
  then have "sess_inv exact ?ea" using inv
    by (intro sess_inv_holders [OF inv _ _ h]) (auto simp: push_response_def sess_inv_def intro!: list_all_del_at)
  then show ?thesis using assms(1) by (simp add: server_inv_def push_response_def)
qed

text \<open>One stage of one worker, with the bookkeeping of \<open>server_step\<close>.\<close>

definition stage_result :: "nat \<Rightarrow> stage option \<times> 'd event_arg \<Rightarrow> 'd event_arg" where
  "stage_result k p = (case p of (st, ea') \<Rightarrow>
     ea'\<lparr> ea_active := (case st of None \<Rightarrow> del_at k (ea_active ea') | Some st' \<Rightarrow> (ea_active ea')[k := st']) \<rparr>)"

lemma stage_result_simps [simp]:
  "stage_result k (None, ea) = ea\<lparr> ea_active := del_at k (ea_active ea) \<rparr>"
  "stage_result k (Some st, ea) = ea\<lparr> ea_active := (ea_active ea)[k := st] \<rparr>"
  by (simp_all add: stage_result_def)

lemma fill_response_ok: "handler_ok h \<Longrightarrow> response_ok (fill_response h (Response_new sid))"
  by (simp add: handler_ok_def response_ok_def fill_response_def Response_new_def)

lemma push_response_inv:
  assumes "server_inv exact ea" "response_ok r"
  shows "server_inv exact (push_response r ea)"
proof -
  have inv: "sess_inv exact ea" using assms(1) by (simp add: server_inv_def)
  have "sess_inv exact (push_response r ea)"
    by (rule sess_inv_holders [OF inv]) (use inv assms(2) in \<open>simp_all add: push_response_def sess_inv_def\<close>)
  then show ?thesis using assms(1) by (simp add: server_inv_def push_response_def)
qed

text \<open>A stage that keeps its hold and changes flags or the request of the session.\<close>

lemma stage_hold:
  assumes inv: "server_inv exact ea" and k: "k < length (ea_active ea)" "stage_holder (ea_active ea ! k) = Some (o1, False)"
    and st: "stage_holder st = Some (o1, False)" "\<And>r. stage_response st = Some r \<Longrightarrow> response_ok r"
    and s: "ea_sessions ea o1 = Some s" "ss_mSid s' = ss_mSid s" "ss_mRunning s' = ss_mRunning s" "ss_mOutList s' = ss_mOutList s"
  shows "server_inv exact (stage_result k (Some st, set_session o1 s' ea))"
proof -
  have sinv: "sess_inv exact ea" using inv by (simp add: server_inv_def)
  have "(o1, False) \<in># holders ea" using holders_split(1) [OF k(1)] k(2) by (simp add: opt_mset_def)
  from holder_running [OF sinv this] obtain s0 where "ea_sessions ea o1 = Some s0" "in_table ea o1 s0" by blast
  then have "server_inv exact (set_session o1 s' ea)" using server_inv_update [OF inv s(1) _ s(2-4)] s(1) by simp
  from stage_same [OF this, of k st] show ?thesis using k st by simp
qed

lemma worker_stage_keeps:
  assumes inv: "server_inv exact ea" and k: "k < length (ea_active ea)" and h: "handler_ok h"
  shows "keeps exact (res_bind (worker_stage initRet h (ea_active ea ! k) ea) (\<lambda>p. Inr (stage_result k p)))"
proof -
  have sinv: "sess_inv exact ea" using inv by (simp add: server_inv_def)
  have held: "(o1, b) \<in># holders ea" if "stage_holder (ea_active ea ! k) = Some (o1, b)" for o1 b
    using holders_split(1) [OF k] that by (simp add: opt_mset_def)
  have get: "\<exists>s. get_session o1 ea = Inr s \<and> ea_sessions ea o1 = Some s"
    if "stage_holder (ea_active ea ! k) = Some (o1, b)" for o1 b
  proof (cases b)
    case True
    with held [OF that] have "(o1, True) \<in># holders ea" by simp
    from holder_doomed [OF sinv this] obtain s where "ea_sessions ea o1 = Some s" by blast
    then show ?thesis by (simp add: get_session_def)
  next
    case False
    with held [OF that] have "(o1, False) \<in># holders ea" by simp
    from holder_running [OF sinv this] obtain s where "ea_sessions ea o1 = Some s" by blast
    then show ?thesis by (simp add: get_session_def)
  qed
  have resp: "response_ok r" if "stage_response (ea_active ea ! k) = Some r" for r
    using sinv k that by (auto simp: sess_inv_def list_all_length)
  note new_ok = fill_response_ok [OF h]
  have empty_ok: "response_ok (Response_new sid)" for sid by (simp add: response_ok_def Response_new_def)
  have destroy: "server_inv exact (stage_result k (Some (Destroying o1), ea'))"
    if "server_inv exact ea'" "ea_active ea' = ea_active ea" "stage_holder (ea_active ea ! k) = Some (o1, True)" for ea' :: "'a event_arg" and o1
    using stage_same [OF that(1), of k "Destroying o1"] that k by (simp add: stage_response_def)
  show ?thesis
  proof (cases "ea_active ea ! k")
    case (Taken t)
    show ?thesis
    proof (cases t)
      case (Worker o1)
      have hold: "stage_holder (ea_active ea ! k) = Some (o1, False)" using Taken Worker by simp
      from get [OF hold] obtain s where s: "get_session o1 ea = Inr s" "ea_sessions ea o1 = Some s" by blast
      show ?thesis using Taken Worker s(1) new_ok
        by (auto simp: EventHelper_worker_def Let_def stage_response_def
            intro!: stage_hold [OF inv k hold _ _ s(2)] simp del: stage_result_simps)
    next
      case (Start o1)
      have hold: "stage_holder (ea_active ea ! k) = Some (o1, False)" using Taken Start by simp
      from get [OF hold] obtain s where s: "get_session o1 ea = Inr s" "ea_sessions ea o1 = Some s" by blast
      show ?thesis using Taken Start s(1) new_ok empty_ok
        by (auto simp: EventHelper_start_def Let_def stage_response_def
            intro!: stage_hold [OF inv k hold _ _ s(2)] simp del: stage_result_simps)
    next
      case (Error o1)
      have hold: "stage_holder (ea_active ea ! k) = Some (o1, True)" using Taken Error by simp
      from get [OF hold] obtain s where s: "get_session o1 ea = Inr s" by blast
      show ?thesis using Taken Error s destroy [OF push_response_inv [OF inv new_ok] _ hold]
        by (simp add: EventHelper_error_def push_response_def)
    next
      case (Timeout o1)
      have hold: "stage_holder (ea_active ea ! k) = Some (o1, True)" using Taken Timeout by simp
      from get [OF hold] obtain s where s: "get_session o1 ea = Inr s" by blast
      show ?thesis using Taken Timeout s destroy [OF push_response_inv [OF inv new_ok] _ hold]
        by (simp add: EventHelper_timeout_def push_response_def)
    next
      case (Close o1)
      have hold: "stage_holder (ea_active ea ! k) = Some (o1, True)" using Taken Close by simp
      from get [OF hold] obtain s where s: "get_session o1 ea = Inr s" by blast
      show ?thesis using Taken Close s destroy [OF inv refl hold] by (simp add: EventHelper_myclose_def)
    qed
  next
    case (Handled o1 r)
    have hold: "stage_holder (ea_active ea ! k) = Some (o1, False)" "response_ok r"
      using Handled resp by (simp_all add: stage_response_def)
    from get [OF hold(1)] obtain s where s: "get_session o1 ea = Inr s" "ea_sessions ea o1 = Some s" by blast
    show ?thesis using Handled s(1) stage_release [OF inv k hold(1) s(2) hold(2)] by (simp add: update_session_def)
  next
    case (Started o1 r status)
    have hold: "stage_holder (ea_active ea ! k) = Some (o1, False)" "response_ok r"
      using Started resp by (simp_all add: stage_response_def)
    from get [OF hold(1)] obtain s where s: "get_session o1 ea = Inr s" "ea_sessions ea o1 = Some s" by blast
    show ?thesis using Started s(1) hold(2)
      by (auto simp: update_session_def stage_response_def
          intro!: stage_hold [OF inv k hold(1) _ _ s(2)] simp del: stage_result_simps)
  next
    case (StatusSet o1 r)
    have hold: "stage_holder (ea_active ea ! k) = Some (o1, False)" "response_ok r"
      using StatusSet resp by (simp_all add: stage_response_def)
    from get [OF hold(1)] obtain s where s: "get_session o1 ea = Inr s" "ea_sessions ea o1 = Some s" by blast
    show ?thesis using StatusSet s(1) stage_release [OF inv k hold(1) s(2) hold(2)] by (simp add: update_session_def)
  next
    case (Pushing r)
    show ?thesis using Pushing stage_push [OF inv k Pushing] by (simp add: push_response_def)
  next
    case (Destroying o1)
    have hold: "stage_holder (ea_active ea ! k) = Some (o1, True)" using Destroying by simp
    from get [OF hold] obtain s where s: "get_session o1 ea = Inr s" by blast
    show ?thesis using Destroying s stage_destroy [OF inv k hold] by simp
  qed
qed

subsection \<open>The server\<close>

lemma take_task_inv:
  assumes "server_inv exact ea" "ea_mInputResultQueue ea = t # ts"
  shows "server_inv exact (ea\<lparr> ea_mInputResultQueue := ts, ea_active := ea_active ea @ [Taken t] \<rparr>)" (is "server_inv exact ?ea")
proof -
  have inv: "sess_inv exact ea" using assms(1) by (simp add: server_inv_def)
  have h: "holders ?ea = holders ea" using assms(2) by (simp add: holders_def opt_mset_def)
  have "sess_inv exact ?ea"
    by (rule sess_inv_holders [OF inv _ _ h]) (use inv in \<open>simp_all add: sess_inv_def stage_response_def\<close>)
  then show ?thesis using assms(1) by (simp add: server_inv_def)
qed

lemma take_response_inv:
  assumes "server_inv exact ea" "ea_mResponseQueue ea = r # rs"
  shows "server_inv exact (ea\<lparr> ea_mResponseQueue := rs \<rparr>) \<and> response_ok r"
proof -
  have inv: "sess_inv exact ea" using assms(1) by (simp add: server_inv_def)
  have "sess_inv exact (ea\<lparr> ea_mResponseQueue := rs \<rparr>)"
    by (rule sess_inv_holders [OF inv]) (use inv assms(2) in \<open>simp_all add: sess_inv_def\<close>)
  then show ?thesis using assms inv by (simp add: server_inv_def sess_inv_def)
qed

lemma take_completed_inv:
  assumes "server_inv exact ea" "ea_mOutputResultQueue ea = i # is"
  shows "ea_msgs ea i \<noteq> None \<and>
    server_inv exact (ea\<lparr> ea_mOutputResultQueue := is, ea_msgs := (ea_msgs ea)(i := None) \<rparr>)" (is "_ \<and> server_inv exact ?ea")
proof -
  have inv: "sess_inv exact ea" "\<And>j. msg_inv exact (ea_msgs ea) (i # is) (occ_of ea) j"
    "\<And>j. ea_nextMsg ea \<le> j \<Longrightarrow> ea_msgs ea j = None"
    using assms by (simp_all add: server_inv_def msgs_inv_def)
  from inv(2) [of i] obtain m where m: "ea_msgs ea i = Some m"
    by (cases "ea_msgs ea i") (simp_all add: msg_inv_def)
  with inv(2) [of i] have fin: "\<forall>sid. occ_of ea i sid = 0" "i \<notin> set is"
    by (auto simp: msg_inv_def count_list_0_iff split: if_splits dest!: agree_le)
  have "msg_inv exact ((ea_msgs ea)(i := None)) is (occ_of ea) j" for j
  proof (cases "j = i")
    case True
    then show ?thesis using fin by (simp add: msg_inv_def)
  next
    case False
    then have "msg_inv exact ((ea_msgs ea)(i := None)) is (occ_of ea) j = msg_inv exact (ea_msgs ea) (i # is) (occ_of ea) j"
      by (intro msg_inv_cong) simp_all
    then show ?thesis using inv(2) by simp
  qed
  then have "msgs_inv exact ?ea" using inv(3) by (simp add: msgs_inv_def)
  moreover have "sess_inv exact ?ea" using inv(1) by simp
  ultimately show ?thesis using m by (simp add: server_inv_def)
qed

fun is_accept :: "'d server_step \<Rightarrow> bool" where
  "is_accept (Accept d ip port serverIP) = True"
| "is_accept _ = False"

lemma server_step_keeps:
  assumes inv: "server_inv True ea" and step: "server_step ac dec st ea = Some r"
  shows "if is_accept st \<and> table_full ea then r = Inl AssertFail else keeps True r"
proof -
  have sinv: "sess_inv True ea" using inv by (simp add: server_inv_def)
  have live: "live_obj ea o1" if "ea_sessions ea o1 = Some s" "ss_readEv s \<or> ss_writeEv s" for o1 s
    using armed_in_table [OF sinv that] that(1) by (auto simp: live_obj_def)
  show ?thesis
  proof (cases st)
    case (Accept d ip port serverIP)
    then show ?thesis using step onAccept_keeps [OF inv, of ac d ip port serverIP] by (auto simp: server_step_def)
  next
    case (Readable o1 e)
    then show ?thesis using step onRead_keeps [OF inv live]
      by (auto simp: server_step_def split: option.splits if_splits)
  next
    case (Writeable o1 e)
    then show ?thesis using step onWrite_keeps [OF inv live]
      by (auto simp: server_step_def split: option.splits if_splits)
  next
    case TakeResponse
    then show ?thesis using step take_response_inv [OF inv] onResponse_keeps
      by (auto simp: server_step_def split: list.splits)
  next
    case TakeTask
    then show ?thesis using step take_task_inv [OF inv]
      by (auto simp: server_step_def split: list.splits)
  next
    case (WorkerStage k initRet h)
    then show ?thesis using step worker_stage_keeps [OF inv, of k h initRet]
      by (auto simp: server_step_def stage_result_def split_def split: if_splits)
  next
    case TakeCompleted
    then show ?thesis using step take_completed_inv [OF inv]
      by (auto simp: server_step_def get_msg_def split: list.splits)
  qed
qed

lemma session_of_new: "session_of SessionManager_new sid = None"
  by (simp add: session_of_entry entry_of_def SessionManager_new_def split: option.splits)

lemma server_inv_start: "server_inv True (EventArg_new :: 'd event_arg)" (is "server_inv True ?ea")
proof -
  have none: "find_session sid ?ea = None" for sid
    by (simp add: find_session_def EventArg_new_def session_of_new)
  have "holds ?ea o1 = {#}" "ea_sessions ?ea o1 = None" for o1
    by (simp_all add: EventArg_new_def holds_def holders_def)
  then have "obj_inv True ?ea o1" for o1 by (simp add: obj_inv_gone no_sid_def none)
  then have "sess_inv True ?ea" by (simp add: sess_inv_def) (simp add: EventArg_new_def table_inv_new)
  moreover have "occ_of ?ea i sid = 0" for i sid by (simp add: occ_of_def none)
  then have "msgs_inv True ?ea" by (simp add: msgs_inv_def msg_inv_def) (simp add: EventArg_new_def)
  ultimately show ?thesis by (simp add: server_inv_def)
qed

text \<open>A run that ends in the assertion of \<open>onAccept\<close>: some step accepts while the table is full.\<close>

definition accept_when_full :: "accept_arg \<Rightarrow> 'd decoder \<Rightarrow> 'd server_step list \<Rightarrow> 'd event_arg \<Rightarrow> bool" where
  "accept_when_full ac dec sts ea \<longleftrightarrow> (\<exists>before st after ea'. sts = before @ st # after \<and> is_accept st \<and>
     server_run ac dec before ea = Inr ea' \<and> table_full ea')"

lemma server_run_steps: "server_run ac dec sts ea = run_steps (server_step ac dec) sts ea"
  by (induction sts arbitrary: ea) (auto split: option.splits sum.splits simp: res_bind_def)

interpretation sv: stepper "server_step ac dec" "\<lambda>_. True" "server_inv True"
    "\<lambda>f st ea. f = AssertFail \<and> is_accept st \<and> table_full ea" for ac :: accept_arg and dec :: "'d decoder"
proof
  fix ea :: "'d event_arg" and st r
  assume "server_inv True ea" "server_step ac dec st ea = Some r"
  from server_step_keeps [OF this]
  show "case r of Inr ea' \<Rightarrow> server_inv True ea' | Inl f \<Rightarrow> f = AssertFail \<and> is_accept st \<and> table_full ea"
    by (auto simp: keeps_def split: if_splits)
qed

lemma server_run_inv:
  assumes "server_inv True ea"
  shows "case server_run ac dec sts ea of
     Inr ea' \<Rightarrow> server_inv True ea'
   | Inl f \<Rightarrow> f = AssertFail \<and> accept_when_full ac dec sts ea"
  using sv.run_inv [OF assms, of sts ac dec]
  by (auto simp: server_run_steps accept_when_full_def faulted_def list_all_iff split: sum.splits)

subsection \<open>Overtaking responses\<close>

text \<open>The first session of a new server: its sid, the table with it, and the table without it again.\<close>

lemma first_session:
  obtains key sq n mgr mgr' where "SessionManager_allocKey (SessionManager_new :: obj session_manager) = Inr (key, sq, n)"
    "key \<noteq> 0" "SessionManager_put key (the sq) 0 n = Inr mgr" "SessionManager_getCount mgr = 1"
    "session_of mgr = [\<lparr> sid_mKey = key, sid_mSeq = the sq \<rparr> \<mapsto> 0]" "eColPerRow \<le> unat key"
    "SessionManager_remove key (the sq) mgr = Inr (Some 0, mgr')" "session_of mgr' = Map.empty"
proof -
  have new: "session_of (SessionManager_new :: obj session_manager) = Map.empty" by (auto simp: session_of_new)
  from open_ok [OF table_inv_new, of "0 :: obj"] obtain a mgr where
    a: "SessionTable_open (0 :: obj) SessionManager_new = Inr (a, mgr)" "table_inv mgr" and
    c: "case a of None \<Rightarrow> session_of mgr = session_of SessionManager_new \<and>
          card (dom (session_of (SessionManager_new :: obj session_manager))) = table_capacity
     | Some sid \<Rightarrow> session_of mgr = (session_of SessionManager_new)(sid \<mapsto> 0) \<and>
         card (dom (session_of (SessionManager_new :: obj session_manager))) < table_capacity \<and>
         eColPerRow \<le> unat (sid_mKey sid) \<and> sid_mKey sid \<notin> sid_mKey ` dom (session_of (SessionManager_new :: obj session_manager)) \<and>
         sid_mSeq sid = seq_of (SessionManager_new :: obj session_manager) (sid_mKey sid)" by blast
  from c obtain sid where sid: "a = Some sid" "session_of mgr = [sid \<mapsto> 0]" "eColPerRow \<le> unat (sid_mKey sid)"
    unfolding new by (auto simp: table_capacity_def split: option.splits)
  have "card {k. live mgr k} = 1" using card_live [of mgr] sid(2) by simp
  then have count: "SessionManager_getCount mgr = 1"
    using a(2) by (simp add: table_inv_def sm_inv_def SessionManager_getCount_def)
  from a(1) sid(1) obtain key sq n where k: "SessionManager_allocKey (SessionManager_new :: obj session_manager) = Inr (key, sq, n)"
    "key \<noteq> 0" "SessionManager_put key (the sq) 0 n = Inr mgr" "sid = \<lparr> sid_mKey = key, sid_mSeq = the sq \<rparr>"
    by (auto simp: SessionTable_open_def res_bind_eq_Inr_iff split: if_splits)
  from close_ok [OF a(2), of sid] sid(2) obtain mgr' where
    "SessionManager_remove (sid_mKey sid) (sid_mSeq sid) mgr = Inr (Some 0, mgr')" "session_of mgr' = Map.empty"
    by (auto simp: SessionTable_close_def)
  then show thesis using that k count sid(2,3) by simp
qed

lemma accept_first:
  assumes "1 \<le> ac_mMaxConnections ac" "1 \<le> ac_mReqQueueSize ac"
  shows "\<exists>sid mgr. session_of mgr = [sid \<mapsto> 0] \<and> EventHelper_isSystemSid sid = False \<and>
    EventCallback_onAccept ac d ip port None EventArg_new = Inr
      \<lparr> ea_mSessionManager = mgr,
         ea_sessions = [0 \<mapsto> (Session_new d sid)\<lparr> ss_mRunning := True,
           ss_mRequest := Request_setClientPort port (Request_setClientIP ip (Request_new d)) \<rparr>],
         ea_msgs = Map.empty, ea_mInputResultQueue = [Start 0], ea_mOutputResultQueue = [],
         ea_mResponseQueue = [], ea_active = [], ea_nextObj = 1, ea_nextMsg = 0 \<rparr>"
proof (rule first_session)
  fix key sq n mgr mgr'
  assume k: "SessionManager_allocKey (SessionManager_new :: obj session_manager) = Inr (key, sq, n)"
    "key \<noteq> 0" "SessionManager_put key (the sq) 0 n = Inr mgr" "SessionManager_getCount mgr = 1"
    "session_of mgr = [\<lparr> sid_mKey = key, sid_mSeq = the sq \<rparr> \<mapsto> 0]" "eColPerRow \<le> unat key"
  let ?sid = "\<lparr> sid_mKey = key, sid_mSeq = the sq \<rparr>"
  have "EventHelper_isSystemSid ?sid = False"
    using k(6) by (auto simp: EventHelper_isSystemSid_def eTimerKey_def ePushKey_def eColPerRow_def)
  then show ?thesis
    using assms k(2,5)
    by (intro exI [of _ ?sid] exI [of _ mgr])
      (simp add: EventCallback_onAccept_def EventArg_new_def k(1,3,4) Let_def EventHelper_doStart_def
        get_session_def set_session_def push_task_def Session_new_def Request_new_def)
qed

text \<open>A handler that replies \<open>xs\<close> to the session \<open>sid\<close> and wants to keep it; a decoder of one-byte messages.\<close>

definition reply_result :: "sp_sid \<Rightarrow> bytes \<Rightarrow> unit handler_result" where
  "reply_result sid xs = \<lparr> hr_ret = 0, hr_decoder = (),
     hr_messages = [Message_append xs (Message_setToList [sid] (Message_new 0))], hr_toClose = [] \<rparr>"

definition silent_result :: "unit handler_result" where
  "silent_result = \<lparr> hr_ret = 0, hr_decoder = (), hr_messages = [], hr_toClose = [] \<rparr>"

definition byte_decoder :: "unit decoder" where
  "byte_decoder d buf = (case buf of [] \<Rightarrow> (False, d, []) | x # xs \<Rightarrow> (True, d, xs))"

definition start_steps :: "unit server_step list" where
  "start_steps = [Accept () [] 0 None, TakeTask, WorkerStage 0 0 silent_result, WorkerStage 0 0 silent_result,
     WorkerStage 0 0 silent_result, WorkerStage 0 0 silent_result, TakeResponse]"

text \<open>
  Two requests on one connection: the worker of the first has let the session go and not yet
  pushed its response when the second is read, handled and answered by another worker.
\<close>

definition reorder_steps :: "sp_sid \<Rightarrow> unit server_step list" where
  "reorder_steps sid = start_steps @
     [Readable 0 (Received ''1''), TakeTask,
      WorkerStage 0 0 (reply_result sid ''one''), WorkerStage 0 0 (reply_result sid ''one''),
      Readable 0 (Received ''2''), TakeTask,
      WorkerStage 1 0 (reply_result sid ''two''), WorkerStage 1 0 (reply_result sid ''two''), WorkerStage 1 0 (reply_result sid ''two''),
      WorkerStage 0 0 (reply_result sid ''one''), TakeResponse, TakeResponse]"

lemma server_run_append:
  "server_run ac dec (xs @ ys) ea = res_bind (server_run ac dec xs ea) (server_run ac dec ys)"
  using run_steps_append [of "server_step ac dec" xs ys ea] by (simp add: server_run_steps [abs_def])

definition one_session :: "obj session_manager \<Rightarrow> unit session \<Rightarrow> unit event_arg" where
  "one_session mgr s = \<lparr> ea_mSessionManager = mgr, ea_sessions = [0 \<mapsto> s],
         ea_msgs = Map.empty, ea_mInputResultQueue = [], ea_mOutputResultQueue = [],
         ea_mResponseQueue = [], ea_active = [], ea_nextObj = 1, ea_nextMsg = 0 \<rparr>"

lemma start_run:
  assumes "1 \<le> ac_mMaxConnections ac" "1 \<le> ac_mReqQueueSize ac"
  shows "\<exists>sid mgr q. session_of mgr = [sid \<mapsto> 0] \<and> \<not> EventHelper_isSystemSid sid \<and>
    server_run ac dec start_steps EventArg_new = Inr (one_session mgr ((Session_new () sid)
     \<lparr> ss_mRequest := q, ss_readEv := True, ss_writeEv := True, ss_mReading := True, ss_mWriting := True \<rparr>))"
proof -
  from accept_first [OF assms, of "()" "[]" 0] obtain sid mgr where
    a: "session_of mgr = [sid \<mapsto> 0]" "EventHelper_isSystemSid sid = False"
    "EventCallback_onAccept ac () [] 0 None EventArg_new = Inr
      \<lparr> ea_mSessionManager = mgr,
         ea_sessions = [0 \<mapsto> (Session_new () sid)\<lparr> ss_mRunning := True,
           ss_mRequest := Request_setClientPort 0 (Request_setClientIP [] (Request_new ())) \<rparr>],
         ea_msgs = Map.empty, ea_mInputResultQueue = [Start 0], ea_mOutputResultQueue = [],
         ea_mResponseQueue = [], ea_active = [], ea_nextObj = 1, ea_nextMsg = 0 \<rparr>" by blast
  show ?thesis
    using a(1,2)
    by (intro exI [of _ sid] exI [of _ mgr] exI [of _ "Request_setClientPort 0 (Request_setClientIP [] (Request_new ()))"])
     (simp add: start_steps_def server_step_def a(3) EventHelper_start_def get_session_def silent_result_def
      handler_ok_def update_session_def set_session_def Let_def push_response_def
      EventCallback_onResponse_def find_session_def fill_response_def Response_new_def Response_takeAll_eq
      Response_getToCloseList_def lazy_def response_from_def EventCallback_addEvent_def Session_new_def
      Request_setMsgDecoder_def SidList_new_def one_session_def Request_setClientPort_def Request_setClientIP_def Request_new_def)
qed

definition small_server :: accept_arg where
  "small_server = \<lparr> ac_mReqQueueSize = 128, ac_mMaxConnections = 256, ac_mRefusedMsg = [] \<rparr>"

lemmas run_simps = server_step_def get_session_def handler_ok_def update_session_def set_session_def Let_def
  push_response_def EventCallback_onResponse_def EventCallback_onRead_def decode_and_work_def EventHelper_worker_def
  EventHelper_start_def EventHelper_doWork_def push_task_def find_session_def fill_response_def Response_new_def
  Response_takeAll_eq Response_getToCloseList_def lazy_def response_from_def EventCallback_addEvent_def Session_addRead_def
  Request_setMsgDecoder_def SidList_new_def

lemma reorder_run:
  "\<exists>sid ea s m0 m1. server_run small_server byte_decoder (reorder_steps sid) EventArg_new = Inr ea \<and>
     ea_sessions ea 0 = Some s \<and> ss_mSid s = sid \<and> \<not> ss_mRunning s \<and> ss_mOutList s = [0, 1] \<and>
     find_session sid ea = Some 0 \<and> ea_msgs ea 0 = Some m0 \<and> ea_msgs ea 1 = Some m1 \<and>
     Message_getMsg m0 = ''two'' \<and> Message_getMsg m1 = ''one'' \<and> Message_getToList m0 = [sid]"
proof -
  have "1 \<le> ac_mMaxConnections small_server" "1 \<le> ac_mReqQueueSize small_server"
    by (simp_all add: small_server_def)
  from start_run [OF this, of byte_decoder] obtain sid mgr q where
    a: "session_of mgr = [sid \<mapsto> 0]" "\<not> EventHelper_isSystemSid sid"
    "server_run small_server byte_decoder start_steps EventArg_new = Inr (one_session mgr ((Session_new () sid)
     \<lparr> ss_mRequest := q, ss_readEv := True, ss_writeEv := True, ss_mReading := True, ss_mWriting := True \<rparr>))" by blast
  show ?thesis
    unfolding reorder_steps_def server_run_append a(3) res_bind_simps one_session_def
    by (rule exI [of _ sid]) (simp add: a(1,2) run_simps byte_decoder_def reply_result_def Session_new_def process_message_def EventHelper_doCompletion_def
      get_msg_def SidList_getCount_def SidList_get_def lst_get_def lst_index_def LAST_INDEX_def Message_append_def Message_new_def
      Message_setToList_def Message_getToList_def Message_getTotalSize_def Message_getMsg_def
      msg_ok_def Message_getFollowBlockList_def MsgBlockList_new_def del_at_def)
qed

subsection \<open>Properties\<close>

text \<open>
  C1: Whatever the clients send, the handlers answer, the sockets accept and the threads interleave,
  the server runs without a fault: no session or message is used after it was deleted, and the only
  assertion that can fail is the one of onAccept, in a step that accepts while all 64512 sessions
  of the table are in use; otherwise the invariant of sessions, holders and messages holds.
\<close>

theorem server_run_safe:
  "case server_run ac dec steps EventArg_new of
     Inr ea \<Rightarrow> server_inv True ea
   | Inl f \<Rightarrow> f = AssertFail \<and> accept_when_full ac dec steps EventArg_new"
  by (rule server_run_inv [OF server_inv_start])

lemma reached_inv: "server_run ac dec steps EventArg_new = Inr ea \<Longrightarrow> server_inv True ea"
  using server_run_inv [OF server_inv_start, of ac dec steps] by simp

text \<open>
  C2: A session is touched by one thread at a time. While the table finds a session, the only task
  or worker that holds it is the one for which it is marked running; once it has left the table it
  is held by exactly one task, the one that will delete it, and no event of it is armed; after
  that nobody holds it.
\<close>

theorem session_one_holder:
  assumes "server_run ac dec steps EventArg_new = Inr ea"
  shows "case ea_sessions ea o1 of
     None \<Rightarrow> holds ea o1 = {#} \<and> (\<forall>sid. find_session sid ea \<noteq> Some o1)
   | Some s \<Rightarrow>
       if find_session (ss_mSid s) ea = Some o1 then holds ea o1 = (if ss_mRunning s then {#(o1, False)#} else {#})
       else holds ea o1 = {#(o1, True)#} \<and> \<not> ss_readEv s \<and> \<not> ss_writeEv s \<and> ss_mOutList s = []"
proof -
  have "obj_inv True ea o1" using reached_inv [OF assms] by (simp add: server_inv_def sess_inv_def)
  then show ?thesis by (auto simp: obj_inv_def in_table_def no_sid_def split: option.splits if_splits)
qed

text \<open>
  C3: Every message is completed exactly once and only when it is done. A message in the output
  list of a session is stored; its to list holds each sid as often as it stands in that session's
  output list (the refusal of onAccept, which has no to list, stands in one); and it is in the
  queue of completed messages once, exactly when no receiver is left and no output list holds it.
\<close>

theorem message_completed_once:
  assumes "server_run ac dec steps EventArg_new = Inr ea"
  shows "case ea_msgs ea i of
     None \<Rightarrow> (\<forall>sid. occ_of ea i sid = 0) \<and> i \<notin> set (ea_mOutputResultQueue ea)
   | Some m \<Rightarrow>
       ((\<forall>sid. count_list (Message_getToList m) sid = occ_of ea i sid) \<or>
        Message_getToList m = [] \<and> (\<exists>s0. \<forall>sid. occ_of ea i sid = (if sid = s0 then 1 else 0))) \<and>
       count_list (ea_mOutputResultQueue ea) i = (if Message_getToList m = [] \<and> (\<forall>sid. occ_of ea i sid = 0) then 1 else 0)"
proof -
  have "msg_inv True (ea_msgs ea) (ea_mOutputResultQueue ea) (occ_of ea) i"
    using reached_inv [OF assms] by (simp add: server_inv_def msgs_inv_def)
  then show ?thesis by (auto simp: msg_inv_def split: option.splits)
qed

text \<open>
  C4: Responses can overtake each other. A worker marks its session as no longer running before it
  pushes the response, so the next request of the same connection may be handled and answered by
  another worker first: with the interleaving of \<open>reorder_steps\<close>, the client that sent request 1,
  then request 2, gets the answer of request 2 first.
\<close>

theorem response_reorder:
  "\<exists>sid ea s. server_run small_server byte_decoder (reorder_steps sid) EventArg_new = Inr ea \<and>
     ea_sessions ea 0 = Some s \<and> ss_mSid s = sid \<and>
     map (\<lambda>i. map_option Message_getMsg (ea_msgs ea i)) (ss_mOutList s) = [Some ''two'', Some ''one'']"
proof -
  from reorder_run obtain sid ea s m0 m1 where
    "server_run small_server byte_decoder (reorder_steps sid) EventArg_new = Inr ea"
    "ea_sessions ea 0 = Some s" "ss_mSid s = sid" "ss_mOutList s = [0, 1]" "ea_msgs ea 0 = Some m0" "ea_msgs ea 1 = Some m1"
    "Message_getMsg m0 = ''two''" "Message_getMsg m1 = ''one''" by blast
  then show ?thesis by (intro exI [of _ sid] exI [of _ ea] exI [of _ s]) simp
qed

lemma session_one_holder_witness:
  "\<exists>sid ea s. server_run small_server byte_decoder (reorder_steps sid) EventArg_new = Inr ea \<and>
     ea_sessions ea 0 = Some s \<and> holds ea 0 = {#}"
proof -
  from reorder_run obtain sid ea s where
    r: "server_run small_server byte_decoder (reorder_steps sid) EventArg_new = Inr ea"
    and s: "ea_sessions ea 0 = Some s" "ss_mSid s = sid" "\<not> ss_mRunning s" "find_session sid ea = Some 0" by blast
  have "holds ea 0 = {#}" using session_one_holder [OF r, of 0] s by simp
  then show ?thesis using r s(1) by blast
qed

lemma message_completed_once_witness:
  "\<exists>sid ea m. server_run small_server byte_decoder (reorder_steps sid) EventArg_new = Inr ea \<and>
     ea_msgs ea 0 = Some m \<and> Message_getToList m = [sid] \<and> occ_of ea 0 sid = 1 \<and> 0 \<notin> set (ea_mOutputResultQueue ea)"
proof -
  from reorder_run obtain sid ea m where
    r: "server_run small_server byte_decoder (reorder_steps sid) EventArg_new = Inr ea"
    and m: "ea_msgs ea 0 = Some m" "Message_getToList m = [sid]" by blast
  have "occ_of ea 0 sid = 1" "count_list (ea_mOutputResultQueue ea) 0 = 0"
    using message_completed_once [OF r, of 0] m by (auto dest: spec [of _ sid])
  then show ?thesis using r m by (auto simp: count_list_0_iff)
qed

end
