(* ===== verification/SP_CString.thy ===== *)
theory SP_CString
  imports SP_Base
begin

text \<open>
  The string functions of the C library that the HTTP code calls, and \<open>sp_strsep\<close> of
  sphttpmsg.cpp. A C string is the list of its bytes without the NUL, a NULL pointer is \<open>None\<close>.
\<close>

subsection \<open>Splitting\<close>

text \<open>The token, and the value left in the pointer that the caller passes.\<close>

definition sp_strsep :: "bytes option \<Rightarrow> bytes \<Rightarrow> bytes option \<times> bytes option" where
  "sp_strsep s del =
     (case s of None \<Rightarrow> (None, None)
      | Some tok \<Rightarrow>
          (case find_sub del tok of
             Some d \<Rightarrow> (Some (take d tok), Some (drop (d + length del) tok))
           | None \<Rightarrow> (Some tok, None)))"

text \<open>The first call of \<open>strtok\<close> on a string: its first token.\<close>

definition strtok :: "bytes \<Rightarrow> char set \<Rightarrow> bytes option" where
  "strtok s delim =
     (let t = dropWhile (\<lambda>c. c \<in> delim) s
      in if t = [] then None else Some (takeWhile (\<lambda>c. c \<notin> delim) t))"

text \<open>What that call leaves in the memory of the string: it is cut behind the token.\<close>

definition strtok_rest :: "bytes \<Rightarrow> char set \<Rightarrow> bytes" where
  "strtok_rest s delim =
     takeWhile (\<lambda>c. c \<in> delim) s @ takeWhile (\<lambda>c. c \<notin> delim) (dropWhile (\<lambda>c. c \<in> delim) s)"

abbreviation CRLF_set :: "char set" where "CRLF_set \<equiv> {CR, LF}"

text \<open>\<open>snprintf( dst, n, "%s", src )\<close>; the text must not be NULL.\<close>

definition snprintf_s :: "nat \<Rightarrow> bytes option \<Rightarrow> bytes res" where
  "snprintf_s n src = (case src of None \<Rightarrow> Inl NullDeref | Some s \<Rightarrow> Inr (take (n - 1) s))"

lemma sp_strsep_hit:
  "find_sub del a = None \<Longrightarrow> length del = 1 \<Longrightarrow> sp_strsep (Some (a @ del @ b)) del = (Some a, Some b)"
proof -
  assume a: "find_sub del a = None" and l: "length del = 1"
  then obtain d where d: "del = [d]" by (cases del) auto
  have "d \<notin> set a"
  proof
    assume "d \<in> set a"
    then obtain j where "j < length a" "a ! j = d" by (auto simp: in_set_conv_nth)
    then have "prefix_at del (drop j a)" using d by (simp add: Cons_nth_drop_Suc [symmetric])
    then show False using find_sub_None [OF a] by blast
  qed
  then have "find_sub del (a @ del @ b) = Some (length a)"
    using d by (induction a) simp_all
  then show ?thesis using l by (simp add: sp_strsep_def)
qed

lemma find_sub_char_None: "find_sub [d] a = None \<longleftrightarrow> d \<notin> set a"
  by (induction a) auto

lemma find_sub_char_hit: "d \<notin> set a \<Longrightarrow> find_sub [d] (a @ d # b) = Some (length a)"
  by (induction a) auto

lemma sp_strsep_char [simp]:
  "d \<notin> set a \<Longrightarrow> sp_strsep (Some (a @ d # b)) [d] = (Some a, Some b)"
  "d \<notin> set a \<Longrightarrow> sp_strsep (Some a) [d] = (Some a, None)"
  by (simp_all add: sp_strsep_def find_sub_char_hit find_sub_char_None [THEN iffD2])

lemma sp_strsep_None [simp]: "sp_strsep None del = (None, None)"
  by (simp add: sp_strsep_def)

lemma sp_strsep_shorter:
  assumes "sp_strsep (Some s) del = (t, Some r)" "del \<noteq> []"
  shows "length r < length s"
proof -
  from assms(1) obtain d where d: "find_sub del s = Some d" "r = drop (d + length del) s"
    by (auto simp: sp_strsep_def split: option.splits)
  have "d + length del \<le> length s" using find_sub_Some [OF d(1)] by simp
  then show ?thesis using d(2) assms(2) by (cases del) auto
qed

lemma strtok_line:
  "set a \<inter> CRLF_set = {} \<Longrightarrow> a \<noteq> [] \<Longrightarrow> strtok (a @ [CR, LF]) CRLF_set = Some a"
  by (cases a) (auto simp: strtok_def takeWhile_append)

subsection \<open>Numbers\<close>

definition digit_val :: "char \<Rightarrow> nat option" where
  "digit_val c =
     (let n = (of_char c :: nat) in
      if 48 \<le> n \<and> n \<le> 57 then Some (n - 48)
      else if 65 \<le> n \<and> n \<le> 90 then Some (n - 55)
      else if 97 \<le> n \<and> n \<le> 122 then Some (n - 87)
      else None)"

definition is_digit_of :: "nat \<Rightarrow> char \<Rightarrow> bool" where
  "is_digit_of base c = (case digit_val c of None \<Rightarrow> False | Some v \<Rightarrow> v < base)"

definition digits_val :: "nat \<Rightarrow> bytes \<Rightarrow> nat" where
  "digits_val base ds = foldl (\<lambda>n c. n * base + the (digit_val c)) 0 ds"

text \<open>\<open>strtol\<close> for base 10 and 16: white space, a sign, the prefix 0x, digits; a \<open>long\<close> has 64 bits.\<close>

definition long_max :: int where "long_max = 2 ^ 63 - 1"

definition skip_0x :: "nat \<Rightarrow> bytes \<Rightarrow> bytes" where
  "skip_0x base s =
     (case s of c0 # c1 # c2 # _ \<Rightarrow>
        if base = 16 \<and> c0 = CHR ''0'' \<and> (c1 = CHR ''x'' \<or> c1 = CHR ''X'') \<and> is_digit_of 16 c2 then drop 2 s else s
      | _ \<Rightarrow> s)"

definition strtol :: "nat \<Rightarrow> bytes \<Rightarrow> int" where
  "strtol base s =
     (let t = dropWhile isspace s;
          neg = (t \<noteq> [] \<and> hd t = CHR ''-'');
          u = (if t \<noteq> [] \<and> (hd t = CHR ''-'' \<or> hd t = CHR ''+'') then tl t else t);
          n = int (digits_val base (takeWhile (is_digit_of base) (skip_0x base u)))
      in if neg then max (- n) (- long_max - 1) else min n long_max)"

text \<open>The conversion of a \<open>long\<close> to \<open>int\<close> keeps the low 32 bits; \<open>atoi\<close> is \<open>strtol\<close> with it.\<close>

definition long_to_int :: "int \<Rightarrow> int" where
  "long_to_int i = (i + 2 ^ 31) mod 2 ^ 32 - 2 ^ 31"

definition atoi :: "bytes \<Rightarrow> int" where
  "atoi s = long_to_int (strtol 10 s)"

definition int_max :: int where "int_max = 2 ^ 31 - 1"

definition int_ok :: "int \<Rightarrow> bool" where
  "int_ok i \<longleftrightarrow> - int_max - 1 \<le> i \<and> i \<le> int_max"

text \<open>Addition of two \<open>int\<close> values.\<close>

definition int_add :: "int \<Rightarrow> int \<Rightarrow> int res" where
  "int_add a b = (if int_ok (a + b) then Inr (a + b) else Inl SignedOverflow)"

lemma long_to_int_small [simp]: "int_ok i \<Longrightarrow> long_to_int i = i"
  by (simp add: long_to_int_def int_ok_def int_max_def)

lemma long_to_int_ok: "int_ok (long_to_int i)"
proof -
  have "0 \<le> (i + 2 ^ 31) mod 2 ^ 32" "(i + 2 ^ 31) mod 2 ^ 32 < 2 ^ 32" by simp_all
  then show ?thesis by (simp add: long_to_int_def int_ok_def int_max_def)
qed

text \<open>What \<open>%d\<close> and \<open>%x\<close> print of a number that is not negative.\<close>

definition digit_char :: "nat \<Rightarrow> char" where
  "digit_char v = (if v < 10 then char_of (48 + v) else char_of (87 + v))"

function digits :: "nat \<Rightarrow> nat \<Rightarrow> bytes" where
  "digits base n =
     (if base < 2 \<or> n < base then [digit_char n] else digits base (n div base) @ [digit_char (n mod base)])"
  by pat_completeness auto
termination
  by (relation "measure snd") (auto intro!: div_less_dividend)

declare digits.simps [simp del]

lemma digit_val_char: "v < 16 \<Longrightarrow> digit_val (digit_char v) = Some v"
  by (simp add: digit_val_def digit_char_def Let_def of_char_of take_bit_eq_mod)

lemma digits_val_snoc: "digits_val b (ds @ [c]) = digits_val b ds * b + the (digit_val c)"
  by (simp add: digits_val_def)

lemma digits_ok:
  "2 \<le> b \<Longrightarrow> b \<le> 16 \<Longrightarrow> digits_val b (digits b n) = n \<and> list_all (is_digit_of b) (digits b n) \<and> digits b n \<noteq> []"
proof (induction n rule: less_induct)
  case (less n)
  show ?case
  proof (cases "n < b")
    case True
    then show ?thesis using less.prems digit_val_char [of n]
      by (subst (1 2 3) digits.simps) (simp add: digits_val_def is_digit_of_def)
  next
    case False
    then have "n div b < n" using less.prems by (intro div_less_dividend) auto
    note IH = less.IH [OF this less.prems]
    have "n mod b < b" using less.prems by simp
    then have "n mod b < 16" using less.prems(2) by (rule order_less_le_trans)
    then have "digit_val (digit_char (n mod b)) = Some (n mod b)" by (rule digit_val_char)
    with IH show ?thesis
      using False less.prems
      by (subst (1 2 3) digits.simps) (simp add: digits_val_snoc is_digit_of_def [of b "digit_char (n mod b)"])
  qed
qed

lemma is_digit_props:
  assumes "is_digit_of b c" "b \<le> 16"
  shows "\<not> isspace c" "c \<noteq> CHR ''-''" "c \<noteq> CHR ''+''" "c \<noteq> CHR ''x''" "c \<noteq> CHR ''X''" "c \<noteq> NUL" "c \<noteq> CR" "c \<noteq> LF"
  using assms by (auto simp: is_digit_of_def isspace_def digit_val_def)

lemma takeWhile_digits: "list_all P ds \<Longrightarrow> \<not> P c \<Longrightarrow> takeWhile P (ds @ c # r) = ds"
  by (induction ds) auto

lemma strtol_digits:
  assumes "b = 10 \<or> b = 16" "int n \<le> long_max" "rest = [] \<or> \<not> is_digit_of b (hd rest) \<and> (length (digits b n) = 1 \<longrightarrow> hd rest \<noteq> CHR ''x'' \<and> hd rest \<noteq> CHR ''X'')"
  shows "strtol b (digits b n @ rest) = int n"
proof -
  have b: "2 \<le> b" "b \<le> 16" using assms(1) by auto
  note d = digits_ok [OF b, of n]
  then obtain c cs where c: "digits b n = c # cs" by (cases "digits b n") auto
  have cd: "is_digit_of b c" and cl: "list_all (is_digit_of b) cs" using d c by simp_all
  note cp = is_digit_props [OF cd b(2)]
  have t: "takeWhile (is_digit_of b) (digits b n @ rest) = digits b n"
    using assms(3) d takeWhile_digits [of "is_digit_of b" "digits b n" "hd rest" "tl rest"]
    by (cases rest) (auto simp: list_all_iff)
  have s: "skip_0x b (digits b n @ rest) = digits b n @ rest"
  proof (cases cs)
    case Nil
    then show ?thesis using c assms(3) by (auto simp: skip_0x_def split: list.splits)
  next
    case (Cons c1 cs')
    then have "c1 \<noteq> CHR ''x''" "c1 \<noteq> CHR ''X''" using cl is_digit_props [of b c1] b(2) by auto
    then show ?thesis using c Cons by (auto simp: skip_0x_def split: list.splits)
  qed
  have "strtol b (digits b n @ rest) = min (int (digits_val b (digits b n))) long_max"
    using cp c t s by (simp add: strtol_def Let_def)
  then show ?thesis using d assms(2) by simp
qed

lemma atoi_digits: "int n \<le> int_max \<Longrightarrow> atoi (digits 10 n) = int n"
  using strtol_digits [of 10 n "[]"] by (simp add: atoi_def int_ok_def int_max_def long_max_def)

lemma digits_plain:
  assumes "2 \<le> b" "b \<le> 16" "c \<in> set (digits b n)"
  shows "\<not> isspace c \<and> c \<noteq> NUL \<and> c \<noteq> CR \<and> c \<noteq> LF"
  using digits_ok [OF assms(1,2), of n] is_digit_props [of b c] assms by (auto simp: list_all_iff)

end
