(* ===== verification/SP_HttpMsg.thy ===== *)
theory SP_HttpMsg
  imports SP_CString SP_ArrayList
begin

text \<open>
  The HTTP messages of sphttpmsg.cpp: \<open>SP_HttpMessage\<close>, \<open>SP_HttpRequest\<close> and
  \<open>SP_HttpResponse\<close>. A string field is a C string, an array of n characters that \<open>snprintf\<close>
  fills keeps n - 1 of them. The content is a block of memory, since \<open>appendContent\<close> writes
  behind it.
\<close>

subsection \<open>Data\<close>

record http_request =
  hq_mMethod :: bytes
  hq_mClientIP :: bytes
  hq_mURI :: "bytes option"
  hq_mURL :: "bytes option"
  hq_mParamNameList :: "bytes list"
  hq_mParamValueList :: "bytes list"

record http_response =
  hs_mStatusCode :: int
  hs_mReasonPhrase :: bytes

datatype http_type = eRequest | eResponse

text \<open>The subclass part of a message decides \<open>mType\<close>.\<close>

datatype http_sub = Request http_request | Response http_response

record http_message =
  hm_sub :: http_sub
  hm_mVersion :: bytes
  hm_mContent :: "bytes option"
  hm_mMaxLength :: int
  hm_mContentLength :: int
  hm_mHeaderNameList :: "bytes list"
  hm_mHeaderValueList :: "bytes list"

definition HEADER_CONTENT_LENGTH :: bytes where "HEADER_CONTENT_LENGTH = ''Content-Length''"
definition HEADER_CONTENT_TYPE :: bytes where "HEADER_CONTENT_TYPE = ''Content-Type''"
definition HEADER_CONNECTION :: bytes where "HEADER_CONNECTION = ''Connection''"
definition HEADER_PROXY_CONNECTION :: bytes where "HEADER_PROXY_CONNECTION = ''Proxy-Connection''"
definition HEADER_TRANSFER_ENCODING :: bytes where "HEADER_TRANSFER_ENCODING = ''Transfer-Encoding''"
definition HEADER_DATE :: bytes where "HEADER_DATE = ''Date''"
definition HEADER_SERVER :: bytes where "HEADER_SERVER = ''Server''"

definition HttpMessage_new :: "http_sub \<Rightarrow> http_message" where
  "HttpMessage_new sub = \<lparr> hm_sub = sub, hm_mVersion = ''HTTP/1.0'', hm_mContent = None,
     hm_mMaxLength = 0, hm_mContentLength = 0, hm_mHeaderNameList = [], hm_mHeaderValueList = [] \<rparr>"

definition HttpRequest_new :: http_message where
  "HttpRequest_new = HttpMessage_new (Request \<lparr> hq_mMethod = [], hq_mClientIP = [], hq_mURI = None,
     hq_mURL = None, hq_mParamNameList = [], hq_mParamValueList = [] \<rparr>)"

definition HttpResponse_new :: http_message where
  "HttpResponse_new = HttpMessage_new (Response \<lparr> hs_mStatusCode = 200, hs_mReasonPhrase = ''OK'' \<rparr>)"

subsection \<open>SP_HttpMessage\<close>

definition HttpMessage_getType :: "http_message \<Rightarrow> http_type" where
  "HttpMessage_getType m = (case hm_sub m of Request _ \<Rightarrow> eRequest | Response _ \<Rightarrow> eResponse)"

definition HttpMessage_setVersion :: "bytes option \<Rightarrow> http_message \<Rightarrow> http_message res" where
  "HttpMessage_setVersion v m = res_bind (snprintf_s 16 v) (\<lambda>s. Inr (m\<lparr> hm_mVersion := s \<rparr>))"

text \<open>
  The block behind \<open>mContent\<close> and its capacity after the allocation step for \<open>realLength\<close>.
  \<open>malloc\<close> and \<open>realloc\<close> are assumed to succeed, as the code does; new bytes are 0, which
  nothing reads.
\<close>

definition content_block :: "int \<Rightarrow> http_message \<Rightarrow> (bytes option \<times> int) res" where
  "content_block realLength m =
     (if hm_mMaxLength m < realLength then
        res_bind (int_add realLength 1) (\<lambda>room.
          Inr (Some (case hm_mContent m of
              None \<Rightarrow> replicate (nat room) NUL
            | Some b \<Rightarrow> take (nat room) b @ replicate (nat room - length b) NUL), realLength))
      else Inr (hm_mContent m, hm_mMaxLength m))"

text \<open>\<open>content\<close> is the memory that the pointer points to.\<close>

definition HttpMessage_appendContent :: "bytes \<Rightarrow> int \<Rightarrow> int \<Rightarrow> http_message \<Rightarrow> http_message res" where
  "HttpMessage_appendContent content len maxLength m =
     (let n = (if len \<le> 0 then int (length (cstr content)) else len) in
      res_bind (int_add (hm_mContentLength m) n) (\<lambda>total.
      res_bind (content_block (if maxLength < total then total else maxLength) m) (\<lambda>(block, cap).
      case block of
        None \<Rightarrow> Inl NullDeref
      | Some b \<Rightarrow>
          res_bind (mem_get 0 (nat n) content) (\<lambda>xs.
          res_bind (mem_put (nat (hm_mContentLength m)) xs b) (\<lambda>b1.
          res_bind (mem_put (nat total) [NUL] b1) (\<lambda>b2.
            Inr (m\<lparr> hm_mContent := Some b2, hm_mMaxLength := cap, hm_mContentLength := total \<rparr>)))))))"

definition HttpMessage_setContent :: "bytes \<Rightarrow> int \<Rightarrow> http_message \<Rightarrow> http_message res" where
  "HttpMessage_setContent content len m =
     HttpMessage_appendContent content len 0 (m\<lparr> hm_mContentLength := 0 \<rparr>)"

text \<open>The message takes over the block \<open>content\<close>, whatever its size.\<close>

definition HttpMessage_directSetContent :: "bytes \<Rightarrow> int \<Rightarrow> http_message \<Rightarrow> http_message" where
  "HttpMessage_directSetContent content len m =
     (let n = (if 0 < len then len else int (length (cstr content)))
      in m\<lparr> hm_mContentLength := n, hm_mMaxLength := n, hm_mContent := Some content \<rparr>)"

text \<open>What \<open>getContent\<close> and \<open>getContentLength\<close> together give a caller.\<close>

definition HttpMessage_content :: "http_message \<Rightarrow> bytes" where
  "HttpMessage_content m = (case hm_mContent m of None \<Rightarrow> [] | Some b \<Rightarrow> take (nat (hm_mContentLength m)) b)"

definition HttpMessage_addHeader :: "bytes \<Rightarrow> bytes \<Rightarrow> http_message \<Rightarrow> http_message" where
  "HttpMessage_addHeader name value m =
     m\<lparr> hm_mHeaderNameList := hm_mHeaderNameList m @ [name], hm_mHeaderValueList := hm_mHeaderValueList m @ [value] \<rparr>"

text \<open>The scan of the name list from index \<open>i\<close> on, and the loops that use it.\<close>

fun name_scan :: "bytes \<Rightarrow> nat \<Rightarrow> bytes list \<Rightarrow> nat option" where
  "name_scan name i [] = None"
| "name_scan name i (x # xs) = (if strcaseeq name x then Some i else name_scan name (Suc i) xs)"

definition HttpMessage_removeHeader :: "bytes \<Rightarrow> http_message \<Rightarrow> int \<times> http_message" where
  "HttpMessage_removeHeader name m =
     (case name_scan name 0 (hm_mHeaderNameList m) of
        None \<Rightarrow> (0, m)
      | Some i \<Rightarrow> (1, m\<lparr> hm_mHeaderNameList := snd (lst_take (int i) (hm_mHeaderNameList m)),
                         hm_mHeaderValueList := snd (lst_take (int i) (hm_mHeaderValueList m)) \<rparr>))"

definition HttpMessage_removeHeader_at :: "int \<Rightarrow> http_message \<Rightarrow> int \<times> http_message" where
  "HttpMessage_removeHeader_at index m =
     (if 0 \<le> index \<and> index < int (length (hm_mHeaderNameList m)) then
        (1, m\<lparr> hm_mHeaderNameList := snd (lst_take index (hm_mHeaderNameList m)),
               hm_mHeaderValueList := snd (lst_take index (hm_mHeaderValueList m)) \<rparr>)
      else (0, m))"

definition HttpMessage_getHeaderCount :: "http_message \<Rightarrow> int" where
  "HttpMessage_getHeaderCount m = int (length (hm_mHeaderNameList m))"

definition HttpMessage_getHeaderName :: "int \<Rightarrow> http_message \<Rightarrow> bytes option" where
  "HttpMessage_getHeaderName index m = lst_get index (hm_mHeaderNameList m)"

definition HttpMessage_getHeaderValue_at :: "int \<Rightarrow> http_message \<Rightarrow> bytes option" where
  "HttpMessage_getHeaderValue_at index m = lst_get index (hm_mHeaderValueList m)"

definition HttpMessage_getHeaderValue :: "bytes \<Rightarrow> http_message \<Rightarrow> bytes option" where
  "HttpMessage_getHeaderValue name m =
     (case name_scan name 0 (hm_mHeaderNameList m) of
        None \<Rightarrow> None
      | Some i \<Rightarrow> lst_get (int i) (hm_mHeaderValueList m))"

definition HttpMessage_isKeepAlive :: "http_message \<Rightarrow> bool" where
  "HttpMessage_isKeepAlive m =
     (let keep = (\<lambda>v. case v of None \<Rightarrow> False | Some s \<Rightarrow> strcaseeq s ''Keep-Alive'')
      in keep (HttpMessage_getHeaderValue HEADER_PROXY_CONNECTION m) \<or>
         keep (HttpMessage_getHeaderValue HEADER_CONNECTION m))"

subsection \<open>SP_HttpRequest and SP_HttpResponse\<close>

text \<open>A method of a subclass changes the subclass part; on the other class it is never called.\<close>

definition on_request :: "(http_request \<Rightarrow> http_request) \<Rightarrow> http_message \<Rightarrow> http_message" where
  "on_request f m = (case hm_sub m of Request q \<Rightarrow> m\<lparr> hm_sub := Request (f q) \<rparr> | Response _ \<Rightarrow> m)"

definition on_response :: "(http_response \<Rightarrow> http_response) \<Rightarrow> http_message \<Rightarrow> http_message" where
  "on_response f m = (case hm_sub m of Response r \<Rightarrow> m\<lparr> hm_sub := Response (f r) \<rparr> | Request _ \<Rightarrow> m)"

definition HttpRequest_setMethod :: "bytes \<Rightarrow> http_message \<Rightarrow> http_message" where
  "HttpRequest_setMethod method = on_request (\<lambda>q. q\<lparr> hq_mMethod := take 15 method \<rparr>)"

definition HttpRequest_setURI :: "bytes \<Rightarrow> http_message \<Rightarrow> http_message" where
  "HttpRequest_setURI uri = on_request (\<lambda>q. q\<lparr> hq_mURI := Some uri \<rparr>)"

definition HttpRequest_setURL :: "bytes \<Rightarrow> http_message \<Rightarrow> http_message" where
  "HttpRequest_setURL url = on_request (\<lambda>q. q\<lparr> hq_mURL := Some url \<rparr>)"

definition HttpRequest_setClinetIP :: "bytes \<Rightarrow> http_message \<Rightarrow> http_message" where
  "HttpRequest_setClinetIP ip = on_request (\<lambda>q. q\<lparr> hq_mClientIP := take 15 ip \<rparr>)"

definition HttpRequest_addParam :: "bytes \<Rightarrow> bytes \<Rightarrow> http_message \<Rightarrow> http_message" where
  "HttpRequest_addParam name value = on_request (\<lambda>q. q\<lparr> hq_mParamNameList := hq_mParamNameList q @ [name],
     hq_mParamValueList := hq_mParamValueList q @ [value] \<rparr>)"

definition HttpRequest_removeParam :: "bytes \<Rightarrow> http_request \<Rightarrow> int \<times> http_request" where
  "HttpRequest_removeParam name q =
     (case name_scan name 0 (hq_mParamNameList q) of
        None \<Rightarrow> (0, q)
      | Some i \<Rightarrow> (1, q\<lparr> hq_mParamNameList := snd (lst_take (int i) (hq_mParamNameList q)),
                         hq_mParamValueList := snd (lst_take (int i) (hq_mParamValueList q)) \<rparr>))"

definition HttpRequest_getParamCount :: "http_request \<Rightarrow> int" where
  "HttpRequest_getParamCount q = int (length (hq_mParamNameList q))"

definition HttpRequest_getParamName :: "int \<Rightarrow> http_request \<Rightarrow> bytes option" where
  "HttpRequest_getParamName index q = lst_get index (hq_mParamNameList q)"

definition HttpRequest_getParamValue_at :: "int \<Rightarrow> http_request \<Rightarrow> bytes option" where
  "HttpRequest_getParamValue_at index q = lst_get index (hq_mParamValueList q)"

definition HttpRequest_getParamValue :: "bytes \<Rightarrow> http_request \<Rightarrow> bytes option" where
  "HttpRequest_getParamValue name q =
     (case name_scan name 0 (hq_mParamNameList q) of
        None \<Rightarrow> None
      | Some i \<Rightarrow> lst_get (int i) (hq_mParamValueList q))"

definition HttpResponse_setStatusCode :: "int \<Rightarrow> http_message \<Rightarrow> http_message" where
  "HttpResponse_setStatusCode code = on_response (\<lambda>r. r\<lparr> hs_mStatusCode := code \<rparr>)"

definition HttpResponse_setReasonPhrase :: "bytes option \<Rightarrow> http_message \<Rightarrow> http_message res" where
  "HttpResponse_setReasonPhrase phrase m =
     res_bind (snprintf_s 128 phrase) (\<lambda>s. Inr (on_response (\<lambda>r. r\<lparr> hs_mReasonPhrase := s \<rparr>) m))"

subsection \<open>Headers and parameters as maps\<close>

text \<open>The first entry whose name matches, ignoring case: the reference for the lookups.\<close>

fun assoc_case :: "bytes \<Rightarrow> (bytes \<times> bytes) list \<Rightarrow> bytes option" where
  "assoc_case name [] = None"
| "assoc_case name ((k, v) # kvs) = (if strcaseeq name k then Some v else assoc_case name kvs)"

fun remove_case :: "bytes \<Rightarrow> (bytes \<times> bytes) list \<Rightarrow> (bytes \<times> bytes) list" where
  "remove_case name [] = []"
| "remove_case name ((k, v) # kvs) = (if strcaseeq name k then kvs else (k, v) # remove_case name kvs)"

definition HttpMessage_headers :: "http_message \<Rightarrow> (bytes \<times> bytes) list" where
  "HttpMessage_headers m = zip (hm_mHeaderNameList m) (hm_mHeaderValueList m)"

definition HttpRequest_params :: "http_request \<Rightarrow> (bytes \<times> bytes) list" where
  "HttpRequest_params q = zip (hq_mParamNameList q) (hq_mParamValueList q)"

text \<open>
  A well formed message: the two header lists (and the two parameter lists) run in parallel, and
  the content block has room for the terminator behind \<open>mMaxLength\<close> bytes.
\<close>

definition sub_ok :: "http_sub \<Rightarrow> bool" where
  "sub_ok sub = (case sub of Request q \<Rightarrow> length (hq_mParamNameList q) = length (hq_mParamValueList q) | Response _ \<Rightarrow> True)"

definition content_ok :: "bytes option \<Rightarrow> int \<Rightarrow> bool" where
  "content_ok c cap = (case c of None \<Rightarrow> cap = 0 | Some b \<Rightarrow> int (length b) = cap + 1)"

definition message_ok :: "http_message \<Rightarrow> bool" where
  "message_ok m \<longleftrightarrow> length (hm_mHeaderNameList m) = length (hm_mHeaderValueList m) \<and> sub_ok (hm_sub m) \<and>
     0 \<le> hm_mContentLength m \<and> hm_mContentLength m \<le> hm_mMaxLength m \<and> hm_mMaxLength m < int_max \<and>
     content_ok (hm_mContent m) (hm_mMaxLength m)"

lemma name_scan_zip:
  "length ks = length vs \<Longrightarrow>
     (case name_scan name i ks of
        None \<Rightarrow> assoc_case name (zip ks vs) = None \<and> remove_case name (zip ks vs) = zip ks vs
      | Some k \<Rightarrow> i \<le> k \<and> k - i < length ks \<and> assoc_case name (zip ks vs) = Some (vs ! (k - i)) \<and>
          remove_case name (zip ks vs) = zip (del_at (k - i) ks) (del_at (k - i) vs))"
proof (induction ks vs arbitrary: i rule: list_induct2)
  case Nil
  then show ?case by simp
next
  case (Cons k ks v vs)
  from Cons.IH [of "Suc i"] Cons.hyps show ?case
    by (auto simp: del_at_def Suc_diff_le split: option.splits)
      (metis Suc_diff_Suc Suc_le_lessD nth_Cons_Suc drop_Suc_Cons take_Suc_Cons zip_Cons_Cons append_Cons)+
qed

lemma getHeaderValue_eq [contracts]:
  assumes "message_ok m"
  shows "HttpMessage_getHeaderValue name m = assoc_case name (HttpMessage_headers m)"
  using name_scan_zip [of "hm_mHeaderNameList m" "hm_mHeaderValueList m" name 0] assms
  by (auto simp: HttpMessage_getHeaderValue_def HttpMessage_headers_def message_ok_def lst_get_nth split: option.splits)

lemma addHeader_eq [contracts]:
  "message_ok m \<Longrightarrow> message_ok (HttpMessage_addHeader name value m) \<and>
     HttpMessage_headers (HttpMessage_addHeader name value m) = HttpMessage_headers m @ [(name, value)]"
  by (simp add: HttpMessage_addHeader_def HttpMessage_headers_def message_ok_def)

lemma removeHeader_eq [contracts]:
  assumes "message_ok m"
  shows "fst (HttpMessage_removeHeader name m) = (if HttpMessage_getHeaderValue name m = None then 0 else 1) \<and>
    message_ok (snd (HttpMessage_removeHeader name m)) \<and>
    HttpMessage_headers (snd (HttpMessage_removeHeader name m)) = remove_case name (HttpMessage_headers m)"
  using name_scan_zip [of "hm_mHeaderNameList m" "hm_mHeaderValueList m" name 0] assms
  by (auto simp: HttpMessage_removeHeader_def HttpMessage_getHeaderValue_def HttpMessage_headers_def message_ok_def
      lst_get_nth lst_take_nth split: option.splits)

lemma getParamValue_eq [contracts]:
  assumes "length (hq_mParamNameList q) = length (hq_mParamValueList q)"
  shows "HttpRequest_getParamValue name q = assoc_case name (HttpRequest_params q)"
  using name_scan_zip [of "hq_mParamNameList q" "hq_mParamValueList q" name 0] assms
  by (auto simp: HttpRequest_getParamValue_def HttpRequest_params_def lst_get_nth split: option.splits)

lemma assoc_case_append: "assoc_case name (kvs @ kvs') =
    (case assoc_case name kvs of None \<Rightarrow> assoc_case name kvs' | Some v \<Rightarrow> Some v)"
  by (induction name kvs rule: assoc_case.induct) auto

lemma assoc_case_remove_other: "\<not> strcaseeq name other \<Longrightarrow> assoc_case other (remove_case name kvs) = assoc_case other kvs"
  by (induction name kvs rule: remove_case.induct) (auto, metis strcaseeq_sym strcaseeq_trans)

lemma remove_case_unique:
  "length (filter (\<lambda>kv. strcaseeq name (fst kv)) kvs) \<le> 1 \<Longrightarrow> assoc_case name (remove_case name kvs) = None"
proof (induction name kvs rule: remove_case.induct)
  case (2 name k v kvs)
  have "filter (\<lambda>kv. strcaseeq name (fst kv)) kvs = [] \<Longrightarrow> assoc_case name kvs = None"
    by (induction kvs) (auto split: if_splits)
  with 2 show ?case by auto
qed simp

subsection \<open>The content\<close>

lemma content_block_ok:
  assumes "message_ok m" "hm_mContentLength m \<le> real" "real < int_max" "0 < real"
  shows "\<exists>b cap. content_block real m = Inr (Some b, cap) \<and> real \<le> cap \<and> cap < int_max \<and> int (length b) = cap + 1 \<and>
    take (nat (hm_mContentLength m)) b = HttpMessage_content m"
proof (cases "hm_mMaxLength m < real")
  case True
  have "int_add real 1 = Inr (real + 1)" using assms(3,4) by (simp add: int_add_def int_ok_def int_max_def)
  then show ?thesis using True assms
    by (auto simp: content_block_def message_ok_def content_ok_def HttpMessage_content_def min_def split: option.splits)
next
  case False
  then show ?thesis using assms
    by (auto simp: content_block_def message_ok_def content_ok_def HttpMessage_content_def split: option.splits)
qed

lemma mem_put_facts:
  assumes "a + length xs \<le> length b"
  obtains b1 where "mem_put a xs b = Inr b1" "length b1 = length b" "take (a + length xs) b1 = take a b @ xs" "take a b1 = take a b"
proof -
  let ?b = "take a b @ xs @ drop (a + length xs) b"
  have "mem_put a xs b = Inr ?b" using assms by (simp add: mem_put_def)
  moreover have "length ?b = length b" using assms by simp
  moreover have "length (take a b @ xs) = a + length xs" using assms by simp
  then have "take (a + length xs) ?b = take a b @ xs" by (metis append.assoc append_eq_conv_conj)
  moreover have "take a ?b = take a b" using assms by simp
  ultimately show thesis by (rule that)
qed

lemma appendContent_ok:
  assumes m: "message_ok m" and len: "0 < len" "nat len \<le> length src" "hm_mContentLength m + len < int_max" "maxLength < int_max"
  shows "\<exists>m'. HttpMessage_appendContent src len maxLength m = Inr m' \<and> message_ok m' \<and>
    HttpMessage_content m' = HttpMessage_content m @ take (nat len) src \<and>
    hm_mContentLength m' = hm_mContentLength m + len \<and>
    m' = m\<lparr> hm_mContent := hm_mContent m', hm_mMaxLength := hm_mMaxLength m', hm_mContentLength := hm_mContentLength m' \<rparr>"
proof -
  let ?c = "hm_mContentLength m"
  define real where "real = (if maxLength < ?c + len then ?c + len else maxLength)"
  have c: "0 \<le> ?c" using m by (simp add: message_ok_def)
  have add: "int_add ?c len = Inr (?c + len)" using c len by (simp add: int_add_def int_ok_def int_max_def)
  have real: "?c + len \<le> real" "real < int_max" using len by (simp_all add: real_def)
  have "?c \<le> real" "0 < real" using real(1) c len(1) by simp_all
  from content_block_ok [OF m this(1) real(2) this(2)] obtain b cap where
    b: "content_block real m = Inr (Some b, cap)" "real \<le> cap" "cap < int_max" "int (length b) = cap + 1"
      "take (nat ?c) b = HttpMessage_content m" by blast
  let ?xs = "take (nat len) src"
  have cap: "?c + len \<le> cap" using b(2) real(1) by simp
  have lx: "length ?xs = nat len" using len(2) by simp
  have n: "nat (?c + len) = nat ?c + length ?xs" "nat ?c + length ?xs + 1 \<le> length b" using c len cap b(4) lx by simp_all
  from mem_put_facts [of "nat ?c" ?xs b] n(2) obtain b1 where
    p1: "mem_put (nat ?c) ?xs b = Inr b1" "length b1 = length b" "take (nat ?c + length ?xs) b1 = take (nat ?c) b @ ?xs" by auto
  from mem_put_facts [of "nat (?c + len)" "[NUL]" b1] n p1(2) obtain b2 where
    p2: "mem_put (nat (?c + len)) [NUL] b1 = Inr b2" "length b2 = length b" "take (nat (?c + len)) b2 = take (nat (?c + len)) b1"
    by (auto simp del: length_take)
  have t2: "take (nat (?c + len)) b2 = HttpMessage_content m @ ?xs" using p1(3) p2(3) n(1) b(5) by simp
  have get: "mem_get 0 (nat len) src = Inr ?xs" using len(2) by (simp add: mem_get_def)
  let ?m = "m\<lparr> hm_mContent := Some b2, hm_mMaxLength := cap, hm_mContentLength := ?c + len \<rparr>"
  have "HttpMessage_appendContent src len maxLength m = Inr ?m"
    using len(1) add b(1) get p1(1) p2(1) by (simp add: HttpMessage_appendContent_def Let_def real_def [symmetric])
  moreover have "message_ok ?m" using m b(3,4) p2(2) c len(1) cap by (simp add: message_ok_def content_ok_def)
  moreover have "HttpMessage_content ?m = HttpMessage_content m @ ?xs" using t2 by (simp add: HttpMessage_content_def)
  ultimately show ?thesis by (intro exI [of _ ?m]) simp
qed

end
