(* ===== verification/SP_HttpParser.thy ===== *)
theory SP_HttpParser
  imports SP_HttpMsg
begin

text \<open>
  The incremental parser \<open>SP_HttpMsgParser\<close> of sphttpmsg.cpp. The input is the memory \<open>buf\<close> that
  \<open>append\<close> gets; a pointer into it is an offset, and a read outside of it is a fault.
\<close>

subsection \<open>Lines\<close>

text \<open>
  \<open>memchr( buffer + a, '\n', len )\<close> and the copy of the line: the line with its newline. A negative
  \<open>len\<close> becomes a huge \<open>size_t\<close>.
\<close>

definition line_at :: "bytes \<Rightarrow> nat \<Rightarrow> int \<Rightarrow> bytes option res" where
  "line_at buf a len =
     res_bind (memchr buf a (to_size len) LF) (\<lambda>pos.
       Inr (map_option (\<lambda>p. take (p - a + 1) (drop a buf)) pos))"

lemma line_at_Some:
  assumes "line_at buf a len = Inr (Some line)"
  shows "0 < length line \<and> a + length line \<le> length buf \<and> line = take (length line) (drop a buf) \<and> length line \<le> to_size len"
proof -
  from assms obtain p where p: "memchr buf a (to_size len) LF = Inr (Some p)" "line = take (p - a + 1) (drop a buf)"
    by (auto simp: line_at_def res_bind_eq_Inr_iff)
  from memchr_Some [OF p(1)] have "a \<le> p" "p < a + to_size len" "p < length buf" by auto
  then show ?thesis using p(2) by auto
qed

text \<open>The loop that adds \<open>name=value\<close> pairs separated by \<open>&\<close>.\<close>

function add_params :: "bytes option \<Rightarrow> http_message \<Rightarrow> http_message" where
  "add_params params m =
     (case params of
        None \<Rightarrow> m
      | Some s \<Rightarrow>
          if s = [] then m
          else
            (case sp_strsep (Some s) ''&'' of (value, rest) \<Rightarrow>
             case sp_strsep value ''='' of (name, value') \<Rightarrow>
               add_params rest (HttpRequest_addParam (the name) (case value' of None \<Rightarrow> [] | Some v \<Rightarrow> v) m)))"
  by pat_completeness auto
termination
  by (relation "measure (\<lambda>(params, m). case params of None \<Rightarrow> 0 | Some s \<Rightarrow> Suc (length s))")
    (auto split: option.splits dest!: sp_strsep_shorter dest: sym)

declare add_params.simps [simp del]

text \<open>The answer is the length of the start line and the new message.\<close>

definition start_message :: "bytes \<Rightarrow> http_message res" where
  "start_message line =
     (case sp_strsep (Some line) '' '' of (first, pos1) \<Rightarrow>
      case sp_strsep pos1 '' '' of (second, pos) \<Rightarrow>
        if strncaseeq (the first) ''HTTP'' 4 then
          res_bind (HttpMessage_setVersion first HttpResponse_new) (\<lambda>m1.
          let m2 = (case second of None \<Rightarrow> m1 | Some code \<Rightarrow> HttpResponse_setStatusCode (atoi code) m1)
          in (case pos of None \<Rightarrow> Inr m2 | Some p \<Rightarrow> HttpResponse_setReasonPhrase (strtok p CRLF_set) m2))
        else
          let m1 = HttpRequest_setMethod (the first) HttpRequest_new;
              m2 = (case second of None \<Rightarrow> m1 | Some url \<Rightarrow> HttpRequest_setURL url m1)
          in case sp_strsep second ''?'' of (uri, params) \<Rightarrow>
               let m3 = (case uri of None \<Rightarrow> m2 | Some u \<Rightarrow> HttpRequest_setURI u m2)
               in res_bind (case pos of None \<Rightarrow> Inr m3 | Some p \<Rightarrow> HttpMessage_setVersion (strtok p CRLF_set) m3) (\<lambda>m4.
                    Inr (add_params params m4)))"

definition HttpParser_parseStartLine :: "bytes \<Rightarrow> int \<Rightarrow> (nat \<times> http_message option) res" where
  "HttpParser_parseStartLine buf len =
     res_bind (line_at buf 0 len) (\<lambda>l.
       case l of None \<Rightarrow> Inr (0, None)
       | Some line \<Rightarrow> res_bind (start_message (cstr line)) (\<lambda>m. Inr (length line, Some m)))"

definition header_message :: "bytes \<Rightarrow> http_message \<Rightarrow> http_message res" where
  "header_message line m =
     (case sp_strsep (Some line) '':'' of (name, pos) \<Rightarrow>
        case pos of
          None \<Rightarrow> Inr m
        | Some p \<Rightarrow>
            (case strtok p CRLF_set of
               None \<Rightarrow> Inl NullDeref
             | Some v \<Rightarrow> Inr (HttpMessage_addHeader (the name) (dropWhile (\<lambda>c. c = CHR '' '') v) m)))"

definition HttpParser_parseHeader :: "bytes \<Rightarrow> nat \<Rightarrow> int \<Rightarrow> http_message \<Rightarrow> (nat \<times> http_message) res" where
  "HttpParser_parseHeader buf a len m =
     res_bind (line_at buf a len) (\<lambda>l.
       case l of None \<Rightarrow> Inr (0, m)
       | Some line \<Rightarrow> res_bind (header_message (cstr line) m) (\<lambda>m'. Inr (length line, m')))"

text \<open>\<open>getLine\<close> into an array of \<open>sz\<close> bytes that holds \<open>old\<close>: the line length and the string there.\<close>

definition HttpParser_getLine :: "bytes \<Rightarrow> nat \<Rightarrow> int \<Rightarrow> nat \<Rightarrow> bytes \<Rightarrow> (nat \<times> bytes) res" where
  "HttpParser_getLine buf a len sz old =
     res_bind (line_at buf a len) (\<lambda>l.
       case l of None \<Rightarrow> Inr (0, old)
       | Some line \<Rightarrow> Inr (length line, strtok_rest (cstr (take (sz - 1) line)) CRLF_set))"

subsection \<open>Chunked and plain content\<close>

datatype http_status = eStartLine | eHeader | eContent | eCompleted

text \<open>
  One round of the loop of \<open>parseChunked\<close> at offset \<open>parsed\<close>: the new offset, the message, whether
  a chunk was taken and whether the last chunk was seen. The sum \<open>contentLen + lineLen\<close> is an
  addition of \<open>int\<close> values, the other differences cannot overflow.
\<close>

definition parse_chunk :: "bytes \<Rightarrow> nat \<Rightarrow> int \<Rightarrow> nat \<Rightarrow> http_message \<Rightarrow> (nat \<times> http_message \<times> bool \<times> bool) res" where
  "parse_chunk buf a len parsed m =
     res_bind (HttpParser_getLine buf (a + parsed) (len - int parsed) 32 []) (\<lambda>(lineLen, chunkSize).
     let contentLen = long_to_int (strtol 16 chunkSize) in
     if 0 < contentLen then
       res_bind (int_add contentLen (int lineLen)) (\<lambda>need.
         if need < len - int parsed then
           res_bind (HttpParser_getLine buf (a + parsed + lineLen + nat contentLen)
               (len - int parsed - int lineLen - contentLen) 32 chunkSize) (\<lambda>(emptyLen, _).
             if 0 < emptyLen then
               res_bind (HttpMessage_appendContent (drop (a + parsed + lineLen) buf) contentLen 0 m) (\<lambda>m'.
                 Inr (parsed + lineLen + nat contentLen + emptyLen, m', True, False))
             else Inr (parsed, m, False, False))
         else Inr (parsed, m, False, False))
     else if contentLen = 0 \<and> 0 < lineLen then Inr (parsed + lineLen, m, False, True)
     else Inr (parsed, m, False, False))"

lemma getLine_length:
  "HttpParser_getLine buf a len sz old = Inr (n, s) \<Longrightarrow> 0 < n \<Longrightarrow> a + n \<le> length buf \<and> n \<le> to_size len"
  by (auto simp: HttpParser_getLine_def res_bind_eq_Inr_iff split: option.splits dest!: line_at_Some)

lemma parse_chunk_progress:
  assumes "parse_chunk buf a len parsed m = Inr (parsed', m', True, fin)"
  shows "parsed < parsed' \<and> a + parsed' \<le> length buf"
  using assms getLine_length
  by (fastforce simp: parse_chunk_def res_bind_eq_Inr_iff Let_def split: if_splits)

function parse_chunks :: "bytes \<Rightarrow> nat \<Rightarrow> int \<Rightarrow> nat \<Rightarrow> http_message \<Rightarrow> (nat \<times> http_message \<times> bool) res" where
  "parse_chunks buf a len parsed m =
     (case parse_chunk buf a len parsed m of
        Inl f \<Rightarrow> Inl f
      | Inr (parsed', m', hasChunk, fin) \<Rightarrow>
          if hasChunk \<and> \<not> fin then parse_chunks buf a len parsed' m' else Inr (parsed', m', fin))"
  by pat_completeness auto
termination
  by (relation "measure (\<lambda>(buf, a, len, parsed, m). length buf - (a + parsed))")
    (auto dest!: parse_chunk_progress)

declare parse_chunks.simps [simp del]

definition HttpParser_parseContent :: "bytes \<Rightarrow> nat \<Rightarrow> int \<Rightarrow> http_message \<Rightarrow> (nat \<times> http_message \<times> bool) res" where
  "HttpParser_parseContent buf a len m =
     (let value = HttpMessage_getHeaderValue HEADER_CONTENT_LENGTH m;
          contentLen = atoi (case value of None \<Rightarrow> ''0'' | Some v \<Rightarrow> v)
      in res_bind (if 0 < contentLen \<and> contentLen \<le> len then
             res_bind (HttpMessage_appendContent (drop a buf) contentLen 0 m) (\<lambda>m'. Inr (nat contentLen, m'))
           else Inr (0, m)) (\<lambda>(parsedLen, m').
         Inr (parsedLen, m', contentLen = hm_mContentLength m')))"

text \<open>\<open>postProcess\<close>: the parameters of a form in the content of a request.\<close>

definition HttpParser_postProcess :: "http_message \<Rightarrow> http_message" where
  "HttpParser_postProcess m =
     (if HttpMessage_getType m = eRequest \<and> 0 < hm_mContentLength m \<and>
         (case HttpMessage_getHeaderValue HEADER_CONTENT_TYPE m of None \<Rightarrow> False
          | Some t \<Rightarrow> strcaseeq t ''application/x-www-form-urlencoded'')
      then add_params (Some (cstr (HttpMessage_content m))) m
      else m)"

subsection \<open>append\<close>

record http_parser =
  hp_mMessage :: "http_message option"
  hp_mStatus :: http_status
  hp_mIgnoreContent :: bool

definition HttpParser_new :: http_parser where
  "HttpParser_new = \<lparr> hp_mMessage = None, hp_mStatus = eStartLine, hp_mIgnoreContent = False \<rparr>"

definition HttpParser_setIgnoreContent :: "int \<Rightarrow> http_parser \<Rightarrow> http_parser" where
  "HttpParser_setIgnoreContent ignore p = p\<lparr> hp_mIgnoreContent := (ignore \<noteq> 0) \<rparr>"

text \<open>The loop over the headers; \<open>headerLen\<close> is the length of the line before.\<close>

function header_loop :: "bytes \<Rightarrow> nat \<Rightarrow> nat \<Rightarrow> http_status \<Rightarrow> http_message \<Rightarrow> (nat \<times> http_status \<times> http_message) res" where
  "header_loop buf headerLen parsedLen status m =
     (if status = eHeader \<and> 0 < headerLen \<and> parsedLen < length buf then
        (case HttpParser_parseHeader buf parsedLen (int (length buf) - int parsedLen) m of
           Inl f \<Rightarrow> Inl f
         | Inr (h, m') \<Rightarrow>
             let ch = buf ! parsedLen
             in header_loop buf h (parsedLen + h) (if ch = CR \<or> ch = LF then eContent else status) m')
      else Inr (parsedLen, status, m))"
  by pat_completeness auto
termination
  by (relation "measure (\<lambda>(buf, headerLen, parsedLen, status, m).
      2 * (length buf - parsedLen) + (if 0 < headerLen then 1 else 0))") auto

declare header_loop.simps [simp del]

definition http_content :: "bytes \<Rightarrow> nat \<Rightarrow> http_message \<Rightarrow> (nat \<times> http_message \<times> bool) res" where
  "http_content buf a m =
     (if (case HttpMessage_getHeaderValue HEADER_TRANSFER_ENCODING m of None \<Rightarrow> False | Some e \<Rightarrow> strcaseeq e ''chunked'')
      then parse_chunks buf a (int (length buf) - int a) 0 m
      else HttpParser_parseContent buf a (int (length buf) - int a) m)"

text \<open>\<open>append( buffer, len )\<close> with the whole of \<open>buf\<close>: the number of bytes taken.\<close>

definition HttpParser_append :: "bytes \<Rightarrow> http_parser \<Rightarrow> (nat \<times> http_parser) res" where
  "HttpParser_append buf p =
     (if hp_mStatus p = eCompleted then Inr (0, p)
      else
        res_bind (case hp_mMessage p of
            None \<Rightarrow> res_bind (HttpParser_parseStartLine buf (int (length buf))) (\<lambda>(n, msg).
              Inr (n, msg, if 0 < n then eHeader else hp_mStatus p))
          | Some m \<Rightarrow> Inr (0, Some m, hp_mStatus p)) (\<lambda>(parsed0, msg, status0).
        case msg of
          None \<Rightarrow> Inr (parsed0, p\<lparr> hp_mStatus := status0 \<rparr>)
        | Some m0 \<Rightarrow>
            res_bind (header_loop buf 1 parsed0 status0 m0) (\<lambda>(parsed1, status1, m1).
            let status2 = (if HttpMessage_getType m1 = eResponse \<and> status1 = eContent \<and> hp_mIgnoreContent p
                           then eCompleted else status1)
            in res_bind (if status2 = eContent then http_content buf parsed1 m1 else Inr (0, m1, status2 = eCompleted))
               (\<lambda>(n, m2, fin).
                 Inr (parsed1 + n, p\<lparr> hp_mStatus := (if fin then eCompleted else status2),
                   hp_mMessage := Some (if fin then HttpParser_postProcess m2 else m2) \<rparr>)))))"

definition HttpParser_isCompleted :: "http_parser \<Rightarrow> bool" where
  "HttpParser_isCompleted p \<longleftrightarrow> hp_mStatus p = eCompleted"

definition HttpParser_getRequest :: "http_parser \<Rightarrow> http_message option" where
  "HttpParser_getRequest p = (case hp_mMessage p of None \<Rightarrow> None
     | Some m \<Rightarrow> if HttpMessage_getType m = eRequest then Some m else None)"

definition HttpParser_getResponse :: "http_parser \<Rightarrow> http_message option" where
  "HttpParser_getResponse p = (case hp_mMessage p of None \<Rightarrow> None
     | Some m \<Rightarrow> if HttpMessage_getType m = eResponse then Some m else None)"

subsection \<open>Bounds\<close>

definition safe_fault :: "fault \<Rightarrow> bool" where
  "safe_fault f \<longleftrightarrow> f = NullDeref \<or> f = SignedOverflow"

text \<open>A result that is a value with the property, or a NULL dereference or an overflow.\<close>

definition bounded :: "('a \<Rightarrow> bool) \<Rightarrow> 'a res \<Rightarrow> bool" where
  "bounded P r = (case r of Inl f \<Rightarrow> safe_fault f | Inr x \<Rightarrow> P x)"

lemma bounded_simps [simp]:
  "bounded P (Inr x) = P x" "bounded P (Inl f) = safe_fault f"
  "safe_fault NullDeref" "safe_fault SignedOverflow"
  by (simp_all add: bounded_def safe_fault_def)

lemma bounded_bind: "bounded Q r \<Longrightarrow> (\<And>x. Q x \<Longrightarrow> bounded P (f x)) \<Longrightarrow> bounded P (res_bind r f)"
  by (cases r) (simp_all add: bounded_def)

lemma bounded_mono: "bounded Q r \<Longrightarrow> (\<And>x. Q x \<Longrightarrow> P x) \<Longrightarrow> bounded P r"
  by (auto simp: bounded_def split: sum.splits)

lemma bounded_int_add: "bounded (\<lambda>s. s = a + b \<and> int_ok s) (int_add a b)"
  by (simp add: int_add_def)

lemma bounded_line_at:
  assumes "0 \<le> len" "int a + len \<le> int (length buf)" "len \<le> int_max"
  shows "bounded (\<lambda>l. \<forall>line. l = Some line \<longrightarrow> 0 < length line \<and> int (length line) \<le> len) (line_at buf a len)"
proof -
  have "to_size len = nat len" using assms(1,3) by (simp add: int_max_def)
  then have "\<exists>r. memchr buf a (to_size len) LF = Inr r" using assms by (intro memchr_total) simp
  then obtain l where l: "line_at buf a len = Inr l" by (auto simp: line_at_def)
  have "0 < length line \<and> int (length line) \<le> len" if "l = Some line" for line
    using line_at_Some [of buf a len line] l that \<open>to_size len = nat len\<close> assms(1) by auto
  then show ?thesis using l by simp
qed

lemma bounded_getLine:
  assumes "0 \<le> len" "int a + len \<le> int (length buf)" "len \<le> int_max"
  shows "bounded (\<lambda>(n, s). int n \<le> len) (HttpParser_getLine buf a len sz old)"
  unfolding HttpParser_getLine_def
  by (rule bounded_bind [OF bounded_line_at [OF assms]]) (auto simp: assms(1) split: option.splits)

lemma bounded_appendContent:
  assumes "message_ok m" "0 < len" "nat len \<le> length src"
  shows "bounded message_ok (HttpMessage_appendContent src len 0 m)"
proof (cases "hm_mContentLength m + len < int_max")
  case True
  then show ?thesis using appendContent_ok [OF assms True, of 0] by (auto simp: int_max_def)
next
  case False
  let ?t = "hm_mContentLength m + len"
  have pos: "0 < ?t" "hm_mMaxLength m < ?t" using False assms by (auto simp: message_ok_def)
  show ?thesis
  proof (cases "int_ok ?t")
    case True
    then have "?t = int_max" using False by (simp add: int_ok_def)
    then have "int_add ?t 1 = Inl SignedOverflow" by (simp add: int_add_def int_ok_def int_max_def)
    then show ?thesis using True pos assms(2)
      by (simp add: HttpMessage_appendContent_def int_add_def content_block_def Let_def)
  next
    case False
    then show ?thesis using assms(2) by (simp add: HttpMessage_appendContent_def int_add_def Let_def)
  qed
qed

lemma addParam_ok [simp]: "message_ok m \<Longrightarrow> message_ok (HttpRequest_addParam a b m)"
  by (auto simp: message_ok_def sub_ok_def HttpRequest_addParam_def on_request_def split: http_sub.splits)

lemma setters_ok [simp]:
  "message_ok m \<Longrightarrow> message_ok (HttpRequest_setMethod x m)"
  "message_ok m \<Longrightarrow> message_ok (HttpRequest_setURL x m)"
  "message_ok m \<Longrightarrow> message_ok (HttpRequest_setURI x m)"
  "message_ok m \<Longrightarrow> message_ok (HttpResponse_setStatusCode c m)"
  by (auto simp: message_ok_def sub_ok_def HttpRequest_setMethod_def HttpRequest_setURL_def HttpRequest_setURI_def
      HttpResponse_setStatusCode_def on_request_def on_response_def split: http_sub.splits)

lemma new_ok [simp]: "message_ok HttpRequest_new" "message_ok HttpResponse_new"
  by (simp_all add: message_ok_def sub_ok_def content_ok_def HttpRequest_new_def HttpResponse_new_def HttpMessage_new_def int_max_def)

lemma add_params_ok: "message_ok m \<Longrightarrow> message_ok (add_params params m)"
  by (induction params m rule: add_params.induct) (subst add_params.simps, auto split: option.splits prod.splits)

lemma bounded_setVersion: "message_ok m \<Longrightarrow> bounded message_ok (HttpMessage_setVersion v m)"
  by (auto simp: HttpMessage_setVersion_def snprintf_s_def message_ok_def split: option.splits)

lemma bounded_setReason: "message_ok m \<Longrightarrow> bounded message_ok (HttpResponse_setReasonPhrase v m)"
  by (auto simp: HttpResponse_setReasonPhrase_def snprintf_s_def message_ok_def on_response_def sub_ok_def
      split: option.splits http_sub.splits)

lemma bounded_start_message: "bounded message_ok (start_message line)"
  unfolding start_message_def Let_def
  by (auto intro!: bounded_bind [OF bounded_setVersion] bounded_setVersion bounded_setReason add_params_ok
      bounded_bind [where Q = message_ok] split: prod.splits option.splits)

lemma bounded_header_message: "message_ok m \<Longrightarrow> bounded message_ok (header_message line m)"
  by (auto simp: header_message_def addHeader_eq split: prod.splits option.splits)

lemma bounded_parse_chunk:
  assumes "message_ok m" "int a + len = int (length buf)" "int parsed \<le> len" "len \<le> int_max"
  shows "bounded (\<lambda>(parsed', m', hasChunk, fin). message_ok m' \<and> int parsed' \<le> len) (parse_chunk buf a len parsed m)"
  unfolding parse_chunk_def Let_def
proof (rule bounded_bind [OF bounded_getLine], goal_cases)
  case (4 x)
  obtain lineLen chunkSize where x: "x = (lineLen, chunkSize)" by (cases x)
  define c where "c = long_to_int (strtol 16 chunkSize)"
  have l: "int lineLen \<le> len - int parsed" using 4 x by simp
  show ?case
  proof (cases "0 < c")
    case True
    show ?thesis unfolding x prod.case c_def [symmetric] if_P [OF True]
    proof (rule bounded_bind [OF bounded_int_add], goal_cases)
      case (1 need)
      show ?case
      proof (cases "need < len - int parsed")
        case True
        show ?thesis unfolding if_P [OF True]
        proof (rule bounded_bind [OF bounded_getLine], goal_cases)
          case (4 y)
          have "nat c \<le> length (drop (a + parsed + lineLen) buf)" using True 1 assms(2) by (simp add: nat_le_iff)
          from bounded_appendContent [OF assms(1) \<open>0 < c\<close> this] show ?case
            using 4 True 1 \<open>0 < c\<close> assms(1,3)
            by (cases y) (auto intro!: bounded_bind [where Q = message_ok])
        qed (use True 1 \<open>0 < c\<close> assms in auto)
      qed (use assms in simp)
    qed
  next
    case False
    then show ?thesis unfolding x prod.case c_def [symmetric] using assms l by simp
  qed
qed (use assms in auto)

lemma bounded_parse_chunks:
  "message_ok m \<Longrightarrow> int a + len = int (length buf) \<Longrightarrow> int parsed \<le> len \<Longrightarrow> len \<le> int_max \<Longrightarrow>
     bounded (\<lambda>(n, m', fin). message_ok m' \<and> int n \<le> len) (parse_chunks buf a len parsed m)"
proof (induction buf a len parsed m rule: parse_chunks.induct)
  case (1 buf a len parsed m)
  note c = bounded_parse_chunk [OF "1.prems"]
  show ?case
  proof (cases "parse_chunk buf a len parsed m")
    case (Inl f)
    then show ?thesis using c by (subst parse_chunks.simps) simp
  next
    case (Inr x)
    obtain parsed' m' hasChunk fin where x: "x = (parsed', m', hasChunk, fin)" by (cases x)
    show ?thesis
    proof (cases "hasChunk \<and> \<not> fin")
      case True
      have "bounded (\<lambda>(n, m', fin). message_ok m' \<and> int n \<le> len) (parse_chunks buf a len parsed' m')"
        by (rule "1.IH" [OF Inr x [symmetric] refl refl True]) (use c Inr x "1.prems" in auto)
      then show ?thesis using Inr x True by (subst parse_chunks.simps) simp
    next
      case False
      then show ?thesis using c Inr x by (subst parse_chunks.simps) auto
    qed
  qed
qed

lemma bounded_parseContent:
  assumes "message_ok m" "int a + len = int (length buf)" "0 \<le> len"
  shows "bounded (\<lambda>(n, m', fin). message_ok m' \<and> int n \<le> len) (HttpParser_parseContent buf a len m)"
proof -
  define c where "c = atoi (case HttpMessage_getHeaderValue HEADER_CONTENT_LENGTH m of None \<Rightarrow> ''0'' | Some v \<Rightarrow> v)"
  have "bounded (\<lambda>(n, m'). message_ok m' \<and> int n \<le> len)
    (if 0 < c \<and> c \<le> len then res_bind (HttpMessage_appendContent (drop a buf) c 0 m) (\<lambda>m'. Inr (nat c, m')) else Inr (0, m))"
    using assms by (auto intro!: bounded_bind [OF bounded_appendContent])
  then show ?thesis unfolding HttpParser_parseContent_def Let_def c_def [symmetric]
    by (rule bounded_bind) auto
qed

lemma bounded_http_content:
  "message_ok m \<Longrightarrow> a \<le> length buf \<Longrightarrow> int (length buf) < int_max \<Longrightarrow>
     bounded (\<lambda>(n, m', fin). message_ok m' \<and> a + n \<le> length buf) (http_content buf a m)"
  unfolding http_content_def
  by (auto intro!: bounded_mono [OF bounded_parse_chunks] bounded_mono [OF bounded_parseContent])

lemma bounded_parseHeader:
  assumes "message_ok m" "a \<le> length buf" "int (length buf) < int_max"
  shows "bounded (\<lambda>(h, m'). message_ok m' \<and> a + h \<le> length buf) (HttpParser_parseHeader buf a (int (length buf) - int a) m)"
  unfolding HttpParser_parseHeader_def
proof (rule bounded_bind [OF bounded_line_at], goal_cases)
  case (4 l)
  then show ?case using assms bounded_header_message [OF assms(1)]
    by (auto split: option.splits intro!: bounded_bind [where Q = message_ok])
qed (use assms in auto)

lemma bounded_header_loop:
  "message_ok m \<Longrightarrow> parsedLen \<le> length buf \<Longrightarrow> int (length buf) < int_max \<Longrightarrow>
     bounded (\<lambda>(n, st, m'). message_ok m' \<and> n \<le> length buf) (header_loop buf headerLen parsedLen status m)"
proof (induction buf headerLen parsedLen status m rule: header_loop.induct)
  case (1 buf headerLen parsedLen status m)
  show ?case
  proof (cases "status = eHeader \<and> 0 < headerLen \<and> parsedLen < length buf")
    case True
    note h = bounded_parseHeader [OF "1.prems"]
    show ?thesis
    proof (cases "HttpParser_parseHeader buf parsedLen (int (length buf) - int parsedLen) m")
      case (Inl f)
      then show ?thesis using h True by (subst header_loop.simps) simp
    next
      case (Inr x)
      obtain n m' where x: "x = (n, m')" by (cases x)
      have "bounded (\<lambda>(n, st, m'). message_ok m' \<and> n \<le> length buf)
        (header_loop buf n (parsedLen + n) (if buf ! parsedLen = CR \<or> buf ! parsedLen = LF then eContent else status) m')"
        by (rule "1.IH" [OF True Inr x [symmetric] refl]) (use h Inr x "1.prems" in auto)
      then show ?thesis using Inr x True by (subst header_loop.simps) (simp add: Let_def)
    qed
  next
    case False
    then have "header_loop buf headerLen parsedLen status m = Inr (parsedLen, status, m)"
      by (subst header_loop.simps) (simp only: if_False)
    then show ?thesis using "1.prems" by simp
  qed
qed

lemma postProcess_ok: "message_ok m \<Longrightarrow> message_ok (HttpParser_postProcess m)"
  by (simp add: HttpParser_postProcess_def add_params_ok)

definition parser_ok :: "http_parser \<Rightarrow> bool" where
  "parser_ok p = (case hp_mMessage p of None \<Rightarrow> True | Some m \<Rightarrow> message_ok m)"

lemma bounded_parseStartLine:
  assumes "int (length buf) < int_max"
  shows "bounded (\<lambda>(n, msg). n \<le> length buf \<and> (\<forall>m. msg = Some m \<longrightarrow> message_ok m)) (HttpParser_parseStartLine buf (int (length buf)))"
  unfolding HttpParser_parseStartLine_def
proof (rule bounded_bind [OF bounded_line_at], goal_cases)
  case (4 l)
  then show ?case using bounded_start_message
    by (auto split: option.splits intro!: bounded_bind [where Q = message_ok])
qed (use assms in auto)

lemma bounded_append:
  assumes "parser_ok p" "int (length buf) < int_max"
  shows "bounded (\<lambda>(n, p'). n \<le> length buf \<and> parser_ok p') (HttpParser_append buf p)"
proof (cases "hp_mStatus p = eCompleted")
  case True
  then show ?thesis using assms by (simp add: HttpParser_append_def)
next
  case False
  define r where "r = (case hp_mMessage p of
            None \<Rightarrow> res_bind (HttpParser_parseStartLine buf (int (length buf))) (\<lambda>(n, msg).
              Inr (n, msg, if 0 < n then eHeader else hp_mStatus p))
          | Some m \<Rightarrow> Inr (0, Some m, hp_mStatus p))"
  have r: "bounded (\<lambda>(n, msg, st). n \<le> length buf \<and> (\<forall>m. msg = Some m \<longrightarrow> message_ok m)) r"
    using assms by (auto simp: r_def parser_ok_def split: option.splits intro!: bounded_bind [OF bounded_parseStartLine])
  show ?thesis unfolding HttpParser_append_def if_not_P [OF False] r_def [symmetric]
  proof (rule bounded_bind [OF r], goal_cases)
    case (1 x)
    obtain n msg st where x: "x = (n, msg, st)" by (cases x)
    show ?case
    proof (cases msg)
      case None
      then show ?thesis using 1 x assms by (auto simp: parser_ok_def)
    next
      case (Some m)
      then have m: "message_ok m" "n \<le> length buf" using 1 x by auto
      show ?thesis unfolding x Some prod.case option.case
      proof (rule bounded_bind [OF bounded_header_loop [OF m assms(2)]], goal_cases)
        case (1 y)
        then show ?case using assms(2)
          by (cases y) (auto simp: Let_def parser_ok_def postProcess_ok
              intro!: bounded_bind [OF bounded_http_content])
      qed
    qed
  qed
qed

end
