(* ===== verification/SP_HttpRound.thy ===== *)
theory SP_HttpRound
  imports SP_HttpParser
begin

text \<open>
  The parser reads back what a peer prints: requests with their parameters, headers and content,
  and messages in chunks.
\<close>

subsection \<open>Lines\<close>

abbreviation CRLF :: bytes where "CRLF \<equiv> [CR, LF]"

definition plain_text :: "bytes \<Rightarrow> bool" where
  "plain_text s \<longleftrightarrow> CR \<notin> set s \<and> LF \<notin> set s \<and> NUL \<notin> set s"

lemma plain_text_simps [simp]:
  "plain_text []" "plain_text (c # s) \<longleftrightarrow> c \<noteq> CR \<and> c \<noteq> LF \<and> c \<noteq> NUL \<and> plain_text s"
  "plain_text (s @ t) \<longleftrightarrow> plain_text s \<and> plain_text t"
  by (auto simp: plain_text_def)

lemma plain_digits: "2 \<le> b \<Longrightarrow> b \<le> 16 \<Longrightarrow> plain_text (digits b n)"
  using digits_plain [of b] by (auto simp: plain_text_def)

lemma memchr_hit:
  "c \<notin> set l \<Longrightarrow> length l < n \<Longrightarrow> memchr (pre @ l @ c # rest) (length pre) n c = Inr (Some (length pre + length l))"
proof (induction l arbitrary: pre n)
  case Nil
  then show ?case by (cases n) simp_all
next
  case (Cons x l)
  then obtain k where n: "n = Suc k" by (cases n) auto
  show ?case using Cons.IH [of k "pre @ [x]"] Cons.prems n by auto
qed

lemma line_at_hit:
  assumes "LF \<notin> set l" "int (length l) < len" "len \<le> int_max" "buf = pre @ l @ LF # rest" "a = length pre"
  shows "line_at buf a len = Inr (Some (l @ [LF]))"
proof -
  have "to_size len = nat len" using assms(2,3) by (simp add: int_max_def)
  then show ?thesis using memchr_hit [OF assms(1), of "nat len" pre rest] assms(2,4,5) by (simp add: line_at_def)
qed

lemma cstr_line: "plain_text l \<Longrightarrow> cstr (l @ [CR, LF]) = l @ [CR, LF]"
  by (simp add: is_cstr_def plain_text_def)

text \<open>A printed line of plain text, and the text after it.\<close>

lemma line_at_line:
  assumes "plain_text l" "int (length l) + 1 < len" "len \<le> int_max" "buf = pre @ l @ CRLF @ rest" "a = length pre"
  shows "line_at buf a len = Inr (Some (l @ CRLF))"
  using line_at_hit [of "l @ [CR]" len buf pre rest a] assms by (auto simp: plain_text_def)

lemma strtok_plain:
  "plain_text s \<Longrightarrow> s \<noteq> [] \<Longrightarrow> strtok (s @ CRLF) CRLF_set = Some s"
  by (rule strtok_line) (auto simp: plain_text_def)

lemma strtok_rest_plain: "plain_text s \<Longrightarrow> s \<noteq> [] \<Longrightarrow> strtok_rest (s @ CRLF) CRLF_set = s"
  by (cases s) (auto simp: strtok_rest_def plain_text_def takeWhile_append)

subsection \<open>Headers\<close>

definition print_header :: "bytes \<times> bytes \<Rightarrow> bytes" where
  "print_header h = fst h @ '': '' @ snd h @ CRLF"

definition print_headers :: "(bytes \<times> bytes) list \<Rightarrow> bytes" where
  "print_headers hs = concat (map print_header hs) @ CRLF"

definition header_ok :: "bytes \<times> bytes \<Rightarrow> bool" where
  "header_ok h \<longleftrightarrow> plain_text (fst h) \<and> fst h \<noteq> [] \<and> CHR '':'' \<notin> set (fst h) \<and>
     plain_text (snd h) \<and> snd h \<noteq> [] \<and> hd (snd h) \<noteq> CHR '' ''"

definition add_headers :: "(bytes \<times> bytes) list \<Rightarrow> http_message \<Rightarrow> http_message" where
  "add_headers hs m = foldl (\<lambda>m h. HttpMessage_addHeader (fst h) (snd h) m) m hs"

lemma header_message_print:
  assumes "header_ok h"
  shows "header_message (fst h @ '': '' @ snd h @ CRLF) m = Inr (HttpMessage_addHeader (fst h) (snd h) m)"
proof -
  have "strtok ('' '' @ snd h @ CRLF) CRLF_set = Some ('' '' @ snd h)"
    using strtok_plain [of "'' '' @ snd h"] assms by (simp add: header_ok_def)
  moreover have "dropWhile (\<lambda>c. c = CHR '' '') (snd h) = snd h"
    using assms by (cases "snd h") (simp_all add: header_ok_def)
  ultimately show ?thesis using assms sp_strsep_char(1) [of "CHR '':''" "fst h" "'' '' @ snd h @ CRLF"]
    by (simp add: header_message_def header_ok_def)
qed

lemma header_loop_prefix:
  assumes "list_all header_ok hs" "int (length buf) \<le> int_max"
  shows "buf = pre @ concat (map print_header hs) @ rest \<Longrightarrow> 0 < n \<Longrightarrow>
    \<exists>k. 0 < k \<and> header_loop buf n (length pre) eHeader m =
      header_loop buf k (length (pre @ concat (map print_header hs))) eHeader (add_headers hs m)"
  using assms(1)
proof (induction hs arbitrary: pre n m)
  case Nil
  then show ?case by (auto simp: add_headers_def)
next
  case (Cons h hs)
  let ?l = "fst h @ '': '' @ snd h"
  have h: "header_ok h" "plain_text ?l" using Cons.prems by (simp_all add: header_ok_def)
  have b: "buf = pre @ ?l @ CRLF @ concat (map print_header hs) @ rest" using Cons.prems by (simp add: print_header_def [of h])
  then have l: "line_at buf (length pre) (int (length buf) - int (length pre)) = Inr (Some (?l @ CRLF))"
    using line_at_hit [of "?l @ [CR]" "int (length buf) - int (length pre)" buf pre "concat (map print_header hs) @ rest"] assms(2) h(2)
    by (simp add: plain_text_def)
  have "HttpParser_parseHeader buf (length pre) (int (length buf) - int (length pre)) m =
      Inr (length (?l @ CRLF), HttpMessage_addHeader (fst h) (snd h) m)"
    using l cstr_line [OF h(2)] header_message_print [OF h(1), of m] by (simp add: HttpParser_parseHeader_def)
  moreover have "buf ! length pre \<noteq> CR" "buf ! length pre \<noteq> LF" "length pre < length buf"
    using b h by (cases "fst h"; simp add: header_ok_def nth_append)+
  ultimately have step: "header_loop buf n (length pre) eHeader m =
      header_loop buf (length (?l @ CRLF)) (length (pre @ ?l @ CRLF)) eHeader (HttpMessage_addHeader (fst h) (snd h) m)"
    using Cons.prems by (subst header_loop.simps) (simp add: Let_def)
  have "\<exists>k. 0 < k \<and> header_loop buf (length (?l @ CRLF)) (length (pre @ ?l @ CRLF)) eHeader (HttpMessage_addHeader (fst h) (snd h) m)
    = header_loop buf k (length ((pre @ ?l @ CRLF) @ concat (map print_header hs))) eHeader (add_headers hs (HttpMessage_addHeader (fst h) (snd h) m))"
    by (rule Cons.IH) (use b Cons.prems in simp_all)
  then show ?case unfolding step by (simp add: print_header_def [of h] add_headers_def)
qed

lemma header_loop_blank:
  assumes "buf = pre @ CR # LF # rest" "0 < n" "int (length buf) \<le> int_max"
  shows "header_loop buf n (length pre) eHeader m = Inr (length pre + 2, eContent, m)"
proof -
  have "line_at buf (length pre) (int (length buf) - int (length pre)) = Inr (Some CRLF)"
    using line_at_hit [of "[CR]" "int (length buf) - int (length pre)" buf pre rest] assms by simp
  moreover have "header_message (cstr CRLF) m = Inr m"
    using cstr_line [of "[]"] by (simp add: header_message_def sp_strsep_def)
  ultimately have "HttpParser_parseHeader buf (length pre) (int (length buf) - int (length pre)) m = Inr (2, m)"
    by (simp add: HttpParser_parseHeader_def)
  moreover have "buf ! length pre = CR" "length pre < length buf" using assms by simp_all
  ultimately show ?thesis using assms
    by (subst header_loop.simps, simp, subst header_loop.simps, simp)
qed

text \<open>A blank line whose LF has not arrived yet is taken for the end of the headers.\<close>

lemma header_loop_split:
  assumes "buf = pre @ [CR]" "0 < n" "int (length buf) \<le> int_max"
  shows "header_loop buf n (length pre) eHeader m = Inr (length pre, eContent, m)"
proof -
  have "memchr buf (length pre) (Suc 0) LF = Inr None" using assms by simp
  moreover have "to_size 1 = Suc 0" by simp
  ultimately have "line_at buf (length pre) 1 = Inr None" by (simp add: line_at_def)
  then have "HttpParser_parseHeader buf (length pre) (int (length buf) - int (length pre)) m = Inr (0, m)"
    using assms(1) by (simp add: HttpParser_parseHeader_def)
  moreover have "buf ! length pre = CR" "length pre < length buf" using assms by simp_all
  ultimately show ?thesis using assms
    by (subst header_loop.simps, simp, subst header_loop.simps, simp)
qed

lemma header_loop_print:
  assumes "list_all header_ok hs" "int (length buf) \<le> int_max" "buf = pre @ print_headers hs @ rest" "0 < n"
  shows "header_loop buf n (length pre) eHeader m = Inr (length (pre @ print_headers hs), eContent, add_headers hs m)"
proof -
  let ?pre = "pre @ concat (map print_header hs)"
  have b: "buf = pre @ concat (map print_header hs) @ CR # LF # rest" using assms(3) by (simp add: print_headers_def)
  from header_loop_prefix [OF assms(1,2) b assms(4), of m] obtain k where
    k: "0 < k" "header_loop buf n (length pre) eHeader m = header_loop buf k (length ?pre) eHeader (add_headers hs m)" by blast
  have "buf = ?pre @ CR # LF # rest" using b by simp
  from header_loop_blank [OF this k(1) assms(2), of "add_headers hs m"] k(2) show ?thesis by (simp add: print_headers_def)
qed

lemma add_headers_ok:
  "message_ok m \<Longrightarrow> message_ok (add_headers hs m) \<and> HttpMessage_headers (add_headers hs m) = HttpMessage_headers m @ hs"
  unfolding add_headers_def
proof (induction hs arbitrary: m)
  case (Cons h hs)
  have m: "message_ok (HttpMessage_addHeader (fst h) (snd h) m)"
    "HttpMessage_headers (HttpMessage_addHeader (fst h) (snd h) m) = HttpMessage_headers m @ [h]"
    using addHeader_eq [OF Cons.prems] by simp_all
  show ?case using Cons.IH [OF m(1)] m(2) by simp
qed simp

lemma add_headers_same:
  "hm_sub (add_headers hs m) = hm_sub m \<and> hm_mVersion (add_headers hs m) = hm_mVersion m \<and>
   hm_mContent (add_headers hs m) = hm_mContent m \<and> hm_mMaxLength (add_headers hs m) = hm_mMaxLength m \<and>
   hm_mContentLength (add_headers hs m) = hm_mContentLength m"
  unfolding add_headers_def
  by (induction hs arbitrary: m) (simp_all add: HttpMessage_addHeader_def)

subsection \<open>The request line\<close>

definition print_param :: "bytes \<times> bytes \<Rightarrow> bytes" where
  "print_param p = fst p @ ''='' @ snd p"

fun print_params :: "(bytes \<times> bytes) list \<Rightarrow> bytes" where
  "print_params [] = []"
| "print_params [p] = print_param p"
| "print_params (p # q # ps) = print_param p @ ''&'' @ print_params (q # ps)"

definition param_ok :: "bytes \<times> bytes \<Rightarrow> bool" where
  "param_ok p \<longleftrightarrow> CHR ''='' \<notin> set (fst p) \<and> CHR ''&'' \<notin> set (fst p @ snd p) \<and>
     plain_text (fst p @ snd p) \<and> CHR '' '' \<notin> set (fst p @ snd p)"

definition add_param_list :: "(bytes \<times> bytes) list \<Rightarrow> http_message \<Rightarrow> http_message" where
  "add_param_list ps m = foldl (\<lambda>m p. HttpRequest_addParam (fst p) (snd p) m) m ps"

lemma strsep_param: "param_ok p \<Longrightarrow> sp_strsep (Some (print_param p)) ''='' = (Some (fst p), Some (snd p))"
  by (simp add: print_param_def param_ok_def)

lemma print_param_props:
  "param_ok p \<Longrightarrow> CHR ''&'' \<notin> set (print_param p) \<and> print_param p \<noteq> [] \<and> CHR '' '' \<notin> set (print_param p) \<and> plain_text (print_param p)"
  by (auto simp: print_param_def param_ok_def)

lemma add_params_print:
  "list_all param_ok ps \<Longrightarrow> ps \<noteq> [] \<Longrightarrow> add_params (Some (print_params ps)) m = add_param_list ps m"
proof (induction ps arbitrary: m rule: print_params.induct)
  case (2 p)
  then have p: "param_ok p" by simp
  have "sp_strsep (Some (print_param p)) ''&'' = (Some (print_param p), None)" using print_param_props [OF p] by simp
  then show ?case using print_param_props [OF p] strsep_param [OF p]
    by (subst add_params.simps, simp, subst add_params.simps, simp add: add_param_list_def)
next
  case (3 p q ps)
  then have p: "param_ok p" by simp
  have "sp_strsep (Some (print_param p @ ''&'' @ print_params (q # ps))) ''&'' = (Some (print_param p), Some (print_params (q # ps)))"
    using print_param_props [OF p] by simp
  then show ?case using print_param_props [OF p] strsep_param [OF p] 3
    by (subst add_params.simps) (simp add: add_param_list_def)
qed simp

record http_spec =
  sp_method :: bytes
  sp_uri :: bytes
  sp_params :: "(bytes \<times> bytes) list"
  sp_version :: bytes
  sp_headers :: "(bytes \<times> bytes) list"
  sp_body :: bytes

definition print_url :: "http_spec \<Rightarrow> bytes" where
  "print_url r = sp_uri r @ (if sp_params r = [] then [] else ''?'' @ print_params (sp_params r))"

definition print_request_line :: "http_spec \<Rightarrow> bytes" where
  "print_request_line r = sp_method r @ '' '' @ print_url r @ '' '' @ sp_version r @ CRLF"

definition print_request :: "http_spec \<Rightarrow> bytes" where
  "print_request r = print_request_line r @ print_headers (sp_headers r) @ sp_body r"

text \<open>
  A request head that the format can carry: a method of at most 15 characters that is not mistaken
  for the version of a response, no separator inside a part. With content it also has the right
  Content-Length, or is sent in chunks; form content would add parameters.
\<close>

definition head_ok :: "http_spec \<Rightarrow> bool" where
  "head_ok r \<longleftrightarrow>
     plain_text (sp_method r) \<and> CHR '' '' \<notin> set (sp_method r) \<and> length (sp_method r) \<le> 15 \<and>
     \<not> strncaseeq (sp_method r) ''HTTP'' 4 \<and>
     plain_text (sp_uri r) \<and> CHR '' '' \<notin> set (sp_uri r) \<and> CHR ''?'' \<notin> set (sp_uri r) \<and>
     list_all param_ok (sp_params r) \<and>
     plain_text (sp_version r) \<and> sp_version r \<noteq> [] \<and> length (sp_version r) \<le> 15 \<and>
     list_all header_ok (sp_headers r) \<and>
     (case assoc_case HEADER_CONTENT_TYPE (sp_headers r) of None \<Rightarrow> True
      | Some t \<Rightarrow> \<not> strcaseeq t ''application/x-www-form-urlencoded'')"

definition is_chunked :: "bytes option \<Rightarrow> bool" where
  "is_chunked v = (case v of None \<Rightarrow> False | Some e \<Rightarrow> strcaseeq e ''chunked'')"

definition request_ok :: "http_spec \<Rightarrow> bool" where
  "request_ok r \<longleftrightarrow> head_ok r \<and> \<not> is_chunked (assoc_case HEADER_TRANSFER_ENCODING (sp_headers r)) \<and>
     (case assoc_case HEADER_CONTENT_LENGTH (sp_headers r) of None \<Rightarrow> sp_body r = []
      | Some v \<Rightarrow> v = digits 10 (length (sp_body r)))"

definition chunked_ok :: "http_spec \<Rightarrow> bool" where
  "chunked_ok r \<longleftrightarrow> head_ok r \<and> is_chunked (assoc_case HEADER_TRANSFER_ENCODING (sp_headers r))"

lemma print_params_props:
  "list_all param_ok ps \<Longrightarrow> CHR '' '' \<notin> set (print_params ps) \<and> plain_text (print_params ps)"
  by (induction ps rule: print_params.induct) (simp_all add: print_param_props)

lemma print_url_props: "head_ok r \<Longrightarrow> CHR '' '' \<notin> set (print_url r) \<and> plain_text (print_url r)"
  using print_params_props [of "sp_params r"] by (auto simp: print_url_def head_ok_def)

definition request_message :: "http_spec \<Rightarrow> http_message" where
  "request_message r = (HttpMessage_new (Request \<lparr> hq_mMethod = sp_method r, hq_mClientIP = [], hq_mURI = Some (sp_uri r),
     hq_mURL = Some (print_url r), hq_mParamNameList = map fst (sp_params r), hq_mParamValueList = map snd (sp_params r) \<rparr>))
     \<lparr> hm_mVersion := sp_version r \<rparr>"

lemma add_param_list_eq:
  "hm_sub m = Request q \<Longrightarrow> add_param_list ps m = m\<lparr> hm_sub := Request (q\<lparr> hq_mParamNameList := hq_mParamNameList q @ map fst ps,
     hq_mParamValueList := hq_mParamValueList q @ map snd ps \<rparr>) \<rparr>"
  unfolding add_param_list_def
  by (induction ps arbitrary: m q) (simp_all add: HttpRequest_addParam_def on_request_def)

lemma strsep_url:
  assumes "head_ok r"
  shows "sp_strsep (Some (print_url r)) ''?'' =
    (Some (sp_uri r), if sp_params r = [] then None else Some (print_params (sp_params r)))"
  using assms by (simp add: print_url_def head_ok_def)

lemma start_message_print:
  assumes "head_ok r"
  shows "start_message (print_request_line r) = Inr (request_message r)"
proof -
  let ?q = "\<lparr> hq_mMethod = sp_method r, hq_mClientIP = [], hq_mURI = Some (sp_uri r),
     hq_mURL = Some (print_url r), hq_mParamNameList = [], hq_mParamValueList = [] \<rparr>"
  let ?m = "(HttpMessage_new (Request ?q))\<lparr> hm_mVersion := sp_version r \<rparr>"
  have s1: "sp_strsep (Some (print_request_line r)) '' '' = (Some (sp_method r), Some (print_url r @ '' '' @ sp_version r @ CRLF))"
    using assms by (simp add: print_request_line_def head_ok_def)
  have s2: "sp_strsep (Some (print_url r @ '' '' @ sp_version r @ CRLF)) '' '' = (Some (print_url r), Some (sp_version r @ CRLF))"
    using print_url_props [OF assms] by simp
  have t: "strtok (sp_version r @ CRLF) CRLF_set = Some (sp_version r)"
    using strtok_plain assms by (simp add: head_ok_def)
  have p: "add_params (if sp_params r = [] then None else Some (print_params (sp_params r))) ?m = request_message r"
  proof (cases "sp_params r = []")
    case True
    then show ?thesis by (subst add_params.simps) (simp add: request_message_def)
  next
    case False
    then have "add_params (Some (print_params (sp_params r))) ?m = add_param_list (sp_params r) ?m"
      using add_params_print assms by (simp add: head_ok_def)
    moreover have "hm_sub ?m = Request ?q" by (simp add: HttpMessage_new_def)
    ultimately show ?thesis using False add_param_list_eq [of ?m ?q "sp_params r"]
      by (simp add: request_message_def HttpMessage_new_def)
  qed
  have "HttpRequest_setURI (sp_uri r) (HttpRequest_setURL (print_url r) (HttpRequest_setMethod (sp_method r) HttpRequest_new)) =
      HttpMessage_new (Request ?q)"
    using assms by (simp add: HttpRequest_setURI_def HttpRequest_setURL_def HttpRequest_setMethod_def HttpRequest_new_def
        HttpMessage_new_def on_request_def head_ok_def)
  then show ?thesis using assms s1 s2 t p strsep_url [OF assms]
    by (simp add: start_message_def head_ok_def HttpMessage_setVersion_def snprintf_s_def)
qed

definition print_head :: "http_spec \<Rightarrow> bytes" where
  "print_head r = print_request_line r @ print_headers (sp_headers r)"

definition head_message :: "http_spec \<Rightarrow> http_message" where
  "head_message r = add_headers (sp_headers r) (request_message r)"

lemma request_message_props:
  "message_ok (request_message r)" "HttpMessage_headers (request_message r) = []" "HttpMessage_getType (request_message r) = eRequest"
  by (simp_all add: request_message_def message_ok_def sub_ok_def content_ok_def HttpMessage_new_def int_max_def
      HttpMessage_headers_def HttpMessage_getType_def)

lemma head_message_props:
  "message_ok (head_message r)" "HttpMessage_headers (head_message r) = sp_headers r"
  "hm_sub (head_message r) = hm_sub (request_message r)" "hm_mVersion (head_message r) = sp_version r"
  "hm_mContentLength (head_message r) = 0" "HttpMessage_content (head_message r) = []"
  "HttpMessage_getType (head_message r) = eRequest"
  using add_headers_ok [of "request_message r" "sp_headers r"] request_message_props [of r]
    add_headers_same [of "sp_headers r" "request_message r"]
  by (simp_all add: head_message_def HttpMessage_content_def HttpMessage_getType_def request_message_def HttpMessage_new_def)

lemma start_line_print:
  assumes "head_ok r" "buf = print_request_line r @ tail" "int (length buf) < int_max" "tail \<noteq> []"
  shows "HttpParser_parseStartLine buf (int (length buf)) = Inr (length (print_request_line r), Some (request_message r))
    \<and> print_request_line r \<noteq> []"
proof -
  obtain l where l: "print_request_line r = l @ CRLF" "plain_text l" "l \<noteq> []"
    using assms(1) print_url_props [OF assms(1)] by (simp add: print_request_line_def head_ok_def)
  have "line_at buf 0 (int (length buf)) = Inr (Some (l @ CRLF))"
    by (rule line_at_line [where pre = "[]" and rest = tail]) (use l assms in \<open>cases tail; simp\<close>)+
  then show ?thesis using start_message_print [OF assms(1)] l cstr_line [OF l(2)]
    by (simp add: HttpParser_parseStartLine_def)
qed

text \<open>The parser reads the head of a request and goes on with its content.\<close>

lemma append_head:
  assumes "head_ok r" "buf = print_head r @ rest" "int (length buf) < int_max"
  shows "HttpParser_append buf HttpParser_new =
    res_bind (http_content buf (length (print_head r)) (head_message r)) (\<lambda>(n, m2, fin).
      Inr (length (print_head r) + n, \<lparr> hp_mMessage = Some (if fin then HttpParser_postProcess m2 else m2),
        hp_mStatus = (if fin then eCompleted else eContent), hp_mIgnoreContent = False \<rparr>))"
proof -
  have start: "HttpParser_parseStartLine buf (int (length buf)) = Inr (length (print_request_line r), Some (request_message r))"
    "print_request_line r \<noteq> []"
    using start_line_print [OF assms(1), of buf "print_headers (sp_headers r) @ rest"] assms(2,3)
    by (simp_all add: print_head_def print_headers_def)
  have hs: "list_all header_ok (sp_headers r)" using assms(1) by (simp add: head_ok_def)
  have loop: "header_loop buf 1 (length (print_request_line r)) eHeader (request_message r) =
      Inr (length (print_head r), eContent, head_message r)"
    using header_loop_print [OF hs, of buf "print_request_line r" rest 1 "request_message r"] assms(2,3)
    by (simp add: print_head_def head_message_def)
  show ?thesis using start loop head_message_props [of r]
    by (simp add: HttpParser_append_def HttpParser_new_def)
qed

lemma postProcess_plain:
  assumes "message_ok m" "case assoc_case HEADER_CONTENT_TYPE (HttpMessage_headers m) of None \<Rightarrow> True
      | Some t \<Rightarrow> \<not> strcaseeq t ''application/x-www-form-urlencoded''"
  shows "HttpParser_postProcess m = m"
  using assms by (auto simp: HttpParser_postProcess_def getHeaderValue_eq split: option.splits)

lemma parseContent_print:
  assumes m: "message_ok m" "hm_mContentLength m = 0" "HttpMessage_content m = []"
    and v: "case assoc_case HEADER_CONTENT_LENGTH (HttpMessage_headers m) of None \<Rightarrow> body = [] | Some v \<Rightarrow> v = digits 10 (length body)"
    and buf: "buf = pre @ body @ rest" "int (length buf) < int_max"
  shows "\<exists>m'. HttpParser_parseContent buf (length pre) (int (length buf) - int (length pre)) m = Inr (length body, m', True) \<and>
    message_ok m' \<and> HttpMessage_content m' = body \<and>
    m' = m\<lparr> hm_mContent := hm_mContent m', hm_mMaxLength := hm_mMaxLength m', hm_mContentLength := hm_mContentLength m' \<rparr>"
proof -
  have "char_of (48 :: nat) = CHR ''0''" by code_simp
  then have "digits 10 0 = ''0''" by (subst digits.simps) (simp add: digit_char_def)
  then have "atoi ''0'' = 0" using atoi_digits [of 0] by (simp add: int_max_def)
  then have c: "atoi (case HttpMessage_getHeaderValue HEADER_CONTENT_LENGTH m of None \<Rightarrow> ''0'' | Some v \<Rightarrow> v) = int (length body)"
    using v buf atoi_digits [of "length body"] by (auto simp: getHeaderValue_eq [OF m(1)] split: option.splits)
  show ?thesis
  proof (cases "body = []")
    case True
    then show ?thesis using c m by (intro exI [of _ m]) (simp add: HttpParser_parseContent_def)
  next
    case False
    have "drop (length pre) buf = body @ rest" using buf by simp
    moreover from appendContent_ok [OF m(1), of "int (length body)" "body @ rest" 0] obtain m' where
      "HttpMessage_appendContent (body @ rest) (int (length body)) 0 m = Inr m'" "message_ok m'" "HttpMessage_content m' = body"
      "hm_mContentLength m' = int (length body)"
      "m' = m\<lparr> hm_mContent := hm_mContent m', hm_mMaxLength := hm_mMaxLength m', hm_mContentLength := hm_mContentLength m' \<rparr>"
      using False m buf by (auto simp: int_max_def)
    ultimately show ?thesis using c False buf
      by (intro exI [of _ m']) (simp add: HttpParser_parseContent_def Let_def)
  qed
qed

subsection \<open>Chunks\<close>

definition print_chunk :: "bytes \<Rightarrow> bytes" where
  "print_chunk d = digits 16 (length d) @ CRLF @ d @ CRLF"

definition print_chunks :: "bytes list \<Rightarrow> bytes" where
  "print_chunks ds = concat (map print_chunk ds) @ ''0'' @ CRLF"

lemma digits_length: "2 \<le> b \<Longrightarrow> n < b ^ k \<Longrightarrow> 0 < k \<Longrightarrow> length (digits b n) \<le> k"
proof (induction k arbitrary: n)
  case (Suc k)
  show ?case
  proof (cases "n < b")
    case True
    then show ?thesis by (subst digits.simps) simp
  next
    case False
    then have "0 < k" using Suc.prems by (cases k) auto
    moreover have "n div b < b ^ k" using Suc.prems by (simp add: less_mult_imp_div_less mult.commute)
    ultimately have "length (digits b (n div b)) \<le> k" using Suc by simp
    then show ?thesis using False Suc.prems(1) by (subst digits.simps) simp
  qed
qed simp

lemma getLine_size:
  assumes "buf = pre @ digits 16 n @ CRLF @ rest" "a = length pre" "int n < int_max"
    "int (length (digits 16 n)) + 1 < len" "len \<le> int_max"
  shows "HttpParser_getLine buf a len 32 [] = Inr (length (digits 16 n) + 2, digits 16 n) \<and>
    long_to_int (strtol 16 (digits 16 n)) = int n"
proof -
  have p: "plain_text (digits 16 n)" "digits 16 n \<noteq> []" using plain_digits [of 16] digits_ok [of 16 n] by simp_all
  have "n < 16 ^ 8" using assms(3) by (simp add: int_max_def)
  then have "length (digits 16 n) \<le> 8" by (intro digits_length) simp_all
  then have "take 31 (digits 16 n @ CRLF) = digits 16 n @ CRLF" by simp
  moreover have "line_at buf a len = Inr (Some (digits 16 n @ CRLF))"
    by (rule line_at_line [OF p(1) assms(4,5,1,2)])
  moreover have "strtol 16 (digits 16 n) = int n" using strtol_digits [of 16 n "[]"] assms(3) by (simp add: int_max_def long_max_def)
  ultimately show ?thesis using cstr_line [OF p(1)] strtok_rest_plain [OF p] assms(3)
    by (simp add: HttpParser_getLine_def int_ok_def int_max_def)
qed

lemma parse_chunk_print:
  assumes m: "message_ok m" "hm_mContentLength m + int (length d) < int_max" and d: "d \<noteq> []"
    and buf: "buf = pre @ print_chunk d @ rest" "a + parsed = length pre" "len = int (length buf) - int a" "int (length buf) < int_max"
    and rest: "rest \<noteq> []"
  shows "\<exists>m'. parse_chunk buf a len parsed m = Inr (parsed + length (print_chunk d), m', True, False) \<and> message_ok m' \<and>
    HttpMessage_content m' = HttpMessage_content m @ d \<and> hm_mContentLength m' = hm_mContentLength m + int (length d) \<and>
    m' = m\<lparr> hm_mContent := hm_mContent m', hm_mMaxLength := hm_mMaxLength m', hm_mContentLength := hm_mContentLength m' \<rparr>"
proof -
  let ?s = "digits 16 (length d)"
  have b1: "buf = pre @ ?s @ CRLF @ d @ CRLF @ rest" using buf(1) by (simp add: print_chunk_def)
  have b2: "buf = (pre @ ?s @ CRLF @ d) @ [] @ CRLF @ rest" using b1 by simp
  have left: "len - int parsed = int (length ?s + 2 + length d + 2 + length rest)" using b1 buf(2,3) by simp
  have l: "HttpParser_getLine buf (a + parsed) (len - int parsed) 32 [] = Inr (length ?s + 2, ?s)"
    "long_to_int (strtol 16 ?s) = int (length d)"
    using getLine_size [OF b1 buf(2), of "len - int parsed"] buf(4) b1 left by simp_all
  have e: "HttpParser_getLine buf (a + parsed + (length ?s + 2) + length d) (len - int parsed - int (length ?s + 2) - int (length d)) 32 ?s
      = Inr (2, strtok_rest (cstr (take 31 CRLF)) CRLF_set)"
    using line_at_line [where a = "a + parsed + (length ?s + 2) + length d" and len = "len - int parsed - int (length ?s + 2) - int (length d)", OF _ _ _ b2]
      left buf(2,4) b1 rest by (cases rest) (simp_all add: HttpParser_getLine_def)
  have "drop (a + parsed + (length ?s + 2)) buf = d @ CRLF @ rest" using b1 buf(2) by simp
  moreover from appendContent_ok [OF m(1), of "int (length d)" "d @ CRLF @ rest" 0] m(2) d obtain m' where
    m': "HttpMessage_appendContent (d @ CRLF @ rest) (int (length d)) 0 m = Inr m'" "message_ok m'"
      "HttpMessage_content m' = HttpMessage_content m @ d" "hm_mContentLength m' = hm_mContentLength m + int (length d)"
      "m' = m\<lparr> hm_mContent := hm_mContent m', hm_mMaxLength := hm_mMaxLength m', hm_mContentLength := hm_mContentLength m' \<rparr>"
    by (auto simp: int_max_def)
  moreover have "int_add (int (length d)) (int (length ?s + 2)) = Inr (int (length d) + int (length ?s + 2))"
    using b1 buf(4) by (simp add: int_add_def int_ok_def int_max_def)
  moreover have "int (length d) + int (length ?s + 2) < len - int parsed" using left by simp
  ultimately have "parse_chunk buf a len parsed m = Inr (parsed + (length ?s + 2) + length d + 2, m', True, False)"
    using l e d unfolding parse_chunk_def l(1) res_bind_simps prod.case l(2) Let_def by simp
  then show ?thesis using m' by (intro exI [of _ m']) (simp add: print_chunk_def)
qed

lemma parse_chunks_print:
  "message_ok m \<Longrightarrow> hm_mContentLength m + int (length (concat ds)) < int_max \<Longrightarrow> list_all (\<lambda>d. d \<noteq> []) ds \<Longrightarrow>
   buf = pre @ print_chunks ds @ rest \<Longrightarrow> a + parsed = length pre \<Longrightarrow> len = int (length buf) - int a \<Longrightarrow> int (length buf) < int_max \<Longrightarrow>
   \<exists>m'. parse_chunks buf a len parsed m = Inr (parsed + length (print_chunks ds), m', True) \<and> message_ok m' \<and>
     HttpMessage_content m' = HttpMessage_content m @ concat ds \<and>
     m' = m\<lparr> hm_mContent := hm_mContent m', hm_mMaxLength := hm_mMaxLength m', hm_mContentLength := hm_mContentLength m' \<rparr>"
proof (induction ds arbitrary: pre parsed m)
  case Nil
  have "char_of (48 :: nat) = CHR ''0''" by code_simp
  then have z: "digits 16 0 = ''0''" by (subst digits.simps) (simp add: digit_char_def)
  have "HttpParser_getLine buf (a + parsed) (len - int parsed) 32 [] = Inr (3, ''0'')" "long_to_int (strtol 16 ''0'') = 0"
    using getLine_size [of buf pre 0 rest "a + parsed" "len - int parsed"] Nil.prems
    by (simp_all add: z print_chunks_def int_max_def)
  then have "parse_chunk buf a len parsed m = Inr (parsed + 3, m, False, True)" by (simp add: parse_chunk_def)
  then show ?case using Nil.prems by (subst parse_chunks.simps) (intro exI [of _ m], simp add: print_chunks_def)
next
  case (Cons d ds)
  have b: "buf = pre @ print_chunk d @ print_chunks ds @ rest" using Cons.prems(4) by (simp add: print_chunks_def)
  from parse_chunk_print [OF Cons.prems(1) _ _ b Cons.prems(5-7)] Cons.prems(2,3) obtain m' where
    m': "parse_chunk buf a len parsed m = Inr (parsed + length (print_chunk d), m', True, False)" "message_ok m'"
      "HttpMessage_content m' = HttpMessage_content m @ d" "hm_mContentLength m' = hm_mContentLength m + int (length d)"
      "m' = m\<lparr> hm_mContent := hm_mContent m', hm_mMaxLength := hm_mMaxLength m', hm_mContentLength := hm_mContentLength m' \<rparr>"
    by (auto simp: print_chunks_def)
  have "\<exists>m''. parse_chunks buf a len (parsed + length (print_chunk d)) m' =
      Inr (parsed + length (print_chunk d) + length (print_chunks ds), m'', True) \<and> message_ok m'' \<and>
     HttpMessage_content m'' = HttpMessage_content m' @ concat ds \<and>
     m'' = m'\<lparr> hm_mContent := hm_mContent m'', hm_mMaxLength := hm_mMaxLength m'', hm_mContentLength := hm_mContentLength m'' \<rparr>"
    by (rule Cons.IH [OF m'(2), where pre = "pre @ print_chunk d"]) (use Cons.prems m'(4) b in simp_all)
  then obtain m'' where m'': "parse_chunks buf a len (parsed + length (print_chunk d)) m' =
      Inr (parsed + length (print_chunk d) + length (print_chunks ds), m'', True)" "message_ok m''"
     "HttpMessage_content m'' = HttpMessage_content m' @ concat ds"
     "m'' = m'\<lparr> hm_mContent := hm_mContent m'', hm_mMaxLength := hm_mMaxLength m'', hm_mContentLength := hm_mContentLength m'' \<rparr>" by blast
  have "m'' = m\<lparr> hm_mContent := hm_mContent m'', hm_mMaxLength := hm_mMaxLength m'', hm_mContentLength := hm_mContentLength m'' \<rparr>"
    by (subst m''(4), subst m'(5)) simp
  then show ?case using m'(1,3) m''(1-3)
    by (subst parse_chunks.simps) (intro exI [of _ m''], simp add: print_chunks_def)
qed

subsection \<open>Properties\<close>

subsection \<open>Samples\<close>

text \<open>Requests that satisfy the conditions: one with a length, one with chunks.\<close>

definition sample_request :: http_spec where
  "sample_request = \<lparr> sp_method = ''POST'', sp_uri = ''/a'', sp_params = [(''k'', ''v'')], sp_version = ''HTTP/1.1'',
     sp_headers = [(''Host'', ''h''), (''Content-Length'', ''2'')], sp_body = ''ok'' \<rparr>"

definition sample_chunked :: http_spec where
  "sample_chunked = sample_request\<lparr> sp_headers := [(''Transfer-Encoding'', ''chunked'')], sp_body := [] \<rparr>"

lemma sample_request_ok: "request_ok sample_request" "head_ok sample_request" "chunked_ok sample_chunked"
  by code_simp+

text \<open>
  C16: The parser never reads outside the bytes it was given and never writes outside the content
  block, whatever the bytes are and in whatever state an earlier call left it: it takes at most the
  bytes that are there, keeps the message well formed, and its only faults are a NULL pointer
  handed to a string function and an overflow of a length.
\<close>

theorem HttpParser_bounds:
  assumes "parser_ok p" "int (length buf) < int_max"
  shows "case HttpParser_append buf p of
     Inr (n, p') \<Rightarrow> n \<le> length buf \<and> parser_ok p'
   | Inl f \<Rightarrow> f = NullDeref \<or> f = SignedOverflow"
  using bounded_append [OF assms] by (auto simp: bounded_def safe_fault_def split: sum.splits)

theorem HttpParser_bounds_witness:
  "case HttpParser_append ''GET /'' HttpParser_new of
     Inr (n, p') \<Rightarrow> n \<le> length ''GET /'' \<and> parser_ok p'
   | Inl f \<Rightarrow> f = NullDeref \<or> f = SignedOverflow"
  by (rule HttpParser_bounds) (simp_all add: parser_ok_def HttpParser_new_def int_max_def)

text \<open>A message whose start line the parser reads, with a content of the stated length.\<close>

lemma append_message:
  assumes start: "HttpParser_parseStartLine buf (int (length buf)) = Inr (length line, Some m0)" "line \<noteq> []"
    and buf: "buf = line @ print_headers hs @ body @ rest" "int (length buf) < int_max"
    and hs: "list_all header_ok hs" "\<not> is_chunked (assoc_case HEADER_TRANSFER_ENCODING hs)"
      "case assoc_case HEADER_CONTENT_LENGTH hs of None \<Rightarrow> body = [] | Some v \<Rightarrow> v = digits 10 (length body)"
    and m0: "message_ok m0" "HttpMessage_headers m0 = []" "hm_mContentLength m0 = 0" "HttpMessage_content m0 = []"
    and form: "HttpMessage_getType m0 = eResponse \<or> (case assoc_case HEADER_CONTENT_TYPE hs of None \<Rightarrow> True
      | Some t \<Rightarrow> \<not> strcaseeq t ''application/x-www-form-urlencoded'')"
  shows "\<exists>m. HttpParser_append buf HttpParser_new = Inr (length (line @ print_headers hs @ body),
      \<lparr> hp_mMessage = Some m, hp_mStatus = eCompleted, hp_mIgnoreContent = False \<rparr>) \<and>
    message_ok m \<and> hm_sub m = hm_sub m0 \<and> hm_mVersion m = hm_mVersion m0 \<and> HttpMessage_headers m = hs \<and> HttpMessage_content m = body"
proof -
  let ?m1 = "add_headers hs m0" and ?pre = "line @ print_headers hs"
  have loop: "header_loop buf 1 (length line) eHeader m0 = Inr (length ?pre, eContent, ?m1)"
    using header_loop_print [OF hs(1), of buf line "body @ rest" 1 m0] buf by simp
  have m1: "message_ok ?m1" "HttpMessage_headers ?m1 = hs" using add_headers_ok [OF m0(1), of hs] m0(2) by simp_all
  note same = add_headers_same [of hs m0]
  have z: "hm_mContentLength ?m1 = 0" "HttpMessage_content ?m1 = []" using same m0 by (auto simp: HttpMessage_content_def split: option.splits)
  from parseContent_print [OF m1(1) z, of body buf ?pre rest] buf hs(3) m1(2) obtain m where
    c: "HttpParser_parseContent buf (length ?pre) (int (length buf) - int (length ?pre)) ?m1 = Inr (length body, m, True)"
    and m: "message_ok m" "HttpMessage_content m = body"
      "m = ?m1\<lparr> hm_mContent := hm_mContent m, hm_mMaxLength := hm_mMaxLength m, hm_mContentLength := hm_mContentLength m \<rparr>"
    by auto
  have f: "HttpMessage_headers m = hs" "hm_sub m = hm_sub m0" "hm_mVersion m = hm_mVersion m0"
    using m1 same by (subst m(3), simp add: HttpMessage_headers_def)+
  have t: "HttpMessage_getType m = HttpMessage_getType m0" "HttpMessage_getType ?m1 = HttpMessage_getType m0"
    using f(2) same by (simp_all add: HttpMessage_getType_def)
  have "http_content buf (length ?pre) ?m1 = Inr (length body, m, True)"
    using c hs(2) by (simp add: http_content_def getHeaderValue_eq [OF m1(1)] m1(2) is_chunked_def)
  moreover have "HttpParser_postProcess m = m"
  proof (cases "HttpMessage_getType m0 = eResponse")
    case True
    then show ?thesis using t(1) by (simp add: HttpParser_postProcess_def)
  next
    case False
    then show ?thesis using form postProcess_plain [OF m(1)] f(1) by simp
  qed
  ultimately have "HttpParser_append buf HttpParser_new = Inr (length ?pre + length body,
      \<lparr> hp_mMessage = Some m, hp_mStatus = eCompleted, hp_mIgnoreContent = False \<rparr>)"
    using start loop t(2) by (simp add: HttpParser_append_def HttpParser_new_def)
  then show ?thesis using m(1,2) f by simp
qed

lemma request_read_back:
  assumes "request_ok r" "int (length (print_request r @ rest)) < int_max"
  shows "\<exists>p m. HttpParser_append (print_request r @ rest) HttpParser_new = Inr (length (print_request r), p) \<and>
    HttpParser_isCompleted p \<and> HttpParser_getRequest p = Some m \<and>
    hm_sub m = hm_sub (request_message r) \<and> hm_mVersion m = sp_version r \<and>
    HttpMessage_headers m = sp_headers r \<and> HttpMessage_content m = sp_body r"
proof -
  have head: "head_ok r" using assms(1) by (simp add: request_ok_def)
  let ?tail = "print_headers (sp_headers r) @ sp_body r @ rest"
  have buf: "print_request r @ rest = print_request_line r @ ?tail" by (simp add: print_request_def)
  have "HttpParser_parseStartLine (print_request r @ rest) (int (length (print_request r @ rest))) =
      Inr (length (print_request_line r), Some (request_message r))" "print_request_line r \<noteq> []"
    using start_line_print [OF head buf assms(2)] by (simp_all add: print_headers_def)
  from append_message [OF this buf assms(2)] head assms(1) request_message_props [of r] obtain m where
    "HttpParser_append (print_request r @ rest) HttpParser_new = Inr (length (print_request r),
      \<lparr> hp_mMessage = Some m, hp_mStatus = eCompleted, hp_mIgnoreContent = False \<rparr>)"
    "hm_sub m = hm_sub (request_message r)" "hm_mVersion m = hm_mVersion (request_message r)"
    "HttpMessage_headers m = sp_headers r" "HttpMessage_content m = sp_body r"
    by (auto simp: head_ok_def request_ok_def print_request_def request_message_def HttpMessage_new_def HttpMessage_content_def)
  then show ?thesis by (simp add: HttpParser_isCompleted_def HttpParser_getRequest_def HttpMessage_getType_def request_message_def HttpMessage_new_def)
qed

text \<open>
  C12: What a client prints is what the parser reads: a request with parameters, headers and a
  content of the length that Content-Length states is taken to its last byte (the bytes behind it
  are left for the next request), and method, URI, URL, parameters, version, headers and content
  of the message are those of the request.
\<close>

theorem HttpParser_request_roundtrip:
  assumes "request_ok r" "int (length (print_request r @ rest)) < int_max"
  shows "\<exists>p m. HttpParser_append (print_request r @ rest) HttpParser_new = Inr (length (print_request r), p) \<and>
    HttpParser_isCompleted p \<and> HttpParser_getRequest p = Some m \<and>
    hm_sub m = hm_sub (request_message r) \<and> hm_mVersion m = sp_version r \<and>
    HttpMessage_headers m = sp_headers r \<and> HttpMessage_content m = sp_body r"
  by (rule request_read_back [OF assms])

theorem HttpParser_request_roundtrip_witness:
  "\<exists>p m. HttpParser_append (print_request sample_request @ ''GET'') HttpParser_new = Inr (length (print_request sample_request), p) \<and>
    HttpParser_isCompleted p \<and> HttpParser_getRequest p = Some m \<and>
    hm_sub m = hm_sub (request_message sample_request) \<and> hm_mVersion m = sp_version sample_request \<and>
    HttpMessage_headers m = sp_headers sample_request \<and> HttpMessage_content m = ''ok''"
proof -
  have "int (length (print_request sample_request @ ''GET'')) < int_max" by code_simp
  moreover have "sp_body sample_request = ''ok''" by code_simp
  ultimately show ?thesis using HttpParser_request_roundtrip [OF sample_request_ok(1), of "''GET''"] by simp
qed

text \<open>
  C17: A request whose content comes in chunks is read back: the content of the message is the
  chunks in order. The line with the last chunk size is the last one taken, the blank line behind
  it that ends the message stays in the buffer.
\<close>

theorem HttpParser_chunked_roundtrip:
  assumes "chunked_ok r" "list_all (\<lambda>d. d \<noteq> []) ds" "int (length (print_head r @ print_chunks ds @ rest)) < int_max"
  shows "\<exists>p m. HttpParser_append (print_head r @ print_chunks ds @ rest) HttpParser_new =
      Inr (length (print_head r @ print_chunks ds), p) \<and>
    HttpParser_isCompleted p \<and> HttpParser_getRequest p = Some m \<and>
    hm_sub m = hm_sub (request_message r) \<and> hm_mVersion m = sp_version r \<and>
    HttpMessage_headers m = sp_headers r \<and> HttpMessage_content m = concat ds"
proof -
  have head: "head_ok r" using assms(1) by (simp add: chunked_ok_def)
  note h = head_message_props [of r]
  let ?buf = "print_head r @ print_chunks ds @ rest"
  have "length (concat ds) \<le> length (print_chunks ds)" by (induction ds) (simp_all add: print_chunks_def print_chunk_def)
  then have "hm_mContentLength (head_message r) + int (length (concat ds)) < int_max" using assms(3) h(5) by simp
  from parse_chunks_print [where buf = ?buf and pre = "print_head r" and rest = rest and a = "length (print_head r)" and parsed = 0,
      OF h(1) this assms(2) refl _ refl assms(3)] obtain m where
    c: "parse_chunks ?buf (length (print_head r)) (int (length ?buf) - int (length (print_head r))) 0 (head_message r) =
      Inr (length (print_chunks ds), m, True)" and m: "message_ok m" "HttpMessage_content m = concat ds"
      "m = (head_message r)\<lparr> hm_mContent := hm_mContent m, hm_mMaxLength := hm_mMaxLength m, hm_mContentLength := hm_mContentLength m \<rparr>"
    using h(6) by auto
  have f: "HttpMessage_headers m = sp_headers r" "hm_sub m = hm_sub (request_message r)" "hm_mVersion m = sp_version r"
    "HttpMessage_getType m = eRequest"
    using h by (subst m(3), simp add: HttpMessage_headers_def HttpMessage_getType_def)+
  have "http_content ?buf (length (print_head r)) (head_message r) = Inr (length (print_chunks ds), m, True)"
    using c assms(1) by (simp add: http_content_def getHeaderValue_eq [OF h(1)] h(2) chunked_ok_def is_chunked_def)
  moreover have "HttpParser_postProcess m = m" using postProcess_plain [OF m(1)] f(1) head by (simp add: head_ok_def)
  ultimately have "HttpParser_append ?buf HttpParser_new = Inr (length (print_head r @ print_chunks ds),
      \<lparr> hp_mMessage = Some m, hp_mStatus = eCompleted, hp_mIgnoreContent = False \<rparr>)"
    using append_head [OF head refl] assms(3) by simp
  then show ?thesis using f m(2)
    by (simp add: HttpParser_isCompleted_def HttpParser_getRequest_def)
qed

theorem HttpParser_chunked_roundtrip_witness:
  "\<exists>p m. HttpParser_append (print_head sample_chunked @ print_chunks [''spam'', ''eggs''] @ CRLF) HttpParser_new =
      Inr (length (print_head sample_chunked @ print_chunks [''spam'', ''eggs'']), p) \<and>
    HttpParser_isCompleted p \<and> HttpParser_getRequest p = Some m \<and>
    hm_sub m = hm_sub (request_message sample_chunked) \<and> hm_mVersion m = sp_version sample_chunked \<and>
    HttpMessage_headers m = sp_headers sample_chunked \<and> HttpMessage_content m = ''spameggs''"
proof -
  have "int (length (print_head sample_chunked @ print_chunks [''spam'', ''eggs''] @ CRLF)) < int_max" by code_simp
  then show ?thesis
    using HttpParser_chunked_roundtrip [OF sample_request_ok(3), of "[''spam'', ''eggs'']" CRLF] by simp
qed

text \<open>
  A header without a value kills the server: whatever request line and headers come before it,
  the parser dereferences the NULL that strtok answers for a line that has nothing after the colon.
\<close>

theorem HttpParser_empty_header:
  assumes "head_ok r" "plain_text name" "CHR '':'' \<notin> set name"
    and "buf = print_request_line r @ concat (map print_header (sp_headers r)) @ name @ '':'' @ CRLF @ rest" "int (length buf) < int_max"
  shows "HttpParser_append buf HttpParser_new = Inl NullDeref"
proof -
  have hs: "list_all header_ok (sp_headers r)" using assms(1) by (simp add: head_ok_def)
  let ?pre = "print_request_line r @ concat (map print_header (sp_headers r))"
  have start: "HttpParser_parseStartLine buf (int (length buf)) = Inr (length (print_request_line r), Some (request_message r))"
    "print_request_line r \<noteq> []"
    using start_line_print [OF assms(1), of buf "concat (map print_header (sp_headers r)) @ name @ '':'' @ CRLF @ rest"] assms(4,5)
    by simp_all
  from header_loop_prefix [OF hs _ assms(4), of 1 "request_message r"] assms(5) obtain k where
    k: "0 < k" "header_loop buf 1 (length (print_request_line r)) eHeader (request_message r) =
      header_loop buf k (length ?pre) eHeader (head_message r)" by (auto simp: head_message_def)
  have l: "plain_text (name @ '':'')" using assms(2) by simp
  have "line_at buf (length ?pre) (int (length buf) - int (length ?pre)) = Inr (Some (name @ '':'' @ CRLF))"
    using line_at_hit [of "name @ '':'' @ [CR]" "int (length buf) - int (length ?pre)" buf ?pre rest] assms(2,4,5)
    by (simp add: plain_text_def)
  moreover have "header_message (cstr (name @ '':'' @ CRLF)) (head_message r) = Inl NullDeref"
    using cstr_line [OF l] sp_strsep_char(1) [OF assms(3), of CRLF] by (simp add: header_message_def strtok_def)
  ultimately have "HttpParser_parseHeader buf (length ?pre) (int (length buf) - int (length ?pre)) (head_message r) = Inl NullDeref"
    by (simp add: HttpParser_parseHeader_def)
  moreover have "length ?pre < length buf" using assms(4) by simp
  ultimately have "header_loop buf k (length ?pre) eHeader (head_message r) = Inl NullDeref"
    using k(1) by (subst header_loop.simps) simp
  then show ?thesis using start k(2) by (simp add: HttpParser_append_def HttpParser_new_def)
qed

theorem HttpParser_empty_header_witness:
  "HttpParser_append (print_request_line sample_request @ concat (map print_header (sp_headers sample_request)) @
     ''Accept'' @ '':'' @ CRLF @ CRLF) HttpParser_new = Inl NullDeref"
  by (rule HttpParser_empty_header [OF sample_request_ok(2) _ _ refl]) code_simp+

text \<open>
  A chunk size near the largest int makes the sum of the chunk length and the line length
  overflow, so the check that the chunk has arrived is made with a negative number.
\<close>

theorem HttpParser_chunk_overflow:
  assumes "chunked_ok r" "int n < int_max" "int_max < int n + int (length (digits 16 n) + 2)"
    and "buf = print_head r @ digits 16 n @ CRLF @ rest" "int (length buf) < int_max"
  shows "HttpParser_append buf HttpParser_new = Inl SignedOverflow"
proof -
  have head: "head_ok r" using assms(1) by (simp add: chunked_ok_def)
  note h = head_message_props [of r]
  let ?a = "length (print_head r)"
  have "HttpParser_getLine buf ?a (int (length buf) - int ?a) 32 [] = Inr (length (digits 16 n) + 2, digits 16 n)"
    "long_to_int (strtol 16 (digits 16 n)) = int n"
    using getLine_size [OF assms(4) refl assms(2), of "int (length buf) - int ?a"] assms(4,5) by simp_all
  moreover have "int_add (int n) (int (length (digits 16 n) + 2)) = Inl SignedOverflow"
    using assms(3) by (simp add: int_add_def int_ok_def)
  moreover have "0 < n"
  proof (rule ccontr)
    assume "\<not> 0 < n"
    moreover have "length (digits 16 0) \<le> 1" by (rule digits_length) simp_all
    ultimately show False using assms(3) by (simp add: int_max_def)
  qed
  ultimately have "parse_chunk buf ?a (int (length buf) - int ?a) 0 (head_message r) = Inl SignedOverflow"
    by (simp add: parse_chunk_def)
  then have "parse_chunks buf ?a (int (length buf) - int ?a) 0 (head_message r) = Inl SignedOverflow"
    by (subst parse_chunks.simps) simp
  then have "http_content buf ?a (head_message r) = Inl SignedOverflow"
    using assms(1) by (simp add: http_content_def getHeaderValue_eq [OF h(1)] h(2) chunked_ok_def is_chunked_def)
  then show ?thesis using append_head [OF head assms(4,5)] by simp
qed

theorem HttpParser_chunk_overflow_witness:
  "HttpParser_append (print_head sample_chunked @ digits 16 2147483640 @ CRLF @ ''spam'') HttpParser_new = Inl SignedOverflow"
proof -
  have "length (digits 16 2147483640) = 8" by (simp add: digits.simps [of 16])
  moreover have "length (print_head sample_chunked) < 1000" by code_simp
  ultimately show ?thesis
    by (intro HttpParser_chunk_overflow [OF sample_request_ok(3) _ _ refl]) (simp_all add: int_max_def)
qed

text \<open>
  A request whose bytes arrive in two pieces, cut inside the blank line behind the headers, is
  misread: the first piece already ends the headers at the CR, and the content that the parser then
  takes starts with that blank line, so it ends two bytes short of the one the client sent.
\<close>

theorem HttpParser_split_blank_line:
  assumes "request_ok r" "2 \<le> length (sp_body r)" "int (length (print_request r)) < int_max"
    and "piece = print_request_line r @ concat (map print_header (sp_headers r)) @ [CR]"
  shows "\<exists>p p' m. HttpParser_append piece HttpParser_new = Inr (length piece - 1, p) \<and> \<not> HttpParser_isCompleted p \<and>
    HttpParser_append ([CR] @ [LF] @ sp_body r) p = Inr (length (sp_body r), p') \<and> HttpParser_isCompleted p' \<and>
    HttpParser_getRequest p' = Some m \<and> HttpMessage_content m = take (length (sp_body r)) (CRLF @ sp_body r)"
proof -
  have head: "head_ok r" using assms(1) by (simp add: request_ok_def)
  have hs: "list_all header_ok (sp_headers r)" using head by (simp add: head_ok_def)
  note h = head_message_props [of r]
  let ?m = "head_message r" and ?n = "length (sp_body r)"
  let ?pre = "print_request_line r @ concat (map print_header (sp_headers r))"
  have len: "int (length piece) < int_max" "int (length (CRLF @ sp_body r)) < int_max"
    using assms(3,4) by (simp_all add: print_request_def print_headers_def)
  have piece: "piece = ?pre @ [CR]" using assms(4) by simp
  have start: "HttpParser_parseStartLine piece (int (length piece)) = Inr (length (print_request_line r), Some (request_message r))"
    "print_request_line r \<noteq> []"
    using start_line_print [OF head, of piece "concat (map print_header (sp_headers r)) @ [CR]"] assms(4) len(1) by simp_all
  from header_loop_prefix [OF hs _ assms(4), of 1 "request_message r"] len(1) obtain k where
    k: "0 < k" "header_loop piece 1 (length (print_request_line r)) eHeader (request_message r) =
      header_loop piece k (length ?pre) eHeader ?m" by (auto simp: head_message_def)
  from header_loop_split [OF piece k(1)] len(1) have
    loop: "header_loop piece k (length ?pre) eHeader ?m = Inr (length ?pre, eContent, ?m)" by simp
  have plain: "\<not> is_chunked (HttpMessage_getHeaderValue HEADER_TRANSFER_ENCODING ?m)"
    using assms(1) by (simp add: getHeaderValue_eq [OF h(1)] h(2) request_ok_def)
  have c: "atoi (case HttpMessage_getHeaderValue HEADER_CONTENT_LENGTH ?m of None \<Rightarrow> ''0'' | Some v \<Rightarrow> v) = int ?n"
    using assms(1,2) len(2) atoi_digits [of ?n] by (auto simp: getHeaderValue_eq [OF h(1)] h(2) request_ok_def split: option.splits)
  have "HttpParser_parseContent piece (length ?pre) (int (length piece) - int (length ?pre)) ?m = Inr (0, ?m, False)"
    using c assms(2) h(5) piece by (cases "sp_body r") (auto simp: HttpParser_parseContent_def Let_def)
  then have "http_content piece (length ?pre) ?m = Inr (0, ?m, False)" using plain by (simp add: http_content_def is_chunked_def)
  then have p1: "HttpParser_append piece HttpParser_new = Inr (length piece - 1, \<lparr> hp_mMessage = Some ?m, hp_mStatus = eContent, hp_mIgnoreContent = False \<rparr>)"
    using start k(2) loop h(7) piece by (simp add: HttpParser_append_def HttpParser_new_def)
  let ?body = "take ?n (CRLF @ sp_body r)"
  from parseContent_print [where buf = "CRLF @ sp_body r" and pre = "[]" and body = ?body and rest = "drop ?n (CRLF @ sp_body r)",
      OF h(1,5,6) _ _ len(2)] assms(1,2) obtain m where
    d: "HttpParser_parseContent (CRLF @ sp_body r) 0 (int (length (CRLF @ sp_body r))) ?m = Inr (?n, m, True)"
    and m: "message_ok m" "HttpMessage_content m = ?body"
      "m = ?m\<lparr> hm_mContent := hm_mContent m, hm_mMaxLength := hm_mMaxLength m, hm_mContentLength := hm_mContentLength m \<rparr>"
    by (auto simp: h(2) request_ok_def split: option.splits)
  have f: "HttpMessage_headers m = sp_headers r" "HttpMessage_getType m = eRequest"
    using h by (subst m(3), simp add: HttpMessage_headers_def HttpMessage_getType_def)+
  have post: "HttpParser_postProcess m = m" using postProcess_plain [OF m(1)] f(1) head by (simp add: head_ok_def)
  have "header_loop (CRLF @ sp_body r) 1 0 eContent ?m = Inr (0, eContent, ?m)" by (subst header_loop.simps) simp
  moreover have "http_content (CRLF @ sp_body r) 0 ?m = Inr (?n, m, True)" using d plain by (simp add: http_content_def is_chunked_def)
  ultimately have "HttpParser_append (CRLF @ sp_body r) \<lparr> hp_mMessage = Some ?m, hp_mStatus = eContent, hp_mIgnoreContent = False \<rparr> =
      Inr (?n, \<lparr> hp_mMessage = Some m, hp_mStatus = eCompleted, hp_mIgnoreContent = False \<rparr>)"
    using post h(7) by (simp add: HttpParser_append_def)
  then show ?thesis using p1 f(2) m(2) by (simp add: HttpParser_isCompleted_def HttpParser_getRequest_def)
qed

theorem HttpParser_split_blank_line_witness:
  "\<exists>p p' m. HttpParser_append (print_request_line sample_request @ concat (map print_header (sp_headers sample_request)) @ [CR])
      HttpParser_new = Inr (length (print_request_line sample_request @ concat (map print_header (sp_headers sample_request)) @ [CR]) - 1, p) \<and>
    \<not> HttpParser_isCompleted p \<and>
    HttpParser_append ([CR] @ [LF] @ ''ok'') p = Inr (length ''ok'', p') \<and> HttpParser_isCompleted p' \<and>
    HttpParser_getRequest p' = Some m \<and> HttpMessage_content m = CRLF"
proof -
  have "2 \<le> length (sp_body sample_request)" "int (length (print_request sample_request)) < int_max" by code_simp+
  moreover have "sp_body sample_request = ''ok''" by code_simp
  ultimately show ?thesis using HttpParser_split_blank_line [OF sample_request_ok(1) _ _ refl] by simp
qed

end
