(* ===== verification/SP_Http.thy ===== *)
theory SP_Http
  imports SP_HttpRound SP_MsgDecoder SP_Message
begin

text \<open>
  The HTTP layer of sphttp.cpp: the decoder that hands the bytes of a session to the parser, the
  adapter that turns what a user's handler answers into the bytes of a reply, and the block with
  the content behind it. The user's handler and the text of the date are parameters.
\<close>

subsection \<open>SP_HttpRequestDecoder\<close>

definition HttpRequestDecoder_new :: http_parser where
  "HttpRequestDecoder_new = HttpParser_new"

definition HttpRequestDecoder_decode ::
  "libc \<Rightarrow> sp_buffer \<Rightarrow> http_parser \<Rightarrow> (decode_ret \<times> http_parser \<times> sp_buffer) res" where
  "HttpRequestDecoder_decode lc inb mParser =
     (if 0 < SPBuffer_getSize inb then
        res_bind (SPBuffer_getBuffer lc inb) (\<lambda>(src, inb1).
        res_bind (HttpParser_append (take (SPBuffer_getSize inb1) src) mParser) (\<lambda>(len, p).
          Inr (if HttpParser_isCompleted p then eOK else eMoreData, p, SPBuffer_erase (int len) inb1)))
      else Inr (eMoreData, mParser, inb))"

definition HttpRequestDecoder_getMsg :: "http_parser \<Rightarrow> http_message option" where
  "HttpRequestDecoder_getMsg mParser = HttpParser_getRequest mParser"

subsection \<open>SP_HttpResponseMsgBlock\<close>

definition HttpResponseMsgBlock_getData :: "http_message \<Rightarrow> bytes option" where
  "HttpResponseMsgBlock_getData m = hm_mContent m"

definition HttpResponseMsgBlock_getSize :: "http_message \<Rightarrow> nat" where
  "HttpResponseMsgBlock_getSize m = to_size (hm_mContentLength m)"

subsection \<open>SP_HttpHandlerAdapter\<close>

text \<open>The array of 512 characters that every line is printed into.\<close>

definition print_int :: "int \<Rightarrow> bytes" where
  "print_int i = (if i < 0 then CHR ''-'' # digits 10 (nat (- i)) else digits 10 (nat i))"

definition HttpResponse_part :: "http_message \<Rightarrow> http_response" where
  "HttpResponse_part m = (case hm_sub m of Response r \<Rightarrow> r | Request _ \<Rightarrow> \<lparr> hs_mStatusCode = 0, hs_mReasonPhrase = [] \<rparr>)"

definition HttpRequest_method :: "http_message \<Rightarrow> bytes" where
  "HttpRequest_method m = (case hm_sub m of Request q \<Rightarrow> hq_mMethod q | Response _ \<Rightarrow> [])"

definition status_line :: "http_message \<Rightarrow> bytes" where
  "status_line m = take 511 (hm_mVersion m @ '' '' @ print_int (hs_mStatusCode (HttpResponse_part m)) @ '' '' @
     hs_mReasonPhrase (HttpResponse_part m) @ [CR, LF])"

definition header_line :: "bytes \<Rightarrow> bytes \<Rightarrow> bytes" where
  "header_line name value = take 511 (name @ '': '' @ value @ [CR, LF])"

definition keep_alive_header :: "http_message \<Rightarrow> http_message \<Rightarrow> http_message" where
  "keep_alive_header q m =
     (if HttpMessage_isKeepAlive q \<and> HttpMessage_getHeaderValue HEADER_CONNECTION m = None
      then HttpMessage_addHeader HEADER_CONNECTION ''Keep-Alive'' m else m)"

definition length_header :: "http_message \<Rightarrow> http_message \<Rightarrow> http_message" where
  "length_header q m =
     (if strcaseeq (HttpRequest_method q) ''head'' then m
      else let m1 = snd (HttpMessage_removeHeader HEADER_CONTENT_LENGTH m)
           in if 0 \<le> hm_mContentLength m1
              then HttpMessage_addHeader HEADER_CONTENT_LENGTH (take 511 (print_int (hm_mContentLength m1))) m1
              else m1)"

definition date_header :: "bytes \<Rightarrow> http_message \<Rightarrow> http_message" where
  "date_header date m = HttpMessage_addHeader HEADER_DATE date (snd (HttpMessage_removeHeader HEADER_DATE m))"

definition type_header :: "http_message \<Rightarrow> http_message" where
  "type_header m =
     (if HttpMessage_getHeaderValue HEADER_CONTENT_TYPE m = None
      then HttpMessage_addHeader HEADER_CONTENT_TYPE ''text/html; charset=ISO-8859-1'' m else m)"

definition server_header :: "http_message \<Rightarrow> http_message" where
  "server_header m = HttpMessage_addHeader HEADER_SERVER ''sphttp/spserver'' (snd (HttpMessage_removeHeader HEADER_SERVER m))"

definition reply_headers :: "bytes \<Rightarrow> http_message \<Rightarrow> http_message \<Rightarrow> http_message" where
  "reply_headers date q m = server_header (type_header (date_header date (length_header q (keep_alive_header q m))))"

text \<open>The loop over the headers; a NULL that \<open>getItem\<close> answers would reach \<open>snprintf\<close>.\<close>

fun header_lines :: "nat \<Rightarrow> nat \<Rightarrow> http_message \<Rightarrow> bytes res" where
  "header_lines i 0 m = Inr []"
| "header_lines i (Suc n) m =
     (case (HttpMessage_getHeaderName (int i) m, HttpMessage_getHeaderValue_at (int i) m) of
        (Some name, Some value) \<Rightarrow>
          res_bind (header_lines (Suc i) n m) (\<lambda>rest. Inr (header_line name value @ rest))
      | _ \<Rightarrow> Inl NullDeref)"

definition HttpHandlerAdapter_start :: "http_parser sp_request \<Rightarrow> int \<times> http_parser sp_request" where
  "HttpHandlerAdapter_start request = (0, Request_setMsgDecoder HttpRequestDecoder_new request)"

text \<open>
  \<open>handle\<close> appends to the two parts of the reply: its text and its list of blocks. The user's
  handler gets both messages and may change them.
\<close>

definition HttpHandlerAdapter_handle ::
  "(http_message \<Rightarrow> http_message \<Rightarrow> http_message \<times> http_message) \<Rightarrow> bytes \<Rightarrow> http_parser sp_request \<Rightarrow>
   bytes \<times> http_message list \<Rightarrow> (int \<times> http_parser sp_request \<times> bytes \<times> http_message list) res" where
  "HttpHandlerAdapter_handle mHandler date request reply =
     (case HttpRequestDecoder_getMsg (rq_mDecoder request) of
        None \<Rightarrow> Inl NullDeref
      | Some httpRequest \<Rightarrow>
          res_bind (HttpMessage_setVersion (Some (hm_mVersion httpRequest)) HttpResponse_new) (\<lambda>fresh.
          case mHandler (HttpRequest_setClinetIP (rq_mClientIP request) httpRequest) fresh of (q, m) \<Rightarrow>
          let out = reply_headers date q m in
          res_bind (header_lines 0 (nat (HttpMessage_getHeaderCount out)) out) (\<lambda>lines.
          let keepAlive = (case HttpMessage_getHeaderValue HEADER_CONNECTION out of None \<Rightarrow> [] | Some v \<Rightarrow> take 31 v)
          in Inr (if strcaseeq keepAlive ''Keep-Alive'' then 0 else -1,
                  Request_setMsgDecoder HttpRequestDecoder_new request,
                  fst reply @ status_line m @ lines @ [CR, LF],
                  if hm_mContent out = None then snd reply else snd reply @ [out]))))"

text \<open>The bytes that the output list of a session sends for the reply.\<close>

definition reply_bytes :: "bytes \<times> http_message list \<Rightarrow> bytes" where
  "reply_bytes reply = fst reply @ concat (map (\<lambda>m. take (HttpResponseMsgBlock_getSize m) (lazy [] (HttpResponseMsgBlock_getData m))) (snd reply))"

subsection \<open>The decoder on a buffer\<close>

definition wb_room :: "sp_buffer \<Rightarrow> bool" where
  "wb_room b \<longleftrightarrow> wb_misalign b + wb_off b < wb_totallen b"

lemma getBuffer_take:
  assumes "wb_inv b" "wb_room b"
  shows "\<exists>src b'. SPBuffer_getBuffer lc b = Inr (src, b') \<and> wb_inv b' \<and> wb_room b' \<and> wb_contents b' = wb_contents b \<and>
    take (SPBuffer_getSize b') src = wb_contents b"
proof -
  from assms have len: "wb_buffer b + wb_off b < length (wb_mem b)" and bm: "wb_buffer b = wb_misalign b"
    by (simp_all add: wb_inv_def wb_room_def)
  then obtain m0 where m0: "wb_block b = Some m0" "wb_mem b = m0" by (cases "wb_block b") (auto simp: wb_mem_def)
  have ex: "win32buffer_expand lc 1 b = Inr (0, b)"
    using assms by (simp add: win32buffer_expand_def wb_inv_def wb_room_def mem_limit_def size_max_def)
  define m where "m = take (wb_buffer b + wb_off b) m0 @ NUL # drop (Suc (wb_buffer b + wb_off b)) m0"
  let ?b = "b\<lparr> wb_block := Some m \<rparr>"
  have lm: "length m = length m0" using len m0 by (simp add: m_def)
  have eq: "SPBuffer_getBuffer lc b = Inr (drop (wb_buffer b) m, ?b)"
    using m0 len ex by (simp add: SPBuffer_getBuffer_def mem_put_def m_def)
  have mem: "wb_mem ?b = m" by (simp add: wb_mem_def)
  have "wb_inv ?b" using assms(1) m0 lm by (simp add: wb_inv_def mem)
  moreover have "take (wb_off b) (drop (wb_buffer b) m) = take (wb_off b) (drop (wb_buffer b) m0)"
    using len m0 by (simp add: m_def drop_take)
  ultimately show ?thesis using eq assms(2) m0(2)
    by (simp add: wb_contents_def mem SPBuffer_getSize_def wb_room_def)
qed

lemma drain_room: "wb_inv b \<Longrightarrow> wb_room b \<Longrightarrow> wb_room (win32buffer_drain n b)"
  by (auto simp: wb_room_def win32buffer_drain_def Let_def wb_notify_def)

lemma decode_eq:
  assumes "wb_inv b" "wb_room b" "wb_contents b \<noteq> []" "int (length (wb_contents b)) < int_max"
    "HttpParser_append (wb_contents b) p = Inr (n, p')" "n \<le> length (wb_contents b)"
  shows "\<exists>b'. HttpRequestDecoder_decode lc b p = Inr (if HttpParser_isCompleted p' then eOK else eMoreData, p', b') \<and>
    wb_inv b' \<and> wb_room b' \<and> wb_contents b' = drop n (wb_contents b)"
proof -
  from getBuffer_take [OF assms(1,2)] obtain src b1 where
    s: "SPBuffer_getBuffer lc b = Inr (src, b1)" "wb_inv b1" "wb_room b1" "wb_contents b1 = wb_contents b"
      "take (SPBuffer_getSize b1) src = wb_contents b"
    by blast
  have "0 < SPBuffer_getSize b" using assms(3) length_wb_contents [OF assms(1)] by (cases "wb_off b") (auto simp: SPBuffer_getSize_def)
  moreover have "to_size (int n) = n" using assms(4,6) by (simp add: int_max_def)
  ultimately show ?thesis using s assms(5) drain_ok [OF s(2), of n] drain_room [OF s(2,3), of n]
    by (simp add: HttpRequestDecoder_decode_def SPBuffer_erase_def)
qed

subsection \<open>Sessions with many requests\<close>

text \<open>The rounds of a session: \<open>handle\<close> puts a new decoder in place after every message.\<close>

fun decode_session :: "libc \<Rightarrow> nat \<Rightarrow> sp_buffer \<Rightarrow> (http_message option list \<times> sp_buffer) res" where
  "decode_session lc 0 b = Inr ([], b)"
| "decode_session lc (Suc n) b =
     res_bind (HttpRequestDecoder_decode lc b HttpRequestDecoder_new) (\<lambda>(ret, p, b1).
       if ret = eMoreData then Inr ([], b1)
       else res_bind (decode_session lc n b1) (\<lambda>(ms, b2). Inr (HttpRequestDecoder_getMsg p # ms, b2)))"

definition request_read :: "http_spec \<Rightarrow> http_message option \<Rightarrow> bool" where
  "request_read r msg = (case msg of None \<Rightarrow> False | Some m \<Rightarrow>
     hm_sub m = hm_sub (request_message r) \<and> hm_mVersion m = sp_version r \<and>
     HttpMessage_headers m = sp_headers r \<and> HttpMessage_content m = sp_body r)"

lemma decode_session_requests:
  "wb_inv b \<Longrightarrow> wb_room b \<Longrightarrow> wb_contents b = concat (map print_request rs) @ rest \<Longrightarrow> list_all request_ok rs \<Longrightarrow>
   int (length (wb_contents b)) < int_max \<Longrightarrow>
   \<exists>ms b'. decode_session lc (length rs) b = Inr (ms, b') \<and> list_all2 request_read rs ms \<and> wb_inv b' \<and> wb_contents b' = rest"
proof (induction rs arbitrary: b)
  case Nil
  then show ?case by simp
next
  case (Cons r rs)
  let ?rest = "concat (map print_request rs) @ rest"
  have c: "wb_contents b = print_request r @ ?rest" using Cons.prems(3) by simp
  have ok: "request_ok r" using Cons.prems(4) by simp
  from request_read_back [OF ok, of ?rest] Cons.prems(5) c obtain p m where
    p: "HttpParser_append (wb_contents b) HttpParser_new = Inr (length (print_request r), p)" "HttpParser_isCompleted p"
      "HttpParser_getRequest p = Some m" and m: "request_read r (Some m)"
    by (auto simp: request_read_def)
  have "print_request r \<noteq> []" by (simp add: print_request_def print_headers_def)
  with decode_eq [OF Cons.prems(1,2) _ Cons.prems(5) p(1)] c obtain b1 where
    b1: "HttpRequestDecoder_decode lc b HttpParser_new = Inr (eOK, p, b1)" "wb_inv b1" "wb_room b1" "wb_contents b1 = ?rest"
    using p(2) by auto
  moreover have "int (length (wb_contents b1)) < int_max" using Cons.prems(5) b1(4) c by simp
  ultimately obtain ms b' where
    "decode_session lc (length rs) b1 = Inr (ms, b')" "list_all2 request_read rs ms" "wb_inv b'" "wb_contents b' = rest"
    using Cons.IH [of b1] Cons.prems(4) by auto
  then show ?case using b1(1) p(3) m by (auto simp: HttpRequestDecoder_new_def HttpRequestDecoder_getMsg_def)
qed


subsection \<open>The reply\<close>

text \<open>The headers of a reply over the list of the handler's headers.\<close>

definition put_header :: "bytes \<Rightarrow> bytes \<Rightarrow> (bytes \<times> bytes) list \<Rightarrow> (bytes \<times> bytes) list" where
  "put_header name value hs = remove_case name hs @ [(name, value)]"

definition default_header :: "bool \<Rightarrow> bytes \<Rightarrow> bytes \<Rightarrow> (bytes \<times> bytes) list \<Rightarrow> (bytes \<times> bytes) list" where
  "default_header wanted name value hs = (if wanted \<and> assoc_case name hs = None then hs @ [(name, value)] else hs)"

definition reply_header_list :: "bytes \<Rightarrow> bool \<Rightarrow> bytes option \<Rightarrow> (bytes \<times> bytes) list \<Rightarrow> (bytes \<times> bytes) list" where
  "reply_header_list date keep len hs =
     put_header HEADER_SERVER ''sphttp/spserver''
       (default_header True HEADER_CONTENT_TYPE ''text/html; charset=ISO-8859-1''
         (put_header HEADER_DATE date
           ((case len of None \<Rightarrow> (\<lambda>hs. hs) | Some l \<Rightarrow> put_header HEADER_CONTENT_LENGTH l)
             (default_header keep HEADER_CONNECTION ''Keep-Alive'' hs))))"

definition same_but_headers :: "http_message \<Rightarrow> http_message \<Rightarrow> bool" where
  "same_but_headers m m' \<longleftrightarrow> hm_sub m' = hm_sub m \<and> hm_mVersion m' = hm_mVersion m \<and> hm_mContent m' = hm_mContent m \<and>
     hm_mContentLength m' = hm_mContentLength m"

lemma put_header_ok:
  assumes "message_ok m" and m': "m' = HttpMessage_addHeader name val (snd (HttpMessage_removeHeader name m))"
  shows "message_ok m' \<and> HttpMessage_headers m' = put_header name val (HttpMessage_headers m) \<and> same_but_headers m m'"
  using removeHeader_eq [OF assms(1), of name] addHeader_eq [of "snd (HttpMessage_removeHeader name m)" name val]
  by (simp add: m' put_header_def same_but_headers_def)
    (simp add: HttpMessage_addHeader_def HttpMessage_removeHeader_def split: option.splits)

lemma default_header_ok:
  assumes "message_ok m" and m': "m' = (if wanted \<and> HttpMessage_getHeaderValue name m = None then HttpMessage_addHeader name val m else m)"
  shows "message_ok m' \<and> HttpMessage_headers m' = default_header wanted name val (HttpMessage_headers m) \<and> same_but_headers m m'"
  using addHeader_eq [OF assms(1), of name val] getHeaderValue_eq [OF assms(1), of name] assms(1)
  by (auto simp: m' default_header_def same_but_headers_def HttpMessage_addHeader_def)

lemma print_int_digits: "0 \<le> i \<Longrightarrow> print_int i = digits 10 (nat i)"
  by (simp add: print_int_def)

lemma digits_int_length: "int n < int_max \<Longrightarrow> length (digits 10 n) \<le> 10"
  by (rule digits_length) (simp_all add: int_max_def)

lemma reply_headers_ok:
  assumes m: "message_ok m" and len: "len = (if strcaseeq (HttpRequest_method q) ''head'' then None else Some (digits 10 (nat (hm_mContentLength m))))"
  shows "message_ok (reply_headers date q m) \<and> same_but_headers m (reply_headers date q m) \<and>
    HttpMessage_headers (reply_headers date q m) = reply_header_list date (HttpMessage_isKeepAlive q) len (HttpMessage_headers m)"
proof -
  define m1 where "m1 = keep_alive_header q m"
  define m2 where "m2 = length_header q m1"
  define m3 where "m3 = date_header date m2"
  define m4 where "m4 = type_header m3"
  define m5 where "m5 = server_header m4"
  have s1: "message_ok m1 \<and> HttpMessage_headers m1 = default_header (HttpMessage_isKeepAlive q) HEADER_CONNECTION ''Keep-Alive'' (HttpMessage_headers m)
      \<and> same_but_headers m m1"
    unfolding m1_def keep_alive_header_def by (rule default_header_ok [OF m refl])
  let ?l = "digits 10 (nat (hm_mContentLength m1))"
  have c: "0 \<le> hm_mContentLength m1" "hm_mContentLength m1 < int_max" using s1 by (auto simp: message_ok_def)
  have "hm_mContentLength (snd (HttpMessage_removeHeader HEADER_CONTENT_LENGTH m1)) = hm_mContentLength m1"
    by (simp add: HttpMessage_removeHeader_def split: option.splits)
  moreover have "take 511 (print_int (hm_mContentLength m1)) = ?l"
    using c digits_int_length [of "nat (hm_mContentLength m1)"] by (simp add: print_int_digits)
  ultimately have m2: "m2 = (if len = None then m1 else HttpMessage_addHeader HEADER_CONTENT_LENGTH ?l (snd (HttpMessage_removeHeader HEADER_CONTENT_LENGTH m1)))"
    using c by (simp add: m2_def length_header_def len Let_def)
  have "hm_mContentLength m1 = hm_mContentLength m" using s1 by (simp add: same_but_headers_def)
  with m2 put_header_ok [of m1 _ HEADER_CONTENT_LENGTH ?l, OF _ refl] s1 have
    s2: "message_ok m2 \<and> HttpMessage_headers m2 = (case len of None \<Rightarrow> (\<lambda>hs. hs) | Some l \<Rightarrow> put_header HEADER_CONTENT_LENGTH l) (HttpMessage_headers m1)
      \<and> same_but_headers m1 m2" by (simp add: len same_but_headers_def split: if_splits)
  have s3: "message_ok m3 \<and> HttpMessage_headers m3 = put_header HEADER_DATE date (HttpMessage_headers m2) \<and> same_but_headers m2 m3"
    unfolding m3_def date_header_def by (rule put_header_ok [OF _ refl]) (simp add: s2)
  have s4: "message_ok m4 \<and> HttpMessage_headers m4 = default_header True HEADER_CONTENT_TYPE ''text/html; charset=ISO-8859-1'' (HttpMessage_headers m3)
      \<and> same_but_headers m3 m4"
    using default_header_ok [of m3 m4 True HEADER_CONTENT_TYPE "''text/html; charset=ISO-8859-1''"] s3 by (simp add: m4_def type_header_def)
  have s5: "message_ok m5 \<and> HttpMessage_headers m5 = put_header HEADER_SERVER ''sphttp/spserver'' (HttpMessage_headers m4) \<and> same_but_headers m4 m5"
    unfolding m5_def server_header_def by (rule put_header_ok [OF _ refl]) (simp add: s4)
  have "reply_headers date q m = m5" by (simp add: m1_def m2_def m3_def m4_def m5_def reply_headers_def)
  then show ?thesis using s1 s2 s3 s4 s5 by (simp add: reply_header_list_def same_but_headers_def)
qed

definition line_ok :: "bytes \<times> bytes \<Rightarrow> bool" where
  "line_ok h \<longleftrightarrow> header_ok h \<and> length (print_header h) \<le> 511"

lemma header_lines_print:
  assumes "message_ok m" "list_all line_ok (HttpMessage_headers m)"
  shows "i + n = length (hm_mHeaderNameList m) \<Longrightarrow> header_lines i n m = Inr (concat (map print_header (drop i (HttpMessage_headers m))))"
proof (induction n arbitrary: i)
  case 0
  then show ?case by (simp add: HttpMessage_headers_def)
next
  case (Suc n)
  have len: "length (hm_mHeaderNameList m) = length (hm_mHeaderValueList m)" using assms(1) by (simp add: message_ok_def)
  let ?k = "hm_mHeaderNameList m ! i" and ?v = "hm_mHeaderValueList m ! i"
  have i: "i < length (HttpMessage_headers m)" using Suc.prems len by (simp add: HttpMessage_headers_def)
  then have d: "drop i (HttpMessage_headers m) = (?k, ?v) # drop (Suc i) (HttpMessage_headers m)"
    using len by (simp add: Cons_nth_drop_Suc [symmetric] HttpMessage_headers_def)
  have "line_ok (?k, ?v)" using assms(2) d by (metis append_take_drop_id list_all_append list.pred_inject(2))
  then have "length (print_header (?k, ?v)) \<le> 511" unfolding line_ok_def ..
  then have "length (?k @ '': '' @ ?v @ CRLF) \<le> 511" by (simp add: print_header_def)
  then have "take 511 (?k @ '': '' @ ?v @ CRLF) = ?k @ '': '' @ ?v @ CRLF" by (rule take_all)
  then have "header_line ?k ?v = print_header (?k, ?v)" by (simp add: header_line_def print_header_def)
  moreover have "HttpMessage_getHeaderName (int i) m = Some ?k" "HttpMessage_getHeaderValue_at (int i) m = Some ?v"
    using Suc.prems len by (simp_all add: HttpMessage_getHeaderName_def HttpMessage_getHeaderValue_at_def lst_get_nth)
  ultimately show ?case using Suc.IH [of "Suc i"] Suc.prems d by simp
qed

lemma list_all_remove: "list_all P hs \<Longrightarrow> list_all P (remove_case name hs)"
  by (induction name hs rule: remove_case.induct) auto

lemma put_header_lookup:
  "assoc_case other (put_header name value hs) =
    (if strcaseeq name other then (case assoc_case other (remove_case name hs) of None \<Rightarrow> Some value | Some v \<Rightarrow> Some v)
     else assoc_case other hs)"
  by (auto simp: put_header_def assoc_case_append assoc_case_remove_other strcaseeq_sym split: option.splits)

lemma default_header_lookup:
  "\<not> strcaseeq name other \<Longrightarrow> assoc_case other (default_header wanted name value hs) = assoc_case other hs"
  by (auto simp: default_header_def assoc_case_append strcaseeq_sym split: option.splits)


definition response_ok :: "http_message \<Rightarrow> bool" where
  "response_ok m \<longleftrightarrow> message_ok m \<and> HttpMessage_getType m = eResponse \<and>
     plain_text (hm_mVersion m) \<and> CHR '' '' \<notin> set (hm_mVersion m) \<and> length (hm_mVersion m) \<le> 15 \<and>
     strncaseeq (hm_mVersion m) ''HTTP'' 4 \<and>
     0 \<le> hs_mStatusCode (HttpResponse_part m) \<and> hs_mStatusCode (HttpResponse_part m) < int_max \<and>
     plain_text (hs_mReasonPhrase (HttpResponse_part m)) \<and> hs_mReasonPhrase (HttpResponse_part m) \<noteq> [] \<and>
     length (hs_mReasonPhrase (HttpResponse_part m)) \<le> 127 \<and>
     list_all line_ok (HttpMessage_headers m)"

definition response_message :: "http_message \<Rightarrow> http_message" where
  "response_message m = (HttpMessage_new (hm_sub m))\<lparr> hm_mVersion := hm_mVersion m \<rparr>"

lemma response_part: "HttpMessage_getType m = eResponse \<Longrightarrow> hm_sub m = Response (HttpResponse_part m)"
  by (simp add: HttpMessage_getType_def HttpResponse_part_def split: http_sub.splits)

lemma status_line_print:
  assumes "response_ok m"
  defines "l \<equiv> hm_mVersion m @ '' '' @ digits 10 (nat (hs_mStatusCode (HttpResponse_part m))) @ '' '' @ hs_mReasonPhrase (HttpResponse_part m)"
  shows "status_line m = l @ [CR, LF] \<and> plain_text l \<and> start_message (l @ [CR, LF]) = Inr (response_message m)"
proof -
  let ?r = "HttpResponse_part m"
  let ?d = "digits 10 (nat (hs_mStatusCode ?r))"
  have sub: "hm_sub m = Response ?r" using assms(1) response_part by (simp add: response_ok_def)
  have c: "0 \<le> hs_mStatusCode ?r" "int (nat (hs_mStatusCode ?r)) < int_max" using assms(1) by (simp_all add: response_ok_def)
  note dl = digits_int_length [OF c(2)]
  have p: "print_int (hs_mStatusCode ?r) = ?d" using c by (simp add: print_int_digits)
  have "status_line m = take 511 (l @ [CR, LF])" by (simp add: status_line_def p l_def)
  also have "\<dots> = l @ [CR, LF]" using dl assms(1) by (intro take_all) (simp add: l_def response_ok_def)
  finally have line: "status_line m = l @ [CR, LF]" .
  have dp: "plain_text ?d" "CHR '' '' \<notin> set ?d" using plain_digits [of 10] digits_plain [of 10] by (auto simp: isspace_def)
  have plain: "plain_text l" using assms(1) dp by (simp add: l_def response_ok_def)
  have s1: "sp_strsep (Some (l @ [CR, LF])) '' '' = (Some (hm_mVersion m), Some (?d @ '' '' @ hs_mReasonPhrase ?r @ [CR, LF]))"
    using assms(1) by (simp add: l_def response_ok_def)
  have s2: "sp_strsep (Some (?d @ '' '' @ hs_mReasonPhrase ?r @ [CR, LF])) '' '' = (Some ?d, Some (hs_mReasonPhrase ?r @ [CR, LF]))"
    using dp(2) by simp
  have t: "strtok (hs_mReasonPhrase ?r @ [CR, LF]) CRLF_set = Some (hs_mReasonPhrase ?r)"
    using strtok_plain assms(1) by (simp add: response_ok_def)
  have a: "atoi ?d = hs_mStatusCode ?r" using atoi_digits [of "nat (hs_mStatusCode ?r)"] c by simp
  have "start_message (l @ [CR, LF]) = Inr (response_message m)" using assms(1) s1 s2 t a
    by (simp add: start_message_def response_ok_def HttpMessage_setVersion_def HttpResponse_setReasonPhrase_def
        snprintf_s_def HttpResponse_setStatusCode_def on_response_def HttpResponse_new_def HttpMessage_new_def response_message_def sub)
  with line plain show ?thesis by simp
qed

lemma response_message_props:
  assumes "response_ok m"
  shows "message_ok (response_message m)" "HttpMessage_headers (response_message m) = []"
    "HttpMessage_getType (response_message m) = eResponse" "hm_mContentLength (response_message m) = 0"
    "HttpMessage_content (response_message m) = []" "hm_sub (response_message m) = hm_sub m" "hm_mVersion (response_message m) = hm_mVersion m"
  using assms response_part [of m]
  by (simp_all add: response_message_def message_ok_def sub_ok_def content_ok_def HttpMessage_new_def int_max_def
      HttpMessage_headers_def HttpMessage_getType_def HttpMessage_content_def response_ok_def)

lemma response_read_back:
  assumes "response_ok m" "buf = status_line m @ print_headers hs @ body @ rest" "int (length buf) < int_max"
    "list_all header_ok hs" "\<not> is_chunked (assoc_case HEADER_TRANSFER_ENCODING hs)"
    "case assoc_case HEADER_CONTENT_LENGTH hs of None \<Rightarrow> body = [] | Some v \<Rightarrow> v = digits 10 (length body)"
  shows "\<exists>m'. HttpParser_append buf HttpParser_new = Inr (length (status_line m @ print_headers hs @ body),
      \<lparr> hp_mMessage = Some m', hp_mStatus = eCompleted, hp_mIgnoreContent = False \<rparr>) \<and>
    hm_sub m' = hm_sub m \<and> hm_mVersion m' = hm_mVersion m \<and> HttpMessage_headers m' = hs \<and> HttpMessage_content m' = body"
proof -
  define l where "l = hm_mVersion m @ '' '' @ digits 10 (nat (hs_mStatusCode (HttpResponse_part m))) @ '' '' @ hs_mReasonPhrase (HttpResponse_part m)"
  have l: "status_line m = l @ CRLF" "plain_text l" "start_message (l @ CRLF) = Inr (response_message m)"
    using status_line_print [OF assms(1)] by (simp_all add: l_def)
  have "line_at buf 0 (int (length buf)) = Inr (Some (l @ CRLF))"
    by (rule line_at_line [where pre = "[]" and rest = "print_headers hs @ body @ rest"])
      (use l assms(2,3) in \<open>simp_all add: print_headers_def\<close>)
  then have "HttpParser_parseStartLine buf (int (length buf)) = Inr (length (status_line m), Some (response_message m))"
    using l cstr_line [OF l(2)] by (simp add: HttpParser_parseStartLine_def)
  moreover have "status_line m \<noteq> []" using l(1) by simp
  moreover note assms(2-6) response_message_props(1,2,4,5) [OF assms(1)]
  ultimately show ?thesis
    using append_message [of buf "status_line m" "response_message m" hs body rest] response_message_props(3,6,7) [OF assms(1)]
    by auto
qed


lemma header_names_differ:
  "\<not> strcaseeq HEADER_SERVER HEADER_CONTENT_LENGTH" "\<not> strcaseeq HEADER_CONTENT_TYPE HEADER_CONTENT_LENGTH"
  "\<not> strcaseeq HEADER_DATE HEADER_CONTENT_LENGTH" "\<not> strcaseeq HEADER_CONTENT_LENGTH HEADER_CONNECTION"
  "\<not> strcaseeq HEADER_SERVER HEADER_TRANSFER_ENCODING" "\<not> strcaseeq HEADER_CONTENT_TYPE HEADER_TRANSFER_ENCODING"
  "\<not> strcaseeq HEADER_DATE HEADER_TRANSFER_ENCODING" "\<not> strcaseeq HEADER_CONTENT_LENGTH HEADER_TRANSFER_ENCODING"
  "\<not> strcaseeq HEADER_CONNECTION HEADER_TRANSFER_ENCODING" "\<not> strcaseeq HEADER_CONNECTION HEADER_CONTENT_LENGTH"
  by code_simp+

lemma fixed_lines_ok:
  "line_ok (HEADER_SERVER, ''sphttp/spserver'')" "line_ok (HEADER_CONTENT_TYPE, ''text/html; charset=ISO-8859-1'')"
  "line_ok (HEADER_CONNECTION, ''Keep-Alive'')"
  by code_simp+

lemma length_line_ok:
  assumes "int n < int_max"
  shows "line_ok (HEADER_CONTENT_LENGTH, digits 10 n)"
proof -
  have "header_ok (HEADER_CONTENT_LENGTH, ''0'')" "length (print_header (HEADER_CONTENT_LENGTH, ''0'')) = 19" by code_simp+
  moreover have "plain_text (digits 10 n)" "digits 10 n \<noteq> []" using plain_digits [of 10 n] digits_ok [of 10 n] by simp_all
  moreover have "CHR '' '' \<notin> set (digits 10 n)" using digits_plain [of 10 "CHR '' ''" n] by (auto simp: isspace_def)
  ultimately show ?thesis using digits_int_length [OF assms]
    by (cases "digits 10 n") (auto simp: line_ok_def header_ok_def print_header_def)
qed

lemma put_header_lines: "line_ok (name, val) \<Longrightarrow> list_all line_ok hs \<Longrightarrow> list_all line_ok (put_header name val hs)"
  by (simp add: put_header_def list_all_remove)

lemma default_header_lines: "line_ok (name, val) \<Longrightarrow> list_all line_ok hs \<Longrightarrow> list_all line_ok (default_header wanted name val hs)"
  by (simp add: default_header_def)

lemma reply_header_lines:
  assumes "list_all line_ok hs" "line_ok (HEADER_DATE, date)" "int n < int_max"
  shows "list_all line_ok (reply_header_list date keep (Some (digits 10 n)) hs)"
  unfolding reply_header_list_def option.case
  by (intro put_header_lines default_header_lines fixed_lines_ok length_line_ok assms)

lemma assoc_remove_snoc:
  "\<not> strcaseeq name k \<Longrightarrow> assoc_case name (remove_case name (hs @ [(k, v)])) = assoc_case name (remove_case name hs)"
  by (induction name hs rule: remove_case.induct) (auto simp: assoc_case_append split: option.splits)

lemma reply_header_lookups:
  assumes "assoc_case HEADER_CONTENT_LENGTH (remove_case HEADER_CONTENT_LENGTH hs) = None"
  shows "assoc_case HEADER_CONTENT_LENGTH (reply_header_list date keep (Some l) hs) = Some l"
    and "assoc_case HEADER_TRANSFER_ENCODING (reply_header_list date keep (Some l) hs) = assoc_case HEADER_TRANSFER_ENCODING hs"
proof -
  have "assoc_case HEADER_CONTENT_LENGTH (remove_case HEADER_CONTENT_LENGTH (default_header keep HEADER_CONNECTION ''Keep-Alive'' hs)) = None"
    using assms by (simp add: default_header_def assoc_remove_snoc header_names_differ)
  then show "assoc_case HEADER_CONTENT_LENGTH (reply_header_list date keep (Some l) hs) = Some l"
    by (simp add: reply_header_list_def put_header_lookup default_header_lookup header_names_differ)
  show "assoc_case HEADER_TRANSFER_ENCODING (reply_header_list date keep (Some l) hs) = assoc_case HEADER_TRANSFER_ENCODING hs"
    by (simp add: reply_header_list_def put_header_lookup default_header_lookup header_names_differ)
qed

text \<open>What \<open>handle\<close> answers when no line is longer than the array.\<close>

lemma handle_eq:
  assumes q0: "HttpRequestDecoder_getMsg (rq_mDecoder request) = Some q0"
    and h: "mHandler (HttpRequest_setClinetIP (rq_mClientIP request) q0) (HttpResponse_new\<lparr> hm_mVersion := take 15 (hm_mVersion q0) \<rparr>) = (q, m)"
    and m: "message_ok m" "list_all line_ok (HttpMessage_headers (reply_headers date q m))"
  shows "\<exists>ret. HttpHandlerAdapter_handle mHandler date request ([], []) =
      Inr (ret, Request_setMsgDecoder HttpParser_new request, status_line m @ print_headers (HttpMessage_headers (reply_headers date q m)),
        if hm_mContent m = None then [] else [reply_headers date q m]) \<and>
    (ret = 0 \<longleftrightarrow> (case HttpMessage_getHeaderValue HEADER_CONNECTION (reply_headers date q m) of
       None \<Rightarrow> False | Some v \<Rightarrow> strcaseeq (take 31 v) ''Keep-Alive''))"
proof -
  let ?out = "reply_headers date q m"
  have out: "message_ok ?out" "same_but_headers m ?out" using reply_headers_ok [OF m(1) refl] by simp_all
  have "header_lines 0 (nat (HttpMessage_getHeaderCount ?out)) ?out = Inr (concat (map print_header (HttpMessage_headers ?out)))"
    using header_lines_print [OF out(1) m(2), of 0] by (simp add: HttpMessage_getHeaderCount_def)
  moreover have "\<not> strcaseeq [] ''Keep-Alive''" by code_simp
  ultimately show ?thesis using q0 h out(2)
    by (auto simp: HttpHandlerAdapter_handle_def HttpMessage_setVersion_def snprintf_s_def Let_def print_headers_def
        same_but_headers_def HttpRequestDecoder_new_def split: option.splits)
qed

text \<open>
  C13: What the server writes for a reply is what an HTTP client of the library reads: when the
  lines fit the array that they are printed into and the handler has set at most one
  Content-Length, the parser takes the reply to its last byte and finds the status, the version,
  the reason, the handler's content and the headers that \<open>handle\<close> has completed.
\<close>

theorem Http_reply_roundtrip:
  assumes "HttpRequestDecoder_getMsg (rq_mDecoder request) = Some q0"
    and "mHandler (HttpRequest_setClinetIP (rq_mClientIP request) q0) (HttpResponse_new\<lparr> hm_mVersion := take 15 (hm_mVersion q0) \<rparr>) = (q, m)"
    and "response_ok m" "line_ok (HEADER_DATE, date)" "\<not> strcaseeq (HttpRequest_method q) ''head''"
    and "\<not> is_chunked (assoc_case HEADER_TRANSFER_ENCODING (HttpMessage_headers m))"
    and "assoc_case HEADER_CONTENT_LENGTH (remove_case HEADER_CONTENT_LENGTH (HttpMessage_headers m)) = None"
    and "hs = reply_header_list date (HttpMessage_isKeepAlive q) (Some (digits 10 (length (HttpMessage_content m)))) (HttpMessage_headers m)"
    and "int (length (status_line m @ print_headers hs @ HttpMessage_content m)) < int_max"
  shows "\<exists>ret reply p m'. HttpHandlerAdapter_handle mHandler date request ([], []) =
      Inr (ret, Request_setMsgDecoder HttpParser_new request, reply) \<and>
    HttpParser_append (reply_bytes reply) HttpParser_new = Inr (length (reply_bytes reply), p) \<and>
    HttpParser_isCompleted p \<and> HttpParser_getResponse p = Some m' \<and>
    hm_sub m' = hm_sub m \<and> hm_mVersion m' = hm_mVersion m \<and> HttpMessage_headers m' = hs \<and> HttpMessage_content m' = HttpMessage_content m"
proof -
  let ?out = "reply_headers date q m" and ?body = "HttpMessage_content m"
  have m: "message_ok m" "list_all line_ok (HttpMessage_headers m)" using assms(3) by (simp_all add: response_ok_def)
  have body: "?body = take (nat (hm_mContentLength m)) (lazy [] (hm_mContent m))"
    by (simp add: HttpMessage_content_def lazy_def split: option.splits)
  have len: "length ?body = nat (hm_mContentLength m)" "hm_mContentLength m < int_max" "0 \<le> hm_mContentLength m"
    using m(1) by (auto simp: message_ok_def content_ok_def HttpMessage_content_def split: option.splits)
  have out: "same_but_headers m ?out" "HttpMessage_headers ?out = hs"
    using reply_headers_ok [OF m(1) refl, of date q] assms(5,8) len(1) by simp_all
  have lines: "list_all line_ok hs" using reply_header_lines [OF m(2) assms(4)] assms(8) len by simp
  then have hok: "list_all header_ok hs" by (auto simp: line_ok_def list_all_iff)
  from handle_eq [of request q0 mHandler q m date, OF assms(1,2) m(1)] lines out(2) obtain ret where
    r: "HttpHandlerAdapter_handle mHandler date request ([], []) = Inr (ret, Request_setMsgDecoder HttpParser_new request,
      status_line m @ print_headers hs, if hm_mContent m = None then [] else [?out])" by auto
  have "to_size (hm_mContentLength ?out) = nat (hm_mContentLength m)"
    using out(1) len by (simp add: same_but_headers_def to_size_def int_max_def)
  then have bytes: "reply_bytes (status_line m @ print_headers hs, if hm_mContent m = None then [] else [?out]) = status_line m @ print_headers hs @ ?body"
    using out(1) by (simp add: reply_bytes_def HttpResponseMsgBlock_getSize_def HttpResponseMsgBlock_getData_def same_but_headers_def
        HttpMessage_content_def lazy_def split: option.splits)
  from response_read_back [OF assms(3) _ _ hok, of "status_line m @ print_headers hs @ ?body" ?body "[]"] obtain m' where
    "HttpParser_append (status_line m @ print_headers hs @ ?body) HttpParser_new = Inr (length (status_line m @ print_headers hs @ ?body),
      \<lparr> hp_mMessage = Some m', hp_mStatus = eCompleted, hp_mIgnoreContent = False \<rparr>)"
    "hm_sub m' = hm_sub m" "hm_mVersion m' = hm_mVersion m" "HttpMessage_headers m' = hs" "HttpMessage_content m' = ?body"
    using assms(6,8,9) reply_header_lookups [OF assms(7)] by auto
  moreover define p where "p = \<lparr> hp_mMessage = Some m', hp_mStatus = eCompleted, hp_mIgnoreContent = False \<rparr>"
  moreover define reply where "reply = (status_line m @ print_headers hs, if hm_mContent m = None then [] else [?out])"
  ultimately have "HttpParser_append (reply_bytes reply) HttpParser_new = Inr (length (reply_bytes reply), p)"
    "HttpParser_isCompleted p" "HttpParser_getResponse p = Some m'"
    using bytes assms(3) by (simp_all add: HttpParser_isCompleted_def HttpParser_getResponse_def HttpMessage_getType_def response_ok_def)
  then show ?thesis using r reply_def \<open>hm_sub m' = hm_sub m\<close> \<open>hm_mVersion m' = hm_mVersion m\<close>
      \<open>HttpMessage_headers m' = hs\<close> \<open>HttpMessage_content m' = ?body\<close> by blast
qed


text \<open>A handler that answers \<open>ok\<close>, for the sample request.\<close>

definition sample_handler :: "http_message \<Rightarrow> http_message \<Rightarrow> http_message \<times> http_message" where
  "sample_handler q m = (q, case HttpMessage_appendContent (''ok'' @ [NUL]) 0 0 m of Inr m' \<Rightarrow> m' | Inl _ \<Rightarrow> m)"

definition sample_decoder :: http_parser where
  "sample_decoder = \<lparr> hp_mMessage = Some (request_message sample_request), hp_mStatus = eCompleted, hp_mIgnoreContent = False \<rparr>"

definition sample_reply :: http_message where
  "sample_reply = snd (sample_handler (request_message sample_request) (HttpResponse_new\<lparr> hm_mVersion := ''HTTP/1.1'' \<rparr>))"

theorem Http_reply_roundtrip_witness:
  "\<exists>ret reply p m'. HttpHandlerAdapter_handle sample_handler ''today'' (Request_new sample_decoder) ([], []) =
      Inr (ret, Request_setMsgDecoder HttpParser_new (Request_new sample_decoder), reply) \<and>
    HttpParser_append (reply_bytes reply) HttpParser_new = Inr (length (reply_bytes reply), p) \<and>
    HttpParser_isCompleted p \<and> HttpParser_getResponse p = Some m' \<and>
    hm_sub m' = hm_sub sample_reply \<and> hm_mVersion m' = hm_mVersion sample_reply \<and>
    HttpMessage_headers m' = reply_header_list ''today'' False (Some (digits 10 2)) [] \<and> HttpMessage_content m' = HttpMessage_content sample_reply"
proof (rule Http_reply_roundtrip)
  show "HttpRequestDecoder_getMsg (rq_mDecoder (Request_new sample_decoder)) = Some (request_message sample_request)" by code_simp
  show "sample_handler (HttpRequest_setClinetIP (rq_mClientIP (Request_new sample_decoder)) (request_message sample_request))
     (HttpResponse_new\<lparr> hm_mVersion := take 15 (hm_mVersion (request_message sample_request)) \<rparr>) =
     (HttpRequest_setClinetIP [] (request_message sample_request), sample_reply)" by code_simp
qed code_simp+



text \<open>
  A client that sends a response instead of a request kills the server: the decoder reports a
  complete message, but it has no request to give, and \<open>handle\<close> calls a method on that NULL.
\<close>

theorem Http_response_kills_server:
  assumes "response_ok m" "wb_inv b" "wb_room b" "wb_contents b = status_line m @ CRLF" "int (length (wb_contents b)) < int_max"
  shows "\<exists>p b'. HttpRequestDecoder_decode lc b HttpRequestDecoder_new = Inr (eOK, p, b') \<and>
    HttpHandlerAdapter_handle mHandler date (Request_setMsgDecoder p request) reply = Inl NullDeref"
proof -
  have buf: "wb_contents b = status_line m @ print_headers [] @ [] @ []" using assms(4) by (simp add: print_headers_def)
  from response_read_back [OF assms(1) buf assms(5)] obtain m' where
    p: "HttpParser_append (wb_contents b) HttpParser_new = Inr (length (wb_contents b), \<lparr> hp_mMessage = Some m', hp_mStatus = eCompleted, hp_mIgnoreContent = False \<rparr>)"
    and m': "hm_sub m' = hm_sub m" by (auto simp: buf is_chunked_def)
  have "wb_contents b \<noteq> []" using assms(4) by simp
  from decode_eq [OF assms(2,3) this assms(5) p] obtain b' where
    "HttpRequestDecoder_decode lc b HttpRequestDecoder_new = Inr (eOK, \<lparr> hp_mMessage = Some m', hp_mStatus = eCompleted, hp_mIgnoreContent = False \<rparr>, b')"
    by (auto simp: HttpRequestDecoder_new_def HttpParser_isCompleted_def)
  then show ?thesis using assms(1) m'
    by (auto simp: HttpHandlerAdapter_handle_def HttpRequestDecoder_getMsg_def HttpParser_getRequest_def
        Request_setMsgDecoder_def HttpMessage_getType_def response_ok_def)
qed

theorem Http_response_kills_server_witness:
  "\<exists>p b'. HttpRequestDecoder_decode libc_plain (sample_buffer (status_line sample_reply @ CRLF) 8) HttpRequestDecoder_new = Inr (eOK, p, b') \<and>
    HttpHandlerAdapter_handle sample_handler ''today'' (Request_setMsgDecoder p (Request_new HttpParser_new)) ([], []) = Inl NullDeref"
proof -
  let ?xs = "status_line sample_reply @ CRLF"
  have ok: "response_ok sample_reply" "length ?xs < 1000" by code_simp+
  show ?thesis by (rule Http_response_kills_server [OF ok(1)])
    (use ok(2) in \<open>simp_all add: sample_buffer mem_limit_def wb_room_def int_max_def del: length_append\<close>)
qed

text \<open>
  A header of the reply that does not fit the array of 512 characters loses its line end with
  the rest of its value: the next header is no header for the reader but the end of that value.
\<close>

theorem Http_long_header:
  assumes "header_ok (name, val)" "length name \<le> 508" "511 \<le> length name + 2 + length val" "line_ok (name2, val2)"
    and "buf = pre @ header_line name val @ header_line name2 val2 @ rest" "int (length buf) < int_max"
  shows "HttpParser_parseHeader buf (length pre) (int (length buf) - int (length pre)) m =
    Inr (length (header_line name val @ header_line name2 val2),
      HttpMessage_addHeader name (take (509 - length name) val @ name2 @ '': '' @ val2) m)"
proof -
  define v where "v = take (509 - length name) val @ name2 @ '': '' @ val2"
  have l2: "header_line name2 val2 = name2 @ '': '' @ val2 @ CRLF"
    unfolding header_line_def using assms(4) by (intro take_all) (simp add: line_ok_def print_header_def)
  have "511 - length name = Suc (Suc (509 - length name))" using assms(2) by simp
  then have "header_line name val = name @ '': '' @ take (509 - length name) val"
    unfolding header_line_def using assms(2,3) by simp
  then have l: "header_line name val @ header_line name2 val2 = (name @ '': '' @ v) @ CRLF" by (simp add: l2 v_def)
  have "take (509 - length name) val \<noteq> [] \<and> hd (take (509 - length name) val) = hd val"
    using assms(1,2) by (cases val; cases "509 - length name") (auto simp: header_ok_def)
  moreover have "plain_text (take k val)" for k using assms(1) by (auto simp: header_ok_def plain_text_def dest: in_set_takeD)
  ultimately have ok: "header_ok (name, v)" using assms(1,4) by (simp add: header_ok_def line_ok_def v_def)
  have p: "plain_text (name @ '': '' @ v)" using ok by (simp add: header_ok_def)
  have "line_at buf (length pre) (int (length buf) - int (length pre)) = Inr (Some ((name @ '': '' @ v) @ CRLF))"
  proof (rule line_at_line [OF p _ _ _ refl])
    show buf: "buf = pre @ (name @ '': '' @ v) @ CRLF @ rest" using arg_cong [OF l, of "\<lambda>xs. pre @ xs @ rest"] assms(5) by simp
    then show "int (length (name @ '': '' @ v)) + 1 < int (length buf) - int (length pre)" by simp
  qed (use assms(6) in simp)
  then show ?thesis using cstr_line [OF p] header_message_print [OF ok, of m] l
    by (simp add: HttpParser_parseHeader_def) (simp add: v_def)
qed

theorem Http_long_header_witness:
  "HttpParser_parseHeader (header_line ''A'' (replicate 600 CHR ''x'') @ header_line ''B'' ''y'') 0
     (int (length (header_line ''A'' (replicate 600 CHR ''x'') @ header_line ''B'' ''y''))) HttpResponse_new =
    Inr (length (header_line ''A'' (replicate 600 CHR ''x'') @ header_line ''B'' ''y''),
      HttpMessage_addHeader ''A'' (take (509 - length ''A'') (replicate 600 CHR ''x'') @ ''B'' @ '': '' @ ''y'') HttpResponse_new)"
proof -
  let ?val = "replicate 600 CHR ''x''" and ?buf = "header_line ''A'' (replicate 600 CHR ''x'') @ header_line ''B'' ''y''"
  have "plain_text ?val" by (simp add: plain_text_def)
  then have a: "header_ok (''A'', ?val)" by (simp add: header_ok_def numeral_eq_Suc)
  have b: "line_ok (''B'', ''y'')" by code_simp
  have "length ?buf < 2000" by (simp add: header_line_def)
  then show ?thesis using Http_long_header [OF a _ _ b, of ?buf "[]" "[]" HttpResponse_new] by (simp add: int_max_def)
qed

end
