(* ===== verification/SP_Smtp.thy ===== *)
theory SP_Smtp
  imports SP_StrUtils SP_MsgDecoder SP_Message SP_CString
begin

text \<open>
  The SMTP server of spsmtp.cpp: the session of a connection, the adapter that turns the decoded
  lines into calls of the user's handler, and the two decoders it switches between. The handler
  is a parameter: a function of its own state, of the method called and of the reply so far.
\<close>

subsection \<open>SP_SmtpHandler\<close>

datatype smtp_call = Welcome bytes bytes | Help "bytes option" | Helo bytes | Ehlo bytes
  | Auth bytes bytes | Noop "bytes option" | From bytes | Rcpt bytes | Data bytes | Rset

definition eAccept :: int where "eAccept = 0"
definition eReject :: int where "eReject = -1"
definition eClose :: int where "eClose = -2"

type_synonym 'h smtp_handler = "'h \<Rightarrow> smtp_call \<Rightarrow> bytes \<Rightarrow> int \<times> bytes \<times> 'h"

text \<open>The methods that the base class has a body for; the others are pure.\<close>

fun SmtpHandler_default :: "smtp_call \<Rightarrow> bytes \<Rightarrow> (int \<times> bytes) option" where
  "SmtpHandler_default (Welcome clientIP serverIP) reply = Some (eAccept, reply @ ''220 SMTP service ready'' @ [LF])"
| "SmtpHandler_default (Help args) reply = Some (eAccept, reply @ ''250 HELP HELO EHLO MAIL RCPT DATA NOOP RSET QUIT'' @ [CR, LF])"
| "SmtpHandler_default (Helo args) reply = Some (eAccept, reply @ ''250 OK'' @ [LF])"
| "SmtpHandler_default (Ehlo args) reply =
     Some (eAccept, reply @ ''250-OK'' @ [LF] @ ''250-AUTH=LOGIN'' @ [LF] @ ''250 HELP'' @ [LF])"
| "SmtpHandler_default (Auth user pass) reply = Some (eReject, reply @ ''535 Authenticate failed'' @ [LF])"
| "SmtpHandler_default (Noop args) reply = Some (eAccept, reply @ ''250 OK'' @ [LF])"
| "SmtpHandler_default _ reply = None"

subsection \<open>SP_SmtpHandlerList\<close>

definition SmtpHandlerList_append :: "'a \<Rightarrow> 'a list \<Rightarrow> 'a list" where
  "SmtpHandlerList_append handler mList = mList @ [handler]"

definition SmtpHandlerList_getCount :: "'a list \<Rightarrow> int" where
  "SmtpHandlerList_getCount mList = int (length mList)"

definition SmtpHandlerList_getItem :: "int \<Rightarrow> 'a list \<Rightarrow> 'a option" where
  "SmtpHandlerList_getItem index mList = lst_get index mList"

subsection \<open>SP_SmtpSession\<close>

datatype smtp_step = eStepOther | eStepUser | eStepPass

record 'h smtp_session =
  ss_mAuthStep :: smtp_step
  ss_mSeenAuth :: int
  ss_mUser :: bytes
  ss_mPass :: bytes
  ss_mSeenHelo :: int
  ss_mSeenSender :: int
  ss_mRcptCount :: int
  ss_mSeenData :: int
  ss_mDataMode :: int
  ss_mHandler :: "'h option"

definition SmtpSession_reset :: "'h smtp_session \<Rightarrow> 'h smtp_session" where
  "SmtpSession_reset s = s\<lparr> ss_mSeenSender := 0, ss_mRcptCount := 0, ss_mSeenData := 0, ss_mDataMode := 0 \<rparr>"

definition SmtpSession_new :: "'h smtp_session" where
  "SmtpSession_new = SmtpSession_reset \<lparr> ss_mAuthStep = eStepOther, ss_mSeenAuth = 0, ss_mUser = [], ss_mPass = [],
     ss_mSeenHelo = 0, ss_mSeenSender = 0, ss_mRcptCount = 0, ss_mSeenData = 0, ss_mDataMode = 0, ss_mHandler = None \<rparr>"

definition SmtpSession_setUser :: "bytes \<Rightarrow> 'h smtp_session \<Rightarrow> 'h smtp_session" where
  "SmtpSession_setUser user s = s\<lparr> ss_mUser := sp_strlcpy user 128 \<rparr>"

definition SmtpSession_setPass :: "bytes \<Rightarrow> 'h smtp_session \<Rightarrow> 'h smtp_session" where
  "SmtpSession_setPass pass s = s\<lparr> ss_mPass := sp_strlcpy pass 128 \<rparr>"

definition SmtpSession_addRcpt :: "'h smtp_session \<Rightarrow> 'h smtp_session res" where
  "SmtpSession_addRcpt s = res_bind (int_add (ss_mRcptCount s) 1) (\<lambda>n. Inr (s\<lparr> ss_mRcptCount := n \<rparr>))"

definition SmtpSession_setDataMode :: "int \<Rightarrow> 'h smtp_session \<Rightarrow> 'h smtp_session" where
  "SmtpSession_setDataMode mode s =
     s\<lparr> ss_mDataMode := mode, ss_mSeenData := (if mode = 1 then 1 else ss_mSeenData s) \<rparr>"

text \<open>\<open>getHandler\<close> creates the handler on first use.\<close>

definition SmtpSession_getHandler :: "'h \<Rightarrow> 'h smtp_session \<Rightarrow> 'h \<times> 'h smtp_session" where
  "SmtpSession_getHandler create s =
     (case ss_mHandler s of Some h \<Rightarrow> (h, s) | None \<Rightarrow> (create, s\<lparr> ss_mHandler := Some create \<rparr>))"

text \<open>A call of one of its methods: the answer, the reply and the session afterwards.\<close>

definition smtp_call :: "'h smtp_handler \<Rightarrow> 'h \<Rightarrow> smtp_call \<Rightarrow> bytes \<Rightarrow> 'h smtp_session \<Rightarrow> int \<times> bytes \<times> 'h smtp_session" where
  "smtp_call H create c reply s =
     (case SmtpSession_getHandler create s of (h, s1) \<Rightarrow>
      case H h c reply of (ret, reply', h') \<Rightarrow> (ret, reply', s1\<lparr> ss_mHandler := Some h' \<rparr>))"

subsection \<open>SP_SmtpHandlerAdapter\<close>

text \<open>The decoder of the request: the class it was made with, and what it holds.\<close>

datatype smtp_decoder = LineMsgDecoder "bytes option" | DotTermChunkMsgDecoder "sp_buffer list"

type_synonym 'h smtp_answer = "int \<times> bytes \<times> 'h smtp_session"

definition smtp_say :: "bytes \<Rightarrow> bytes \<Rightarrow> 'h smtp_session \<Rightarrow> 'h smtp_answer" where
  "smtp_say line reply s = (eAccept, reply @ line @ [CR, LF], s)"

text \<open>EHLO and HELO differ in the method and in the word of the texts.\<close>

definition smtp_hello ::
  "'h smtp_handler \<Rightarrow> 'h \<Rightarrow> (bytes \<Rightarrow> smtp_call) \<Rightarrow> bytes \<Rightarrow> bytes option \<Rightarrow> bytes \<Rightarrow> 'h smtp_session \<Rightarrow> 'h smtp_answer" where
  "smtp_hello H create meth word args reply s =
     (case args of
        None \<Rightarrow> smtp_say (''501 Syntax: '' @ word @ '' <hostname>'') reply s
      | Some a \<Rightarrow>
          if ss_mSeenHelo s = 0 then
            (case smtp_call H create (meth a) reply s of (ret, reply', s') \<Rightarrow>
               (ret, reply', if ret = eAccept then s'\<lparr> ss_mSeenHelo := 1 \<rparr> else s'))
          else smtp_say (''503 Duplicate '' @ word) reply s)"

definition smtp_AUTH :: "bytes option \<Rightarrow> bytes \<Rightarrow> 'h smtp_session \<Rightarrow> 'h smtp_answer" where
  "smtp_AUTH args reply s =
     (if ss_mSeenHelo s = 0 then smtp_say ''503 Error: send EHLO first'' reply s
      else if ss_mSeenAuth s \<noteq> 0 then smtp_say ''503 Duplicate AUTH'' reply s
      else case args of
          None \<Rightarrow> smtp_say ''501 Syntax: AUTH LOGIN'' reply s
        | Some a \<Rightarrow>
            if strcaseeq a ''LOGIN'' then smtp_say ''334 VXNlcm5hbWU6'' reply (s\<lparr> ss_mAuthStep := eStepUser \<rparr>)
            else smtp_say ''504 Unrecognized authentication type.'' reply s)"

text \<open>The address behind \<open>FROM:\<close> or \<open>TO:\<close>, which may be left out.\<close>

definition smtp_address :: "bytes \<Rightarrow> bytes \<Rightarrow> bytes" where
  "smtp_address word args =
     dropWhile isspace (if strncaseeq args word (length word) then drop (length word) args else args)"

definition smtp_MAIL :: "'h smtp_handler \<Rightarrow> 'h \<Rightarrow> bytes option \<Rightarrow> bytes \<Rightarrow> 'h smtp_session \<Rightarrow> 'h smtp_answer" where
  "smtp_MAIL H create args reply s =
     (if ss_mSeenHelo s = 0 then smtp_say ''503 Error: send HELO first'' reply s
      else if ss_mSeenSender s \<noteq> 0 then smtp_say ''503 Sender already specified.'' reply s
      else case args of
          None \<Rightarrow> smtp_say ''501 Syntax: MAIL FROM:<address>'' reply s
        | Some a \<Rightarrow>
            (case smtp_call H create (From (smtp_address ''FROM:'' a)) reply s of (ret, reply', s') \<Rightarrow>
               (ret, reply', if ret = eAccept then s'\<lparr> ss_mSeenSender := 1 \<rparr> else s')))"

definition smtp_RCPT :: "'h smtp_handler \<Rightarrow> 'h \<Rightarrow> bytes option \<Rightarrow> bytes \<Rightarrow> 'h smtp_session \<Rightarrow> 'h smtp_answer res" where
  "smtp_RCPT H create args reply s =
     (if ss_mSeenHelo s = 0 then Inr (smtp_say ''503 Error: send HELO first'' reply s)
      else if ss_mSeenSender s = 0 then Inr (smtp_say ''503 Error: need MAIL command'' reply s)
      else if ss_mSeenData s \<noteq> 0 then Inr (smtp_say ''503 Bad sequence of commands'' reply s)
      else case args of
          None \<Rightarrow> Inr (smtp_say ''501 Syntax: RCPT TO:<address>'' reply s)
        | Some a \<Rightarrow>
            (case smtp_call H create (Rcpt (smtp_address ''TO:'' a)) reply s of (ret, reply', s') \<Rightarrow>
               if ret = eAccept then res_bind (SmtpSession_addRcpt s') (\<lambda>s2. Inr (ret, reply', s2))
               else Inr (ret, reply', s')))"

text \<open>DATA answers also whether the decoder is replaced.\<close>

definition smtp_DATA :: "bytes \<Rightarrow> 'h smtp_session \<Rightarrow> bool \<times> 'h smtp_answer" where
  "smtp_DATA reply s =
     (if ss_mSeenHelo s = 0 then (False, smtp_say ''503 Error: send HELO first'' reply s)
      else if ss_mSeenSender s = 0 then (False, smtp_say ''503 Error: need MAIL command'' reply s)
      else if ss_mRcptCount s \<le> 0 then (False, smtp_say ''503 Error: need RCPT command'' reply s)
      else (True, smtp_say ''354 Start mail input; end with <CRLF>.<CRLF>'' reply (SmtpSession_setDataMode 1 s)))"

definition smtp_RSET :: "'h smtp_handler \<Rightarrow> 'h \<Rightarrow> bytes \<Rightarrow> 'h smtp_session \<Rightarrow> 'h smtp_answer" where
  "smtp_RSET H create reply s =
     (case smtp_call H create Rset reply s of (ret, reply', s') \<Rightarrow> (ret, reply', SmtpSession_reset s'))"

definition smtp_command ::
  "'h smtp_handler \<Rightarrow> 'h \<Rightarrow> bytes \<Rightarrow> bytes option \<Rightarrow> bytes \<Rightarrow> 'h smtp_session \<Rightarrow> (bool \<times> 'h smtp_answer) res" where
  "smtp_command H create cmd args reply s =
     (if strcaseeq cmd ''EHLO'' then Inr (False, smtp_hello H create Ehlo ''EHLO'' args reply s)
      else if strcaseeq cmd ''AUTH'' then Inr (False, smtp_AUTH args reply s)
      else if strcaseeq cmd ''HELO'' then Inr (False, smtp_hello H create Helo ''HELO'' args reply s)
      else if strcaseeq cmd ''MAIL'' then Inr (False, smtp_MAIL H create args reply s)
      else if strcaseeq cmd ''RCPT'' then res_bind (smtp_RCPT H create args reply s) (\<lambda>r. Inr (False, r))
      else if strcaseeq cmd ''DATA'' then Inr (smtp_DATA reply s)
      else if strcaseeq cmd ''RSET'' then Inr (False, smtp_RSET H create reply s)
      else if strcaseeq cmd ''NOOP'' then Inr (False, smtp_call H create (Noop args) reply s)
      else if strcaseeq cmd ''HELP'' then Inr (False, smtp_call H create (Help args) reply s)
      else if strcaseeq cmd ''QUIT'' then
        Inr (False, eClose, reply @ ''221 Closing connection. Good bye.'' @ [CR, LF], s)
      else Inr (False, smtp_say (''500 Syntax error, command unrecognized <'' @ cmd @ ''>.'') reply s))"

text \<open>The casts of the decoder, which the code makes without a test.\<close>

definition line_msg :: "smtp_decoder \<Rightarrow> bytes option res" where
  "line_msg d = (case d of LineMsgDecoder l \<Rightarrow> Inr l | DotTermChunkMsgDecoder _ \<Rightarrow> Inl BadCast)"

definition chunk_msg :: "libc \<Rightarrow> smtp_decoder \<Rightarrow> bytes res" where
  "chunk_msg lc d = (case d of LineMsgDecoder _ \<Rightarrow> Inl BadCast
     | DotTermChunkMsgDecoder ms \<Rightarrow> res_bind (ChunkDecoder_getMsg lc ms) (\<lambda>r. Inr (fst r)))"

text \<open>A reply without a line end gets one.\<close>

definition smtp_end_line :: "bytes \<Rightarrow> bytes" where
  "smtp_end_line reply = (if LF \<in> set reply then reply else reply @ [LF])"

definition SmtpAdapter_start ::
  "'h smtp_handler \<Rightarrow> 'h \<Rightarrow> smtp_decoder sp_request \<Rightarrow> bytes \<Rightarrow> 'h smtp_session \<Rightarrow>
   int \<times> bytes \<times> 'h smtp_session \<times> smtp_decoder sp_request" where
  "SmtpAdapter_start H create request reply s =
     (case smtp_call H create (Welcome (rq_mClientIP request) (rq_mServerIP request)) reply s of (ret, reply', s') \<Rightarrow>
        (ret, smtp_end_line reply', s', Request_setMsgDecoder (LineMsgDecoder None) request))"

definition SmtpAdapter_handle ::
  "libc \<Rightarrow> 'h smtp_handler \<Rightarrow> 'h \<Rightarrow> smtp_decoder sp_request \<Rightarrow> bytes \<Rightarrow> 'h smtp_session \<Rightarrow>
   (int \<times> bytes \<times> 'h smtp_session \<times> smtp_decoder sp_request) res" where
  "SmtpAdapter_handle lc H create request reply s =
     res_bind
       (if ss_mDataMode s \<noteq> 0 then
          res_bind (chunk_msg lc (rq_mDecoder request)) (\<lambda>d.
            case smtp_call H create (Data d) reply s of (ret, reply', s') \<Rightarrow>
              Inr (ret, reply', SmtpSession_setDataMode 0 s', Request_setMsgDecoder (LineMsgDecoder None) request))
        else if ss_mAuthStep s = eStepUser then
          res_bind (line_msg (rq_mDecoder request)) (\<lambda>line.
            case line of None \<Rightarrow> Inl NullDeref
            | Some l \<Rightarrow> (case smtp_say ''334 UGFzc3dvcmQ6'' reply ((SmtpSession_setUser l s)\<lparr> ss_mAuthStep := eStepPass \<rparr>) of
                (ret, reply', s') \<Rightarrow> Inr (ret, reply', s', request)))
        else if ss_mAuthStep s = eStepPass then
          res_bind (line_msg (rq_mDecoder request)) (\<lambda>line.
            case line of None \<Rightarrow> Inl NullDeref
            | Some l \<Rightarrow>
                let s1 = (SmtpSession_setPass l s)\<lparr> ss_mAuthStep := eStepOther \<rparr>
                in case smtp_call H create (Auth (ss_mUser s1) (ss_mPass s1)) reply s1 of (ret, reply', s') \<Rightarrow>
                     Inr (ret, reply', if ret = eAccept then s'\<lparr> ss_mSeenAuth := 1 \<rparr> else s', request))
        else
          res_bind (line_msg (rq_mDecoder request)) (\<lambda>line.
          res_bind (sp_strtok line 0 128 CHR '' '') (\<lambda>(_, cmd, args).
          res_bind (smtp_command H create cmd args reply s) (\<lambda>(chunks, ret, reply', s').
            Inr (ret, reply', s', if chunks then Request_setMsgDecoder (DotTermChunkMsgDecoder []) request else request)))))
       (\<lambda>(ret, reply', s', request').
          Inr (if ret = eClose then -1 else 0, smtp_end_line reply', s', request'))"


subsection \<open>Connections\<close>

text \<open>The virtual \<open>decode\<close> of the decoder that the request has.\<close>

definition smtp_decode :: "libc \<Rightarrow> sp_buffer \<Rightarrow> smtp_decoder \<Rightarrow> (decode_ret \<times> smtp_decoder \<times> sp_buffer) res" where
  "smtp_decode lc inb d =
     (case d of
        LineMsgDecoder _ \<Rightarrow> res_bind (LineDecoder_decode lc inb) (\<lambda>(r, l, inb'). Inr (r, LineMsgDecoder l, inb'))
      | DotTermChunkMsgDecoder ms \<Rightarrow>
          res_bind (ChunkDecoder_decode lc inb ms) (\<lambda>(r, ms', inb'). Inr (r, DotTermChunkMsgDecoder ms', inb')))"

text \<open>
  The states of a connection: after \<open>start\<close>, whatever bytes arrive, and after each round of
  \<open>decode\<close> and \<open>handle\<close> that keeps it open.
\<close>

inductive smtp_reach :: "libc \<Rightarrow> 'h smtp_handler \<Rightarrow> 'h \<Rightarrow> 'h smtp_session \<Rightarrow> smtp_decoder sp_request \<Rightarrow> sp_buffer \<Rightarrow> bool"
  for lc H create where
  start: "SmtpAdapter_start H create (Request_new d) [] SmtpSession_new = (0, reply, s, request) \<Longrightarrow>
    smtp_reach lc H create s request inb"
| receive: "smtp_reach lc H create s request inb \<Longrightarrow> smtp_reach lc H create s request inb'"
| more: "smtp_reach lc H create s request inb \<Longrightarrow> smtp_decode lc inb (rq_mDecoder request) = Inr (eMoreData, d, inb') \<Longrightarrow>
    smtp_reach lc H create s (Request_setMsgDecoder d request) inb'"
| handle: "smtp_reach lc H create s request inb \<Longrightarrow> smtp_decode lc inb (rq_mDecoder request) = Inr (eOK, d, inb') \<Longrightarrow>
    SmtpAdapter_handle lc H create (Request_setMsgDecoder d request) [] s = Inr (0, reply, s', request') \<Longrightarrow>
    smtp_reach lc H create s' request' inb'"

text \<open>Rounds in which each arriving line is a message.\<close>

fun smtp_lines ::
  "libc \<Rightarrow> 'h smtp_handler \<Rightarrow> 'h \<Rightarrow> bytes list \<Rightarrow> 'h smtp_session \<times> smtp_decoder sp_request \<Rightarrow>
   ('h smtp_session \<times> smtp_decoder sp_request) option" where
  "smtp_lines lc H create [] st = Some st"
| "smtp_lines lc H create (l # ls) (s, request) =
     (case rq_mDecoder request of
        LineMsgDecoder _ \<Rightarrow>
          (case SmtpAdapter_handle lc H create (Request_setMsgDecoder (LineMsgDecoder (Some l)) request) [] s of
             Inr (ret, reply, s', request') \<Rightarrow> if ret = 0 then smtp_lines lc H create ls (s', request') else None
           | Inl _ \<Rightarrow> None)
      | _ \<Rightarrow> None)"

lemma get_line_line: "CR \<notin> set l \<Longrightarrow> LF \<notin> set l \<Longrightarrow> get_line (l @ [LF]) = Some (l, [])"
  by (induction l) auto

lemma smtp_decode_line:
  assumes "libc_good lc" "CR \<notin> set l" "LF \<notin> set l" "length l < 2 ^ 20"
  shows "\<exists>inb'. smtp_decode lc (sample_buffer (l @ [LF]) 1) (LineMsgDecoder x) = Inr (eOK, LineMsgDecoder (Some l), inb')"
proof -
  have "wb_inv (sample_buffer (l @ [LF]) 1)" "wb_off (sample_buffer (l @ [LF]) 1) < 2 ^ 31"
    using assms(4) sample_buffer(1) [of "l @ [LF]" 1] by (simp_all add: sample_buffer(3) mem_limit_def)
  from getLine_contract [OF assms(1) this] show ?thesis using assms(2,3)
    by (auto simp: smtp_decode_def LineDecoder_decode_def sample_buffer(2) get_line_line)
qed

definition plain_line :: "bytes \<Rightarrow> bool" where
  "plain_line l \<longleftrightarrow> CR \<notin> set l \<and> LF \<notin> set l \<and> length l < 2 ^ 20"

lemma smtp_lines_reach:
  assumes "libc_good lc"
  shows "smtp_reach lc H create s request inb \<Longrightarrow> smtp_lines lc H create ls (s, request) = Some (s', request') \<Longrightarrow>
   list_all plain_line ls \<Longrightarrow> smtp_reach lc H create s' request' inb'"
proof (induction ls arbitrary: s request inb)
  case Nil
  then show ?case using smtp_reach.receive by simp
next
  case (Cons l ls)
  then obtain x reply s1 request1 where r: "rq_mDecoder request = LineMsgDecoder x"
    "SmtpAdapter_handle lc H create (Request_setMsgDecoder (LineMsgDecoder (Some l)) request) [] s = Inr (0, reply, s1, request1)"
    "smtp_lines lc H create ls (s1, request1) = Some (s', request')"
    by (auto split: sum.splits smtp_decoder.splits if_splits)
  from smtp_decode_line [OF assms, of l x] Cons.prems(3) obtain inb1 where
    "smtp_decode lc (sample_buffer (l @ [LF]) 1) (rq_mDecoder request) = Inr (eOK, LineMsgDecoder (Some l), inb1)"
    by (auto simp: r(1) plain_line_def)
  from smtp_reach.handle [OF smtp_reach.receive [OF Cons.prems(1)] this r(2)] Cons.IH r(3) Cons.prems(3)
  show ?case by auto
qed

subsection \<open>The order of the calls\<close>

text \<open>What a client may ask for, in the words of RFC 2821 and of the comments in spsmtp.hpp.\<close>

record smtp_proto =
  pr_helo :: bool
  pr_auth :: bool
  pr_sender :: bool
  pr_rcpts :: nat
  pr_data :: bool

definition smtp_proto_new :: smtp_proto where
  "smtp_proto_new = \<lparr> pr_helo = False, pr_auth = False, pr_sender = False, pr_rcpts = 0, pr_data = False \<rparr>"

fun proto_step :: "smtp_call \<Rightarrow> int \<Rightarrow> smtp_proto \<Rightarrow> smtp_proto option" where
  "proto_step (Welcome _ _) ret p = Some p"
| "proto_step (Help _) ret p = Some p"
| "proto_step (Noop _) ret p = Some p"
| "proto_step (Helo _) ret p = (if pr_helo p then None else Some (p\<lparr> pr_helo := ret = eAccept \<rparr>))"
| "proto_step (Ehlo _) ret p = (if pr_helo p then None else Some (p\<lparr> pr_helo := ret = eAccept \<rparr>))"
| "proto_step (Auth _ _) ret p = (if \<not> pr_helo p \<or> pr_auth p then None else Some (p\<lparr> pr_auth := ret = eAccept \<rparr>))"
| "proto_step (From _) ret p = (if \<not> pr_helo p \<or> pr_sender p then None else Some (p\<lparr> pr_sender := ret = eAccept \<rparr>))"
| "proto_step (Rcpt _) ret p = (if \<not> pr_sender p \<or> pr_data p then None
     else Some (if ret = eAccept then p\<lparr> pr_rcpts := Suc (pr_rcpts p) \<rparr> else p))"
| "proto_step (Data _) ret p = (if pr_rcpts p = 0 then None else Some (p\<lparr> pr_data := True \<rparr>))"
| "proto_step Rset ret p = Some (p\<lparr> pr_sender := False, pr_rcpts := 0, pr_data := False \<rparr>)"

fun proto_run :: "(smtp_call \<times> int) list \<Rightarrow> smtp_proto \<Rightarrow> smtp_proto option" where
  "proto_run [] p = Some p"
| "proto_run ((c, ret) # cs) p = (case proto_step c ret p of None \<Rightarrow> None | Some p' \<Rightarrow> proto_run cs p')"

lemma proto_run_snoc:
  "proto_run (cs @ [(c, ret)]) p = (case proto_run cs p of None \<Rightarrow> None | Some p' \<Rightarrow> proto_step c ret p')"
  by (induction cs p rule: proto_run.induct) (auto split: option.splits)

definition smtp_match :: "smtp_proto \<Rightarrow> 'h smtp_session \<Rightarrow> bool" where
  "smtp_match p s \<longleftrightarrow> (pr_helo p \<longleftrightarrow> ss_mSeenHelo s \<noteq> 0) \<and> (pr_auth p \<longleftrightarrow> ss_mSeenAuth s \<noteq> 0) \<and>
     (pr_sender p \<longleftrightarrow> ss_mSeenSender s \<noteq> 0) \<and> int (pr_rcpts p) = ss_mRcptCount s \<and> (pr_data p \<longrightarrow> ss_mSeenData s \<noteq> 0)"

text \<open>What holds between the fields of a session.\<close>

definition smtp_inv :: "'h smtp_session \<Rightarrow> bool" where
  "smtp_inv s \<longleftrightarrow> (ss_mAuthStep s \<noteq> eStepOther \<longrightarrow> ss_mDataMode s = 0 \<and> ss_mSeenHelo s \<noteq> 0 \<and> ss_mSeenAuth s = 0) \<and>
     (ss_mSeenSender s \<noteq> 0 \<longrightarrow> ss_mSeenHelo s \<noteq> 0) \<and> (ss_mRcptCount s \<noteq> 0 \<longrightarrow> ss_mSeenSender s \<noteq> 0) \<and>
     (ss_mDataMode s \<noteq> 0 \<longrightarrow> 0 < ss_mRcptCount s \<and> ss_mSeenData s \<noteq> 0)"

definition handler_of :: "'h \<Rightarrow> 'h smtp_session \<Rightarrow> 'h" where
  "handler_of create s = (case ss_mHandler s of None \<Rightarrow> create | Some h \<Rightarrow> h)"

lemma smtp_call_eq:
  "smtp_call H create c reply s = (case H (handler_of create s) c reply of (ret, reply', h') \<Rightarrow>
     (ret, reply', s\<lparr> ss_mHandler := Some h' \<rparr>))"
  by (simp add: smtp_call_def SmtpSession_getHandler_def handler_of_def split: option.splits)

lemma smtp_call_session:
  assumes "smtp_call H create c reply s = (ret, reply', s1)"
  obtains h' where "s1 = s\<lparr> ss_mHandler := Some h' \<rparr>"
  using assms by (auto simp: smtp_call_eq split: prod.splits)

lemma smtp_handler_update [simp]:
  "smtp_match p (s\<lparr> ss_mHandler := h \<rparr>) = smtp_match p s" "smtp_inv (s\<lparr> ss_mHandler := h \<rparr>) = smtp_inv s"
  by (simp_all add: smtp_match_def smtp_inv_def)

text \<open>The decoder that goes with the mode of the session.\<close>

definition decoder_class :: "'h smtp_session \<Rightarrow> smtp_decoder sp_request \<Rightarrow> bool" where
  "decoder_class s request \<longleftrightarrow> (case rq_mDecoder request of LineMsgDecoder _ \<Rightarrow> ss_mDataMode s = 0
     | DotTermChunkMsgDecoder _ \<Rightarrow> ss_mDataMode s \<noteq> 0)"

lemma smtp_decode_class:
  "smtp_decode lc inb d = Inr (r, d', inb') \<Longrightarrow>
     (case d of LineMsgDecoder _ \<Rightarrow> \<exists>l. d' = LineMsgDecoder l \<and> (r = eOK \<longrightarrow> l \<noteq> None) | DotTermChunkMsgDecoder _ \<Rightarrow> \<exists>ms. d' = DotTermChunkMsgDecoder ms)"
  by (cases d) (auto simp: smtp_decode_def LineDecoder_decode_def res_bind_eq_Inr_iff)

text \<open>
  A handler together with a property of its state that the calls keep as long as they come in an
  order that the protocol allows.
\<close>

locale smtp_observer =
  fixes H :: "'h smtp_handler" and create :: 'h and Q :: "smtp_proto \<Rightarrow> 'h \<Rightarrow> bool"
  assumes fresh: "Q smtp_proto_new create"
    and called: "H h c reply = (ret, reply', h') \<Longrightarrow> Q p h \<Longrightarrow> proto_step c ret p = Some p' \<Longrightarrow> Q p' h'"
begin

definition seen :: "'h smtp_session \<Rightarrow> bool" where
  "seen s \<longleftrightarrow> smtp_inv s \<and> (\<exists>p. smtp_match p s \<and> Q p (handler_of create s))"

lemma seen_call:
  assumes "seen s" "smtp_call H create c reply s = (ret, reply', s1)"
    and "\<And>p. smtp_match p s \<Longrightarrow> \<exists>p'. proto_step c ret p = Some p' \<and> smtp_match p' s2"
    and "smtp_inv s2" "ss_mHandler s2 = ss_mHandler s1"
  shows "seen s2"
proof -
  obtain h' where h: "H (handler_of create s) c reply = (ret, reply', h')" "s1 = s\<lparr> ss_mHandler := Some h' \<rparr>"
    using assms(2) by (auto simp: smtp_call_eq split: prod.splits)
  from assms(1) obtain p where p: "smtp_match p s" "Q p (handler_of create s)" by (auto simp: seen_def)
  from assms(3) [OF p(1)] obtain p' where p': "proto_step c ret p = Some p'" "smtp_match p' s2" by blast
  have "Q p' h'" by (rule called [OF h(1) p(2) p'(1)])
  then show ?thesis using p'(2) assms(4,5) h(2) by (auto simp: seen_def handler_of_def)
qed

lemma seen_field:
  assumes "seen s" "\<And>p. smtp_match p s \<Longrightarrow> smtp_match p s2" "smtp_inv s2" "ss_mHandler s2 = ss_mHandler s"
  shows "seen s2"
  using assms by (auto simp: seen_def handler_of_def)

text \<open>The commands outside of data mode and of an AUTH exchange.\<close>

definition idle :: "'h smtp_session \<Rightarrow> bool" where
  "idle s \<longleftrightarrow> seen s \<and> ss_mDataMode s = 0 \<and> ss_mAuthStep s = eStepOther"

definition kept :: "bool \<Rightarrow> 'h smtp_session \<Rightarrow> bool" where
  "kept chunks s \<longleftrightarrow> seen s \<and> (ss_mDataMode s \<noteq> 0 \<longleftrightarrow> chunks)"

lemma idleD: "idle s \<Longrightarrow> smtp_inv s \<and> seen s \<and> ss_mDataMode s = 0 \<and> ss_mAuthStep s = eStepOther"
  by (simp add: idle_def seen_def)

lemma idle_kept: "idle s \<Longrightarrow> kept False s"
  by (simp add: idle_def kept_def)

lemma idle_say: "idle s \<Longrightarrow> smtp_say line reply s = (ret, reply', s') \<Longrightarrow> kept False s'"
  by (auto simp: smtp_say_def idle_kept)

text \<open>A call of the handler that is followed by a change \<open>f\<close> of the fields.\<close>

lemma idle_call:
  assumes "idle s" "smtp_call H create c reply s = (ret, reply', s1)"
    and "\<And>p. smtp_match p s \<Longrightarrow> smtp_inv s \<Longrightarrow> \<exists>p'. proto_step c ret p = Some p' \<and> smtp_match p' (f s)"
    and "\<And>h. f (s\<lparr> ss_mHandler := Some h \<rparr>) = (f s)\<lparr> ss_mHandler := Some h \<rparr>"
    and "smtp_inv s \<Longrightarrow> ss_mDataMode s = 0 \<Longrightarrow> ss_mAuthStep s = eStepOther \<Longrightarrow> smtp_inv (f s) \<and> ss_mDataMode (f s) = 0"
  shows "kept False (f s1)"
proof -
  obtain h' where s1: "s1 = s\<lparr> ss_mHandler := Some h' \<rparr>" using smtp_call_session [OF assms(2)] by blast
  note s = idleD [OF assms(1)]
  have "seen (f s1)"
    by (rule seen_call [OF _ assms(2)]) (use s assms(3-5) s1 in auto)
  then show ?thesis using assms(4,5) s s1 by (simp add: kept_def)
qed

lemma idle_hello:
  assumes "idle s" "smtp_hello H create meth word args reply s = (ret, reply', s')"
    and meth: "\<And>a ret p. proto_step (meth a) ret p = (if pr_helo p then None else Some (p\<lparr> pr_helo := ret = eAccept \<rparr>))"
  shows "kept False s'"
proof (cases "args \<noteq> None \<and> ss_mSeenHelo s = 0")
  case False
  then have "s' = s" using assms(2) by (auto simp: smtp_hello_def smtp_say_def split: option.splits if_splits)
  then show ?thesis using idle_kept [OF assms(1)] by simp
next
  case True
  then obtain a s1 where c: "smtp_call H create (meth a) reply s = (ret, reply', s1)"
    "s' = (if ret = eAccept then s1\<lparr> ss_mSeenHelo := 1 \<rparr> else s1)"
    using assms(2) by (auto simp: smtp_hello_def split: prod.splits)
  then show ?thesis
    using idle_call [OF assms(1) c(1), where f = "\<lambda>s. if ret = eAccept then s\<lparr> ss_mSeenHelo := 1 \<rparr> else s"] True
    by (cases "ret = eAccept") (auto simp: meth smtp_match_def smtp_inv_def)
qed

lemma idle_AUTH:
  assumes "idle s" "smtp_AUTH args reply s = (ret, reply', s')"
  shows "kept False s'"
proof (cases "s' = s")
  case True
  then show ?thesis using idle_kept [OF assms(1)] by simp
next
  case False
  then have s': "s' = s\<lparr> ss_mAuthStep := eStepUser \<rparr>" "ss_mSeenHelo s \<noteq> 0" "ss_mSeenAuth s = 0"
    using assms(2) by (auto simp: smtp_AUTH_def smtp_say_def split: if_splits option.splits)
  note s = idleD [OF assms(1)]
  have "seen s'"
    by (rule seen_field [of s]) (use s s' in \<open>simp_all add: smtp_match_def smtp_inv_def\<close>)
  then show ?thesis using s s' by (simp add: kept_def)
qed

lemma idle_MAIL:
  assumes "idle s" "smtp_MAIL H create args reply s = (ret, reply', s')"
  shows "kept False s'"
proof (cases "args \<noteq> None \<and> ss_mSeenHelo s \<noteq> 0 \<and> ss_mSeenSender s = 0")
  case False
  then have "s' = s" using assms(2) by (auto simp: smtp_MAIL_def smtp_say_def split: option.splits if_splits)
  then show ?thesis using idle_kept [OF assms(1)] by simp
next
  case True
  then obtain a s1 where c: "smtp_call H create (From a) reply s = (ret, reply', s1)"
    "s' = (if ret = eAccept then s1\<lparr> ss_mSeenSender := 1 \<rparr> else s1)"
    using assms(2) by (auto simp: smtp_MAIL_def split: prod.splits)
  then show ?thesis
    using idle_call [OF assms(1) c(1), where f = "\<lambda>s. if ret = eAccept then s\<lparr> ss_mSeenSender := 1 \<rparr> else s"] True
    by (cases "ret = eAccept") (simp_all add: smtp_match_def smtp_inv_def)
qed

lemma idle_RCPT:
  assumes "idle s" "smtp_RCPT H create args reply s = Inr (ret, reply', s')"
  shows "kept False s'"
proof (cases "args \<noteq> None \<and> ss_mSeenHelo s \<noteq> 0 \<and> ss_mSeenSender s \<noteq> 0 \<and> ss_mSeenData s = 0")
  case False
  then have "s' = s" using assms(2) by (auto simp: smtp_RCPT_def smtp_say_def split: option.splits if_splits)
  then show ?thesis using idle_kept [OF assms(1)] by simp
next
  case True
  then obtain a s1 where c: "smtp_call H create (Rcpt a) reply s = (ret, reply', s1)"
    "s' = (if ret = eAccept then s1\<lparr> ss_mRcptCount := ss_mRcptCount s1 + 1 \<rparr> else s1)"
    using assms(2)
    by (auto simp: smtp_RCPT_def SmtpSession_addRcpt_def res_bind_eq_Inr_iff int_add_def split: prod.splits if_splits)
  have "pr_sender p \<and> \<not> pr_data p \<and> int (pr_rcpts p) = ss_mRcptCount s" if "smtp_match p s" for p
    using that True by (auto simp: smtp_match_def)
  then show ?thesis
    using idle_call [OF assms(1) c(1), where f = "\<lambda>s. if ret = eAccept then s\<lparr> ss_mRcptCount := ss_mRcptCount s + 1 \<rparr> else s"] True c(2)
    by (cases "ret = eAccept") (simp_all add: smtp_match_def smtp_inv_def)
qed

lemma idle_DATA:
  assumes "idle s" "smtp_DATA reply s = (chunks, ret, reply', s')"
  shows "kept chunks s'"
proof (cases chunks)
  case False
  then have "s' = s" using assms(2) by (auto simp: smtp_DATA_def smtp_say_def split: if_splits)
  then show ?thesis using idle_kept [OF assms(1)] False by simp
next
  case True
  then have s': "s' = SmtpSession_setDataMode 1 s" "0 < ss_mRcptCount s"
    using assms(2) by (auto simp: smtp_DATA_def smtp_say_def split: if_splits)
  note s = idleD [OF assms(1)]
  have "seen s'"
    by (rule seen_field [of s]) (use s s' in \<open>simp_all add: smtp_match_def smtp_inv_def SmtpSession_setDataMode_def\<close>)
  then show ?thesis using True s' by (simp add: kept_def SmtpSession_setDataMode_def)
qed

lemma idle_plain_call:
  assumes "idle s" "smtp_call H create c reply s = (ret, reply', s')" "\<And>p. proto_step c ret p = Some p"
  shows "kept False s'"
  using idle_call [OF assms(1,2), where f = "\<lambda>s. s"] assms(3) by simp

lemma idle_RSET:
  assumes "idle s" "smtp_RSET H create reply s = (ret, reply', s')"
  shows "kept False s'"
proof -
  obtain s1 where c: "smtp_call H create Rset reply s = (ret, reply', s1)" "s' = SmtpSession_reset s1"
    using assms(2) by (auto simp: smtp_RSET_def split: prod.splits)
  then show ?thesis
    using idle_call [OF assms(1) c(1), where f = SmtpSession_reset]
    by (simp add: smtp_match_def smtp_inv_def SmtpSession_reset_def)
qed

lemma idle_command:
  assumes "idle s" "smtp_command H create cmd args reply s = Inr (chunks, ret, reply', s')"
  shows "kept chunks s'"
proof -
  let ?c = "strcaseeq cmd"
  consider "?c ''EHLO''" | "\<not> ?c ''EHLO''" "?c ''AUTH''" | "\<not> ?c ''EHLO''" "\<not> ?c ''AUTH''" "?c ''HELO''"
    | "\<not> ?c ''EHLO''" "\<not> ?c ''AUTH''" "\<not> ?c ''HELO''" "?c ''MAIL''"
    | "\<not> ?c ''EHLO''" "\<not> ?c ''AUTH''" "\<not> ?c ''HELO''" "\<not> ?c ''MAIL''" by blast
  then show ?thesis
  proof cases
    case 1
    then show ?thesis using assms(2) idle_hello [OF assms(1)] by (auto simp: smtp_command_def)
  next
    case 2
    then show ?thesis using assms(2) idle_AUTH [OF assms(1)] by (auto simp: smtp_command_def)
  next
    case 3
    then show ?thesis using assms(2) idle_hello [OF assms(1)] by (auto simp: smtp_command_def)
  next
    case 4
    then show ?thesis using assms(2) idle_MAIL [OF assms(1)] by (auto simp: smtp_command_def)
  next
    case 5
    then show ?thesis using assms(2) idle_RCPT [OF assms(1)] idle_DATA [OF assms(1)] idle_RSET [OF assms(1)]
        idle_plain_call [OF assms(1)] idle_say [OF assms(1)] idle_kept [OF assms(1)]
      by (auto simp: smtp_command_def res_bind_eq_Inr_iff split: if_splits)
  qed
qed

definition conn_ok :: "'h smtp_session \<Rightarrow> smtp_decoder sp_request \<Rightarrow> bool" where
  "conn_ok s request \<longleftrightarrow> seen s \<and> decoder_class s request"

lemma conn_ok_handle:
  assumes "conn_ok s request" "SmtpAdapter_handle lc H create request reply s = Inr (r, reply', s', request')"
  shows "conn_ok s' request'"
proof -
  have seen: "seen s" using assms(1) by (simp add: conn_ok_def decoder_class_def)
  then have inv: "smtp_inv s" by (simp add: seen_def)
  consider "ss_mDataMode s \<noteq> 0" | "ss_mDataMode s = 0" "ss_mAuthStep s = eStepUser"
    | "ss_mDataMode s = 0" "ss_mAuthStep s = eStepPass" | "ss_mDataMode s = 0" "ss_mAuthStep s = eStepOther"
    by (metis smtp_step.exhaust)
  then show ?thesis
  proof cases
    case 1
    then obtain d where d: "chunk_msg lc (rq_mDecoder request) = Inr d"
      using assms(2) by (auto simp: SmtpAdapter_handle_def res_bind_eq_Inr_iff)
    obtain ret ry s1 where call: "smtp_call H create (Data d) reply s = (ret, ry, s1)" by (metis prod_cases3)
    with d 1 assms(2) have c: "smtp_call H create (Data d) reply s = (ret, ry, s1)" "s' = SmtpSession_setDataMode 0 s1"
      "request' = Request_setMsgDecoder (LineMsgDecoder None) request"
      by (auto simp: SmtpAdapter_handle_def)
    obtain h' where s1: "s1 = s\<lparr> ss_mHandler := Some h' \<rparr>" using smtp_call_session [OF c(1)] by blast
    have "\<exists>p'. proto_step (Data d) ret p = Some p' \<and> smtp_match p' s'" if "smtp_match p s" for p
      using that 1 inv c(2) s1 by (auto simp: smtp_match_def smtp_inv_def SmtpSession_setDataMode_def)
    then have "seen s'"
      by (rule seen_call [OF seen c(1)])
        (use inv 1 c(2) s1 in \<open>auto simp: smtp_inv_def SmtpSession_setDataMode_def\<close>)
    then show ?thesis using c(2,3) by (simp add: conn_ok_def decoder_class_def Request_setMsgDecoder_def SmtpSession_setDataMode_def)
  next
    case 2
    then obtain l where s': "s' = (SmtpSession_setUser l s)\<lparr> ss_mAuthStep := eStepPass \<rparr>" "request' = request"
      using assms(2) by (auto simp: SmtpAdapter_handle_def smtp_say_def res_bind_eq_Inr_iff split: option.splits)
    have "seen s'"
      by (rule seen_field [OF seen])
        (use inv 2 s' in \<open>auto simp: smtp_match_def smtp_inv_def SmtpSession_setUser_def\<close>)
    then show ?thesis using assms(1) s' by (simp add: conn_ok_def decoder_class_def SmtpSession_setUser_def split: smtp_decoder.splits)
  next
    case 3
    then obtain l where l: "line_msg (rq_mDecoder request) = Inr (Some l)"
      using assms(2) by (auto simp: SmtpAdapter_handle_def res_bind_eq_Inr_iff split: option.splits)
    obtain ret ry s1 where
      call: "smtp_call H create (Auth (ss_mUser s) (sp_strlcpy l 128)) reply ((SmtpSession_setPass l s)\<lparr> ss_mAuthStep := eStepOther \<rparr>) = (ret, ry, s1)"
      by (metis prod_cases3)
    with l 3 assms(2) have
      c: "smtp_call H create (Auth (ss_mUser s) (sp_strlcpy l 128)) reply ((SmtpSession_setPass l s)\<lparr> ss_mAuthStep := eStepOther \<rparr>) = (ret, ry, s1)"
      "s' = (if ret = eAccept then s1\<lparr> ss_mSeenAuth := 1 \<rparr> else s1)" "request' = request"
      by (auto simp: SmtpAdapter_handle_def SmtpSession_setPass_def)
    let ?s = "(SmtpSession_setPass l s)\<lparr> ss_mAuthStep := eStepOther \<rparr>"
    have s: "seen ?s"
      by (rule seen_field [OF seen]) (use inv in \<open>auto simp: smtp_match_def smtp_inv_def SmtpSession_setPass_def\<close>)
    obtain h' where s1: "s1 = ?s\<lparr> ss_mHandler := Some h' \<rparr>" using smtp_call_session [OF c(1)] by blast
    have "\<exists>p'. proto_step (Auth (ss_mUser s) (sp_strlcpy l 128)) ret p = Some p' \<and> smtp_match p' s'" if "smtp_match p ?s" for p
      using that 3 inv c(2) s1 by (auto simp: smtp_match_def smtp_inv_def SmtpSession_setPass_def)
    then have "seen s'"
      by (rule seen_call [OF s c(1)])
        (use inv c(2) s1 in \<open>auto simp: smtp_inv_def SmtpSession_setPass_def\<close>)
    then show ?thesis using assms(1) c(2,3) s1 by (simp add: conn_ok_def decoder_class_def SmtpSession_setPass_def split: smtp_decoder.splits)
  next
    case 4
    then have idle: "idle s" using seen by (simp add: idle_def)
    obtain cmd args chunks ret ry where c: "smtp_command H create cmd args reply s = Inr (chunks, ret, ry, s')"
      "request' = (if chunks then Request_setMsgDecoder (DotTermChunkMsgDecoder []) request else request)"
      using assms(2) 4 by (auto simp: SmtpAdapter_handle_def res_bind_eq_Inr_iff)
    from idle_command [OF idle c(1)] show ?thesis using assms(1) c(2) 4
      by (auto simp: conn_ok_def decoder_class_def kept_def Request_setMsgDecoder_def split: smtp_decoder.splits)
  qed
qed

lemma conn_ok_start:
  assumes "SmtpAdapter_start H create request0 reply SmtpSession_new = (r, reply', s, request)"
  shows "conn_ok s request"
proof -
  have "smtp_inv SmtpSession_new" "smtp_match smtp_proto_new SmtpSession_new" "handler_of create SmtpSession_new = create"
    by (simp_all add: smtp_inv_def smtp_match_def smtp_proto_new_def SmtpSession_new_def SmtpSession_reset_def handler_of_def)
  then have new: "seen SmtpSession_new" "ss_mDataMode SmtpSession_new = 0" "ss_mAuthStep SmtpSession_new = eStepOther" using fresh
    by (auto simp: seen_def SmtpSession_new_def SmtpSession_reset_def)
  then have "idle SmtpSession_new" by (simp add: idle_def)
  then show ?thesis using assms idle_plain_call [of SmtpSession_new "Welcome (rq_mClientIP request0) (rq_mServerIP request0)" reply]
    by (auto simp: SmtpAdapter_start_def conn_ok_def decoder_class_def kept_def Request_setMsgDecoder_def split: prod.splits)
qed

lemma conn_ok_decode:
  "conn_ok s request \<Longrightarrow> smtp_decode lc inb (rq_mDecoder request) = Inr (r, d, inb') \<Longrightarrow> conn_ok s (Request_setMsgDecoder d request)"
  by (drule smtp_decode_class) (auto simp: conn_ok_def decoder_class_def Request_setMsgDecoder_def split: smtp_decoder.splits)

lemma conn_ok_reach: "smtp_reach lc H create s request inb \<Longrightarrow> conn_ok s request"
  by (induction rule: smtp_reach.induct) (auto dest: conn_ok_start conn_ok_decode conn_ok_handle)

end


text \<open>A handler that writes down its calls and their answers.\<close>

definition smtp_logging :: "'h smtp_handler \<Rightarrow> ('h \<times> (smtp_call \<times> int) list) smtp_handler" where
  "smtp_logging H hl c reply =
     (case H (fst hl) c reply of (ret, reply', h') \<Rightarrow> (ret, reply', (h', snd hl @ [(c, ret)])))"

interpretation any: smtp_observer H create "\<lambda>p h. True" for H :: "'h smtp_handler" and create :: 'h
  by unfold_locales simp

interpretation logged: smtp_observer "smtp_logging H" "(create, [])" "\<lambda>p hl. proto_run (snd hl) smtp_proto_new = Some p"
  for H :: "'h smtp_handler" and create :: 'h
  by unfold_locales (auto simp: smtp_logging_def proto_run_snoc split: prod.splits)

lemma mem_put_faults: "mem_put i xs m = Inl f \<Longrightarrow> f = OutOfBounds"
  by (auto simp: mem_put_def split: if_splits)

lemma unstuff_loop_faults: "unstuff_loop m src des = Inl f \<Longrightarrow> f = OutOfBounds"
proof (induction m src des rule: unstuff_loop.induct)
  case (1 m src des)
  show ?case
    using 1(2) 1(1) [OF _ _ refl] mem_put_faults [of des "[NUL]" m f] unstuff_loop.simps [of m src des]
    by (auto simp: Let_def split: if_splits)
qed

lemma chunk_msg_faults:
  "libc_good lc \<Longrightarrow> chunk_msg lc (DotTermChunkMsgDecoder ms) = Inl f \<Longrightarrow> f = OutOfBounds"
  by (auto simp: chunk_msg_def ChunkDecoder_getMsg_def libc_good_def Let_def res_bind_def dest: unstuff_loop_faults split: sum.splits)

lemma sp_strtok_total: "0 < len \<Longrightarrow> \<exists>r. sp_strtok (Some l) i len d = Inr r"
  by (auto simp: sp_strtok_def Let_def split: option.splits)

lemma smtp_command_faults:
  assumes "smtp_inv s" "smtp_command H create cmd args reply s = Inl f"
  shows "f = SignedOverflow \<and> \<not> int_ok (ss_mRcptCount s + 1)"
proof -
  have "smtp_RCPT H create args reply s = Inl f"
    using assms(2) by (auto simp: smtp_command_def res_bind_def split: if_splits sum.splits)
  then obtain a ret ry s1 where "smtp_call H create a reply s = (ret, ry, s1)" "SmtpSession_addRcpt s1 = Inl f"
    by (auto simp: smtp_RCPT_def res_bind_def split: if_splits option.splits prod.splits sum.splits)
  then show ?thesis
    by (auto simp: smtp_call_eq SmtpSession_addRcpt_def int_add_def split: prod.splits if_splits)
qed

text \<open>A handler that accepts everything, and the lines of a client in front of a mail.\<close>

definition sample_smtp :: "unit smtp_handler" where
  "sample_smtp h c reply = (eAccept, reply @ ''250 OK'' @ [LF], ())"

definition sample_lines :: "bytes list" where
  "sample_lines = [''EHLO me'', ''MAIL FROM:<a>'', ''rcpt to: <b>'', ''DATA'']"

definition smtp_start :: "'h smtp_handler \<Rightarrow> 'h \<Rightarrow> 'h smtp_session \<times> smtp_decoder sp_request" where
  "smtp_start H create =
     (case SmtpAdapter_start H create (Request_new (LineMsgDecoder None)) [] SmtpSession_new of (r, reply, s, request) \<Rightarrow> (s, request))"

lemma smtp_start_reach:
  assumes "fst (SmtpAdapter_start H create (Request_new (LineMsgDecoder None)) [] SmtpSession_new) = 0"
  shows "smtp_reach lc H create (fst (smtp_start H create)) (snd (smtp_start H create)) inb"
proof -
  obtain reply s request where "SmtpAdapter_start H create (Request_new (LineMsgDecoder None)) [] SmtpSession_new = (0, reply, s, request)"
    using assms by (cases "SmtpAdapter_start H create (Request_new (LineMsgDecoder None)) [] SmtpSession_new") auto
  then show ?thesis using smtp_reach.start by (simp add: smtp_start_def)
qed

definition sample_mail :: "unit smtp_session \<times> smtp_decoder sp_request" where
  "sample_mail = the (smtp_lines libc_plain sample_smtp () sample_lines (smtp_start sample_smtp ()))"

definition logged_mail :: "(unit \<times> (smtp_call \<times> int) list) smtp_session \<times> smtp_decoder sp_request" where
  "logged_mail = the (smtp_lines libc_plain (smtp_logging sample_smtp) ((), []) sample_lines (smtp_start (smtp_logging sample_smtp) ((), [])))"

text \<open>No allocation happens up to there, so the samples do not depend on the C library.\<close>

definition mail_state :: "'h smtp_session \<times> smtp_decoder sp_request \<Rightarrow> bool" where
  "mail_state st \<longleftrightarrow> ss_mDataMode (fst st) = 1 \<and> rq_mDecoder (snd st) = DotTermChunkMsgDecoder [] \<and> ss_mRcptCount (fst st) = 1"

lemma sample_lines_state:
  "fst (SmtpAdapter_start sample_smtp () (Request_new (LineMsgDecoder None)) [] SmtpSession_new) = 0"
  "(case smtp_lines lc sample_smtp () sample_lines (smtp_start sample_smtp ()) of None \<Rightarrow> False | Some st \<Rightarrow> mail_state st)"
  "fst (SmtpAdapter_start (smtp_logging sample_smtp) ((), []) (Request_new (LineMsgDecoder None)) [] SmtpSession_new) = 0"
  "(case smtp_lines lc (smtp_logging sample_smtp) ((), []) sample_lines (smtp_start (smtp_logging sample_smtp) ((), [])) of
     None \<Rightarrow> False | Some st \<Rightarrow> mail_state st)"
  by code_simp+

lemma smtp_lines_sample:
  assumes "fst (SmtpAdapter_start H create (Request_new (LineMsgDecoder None)) [] SmtpSession_new) = 0"
    and "case smtp_lines libc_plain H create sample_lines (smtp_start H create) of None \<Rightarrow> False | Some st \<Rightarrow> mail_state st"
    and "m = the (smtp_lines libc_plain H create sample_lines (smtp_start H create))"
  shows "smtp_reach libc_plain H create (fst m) (snd m) inb \<and> mail_state m"
proof -
  have "list_all plain_line sample_lines" by (simp add: sample_lines_def plain_line_def)
  moreover have "smtp_lines libc_plain H create sample_lines (fst (smtp_start H create), snd (smtp_start H create)) = Some (fst m, snd m)"
    "mail_state m" using assms(2,3) by (auto split: option.splits)
  ultimately show ?thesis using smtp_lines_reach [OF libc_plain_good smtp_start_reach [OF assms(1)]] by blast
qed

lemma sample_mail_reach: "smtp_reach libc_plain sample_smtp () (fst sample_mail) (snd sample_mail) inb"
  and sample_mail_mode: "ss_mDataMode (fst sample_mail) \<noteq> 0"
  using smtp_lines_sample [OF sample_lines_state(1,2) sample_mail_def] by (auto simp: mail_state_def)

lemma logged_mail_reach:
  "smtp_reach libc_plain (smtp_logging sample_smtp) ((), []) (fst logged_mail) (snd logged_mail) inb"
  using smtp_lines_sample [OF sample_lines_state(3,4) logged_mail_def] by blast

text \<open>
  C15: The two casts of the decoder are right: in every state that a connection can reach, once the
  decoder has a message, \<open>handle\<close> finds the class it casts to and a line that is not NULL. It
  faults only while it joins the chunks of a mail, or when the count of recipients overflows, and
  otherwise the reply has a line end.
\<close>

theorem Smtp_decoder_class:
  assumes "smtp_reach lc H create s request inb" "smtp_decode lc inb (rq_mDecoder request) = Inr (eOK, d, inb')" "libc_good lc"
  shows "case SmtpAdapter_handle lc H create (Request_setMsgDecoder d request) reply s of
      Inr (r, reply', s', request') \<Rightarrow> LF \<in> set reply' \<and> decoder_class s' request'
    | Inl f \<Rightarrow> (f = OutOfBounds \<and> ss_mDataMode s \<noteq> 0) \<or> (f = SignedOverflow \<and> int_max \<le> ss_mRcptCount s)"
proof -
  let ?req = "Request_setMsgDecoder d request"
  have ok: "any.conn_ok create s request" by (rule any.conn_ok_reach [OF assms(1)])
  have ok': "any.conn_ok create s ?req" by (rule any.conn_ok_decode [OF ok assms(2)])
  then have inv: "smtp_inv s" by (simp add: any.conn_ok_def decoder_class_def any.seen_def)
  show ?thesis
  proof (cases "SmtpAdapter_handle lc H create ?req reply s")
    case (Inr x)
    then obtain r reply' s' request' where x: "x = (r, reply', s', request')" by (cases x) auto
    have "LF \<in> set (smtp_end_line ry)" for ry by (simp add: smtp_end_line_def)
    then have "LF \<in> set reply'" using Inr x by (auto simp: SmtpAdapter_handle_def res_bind_eq_Inr_iff)
    moreover have "decoder_class s' request'"
      using any.conn_ok_handle [OF ok' Inr [unfolded x]] by (simp add: any.conn_ok_def)
    ultimately show ?thesis using Inr x by simp
  next
    case (Inl f)
    show ?thesis
    proof (cases "ss_mDataMode s = 0")
      case False
      then obtain ms where "d = DotTermChunkMsgDecoder ms"
        using ok' by (auto simp: any.conn_ok_def decoder_class_def Request_setMsgDecoder_def split: smtp_decoder.splits)
      moreover have "chunk_msg lc d = Inl f" using Inl False
        by (auto simp: SmtpAdapter_handle_def Request_setMsgDecoder_def res_bind_def split: sum.splits prod.splits)
      ultimately show ?thesis using Inl False chunk_msg_faults [OF assms(3)] by simp
    next
      case True
      then obtain l where "d = LineMsgDecoder (Some l)" using ok' smtp_decode_class [OF assms(2)]
        by (auto simp: any.conn_ok_def decoder_class_def Request_setMsgDecoder_def split: smtp_decoder.splits)
      then have line: "line_msg (rq_mDecoder ?req) = Inr (Some l)" by (simp add: line_msg_def Request_setMsgDecoder_def)
      obtain n cmd args where tok: "sp_strtok (Some l) 0 128 CHR '' '' = Inr (n, cmd, args)"
        using sp_strtok_total [of 128 l 0] by fastforce
      have "ss_mAuthStep s = eStepOther" using Inl True line
        by (cases "ss_mAuthStep s") (auto simp: SmtpAdapter_handle_def Let_def smtp_say_def split: prod.splits)
      then have "smtp_command H create cmd args reply s = Inl f" using Inl True line tok
        by (auto simp: SmtpAdapter_handle_def res_bind_def split: sum.splits)
      moreover have "0 \<le> ss_mRcptCount s" using ok' by (auto simp: any.conn_ok_def any.seen_def smtp_match_def)
      ultimately show ?thesis using smtp_command_faults [OF inv] Inl by (fastforce simp: int_ok_def int_max_def)
    qed
  qed
qed

theorem Smtp_decoder_class_witness:
  "case SmtpAdapter_handle libc_plain sample_smtp ()
      (Request_setMsgDecoder (LineMsgDecoder (Some ''NOOP'')) (snd (smtp_start sample_smtp ()))) [] (fst (smtp_start sample_smtp ())) of
      Inr (r, reply', s', request') \<Rightarrow> LF \<in> set reply' \<and> decoder_class s' request'
    | Inl f \<Rightarrow> (f = OutOfBounds \<and> ss_mDataMode (fst (smtp_start sample_smtp ())) \<noteq> 0) \<or>
        (f = SignedOverflow \<and> int_max \<le> ss_mRcptCount (fst (smtp_start sample_smtp ())))"
proof -
  have "rq_mDecoder (snd (smtp_start sample_smtp ())) = LineMsgDecoder None" by code_simp
  moreover from smtp_decode_line [OF libc_plain_good, of "''NOOP''" None] obtain inb' where
    "smtp_decode libc_plain (sample_buffer (''NOOP'' @ [LF]) 1) (LineMsgDecoder None) = Inr (eOK, LineMsgDecoder (Some ''NOOP''), inb')"
    by auto
  ultimately show ?thesis
    by (intro Smtp_decoder_class [OF smtp_start_reach [OF sample_lines_state(1)] _ libc_plain_good]) simp
qed

text \<open>
  C14: Whatever a client sends, the calls that the user's handler sees come in the order that the
  comments of the handler promise: a greeting before everything else and once, AUTH once and after
  it, a sender after the greeting, recipients after an accepted sender, the data only when a
  recipient has been accepted since then, and no recipient between the data and the next RSET.
\<close>

theorem Smtp_calls_in_order:
  assumes "smtp_reach lc (smtp_logging H) (create, []) s request inb"
  shows "\<exists>p. proto_run (snd (handler_of (create, []) s)) smtp_proto_new = Some p \<and> smtp_match p s"
  using logged.conn_ok_reach [OF assms] by (auto simp: logged.conn_ok_def decoder_class_def logged.seen_def)

theorem Smtp_calls_in_order_witness:
  "\<exists>p. proto_run (snd (handler_of ((), []) (fst logged_mail))) smtp_proto_new = Some p \<and> smtp_match p (fst logged_mail)"
  by (rule Smtp_calls_in_order [OF logged_mail_reach])

lemma MAIL_only:
  assumes "strcaseeq cmd ''MAIL''"
  shows "\<not> strcaseeq cmd ''EHLO''" "\<not> strcaseeq cmd ''AUTH''" "\<not> strcaseeq cmd ''HELO''"
proof -
  have "\<not> strcaseeq ''EHLO'' ''MAIL''" "\<not> strcaseeq ''AUTH'' ''MAIL''" "\<not> strcaseeq ''HELO'' ''MAIL''" by code_simp+
  then show "\<not> strcaseeq cmd ''EHLO''" "\<not> strcaseeq cmd ''AUTH''" "\<not> strcaseeq cmd ''HELO''"
    using assms strcaseeq_sym strcaseeq_trans by blast+
qed

text \<open>
  A connection carries one mail: the session is not reset when a mail has been taken, so until
  the client sends RSET every further MAIL is refused as a second sender of the mail that is gone.
\<close>

theorem Smtp_second_mail_refused:
  assumes "smtp_reach lc H create s request inb" "ss_mDataMode s \<noteq> 0"
    and "SmtpAdapter_handle lc H create (Request_setMsgDecoder (DotTermChunkMsgDecoder ms) request) reply s = Inr (0, reply1, s1, request1)"
    and "sp_strtok (Some line) 0 128 CHR '' '' = Inr (n, cmd, args)" "strcaseeq cmd ''MAIL''"
    and "request2 = Request_setMsgDecoder (LineMsgDecoder (Some line)) request1"
  shows "SmtpAdapter_handle lc H create request2 [] s1 = Inr (0, ''503 Sender already specified.'' @ [CR, LF], s1, request2)"
proof -
  have inv: "smtp_inv s" using any.conn_ok_reach [OF assms(1)] by (simp add: any.conn_ok_def any.seen_def)
  obtain d where d: "chunk_msg lc (DotTermChunkMsgDecoder ms) = Inr d"
    using assms(2,3) by (auto simp: SmtpAdapter_handle_def res_bind_eq_Inr_iff Request_setMsgDecoder_def)
  obtain ret ry s' where call: "smtp_call H create (Data d) reply s = (ret, ry, s')" by (metis prod_cases3)
  with d assms(2,3) have s1: "s1 = SmtpSession_setDataMode 0 s'" by (auto simp: SmtpAdapter_handle_def Request_setMsgDecoder_def)
  obtain h' where "s' = s\<lparr> ss_mHandler := Some h' \<rparr>" using smtp_call_session [OF call] by blast
  then have f: "ss_mDataMode s1 = 0" "ss_mAuthStep s1 = eStepOther" "ss_mSeenHelo s1 \<noteq> 0" "ss_mSeenSender s1 \<noteq> 0"
    using inv assms(2) s1 by (auto simp: smtp_inv_def SmtpSession_setDataMode_def)
  have "smtp_command H create cmd args [] s1 = Inr (False, smtp_say ''503 Sender already specified.'' [] s1)"
    using f MAIL_only [OF assms(5)] assms(5) by (simp add: smtp_command_def smtp_MAIL_def)
  then show ?thesis using f assms(4,6)
    by (simp add: SmtpAdapter_handle_def line_msg_def Request_setMsgDecoder_def smtp_say_def smtp_end_line_def eAccept_def eClose_def)
qed

theorem Smtp_second_mail_refused_witness:
  "\<exists>reply1 s1 request1.
     SmtpAdapter_handle libc_plain sample_smtp () (Request_setMsgDecoder (DotTermChunkMsgDecoder [sample_buffer ''Hello'' 1]) (snd sample_mail))
       [] (fst sample_mail) = Inr (0, reply1, s1, request1) \<and>
     SmtpAdapter_handle libc_plain sample_smtp () (Request_setMsgDecoder (LineMsgDecoder (Some ''MAIL FROM:<c>'')) request1) [] s1 =
       Inr (0, ''503 Sender already specified.'' @ [CR, LF], s1, Request_setMsgDecoder (LineMsgDecoder (Some ''MAIL FROM:<c>'')) request1)"
proof -
  let ?request = "Request_setMsgDecoder (DotTermChunkMsgDecoder [sample_buffer ''Hello'' 1]) (snd sample_mail)"
  have "unstuff_loop (''Hello'' @ [NUL]) 1 1 = Inr (''Hello'' @ [NUL])" "cstr (''Hello'' @ [NUL]) = ''Hello''" by code_simp+
  then have "chunk_msg libc_plain (rq_mDecoder ?request) = Inr ''Hello''"
    by (simp add: chunk_msg_def ChunkDecoder_getMsg_def libc_plain_def sample_buffer(2) Request_setMsgDecoder_def)
  then obtain reply1 s1 request1 where
    h: "SmtpAdapter_handle libc_plain sample_smtp () ?request [] (fst sample_mail) = Inr (0, reply1, s1, request1)"
    using sample_mail_mode by (auto simp: SmtpAdapter_handle_def smtp_call_eq sample_smtp_def eAccept_def eClose_def)
  have "sp_strtok (Some ''MAIL FROM:<c>'') 0 128 CHR '' '' = Inr (0, ''MAIL'', Some ''FROM:<c>'')" by code_simp
  from Smtp_second_mail_refused [OF sample_mail_reach sample_mail_mode h this _ refl] h show ?thesis by simp
qed

end
