(* ===== verification/SP_EventHeap.thy ===== *)
theory SP_EventHeap
  imports SP_CString "HOL-Library.Product_Lexorder" "HOL-Library.Multiset"
begin

text \<open>
  The timers of the completion port server (spiocpevent.cpp, spwin32iocp.cpp): the binary heap
  \<open>SP_IocpEventHeap\<close> of pointers to events, where each event knows its place, the loop that fires
  the events that are due, and the time that the loop waits for the next one. An event is a number;
  its fields \<open>mHeapIndex\<close> and \<open>mTimeout\<close> are maps in the state. Times are pairs of seconds and
  microseconds, compared lexicographically.
\<close>

subsection \<open>SP_IocpEventHeap\<close>

record ev_heap =
  hp_mEntries :: "nat list"
  hp_mMaxCount :: nat
  hp_mCount :: nat
  hp_mHeapIndex :: "nat \<Rightarrow> int"
  hp_mTimeout :: "nat \<Rightarrow> int \<times> int"

text \<open>The events exist before the heap; those that are in no heap have the index -1.\<close>

definition EventHeap_new :: "(nat \<Rightarrow> int \<times> int) \<Rightarrow> ev_heap" where
  "EventHeap_new tmo = \<lparr> hp_mEntries = [], hp_mMaxCount = 0, hp_mCount = 0, hp_mHeapIndex = (\<lambda>_. -1), hp_mTimeout = tmo \<rparr>"

definition EventHeap_getCount :: "ev_heap \<Rightarrow> int" where
  "EventHeap_getCount h = int (hp_mCount h)"

definition EventHeap_isGreater :: "nat \<Rightarrow> nat \<Rightarrow> ev_heap \<Rightarrow> bool" where
  "EventHeap_isGreater item1 item2 h =
     (case (hp_mTimeout h item1, hp_mTimeout h item2) of ((sec1, usec1), (sec2, usec2)) \<Rightarrow>
        if sec1 = sec2 then usec2 < usec1 else sec2 < sec1)"

definition heap_at :: "ev_heap \<Rightarrow> nat \<Rightarrow> nat res" where
  "heap_at h i = (if i < length (hp_mEntries h) then Inr (hp_mEntries h ! i) else Inl OutOfBounds)"

text \<open>\<open>mEntries[ index ] = item; item->mHeapIndex = index\<close>\<close>

definition heap_set :: "nat \<Rightarrow> nat \<Rightarrow> ev_heap \<Rightarrow> ev_heap" where
  "heap_set index item h = h\<lparr> hp_mEntries := (hp_mEntries h)[index := item],
     hp_mHeapIndex := (hp_mHeapIndex h)(item := int index) \<rparr>"

definition heap_put :: "nat \<Rightarrow> nat \<Rightarrow> ev_heap \<Rightarrow> ev_heap res" where
  "heap_put index item h = (if index < length (hp_mEntries h) then Inr (heap_set index item h) else Inl OutOfBounds)"

text \<open>\<open>realloc\<close> of the array may be refused; new entries are not read before they are written.\<close>

definition EventHeap_reserve :: "(nat \<Rightarrow> bool) \<Rightarrow> nat \<Rightarrow> ev_heap \<Rightarrow> int \<times> ev_heap" where
  "EventHeap_reserve alloc need h =
     (if hp_mMaxCount h < need then
        let maxCount0 = (if hp_mMaxCount h \<noteq> 0 then hp_mMaxCount h * 2 else 8);
            maxCount = (if maxCount0 < need then need else maxCount0)
        in if \<not> alloc maxCount then (-1, h)
           else (0, h\<lparr> hp_mEntries := hp_mEntries h @ replicate (maxCount - length (hp_mEntries h)) 0,
                       hp_mMaxCount := maxCount \<rparr>)
      else (0, h))"

function EventHeap_shiftUp :: "nat \<Rightarrow> nat \<Rightarrow> ev_heap \<Rightarrow> ev_heap res" where
  "EventHeap_shiftUp index item h =
     (if index = 0 then heap_put index item h
      else case heap_at h ((index - 1) div 2) of
          Inl f \<Rightarrow> Inl f
        | Inr p \<Rightarrow>
            if EventHeap_isGreater p item h then
              (if index < length (hp_mEntries h)
               then EventHeap_shiftUp ((index - 1) div 2) item (heap_set index p h)
               else Inl OutOfBounds)
            else heap_put index item h)"
  by pat_completeness auto
termination
  by (relation "measure (\<lambda>(index, item, h). index)") auto

declare EventHeap_shiftUp.simps [simp del]

text \<open>\<open>minChild -= ( minChild == mCount || isGreater( mEntries[ minChild ], mEntries[ minChild - 1 ] ) )\<close>\<close>

definition min_child :: "nat \<Rightarrow> ev_heap \<Rightarrow> nat res" where
  "min_child c h =
     (if c = hp_mCount h then Inr (c - 1)
      else res_bind (heap_at h c) (\<lambda>a. res_bind (heap_at h (c - 1)) (\<lambda>b.
             Inr (if EventHeap_isGreater a b h then c - 1 else c))))"

lemma min_child_props: "min_child c h = Inr c' \<Longrightarrow> c' = c \<or> c' = c - 1"
  by (auto simp: min_child_def res_bind_eq_Inr_iff split: if_splits)

lemma heap_set_count [simp]: "hp_mCount (heap_set i x h) = hp_mCount h"
  by (simp add: heap_set_def)

function EventHeap_shiftDown :: "nat \<Rightarrow> nat \<Rightarrow> ev_heap \<Rightarrow> ev_heap res" where
  "EventHeap_shiftDown index item h =
     (if 2 * (index + 1) \<le> hp_mCount h then
        (case min_child (2 * (index + 1)) h of
           Inl f \<Rightarrow> Inl f
         | Inr c \<Rightarrow>
             (case heap_at h c of
                Inl f \<Rightarrow> Inl f
              | Inr e \<Rightarrow>
                  if \<not> EventHeap_isGreater item e h then EventHeap_shiftUp index item h
                  else if index < length (hp_mEntries h)
                  then EventHeap_shiftDown c item (heap_set index e h)
                  else Inl OutOfBounds))
      else EventHeap_shiftUp index item h)"
  by pat_completeness auto
termination
  by (relation "measure (\<lambda>(index, item, h). hp_mCount h - index)") (auto dest!: min_child_props)

declare EventHeap_shiftDown.simps [simp del]

definition EventHeap_push :: "(nat \<Rightarrow> bool) \<Rightarrow> nat \<Rightarrow> ev_heap \<Rightarrow> (int \<times> ev_heap) res" where
  "EventHeap_push alloc item h =
     (case EventHeap_reserve alloc (hp_mCount h + 1) h of (r, h1) \<Rightarrow>
        if r \<noteq> 0 then Inr (-1, h1)
        else res_bind (EventHeap_shiftUp (hp_mCount h1) item (h1\<lparr> hp_mCount := hp_mCount h1 + 1 \<rparr>)) (\<lambda>h2. Inr (0, h2)))"

definition EventHeap_top :: "ev_heap \<Rightarrow> nat option res" where
  "EventHeap_top h = (if hp_mCount h \<noteq> 0 then res_bind (heap_at h 0) (\<lambda>e. Inr (Some e)) else Inr None)"

definition heap_out :: "nat \<Rightarrow> ev_heap \<Rightarrow> ev_heap" where
  "heap_out item h = h\<lparr> hp_mHeapIndex := (hp_mHeapIndex h)(item := -1) \<rparr>"

definition EventHeap_pop :: "ev_heap \<Rightarrow> (nat option \<times> ev_heap) res" where
  "EventHeap_pop h =
     (if hp_mCount h \<noteq> 0 then
        res_bind (heap_at h 0) (\<lambda>ret.
        res_bind (heap_at h (hp_mCount h - 1)) (\<lambda>last.
        res_bind (EventHeap_shiftDown 0 last (h\<lparr> hp_mCount := hp_mCount h - 1 \<rparr>)) (\<lambda>h1.
          Inr (Some ret, heap_out ret h1))))
      else Inr (None, h))"

definition EventHeap_erase :: "nat \<Rightarrow> ev_heap \<Rightarrow> (int \<times> ev_heap) res" where
  "EventHeap_erase item h =
     (if hp_mHeapIndex h item \<noteq> -1 then
        (if hp_mCount h = 0 then Inl OutOfBounds
         else res_bind (heap_at h (hp_mCount h - 1)) (\<lambda>last.
              res_bind (EventHeap_shiftDown (nat (hp_mHeapIndex h item)) last (h\<lparr> hp_mCount := hp_mCount h - 1 \<rparr>)) (\<lambda>h1.
                Inr (0, heap_out item h1))))
      else Inr (-1, h))"

subsection \<open>Heap order\<close>

definition par :: "nat \<Rightarrow> nat" where "par i = (i - 1) div 2"

lemma par_less: "i \<noteq> 0 \<Longrightarrow> par i < i"
  by (simp add: par_def)

lemma par_children: "par i = k \<and> i \<noteq> 0 \<longleftrightarrow> i = 2 * k + 1 \<or> i = 2 * k + 2"
  by (auto simp: par_def)

lemma isGreater_eq: "EventHeap_isGreater a b h \<longleftrightarrow> hp_mTimeout h b < hp_mTimeout h a"
  by (auto simp: EventHeap_isGreater_def less_prod_def split: prod.splits)

definition ordered :: "(nat \<Rightarrow> int \<times> int) \<Rightarrow> nat list \<Rightarrow> bool" where
  "ordered key xs \<longleftrightarrow> (\<forall>i < length xs. i \<noteq> 0 \<longrightarrow> key (xs ! par i) \<le> key (xs ! i))"

text \<open>The order is broken at most between \<open>k\<close> and its parent, or at most around \<open>k\<close>.\<close>

definition except_up :: "(nat \<Rightarrow> int \<times> int) \<Rightarrow> nat list \<Rightarrow> nat \<Rightarrow> bool" where
  "except_up key xs k \<longleftrightarrow>
     (\<forall>i < length xs. i \<noteq> 0 \<longrightarrow> i \<noteq> k \<longrightarrow> key (xs ! par i) \<le> key (xs ! i)) \<and>
     (\<forall>i < length xs. i \<noteq> 0 \<longrightarrow> k \<noteq> 0 \<longrightarrow> par i = k \<longrightarrow> key (xs ! par k) \<le> key (xs ! i))"

definition except_at :: "(nat \<Rightarrow> int \<times> int) \<Rightarrow> nat list \<Rightarrow> nat \<Rightarrow> bool" where
  "except_at key xs k \<longleftrightarrow>
     (\<forall>i < length xs. i \<noteq> 0 \<longrightarrow> i \<noteq> k \<longrightarrow> par i \<noteq> k \<longrightarrow> key (xs ! par i) \<le> key (xs ! i)) \<and>
     (\<forall>i < length xs. i \<noteq> 0 \<longrightarrow> k \<noteq> 0 \<longrightarrow> par i = k \<longrightarrow> key (xs ! par k) \<le> key (xs ! i))"

definition swap :: "nat \<Rightarrow> nat \<Rightarrow> nat list \<Rightarrow> nat list" where
  "swap i j xs = xs[i := xs ! j, j := xs ! i]"

lemma swap_length [simp]: "length (swap i j xs) = length xs"
  by (simp add: swap_def)

lemma swap_nth: "i < length xs \<Longrightarrow> j < length xs \<Longrightarrow> k < length xs \<Longrightarrow>
    swap i j xs ! k = (if k = j then xs ! i else if k = i then xs ! j else xs ! k)"
  by (simp add: swap_def nth_list_update)

lemma swap_mset: "i < length xs \<Longrightarrow> j < length xs \<Longrightarrow> mset (swap i j xs) = mset xs"
  using mset_swap [of j xs i] by (simp add: swap_def)

lemma except_up_done:
  assumes "except_up key xs k" "k < length xs" "k = 0 \<or> key (xs ! par k) \<le> key (xs ! k)"
  shows "ordered key xs"
  using assms by (auto simp: except_up_def ordered_def)

lemma except_up_swap:
  assumes "except_up key xs k" "k < length xs" "k \<noteq> 0" "key (xs ! k) < key (xs ! par k)"
  shows "except_up key (swap k (par k) xs) (par k)"
proof -
  let ?p = "par k" and ?ys = "swap k (par k) xs"
  have p: "?p < k" using par_less assms(3) by simp
  have nth: "?ys ! i = (if i = ?p then xs ! k else if i = k then xs ! ?p else xs ! i)" if "i < length xs" for i
    using swap_nth [of k xs ?p i] p assms(2) that by simp
  have ord: "key (xs ! par i) \<le> key (xs ! i)" if "i < length xs" "i \<noteq> 0" "i \<noteq> k" for i
    using assms(1) that by (simp add: except_up_def)
  have up: "key (xs ! ?p) \<le> key (xs ! i)" if "i < length xs" "i \<noteq> 0" "par i = k" for i
    using assms(1,3) that by (simp add: except_up_def)
  have "key (?ys ! par i) \<le> key (?ys ! i)" if i: "i < length xs" "i \<noteq> 0" "i \<noteq> ?p" for i
  proof -
    have pi: "par i < length xs" using par_less [OF i(2)] i(1) by simp
    consider "i = k" | "par i = k" | "i \<noteq> k" "par i = ?p" | "i \<noteq> k" "par i \<noteq> k" "par i \<noteq> ?p" by blast
    then show ?thesis
    proof cases
      case 1
      then show ?thesis using nth [of k] nth [of ?p] p assms(2,4) by simp
    next
      case 2
      then have "i \<noteq> k" using par_less [OF i(2)] by auto
      then show ?thesis using 2 nth [OF i(1)] nth [OF pi] i up [OF i(1,2) 2] p by simp
    next
      case 3
      then have "key (xs ! k) \<le> key (xs ! i)" using ord [OF i(1,2)] assms(4) by (metis less_imp_le order_trans)
      then show ?thesis using 3 nth [OF i(1)] nth [OF pi] i by simp
    next
      case 4
      then show ?thesis using nth [OF i(1)] nth [OF pi] i ord [OF i(1,2)] by simp
    qed
  qed
  moreover have "key (?ys ! par ?p) \<le> key (?ys ! i)" if i: "i < length xs" "i \<noteq> 0" "?p \<noteq> 0" "par i = ?p" for i
  proof -
    have pp: "par ?p < ?p" using par_less i(3) by simp
    have "key (xs ! par ?p) \<le> key (xs ! ?p)" using ord [of ?p] p assms(2) i(3) by simp
    moreover have "key (xs ! ?p) \<le> key (xs ! i)" if "i \<noteq> k" using ord [OF i(1,2) that] i(4) by simp
    moreover have "i \<noteq> ?p" using par_less [OF i(2)] i(4) by auto
    ultimately show ?thesis using nth [OF i(1)] nth [of "par ?p"] pp p assms(2) by (auto intro: order_trans)
  qed
  ultimately show ?thesis by (simp add: except_up_def)
qed


text \<open>What sifting makes of a heap: the entries \<open>V\<close> in some order, each knowing its place.\<close>

definition sifted :: "ev_heap \<Rightarrow> nat list \<Rightarrow> ev_heap \<Rightarrow> bool" where
  "sifted h V h' \<longleftrightarrow> hp_mCount h' = hp_mCount h \<and> length (hp_mEntries h') = length (hp_mEntries h) \<and>
     hp_mMaxCount h' = hp_mMaxCount h \<and> hp_mTimeout h' = hp_mTimeout h \<and>
     ordered (hp_mTimeout h) (take (hp_mCount h) (hp_mEntries h')) \<and> mset (take (hp_mCount h) (hp_mEntries h')) = mset V \<and>
     (\<forall>i < hp_mCount h. hp_mHeapIndex h' (hp_mEntries h' ! i) = int i) \<and>
     (\<forall>x. x \<notin> set V \<longrightarrow> hp_mHeapIndex h' x = hp_mHeapIndex h x)"

text \<open>The state with a hole at \<open>k\<close> into which \<open>item\<close> belongs, and the entries with it.\<close>

definition filled :: "nat \<Rightarrow> nat \<Rightarrow> ev_heap \<Rightarrow> nat list" where
  "filled k item h = (take (hp_mCount h) (hp_mEntries h))[k := item]"

definition holed :: "nat \<Rightarrow> nat \<Rightarrow> ev_heap \<Rightarrow> bool" where
  "holed k item h \<longleftrightarrow> hp_mCount h \<le> length (hp_mEntries h) \<and> k < hp_mCount h \<and> distinct (filled k item h) \<and>
     (\<forall>i < hp_mCount h. i \<noteq> k \<longrightarrow> hp_mHeapIndex h (hp_mEntries h ! i) = int i)"

lemma filled_nth: "hp_mCount h \<le> length (hp_mEntries h) \<Longrightarrow> i < hp_mCount h \<Longrightarrow>
    filled k item h ! i = (if i = k then item else hp_mEntries h ! i)"
  by (simp add: filled_def nth_list_update)

lemma filled_length: "holed k item h \<Longrightarrow> length (filled k item h) = hp_mCount h"
  by (simp add: filled_def holed_def)

lemma heap_set_filled:
  assumes "holed k item h" "j < hp_mCount h" "j \<noteq> k"
  defines "h1 \<equiv> heap_set k (hp_mEntries h ! j) h"
  shows "filled j item h1 = swap k j (filled k item h)" "holed j item h1"
proof -
  let ?E = "hp_mEntries h" and ?n = "hp_mCount h"
  have k: "?n \<le> length ?E" "k < ?n" using assms(1) by (simp_all add: holed_def)
  have E1: "hp_mEntries h1 = ?E[k := ?E ! j]" "hp_mCount h1 = ?n"
    "hp_mHeapIndex h1 = (hp_mHeapIndex h)(?E ! j := int k)" by (simp_all add: h1_def heap_set_def)
  show f: "filled j item h1 = swap k j (filled k item h)"
  proof (rule nth_equalityI)
    fix i assume "i < length (filled j item h1)"
    then have i: "i < ?n" using k E1 by (simp add: filled_def)
    show "filled j item h1 ! i = swap k j (filled k item h) ! i"
      using i k assms(2,3) filled_nth [of h1 i j item] filled_nth [of h _ k item] swap_nth [of k "filled k item h" j i] filled_length [OF assms(1)]
      by (simp add: E1 nth_list_update)
  qed (use k E1 in \<open>simp add: filled_def\<close>)
  have "distinct (filled k item h)" using assms(1) by (simp add: holed_def)
  then have "distinct (filled j item h1)"
    using swap_mset [of k "filled k item h" j] filled_length [OF assms(1)] k assms(2)
    by (simp add: f) (metis mset_eq_imp_distinct_iff)
  moreover have "hp_mHeapIndex h1 (hp_mEntries h1 ! i) = int i" if i: "i < ?n" "i \<noteq> j" for i
  proof (cases "i = k")
    case True
    then show ?thesis using i k E1 by simp
  next
    case False
    have "filled k item h ! i \<noteq> filled k item h ! j"
      using \<open>distinct (filled k item h)\<close> i assms(2) filled_length [OF assms(1)] by (simp add: nth_eq_iff_index_eq)
    then have "?E ! i \<noteq> ?E ! j" using filled_nth [OF k(1)] i False assms(2,3) by simp
    then show ?thesis using assms(1) i False E1 by (simp add: holed_def)
  qed
  ultimately show "holed j item h1" using k assms(2) E1 by (simp add: holed_def)
qed

lemma heap_put_done:
  assumes "holed k item h" "ordered (hp_mTimeout h) (filled k item h)"
  shows "\<exists>h'. heap_put k item h = Inr h' \<and> sifted h (filled k item h) h'"
proof -
  let ?E = "hp_mEntries h" and ?n = "hp_mCount h" and ?h = "heap_set k item h"
  have k: "?n \<le> length ?E" "k < ?n" using assms(1) by (simp_all add: holed_def)
  have take: "take ?n (hp_mEntries ?h) = filled k item h" using k by (simp add: heap_set_def filled_def take_update_swap)
  have nth: "hp_mEntries ?h ! i = filled k item h ! i" if "i < ?n" for i using that by (metis take nth_take)
  have "hp_mHeapIndex ?h (hp_mEntries ?h ! i) = int i" if i: "i < ?n" for i
  proof (cases "i = k")
    case True
    then show ?thesis using k by (simp add: heap_set_def)
  next
    case False
    have "filled k item h ! i \<noteq> filled k item h ! k"
      using assms(1) i False filled_length [OF assms(1)] k by (simp add: holed_def nth_eq_iff_index_eq)
    then have "?E ! i \<noteq> item" using filled_nth [OF k(1)] i k False by simp
    then show ?thesis using assms(1) i False k by (simp add: holed_def heap_set_def)
  qed
  moreover have "item \<in> set (filled k item h)"
    using k by (metis filled_length [OF assms(1)] filled_nth [OF k(1) k(2)] nth_mem)
  ultimately have "sifted h (filled k item h) ?h" using assms(2) take
    by (auto simp: sifted_def heap_set_def)
  then show ?thesis using k by (simp add: heap_put_def)
qed

lemma sifted_trans:
  "sifted h1 V h' \<Longrightarrow> hp_mCount h1 = hp_mCount h \<Longrightarrow> length (hp_mEntries h1) = length (hp_mEntries h) \<Longrightarrow>
   hp_mMaxCount h1 = hp_mMaxCount h \<Longrightarrow> hp_mTimeout h1 = hp_mTimeout h \<Longrightarrow> mset V = mset W \<Longrightarrow>
   (\<And>x. x \<notin> set W \<Longrightarrow> hp_mHeapIndex h1 x = hp_mHeapIndex h x) \<Longrightarrow> sifted h W h'"
  by (auto simp: sifted_def dest: mset_eq_setD)

text \<open>One exchange of the hole with the entry at \<open>j\<close>, and the rest of the way.\<close>

lemma sifted_step:
  assumes "holed k item h" "j < hp_mCount h" "j \<noteq> k"
    and "sifted (heap_set k (hp_mEntries h ! j) h) (swap k j (filled k item h)) h'"
  shows "sifted h (filled k item h) h'"
proof (rule sifted_trans [OF assms(4)])
  have n: "hp_mCount h \<le> length (hp_mEntries h)" "k < hp_mCount h" using assms(1) by (simp_all add: holed_def)
  show "mset (swap k j (filled k item h)) = mset (filled k item h)"
    using swap_mset [of k "filled k item h" j] filled_length [OF assms(1)] n assms(2) by simp
  have "hp_mEntries h ! j \<in> set (filled k item h)"
    using filled_nth [OF n(1) assms(2), of k item] filled_length [OF assms(1)] assms(2,3) by (metis nth_mem)
  then show "hp_mHeapIndex (heap_set k (hp_mEntries h ! j) h) x = hp_mHeapIndex h x" if "x \<notin> set (filled k item h)" for x
    using that by (auto simp: heap_set_def)
qed (simp_all add: heap_set_def)

lemma shiftUp_ok:
  "holed k item h \<Longrightarrow> except_up (hp_mTimeout h) (filled k item h) k \<Longrightarrow>
   \<exists>h'. EventHeap_shiftUp k item h = Inr h' \<and> sifted h (filled k item h) h'"
proof (induction k item h rule: EventHeap_shiftUp.induct)
  case (1 k item h)
  let ?V = "filled k item h" and ?key = "hp_mTimeout h" and ?p = "par k"
  have n: "hp_mCount h \<le> length (hp_mEntries h)" "k < hp_mCount h" using "1.prems"(1) by (simp_all add: holed_def)
  note len = filled_length [OF "1.prems"(1)]
  have vk: "?V ! k = item" using filled_nth [OF n] by simp
  show ?case
  proof (cases "k = 0")
    case True
    have "ordered ?key ?V" by (rule except_up_done [OF "1.prems"(2)]) (use n len True in simp_all)
    moreover have "EventHeap_shiftUp k item h = heap_put k item h" using True by (subst EventHeap_shiftUp.simps) simp
    ultimately show ?thesis using heap_put_done [OF "1.prems"(1)] by simp
  next
    case False
    then have p: "?p < k" "(k - 1) div 2 = ?p" by (simp_all add: par_less par_def)
    then have pn: "?p < hp_mCount h" "?p \<noteq> k" using n by simp_all
    have at: "heap_at h ?p = Inr (hp_mEntries h ! ?p)" using p n by (simp add: heap_at_def)
    have vp: "?V ! ?p = hp_mEntries h ! ?p" using filled_nth [OF n(1) pn(1)] pn by simp
    show ?thesis
    proof (cases "?key item < ?key (hp_mEntries h ! ?p)")
      case True
      let ?h1 = "heap_set k (hp_mEntries h ! ?p) h"
      have up: "except_up (hp_mTimeout ?h1) (filled ?p item ?h1) ?p"
        using except_up_swap [OF "1.prems"(2) _ False] True n len vk vp heap_set_filled(1) [OF "1.prems"(1) pn]
        by (simp add: heap_set_def)
      have "\<exists>h'. EventHeap_shiftUp ?p item ?h1 = Inr h' \<and> sifted ?h1 (filled ?p item ?h1) h'"
        using "1.IH" [of "hp_mEntries h ! ?p"] False at True n p(2) up heap_set_filled(2) [OF "1.prems"(1) pn]
        by (simp add: isGreater_eq)
      then show ?thesis using False at True n p(2) sifted_step [OF "1.prems"(1) pn] heap_set_filled(1) [OF "1.prems"(1) pn]
        by (subst EventHeap_shiftUp.simps) (auto simp: isGreater_eq)
    next
      case le: False
      then show ?thesis
        using heap_put_done [OF "1.prems"(1)] except_up_done [OF "1.prems"(2)] n len vk vp at p(2) False
        by (subst EventHeap_shiftUp.simps) (simp add: isGreater_eq)
    qed
  qed
qed


lemma min_child_ok:
  assumes "hp_mCount h \<le> length (hp_mEntries h)" "2 * (k + 1) \<le> hp_mCount h"
  shows "\<exists>c. min_child (2 * (k + 1)) h = Inr c \<and> c < hp_mCount h \<and> par c = k \<and> c \<noteq> 0 \<and> c \<noteq> k \<and>
    (\<forall>i < hp_mCount h. i \<noteq> 0 \<longrightarrow> par i = k \<longrightarrow> hp_mTimeout h (hp_mEntries h ! c) \<le> hp_mTimeout h (hp_mEntries h ! i))"
proof -
  let ?E = "hp_mEntries h" and ?n = "hp_mCount h" and ?key = "hp_mTimeout h"
  have ch: "i = 2 * k + 1 \<or> i = 2 * k + 2" if "i \<noteq> 0" "par i = k" for i using par_children [of i k] that by blast
  have pk: "par (2 * k + 1) = k" "par (2 * k + 2) = k" by (simp_all add: par_def)
  show ?thesis
  proof (cases "2 * (k + 1) = ?n")
    case True
    then have "i = 2 * k + 1" if "i < ?n" "i \<noteq> 0" "par i = k" for i using ch [OF that(2,3)] that(1) by simp
    moreover have "min_child (2 * (k + 1)) h = Inr (2 * k + 1)" using True by (simp add: min_child_def)
    ultimately show ?thesis
    proof (intro exI conjI)
      show "2 * k + 1 < ?n" using True by simp
      show "\<forall>i < ?n. i \<noteq> 0 \<longrightarrow> par i = k \<longrightarrow> ?key (?E ! (2 * k + 1)) \<le> ?key (?E ! i)"
        using \<open>\<And>i. i < ?n \<Longrightarrow> i \<noteq> 0 \<Longrightarrow> par i = k \<Longrightarrow> i = 2 * k + 1\<close> by fastforce
    qed (simp_all add: pk(1) [simplified])
  next
    case False
    then have at: "heap_at h (2 * (k + 1)) = Inr (?E ! (2 * k + 2))" "heap_at h (2 * (k + 1) - 1) = Inr (?E ! (2 * k + 1))"
      using assms by (simp_all add: heap_at_def)
    define c where "c = (if ?key (?E ! (2 * k + 1)) < ?key (?E ! (2 * k + 2)) then 2 * k + 1 else 2 * k + 2)"
    have "min_child (2 * (k + 1)) h = Inr c" using False at by (simp add: min_child_def isGreater_eq c_def)
    moreover have "?key (?E ! c) \<le> ?key (?E ! (2 * k + 1))" "?key (?E ! c) \<le> ?key (?E ! (2 * k + 2))" by (auto simp: c_def)
    then have "?key (?E ! c) \<le> ?key (?E ! i)" if "i \<noteq> 0" "par i = k" for i using ch [OF that] by auto
    moreover have "c < ?n" "par c = k" "c \<noteq> 0" "c \<noteq> k" using False assms(2) pk by (auto simp: c_def)
    ultimately show ?thesis by blast
  qed
qed

lemma except_at_swap:
  assumes "except_at key xs k" "k < length xs" "c < length xs" "par c = k" "c \<noteq> 0" "c \<noteq> k"
    and min: "\<forall>i < length xs. i \<noteq> 0 \<longrightarrow> par i = k \<longrightarrow> key (xs ! c) \<le> key (xs ! i)"
  shows "except_at key (swap k c xs) c"
proof -
  let ?ys = "swap k c xs"
  have nth: "?ys ! i = (if i = c then xs ! k else if i = k then xs ! c else xs ! i)" if "i < length xs" for i
    using swap_nth [of k xs c i] assms(2,3) that by simp
  have ord: "key (xs ! par i) \<le> key (xs ! i)" if "i < length xs" "i \<noteq> 0" "i \<noteq> k" "par i \<noteq> k" for i
    using assms(1) that by (simp add: except_at_def)
  have up: "key (xs ! par k) \<le> key (xs ! c)" if "k \<noteq> 0" using assms(1,3,4,5) that by (simp add: except_at_def)
  have "key (?ys ! par i) \<le> key (?ys ! i)" if i: "i < length xs" "i \<noteq> 0" "i \<noteq> c" "par i \<noteq> c" for i
  proof -
    have pi: "par i < length xs" "par i \<noteq> i" using par_less [OF i(2)] i(1) by simp_all
    consider "i = k" | "i \<noteq> k" "par i = k" | "i \<noteq> k" "par i \<noteq> k" by blast
    then show ?thesis
      by cases (use i pi nth [OF i(1)] nth [OF pi(1)] up min ord in auto)
  qed
  moreover have "key (?ys ! par c) \<le> key (?ys ! i)" if i: "i < length xs" "i \<noteq> 0" "par i = c" for i
  proof -
    have "i \<noteq> c" "i \<noteq> k" using par_less [OF i(2)] par_less [OF assms(5)] i(3) assms(4) by auto
    then show ?thesis using ord [OF i(1,2)] i assms(2,4,6) nth [OF i(1)] nth [of k] by simp
  qed
  ultimately show ?thesis by (simp add: except_at_def)
qed

lemma shiftDown_ok:
  "holed k item h \<Longrightarrow> except_at (hp_mTimeout h) (filled k item h) k \<Longrightarrow>
   \<exists>h'. EventHeap_shiftDown k item h = Inr h' \<and> sifted h (filled k item h) h'"
proof (induction k item h rule: EventHeap_shiftDown.induct)
  case (1 k item h)
  let ?V = "filled k item h" and ?key = "hp_mTimeout h" and ?E = "hp_mEntries h"
  have n: "hp_mCount h \<le> length ?E" "k < hp_mCount h" using "1.prems"(1) by (simp_all add: holed_def)
  note len = filled_length [OF "1.prems"(1)]
  have v: "?V ! i = (if i = k then item else ?E ! i)" if "i < hp_mCount h" for i by (rule filled_nth [OF n(1) that])
  have up: "\<exists>h'. EventHeap_shiftUp k item h = Inr h' \<and> sifted h ?V h'"
    if "\<forall>i < hp_mCount h. i \<noteq> 0 \<longrightarrow> par i = k \<longrightarrow> ?key item \<le> ?key (?E ! i)"
  proof (rule shiftUp_ok [OF "1.prems"(1)])
    have "?key (?V ! par i) \<le> ?key (?V ! i)" if i: "i < hp_mCount h" "i \<noteq> 0" "i \<noteq> k" for i
      using i "1.prems"(2) that v [OF i(1)] v [OF n(2)] len \<open>\<forall>i < hp_mCount h. _ i\<close> by (auto simp: except_at_def)
    then show "except_up ?key ?V k" using "1.prems"(2) len by (simp add: except_up_def except_at_def)
  qed
  show ?case
  proof (cases "2 * (k + 1) \<le> hp_mCount h")
    case False
    then have "EventHeap_shiftDown k item h = EventHeap_shiftUp k item h" by (subst EventHeap_shiftDown.simps) simp
    moreover have "\<forall>i < hp_mCount h. i \<noteq> 0 \<longrightarrow> par i = k \<longrightarrow> ?key item \<le> ?key (?E ! i)"
      using False by (auto simp: par_def)
    ultimately show ?thesis using up by simp
  next
    case True
    from min_child_ok [OF n(1) True] obtain c where c: "min_child (2 * (k + 1)) h = Inr c" "c < hp_mCount h" "par c = k" "c \<noteq> 0" "c \<noteq> k"
      and min: "\<forall>i < hp_mCount h. i \<noteq> 0 \<longrightarrow> par i = k \<longrightarrow> ?key (?E ! c) \<le> ?key (?E ! i)" by blast
    have at: "heap_at h c = Inr (?E ! c)" using c(2) n by (simp add: heap_at_def)
    show ?thesis
    proof (cases "?key (?E ! c) < ?key item")
      case False
      then have "EventHeap_shiftDown k item h = EventHeap_shiftUp k item h"
        using True c(1) at by (subst EventHeap_shiftDown.simps) (simp add: isGreater_eq)
      moreover have "\<forall>i < hp_mCount h. i \<noteq> 0 \<longrightarrow> par i = k \<longrightarrow> ?key item \<le> ?key (?E ! i)"
        using min order_trans [of "?key item" "?key (?E ! c)"] False by (simp add: not_less)
      ultimately show ?thesis using up by simp
    next
      case gt: True
      let ?h1 = "heap_set k (?E ! c) h"
      note f = heap_set_filled [OF "1.prems"(1) c(2,5)]
      have mn: "?key (?V ! c) \<le> ?key (?V ! i)" if i: "i < hp_mCount h" "i \<noteq> 0" "par i = k" for i
      proof -
        have "i \<noteq> k" using par_less [OF i(2)] i(3) by simp
        then show ?thesis using min i v [OF i(1)] v [OF c(2)] c(5) by simp
      qed
      have "\<forall>i < length ?V. i \<noteq> 0 \<longrightarrow> par i = k \<longrightarrow> ?key (?V ! c) \<le> ?key (?V ! i)" using mn by (simp add: len)
      moreover have "k < length ?V" "c < length ?V" using n(2) c(2) len by simp_all
      ultimately have "except_at ?key (swap k c ?V) c" by (rule except_at_swap [OF "1.prems"(2) _ _ c(3-5), rotated 2])
      then have "except_at (hp_mTimeout ?h1) (filled c item ?h1) c" by (simp add: f(1)) (simp add: heap_set_def)
      then have "\<exists>h'. EventHeap_shiftDown c item ?h1 = Inr h' \<and> sifted ?h1 (filled c item ?h1) h'"
        using "1.IH" [of c "?E ! c"] True c(1) at gt n f(2) by (simp add: isGreater_eq)
      then show ?thesis using True c(1) at gt n sifted_step [OF "1.prems"(1) c(2,5)] f(1)
        by (subst EventHeap_shiftDown.simps) (auto simp: isGreater_eq)
    qed
  qed
qed


subsection \<open>The operations\<close>

definition heap_set_of :: "ev_heap \<Rightarrow> nat set" where
  "heap_set_of h = set (take (hp_mCount h) (hp_mEntries h))"

definition heap_inv :: "ev_heap \<Rightarrow> bool" where
  "heap_inv h \<longleftrightarrow> hp_mCount h \<le> hp_mMaxCount h \<and> length (hp_mEntries h) = hp_mMaxCount h \<and>
     distinct (take (hp_mCount h) (hp_mEntries h)) \<and> ordered (hp_mTimeout h) (take (hp_mCount h) (hp_mEntries h)) \<and>
     (\<forall>i < hp_mCount h. hp_mHeapIndex h (hp_mEntries h ! i) = int i) \<and>
     (\<forall>x. x \<notin> heap_set_of h \<longrightarrow> hp_mHeapIndex h x = -1)"

lemma heap_inv_index:
  assumes "heap_inv h"
  shows "x \<in> heap_set_of h \<longleftrightarrow> hp_mHeapIndex h x \<noteq> -1"
    and "x \<in> heap_set_of h \<Longrightarrow> nat (hp_mHeapIndex h x) < hp_mCount h \<and> hp_mEntries h ! nat (hp_mHeapIndex h x) = x"
proof -
  have *: "\<exists>i < hp_mCount h. hp_mEntries h ! i = x \<and> hp_mHeapIndex h x = int i" if "x \<in> heap_set_of h"
    using that assms by (auto simp: heap_set_of_def heap_inv_def in_set_conv_nth)
  then show "x \<in> heap_set_of h \<longleftrightarrow> hp_mHeapIndex h x \<noteq> -1" using assms by (auto simp: heap_inv_def)
  show "x \<in> heap_set_of h \<Longrightarrow> nat (hp_mHeapIndex h x) < hp_mCount h \<and> hp_mEntries h ! nat (hp_mHeapIndex h x) = x"
    using * by auto
qed

lemma heap_inv_order:
  assumes "heap_inv h" "i < hp_mCount h" "i \<noteq> 0"
  shows "hp_mTimeout h (hp_mEntries h ! par i) \<le> hp_mTimeout h (hp_mEntries h ! i)"
proof -
  have "length (take (hp_mCount h) (hp_mEntries h)) = hp_mCount h" "ordered (hp_mTimeout h) (take (hp_mCount h) (hp_mEntries h))"
    using assms(1) by (simp_all add: heap_inv_def)
  moreover have "par i < hp_mCount h" using par_less [OF assms(3)] assms(2) by simp
  ultimately show ?thesis using assms(2,3) unfolding ordered_def by (metis nth_take)
qed

lemma heap_inv_new: "heap_inv (EventHeap_new tmo)" "heap_set_of (EventHeap_new tmo) = {}"
  by (simp_all add: heap_inv_def heap_set_of_def EventHeap_new_def ordered_def)

text \<open>A sifted heap with the entries of the new size.\<close>

lemma sifted_inv:
  assumes "sifted h V h'" "distinct V" "hp_mCount h \<le> hp_mMaxCount h" "length (hp_mEntries h) = hp_mMaxCount h"
    and "\<And>x. x \<notin> set V \<Longrightarrow> out x \<noteq> -1 \<Longrightarrow> False" "\<And>x. x \<in> set V \<Longrightarrow> out x = hp_mHeapIndex h' x"
  shows "heap_inv (h'\<lparr> hp_mHeapIndex := out \<rparr>)" "heap_set_of (h'\<lparr> hp_mHeapIndex := out \<rparr>) = set V"
proof -
  have V: "set (take (hp_mCount h') (hp_mEntries h')) = set V" "distinct (take (hp_mCount h') (hp_mEntries h'))"
    using assms(1,2) by (auto simp: sifted_def dest: mset_eq_setD mset_eq_imp_distinct_iff)
  then show s: "heap_set_of (h'\<lparr> hp_mHeapIndex := out \<rparr>) = set V" by (simp add: heap_set_of_def)
  have "hp_mEntries h' ! i \<in> set V" if "i < hp_mCount h'" for i
    using that V(1) assms(1,3,4) nth_mem [of i "take (hp_mCount h') (hp_mEntries h')"] by (simp add: sifted_def)
  then show "heap_inv (h'\<lparr> hp_mHeapIndex := out \<rparr>)"
    using assms V(2) unfolding heap_inv_def s by (auto simp: sifted_def)
qed

lemma push_ok:
  assumes "heap_inv h" "x \<notin> heap_set_of h"
  shows "\<exists>r h'. EventHeap_push alloc x h = Inr (r, h') \<and> heap_inv h' \<and> hp_mTimeout h' = hp_mTimeout h \<and>
    (r = 0 \<and> heap_set_of h' = insert x (heap_set_of h) \<or> r = -1 \<and> h' = h \<and> (\<exists>n. \<not> alloc n))"
proof -
  obtain r h1 where res: "EventHeap_reserve alloc (hp_mCount h + 1) h = (r, h1)" by fastforce
  show ?thesis
  proof (cases "r = 0")
    case False
    then have "r = -1" "h1 = h" "\<exists>n. \<not> alloc n" using res by (auto simp: EventHeap_reserve_def Let_def split: if_splits)
    then show ?thesis using res assms(1) by (auto simp: EventHeap_push_def)
  next
    case True
    then have h1: "hp_mCount h1 = hp_mCount h" "hp_mTimeout h1 = hp_mTimeout h" "hp_mHeapIndex h1 = hp_mHeapIndex h"
      "hp_mCount h < hp_mMaxCount h1" "length (hp_mEntries h1) = hp_mMaxCount h1"
      "take (hp_mCount h) (hp_mEntries h1) = take (hp_mCount h) (hp_mEntries h)"
      using res assms(1) by (auto simp: EventHeap_reserve_def heap_inv_def Let_def split: if_splits)
    let ?n = "hp_mCount h" and ?h2 = "h1\<lparr> hp_mCount := hp_mCount h1 + 1 \<rparr>"
    have nth: "hp_mEntries h1 ! i = hp_mEntries h ! i" if "i < ?n" for i using h1(6) that by (metis nth_take)
    have lenV: "length (take ?n (hp_mEntries h)) = ?n" using assms(1) by (simp add: heap_inv_def)
    have V: "filled ?n x ?h2 = take ?n (hp_mEntries h) @ [x]"
      using h1(1,4-6) lenV by (simp add: filled_def take_Suc_conv_app_nth list_update_append)
    have "holed ?n x ?h2"
      using assms h1(1,3-5) nth V by (auto simp: holed_def heap_inv_def heap_set_of_def)
    moreover have "except_up (hp_mTimeout ?h2) (filled ?n x ?h2) ?n"
      unfolding except_up_def V
    proof (intro conjI allI impI)
      fix i assume i: "i < length (take ?n (hp_mEntries h) @ [x])" "i \<noteq> 0" "i \<noteq> ?n"
      then have "i < ?n" "par i < ?n" using lenV par_less [of i] by simp_all
      then show "hp_mTimeout ?h2 ((take ?n (hp_mEntries h) @ [x]) ! par i) \<le> hp_mTimeout ?h2 ((take ?n (hp_mEntries h) @ [x]) ! i)"
        using heap_inv_order [OF assms(1), of i] lenV i(2) h1(2) by (simp add: nth_append)
    next
      fix i assume "i < length (take ?n (hp_mEntries h) @ [x])" "i \<noteq> 0" "par i = ?n"
      then have False using lenV par_less [of i] by simp
      then show "hp_mTimeout ?h2 ((take ?n (hp_mEntries h) @ [x]) ! par ?n) \<le> hp_mTimeout ?h2 ((take ?n (hp_mEntries h) @ [x]) ! i)" ..
    qed
    ultimately obtain h' where h': "EventHeap_shiftUp ?n x ?h2 = Inr h'" "sifted ?h2 (filled ?n x ?h2) h'"
      using shiftUp_ok by blast
    have setV: "set (filled ?n x ?h2) = insert x (heap_set_of h)" unfolding V heap_set_of_def by simp
    have "hp_mHeapIndex h' y = -1" if "y \<notin> set (filled ?n x ?h2)" for y
      using that h'(2) assms(1) h1(3) setV by (auto simp: sifted_def heap_inv_def)
    moreover have "distinct (filled ?n x ?h2)" using \<open>holed ?n x ?h2\<close> by (simp add: holed_def)
    ultimately have "heap_inv (h'\<lparr> hp_mHeapIndex := hp_mHeapIndex h' \<rparr>)"
      "heap_set_of (h'\<lparr> hp_mHeapIndex := hp_mHeapIndex h' \<rparr>) = insert x (heap_set_of h)"
      using sifted_inv [OF h'(2), of "hp_mHeapIndex h'"] h1(1,4,5) setV by auto
    moreover have "hp_mTimeout h' = hp_mTimeout h" using h'(2) h1(2) by (simp add: sifted_def)
    ultimately show ?thesis using res True h'(1) h1(1) by (auto simp: EventHeap_push_def)
  qed
qed

text \<open>Taking the entry at \<open>k\<close> out: the last entry is put in its place.\<close>

lemma take_out:
  assumes inv: "heap_inv h" and k: "k < hp_mCount h" and x: "x = hp_mEntries h ! k"
  defines "h0 \<equiv> h\<lparr> hp_mCount := hp_mCount h - 1 \<rparr>"
  shows "\<exists>h'. EventHeap_shiftDown k (hp_mEntries h ! (hp_mCount h - 1)) h0 = Inr h' \<and>
    heap_inv (heap_out x h') \<and> heap_set_of (heap_out x h') = heap_set_of h - {x} \<and> hp_mTimeout h' = hp_mTimeout h"
proof -
  let ?n = "hp_mCount h - 1" and ?E = "hp_mEntries h" and ?key = "hp_mTimeout h"
  let ?l = "?E ! ?n" and ?V = "filled k (?E ! (hp_mCount h - 1)) h0"
  have n: "hp_mCount h = Suc ?n" "?n < length ?E" using k inv unfolding heap_inv_def by auto
  have E: "hp_mEntries h0 = ?E" "hp_mCount h0 = ?n" "hp_mHeapIndex h0 = hp_mHeapIndex h" "hp_mTimeout h0 = ?key"
    "hp_mMaxCount h0 = hp_mMaxCount h" by (simp_all add: h0_def)
  have tk: "take (hp_mCount h) ?E = take ?n ?E @ [?l]" using n by (metis take_Suc_conv_app_nth)
  have dist: "distinct (take ?n ?E @ [?l])" using inv tk by (simp add: heap_inv_def)
  have ord: "?key (?E ! par i) \<le> ?key (?E ! i)" if "i < hp_mCount h" "i \<noteq> 0" for i
    by (rule heap_inv_order [OF inv that])
  have set: "heap_set_of h = insert ?l (set (take ?n ?E))" using tk by (simp add: heap_set_of_def)
  have idx: "hp_mHeapIndex h y = -1" if "y \<notin> heap_set_of h" for y using inv that by (simp add: heap_inv_def)
  show ?thesis
  proof (cases "k = ?n")
    case True
    then have xl: "x = ?l" by (simp add: x)
    have "EventHeap_shiftDown k ?l h0 = EventHeap_shiftUp k ?l h0"
      using True by (subst EventHeap_shiftDown.simps) (simp add: E)
    also have "\<dots> = heap_put k ?l h0"
    proof (cases "k = 0")
      case False
      then have "heap_at h0 (par k) = Inr (?E ! par k)" "\<not> EventHeap_isGreater (?E ! par k) ?l h0"
        using ord [OF k] True par_less [of k] n by (simp_all add: heap_at_def isGreater_eq E not_less)
      then show ?thesis using False by (subst EventHeap_shiftUp.simps) (simp add: par_def)
    qed (subst EventHeap_shiftUp.simps, simp)
    also have "\<dots> = Inr (heap_set k ?l h0)" using True n by (simp add: heap_put_def E)
    finally have run: "EventHeap_shiftDown k ?l h0 = Inr (heap_set k ?l h0)" .
    have same: "heap_out x (heap_set k ?l h0) = h0\<lparr> hp_mHeapIndex := (hp_mHeapIndex h)(x := -1) \<rparr>"
      using True by (simp add: heap_out_def heap_set_def E xl)
    have s: "heap_set_of (heap_out x (heap_set k ?l h0)) = heap_set_of h - {x}"
      unfolding same set using dist xl by (auto simp: heap_set_of_def E)
    have "hp_mHeapIndex h (?E ! i) = int i \<and> ?E ! i \<noteq> x" if i: "i < ?n" for i
      using inv i dist xl nth_mem [of i "take ?n ?E"] n by (auto simp: heap_inv_def)
    moreover have "hp_mHeapIndex h y = -1" if "y \<notin> heap_set_of h - {x}" "y \<noteq> x" for y using that idx by simp
    moreover have "?key (take ?n ?E ! par i) \<le> ?key (take ?n ?E ! i)" if "i < ?n" "i \<noteq> 0" for i
      using ord [of i] par_less [OF that(2)] that n by simp
    then have "ordered ?key (take ?n ?E)" by (simp add: ordered_def)
    ultimately have "heap_inv (heap_out x (heap_set k ?l h0))"
      using inv dist unfolding heap_inv_def s unfolding same by (auto simp: E)
    then show ?thesis using run s by (simp add: heap_set_def E)
  next
    case False
    then have kn: "k < ?n" using k by simp
    have nthV: "?V ! i = (if i = k then ?l else ?E ! i)" if "i < ?n" for i
      using filled_nth [of h0 i k ?l] that n by (simp add: E)
    have lenV: "length ?V = ?n" using n by (simp add: filled_def E)
    have setV: "set ?V = heap_set_of h - {x}" "distinct ?V"
    proof -
      have xk: "x = take ?n ?E ! k" using kn x by simp
      then have "x \<in> set (take ?n ?E)" using kn n nth_mem [of k "take ?n ?E"] by simp
      then have xl: "x \<noteq> ?l" using dist by auto
      have V: "?V = (take ?n ?E)[k := ?l]" by (simp add: filled_def E)
      have "set ((take ?n ?E)[k := ?l]) = insert ?l (set (take ?n ?E) - {x})"
        unfolding xk by (rule set_update_distinct) (use dist kn n in simp_all)
      then show "set ?V = heap_set_of h - {x}" using set xl V by auto
      show "distinct ?V" unfolding V using dist by (intro distinct_list_update) auto
    qed
    have "holed k ?l h0" using setV(2) kn n inv by (simp add: holed_def E heap_inv_def)
    moreover have "except_at ?key ?V k"
      unfolding except_at_def lenV
    proof (intro conjI allI impI)
      fix i assume i: "i < ?n" "i \<noteq> 0" "i \<noteq> k" "par i \<noteq> k"
      then show "?key (?V ! par i) \<le> ?key (?V ! i)" using nthV [OF i(1)] nthV [of "par i"] ord [of i] par_less [OF i(2)] by simp
    next
      fix i assume i: "i < ?n" "i \<noteq> 0" "k \<noteq> 0" "par i = k"
      have "i \<noteq> k" "par k \<noteq> k" "par k < ?n" using par_less [OF i(2)] par_less [OF i(3)] i kn by simp_all
      moreover have "?key (?E ! par k) \<le> ?key (?E ! k)" "?key (?E ! k) \<le> ?key (?E ! i)" using ord [of k] ord [of i] i kn by simp_all
      ultimately show "?key (?V ! par k) \<le> ?key (?V ! i)" using nthV [OF i(1)] nthV [of "par k"] by simp
    qed
    ultimately obtain h' where h': "EventHeap_shiftDown k ?l h0 = Inr h'" "sifted h0 ?V h'"
      using shiftDown_ok [of k ?l h0] E by auto
    let ?out = "(hp_mHeapIndex h')(x := -1)"
    have "?out y = -1" if "y \<notin> set ?V" for y
    proof (cases "y = x")
      case False
      have "hp_mHeapIndex h' y = hp_mHeapIndex h y" using h'(2) that E(3) unfolding sifted_def by simp
      then show ?thesis using False that idx setV(1) by simp
    qed simp
    moreover have "?out y = hp_mHeapIndex h' y" if "y \<in> set ?V" for y using that setV(1) by auto
    moreover have "hp_mCount h0 \<le> hp_mMaxCount h0" "length (hp_mEntries h0) = hp_mMaxCount h0"
      using inv E(1,2,5) by (auto simp: heap_inv_def)
    ultimately have "heap_inv (h'\<lparr> hp_mHeapIndex := ?out \<rparr>)" "heap_set_of (h'\<lparr> hp_mHeapIndex := ?out \<rparr>) = set ?V"
      using sifted_inv [OF h'(2) setV(2), of ?out] by blast+
    moreover have "hp_mTimeout h' = ?key" using h'(2) E by (simp add: sifted_def)
    ultimately show ?thesis using h'(1) setV(1) by (simp add: heap_out_def)
  qed
qed


lemma ordered_least:
  assumes "ordered key xs" shows "i < length xs \<Longrightarrow> key (xs ! 0) \<le> key (xs ! i)"
proof (induction i rule: less_induct)
  case (less i)
  show ?case
  proof (cases "i = 0")
    case False
    have "key (xs ! 0) \<le> key (xs ! par i)" using less.IH [of "par i"] par_less [OF False] less.prems by simp
    also have "\<dots> \<le> key (xs ! i)" using assms less.prems False by (simp add: ordered_def)
    finally show ?thesis .
  qed simp
qed

lemma heap_first:
  assumes "heap_inv h" "hp_mCount h \<noteq> 0"
  shows "heap_at h 0 = Inr (hp_mEntries h ! 0)" "hp_mEntries h ! 0 \<in> heap_set_of h"
    "\<forall>y \<in> heap_set_of h. hp_mTimeout h (hp_mEntries h ! 0) \<le> hp_mTimeout h y"
proof -
  have l: "length (take (hp_mCount h) (hp_mEntries h)) = hp_mCount h" "hp_mCount h \<le> length (hp_mEntries h)"
    using assms(1) by (simp_all add: heap_inv_def)
  show "heap_at h 0 = Inr (hp_mEntries h ! 0)" using l assms(2) by (auto simp: heap_at_def)
  show "hp_mEntries h ! 0 \<in> heap_set_of h"
    using assms(2) l nth_mem [of 0 "take (hp_mCount h) (hp_mEntries h)"] by (simp add: heap_set_of_def)
  have "hp_mTimeout h (hp_mEntries h ! 0) \<le> hp_mTimeout h (take (hp_mCount h) (hp_mEntries h) ! i)" if "i < hp_mCount h" for i
    using ordered_least [of "hp_mTimeout h" "take (hp_mCount h) (hp_mEntries h)" i] assms l that by (simp add: heap_inv_def)
  then show "\<forall>y \<in> heap_set_of h. hp_mTimeout h (hp_mEntries h ! 0) \<le> hp_mTimeout h y"
    using l by (auto simp: heap_set_of_def in_set_conv_nth)
qed

lemma heap_set_empty: "heap_inv h \<Longrightarrow> heap_set_of h = {} \<longleftrightarrow> hp_mCount h = 0"
  using heap_first(2) [of h] by (cases "hp_mCount h = 0") (auto simp: heap_set_of_def)

definition least_of :: "(nat \<Rightarrow> int \<times> int) \<Rightarrow> nat set \<Rightarrow> nat option \<Rightarrow> bool" where
  "least_of key S r \<longleftrightarrow> (case r of None \<Rightarrow> S = {} | Some x \<Rightarrow> x \<in> S \<and> (\<forall>y \<in> S. key x \<le> key y))"

lemma top_ok:
  assumes "heap_inv h"
  shows "\<exists>r. EventHeap_top h = Inr r \<and> least_of (hp_mTimeout h) (heap_set_of h) r"
  using heap_first [OF assms] heap_set_empty [OF assms] by (auto simp: EventHeap_top_def least_of_def)

lemma pop_ok:
  assumes "heap_inv h"
  shows "\<exists>r h'. EventHeap_pop h = Inr (r, h') \<and> heap_inv h' \<and> hp_mTimeout h' = hp_mTimeout h \<and>
    least_of (hp_mTimeout h) (heap_set_of h) r \<and> heap_set_of h' = heap_set_of h - set_option r"
proof (cases "hp_mCount h = 0")
  case True
  then show ?thesis using assms heap_set_empty [OF assms] by (simp add: EventHeap_pop_def least_of_def)
next
  case False
  from take_out [OF assms, of 0] False obtain h' where
    h': "EventHeap_shiftDown 0 (hp_mEntries h ! (hp_mCount h - 1)) (h\<lparr> hp_mCount := hp_mCount h - 1 \<rparr>) = Inr h'"
      "heap_inv (heap_out (hp_mEntries h ! 0) h')" "heap_set_of (heap_out (hp_mEntries h ! 0) h') = heap_set_of h - {hp_mEntries h ! 0}"
      "hp_mTimeout h' = hp_mTimeout h" by auto
  have "heap_at h (hp_mCount h - 1) = Inr (hp_mEntries h ! (hp_mCount h - 1))"
    using False assms unfolding heap_inv_def heap_at_def by auto
  then have "EventHeap_pop h = Inr (Some (hp_mEntries h ! 0), heap_out (hp_mEntries h ! 0) h')"
    using False h'(1) heap_first(1) [OF assms False] by (simp add: EventHeap_pop_def)
  then show ?thesis using h'(2-4) heap_first(2,3) [OF assms False]
    by (auto simp: least_of_def) (auto simp: heap_out_def)
qed

lemma erase_ok:
  assumes "heap_inv h"
  shows "\<exists>h'. EventHeap_erase x h = Inr (if x \<in> heap_set_of h then 0 else -1, h') \<and> heap_inv h' \<and>
    hp_mTimeout h' = hp_mTimeout h \<and> heap_set_of h' = heap_set_of h - {x}"
proof (cases "x \<in> heap_set_of h")
  case False
  then show ?thesis using assms heap_inv_index(1) [OF assms, of x] by (simp add: EventHeap_erase_def)
next
  case True
  let ?k = "nat (hp_mHeapIndex h x)"
  note k = heap_inv_index(2) [OF assms True]
  from take_out [OF assms, of ?k] k obtain h' where
    h': "EventHeap_shiftDown ?k (hp_mEntries h ! (hp_mCount h - 1)) (h\<lparr> hp_mCount := hp_mCount h - 1 \<rparr>) = Inr h'"
      "heap_inv (heap_out x h')" "heap_set_of (heap_out x h') = heap_set_of h - {x}" "hp_mTimeout h' = hp_mTimeout h" by auto
  have "hp_mCount h \<noteq> 0" using k by auto
  then have "heap_at h (hp_mCount h - 1) = Inr (hp_mEntries h ! (hp_mCount h - 1))"
    using assms unfolding heap_inv_def heap_at_def by auto
  then have "EventHeap_erase x h = Inr (0, heap_out x h')"
    using h'(1) True heap_inv_index(1) [OF assms, of x] \<open>hp_mCount h \<noteq> 0\<close> by (simp add: EventHeap_erase_def)
  then show ?thesis using h'(2-4) True by (auto simp: heap_out_def)
qed

subsection \<open>The heap as a set of events ordered by time\<close>

datatype heap_op = Push nat | Pop | Top | EraseEvent nat | Count

datatype heap_ans = Code int | Event "nat option"

text \<open>The callers push an event only when it is in no heap.\<close>

fun heap_step :: "(nat \<Rightarrow> bool) \<Rightarrow> heap_op \<Rightarrow> ev_heap \<Rightarrow> (heap_ans \<times> ev_heap) res" where
  "heap_step alloc (Push x) h =
     (if hp_mHeapIndex h x = -1 then res_bind (EventHeap_push alloc x h) (\<lambda>(r, h'). Inr (Code r, h')) else Inr (Code 1, h))"
| "heap_step alloc Pop h = res_bind (EventHeap_pop h) (\<lambda>(r, h'). Inr (Event r, h'))"
| "heap_step alloc Top h = res_bind (EventHeap_top h) (\<lambda>r. Inr (Event r, h))"
| "heap_step alloc (EraseEvent x) h = res_bind (EventHeap_erase x h) (\<lambda>(r, h'). Inr (Code r, h'))"
| "heap_step alloc Count h = Inr (Code (EventHeap_getCount h), h)"

text \<open>Which answers a set of events may give, and the set afterwards.\<close>

definition heap_spec :: "(nat \<Rightarrow> int \<times> int) \<Rightarrow> heap_op \<Rightarrow> nat set \<Rightarrow> heap_ans \<Rightarrow> nat set option" where
  "heap_spec key op S a = (case (op, a) of
     (Push x, Code r) \<Rightarrow> if x \<in> S then (if r = 1 then Some S else None)
        else if r = 0 then Some (insert x S) else if r = -1 then Some S else None
   | (Pop, Event r) \<Rightarrow> if least_of key S r then Some (S - set_option r) else None
   | (Top, Event r) \<Rightarrow> if least_of key S r then Some S else None
   | (EraseEvent x, Code r) \<Rightarrow> if r = (if x \<in> S then 0 else -1) then Some (S - {x}) else None
   | (Count, Code r) \<Rightarrow> if r = int (card S) then Some S else None
   | _ \<Rightarrow> None)"

definition heap_grow :: "heap_op \<Rightarrow> nat" where "heap_grow op = 0"

lemma heap_step_ok:
  assumes "heap_inv h" "hp_mTimeout h = key"
  shows "\<exists>a h'. heap_step alloc op h = Inr (a, h') \<and> (heap_inv h' \<and> hp_mTimeout h' = key) \<and>
    heap_spec key op (heap_set_of h) a = Some (heap_set_of h')"
proof (cases op)
  case (Push x)
  show ?thesis
  proof (cases "x \<in> heap_set_of h")
    case True
    then show ?thesis using Push assms heap_inv_index(1) [OF assms(1), of x] by (simp add: heap_spec_def)
  next
    case False
    then have "hp_mHeapIndex h x = -1" using heap_inv_index(1) [OF assms(1), of x] by simp
    then show ?thesis using Push False assms push_ok [OF assms(1) False, of alloc] by (auto simp: heap_spec_def)
  qed
next
  case Pop
  then show ?thesis using pop_ok [OF assms(1)] assms(2) by (auto simp: heap_spec_def)
next
  case Top
  then show ?thesis using top_ok [OF assms(1)] assms by (auto simp: heap_spec_def)
next
  case (EraseEvent x)
  then show ?thesis using erase_ok [OF assms(1), of x] assms(2) by (auto simp: heap_spec_def)
next
  case Count
  have "card (heap_set_of h) = hp_mCount h"
    using assms(1) distinct_card [of "take (hp_mCount h) (hp_mEntries h)"] by (simp add: heap_set_of_def heap_inv_def)
  then show ?thesis using Count assms by (simp add: heap_spec_def EventHeap_getCount_def)
qed

interpretation heap: simulation "heap_step alloc" "heap_spec key" heap_set_of "\<lambda>h. heap_inv h \<and> hp_mTimeout h = key"
    "\<lambda>op. True" heap_grow "\<lambda>S. 0" 1 for alloc :: "nat \<Rightarrow> bool" and key :: "nat \<Rightarrow> int \<times> int"
  by unfold_locales (use heap_step_ok in \<open>auto simp: heap_grow_def\<close>)

text \<open>
  C26: The timer heap is a set of events ordered by their time: whatever the calls and whatever the
  allocator refuses, no access leaves the array, \<open>top\<close> and \<open>pop\<close> answer an event that no other
  one precedes (or NULL when there is none), \<open>erase\<close> takes away exactly the event it is given, and
  a refused \<open>push\<close> changes nothing.
\<close>

theorem EventHeap_is_timer_set:
  "\<exists>as h. run_ops (heap_step alloc) ops (EventHeap_new key) = Inr (as, h) \<and> heap_inv h \<and>
     accepts (heap_spec key) ops {} as = Some (heap_set_of h)"
  using heap.run_ok [of "EventHeap_new key" key ops alloc] heap_inv_new [of key]
  by (auto simp: heap_grow_def EventHeap_new_def sum_list_eq_0_iff list_all_iff)


subsection \<open>Due events\<close>

text \<open>
  \<open>SP_IocpEventCallback::onTimeout\<close>: the loop at the time \<open>now\<close> (\<open>curr\<close> in the code). \<open>fire\<close> is what the
  code does with an event it has taken out. The answer lists the events in the order of firing.
  The fuel bounds the number of rounds.
\<close>

definition is_due :: "int \<times> int \<Rightarrow> int \<times> int \<Rightarrow> bool" where
  "is_due now first = (case (now, first) of ((sec, usec), (fsec, fusec)) \<Rightarrow>
     (sec = fsec \<and> usec \<ge> fusec) \<or> sec > fsec)"

fun onTimeout_loop :: "nat \<Rightarrow> (nat \<Rightarrow> ev_heap \<Rightarrow> ev_heap res) \<Rightarrow> int \<times> int \<Rightarrow> ev_heap \<Rightarrow> (nat list \<times> ev_heap) res" where
  "onTimeout_loop 0 fire now h = Inl Hang"
| "onTimeout_loop (Suc f) fire now h =
     res_bind (EventHeap_top h) (\<lambda>t. case t of
         None \<Rightarrow> Inr ([], h)
       | Some event \<Rightarrow>
           if is_due now (hp_mTimeout h event) then
             res_bind (EventHeap_pop h) (\<lambda>(r, h1).
               case r of None \<Rightarrow> Inl NullDeref
               | Some e \<Rightarrow> res_bind (fire e h1) (\<lambda>h2.
                   res_bind (onTimeout_loop f fire now h2) (\<lambda>(es, h3). Inr (e # es, h3))))
           else Inr ([], h))"

lemma is_due_le: "is_due now t \<longleftrightarrow> t \<le> now"
  by (auto simp: is_due_def less_eq_prod_def split: prod.splits)

definition due :: "int \<times> int \<Rightarrow> ev_heap \<Rightarrow> nat set" where
  "due now h = {e \<in> heap_set_of h. hp_mTimeout h e \<le> now}"

text \<open>
  What the code does with an event of the heap. The function of a timer only queues a task. An event
  of a session, whose two events are \<open>recv\<close> and \<open>send\<close>, leads to \<open>doTimeout\<close>, which takes both out, unless
  a worker runs for the session; an event fires at most once, so \<open>running\<close> is what \<open>getRunning\<close> answers
  when it does.
\<close>

datatype event_owner = TimerEvent | SessionEvent bool nat nat

definition fire_event :: "(nat \<Rightarrow> event_owner) \<Rightarrow> nat \<Rightarrow> ev_heap \<Rightarrow> ev_heap res" where
  "fire_event owner event h =
     (case owner event of
        TimerEvent \<Rightarrow> Inr h
      | SessionEvent running recv send \<Rightarrow>
          if running then Inr h
          else res_bind (EventHeap_erase recv h) (\<lambda>(_, h1).
               res_bind (EventHeap_erase send h1) (\<lambda>(_, h2). Inr h2)))"

text \<open>The events that leave the heap because another one fires.\<close>

fun timed_out :: "event_owner \<Rightarrow> nat set" where
  "timed_out TimerEvent = {}"
| "timed_out (SessionEvent running recv send) = (if running then {} else {recv, send})"

lemma fire_event_ok:
  assumes "heap_inv h"
  shows "\<exists>h'. fire_event owner e h = Inr h' \<and> heap_inv h' \<and> hp_mTimeout h' = hp_mTimeout h \<and>
    heap_set_of h' = heap_set_of h - timed_out (owner e)"
proof (cases "owner e")
  case (SessionEvent running recv send)
  from erase_ok [OF assms, of recv] obtain r1 h1 where 1: "EventHeap_erase recv h = Inr (r1, h1)" "heap_inv h1"
    "hp_mTimeout h1 = hp_mTimeout h" "heap_set_of h1 = heap_set_of h - {recv}" by blast
  from erase_ok [OF 1(2), of send] obtain r2 h2 where 2: "EventHeap_erase send h1 = Inr (r2, h2)" "heap_inv h2"
    "hp_mTimeout h2 = hp_mTimeout h1" "heap_set_of h2 = heap_set_of h1 - {send}" by blast
  show ?thesis using SessionEvent assms 1 2 by (auto simp: fire_event_def)
qed (use assms in \<open>simp add: fire_event_def\<close>)

lemma finite_due: "finite (due now h)"
  by (simp add: due_def heap_set_of_def)

lemma onTimeout_loop_ok:
  "heap_inv h \<Longrightarrow> card (due now h) < f \<Longrightarrow>
    \<exists>es h'. onTimeout_loop f (fire_event owner) now h = Inr (es, h') \<and> heap_inv h' \<and> due now h' = {} \<and>
      hp_mTimeout h' = hp_mTimeout h \<and> set es \<subseteq> due now h \<and> distinct es \<and> sorted (map (hp_mTimeout h) es) \<and>
      heap_set_of h' = heap_set_of h - set es - (\<Union>e \<in> set es. timed_out (owner e))"
proof (induction f arbitrary: h)
  case (Suc f)
  from top_ok [OF Suc.prems(1)] obtain t where t: "EventHeap_top h = Inr t" "least_of (hp_mTimeout h) (heap_set_of h) t" by blast
  show ?case
  proof (cases "\<exists>e. t = Some e \<and> hp_mTimeout h e \<le> now")
    case False
    then have "due now h = {}" using t(2) by (cases t) (auto simp: least_of_def due_def dest: order_trans)
    then show ?thesis using False t(1) Suc.prems(1) by (cases t) (auto simp: is_due_le)
  next
    case True
    from pop_ok [OF Suc.prems(1)] obtain r h1 where
      p: "EventHeap_pop h = Inr (r, h1)" "heap_inv h1" "hp_mTimeout h1 = hp_mTimeout h"
        "least_of (hp_mTimeout h) (heap_set_of h) r" "heap_set_of h1 = heap_set_of h - set_option r" by blast
    from True t(2) p(4) obtain e0 e where e0: "t = Some e0" "hp_mTimeout h e0 \<le> now" and e: "r = Some e" "e \<in> heap_set_of h"
      "\<forall>y \<in> heap_set_of h. hp_mTimeout h e \<le> hp_mTimeout h y" "e0 \<in> heap_set_of h"
      by (cases r) (auto simp: least_of_def)
    have ed: "e \<in> due now h" using e e0(2) order_trans by (auto simp: due_def)
    from fire_event_ok [OF p(2), of owner e] obtain h2 where h2: "fire_event owner e h1 = Inr h2" "heap_inv h2"
      "hp_mTimeout h2 = hp_mTimeout h" "heap_set_of h2 = heap_set_of h - {e} - timed_out (owner e)"
      using p(3,5) e(1) by auto
    have d2: "due now h2 \<subseteq> due now h - {e}" using h2(3,4) by (auto simp: due_def)
    have "card (due now h2) < card (due now h)"
      using card_mono [OF _ d2] finite_due ed by (metis card_Diff1_less finite_Diff le_less_trans)
    then have "card (due now h2) < f" using Suc.prems(2) by simp
    from Suc.IH [OF h2(2) this] obtain es h' where
      es: "onTimeout_loop f (fire_event owner) now h2 = Inr (es, h')" "heap_inv h'" "due now h' = {}" "hp_mTimeout h' = hp_mTimeout h2"
        "set es \<subseteq> due now h2" "distinct es" "sorted (map (hp_mTimeout h2) es)"
        "heap_set_of h' = heap_set_of h2 - set es - (\<Union>e \<in> set es. timed_out (owner e))" by blast
    have "set es \<subseteq> due now h - {e}" using es(5) d2 by blast
    moreover from this have "\<forall>x \<in> set es. hp_mTimeout h e \<le> hp_mTimeout h x" using e(3) by (auto simp: due_def)
    ultimately have "sorted (map (hp_mTimeout h) (e # es))" "set (e # es) \<subseteq> due now h" "distinct (e # es)"
      using es(6,7) ed h2(3) by auto
    moreover have "heap_set_of h' = heap_set_of h - set (e # es) - (\<Union>e \<in> set (e # es). timed_out (owner e))"
      unfolding es(8) h2(4) by auto
    ultimately show ?thesis using t(1) e0 p(1) e(1) h2(1,3) es(1-4) by (simp add: is_due_le)
  qed
qed simp

text \<open>
  C27: Timers make progress: one run of \<open>onTimeout\<close> ends without a fault, and when it ends no event in
  the heap is due any more. It fires only events that were due, each of them once, earlier ones
  first. The heap loses exactly the fired events and the two events of each session that timed out:
  every due event is fired or belongs to a session that a fired event has timed out, and an event
  of a session for which a worker runs is fired and gone although the session does not time out.
\<close>

theorem onTimeout_fires_due:
  assumes "heap_inv h"
  shows "\<exists>es h'. onTimeout_loop (Suc (hp_mCount h)) (fire_event owner) now h = Inr (es, h') \<and> heap_inv h' \<and>
    due now h' = {} \<and> set es \<subseteq> due now h \<and> distinct es \<and> sorted (map (hp_mTimeout h) es) \<and>
    hp_mTimeout h' = hp_mTimeout h \<and> heap_set_of h' = heap_set_of h - set es - (\<Union>e \<in> set es. timed_out (owner e))"
proof -
  have "due now h \<subseteq> heap_set_of h" by (auto simp: due_def)
  then have "card (due now h) \<le> card (heap_set_of h)" by (intro card_mono) (simp_all add: heap_set_of_def)
  also have "\<dots> \<le> hp_mCount h" using card_length [of "take (hp_mCount h) (hp_mEntries h)"] by (simp add: heap_set_of_def min_def split: if_splits)
  finally have "card (due now h) < Suc (hp_mCount h)" by simp
  from onTimeout_loop_ok [OF assms this, of owner] show ?thesis by blast
qed

text \<open>The events 7 and 8 belong to one session, 9 is a timer.\<close>

definition sample_heap :: ev_heap where
  "sample_heap = \<lparr> hp_mEntries = [7, 9, 8], hp_mMaxCount = 3, hp_mCount = 3,
     hp_mHeapIndex = (\<lambda>_. -1)(7 := 0, 9 := 1, 8 := 2), hp_mTimeout = (\<lambda>x. (int x, 0)) \<rparr>"

lemma sample_heap_inv: "heap_inv sample_heap"
  by (auto simp: heap_inv_def sample_heap_def ordered_def heap_set_of_def par_def less_Suc_eq numeral_3_eq_3 nth_Cons')

theorem onTimeout_fires_due_witness:
  "\<exists>es h'. onTimeout_loop 4 (fire_event (\<lambda>e. if e = 9 then TimerEvent else SessionEvent False 7 8)) (8, 0) sample_heap = Inr (es, h') \<and>
    heap_inv h' \<and> due (8, 0) h' = {} \<and> es \<noteq> [] \<and> heap_set_of h' = {9}"
proof -
  let ?owner = "\<lambda>e. if e = (9::nat) then TimerEvent else SessionEvent False 7 8"
  have set: "heap_set_of sample_heap = {7, 8, 9}" by (auto simp: sample_heap_def heap_set_of_def)
  have key: "hp_mTimeout sample_heap = (\<lambda>x. (int x, 0))" by (simp add: sample_heap_def)
  have four: "Suc (hp_mCount sample_heap) = 4" by (simp add: sample_heap_def)
  from onTimeout_fires_due [OF sample_heap_inv, of ?owner "(8, 0)", unfolded four] obtain es h' where
    r: "onTimeout_loop 4 (fire_event ?owner) (8, 0) sample_heap = Inr (es, h')" "heap_inv h'" "due (8, 0) h' = {}"
      "set es \<subseteq> due (8, 0) sample_heap" "heap_set_of h' = heap_set_of sample_heap - set es - (\<Union>e \<in> set es. timed_out (?owner e))"
      "hp_mTimeout h' = hp_mTimeout sample_heap"
    by blast
  have due: "due (8, 0) sample_heap = {7, 8}" by (auto simp: due_def set key less_eq_prod_def)
  have "es \<noteq> []"
  proof
    assume "es = []"
    then have "(7::nat) \<in> heap_set_of h'" using r(5) set by simp
    then show False using r(3,6) by (auto simp: due_def key less_eq_prod_def)
  qed
  moreover from this obtain e where "e \<in> set es" by (cases es) auto
  then have "(\<Union>e \<in> set es. timed_out (?owner e)) = {7, 8}" using r(4) due by (intro equalityI subsetI) (auto split: if_splits intro!: bexI [of _ e])
  then have "heap_set_of h' = {9}" using r(4,5) set due by auto
  ultimately show ?thesis using r(1-3) by blast
qed


subsection \<open>The time to wait\<close>

text \<open>
  \<open>SP_IocpEventHelper::timeoutNext\<close>: milliseconds for \<open>GetQueuedCompletionStatus\<close>. The sum is
  computed in \<open>long\<close> (32 bits on Windows) and stored in a \<open>DWORD\<close>, which is never negative.
\<close>

definition c_div :: "int \<Rightarrow> int \<Rightarrow> int" where
  "c_div a b = (if a < 0 then - ((- a) div b) else a div b)"

definition INFINITE :: "32 word" where "INFINITE = -1"

definition ms_until :: "int \<times> int \<Rightarrow> int \<times> int \<Rightarrow> int" where
  "ms_until now first = (fst first - fst now) * 1000 + c_div (snd first - snd now) 1000"

definition EventHelper_timeoutNext :: "int \<times> int \<Rightarrow> ev_heap \<Rightarrow> 32 word res" where
  "EventHelper_timeoutNext now h =
     res_bind (EventHeap_top h) (\<lambda>event.
       case event of None \<Rightarrow> Inr INFINITE
       | Some e \<Rightarrow>
           let ms = ms_until now (hp_mTimeout h e) in
           if \<not> int_ok ms then Inl SignedOverflow
           else let ret = (word_of_int ms :: 32 word) in Inr (if ret < 0 then 0 else ret))"

text \<open>
  For an event in the future the answer is the time until then. For one that is overdue by \<open>d\<close>
  milliseconds it is \<open>2 ^ 32 - d\<close>, 49 days; by one millisecond it is \<open>INFINITE\<close>: the loop sleeps
  although an event is due.
\<close>

lemma timeoutNext_value:
  assumes "EventHeap_top h = Inr (Some e)" "ms = ms_until now (hp_mTimeout h e)" "int_ok ms"
  shows "\<exists>w. EventHelper_timeoutNext now h = Inr w \<and> uint w = (if 0 \<le> ms then ms else 2 ^ 32 + ms)"
proof -
  have "ms mod 2 ^ 32 = (if 0 \<le> ms then ms else 2 ^ 32 + ms)"
  proof (cases "0 \<le> ms")
    case True
    then show ?thesis using assms(3) by (simp add: int_ok_def int_max_def)
  next
    case False
    then have "ms mod 2 ^ 32 = (ms + 2 ^ 32) mod 2 ^ 32" by simp
    also have "\<dots> = ms + 2 ^ 32" using False assms(3) by (intro mod_pos_pos_trivial) (simp_all add: int_ok_def int_max_def)
    finally show ?thesis using False by simp
  qed
  then have "uint (word_of_int ms :: 32 word) = (if 0 \<le> ms then ms else 2 ^ 32 + ms)"
    by (simp add: uint_word_of_int)
  then show ?thesis using assms by (simp add: EventHelper_timeoutNext_def Let_def)
qed

lemma timeoutNext_overdue_sleeps:
  assumes "EventHeap_top h = Inr (Some e)" "ms_until now (hp_mTimeout h e) = -1"
  shows "EventHelper_timeoutNext now h = Inr INFINITE"
  using assms by (simp add: EventHelper_timeoutNext_def INFINITE_def int_ok_def int_max_def Let_def)

end
