(* ===== verification/SP_MsgQueue.thy ===== *)
theory SP_MsgQueue
  imports SP_CircleQueue
begin

unbundle bit_operations_syntax

text \<open>
  The message queue of event_msgqueue.c, through which the worker threads hand responses and
  the dispatcher's callers hand sockets to the event loop: the power-of-two ring
  \<open>circqueue\<close> (32-bit unsigned indices, wrapped with a mask), its growth, and
  \<open>msgqueue_push\<close> and \<open>msgqueue_pop\<close> with the wake-up byte on the socket pair. The ring is
  seen through \<open>ring_of\<close> as an \<open>SP_CircleQueue\<close> ring that does not grow, so the wrap-around
  arguments are those of \<open>SP_CircleQueue\<close>. \<open>malloc\<close> is a parameter: \<open>alloc n\<close> says whether an
  array of \<open>n\<close> pointers can be had.
\<close>

type_synonym u32 = "32 word"

subsection \<open>Rounding up to a power of two\<close>

definition nextpow2 :: "u32 \<Rightarrow> u32" where
  "nextpow2 num =
     (let n0 = num - 1;
          n1 = n0 OR drop_bit 1 n0;
          n2 = n1 OR drop_bit 2 n1;
          n3 = n2 OR drop_bit 4 n2;
          n4 = n3 OR drop_bit 8 n3;
          n5 = n4 OR drop_bit 16 n4
      in n5 + 1)"

text \<open>Each line doubles the stretch over which every set bit is copied to the right.\<close>

definition smeared :: "nat \<Rightarrow> u32 \<Rightarrow> u32 \<Rightarrow> bool" where
  "smeared a m x \<longleftrightarrow> (\<forall>i. bit x i \<longleftrightarrow> (\<exists>d<a. bit m (i + d)))"

lemma smeared_one: "smeared 1 m m"
  by (simp add: smeared_def)

lemma smeared_double:
  assumes "smeared a m x"
  shows "smeared (a + a) m (x OR drop_bit a x)"
proof -
  have "bit (x OR drop_bit a x) i \<longleftrightarrow> (\<exists>d<a + a. bit m (i + d))" for i
  proof -
    have "bit (x OR drop_bit a x) i \<longleftrightarrow> (\<exists>d<a. bit m (i + d)) \<or> (\<exists>d<a. bit m (a + i + d))"
      using assms by (simp add: smeared_def bit_or_iff bit_drop_bit_eq)
    also have "\<dots> \<longleftrightarrow> (\<exists>d<a + a. bit m (i + d))"
    proof
      assume "(\<exists>d<a. bit m (i + d)) \<or> (\<exists>d<a. bit m (a + i + d))"
      then show "\<exists>d<a + a. bit m (i + d)"
      proof
        assume "\<exists>d<a. bit m (a + i + d)"
        then obtain d where "d < a" "bit m (a + i + d)" by blast
        then have "a + d < a + a \<and> bit m (i + (a + d))" by (simp add: add.left_commute add.assoc)
        then show ?thesis by blast
      qed (auto intro: trans_less_add1)
    next
      assume "\<exists>d<a + a. bit m (i + d)"
      then obtain d where d: "d < a + a" "bit m (i + d)" by blast
      show "(\<exists>d<a. bit m (i + d)) \<or> (\<exists>d<a. bit m (a + i + d))"
      proof (cases "d < a")
        case False
        with d have "d - a < a" "bit m (a + i + (d - a))" by (simp_all add: add.commute)
        then show ?thesis by blast
      qed (use d in blast)
    qed
    finally show ?thesis .
  qed
  then show ?thesis by (simp add: smeared_def)
qed

lemma high_bit_iff:
  fixes m :: u32
  shows "(\<exists>d<32. bit m (i + d)) \<longleftrightarrow> 2 ^ i \<le> unat m"
proof
  assume "\<exists>d<32. bit m (i + d)"
  then obtain d where d: "bit m (i + d)" by blast
  then have "odd (unat m div 2 ^ (i + d))" by (simp add: bit_iff_odd [symmetric] bit_unsigned_iff)
  then have "2 ^ (i + d) \<le> unat m" by (cases "unat m < 2 ^ (i + d)") (simp_all add: div_less)
  then show "2 ^ i \<le> unat m" by (meson le_add1 le_trans one_le_numeral power_increasing)
next
  assume "2 ^ i \<le> unat m"
  then have "drop_bit i (unat m) \<noteq> 0" by (simp add: drop_bit_eq_div div_greater_zero_iff)
  then obtain d where "bit (drop_bit i (unat m)) d" by (metis bit_eq_iff bit_0_eq bot_apply bot_bool_def)
  then have b: "bit m (i + d)" by (simp add: bit_drop_bit_eq bit_unsigned_iff)
  then have "i + d < 32" using bit_imp_le_length [OF b] by simp
  with b show "\<exists>d<32. bit m (i + d)" by (intro exI [of _ d]) simp
qed

lemma nextpow2_smear: "\<exists>x. smeared 32 (num - 1) x \<and> nextpow2 num = x + 1"
proof -
  define n0 where "n0 = num - 1"
  define n1 where "n1 = n0 OR drop_bit 1 n0"
  define n2 where "n2 = n1 OR drop_bit 2 n1"
  define n3 where "n3 = n2 OR drop_bit 4 n2"
  define n4 where "n4 = n3 OR drop_bit 8 n3"
  define n5 where "n5 = n4 OR drop_bit 16 n4"
  have 1: "smeared 2 n0 n1"
    using smeared_double [OF smeared_one] by (simp only: n1_def one_add_one)
  have 2: "smeared 4 n0 n2" using smeared_double [OF 1] by (simp add: n2_def)
  have 3: "smeared 8 n0 n3" using smeared_double [OF 2] by (simp add: n3_def)
  have 4: "smeared 16 n0 n4" using smeared_double [OF 3] by (simp add: n4_def)
  have "smeared 32 n0 n5" using smeared_double [OF 4] by (simp add: n5_def)
  moreover have "nextpow2 num = n5 + 1"
    by (simp add: nextpow2_def n0_def n1_def n2_def n3_def n4_def n5_def Let_def)
  ultimately show ?thesis unfolding n0_def by blast
qed

lemma nextpow2_val:
  assumes "k \<le> 32" "unat (num - 1) < 2 ^ k" "k = 0 \<or> 2 ^ (k - 1) \<le> unat (num - 1)"
  shows "nextpow2 num = 2 ^ k"
proof -
  obtain x where x: "smeared 32 (num - 1) x" "nextpow2 num = x + 1"
    using nextpow2_smear by blast
  have "bit x i \<longleftrightarrow> i < k" for i
  proof -
    have "bit x i \<longleftrightarrow> 2 ^ i \<le> unat (num - 1)"
      using x(1) high_bit_iff by (simp add: smeared_def)
    also have "\<dots> \<longleftrightarrow> i < k"
    proof
      assume "2 ^ i \<le> unat (num - 1)"
      then have "(2::nat) ^ i < 2 ^ k" using assms(2) by (rule le_less_trans)
      then show "i < k" by simp
    next
      assume "i < k"
      then have "(2::nat) ^ i \<le> 2 ^ (k - 1)" by (simp add: power_increasing)
      also have "\<dots> \<le> unat (num - 1)" using assms(3) \<open>i < k\<close> by simp
      finally show "2 ^ i \<le> unat (num - 1)" .
    qed
    finally show ?thesis .
  qed
  then have "x = mask k" by (intro bit_word_eqI) (simp add: bit_mask_iff)
  then show ?thesis using x(2) by (simp add: mask_eq_decr_exp)
qed


subsection \<open>The ring\<close>

record 'a circqueue =
  cc_head :: u32
  cc_tail :: u32
  cc_count :: u32
  cc_max_entries :: u32
  cc_array_elements :: u32
  cc_entries :: "'a option list"

definition DEFAULT_UNBOUNDED_QUEUE_SIZE :: u32 where
  "DEFAULT_UNBOUNDED_QUEUE_SIZE = 1024"

definition circqueue_new :: "(nat \<Rightarrow> bool) \<Rightarrow> u32 \<Rightarrow> 'a circqueue option" where
  "circqueue_new alloc sz =
     (let n = (if sz = 0 \<or> nextpow2 sz = 0 then DEFAULT_UNBOUNDED_QUEUE_SIZE else nextpow2 sz)
      in if alloc (unat n)
         then Some \<lparr> cc_head = 0, cc_tail = 0, cc_count = 0, cc_max_entries = sz,
                     cc_array_elements = n, cc_entries = replicate (unat n) None \<rparr>
         else None)"

definition circqueue_get_length :: "'a circqueue \<Rightarrow> u32" where
  "circqueue_get_length c = cc_count c"

definition circqueue_is_empty :: "'a circqueue \<Rightarrow> bool" where
  "circqueue_is_empty c \<longleftrightarrow> circqueue_get_length c = 0"

definition circqueue_is_full :: "'a circqueue \<Rightarrow> bool" where
  "circqueue_is_full c \<longleftrightarrow> cc_count c = cc_array_elements c"

definition circqueue_grow :: "(nat \<Rightarrow> bool) \<Rightarrow> 'a circqueue \<Rightarrow> int \<times> 'a circqueue" where
  "circqueue_grow alloc c =
     (let newsize = push_bit 1 (cc_array_elements c);
          (headchunklen, tailchunklen) =
            (if cc_head c < cc_tail c then (cc_tail c - cc_head c, 0)
             else (cc_array_elements c - cc_head c, cc_tail c))
      in if alloc (unat newsize)
         then (0, c\<lparr> cc_head := 0,
                     cc_tail := headchunklen + tailchunklen,
                     cc_array_elements := newsize,
                     cc_entries :=
                       take (unat headchunklen) (drop (unat (cc_head c)) (cc_entries c))
                       @ take (unat tailchunklen) (cc_entries c)
                       @ replicate (unat newsize - (unat headchunklen + unat tailchunklen)) None \<rparr>)
         else (-1, c))"

text \<open>The statements of \<open>circqueue_push_tail\<close> after its guards.\<close>

definition circqueue_store :: "'a \<Rightarrow> 'a circqueue \<Rightarrow> 'a circqueue" where
  "circqueue_store elem c =
     c\<lparr> cc_count := cc_count c + 1,
        cc_entries := (cc_entries c)[unat (cc_tail c) := Some elem],
        cc_tail := (cc_tail c + 1) AND (cc_array_elements c - 1) \<rparr>"

definition circqueue_push_tail ::
    "(nat \<Rightarrow> bool) \<Rightarrow> 'a \<Rightarrow> 'a circqueue \<Rightarrow> int \<times> 'a circqueue" where
  "circqueue_push_tail alloc elem c =
     (if cc_max_entries c \<noteq> 0
      then (if cc_count c = cc_max_entries c then (-1, c) else (0, circqueue_store elem c))
      else if circqueue_is_full c
      then (case circqueue_grow alloc c of (r, d) \<Rightarrow>
              if r \<noteq> 0 then (-1, d) else (0, circqueue_store elem d))
      else (0, circqueue_store elem c))"

definition circqueue_pop_head :: "'a circqueue \<Rightarrow> 'a option \<times> 'a circqueue" where
  "circqueue_pop_head c =
     (if cc_count c = 0 then (None, c)
      else (cc_entries c ! unat (cc_head c),
            c\<lparr> cc_count := cc_count c - 1,
               cc_head := (cc_head c + 1) AND (cc_array_elements c - 1) \<rparr>))"

subsection \<open>The ring is a ring of SP_CircleQueue\<close>

definition ring_of :: "'a circqueue \<Rightarrow> 'a circle_queue" where
  "ring_of c = \<lparr> cq_mEntries = cc_entries c, cq_mHead = unat (cc_head c),
     cq_mTail = unat (cc_tail c), cq_mCount = unat (cc_count c),
     cq_mMaxCount = unat (cc_array_elements c) \<rparr>"

text \<open>No allocator hands out more than \<open>2 ^ 30\<close> pointers in one array.\<close>

definition alloc_ok :: "(nat \<Rightarrow> bool) \<Rightarrow> bool" where
  "alloc_ok alloc \<longleftrightarrow> (\<forall>n. alloc n \<longrightarrow> n \<le> 2 ^ 30)"

definition circqueue_inv :: "(nat \<Rightarrow> bool) \<Rightarrow> 'a circqueue \<Rightarrow> bool" where
  "circqueue_inv alloc c \<longleftrightarrow> alloc_ok alloc \<and> CircleQueue_inv (ring_of c) \<and>
     (\<exists>k\<le>30. cc_array_elements c = 2 ^ k) \<and>
     (cc_max_entries c \<noteq> 0 \<longrightarrow> cc_count c \<le> cc_max_entries c \<and> cc_max_entries c \<le> cc_array_elements c)"

definition circqueue_abs :: "'a circqueue \<Rightarrow> 'a list" where
  "circqueue_abs c = CircleQueue_abs (ring_of c)"

lemma unat_pow2:
  assumes "k \<le> 30"
  shows "unat ((2::u32) ^ k) = 2 ^ k"
proof -
  have "(2::nat) ^ k \<le> 2 ^ 30" using assms by (intro power_increasing) simp_all
  then have "take_bit 32 ((2::nat) ^ k) = 2 ^ k" by (intro take_bit_nat_eq_self) simp
  moreover have "unat (of_nat (2 ^ k) :: u32) = take_bit 32 (2 ^ k)"
    by (simp only: unsigned_of_nat of_nat_id) simp
  ultimately show ?thesis by simp
qed

lemma masked_succ:
  fixes h n :: u32
  assumes "k \<le> 30" "n = 2 ^ k" "unat h < 2 ^ k"
  shows "unat ((h + 1) AND (n - 1)) = (unat h + 1) mod unat n"
proof -
  have "(2::nat) ^ k \<le> 2 ^ 30" using assms(1) by (intro power_increasing) simp_all
  with assms(3) have h: "unat (h + 1) = unat h + 1" by (simp add: unat_word_ariths)
  have "unat ((h + 1) AND (n - 1)) = unat (take_bit k (h + 1))"
    by (simp only: assms(2) take_bit_eq_mask mask_eq_decr_exp)
  also have "\<dots> = (unat h + 1) mod 2 ^ k"
    by (simp only: unsigned_take_bit_eq h) (simp only: take_bit_eq_mod)
  finally show ?thesis using unat_pow2 [OF assms(1)] by (simp only: assms(2))
qed

lemma ring_of_simps [simp]:
  "cq_mEntries (ring_of c) = cc_entries c" "cq_mHead (ring_of c) = unat (cc_head c)"
  "cq_mTail (ring_of c) = unat (cc_tail c)" "cq_mCount (ring_of c) = unat (cc_count c)"
  "cq_mMaxCount (ring_of c) = unat (cc_array_elements c)"
  by (simp_all add: ring_of_def)

lemma circqueue_invE:
  assumes "circqueue_inv alloc c"
  obtains k where "k \<le> 30" "cc_array_elements c = 2 ^ k" "unat (cc_array_elements c) = 2 ^ k"
    "CircleQueue_inv (ring_of c)" "unat (cc_count c) \<le> 2 ^ k" "unat (cc_head c) < 2 ^ k"
    "unat (cc_tail c) < 2 ^ k" "alloc_ok alloc"
proof -
  from assms obtain k where k: "k \<le> 30" "cc_array_elements c = 2 ^ k"
    and r: "CircleQueue_inv (ring_of c)" "alloc_ok alloc"
    by (auto simp: circqueue_inv_def)
  have u: "unat (cc_array_elements c) = 2 ^ k" using unat_pow2 [OF k(1)] k(2) by simp
  from r(1) u have "unat (cc_count c) \<le> 2 ^ k" "unat (cc_head c) < 2 ^ k" "unat (cc_tail c) < 2 ^ k"
    by (simp_all add: CircleQueue_inv_def ring_pos_def)
  with that k u r show thesis by blast
qed

lemma unat_count_succ:
  assumes "circqueue_inv alloc c"
  shows "unat (cc_count c + 1) = unat (cc_count c) + 1"
proof -
  from assms obtain k where k: "k \<le> 30" "unat (cc_count c) \<le> 2 ^ k" by (rule circqueue_invE)
  have "(2::nat) ^ k \<le> 2 ^ 30" using k(1) by (intro power_increasing) simp_all
  with k(2) show ?thesis by (simp add: unat_word_ariths)
qed

lemma unat_count_pred: "cc_count c \<noteq> 0 \<Longrightarrow> unat (cc_count c - 1) = unat (cc_count c) - 1"
  by (rule unat_minus_one)

text \<open>A ring that is not full: \<open>circqueue_store\<close> is the push of \<open>SP_CircleQueue\<close>.\<close>

lemma circqueue_store_ring:
  assumes inv: "circqueue_inv alloc c" and room: "cc_count c < cc_array_elements c"
  shows "ring_of (circqueue_store x c) = CircleQueue_push x (ring_of c)"
proof -
  from inv obtain k where k: "k \<le> 30" "cc_array_elements c = 2 ^ k" "unat (cc_tail c) < 2 ^ k"
    by (rule circqueue_invE)
  have "CircleQueue_grow (ring_of c) = ring_of c"
    using room by (simp add: CircleQueue_grow_def word_less_nat_alt)
  moreover have "unat ((cc_tail c + 1) AND (cc_array_elements c - 1)) =
      (unat (cc_tail c) + 1) mod unat (cc_array_elements c)"
    by (rule masked_succ [OF k])
  ultimately show ?thesis
    using unat_count_succ [OF inv]
    by (simp add: CircleQueue_push_def Let_def) (simp add: ring_of_def circqueue_store_def)
qed

lemma circqueue_store_frame:
  "cc_array_elements (circqueue_store x c) = cc_array_elements c"
  "cc_max_entries (circqueue_store x c) = cc_max_entries c"
  "cc_count (circqueue_store x c) = cc_count c + 1"
  by (simp_all add: circqueue_store_def)

lemma circqueue_store_facts:
  assumes inv: "circqueue_inv alloc c" and room: "cc_count c < cc_array_elements c"
    and bound: "cc_max_entries c \<noteq> 0 \<longrightarrow> cc_count c \<noteq> cc_max_entries c"
  shows "circqueue_inv alloc (circqueue_store x c)"
    and "circqueue_abs (circqueue_store x c) = circqueue_abs c @ [x]"
proof -
  note r = circqueue_store_ring [OF inv room, of x]
  have c: "CircleQueue_inv (ring_of c)" using inv by (simp add: circqueue_inv_def)
  show "circqueue_abs (circqueue_store x c) = circqueue_abs c @ [x]"
    by (simp add: circqueue_abs_def r CircleQueue_push_facts [OF c])
  have "cc_count c + 1 \<le> cc_max_entries c" if "cc_max_entries c \<noteq> 0"
  proof -
    from that inv bound have "cc_count c < cc_max_entries c"
      by (simp add: circqueue_inv_def order_less_le)
    then show ?thesis using unat_count_succ [OF inv] by (simp add: word_le_nat_alt word_less_nat_alt)
  qed
  with inv r CircleQueue_push_facts [OF c, of x]
  show "circqueue_inv alloc (circqueue_store x c)"
    by (simp add: circqueue_inv_def circqueue_store_frame)
qed

lemma circqueue_pop_ring:
  assumes inv: "circqueue_inv alloc c"
  shows "CircleQueue_pop (ring_of c) = (fst (circqueue_pop_head c), ring_of (snd (circqueue_pop_head c)))"
proof (cases "cc_count c = 0")
  case True
  then show ?thesis by (simp add: CircleQueue_pop_def circqueue_pop_head_def)
next
  case False
  from inv obtain k where k: "k \<le> 30" "cc_array_elements c = 2 ^ k" "unat (cc_head c) < 2 ^ k"
    by (rule circqueue_invE)
  have "0 < unat (cc_count c)" using False by (simp add: unat_gt_0)
  with False show ?thesis
    using masked_succ [OF k] unat_count_pred [OF False]
    by (simp add: CircleQueue_pop_def circqueue_pop_head_def ring_of_def)
qed

lemma circqueue_pop_facts:
  assumes inv: "circqueue_inv alloc c"
  shows "circqueue_inv alloc (snd (circqueue_pop_head c))"
    and "circqueue_abs (snd (circqueue_pop_head c)) = tl (circqueue_abs c)"
    and "fst (circqueue_pop_head c) = (case circqueue_abs c of [] \<Rightarrow> None | x # _ \<Rightarrow> Some x)"
proof -
  note r = circqueue_pop_ring [OF inv]
  have c: "CircleQueue_inv (ring_of c)" using inv by (simp add: circqueue_inv_def)
  have frame: "cc_array_elements (snd (circqueue_pop_head c)) = cc_array_elements c"
    "cc_max_entries (snd (circqueue_pop_head c)) = cc_max_entries c"
    by (simp_all add: circqueue_pop_head_def)
  have less: "cc_count (snd (circqueue_pop_head c)) \<le> cc_count c"
    using unat_count_pred [of c] by (auto simp: circqueue_pop_head_def word_le_nat_alt)
  show "circqueue_inv alloc (snd (circqueue_pop_head c))"
    using inv CircleQueue_pop_facts(1) [OF c] less r
    by (auto simp: circqueue_inv_def frame)
  show "circqueue_abs (snd (circqueue_pop_head c)) = tl (circqueue_abs c)"
    using CircleQueue_pop_facts(2) [OF c] r by (simp add: circqueue_abs_def)
  show "fst (circqueue_pop_head c) = (case circqueue_abs c of [] \<Rightarrow> None | x # _ \<Rightarrow> Some x)"
    using CircleQueue_pop_fst [OF c] r by (simp add: circqueue_abs_def)
qed

text \<open>A ring laid out afresh in a larger array.\<close>

lemma ring_relocated:
  assumes "cq_mCount q < n"
    and p: "p = \<lparr> cq_mEntries = map Some (CircleQueue_abs q) @ replicate (n - cq_mCount q) None,
         cq_mHead = 0, cq_mTail = cq_mCount q, cq_mCount = cq_mCount q, cq_mMaxCount = n \<rparr>"
  shows "CircleQueue_inv p" and "CircleQueue_abs p = CircleQueue_abs q"
proof -
  have pos: "ring_pos p i = i" if "i \<le> cq_mCount q" for i
    using that assms(1) by (simp add: p ring_pos_def)
  show a: "CircleQueue_abs p = CircleQueue_abs q"
    using pos by (intro nth_equalityI) (auto simp: p CircleQueue_abs_def nth_append)
  show "CircleQueue_inv p"
    using assms(1) pos by (auto simp: p CircleQueue_inv_def nth_append)
qed

lemma circqueue_grow_facts:
  assumes inv: "circqueue_inv alloc c" and full: "circqueue_is_full c"
    and ok: "circqueue_grow alloc c = (0, d)" and unb: "cc_max_entries c = 0"
  shows "circqueue_inv alloc d \<and> circqueue_abs d = circqueue_abs c \<and> cc_count d = cc_count c
    \<and> cc_count d < cc_array_elements d \<and> cc_max_entries d = 0"
proof -
  from inv obtain k where k: "k \<le> 30" "cc_array_elements c = 2 ^ k" "unat (cc_array_elements c) = 2 ^ k"
    "CircleQueue_inv (ring_of c)" "unat (cc_head c) < 2 ^ k" "alloc_ok alloc"
    by (rule circqueue_invE)
  let ?q = "ring_of c"
  have cnt: "cq_mCount ?q = cq_mMaxCount ?q" using full by (simp add: circqueue_is_full_def)
  note whole = CircleQueue_grow_full [OF k(4) cnt]
  have th: "cc_tail c = cc_head c" using whole(1) by (simp add: word_unat_eq_iff)
  have new: "push_bit 1 (cc_array_elements c) = 2 ^ Suc k" by (simp add: k(2) push_bit_eq_mult)
  note ok' = ok [unfolded circqueue_grow_def new Let_def]
  from ok' have al: "alloc (unat ((2::u32) ^ Suc k))"
    by (auto simp del: power_Suc split: if_splits)
  then have small: "unat ((2::u32) ^ Suc k) \<le> 2 ^ 30" using k(6) unfolding alloc_ok_def by blast
  have "Suc k \<noteq> 31"
  proof
    assume "Suc k = 31"
    with small have "unat ((2::u32) ^ 31) \<le> 2 ^ 30" by (simp only:)
    then show False by simp
  qed
  with k(1) have k1: "Suc k \<le> 30" by simp
  have "unat (cc_array_elements c - cc_head c) = unat (cc_array_elements c) - unat (cc_head c)"
    using k(3,5) by (intro unat_sub) (simp add: word_le_nat_alt)
  with ok' al k(3,5) unat_pow2 [OF k1] whole(2) cnt th have
    d: "d = c\<lparr> cc_head := 0, cc_tail := cc_array_elements c, cc_array_elements := 2 ^ Suc k,
          cc_entries := map Some (CircleQueue_abs ?q) @ replicate (2 ^ Suc k - cq_mCount ?q) None \<rparr>"
    by (auto simp del: power_Suc split: if_splits)
  have r: "ring_of d = \<lparr> cq_mEntries = map Some (CircleQueue_abs ?q) @ replicate (2 ^ Suc k - cq_mCount ?q) None,
         cq_mHead = 0, cq_mTail = cq_mCount ?q, cq_mCount = cq_mCount ?q, cq_mMaxCount = 2 ^ Suc k \<rparr>"
    using cnt unat_pow2 [OF k1] by (simp add: ring_of_def d)
  have lt: "cq_mCount ?q < 2 ^ Suc k" using cnt k(3) by simp
  from ring_relocated [OF lt r] k k1 lt unat_pow2 [OF k1] unb show ?thesis
    by (auto simp: circqueue_inv_def circqueue_abs_def word_less_nat_alt d intro!: exI [of _ "Suc k"])
qed

lemma circqueue_push_facts:
  assumes inv: "circqueue_inv alloc c"
  shows "circqueue_inv alloc (snd (circqueue_push_tail alloc x c))"
    and "fst (circqueue_push_tail alloc x c) = 0 \<Longrightarrow>
      circqueue_abs (snd (circqueue_push_tail alloc x c)) = circqueue_abs c @ [x]"
    and "fst (circqueue_push_tail alloc x c) \<noteq> 0 \<Longrightarrow> snd (circqueue_push_tail alloc x c) = c"
proof -
  let ?r = "circqueue_push_tail alloc x c"
  have le: "cc_count c \<le> cc_array_elements c"
    using inv by (auto simp: circqueue_inv_def CircleQueue_inv_def word_le_nat_alt)
  have bnd: "cc_max_entries c \<noteq> 0 \<Longrightarrow> cc_count c \<le> cc_max_entries c \<and> cc_max_entries c \<le> cc_array_elements c"
    using inv by (simp add: circqueue_inv_def)
  have "circqueue_inv alloc (snd ?r) \<and> (fst ?r = 0 \<longrightarrow> circqueue_abs (snd ?r) = circqueue_abs c @ [x])
      \<and> (fst ?r \<noteq> 0 \<longrightarrow> snd ?r = c)"
  proof (cases "cc_max_entries c \<noteq> 0")
    case True
    show ?thesis
    proof (cases "cc_count c = cc_max_entries c")
      case False
      with True bnd have "cc_count c < cc_array_elements c" by (auto simp: order_less_le)
      with False circqueue_store_facts [OF inv this] True show ?thesis
        by (simp add: circqueue_push_tail_def)
    qed (simp add: circqueue_push_tail_def True inv)
  next
    case False
    show ?thesis
    proof (cases "circqueue_is_full c")
      case notfull: False
      with le have "cc_count c < cc_array_elements c"
        by (auto simp: circqueue_is_full_def order_less_le)
      with circqueue_store_facts [OF inv this] False notfull show ?thesis
        by (simp add: circqueue_push_tail_def)
    next
      case full: True
      obtain r d where g: "circqueue_grow alloc c = (r, d)" by fastforce
      show ?thesis
      proof (cases "r = 0")
        case True
        with g have ok: "circqueue_grow alloc c = (0, d)" by simp
        from circqueue_grow_facts [OF inv full ok] False
        have d: "circqueue_inv alloc d" "circqueue_abs d = circqueue_abs c"
          "cc_count d < cc_array_elements d" "cc_max_entries d = 0" by auto
        from circqueue_store_facts [OF d(1,3), of x] d full g True False show ?thesis
          by (simp add: circqueue_push_tail_def)
      next
        case failed: False
        with g have "d = c" by (auto simp: circqueue_grow_def Let_def split: if_splits)
        with failed g full False inv show ?thesis by (simp add: circqueue_push_tail_def)
      qed
    qed
  qed
  then show "circqueue_inv alloc (snd ?r)" "fst ?r = 0 \<Longrightarrow> circqueue_abs (snd ?r) = circqueue_abs c @ [x]"
    "fst ?r \<noteq> 0 \<Longrightarrow> snd ?r = c" by blast+
qed

lemma circqueue_length_abs: "unat (circqueue_get_length c) = length (circqueue_abs c)"
  by (simp add: circqueue_get_length_def circqueue_abs_def)

interpretation mq: fifo "circqueue_push_tail alloc" circqueue_pop_head
    "\<lambda>c. unat (circqueue_get_length c)" circqueue_abs "circqueue_inv alloc" for alloc
  by unfold_locales
    (simp_all add: circqueue_push_facts circqueue_pop_facts circqueue_length_abs)


text \<open>
  A new ring keeps its invariant when its bound is at most \<open>2 ^ 31\<close>. For a larger bound
  \<open>nextpow2\<close> wraps to 0 and the ring has 1024 cells, however large the bound is.
\<close>

lemma nextpow2_bound:
  assumes "num \<noteq> 0"
  shows "unat num \<le> 2 ^ 31 \<Longrightarrow> \<exists>k\<le>31. nextpow2 num = 2 ^ k \<and> num \<le> nextpow2 num \<and>
      (\<forall>j<k. 2 ^ j < unat num)"
    and "2 ^ 31 < unat num \<Longrightarrow> nextpow2 num = 0"
proof -
  have pred: "unat (num - 1) = unat num - 1" by (rule unat_minus_one [OF assms])
  have pos: "0 < unat num" using assms by (simp add: unat_gt_0)
  {
    assume le: "unat num \<le> 2 ^ 31"
    define k where "k = (LEAST k. unat num \<le> 2 ^ k)"
    have k31: "k \<le> 31" unfolding k_def by (rule Least_le) (rule le)
    have up: "unat num \<le> 2 ^ k" unfolding k_def by (rule LeastI [of _ 31]) (rule le)
    have low: "2 ^ j < unat num" if "j < k" for j
      using not_less_Least [of j "\<lambda>k. unat num \<le> 2 ^ k"] that unfolding k_def [symmetric] by simp
    have val: "nextpow2 num = 2 ^ k"
    proof (rule nextpow2_val)
      show "unat (num - 1) < 2 ^ k" using up pos pred by simp
      show "k = 0 \<or> 2 ^ (k - 1) \<le> unat (num - 1)" using low [of "k - 1"] pred by (cases k) auto
    qed (use k31 in simp)
    have "unat ((2::u32) ^ k) = 2 ^ k"
    proof (cases "k = 31")
      case False
      with k31 show ?thesis by (intro unat_pow2) simp
    qed simp
    with up have "num \<le> 2 ^ k" by (simp add: word_le_nat_alt)
    with k31 low val show "\<exists>k\<le>31. nextpow2 num = 2 ^ k \<and> num \<le> nextpow2 num \<and> (\<forall>j<k. 2 ^ j < unat num)"
      by auto
  next
    assume lt: "2 ^ 31 < unat num"
    have "unat num < 2 ^ 32" using unsigned_less [of num] by simp
    with lt pred have "nextpow2 num = 2 ^ 32" by (intro nextpow2_val) simp_all
    then show "nextpow2 num = 0" by simp
  }
qed

lemma circqueue_new_inv:
  assumes ok: "alloc_ok alloc" and sz: "unat sz \<le> 2 ^ 31" and c: "circqueue_new alloc sz = Some c"
  shows "circqueue_inv alloc c" and "circqueue_abs c = []"
proof -
  let ?n = "cc_array_elements c"
  have c': "c = \<lparr> cc_head = 0, cc_tail = 0, cc_count = 0, cc_max_entries = sz,
      cc_array_elements = ?n, cc_entries = replicate (unat ?n) None \<rparr>" and al: "alloc (unat ?n)"
    and n: "?n = (if sz = 0 \<or> nextpow2 sz = 0 then 1024 else nextpow2 sz)"
    using c by (auto simp: circqueue_new_def Let_def DEFAULT_UNBOUNDED_QUEUE_SIZE_def split: if_splits)
  have small: "unat ?n \<le> 2 ^ 30" using ok al by (simp add: alloc_ok_def)
  have "\<exists>k\<le>30. ?n = 2 ^ k \<and> sz \<le> ?n"
  proof (cases "sz = 0")
    case True
    with n have "?n = 2 ^ 10" by simp
    with True show ?thesis by (intro exI [of _ 10]) simp
  next
    case False
    from nextpow2_bound(1) [OF False sz] obtain k where k: "k \<le> 31" "nextpow2 sz = 2 ^ k" "sz \<le> nextpow2 sz"
      by blast
    have nz: "nextpow2 sz \<noteq> 0" using k(3) False by auto
    with n False have e: "?n = nextpow2 sz" by simp
    have "k \<noteq> 31"
    proof
      assume "k = 31"
      with small e k(2) have "unat ((2::u32) ^ 31) \<le> 2 ^ 30" by (simp only:)
      then show False by simp
    qed
    with k e show ?thesis by (intro exI [of _ k]) simp
  qed
  then obtain k where k: "k \<le> 30" "?n = 2 ^ k" "sz \<le> ?n" by blast
  have pos: "0 < unat ?n" using unat_pow2 [OF k(1)] k(2) by simp
  have cnt: "cc_count c = 0" "cc_max_entries c = sz" "cc_head c = 0" "cc_tail c = 0"
    "length (cc_entries c) = unat ?n" by (subst c', simp)+
  show "circqueue_abs c = []" by (simp add: circqueue_abs_def CircleQueue_abs_def cnt)
  show "circqueue_inv alloc c"
    unfolding circqueue_inv_def using ok k pos
    by (auto simp: CircleQueue_inv_def ring_pos_def cnt)
qed


subsection \<open>The queue with its socket pair\<close>

text \<open>
  The threads. A call of \<open>msgqueue_push\<close> holds the lock from beginning to end; when the message
  is the first in the queue it sends one byte, and \<open>send\<close> on the blocking socket waits while
  \<open>cap\<close> bytes are on their way (\<open>cap\<close> stands for the room of the socket). Waiting, the call
  still holds the lock: \<open>mq_sending\<close>. The event loop calls \<open>msgqueue_pop\<close> when the socket is
  readable: it receives up to 64 bytes without the lock and then takes the messages one by one,
  with the lock held except during the callbacks (\<open>unlock_between_callbacks\<close> is 1).
  \<open>mq_pushed\<close> and \<open>mq_called\<close> are a history, without counterpart in the code.
\<close>

record 'a msgqueue =
  mq_queue :: "'a circqueue"
  mq_pipe :: nat             \<comment> \<open>bytes sent on \<open>push_fd\<close>, not yet received\<close>
  mq_sending :: bool         \<comment> \<open>a push waits in \<open>send\<close>, the lock held\<close>
  mq_popping :: bool         \<comment> \<open>the event loop is in the loop of \<open>msgqueue_pop\<close>\<close>
  mq_pushed :: "'a list"
  mq_called :: "'a list"

definition msgqueue_new :: "(nat \<Rightarrow> bool) \<Rightarrow> u32 \<Rightarrow> 'a msgqueue option" where
  "msgqueue_new alloc max_size =
     map_option (\<lambda>c. \<lparr> mq_queue = c, mq_pipe = 0, mq_sending = False, mq_popping = False,
       mq_pushed = [], mq_called = [] \<rparr>) (circqueue_new alloc max_size)"

text \<open>\<open>msgqueue_push\<close> up to its return or to the wait in \<open>send\<close>.\<close>

definition msgqueue_push ::
    "(nat \<Rightarrow> bool) \<Rightarrow> nat \<Rightarrow> 'a \<Rightarrow> 'a msgqueue \<Rightarrow> int \<times> 'a msgqueue" where
  "msgqueue_push alloc cap msg m =
     (case circqueue_push_tail alloc msg (mq_queue m) of (r, c) \<Rightarrow>
        if r = 0
        then let m' = m\<lparr> mq_queue := c, mq_pushed := mq_pushed m @ [msg] \<rparr>
             in (r, if circqueue_get_length c = 1
                    then (if mq_pipe m < cap then m'\<lparr> mq_pipe := mq_pipe m + 1 \<rparr>
                          else m'\<lparr> mq_sending := True \<rparr>)
                    else m')
        else (r, m\<lparr> mq_queue := c \<rparr>))"

text \<open>One turn of the loop of \<open>msgqueue_pop\<close>: take a message and call the callback with it.\<close>

definition msgqueue_take :: "'a msgqueue \<Rightarrow> 'a msgqueue" where
  "msgqueue_take m =
     (case circqueue_pop_head (mq_queue m) of (x, c) \<Rightarrow>
        m\<lparr> mq_queue := c, mq_called := mq_called m @ (case x of None \<Rightarrow> [] | Some d \<Rightarrow> [d]) \<rparr>)"

definition msgqueue_length :: "'a msgqueue \<Rightarrow> u32" where
  "msgqueue_length m = circqueue_get_length (mq_queue m)"

datatype 'a mq_event =
    MqPush 'a        \<comment> \<open>a thread calls \<open>msgqueue_push\<close>\<close>
  | MqSent           \<comment> \<open>a waiting \<open>send\<close> finds room and the push returns\<close>
  | MqReady          \<comment> \<open>the event loop calls \<open>msgqueue_pop\<close>, which receives the bytes\<close>
  | MqTake           \<comment> \<open>a turn of its loop\<close>
  | MqReturn         \<comment> \<open>the queue is empty and \<open>msgqueue_pop\<close> returns\<close>

inductive mq_step :: "(nat \<Rightarrow> bool) \<Rightarrow> nat \<Rightarrow> 'a msgqueue \<Rightarrow> 'a mq_event \<Rightarrow> 'a msgqueue \<Rightarrow> bool"
  for alloc :: "nat \<Rightarrow> bool" and cap :: nat where
  push: "\<not> mq_sending m \<Longrightarrow> mq_step alloc cap m (MqPush x) (snd (msgqueue_push alloc cap x m))"
| sent: "mq_sending m \<Longrightarrow> mq_pipe m < cap \<Longrightarrow>
     mq_step alloc cap m MqSent (m\<lparr> mq_sending := False, mq_pipe := mq_pipe m + 1 \<rparr>)"
| ready: "\<not> mq_popping m \<Longrightarrow> 0 < mq_pipe m \<Longrightarrow>
     mq_step alloc cap m MqReady (m\<lparr> mq_popping := True, mq_pipe := mq_pipe m - min 64 (mq_pipe m) \<rparr>)"
| take: "mq_popping m \<Longrightarrow> \<not> mq_sending m \<Longrightarrow> \<not> circqueue_is_empty (mq_queue m) \<Longrightarrow>
     mq_step alloc cap m MqTake (msgqueue_take m)"
| return: "mq_popping m \<Longrightarrow> \<not> mq_sending m \<Longrightarrow> circqueue_is_empty (mq_queue m) \<Longrightarrow>
     mq_step alloc cap m MqReturn (m\<lparr> mq_popping := False \<rparr>)"

inductive mq_run :: "(nat \<Rightarrow> bool) \<Rightarrow> nat \<Rightarrow> 'a mq_event list \<Rightarrow> 'a msgqueue \<Rightarrow> bool"
  for alloc :: "nat \<Rightarrow> bool" and cap :: nat where
  start: "msgqueue_new alloc 0 = Some m \<Longrightarrow> mq_run alloc cap [] m"
| step: "mq_run alloc cap es m \<Longrightarrow> mq_step alloc cap m e m' \<Longrightarrow> mq_run alloc cap (es @ [e]) m'"

inductive_simps mq_step_simps:
  "mq_step alloc cap m (MqPush x) m'" "mq_step alloc cap m MqSent m'" "mq_step alloc cap m MqReady m'"
  "mq_step alloc cap m MqTake m'" "mq_step alloc cap m MqReturn m'"

subsection \<open>No message is lost, none is left without a wake-up\<close>

definition mq_waiting :: "'a msgqueue \<Rightarrow> 'a list" where
  "mq_waiting m = circqueue_abs (mq_queue m)"

definition mq_inv :: "(nat \<Rightarrow> bool) \<Rightarrow> nat \<Rightarrow> 'a msgqueue \<Rightarrow> bool" where
  "mq_inv alloc cap m \<longleftrightarrow> circqueue_inv alloc (mq_queue m) \<and>
     mq_pushed m = mq_called m @ mq_waiting m \<and> mq_pipe m \<le> cap \<and>
     (mq_waiting m \<noteq> [] \<longrightarrow> mq_popping m \<or> 0 < mq_pipe m \<or> mq_sending m) \<and>
     (mq_sending m \<longrightarrow> mq_waiting m \<noteq> [])"

lemma circqueue_empty_abs: "circqueue_is_empty c \<longleftrightarrow> circqueue_abs c = []"
  using circqueue_length_abs [of c]
  by (auto simp: circqueue_is_empty_def simp flip: length_0_conv unat_eq_zero)

lemma circqueue_one_abs: "circqueue_get_length c = 1 \<longleftrightarrow> length (circqueue_abs c) = 1"
  using circqueue_length_abs [of c] by (auto simp: word_unat_eq_iff)

lemma msgqueue_push_inv:
  assumes inv: "mq_inv alloc cap m" and "\<not> mq_sending m"
  shows "mq_inv alloc cap (snd (msgqueue_push alloc cap x m))"
proof -
  have c: "circqueue_inv alloc (mq_queue m)" using inv by (simp add: mq_inv_def)
  obtain r d where p: "circqueue_push_tail alloc x (mq_queue m) = (r, d)" by fastforce
  note f = circqueue_push_facts [OF c, of x, unfolded p fst_conv snd_conv]
  show ?thesis
  proof (cases "r = 0")
    case True
    with f have d: "circqueue_inv alloc d" "circqueue_abs d = mq_waiting m @ [x]"
      by (simp_all add: mq_waiting_def)
    from d(2) have one: "circqueue_get_length d = 1 \<longleftrightarrow> mq_waiting m = []"
      by (simp add: circqueue_one_abs)
    show ?thesis using inv assms(2) True d one
      by (auto simp: msgqueue_push_def p mq_inv_def Let_def mq_waiting_def)
  next
    case False
    with f inv show ?thesis by (simp add: msgqueue_push_def p)
  qed
qed

lemma msgqueue_take_inv:
  assumes inv: "mq_inv alloc cap m" and ne: "\<not> circqueue_is_empty (mq_queue m)"
    and run: "mq_popping m" "\<not> mq_sending m"
  shows "mq_inv alloc cap (msgqueue_take m)"
proof -
  have c: "circqueue_inv alloc (mq_queue m)" using inv by (simp add: mq_inv_def)
  from ne obtain y ys where y: "mq_waiting m = y # ys"
    by (auto simp: circqueue_empty_abs mq_waiting_def neq_Nil_conv)
  obtain r d where p: "circqueue_pop_head (mq_queue m) = (r, d)" by fastforce
  from circqueue_pop_facts [OF c, unfolded p fst_conv snd_conv] y
  have "circqueue_inv alloc d" "circqueue_abs d = ys" "r = Some y" by (simp_all add: mq_waiting_def)
  with inv y run show ?thesis by (simp add: msgqueue_take_def p mq_inv_def mq_waiting_def)
qed

lemma mq_step_inv: "mq_step alloc cap m e m' \<Longrightarrow> mq_inv alloc cap m \<Longrightarrow> mq_inv alloc cap m'"
proof (induction rule: mq_step.induct)
  case (return m)
  then have "mq_waiting m = []" by (simp add: circqueue_empty_abs mq_waiting_def)
  with return.prems show ?case by (simp add: mq_inv_def mq_waiting_def)
qed (auto simp: msgqueue_push_inv msgqueue_take_inv, auto simp: mq_inv_def mq_waiting_def)

lemma mq_run_inv:
  assumes "mq_run alloc cap es m" "alloc_ok alloc"
  shows "mq_inv alloc cap m"
  using assms(1)
proof (induction rule: mq_run.induct)
  case (start m)
  then obtain c where c: "circqueue_new alloc 0 = Some c" "mq_queue m = c" "mq_pushed m = []"
      "mq_called m = []" "mq_pipe m = 0" "\<not> mq_sending m"
    by (auto simp: msgqueue_new_def)
  from circqueue_new_inv [OF assms(2) _ c(1)] c show ?case by (simp add: mq_inv_def mq_waiting_def)
next
  case (step es m e m')
  then show ?case by (blast intro: mq_step_inv)
qed

text \<open>
  C22: however the threads interleave, the messages given to the callback, in order, followed by
  those still in the ring are the messages pushed, and a ring that holds messages is never left
  alone: a byte is on its way to the event loop, or \<open>msgqueue_pop\<close> is running, or the push
  is about to send its byte.
\<close>

theorem msgqueue_no_lost_wakeup:
  assumes "mq_run alloc cap es m" "alloc_ok alloc"
  shows "mq_pushed m = mq_called m @ mq_waiting m \<and>
     (mq_waiting m = [] \<or> mq_popping m \<or> 0 < mq_pipe m \<or> mq_sending m)"
  using mq_run_inv [OF assms] by (auto simp: mq_inv_def)

definition alloc_plain :: "nat \<Rightarrow> bool" where
  "alloc_plain n \<longleftrightarrow> n \<le> 2 ^ 30"

lemma alloc_plain_ok: "alloc_ok alloc_plain"
  by (simp add: alloc_ok_def alloc_plain_def)

lemma msgqueue_new_plain:
  "\<exists>m. msgqueue_new alloc_plain 0 = Some m \<and> mq_inv alloc_plain cap m \<and> mq_waiting m = [] \<and>
     mq_pipe m = 0 \<and> \<not> mq_popping m \<and> \<not> mq_sending m \<and> cc_max_entries (mq_queue m) = 0"
proof -
  let ?m = "the (msgqueue_new alloc_plain 0)"
  have m: "msgqueue_new alloc_plain 0 = Some ?m" and r: "mq_pipe ?m = 0" "\<not> mq_popping ?m"
    "\<not> mq_sending ?m" "cc_max_entries (mq_queue ?m) = 0" "cc_count (mq_queue ?m) = 0"
    by (simp_all add: msgqueue_new_def circqueue_new_def alloc_plain_def DEFAULT_UNBOUNDED_QUEUE_SIZE_def)
  have "mq_waiting ?m = []" using r(5) by (simp add: mq_waiting_def circqueue_empty_abs [symmetric]
        circqueue_is_empty_def circqueue_get_length_def)
  with m r mq_run_inv [OF mq_run.start [OF m] alloc_plain_ok] show ?thesis by blast
qed

text \<open>A push into an empty unbounded ring succeeds, and meets the socket.\<close>

lemma msgqueue_push_empty:
  assumes inv: "mq_inv alloc cap m" and e: "mq_waiting m = []" "cc_max_entries (mq_queue m) = 0"
  shows "fst (msgqueue_push alloc cap x m) = 0"
    and "mq_pipe (snd (msgqueue_push alloc cap x m)) = (if mq_pipe m < cap then mq_pipe m + 1 else mq_pipe m)"
    and "mq_sending (snd (msgqueue_push alloc cap x m)) \<longleftrightarrow> mq_sending m \<or> cap \<le> mq_pipe m"
    and "mq_popping (snd (msgqueue_push alloc cap x m)) = mq_popping m"
    and "mq_waiting (snd (msgqueue_push alloc cap x m)) = [x]"
    and "cc_max_entries (mq_queue (snd (msgqueue_push alloc cap x m))) = 0"
proof -
  let ?c = "mq_queue m"
  have c: "circqueue_inv alloc ?c" using inv by (simp add: mq_inv_def)
  then obtain k where k: "k \<le> 30" "unat (cc_array_elements ?c) = 2 ^ k" by (rule circqueue_invE)
  have z: "cc_count ?c = 0"
    using e(1) by (simp add: mq_waiting_def circqueue_empty_abs [symmetric]
        circqueue_is_empty_def circqueue_get_length_def)
  with k have "\<not> circqueue_is_full ?c" by (auto simp: circqueue_is_full_def word_unat_eq_iff)
  with e(2) have p: "circqueue_push_tail alloc x ?c = (0, circqueue_store x ?c)"
    by (simp add: circqueue_push_tail_def)
  note f = circqueue_push_facts(2) [OF c, of x, unfolded p fst_conv snd_conv]
  have one: "circqueue_get_length (circqueue_store x ?c) = 1"
    by (simp add: circqueue_get_length_def circqueue_store_frame z)
  show "fst (msgqueue_push alloc cap x m) = 0"
    "mq_pipe (snd (msgqueue_push alloc cap x m)) = (if mq_pipe m < cap then mq_pipe m + 1 else mq_pipe m)"
    "mq_sending (snd (msgqueue_push alloc cap x m)) \<longleftrightarrow> mq_sending m \<or> cap \<le> mq_pipe m"
    "mq_popping (snd (msgqueue_push alloc cap x m)) = mq_popping m"
    "mq_waiting (snd (msgqueue_push alloc cap x m)) = [x]"
    "cc_max_entries (mq_queue (snd (msgqueue_push alloc cap x m))) = 0"
    using f e one by (auto simp: msgqueue_push_def p Let_def circqueue_store_frame mq_waiting_def)
qed

lemma msgqueue_take_one:
  assumes inv: "mq_inv alloc cap m" and one: "mq_waiting m = [x]"
  shows "mq_waiting (msgqueue_take m) = []" "mq_pipe (msgqueue_take m) = mq_pipe m"
    "mq_popping (msgqueue_take m) = mq_popping m" "mq_sending (msgqueue_take m) = mq_sending m"
    "cc_max_entries (mq_queue (msgqueue_take m)) = cc_max_entries (mq_queue m)"
proof -
  have c: "circqueue_inv alloc (mq_queue m)" using inv by (simp add: mq_inv_def)
  show "mq_waiting (msgqueue_take m) = []" "mq_pipe (msgqueue_take m) = mq_pipe m"
    "mq_popping (msgqueue_take m) = mq_popping m" "mq_sending (msgqueue_take m) = mq_sending m"
    "cc_max_entries (mq_queue (msgqueue_take m)) = cc_max_entries (mq_queue m)"
    using circqueue_pop_facts(2) [OF c] one
    by (auto simp: msgqueue_take_def mq_waiting_def circqueue_pop_head_def split: prod.splits)
qed

text \<open>
  \<open>msgqueue_pop\<close> in its loop, the ring empty, \<open>n\<close> bytes on their way: one more message takes
  the queue to the same place with \<open>n + 1\<close> bytes.
\<close>

definition mq_between :: "(nat \<Rightarrow> bool) \<Rightarrow> nat \<Rightarrow> nat \<Rightarrow> 'a msgqueue \<Rightarrow> bool" where
  "mq_between alloc cap n m \<longleftrightarrow> mq_inv alloc cap m \<and> mq_waiting m = [] \<and> mq_pipe m = n \<and>
     mq_popping m \<and> \<not> mq_sending m \<and> cc_max_entries (mq_queue m) = 0"

lemma mq_push_take:
  fixes m :: "'a msgqueue"
  assumes run: "mq_run alloc cap es m" and inv: "mq_inv alloc cap m" and one: "mq_waiting m = [x]"
    and st: "mq_popping m" "\<not> mq_sending m" "cc_max_entries (mq_queue m) = 0"
  shows "\<exists>es (m' :: 'a msgqueue). mq_run alloc cap es m' \<and> mq_between alloc cap (mq_pipe m) m'"
proof -
  have ne: "\<not> circqueue_is_empty (mq_queue m)"
    using one by (simp add: circqueue_empty_abs mq_waiting_def)
  have s: "mq_step alloc cap m MqTake (msgqueue_take m)" by (rule mq_step.take [OF st(1,2) ne])
  have "mq_between alloc cap (mq_pipe m) (msgqueue_take m)"
    using msgqueue_take_one [OF inv one] msgqueue_take_inv [OF inv ne st(1,2)] st
    by (simp add: mq_between_def)
  with mq_run.step [OF run s] show ?thesis by blast
qed

lemma mq_fill_pipe:
  "0 < cap \<Longrightarrow> n \<le> cap \<Longrightarrow>
     \<exists>es (m :: nat msgqueue). mq_run alloc_plain cap es m \<and> mq_between alloc_plain cap n m"
proof (induction n)
  case 0
  obtain m0 :: "nat msgqueue" where m0: "msgqueue_new alloc_plain 0 = Some m0"
    "mq_inv alloc_plain cap m0" "mq_waiting m0 = []" "mq_pipe m0 = 0" "\<not> mq_popping m0"
    "\<not> mq_sending m0" "cc_max_entries (mq_queue m0) = 0"
    using msgqueue_new_plain by blast
  let ?m1 = "snd (msgqueue_push alloc_plain cap 7 m0)"
  note p = msgqueue_push_empty [OF m0(2,3,7), of 7]
  let ?m2 = "?m1\<lparr> mq_popping := True, mq_pipe := mq_pipe ?m1 - min 64 (mq_pipe ?m1) \<rparr>"
  have r1: "mq_run alloc_plain cap ([] @ [MqPush 7]) ?m1"
    by (rule mq_run.step [OF mq_run.start [OF m0(1)] mq_step.push [OF m0(6)]])
  have "mq_step alloc_plain cap ?m1 MqReady ?m2"
    using p m0 0 by (intro mq_step.ready) auto
  from mq_run.step [OF r1 this] have r2: "mq_run alloc_plain cap (([] @ [MqPush 7]) @ [MqReady]) ?m2" .
  have m2: "mq_waiting ?m2 = [7]" "mq_popping ?m2" "\<not> mq_sending ?m2" "mq_pipe ?m2 = 0"
    "cc_max_entries (mq_queue ?m2) = 0"
    using p m0 0 by (simp_all add: mq_waiting_def)
  from mq_push_take [OF r2 mq_run_inv [OF r2 alloc_plain_ok] m2(1,2,3,5)] m2(4) show ?case by simp
next
  case (Suc n)
  then obtain es and m :: "nat msgqueue" where r: "mq_run alloc_plain cap es m"
    and b: "mq_between alloc_plain cap n m" by auto
  let ?m1 = "snd (msgqueue_push alloc_plain cap 7 m)"
  have r1: "mq_run alloc_plain cap (es @ [MqPush 7]) ?m1"
    using b by (intro mq_run.step [OF r] mq_step.push) (simp add: mq_between_def)
  have m1: "mq_waiting ?m1 = [7]" "mq_popping ?m1" "\<not> mq_sending ?m1" "mq_pipe ?m1 = Suc n"
    "cc_max_entries (mq_queue ?m1) = 0"
    using b msgqueue_push_empty [of alloc_plain cap m 7] Suc.prems by (simp_all add: mq_between_def)
  from mq_push_take [OF r1 mq_run_inv [OF r1 alloc_plain_ok] m1(1,2,3,5)] m1(4) show ?case by simp
qed

text \<open>
  \<open>msgqueue_push\<close> can stop the whole server. However many bytes the socket has room for,
  when that many messages arrive one at a time while \<open>msgqueue_pop\<close> is in its loop, the next
  push waits in \<open>send\<close> with the lock held, the event loop waits for the lock before it
  receives again, and no thread can take another step.
\<close>

theorem msgqueue_deadlock:
  assumes "0 < cap"
  shows "\<exists>es (m :: nat msgqueue). mq_run alloc_plain cap es m \<and> mq_waiting m = [7] \<and>
     \<not> (\<exists>e m'. mq_step alloc_plain cap m e m')"
proof -
  from mq_fill_pipe [OF assms order_refl] obtain es and m :: "nat msgqueue"
    where r: "mq_run alloc_plain cap es m" and b: "mq_between alloc_plain cap cap m" by blast
  let ?m1 = "snd (msgqueue_push alloc_plain cap 7 m)"
  have r1: "mq_run alloc_plain cap (es @ [MqPush 7]) ?m1"
    using b by (intro mq_run.step [OF r] mq_step.push) (simp add: mq_between_def)
  have m1: "mq_waiting ?m1 = [7]" "mq_popping ?m1" "mq_sending ?m1" "mq_pipe ?m1 = cap"
    using b msgqueue_push_empty [of alloc_plain cap m 7] by (simp_all add: mq_between_def)
  have "\<not> (\<exists>e m'. mq_step alloc_plain cap ?m1 e m')"
    using m1 by (auto elim: mq_step.cases)
  with r1 m1(1) show ?thesis by blast
qed

theorem msgqueue_deadlock_witness:
  "\<exists>es (m :: nat msgqueue). mq_run alloc_plain 2 es m \<and> mq_waiting m = [7] \<and>
     \<not> (\<exists>e m'. mq_step alloc_plain 2 m e m')"
  by (rule msgqueue_deadlock) simp

theorem msgqueue_no_lost_wakeup_witness:
  "\<exists>m :: nat msgqueue. mq_pushed m = mq_called m @ mq_waiting m \<and>
     (mq_waiting m = [] \<or> mq_popping m \<or> 0 < mq_pipe m \<or> mq_sending m) \<and> mq_pipe m = 1"
proof -
  from mq_fill_pipe [of 1 1] obtain es and m :: "nat msgqueue"
    where "mq_run alloc_plain 1 es m" "mq_between alloc_plain 1 1 m" by auto
  with msgqueue_no_lost_wakeup [OF this(1) alloc_plain_ok] show ?thesis
    by (intro exI [of _ m]) (simp add: mq_between_def)
qed

text \<open>
  \<open>nextpow2\<close> answers the least power of two that is not below its argument, for every
  argument from 1 to \<open>2 ^ 31\<close>.
\<close>

theorem nextpow2_least:
  assumes "num \<noteq> 0" "unat num \<le> 2 ^ 31"
  shows "\<exists>k. unat (nextpow2 num) = 2 ^ k \<and> unat num \<le> 2 ^ k \<and> 2 ^ k < 2 * unat num"
proof -
  from nextpow2_bound(1) [OF assms] obtain k where k: "k \<le> 31" "nextpow2 num = 2 ^ k"
    "num \<le> nextpow2 num" "\<forall>j<k. 2 ^ j < unat num" by blast
  have u: "unat ((2::u32) ^ k) = 2 ^ k"
  proof (cases "k = 31")
    case False
    with k(1) show ?thesis by (intro unat_pow2) simp
  qed simp
  have "2 ^ k < 2 * unat num"
  proof (cases k)
    case 0
    have "0 < unat num" using assms(1) by (simp add: unat_gt_0)
    with 0 show ?thesis by simp
  next
    case (Suc j)
    with k(4) show ?thesis by simp
  qed
  with u k(2,3) show ?thesis by (intro exI [of _ k]) (simp add: word_le_nat_alt)
qed

theorem nextpow2_least_witness:
  "\<exists>k. unat (nextpow2 5) = 2 ^ k \<and> unat (5::u32) \<le> 2 ^ k \<and> 2 ^ k < 2 * unat (5::u32)"
  by (rule nextpow2_least) simp_all

end
