(* ===== verification/SP_ThreadPool.thy ===== *)
theory SP_ThreadPool
  imports SP_Base "HOL-Library.Multiset"
begin

text \<open>
  \<open>SP_ThreadPool\<close> (spthreadpool.hpp, spthreadpool.cpp): the stack of idle threads
  \<open>mThreadList\<close>, \<open>dispatch\<close>, \<open>saveThread\<close>, the loop of the threads \<open>wrapperFunc\<close> and the
  destructor. The methods that change the pool hold \<open>mMainMutex\<close> throughout, so each is one
  step; a thread holds its own mutex from before \<open>saveThread\<close> until \<open>sp_thread_cond_wait\<close>
  releases it, and whoever signals it needs that mutex, so saving and going to wait are one step
  too. \<open>sp_thread_cond_wait\<close> may return without a signal, as POSIX allows: \<open>TpSpurious\<close>. A
  thread is named by a number; \<open>sp_thread_create\<close> may fail. The fields \<open>tp_dispatched\<close> and
  \<open>tp_ran\<close> are a history, without counterpart in the code.
\<close>

type_synonym pool_thread = nat

datatype thread_pc =
    Absent      \<comment> \<open>not created\<close>
  | AtTest      \<comment> \<open>before the test of \<open>mIsShutdown\<close> at the head of the loop\<close>
  | Ran         \<comment> \<open>after \<open>mFunc( mArg )\<close>\<close>
  | Waiting     \<comment> \<open>in \<open>sp_thread_cond_wait\<close> on its own condition\<close>
  | Gone        \<comment> \<open>left the loop\<close>

datatype dtor_pc =
    NotCalled
  | WaitFull    \<comment> \<open>in \<open>sp_thread_cond_wait\<close> on \<open>mFullCond\<close>\<close>
  | FullWoken
  | WaitEmpty   \<comment> \<open>in \<open>sp_thread_cond_wait\<close> on \<open>mEmptyCond\<close>\<close>
  | EmptyWoken
  | Destroyed

record 'a thread_pool =
  tp_mMaxThreads :: nat
  tp_mIndex :: nat
  tp_mTotal :: nat
  tp_mIsShutdown :: bool
  tp_mThreadList :: "pool_thread option list"
  tp_mArg :: "pool_thread \<Rightarrow> 'a option"        \<comment> \<open>\<open>mFunc\<close> and \<open>mArg\<close> of the thread\<close>
  tp_pc :: "pool_thread \<Rightarrow> thread_pc"
  tp_dtor :: dtor_pc
  tp_freed :: "pool_thread set"
  tp_dispatched :: "'a list"
  tp_ran :: "'a list"

definition ThreadPool_new :: "int \<Rightarrow> 'a thread_pool" where
  "ThreadPool_new maxThreads =
     (let n = nat (if maxThreads \<le> 0 then 2 else maxThreads)
      in \<lparr> tp_mMaxThreads = n, tp_mIndex = 0, tp_mTotal = 0, tp_mIsShutdown = False,
           tp_mThreadList = replicate n None, tp_mArg = (\<lambda>_. None), tp_pc = (\<lambda>_. Absent),
           tp_dtor = NotCalled, tp_freed = {}, tp_dispatched = [], tp_ran = [] \<rparr>)"

definition ThreadPool_getMaxThreads :: "'a thread_pool \<Rightarrow> nat" where
  "ThreadPool_getMaxThreads p = tp_mMaxThreads p"

text \<open>The test of the loop in \<open>dispatch\<close>: the caller waits on \<open>mIdleCond\<close> while it holds.\<close>

definition dispatch_blocked :: "'a thread_pool \<Rightarrow> bool" where
  "dispatch_blocked p \<longleftrightarrow> tp_mIndex p = 0 \<and> tp_mMaxThreads p \<le> tp_mTotal p"

text \<open>\<open>sp_thread_cond_signal\<close> on the condition of a thread: lost when the thread does not wait.\<close>

definition signal_thread :: "pool_thread \<Rightarrow> 'a thread_pool \<Rightarrow> 'a thread_pool" where
  "signal_thread t p = (if tp_pc p t = Waiting then p\<lparr> tp_pc := (tp_pc p)(t := AtTest) \<rparr> else p)"

text \<open>
  \<open>dispatch\<close> after its wait. \<open>new\<close> is what \<open>sp_thread_create\<close> answers: a fresh thread, or
  \<open>None\<close> when it fails. A slot of the list below \<open>mIndex\<close> that holds NULL would be read.
\<close>

definition ThreadPool_dispatch ::
    "pool_thread option \<Rightarrow> 'a \<Rightarrow> 'a thread_pool \<Rightarrow> (int \<times> 'a thread_pool) res" where
  "ThreadPool_dispatch new arg p =
     (if tp_mIndex p = 0
      then (case new of
              Some t \<Rightarrow> Inr (0, p\<lparr> tp_mArg := (tp_mArg p)(t \<mapsto> arg), tp_pc := (tp_pc p)(t := AtTest),
                               tp_mTotal := tp_mTotal p + 1, tp_dispatched := tp_dispatched p @ [arg] \<rparr>)
            | None \<Rightarrow> Inr (-1, p))
      else (case tp_mThreadList p ! (tp_mIndex p - 1) of
              None \<Rightarrow> Inl NullDeref
            | Some t \<Rightarrow>
                if t \<in> tp_freed p then Inl UseAfterFree
                else Inr (0, signal_thread t
                   (p\<lparr> tp_mIndex := tp_mIndex p - 1,
                       tp_mThreadList := (tp_mThreadList p)[tp_mIndex p - 1 := None],
                       tp_mArg := (tp_mArg p)(t \<mapsto> arg),
                       tp_dispatched := tp_dispatched p @ [arg] \<rparr>))))"

text \<open>\<open>saveThread\<close>, and the wait after it or the end of the thread when the list is full.\<close>

definition ThreadPool_saveThread :: "pool_thread \<Rightarrow> 'a thread_pool \<Rightarrow> int \<times> 'a thread_pool" where
  "ThreadPool_saveThread t p =
     (if tp_mIndex p < tp_mMaxThreads p
      then (0, p\<lparr> tp_mThreadList := (tp_mThreadList p)[tp_mIndex p := Some t],
                  tp_mIndex := tp_mIndex p + 1,
                  tp_dtor := (if tp_mTotal p \<le> tp_mIndex p + 1 \<and> tp_dtor p = WaitFull
                              then FullWoken else tp_dtor p) \<rparr>)
      else (-1, p))"

definition wrapper_save :: "pool_thread \<Rightarrow> 'a thread_pool \<Rightarrow> 'a thread_pool" where
  "wrapper_save t p =
     (case ThreadPool_saveThread t p of (r, q) \<Rightarrow>
        if r = 0 then q\<lparr> tp_pc := (tp_pc q)(t := Waiting) \<rparr>
        else q\<lparr> tp_pc := (tp_pc q)(t := Gone), tp_freed := insert t (tp_freed q) \<rparr>)"

definition wrapper_run :: "pool_thread \<Rightarrow> 'a thread_pool \<Rightarrow> 'a thread_pool" where
  "wrapper_run t p =
     p\<lparr> tp_pc := (tp_pc p)(t := Ran),
        tp_ran := tp_ran p @ (case tp_mArg p t of None \<Rightarrow> [] | Some a \<Rightarrow> [a]) \<rparr>"

text \<open>The end of \<open>wrapperFunc\<close>.\<close>

definition wrapper_leave :: "pool_thread \<Rightarrow> 'a thread_pool \<Rightarrow> 'a thread_pool" where
  "wrapper_leave t p =
     p\<lparr> tp_pc := (tp_pc p)(t := Gone), tp_mTotal := tp_mTotal p - 1,
        tp_dtor := (if tp_mTotal p - 1 = 0 \<and> tp_dtor p = WaitEmpty then EmptyWoken else tp_dtor p) \<rparr>"

text \<open>
  The destructor: its first critical section up to \<open>mFullCond\<close>, the part between the two waits,
  and the part that frees the thread structures of the list.
\<close>

definition tp_idle :: "'a thread_pool \<Rightarrow> pool_thread list" where
  "tp_idle p = map the (take (tp_mIndex p) (tp_mThreadList p))"

definition dtor_destroy :: "'a thread_pool \<Rightarrow> 'a thread_pool" where
  "dtor_destroy p =
     p\<lparr> tp_freed := tp_freed p \<union> set (tp_idle p),
        tp_mThreadList := replicate (tp_mIndex p) None @ drop (tp_mIndex p) (tp_mThreadList p),
        tp_mIndex := 0, tp_dtor := Destroyed \<rparr>"

definition dtor_shutdown :: "'a thread_pool \<Rightarrow> 'a thread_pool" where
  "dtor_shutdown p =
     (let q = fold signal_thread (tp_idle p) (p\<lparr> tp_mIsShutdown := True \<rparr>)
      in if 0 < tp_mTotal q then q\<lparr> tp_dtor := WaitEmpty \<rparr> else dtor_destroy q)"

definition dtor_begin :: "'a thread_pool \<Rightarrow> 'a thread_pool" where
  "dtor_begin p =
     (if tp_mIndex p < tp_mTotal p then p\<lparr> tp_dtor := WaitFull \<rparr> else dtor_shutdown p)"

subsection \<open>The steps\<close>

datatype 'a tp_event =
    TpDispatch 'a "pool_thread option"
  | TpRun pool_thread
  | TpSave pool_thread
  | TpLeave pool_thread
  | TpDtor
  | TpSpurious pool_thread

text \<open>
  \<open>dispatch\<close> is not called once the destructor has been (the owner of the pool does both), and
  \<open>sp_thread_create\<close> names a new thread.
\<close>

inductive tp_step :: "'a thread_pool \<Rightarrow> 'a tp_event \<Rightarrow> 'a thread_pool \<Rightarrow> bool" where
  dispatch: "tp_dtor p = NotCalled \<Longrightarrow> \<not> dispatch_blocked p \<Longrightarrow>
     pred_option (\<lambda>t. tp_pc p t = Absent) new \<Longrightarrow> ThreadPool_dispatch new a p = Inr (r, q) \<Longrightarrow>
     tp_step p (TpDispatch a new) q"
| run: "tp_pc p t = AtTest \<Longrightarrow> \<not> tp_mIsShutdown p \<Longrightarrow> tp_step p (TpRun t) (wrapper_run t p)"
| save: "tp_pc p t = Ran \<Longrightarrow> \<not> tp_mIsShutdown p \<Longrightarrow> tp_step p (TpSave t) (wrapper_save t p)"
| leave: "tp_pc p t = AtTest \<or> tp_pc p t = Ran \<Longrightarrow> tp_mIsShutdown p \<Longrightarrow>
     tp_step p (TpLeave t) (wrapper_leave t p)"
| destruct: "tp_dtor p = NotCalled \<Longrightarrow> tp_step p TpDtor (dtor_begin p)"
| resume_full: "tp_dtor p = FullWoken \<Longrightarrow> tp_step p TpDtor (dtor_shutdown p)"
| resume_empty: "tp_dtor p = EmptyWoken \<Longrightarrow> tp_step p TpDtor (dtor_destroy p)"
| spurious: "tp_pc p t = Waiting \<Longrightarrow>
     tp_step p (TpSpurious t) (p\<lparr> tp_pc := (tp_pc p)(t := AtTest) \<rparr>)"

inductive tp_run :: "int \<Rightarrow> 'a tp_event list \<Rightarrow> 'a thread_pool \<Rightarrow> bool" for n :: int where
  start: "tp_run n [] (ThreadPool_new n)"
| step: "tp_run n es p \<Longrightarrow> tp_step p e q \<Longrightarrow> tp_run n (es @ [e]) q"

inductive_cases tp_stepE: "tp_step p e q"

fun tp_quiet :: "'a tp_event \<Rightarrow> bool" where
  "tp_quiet (TpSpurious t) = False"
| "tp_quiet _ = True"

subsection \<open>The invariant without spurious wake-ups\<close>

definition tp_at :: "thread_pc \<Rightarrow> 'a thread_pool \<Rightarrow> pool_thread set" where
  "tp_at c p = {t. tp_pc p t = c}"

text \<open>The threads inside the loop, and the tasks of those that have not run theirs.\<close>

definition tp_live :: "'a thread_pool \<Rightarrow> pool_thread set" where
  "tp_live p = {t. tp_pc p t \<notin> {Absent, Gone}}"

definition tp_pending :: "'a thread_pool \<Rightarrow> 'a multiset" where
  "tp_pending p =
     (if tp_mIsShutdown p then {#} else image_mset (\<lambda>t. the (tp_mArg p t)) (mset_set (tp_at AtTest p)))"

definition tp_list_ok :: "'a thread_pool \<Rightarrow> bool" where
  "tp_list_ok p \<longleftrightarrow> length (tp_idle p) = tp_mIndex p \<and> tp_mIndex p \<le> tp_mMaxThreads p \<and>
     tp_mThreadList p = map Some (tp_idle p) @ replicate (tp_mMaxThreads p - tp_mIndex p) None"

definition tp_inv :: "'a thread_pool \<Rightarrow> bool" where
  "tp_inv p \<longleftrightarrow> tp_list_ok p \<and> distinct (tp_idle p) \<and> 0 < tp_mMaxThreads p \<and>
     finite (tp_live p) \<and> card (tp_live p) = tp_mTotal p \<and> tp_mTotal p \<le> tp_mMaxThreads p \<and>
     mset (tp_dispatched p) = mset (tp_ran p) + tp_pending p \<and>
     (\<forall>t \<in> tp_live p. tp_mArg p t \<noteq> None) \<and>
     (if tp_mIsShutdown p
      then tp_live p = tp_at AtTest p \<and>
        (tp_dtor p = WaitEmpty \<and> 0 < tp_mTotal p \<or> tp_dtor p = EmptyWoken \<and> tp_mTotal p = 0
          \<or> tp_dtor p = Destroyed \<and> tp_mTotal p = 0)
      else set (tp_idle p) = tp_at Waiting p \<and> tp_freed p = {} \<and>
        (tp_dtor p = NotCalled \<or> tp_dtor p = WaitFull \<or> tp_dtor p = FullWoken \<and> tp_live p = tp_at Waiting p))"

lemma tp_new_inv: "tp_inv (ThreadPool_new n)"
  by (simp add: tp_inv_def tp_list_ok_def ThreadPool_new_def Let_def tp_idle_def tp_live_def tp_at_def tp_pending_def)

lemma tp_idle_le: "tp_inv p \<Longrightarrow> \<not> tp_mIsShutdown p \<Longrightarrow> tp_mIndex p \<le> tp_mTotal p"
proof -
  assume inv: "tp_inv p" "\<not> tp_mIsShutdown p"
  then have "card (set (tp_idle p)) = tp_mIndex p"
    using distinct_card [of "tp_idle p"] by (simp add: tp_inv_def tp_list_ok_def)
  moreover have "set (tp_idle p) \<subseteq> tp_live p" using inv by (auto simp: tp_inv_def tp_at_def tp_live_def)
  ultimately show ?thesis using inv card_mono [of "tp_live p" "set (tp_idle p)"] by (simp add: tp_inv_def)
qed

text \<open>Moving one thread between program points; the list of a state that keeps its three fields.\<close>

lemma tp_list_frame:
  "tp_mThreadList q = tp_mThreadList p \<Longrightarrow> tp_mIndex q = tp_mIndex p \<Longrightarrow>
     tp_idle q = tp_idle p \<and> (tp_mMaxThreads q = tp_mMaxThreads p \<longrightarrow> tp_list_ok q = tp_list_ok p)"
  by (simp add: tp_idle_def tp_list_ok_def)

lemma tp_at_move:
  "tp_pc q = (tp_pc p)(t := c) \<Longrightarrow> tp_at d q = (if d = c then insert t (tp_at d p) else tp_at d p - {t})"
  by (auto simp: tp_at_def)

lemma tp_live_move:
  "tp_pc q = (tp_pc p)(t := c) \<Longrightarrow>
     tp_live q = (if c = Absent \<or> c = Gone then tp_live p - {t} else insert t (tp_live p))"
  by (auto simp: tp_live_def)

lemma tp_run_inv:
  assumes inv: "tp_inv p" and t: "tp_pc p t = AtTest" and sh: "\<not> tp_mIsShutdown p"
  shows "tp_inv (wrapper_run t p)"
proof -
  let ?q = "wrapper_run t p"
  have pc: "tp_pc ?q = (tp_pc p)(t := Ran)" by (simp add: wrapper_run_def)
  have fin: "finite (tp_at AtTest p)"
    using inv by (auto simp: tp_inv_def tp_at_def tp_live_def elim: finite_subset [rotated])
  have mem: "t \<in> tp_at AtTest p" "t \<in> tp_live p" "t \<notin> tp_at Waiting p"
    using t by (auto simp: tp_at_def tp_live_def)
  then obtain a where a: "tp_mArg p t = Some a" using inv by (auto simp: tp_inv_def)
  have "tp_pending p = add_mset a (tp_pending ?q)"
    using fin mem(1) a sh
    by (simp add: tp_pending_def tp_at_move [OF pc]) (simp add: wrapper_run_def mset_set.remove)
  with inv mem a sh show ?thesis
    by (simp add: tp_inv_def tp_at_move [OF pc] tp_live_move [OF pc] insert_absorb)
      (auto simp: wrapper_run_def tp_list_ok_def tp_idle_def)
qed

text \<open>Pushing and popping the list of idle threads.\<close>

lemma tp_list_push:
  assumes "tp_list_ok p" "tp_mIndex p < tp_mMaxThreads p"
    and q: "tp_mThreadList q = (tp_mThreadList p)[tp_mIndex p := Some t]"
      "tp_mIndex q = tp_mIndex p + 1" "tp_mMaxThreads q = tp_mMaxThreads p"
  shows "tp_list_ok q" and "tp_idle q = tp_idle p @ [t]"
proof -
  obtain n where n: "tp_mMaxThreads p - tp_mIndex p = Suc n"
    using assms(2) by (metis Suc_diff_Suc)
  have l: "tp_mThreadList q = map Some (tp_idle p @ [t]) @ replicate n None"
    using assms(1) n by (simp add: q tp_list_ok_def list_update_append)
  have len: "length (tp_idle p) = tp_mIndex p" using assms(1) by (simp add: tp_list_ok_def)
  show i: "tp_idle q = tp_idle p @ [t]"
    unfolding tp_idle_def [of q] l using len by (simp add: q(2) o_def)
  show "tp_list_ok q"
    using n len l assms(2) by (simp add: tp_list_ok_def i q(2,3))
qed

lemma tp_list_pop:
  assumes "tp_list_ok p" "tp_mIndex p \<noteq> 0"
    and q: "tp_mThreadList q = (tp_mThreadList p)[tp_mIndex p - 1 := None]"
      "tp_mIndex q = tp_mIndex p - 1" "tp_mMaxThreads q = tp_mMaxThreads p"
  shows "tp_list_ok q" and "tp_idle p = tp_idle q @ [last (tp_idle p)]"
    and "tp_mThreadList p ! (tp_mIndex p - 1) = Some (last (tp_idle p))"
proof -
  have len: "length (tp_idle p) = tp_mIndex p" using assms(1) by (simp add: tp_list_ok_def)
  with assms(2) obtain xs t where xs: "tp_idle p = xs @ [t]" by (cases "tp_idle p" rule: rev_cases) auto
  have lx: "length xs = tp_mIndex p - 1" using len xs by simp
  have old: "tp_mThreadList p = map Some xs @ Some t # replicate (tp_mMaxThreads p - tp_mIndex p) None"
    using assms(1) by (simp add: tp_list_ok_def xs)
  show "tp_mThreadList p ! (tp_mIndex p - 1) = Some (last (tp_idle p))"
    using lx by (simp add: old xs nth_append)
  have l: "tp_mThreadList q = map Some xs @ replicate (Suc (tp_mMaxThreads p - tp_mIndex p)) None"
    unfolding q(1) old lx [symmetric] by (simp add: list_update_append)
  have i: "tp_idle q = xs" unfolding tp_idle_def l q(2) lx [symmetric] by (simp add: o_def)
  then show "tp_idle p = tp_idle q @ [last (tp_idle p)]" by (simp add: xs)
  have "Suc (tp_mMaxThreads p - tp_mIndex p) = tp_mMaxThreads p - (tp_mIndex p - 1)"
    using assms(1,2) by (simp add: tp_list_ok_def Suc_diff_le)
  with l i lx assms(1) show "tp_list_ok q" by (simp add: tp_list_ok_def q(2,3))
qed

lemma tp_fin: "tp_inv p \<Longrightarrow> finite (tp_at AtTest p) \<and> finite (tp_live p)"
  by (auto simp: tp_inv_def tp_at_def tp_live_def elim: finite_subset [rotated])

lemma tp_save_inv:
  assumes inv: "tp_inv p" and t: "tp_pc p t = Ran" and sh: "\<not> tp_mIsShutdown p"
  shows "tp_inv (wrapper_save t p)"
proof -
  have mem: "t \<in> tp_live p" "t \<notin> tp_at Waiting p" "t \<notin> tp_at AtTest p"
    using t by (auto simp: tp_at_def tp_live_def)
  have sub: "tp_at Waiting p \<subseteq> tp_live p" by (auto simp: tp_at_def tp_live_def)
  have idle: "set (tp_idle p) = tp_at Waiting p" "distinct (tp_idle p)" "tp_list_ok p"
    using inv sh by (simp_all add: tp_inv_def)
  have card: "card (tp_at Waiting p) = tp_mIndex p"
    using distinct_card [of "tp_idle p"] idle by (simp add: tp_list_ok_def)
  have "card (insert t (tp_at Waiting p)) \<le> card (tp_live p)"
    using tp_fin [OF inv] mem sub by (intro card_mono) auto
  then have lt: "tp_mIndex p < tp_mTotal p"
    using inv mem(2) card finite_subset [OF sub] tp_fin [OF inv] by (simp add: tp_inv_def)
  then have room: "tp_mIndex p < tp_mMaxThreads p" using inv by (simp add: tp_inv_def)
  let ?q = "wrapper_save t p"
  have pc: "tp_pc ?q = (tp_pc p)(t := Waiting)"
    using room by (simp add: wrapper_save_def ThreadPool_saveThread_def)
  have q: "tp_mThreadList ?q = (tp_mThreadList p)[tp_mIndex p := Some t]"
    "tp_mIndex ?q = tp_mIndex p + 1" "tp_mMaxThreads ?q = tp_mMaxThreads p"
    "tp_mTotal ?q = tp_mTotal p" "tp_mIsShutdown ?q = tp_mIsShutdown p" "tp_freed ?q = tp_freed p"
    "tp_mArg ?q = tp_mArg p" "tp_dispatched ?q = tp_dispatched p" "tp_ran ?q = tp_ran p"
    "tp_dtor ?q = (if tp_mTotal p \<le> tp_mIndex p + 1 \<and> tp_dtor p = WaitFull then FullWoken else tp_dtor p)"
    using room by (simp_all add: wrapper_save_def ThreadPool_saveThread_def)
  note l = tp_list_push [OF idle(3) room q(1-3)]
  have all: "tp_live p = insert t (tp_at Waiting p)" if "tp_mTotal p \<le> tp_mIndex p + 1"
    using that lt card mem sub tp_fin [OF inv] inv
    by (intro card_subset_eq [symmetric]) (auto simp: tp_inv_def finite_subset [OF sub])
  have nf: "tp_dtor p \<noteq> FullWoken" using inv sh mem by (auto simp: tp_inv_def)
  have pend: "tp_pending ?q = tp_pending p"
    using mem by (simp add: tp_pending_def q tp_at_move [OF pc])
  show ?thesis
    using inv sh mem idle l all nf
    by (auto simp: tp_inv_def q tp_at_move [OF pc] tp_live_move [OF pc] insert_absorb pend)
qed

lemma tp_dispatch_inv:
  assumes inv: "tp_inv p" and nc: "tp_dtor p = NotCalled" and nb: "\<not> dispatch_blocked p"
    and new: "pred_option (\<lambda>t. tp_pc p t = Absent) new"
  shows "\<exists>r q. ThreadPool_dispatch new a p = Inr (r, q) \<and> tp_inv q"
proof (cases "tp_mIndex p = 0")
  case True
  show ?thesis
  proof (cases new)
    case None
    with True inv show ?thesis by (simp add: ThreadPool_dispatch_def)
  next
    case (Some t)
    with new have t: "tp_pc p t = Absent" by simp
    have sh: "\<not> tp_mIsShutdown p" using inv nc by (auto simp: tp_inv_def)
    define q where "q = p\<lparr> tp_mArg := (tp_mArg p)(t \<mapsto> a), tp_pc := (tp_pc p)(t := AtTest),
         tp_mTotal := tp_mTotal p + 1, tp_dispatched := tp_dispatched p @ [a] \<rparr>"
    have pc: "tp_pc q = (tp_pc p)(t := AtTest)" by (simp add: q_def)
    have mem: "t \<notin> tp_live p" "t \<notin> tp_at Waiting p" "t \<notin> tp_at AtTest p"
      using t by (auto simp: tp_at_def tp_live_def)
    have lt: "tp_mTotal p < tp_mMaxThreads p" using nb True by (simp add: dispatch_blocked_def)
    have "image_mset (\<lambda>s. the (if s = t then Some a else tp_mArg p s)) (mset_set (tp_at AtTest p)) =
        image_mset (\<lambda>s. the (tp_mArg p s)) (mset_set (tp_at AtTest p))"
      using mem(3) tp_fin [OF inv] by (intro image_mset_cong) auto
    then have "tp_pending q = add_mset a (tp_pending p)"
      using sh mem(3) tp_fin [OF inv] by (simp add: tp_pending_def tp_at_move [OF pc]) (simp add: q_def)
    moreover have "tp_idle q = tp_idle p" "tp_list_ok q = tp_list_ok p"
      using tp_list_frame [of q p] by (simp_all add: q_def)
    moreover have "tp_mMaxThreads q = tp_mMaxThreads p" "tp_mTotal q = tp_mTotal p + 1"
      "tp_mIsShutdown q = tp_mIsShutdown p" "tp_freed q = tp_freed p" "tp_dtor q = tp_dtor p"
      "tp_dispatched q = tp_dispatched p @ [a]" "tp_ran q = tp_ran p" "tp_mArg q = (tp_mArg p)(t \<mapsto> a)"
      by (simp_all add: q_def)
    ultimately have "tp_inv q"
      using inv sh mem lt nc by (simp add: tp_inv_def tp_at_move [OF pc] tp_live_move [OF pc])
    with True Some show ?thesis by (simp add: ThreadPool_dispatch_def q_def)
  qed
next
  case False
  have sh: "\<not> tp_mIsShutdown p" using inv nc by (auto simp: tp_inv_def)
  define t where "t = last (tp_idle p)"
  define q where "q = p\<lparr> tp_mIndex := tp_mIndex p - 1,
     tp_mThreadList := (tp_mThreadList p)[tp_mIndex p - 1 := None],
     tp_mArg := (tp_mArg p)(t \<mapsto> a), tp_dispatched := tp_dispatched p @ [a],
     tp_pc := (tp_pc p)(t := AtTest) \<rparr>"
  have lo: "tp_list_ok p" using inv by (simp add: tp_inv_def)
  have "tp_mThreadList q = (tp_mThreadList p)[tp_mIndex p - 1 := None]"
    "tp_mIndex q = tp_mIndex p - 1" "tp_mMaxThreads q = tp_mMaxThreads p" by (simp_all add: q_def)
  note l = tp_list_pop [OF lo False this, folded t_def]
  have idle: "set (tp_idle p) = tp_at Waiting p" "distinct (tp_idle p)" "tp_freed p = {}"
    using inv sh by (simp_all add: tp_inv_def)
  have w: "tp_pc p t = Waiting" using idle(1) l(2) by (auto simp: tp_at_def)
  have pc: "tp_pc q = (tp_pc p)(t := AtTest)" by (simp add: q_def)
  have mem: "t \<in> tp_live p" "t \<in> tp_at Waiting p" "t \<notin> tp_at AtTest p"
    using w by (auto simp: tp_at_def tp_live_def)
  have "image_mset (\<lambda>s. the (if s = t then Some a else tp_mArg p s)) (mset_set (tp_at AtTest p)) =
      image_mset (\<lambda>s. the (tp_mArg p s)) (mset_set (tp_at AtTest p))"
    using mem(3) tp_fin [OF inv] by (intro image_mset_cong) auto
  then have pend: "tp_pending q = add_mset a (tp_pending p)"
    using sh mem(3) tp_fin [OF inv] by (simp add: tp_pending_def tp_at_move [OF pc]) (simp add: q_def)
  have snoc: "t \<notin> set (tp_idle q)" "distinct (tp_idle q)" "set (tp_idle p) = insert t (set (tp_idle q))"
    using idle(2) unfolding l(2) by auto
  then have rest: "set (tp_idle q) = tp_at Waiting p - {t}" "distinct (tp_idle q)"
    using idle(1) by auto
  have f: "tp_mMaxThreads q = tp_mMaxThreads p" "tp_mTotal q = tp_mTotal p"
    "tp_mIsShutdown q = tp_mIsShutdown p" "tp_freed q = tp_freed p" "tp_dtor q = tp_dtor p"
    "tp_dispatched q = tp_dispatched p @ [a]" "tp_ran q = tp_ran p" "tp_mArg q = (tp_mArg p)(t \<mapsto> a)"
    by (simp_all add: q_def)
  have "tp_inv q"
    using inv sh mem rest pend l(1) nc
    by (simp add: tp_inv_def f tp_at_move [OF pc] tp_live_move [OF pc] insert_absorb)
  moreover have "ThreadPool_dispatch new a p = Inr (0, q)"
    using False l(3) idle(3) w by (simp add: ThreadPool_dispatch_def signal_thread_def q_def)
  ultimately show ?thesis by blast
qed

text \<open>The two ends of a pool: its threads leave, its destructor runs.\<close>

lemma tp_leave_inv:
  assumes inv: "tp_inv p" and t: "tp_pc p t = AtTest \<or> tp_pc p t = Ran" and sh: "tp_mIsShutdown p"
  shows "tp_inv (wrapper_leave t p)"
proof -
  let ?q = "wrapper_leave t p"
  have pc: "tp_pc ?q = (tp_pc p)(t := Gone)" by (simp add: wrapper_leave_def)
  have mem: "t \<in> tp_live p" using t by (auto simp: tp_live_def)
  have fin: "finite (tp_live p)" using tp_fin [OF inv] by simp
  have pos: "0 < tp_mTotal p" using inv mem fin card_gt_0_iff [of "tp_live p"] by (auto simp: tp_inv_def)
  have pend: "tp_pending ?q = tp_pending p" using sh by (simp add: tp_pending_def wrapper_leave_def)
  have "card (tp_live p - {t}) = tp_mTotal p - 1" using inv mem fin by (simp add: tp_inv_def)
  moreover have "tp_idle ?q = tp_idle p" "tp_list_ok ?q = tp_list_ok p"
    using tp_list_frame [of ?q p] by (simp_all add: wrapper_leave_def)
  moreover have "tp_mMaxThreads ?q = tp_mMaxThreads p" "tp_mTotal ?q = tp_mTotal p - 1"
    "tp_mIsShutdown ?q = tp_mIsShutdown p" "tp_freed ?q = tp_freed p"
    "tp_dispatched ?q = tp_dispatched p" "tp_ran ?q = tp_ran p" "tp_mArg ?q = tp_mArg p"
    "tp_dtor ?q = (if tp_mTotal p - 1 = 0 \<and> tp_dtor p = WaitEmpty then EmptyWoken else tp_dtor p)"
    by (simp_all add: wrapper_leave_def)
  moreover have "tp_live p = tp_at AtTest p" "tp_dtor p = WaitEmpty"
    using inv sh pos by (auto simp: tp_inv_def)
  ultimately show ?thesis
    using inv sh mem fin pos pend
    by (auto simp: tp_inv_def tp_at_move [OF pc] tp_live_move [OF pc])
qed

lemma fold_signal:
  "fold signal_thread ts p =
     p\<lparr> tp_pc := (\<lambda>t. if t \<in> set ts \<and> tp_pc p t = Waiting then AtTest else tp_pc p t) \<rparr>"
proof (induction ts arbitrary: p)
  case (Cons t ts)
  show ?case
    by (simp add: Cons.IH) (rule thread_pool.equality, auto simp: signal_thread_def fun_eq_iff)
qed simp

lemma tp_destroy_inv:
  assumes inv: "tp_inv p" and d: "tp_dtor p = EmptyWoken"
  shows "tp_inv (dtor_destroy p)"
proof -
  have lo: "tp_list_ok p" using inv by (simp add: tp_inv_def)
  have "tp_mThreadList (dtor_destroy p) = replicate (tp_mMaxThreads p) None"
    using lo by (simp add: dtor_destroy_def tp_list_ok_def replicate_add [symmetric])
  then have l: "tp_list_ok (dtor_destroy p)" "tp_idle (dtor_destroy p) = []"
    by (simp_all add: tp_list_ok_def tp_idle_def dtor_destroy_def)
  have pend: "tp_pending (dtor_destroy p) = tp_pending p"
    by (simp add: tp_pending_def dtor_destroy_def tp_at_def)
  have fr: "tp_live (dtor_destroy p) = tp_live p" "tp_at c (dtor_destroy p) = tp_at c p" for c
    by (simp_all add: tp_live_def tp_at_def dtor_destroy_def)
  have sh: "tp_mIsShutdown p" using inv d by (simp add: tp_inv_def split: if_splits)
  show ?thesis
    using inv d l sh unfolding tp_inv_def fr pend by (auto simp: dtor_destroy_def)
qed

lemma tp_shutdown_inv:
  assumes inv: "tp_inv p" and sh: "\<not> tp_mIsShutdown p" and all: "tp_live p = tp_at Waiting p"
  shows "tp_inv (dtor_shutdown p)"
proof -
  define p1 where "p1 = p\<lparr> tp_mIsShutdown := True \<rparr>"
  define q where "q = fold signal_thread (tp_idle p) p1"
  have idle: "set (tp_idle p) = tp_at Waiting p" using inv sh by (simp add: tp_inv_def)
  have "tp_at AtTest p \<subseteq> tp_live p" "tp_at AtTest p \<inter> tp_at Waiting p = {}"
    by (auto simp: tp_live_def tp_at_def)
  with all have at: "tp_at AtTest p = {}" by blast
  have "tp_pc p1 = tp_pc p" by (simp add: p1_def)
  then have pcs: "(\<lambda>t. if t \<in> set (tp_idle p) \<and> tp_pc p1 t = Waiting then AtTest else tp_pc p1 t) =
      (\<lambda>t. if t \<in> tp_live p then AtTest else tp_pc p t)"
    unfolding idle all by (intro ext) (simp add: tp_at_def)
  have q: "q = p1\<lparr> tp_pc := (\<lambda>t. if t \<in> tp_live p then AtTest else tp_pc p t) \<rparr>"
    by (simp only: q_def fold_signal pcs)
  have pcq: "tp_pc q t = (if t \<in> tp_live p then AtTest else tp_pc p t)" for t by (simp add: q)
  have live: "tp_live q = tp_live p" "tp_at AtTest q = tp_live p"
    by (auto simp: tp_live_def tp_at_def pcq)
  have pend: "tp_pending p = {#}" using at by (simp add: tp_pending_def)
  have q': "tp_mTotal q = tp_mTotal p" "tp_idle q = tp_idle p" "tp_list_ok q = tp_list_ok p"
    "tp_mMaxThreads q = tp_mMaxThreads p" "tp_dispatched q = tp_dispatched p" "tp_ran q = tp_ran p"
    "tp_mArg q = tp_mArg p" "tp_mIsShutdown q" "tp_pending q = {#}"
    by (simp_all add: q p1_def tp_idle_def tp_list_ok_def tp_pending_def)
  show ?thesis
  proof (cases "0 < tp_mTotal p")
    case True
    let ?r = "q\<lparr> tp_dtor := WaitEmpty \<rparr>"
    have fr: "tp_live ?r = tp_live q" "tp_at AtTest ?r = tp_at AtTest q" "tp_idle ?r = tp_idle q"
      "tp_list_ok ?r = tp_list_ok q" "tp_pending ?r = tp_pending q"
      by (simp_all add: tp_live_def tp_at_def tp_idle_def tp_list_ok_def tp_pending_def)
    have "tp_inv ?r"
      using inv sh True pend unfolding tp_inv_def fr live by (simp add: q')
    moreover have "dtor_shutdown p = ?r"
      using True q'(1) by (simp add: dtor_shutdown_def Let_def q_def p1_def)
    ultimately show ?thesis by simp
  next
    case False
    let ?r = "q\<lparr> tp_dtor := EmptyWoken \<rparr>"
    have fr: "tp_live ?r = tp_live q" "tp_at AtTest ?r = tp_at AtTest q" "tp_idle ?r = tp_idle q"
      "tp_list_ok ?r = tp_list_ok q" "tp_pending ?r = tp_pending q"
      by (simp_all add: tp_live_def tp_at_def tp_idle_def tp_list_ok_def tp_pending_def)
    have "tp_inv ?r"
      using inv sh False pend unfolding tp_inv_def fr live by (simp add: q')
    from tp_destroy_inv [OF this] have "tp_inv (dtor_destroy ?r)" by simp
    moreover have "dtor_shutdown p = dtor_destroy ?r"
      using False q'(1) by (simp add: dtor_shutdown_def Let_def q_def p1_def dtor_destroy_def tp_idle_def)
    ultimately show ?thesis by simp
  qed
qed

lemma tp_begin_inv:
  assumes inv: "tp_inv p" and nc: "tp_dtor p = NotCalled"
  shows "tp_inv (dtor_begin p)"
proof -
  have sh: "\<not> tp_mIsShutdown p" using inv nc by (auto simp: tp_inv_def)
  show ?thesis
  proof (cases "tp_mIndex p < tp_mTotal p")
    case True
    let ?r = "p\<lparr> tp_dtor := WaitFull \<rparr>"
    have fr: "tp_live ?r = tp_live p" "tp_at c ?r = tp_at c p" "tp_idle ?r = tp_idle p"
      "tp_list_ok ?r = tp_list_ok p" "tp_pending ?r = tp_pending p" for c
      by (simp_all add: tp_live_def tp_at_def tp_idle_def tp_list_ok_def tp_pending_def)
    have "tp_inv ?r" using inv sh unfolding tp_inv_def fr by simp
    with True show ?thesis by (simp add: dtor_begin_def)
  next
    case False
    have idle: "set (tp_idle p) = tp_at Waiting p" "distinct (tp_idle p)" "tp_list_ok p"
      using inv sh by (simp_all add: tp_inv_def)
    have "card (tp_at Waiting p) = tp_mIndex p"
      using distinct_card [of "tp_idle p"] idle by (simp add: tp_list_ok_def)
    then have "tp_at Waiting p = tp_live p"
      using False tp_idle_le [OF inv sh] tp_fin [OF inv] inv
      by (intro card_subset_eq) (auto simp: tp_inv_def tp_at_def tp_live_def)
    from tp_shutdown_inv [OF inv sh this [symmetric]] False show ?thesis by (simp add: dtor_begin_def)
  qed
qed

lemma tp_step_inv:
  assumes "tp_step p e q" "tp_quiet e" "tp_inv p"
  shows "tp_inv q"
  using assms(1)
proof (cases rule: tp_step.cases)
  case (dispatch new a r)
  from tp_dispatch_inv [OF assms(3) dispatch(2-4), of a] dispatch(5) show ?thesis by auto
next
  case (resume_full)
  with assms(3) have "\<not> tp_mIsShutdown p" "tp_live p = tp_at Waiting p" by (auto simp: tp_inv_def split: if_splits)
  with tp_shutdown_inv [OF assms(3) this] resume_full show ?thesis by simp
next
  case (leave t)
  with tp_leave_inv [OF assms(3) leave(3,4)] show ?thesis by simp
qed (use assms tp_run_inv tp_save_inv tp_begin_inv tp_destroy_inv in auto)

lemma tp_run_inv_all: "tp_run n es p \<Longrightarrow> list_all tp_quiet es \<Longrightarrow> tp_inv p"
proof (induction rule: tp_run.induct)
  case (step es p e q)
  then show ?case by (auto intro: tp_step_inv)
qed (rule tp_new_inv)

subsection \<open>Running the steps\<close>

text \<open>An executable form of the steps, for concrete runs.\<close>

fun tp_do :: "'a tp_event \<Rightarrow> 'a thread_pool \<Rightarrow> 'a thread_pool option" where
  "tp_do (TpDispatch a new) p =
     (if tp_dtor p = NotCalled \<and> \<not> dispatch_blocked p \<and> pred_option (\<lambda>t. tp_pc p t = Absent) new
      then (case ThreadPool_dispatch new a p of Inr (r, q) \<Rightarrow> Some q | Inl e \<Rightarrow> None) else None)"
| "tp_do (TpRun t) p = (if tp_pc p t = AtTest \<and> \<not> tp_mIsShutdown p then Some (wrapper_run t p) else None)"
| "tp_do (TpSave t) p = (if tp_pc p t = Ran \<and> \<not> tp_mIsShutdown p then Some (wrapper_save t p) else None)"
| "tp_do (TpLeave t) p =
     (if (tp_pc p t = AtTest \<or> tp_pc p t = Ran) \<and> tp_mIsShutdown p then Some (wrapper_leave t p) else None)"
| "tp_do TpDtor p =
     (case tp_dtor p of NotCalled \<Rightarrow> Some (dtor_begin p) | FullWoken \<Rightarrow> Some (dtor_shutdown p)
      | EmptyWoken \<Rightarrow> Some (dtor_destroy p) | _ \<Rightarrow> None)"
| "tp_do (TpSpurious t) p =
     (if tp_pc p t = Waiting then Some (p\<lparr> tp_pc := (tp_pc p)(t := AtTest) \<rparr>) else None)"

fun tp_do_all :: "'a tp_event list \<Rightarrow> 'a thread_pool \<Rightarrow> 'a thread_pool option" where
  "tp_do_all [] p = Some p"
| "tp_do_all (e # es) p = (case tp_do e p of None \<Rightarrow> None | Some q \<Rightarrow> tp_do_all es q)"

lemma tp_do_step: "tp_do e p = Some q \<Longrightarrow> tp_step p e q"
  by (induction e p rule: tp_do.induct)
    (auto intro: tp_step.intros split: if_splits option.splits sum.splits dtor_pc.splits)

lemma tp_do_run: "tp_run n es p \<Longrightarrow> tp_do_all es' p = Some q \<Longrightarrow> tp_run n (es @ es') q"
proof (induction es' arbitrary: es p)
  case (Cons e es')
  then obtain r where r: "tp_do e p = Some r" "tp_do_all es' r = Some q" by (auto split: option.splits)
  from Cons.IH [OF tp_run.step [OF Cons.prems(1) tp_do_step [OF r(1)]] r(2)] show ?case by simp
qed simp

lemmas tp_compute =
  ThreadPool_new_def ThreadPool_dispatch_def dispatch_blocked_def signal_thread_def wrapper_run_def
  wrapper_save_def ThreadPool_saveThread_def wrapper_leave_def dtor_begin_def dtor_shutdown_def
  dtor_destroy_def tp_idle_def

text \<open>
  C21: without spurious wake-ups every task given to \<open>dispatch\<close> runs exactly once: the tasks run
  and the tasks of the threads that are about to run theirs are, as a multiset, the tasks
  dispatched. There are never more threads than the pool was made for, and when the destructor
  has freed the thread structures no thread is left in its loop.
\<close>

theorem ThreadPool_each_task_once:
  assumes "tp_run n es p" "list_all tp_quiet es"
  shows "mset (tp_dispatched p) = mset (tp_ran p) + tp_pending p \<and> tp_mTotal p \<le> tp_mMaxThreads p
     \<and> \<not> (tp_dtor p = Destroyed \<and> tp_live p \<noteq> {})"
proof -
  from tp_run_inv_all [OF assms] have inv: "tp_inv p" .
  have "tp_live p = {}" if "tp_dtor p = Destroyed"
    using that inv card_0_eq [of "tp_live p"] by (auto simp: tp_inv_def split: if_splits)
  with inv show ?thesis by (auto simp: tp_inv_def)
qed

definition tp_example :: "nat thread_pool" where
  "tp_example = the (tp_do_all [TpDispatch 7 (Some 0), TpRun 0, TpSave 0, TpDispatch 8 None, TpRun 0]
     (ThreadPool_new 4))"

lemma tp_example_run:
  "tp_run 4 [TpDispatch 7 (Some 0), TpRun 0, TpSave 0, TpDispatch 8 None, TpRun 0] tp_example"
  using tp_do_run [OF tp_run.start, of "[TpDispatch 7 (Some 0), TpRun 0, TpSave 0, TpDispatch 8 None, TpRun 0]" 4
      tp_example]
  by (simp add: tp_example_def tp_compute)

theorem ThreadPool_each_task_once_witness:
  "mset (tp_dispatched tp_example) = mset (tp_ran tp_example) + tp_pending tp_example
     \<and> tp_mTotal tp_example \<le> tp_mMaxThreads tp_example
     \<and> \<not> (tp_dtor tp_example = Destroyed \<and> tp_live tp_example \<noteq> {})"
  by (rule ThreadPool_each_task_once [OF tp_example_run]) simp

text \<open>
  \<open>wrapperFunc\<close> does not test why \<open>sp_thread_cond_wait\<close> returned. After one spurious
  wake-up an idle thread runs its last task a second time while it is still on the list of idle
  threads; the next \<open>dispatch\<close> gives it a task and signals nobody, and this task never runs,
  though every thread is idle in the end.
\<close>

theorem ThreadPool_spurious_wakeup:
  "\<exists>p :: nat thread_pool. tp_run 4 [TpDispatch 1 (Some 0), TpRun 0, TpSave 0, TpSpurious 0, TpRun 0,
       TpDispatch 2 None, TpSave 0] p \<and>
     tp_dispatched p = [1, 2] \<and> tp_ran p = [1, 1] \<and> tp_live p = set (tp_idle p)"
proof -
  let ?es = "[TpDispatch 1 (Some 0), TpRun 0, TpSave 0, TpSpurious 0, TpRun 0, TpDispatch 2 None, TpSave 0]"
  obtain p :: "nat thread_pool" where p: "tp_do_all ?es (ThreadPool_new 4) = Some p"
    by (simp add: tp_compute)
  moreover have "replicate 4 (None :: nat option) = [None, None, None, None]"
    by (simp add: eval_nat_numeral)
  then have "tp_dispatched p = [1, 2] \<and> tp_ran p = [1, 1] \<and> tp_live p = set (tp_idle p)"
    using p by (auto simp: tp_compute tp_live_def split: if_splits)
  ultimately show ?thesis using tp_do_run [OF tp_run.start p] by auto
qed

end
