(* ===== verification/SP_Executor.thy ===== *)
theory SP_Executor
  imports SP_BlockingQueue SP_ThreadPool
begin

text \<open>
  \<open>SP_Executor\<close> (spexecutor.hpp, spexecutor.cpp): tasks go through an \<open>SP_BlockingQueue\<close> to the
  thread of \<open>eventLoop\<close>, which hands them to an \<open>SP_ThreadPool\<close> or, when the pool has one thread
  or cannot make one, runs them itself. The state puts the two components together, with their
  own steps; the program counters are those of \<open>eventLoop\<close> and of the destructor. A task is an
  \<open>SP_Task\<close>; the wake-up of \<open>shutdown\<close> is the \<open>SP_SimpleTask\<close> with \<open>worker\<close> and NULL. The flag
  \<open>mIsShutdown\<close> is read without the mutex, so reading it is a step of its own. \<open>ex_inline\<close> is a
  history of what \<open>eventLoop\<close> passed to \<open>worker\<close> itself.
\<close>

datatype 'a ex_task = Task 'a | Wakeup

datatype 'a loop_pc =
    LoopTest                          \<comment> \<open>before the test of \<open>mIsShutdown\<close>\<close>
  | LoopPop                           \<comment> \<open>in \<open>mQueue->pop()\<close>\<close>
  | LoopHave "'a ex_task option"      \<comment> \<open>with the popped pointer, NULL for \<open>None\<close>\<close>
  | LoopEnd                           \<comment> \<open>past the loop\<close>
  | LoopLocked                        \<comment> \<open>\<open>mIsShutdown\<close> is 2, \<open>mMutex\<close> is held\<close>
  | LoopDone                          \<comment> \<open>signalled and unlocked\<close>

datatype ex_dtor_pc =
    DtNot
  | DtTest                            \<comment> \<open>before the test \<open>2 != mIsShutdown\<close>\<close>
  | DtLock                            \<comment> \<open>in the body, before \<open>sp_thread_mutex_lock\<close>\<close>
  | DtWait                            \<comment> \<open>in \<open>sp_thread_cond_wait\<close>\<close>
  | DtWoken
  | DtDelete                          \<comment> \<open>mutex and condition destroyed, deleting the pool\<close>
  | DtDone

record 'a executor =
  ex_mThreadPool :: "'a ex_task option thread_pool"
  ex_mQueue :: "'a ex_task blocking_queue"
  ex_mIsShutdown :: nat
  ex_loop :: "'a loop_pc"
  ex_dtor :: ex_dtor_pc
  ex_inline :: "'a ex_task option list"

abbreviation (input) loop_thread :: thread_id where "loop_thread \<equiv> 0"

definition Executor_new :: "int \<Rightarrow> 'a executor" where
  "Executor_new maxThreads =
     \<lparr> ex_mThreadPool = ThreadPool_new maxThreads, ex_mQueue = BlockingQueue_new,
       ex_mIsShutdown = 0, ex_loop = LoopTest, ex_dtor = DtNot, ex_inline = [] \<rparr>"

definition Executor_execute :: "'a ex_task \<Rightarrow> thread_id option \<Rightarrow> 'a executor \<Rightarrow> 'a executor" where
  "Executor_execute task sig s = s\<lparr> ex_mQueue := BlockingQueue_push task sig (ex_mQueue s) \<rparr>"

definition Executor_getQueueLength :: "'a executor \<Rightarrow> nat" where
  "Executor_getQueueLength s = BlockingQueue_getLength (ex_mQueue s)"

definition Executor_shutdown :: "thread_id option \<Rightarrow> 'a executor \<Rightarrow> 'a executor" where
  "Executor_shutdown sig s =
     (if ex_mIsShutdown s = 0 then Executor_execute Wakeup sig (s\<lparr> ex_mIsShutdown := 1 \<rparr>) else s)"

text \<open>What a signal on the queue wakes: the loop thread, when it waits.\<close>

definition queue_sig :: "'a executor \<Rightarrow> thread_id option" where
  "queue_sig s = (if loop_thread \<in> bq_waiting (ex_mQueue s) then Some loop_thread else None)"

definition loop_test :: "'a executor \<Rightarrow> 'a executor" where
  "loop_test s = s\<lparr> ex_loop := (if ex_mIsShutdown s = 0 then LoopPop else LoopEnd) \<rparr>"

definition loop_popped :: "'a ex_task blocking_queue \<Rightarrow> 'a executor \<Rightarrow> 'a executor" where
  "loop_popped q s = s\<lparr> ex_mQueue := q, ex_loop := LoopHave (snd (last (bq_popped q))) \<rparr>"

text \<open>\<open>worker\<close>: a NULL argument is skipped; \<open>run\<close> of a task belongs to its caller.\<close>

definition Executor_worker :: "'a ex_task option \<Rightarrow> 'a executor \<Rightarrow> 'a executor" where
  "Executor_worker arg s = s\<lparr> ex_inline := ex_inline s @ [arg] \<rparr>"

definition loop_hand ::
    "pool_thread option \<Rightarrow> 'a ex_task option \<Rightarrow> 'a executor \<Rightarrow> 'a executor res" where
  "loop_hand new arg s =
     (if 1 < ThreadPool_getMaxThreads (ex_mThreadPool s)
      then (case ThreadPool_dispatch new arg (ex_mThreadPool s) of
              Inl f \<Rightarrow> Inl f
            | Inr (r, p) \<Rightarrow>
                let s' = s\<lparr> ex_mThreadPool := p, ex_loop := LoopTest \<rparr>
                in Inr (if r \<noteq> 0 then Executor_worker arg s' else s'))
      else Inr (Executor_worker arg (s\<lparr> ex_loop := LoopTest \<rparr>)))"

definition loop_signal :: "'a executor \<Rightarrow> 'a executor" where
  "loop_signal s =
     s\<lparr> ex_loop := LoopDone, ex_dtor := (if ex_dtor s = DtWait then DtWoken else ex_dtor s) \<rparr>"

definition dtor_test :: "'a executor \<Rightarrow> 'a executor" where
  "dtor_test s = s\<lparr> ex_dtor := (if ex_mIsShutdown s \<noteq> 2 then DtLock else DtDelete) \<rparr>"

subsection \<open>The steps\<close>

datatype 'a ex_event =
    ExExecute 'a
  | ExTest | ExPop | ExWait | ExWake | ExQueueSpurious
  | ExHand "pool_thread option"
  | ExEnd | ExSignal
  | ExDtor                            \<comment> \<open>the next step of the destructor\<close>
  | ExPool "'a ex_task option tp_event"

fun pool_own :: "'b tp_event \<Rightarrow> bool" where
  "pool_own (TpDispatch a new) = False"
| "pool_own TpDtor = False"
| "pool_own _ = True"

text \<open>
  The mutex is held between two steps at \<open>LoopLocked\<close> only. \<open>execute\<close> is called by threads that
  hold a reference to the executor, so not once the destructor has begun.
\<close>

inductive ex_step :: "'a executor \<Rightarrow> 'a ex_event \<Rightarrow> 'a executor \<Rightarrow> bool" where
  execute: "ex_dtor s = DtNot \<Longrightarrow> ex_step s (ExExecute x) (Executor_execute (Task x) (queue_sig s) s)"
| loop_test: "ex_loop s = LoopTest \<Longrightarrow> ex_step s ExTest (loop_test s)"
| loop_pop: "ex_loop s = LoopPop \<Longrightarrow> bq_step (ex_mQueue s) (BqPop loop_thread) q \<Longrightarrow>
     ex_step s ExPop (loop_popped q s)"
| loop_wait: "ex_loop s = LoopPop \<Longrightarrow> bq_step (ex_mQueue s) (BqWait loop_thread) q \<Longrightarrow>
     ex_step s ExWait (s\<lparr> ex_mQueue := q \<rparr>)"
| loop_wake: "ex_loop s = LoopPop \<Longrightarrow> bq_step (ex_mQueue s) (BqWake loop_thread) q \<Longrightarrow>
     ex_step s ExWake (loop_popped q s)"
| loop_spurious: "bq_step (ex_mQueue s) (BqSpurious loop_thread) q \<Longrightarrow>
     ex_step s ExQueueSpurious (s\<lparr> ex_mQueue := q \<rparr>)"
| loop_hand: "ex_loop s = LoopHave arg \<Longrightarrow>
     1 < ThreadPool_getMaxThreads (ex_mThreadPool s) \<longrightarrow> \<not> dispatch_blocked (ex_mThreadPool s) \<Longrightarrow>
     pred_option (\<lambda>t. tp_pc (ex_mThreadPool s) t = Absent) new \<Longrightarrow> loop_hand new arg s = Inr s' \<Longrightarrow>
     ex_step s (ExHand new) s'"
| loop_end: "ex_loop s = LoopEnd \<Longrightarrow> ex_step s ExEnd (s\<lparr> ex_mIsShutdown := 2, ex_loop := LoopLocked \<rparr>)"
| loop_signal: "ex_loop s = LoopLocked \<Longrightarrow> ex_step s ExSignal (loop_signal s)"
| dtor_begin: "ex_dtor s = DtNot \<Longrightarrow> ex_loop s \<noteq> LoopLocked \<Longrightarrow>
     ex_step s ExDtor ((Executor_shutdown (queue_sig s) s)\<lparr> ex_dtor := DtTest \<rparr>)"
| dtor_test: "ex_dtor s = DtTest \<Longrightarrow> ex_step s ExDtor (dtor_test s)"
| dtor_wait: "ex_dtor s = DtLock \<Longrightarrow> ex_loop s \<noteq> LoopLocked \<Longrightarrow> ex_step s ExDtor (s\<lparr> ex_dtor := DtWait \<rparr>)"
| dtor_woken: "ex_dtor s = DtWoken \<Longrightarrow> ex_step s ExDtor (s\<lparr> ex_dtor := DtTest \<rparr>)"
| dtor_pool: "ex_dtor s = DtDelete \<Longrightarrow> tp_step (ex_mThreadPool s) TpDtor p \<Longrightarrow>
     ex_step s ExDtor (s\<lparr> ex_mThreadPool := p \<rparr>)"
| dtor_done: "ex_dtor s = DtDelete \<Longrightarrow> tp_dtor (ex_mThreadPool s) = Destroyed \<Longrightarrow>
     ex_step s ExDtor (s\<lparr> ex_dtor := DtDone \<rparr>)"
| pool: "pool_own e \<Longrightarrow> tp_step (ex_mThreadPool s) e p \<Longrightarrow>
     ex_step s (ExPool e) (s\<lparr> ex_mThreadPool := p \<rparr>)"

inductive ex_run :: "int \<Rightarrow> 'a ex_event list \<Rightarrow> 'a executor \<Rightarrow> bool" for n :: int where
  start: "ex_run n [] (Executor_new n)"
| step: "ex_run n es s \<Longrightarrow> ex_step s e t \<Longrightarrow> ex_run n (es @ [e]) t"

fun ex_quiet :: "'a ex_event \<Rightarrow> bool" where
  "ex_quiet (ExPool e) = tp_quiet e"
| "ex_quiet _ = True"

subsection \<open>No task is lost or run twice\<close>

definition loop_holds :: "'a executor \<Rightarrow> 'a ex_task option list" where
  "loop_holds s = (case ex_loop s of LoopHave x \<Rightarrow> [x] | _ \<Rightarrow> [])"

definition ex_inv :: "'a executor \<Rightarrow> bool" where
  "ex_inv s \<longleftrightarrow> bq_inv (ex_mQueue s) \<and> tp_inv (ex_mThreadPool s) \<and>
     mset (map snd (bq_popped (ex_mQueue s))) =
       mset (loop_holds s) + mset (ex_inline s) + mset (tp_dispatched (ex_mThreadPool s)) \<and>
     (tp_dtor (ex_mThreadPool s) \<noteq> NotCalled \<longrightarrow> ex_dtor s = DtDelete \<or> ex_dtor s = DtDone) \<and>
     (ex_dtor s = DtDelete \<or> ex_dtor s = DtDone \<longrightarrow> ex_loop s = LoopLocked \<or> ex_loop s = LoopDone) \<and>
     (ex_mIsShutdown s = 2 \<longleftrightarrow> ex_loop s = LoopLocked \<or> ex_loop s = LoopDone)"

lemma ex_new_inv: "ex_inv (Executor_new n)"
  using bq_run_inv [OF bq_run.start] tp_new_inv [of n]
  by (simp add: ex_inv_def Executor_new_def loop_holds_def BlockingQueue_new_def ThreadPool_new_def Let_def)

lemma bq_popped_push: "bq_popped (BlockingQueue_push x w q) = bq_popped q"
  by (simp add: BlockingQueue_push_def)

lemma bq_pop_snoc: "\<exists>r. bq_popped (BlockingQueue_pop t q) = bq_popped q @ [(t, r)]"
  by (auto simp: BlockingQueue_pop_def Let_def split: prod.splits)

lemma loop_popped_inv:
  assumes inv: "ex_inv s" and pc: "ex_loop s = LoopPop" and q: "q = BlockingQueue_pop t (ex_mQueue s)"
  shows "ex_inv (loop_popped q s)"
proof -
  obtain r where r: "bq_popped q = bq_popped (ex_mQueue s) @ [(t, r)]"
    using bq_pop_snoc [of t "ex_mQueue s"] q by auto
  have "bq_inv q" using inv q by (simp add: ex_inv_def BlockingQueue_pop_inv)
  with inv pc r show ?thesis by (auto simp: ex_inv_def loop_popped_def loop_holds_def)
qed

text \<open>The steps of the queue other than a pop keep what has been popped.\<close>

lemma ex_queue_inv:
  assumes "ex_inv s" "bq_inv q" "bq_popped q = bq_popped (ex_mQueue s)"
  shows "ex_inv (s\<lparr> ex_mQueue := q \<rparr>)"
  using assms by (auto simp: ex_inv_def loop_holds_def)

lemma Executor_execute_inv: "ex_inv s \<Longrightarrow> ex_inv (Executor_execute x w s)"
  unfolding Executor_execute_def
  by (rule ex_queue_inv) (simp_all add: bq_popped_push BlockingQueue_push_inv ex_inv_def)

lemma tp_dispatched_own:
  "tp_step p e q \<Longrightarrow> pool_own e \<or> e = TpDtor \<Longrightarrow> tp_dispatched q = tp_dispatched p"
proof (induction rule: tp_step.induct)
  case (destruct p)
  then show ?case by (simp add: dtor_begin_def dtor_shutdown_def dtor_destroy_def fold_signal Let_def)
next
  case (resume_full p)
  then show ?case by (simp add: dtor_shutdown_def dtor_destroy_def fold_signal Let_def)
qed (auto simp: wrapper_run_def wrapper_save_def ThreadPool_saveThread_def wrapper_leave_def dtor_destroy_def
    split: prod.splits if_splits)

lemma tp_dtor_own: "tp_step p e q \<Longrightarrow> pool_own e \<Longrightarrow> tp_dtor p = NotCalled \<Longrightarrow> tp_dtor q = NotCalled"
  by (induction rule: tp_step.induct)
    (auto simp: wrapper_run_def wrapper_save_def ThreadPool_saveThread_def wrapper_leave_def
      split: prod.splits if_splits)

lemma dispatch_history:
  "ThreadPool_dispatch new a p = Inr (r, q) \<Longrightarrow>
     tp_dtor q = tp_dtor p \<and> (r = 0 \<and> tp_dispatched q = tp_dispatched p @ [a] \<or> r = -1 \<and> q = p)"
  by (auto simp: ThreadPool_dispatch_def signal_thread_def split: if_splits option.splits)

lemma loop_hand_inv:
  assumes inv: "ex_inv s" and pc: "ex_loop s = LoopHave a"
    and nb: "1 < ThreadPool_getMaxThreads (ex_mThreadPool s) \<longrightarrow> \<not> dispatch_blocked (ex_mThreadPool s)"
    and new: "pred_option (\<lambda>t. tp_pc (ex_mThreadPool s) t = Absent) new"
    and hand: "loop_hand new a s = Inr s'"
  shows "ex_inv s'"
proof (cases "1 < ThreadPool_getMaxThreads (ex_mThreadPool s)")
  case False
  with hand inv pc show ?thesis
    by (auto simp: loop_hand_def Executor_worker_def ex_inv_def loop_holds_def)
next
  case True
  let ?p = "ex_mThreadPool s"
  have nc: "tp_dtor ?p = NotCalled" using inv pc by (auto simp: ex_inv_def)
  have "tp_inv ?p" using inv by (simp add: ex_inv_def)
  from tp_dispatch_inv [OF this nc _ new, of a] nb True obtain r q where
    d: "ThreadPool_dispatch new a ?p = Inr (r, q)" "tp_inv q" by auto
  from dispatch_history [OF d(1)] d hand True inv pc nc show ?thesis
    by (auto simp: loop_hand_def Let_def Executor_worker_def ex_inv_def loop_holds_def split: if_splits)
qed

lemma ex_step_inv:
  assumes "ex_step s e t" "ex_quiet e" "ex_inv s"
  shows "ex_inv t"
  using assms(1)
proof (cases rule: ex_step.cases)
  case (execute x)
  with Executor_execute_inv [OF assms(3)] show ?thesis by simp
next
  case (loop_pop q)
  then show ?thesis using loop_popped_inv [OF assms(3)] by (auto simp: bq_step_simps)
next
  case (loop_wake q)
  then show ?thesis using loop_popped_inv [OF assms(3)] by (auto simp: bq_step_simps)
next
  case (loop_wait q)
  have "bq_inv q" using bq_step_inv [OF loop_wait(4)] assms(3) by (simp add: ex_inv_def)
  with loop_wait ex_queue_inv [OF assms(3)] show ?thesis by (auto simp: bq_step_simps)
next
  case (loop_spurious q)
  have "bq_inv q" using bq_step_inv [OF loop_spurious(3)] assms(3) by (simp add: ex_inv_def)
  with loop_spurious ex_queue_inv [OF assms(3)] show ?thesis by (auto simp: bq_step_simps)
next
  case (loop_hand a new)
  then show ?thesis using loop_hand_inv [OF assms(3)] by simp
next
  case dtor_begin
  have "ex_inv (Executor_execute Wakeup (queue_sig s) (s\<lparr> ex_mIsShutdown := 1 \<rparr>))" if "ex_mIsShutdown s = 0"
    using that assms(3) by (intro Executor_execute_inv) (auto simp: ex_inv_def loop_holds_def)
  with dtor_begin assms(3) show ?thesis
    by (auto simp: ex_inv_def Executor_shutdown_def Executor_execute_def loop_holds_def)
next
  case (dtor_pool p)
  have "tp_inv p" using tp_step_inv [OF dtor_pool(4)] assms(3) by (simp add: ex_inv_def)
  with dtor_pool tp_dispatched_own [OF dtor_pool(4)] assms(3) show ?thesis
    by (auto simp: ex_inv_def loop_holds_def)
next
  case (pool e p)
  have "tp_inv p" using tp_step_inv [OF pool(4)] assms(2,3) pool(1) by (simp add: ex_inv_def)
  with pool tp_dispatched_own [OF pool(4)] tp_dtor_own [OF pool(4)] assms(3) show ?thesis
    by (auto simp: ex_inv_def loop_holds_def)
qed (use assms in \<open>auto simp: ex_inv_def loop_holds_def loop_test_def loop_signal_def dtor_test_def\<close>)

lemma ex_run_inv: "ex_run n es s \<Longrightarrow> list_all ex_quiet es \<Longrightarrow> ex_inv s"
proof (induction rule: ex_run.induct)
  case (step es s e t)
  then show ?case by (auto intro: ex_step_inv)
qed (rule ex_new_inv)

text \<open>
  C20: As long as no thread of the pool wakes up without a signal (\<open>ex_quiet\<close>), tasks leave the queue in
  the order they were given to \<open>execute\<close>, and each one that has left is in exactly one place: in the
  hands of \<open>eventLoop\<close>, run by \<open>eventLoop\<close> itself, run by a thread of the pool, or with a pool thread
  that is about to run it. The loop may wake up from the queue without a signal (it takes a NULL,
  which \<open>worker\<close> skips); for a thread of the pool the condition is needed: \<open>wrapperFunc\<close> does not
  test what it waits for, and runs its last task again (\<open>ThreadPool_spurious_wakeup\<close>).
\<close>

theorem Executor_conserves_tasks:
  assumes "ex_run n es s" "list_all ex_quiet es"
  shows "bq_pushed (ex_mQueue s) = bq_delivered (ex_mQueue s) @ CircleQueue_abs (bq_mQueue (ex_mQueue s))
     \<and> mset (map snd (bq_popped (ex_mQueue s))) = mset (loop_holds s) + mset (ex_inline s)
         + mset (tp_ran (ex_mThreadPool s)) + tp_pending (ex_mThreadPool s)"
  using ex_run_inv [OF assms] by (simp add: ex_inv_def bq_inv_def tp_inv_def)

subsection \<open>Concrete runs\<close>

text \<open>An executable form of the steps.\<close>

fun ex_do :: "'a ex_event \<Rightarrow> 'a executor \<Rightarrow> 'a executor option" where
  "ex_do (ExExecute x) s =
     (if ex_dtor s = DtNot then Some (Executor_execute (Task x) (queue_sig s) s) else None)"
| "ex_do ExTest s = (if ex_loop s = LoopTest then Some (loop_test s) else None)"
| "ex_do ExPop s =
     (if ex_loop s = LoopPop \<and> bq_idle loop_thread (ex_mQueue s) \<and> BlockingQueue_getLength (ex_mQueue s) \<noteq> 0
      then Some (loop_popped (BlockingQueue_pop loop_thread (ex_mQueue s)) s) else None)"
| "ex_do ExWait s =
     (if ex_loop s = LoopPop \<and> bq_idle loop_thread (ex_mQueue s) \<and> BlockingQueue_getLength (ex_mQueue s) = 0
      then Some (s\<lparr> ex_mQueue := (ex_mQueue s)\<lparr> bq_waiting := insert loop_thread (bq_waiting (ex_mQueue s)) \<rparr> \<rparr>)
      else None)"
| "ex_do ExWake s =
     (if ex_loop s = LoopPop \<and> loop_thread \<in> bq_woken (ex_mQueue s)
      then Some (loop_popped (BlockingQueue_pop loop_thread (ex_mQueue s)) s) else None)"
| "ex_do ExQueueSpurious s =
     (if loop_thread \<in> bq_waiting (ex_mQueue s)
      then Some (s\<lparr> ex_mQueue := (ex_mQueue s)\<lparr> bq_waiting := bq_waiting (ex_mQueue s) - {loop_thread},
             bq_woken := insert loop_thread (bq_woken (ex_mQueue s)) \<rparr> \<rparr>)
      else None)"
| "ex_do (ExHand new) s =
     (case ex_loop s of
        LoopHave arg \<Rightarrow>
          (if (1 < ThreadPool_getMaxThreads (ex_mThreadPool s) \<longrightarrow> \<not> dispatch_blocked (ex_mThreadPool s))
              \<and> pred_option (\<lambda>t. tp_pc (ex_mThreadPool s) t = Absent) new
           then (case loop_hand new arg s of Inl f \<Rightarrow> None | Inr s' \<Rightarrow> Some s') else None)
      | _ \<Rightarrow> None)"
| "ex_do ExEnd s =
     (if ex_loop s = LoopEnd then Some (s\<lparr> ex_mIsShutdown := 2, ex_loop := LoopLocked \<rparr>) else None)"
| "ex_do ExSignal s = (if ex_loop s = LoopLocked then Some (loop_signal s) else None)"
| "ex_do ExDtor s =
     (case ex_dtor s of
        DtNot \<Rightarrow> (if ex_loop s \<noteq> LoopLocked
                  then Some ((Executor_shutdown (queue_sig s) s)\<lparr> ex_dtor := DtTest \<rparr>) else None)
      | DtTest \<Rightarrow> Some (dtor_test s)
      | DtLock \<Rightarrow> (if ex_loop s \<noteq> LoopLocked then Some (s\<lparr> ex_dtor := DtWait \<rparr>) else None)
      | DtWoken \<Rightarrow> Some (s\<lparr> ex_dtor := DtTest \<rparr>)
      | DtDelete \<Rightarrow> (if tp_dtor (ex_mThreadPool s) = Destroyed then Some (s\<lparr> ex_dtor := DtDone \<rparr>)
                     else map_option (\<lambda>p. s\<lparr> ex_mThreadPool := p \<rparr>) (tp_do TpDtor (ex_mThreadPool s)))
      | _ \<Rightarrow> None)"
| "ex_do (ExPool e) s =
     (if pool_own e then map_option (\<lambda>p. s\<lparr> ex_mThreadPool := p \<rparr>) (tp_do e (ex_mThreadPool s)) else None)"

fun ex_do_all :: "'a ex_event list \<Rightarrow> 'a executor \<Rightarrow> 'a executor option" where
  "ex_do_all [] s = Some s"
| "ex_do_all (e # es) s = (case ex_do e s of None \<Rightarrow> None | Some t \<Rightarrow> ex_do_all es t)"

lemma ex_do_step:
  assumes "ex_do e s = Some t"
  shows "ex_step s e t"
proof (cases e)
  case (ExHand new)
  with assms show ?thesis
    by (auto intro!: ex_step.loop_hand split: loop_pc.splits if_splits sum.splits)
next
  case ExDtor
  with assms show ?thesis
    by (auto intro: ex_step.dtor_begin ex_step.dtor_test ex_step.dtor_wait ex_step.dtor_woken
        ex_step.dtor_pool ex_step.dtor_done tp_do_step split: ex_dtor_pc.splits if_splits
        simp del: tp_do.simps)
next
  case (ExPool p)
  with assms show ?thesis by (auto intro: ex_step.pool tp_do_step split: if_splits)
qed (use assms in \<open>auto intro!: ex_step.intros simp: bq_step_simps split: if_splits\<close>)

lemma ex_do_run: "ex_run n es s \<Longrightarrow> ex_do_all es' s = Some t \<Longrightarrow> ex_run n (es @ es') t"
proof (induction es' arbitrary: es s)
  case (Cons e es')
  then obtain r where r: "ex_do e s = Some r" "ex_do_all es' r = Some t" by (auto split: option.splits)
  from Cons.IH [OF ex_run.step [OF Cons.prems(1) ex_do_step [OF r(1)]] r(2)] show ?case by simp
qed simp

lemmas ex_compute =
  Executor_new_def Executor_execute_def Executor_shutdown_def queue_sig_def loop_test_def loop_popped_def
  loop_hand_def Executor_worker_def loop_signal_def dtor_test_def ThreadPool_getMaxThreads_def
  BlockingQueue_new_def BlockingQueue_push_def BlockingQueue_pop_def BlockingQueue_getLength_def bq_idle_def
  CircleQueue_new_def CircleQueue_push_def CircleQueue_grow_def CircleQueue_pop_def CircleQueue_getLength_def
  Let_def

definition ex_example :: "nat executor" where
  "ex_example = the (ex_do_all [ExExecute 7, ExTest, ExPop, ExHand (Some 5), ExPool (TpRun 5), ExExecute 8]
     (Executor_new 4))"

lemma ex_example_run:
  "ex_run 4 [ExExecute 7, ExTest, ExPop, ExHand (Some 5), ExPool (TpRun 5), ExExecute 8] ex_example"
  using ex_do_run [OF ex_run.start,
      of "[ExExecute 7, ExTest, ExPop, ExHand (Some 5), ExPool (TpRun 5), ExExecute 8]" 4 ex_example]
  by (simp add: ex_example_def ex_compute tp_compute)

theorem Executor_conserves_tasks_witness:
  "bq_pushed (ex_mQueue ex_example) =
       bq_delivered (ex_mQueue ex_example) @ CircleQueue_abs (bq_mQueue (ex_mQueue ex_example))
     \<and> mset (map snd (bq_popped (ex_mQueue ex_example))) = mset (loop_holds ex_example)
         + mset (ex_inline ex_example) + mset (tp_ran (ex_mThreadPool ex_example))
         + tp_pending (ex_mThreadPool ex_example)"
  by (rule Executor_conserves_tasks [OF ex_example_run]) simp

text \<open>
  \<open>~SP_Executor\<close> can wait for ever. It reads \<open>mIsShutdown\<close> before it takes the mutex; when
  \<open>eventLoop\<close> sets the flag to 2 and signals in between, the signal is lost and no thread can
  take another step.
\<close>

theorem Executor_destructor_hangs:
  "\<exists>s :: nat executor. ex_run 1 [ExDtor, ExDtor, ExTest, ExEnd, ExSignal, ExDtor] s \<and>
     ex_dtor s = DtWait \<and> ex_loop s = LoopDone \<and> \<not> (\<exists>e t. ex_step s e t)"
proof -
  let ?es = "[ExDtor, ExDtor, ExTest, ExEnd, ExSignal, ExDtor]"
  obtain s :: "nat executor" where s: "ex_do_all ?es (Executor_new 1) = Some s"
    by (simp add: ex_compute)
  then have st: "ex_dtor s = DtWait" "ex_loop s = LoopDone" "bq_waiting (ex_mQueue s) = {}"
    "ex_mThreadPool s = ThreadPool_new 1"
    by (auto simp: ex_compute)
  have "\<not> tp_step (ThreadPool_new 1) e p" if "pool_own e" for e and p :: "nat ex_task option thread_pool"
    using that by (auto elim!: tp_step.cases simp: ThreadPool_new_def)
  with st have "\<not> ex_step s e t" for e t
    by (auto elim!: ex_step.cases simp: bq_step_simps)
  with st ex_do_run [OF ex_run.start s] show ?thesis by auto
qed

text \<open>
  The other order is no better: the destructor that reads 2 right after \<open>eventLoop\<close> has written
  it destroys the mutex that \<open>eventLoop\<close> still holds, and deletes the executor it is about to
  signal through.
\<close>

lemma Executor_destroys_held_mutex:
  "\<exists>s :: nat executor. ex_run 1 [ExDtor, ExTest, ExEnd, ExDtor] s \<and>
     ex_dtor s = DtDelete \<and> ex_loop s = LoopLocked"
proof -
  obtain s :: "nat executor" where s: "ex_do_all [ExDtor, ExTest, ExEnd, ExDtor] (Executor_new 1) = Some s"
    by (simp add: ex_compute)
  then have "ex_dtor s = DtDelete" "ex_loop s = LoopLocked" by (auto simp: ex_compute)
  with ex_do_run [OF ex_run.start s] show ?thesis by auto
qed

text \<open>Tasks that are still in the queue when \<open>shutdown\<close> is called are dropped with it.\<close>

lemma Executor_drops_tasks:
  "\<exists>s :: nat executor. ex_run 1 [ExExecute 7, ExDtor, ExTest, ExEnd, ExSignal, ExDtor, ExDtor, ExDtor] s \<and>
     ex_dtor s = DtDone \<and> bq_pushed (ex_mQueue s) = [Task 7, Wakeup] \<and> bq_popped (ex_mQueue s) = []"
proof -
  let ?es = "[ExExecute 7, ExDtor, ExTest, ExEnd, ExSignal, ExDtor, ExDtor, ExDtor]"
  obtain s :: "nat executor" where s: "ex_do_all ?es (Executor_new 1) = Some s"
    by (simp add: ex_compute tp_compute)
  then have "ex_dtor s = DtDone" "bq_pushed (ex_mQueue s) = [Task 7, Wakeup]" "bq_popped (ex_mQueue s) = []"
    by (auto simp: ex_compute tp_compute)
  with ex_do_run [OF ex_run.start s] show ?thesis by auto
qed

end
