(* ===== verification/SP_Tunnel.thy ===== *)
theory SP_Tunnel
  imports SP_Message
begin

text \<open>
  The tunnel (sptunnelimpl.hpp, sptunnelimpl.cpp): the handler of a client's session connects to
  the backend and pushes a second session for it; each handler passes what it reads on to the
  other session as a message. The two handlers share an \<open>SP_TunnelArg\<close> that counts its
  references. The handlers run on different worker threads; the steps of \<open>SP_BackendHandler::start\<close>
  are kept apart because \<open>SP_TunnelHandler::handle\<close> may read the shared object in between. The
  order in which the event loop takes the responses is that of \<open>SP_ServerRun\<close>; here a message
  counts as sent when its handler returns. Fields with a history say so.
\<close>

subsection \<open>SP_TunnelArg\<close>

datatype tunnel_status = eCreate | eTunnelNormal | eDestroy

record tunnel_arg =
  ta_mRefCount :: "8 word"
  ta_mTunnelStatus :: tunnel_status
  ta_mBackendStatus :: tunnel_status
  ta_mTunnelSid :: sp_sid
  ta_mBackendSid :: sp_sid

definition TunnelArg_create :: tunnel_arg where
  "TunnelArg_create =
     \<lparr> ta_mRefCount = 1, ta_mTunnelStatus = eCreate, ta_mBackendStatus = eCreate,
       ta_mTunnelSid = \<lparr> sid_mKey = 0, sid_mSeq = 0 \<rparr>, ta_mBackendSid = \<lparr> sid_mKey = 0, sid_mSeq = 0 \<rparr> \<rparr>"

definition TunnelArg_addRef :: "tunnel_arg \<Rightarrow> tunnel_arg" where
  "TunnelArg_addRef a = a\<lparr> ta_mRefCount := ta_mRefCount a + 1 \<rparr>"

text \<open>\<open>release\<close> deletes the object (\<open>None\<close>) when the count has reached 0.\<close>

definition TunnelArg_release :: "tunnel_arg \<Rightarrow> tunnel_arg option" where
  "TunnelArg_release a =
     (let a' = a\<lparr> ta_mRefCount := ta_mRefCount a - 1 \<rparr>
      in if ta_mRefCount a' = 0 then None else Some a')"

subsection \<open>SP_TunnelDecoder\<close>

text \<open>The field \<open>mBuffer\<close>, the input buffer; the answer is whether \<open>decode\<close> says \<open>eOK\<close>.\<close>

definition TunnelDecoder_decode :: "bytes option \<Rightarrow> bytes \<Rightarrow> bool \<times> bytes option \<times> bytes" where
  "TunnelDecoder_decode mBuffer inBuffer =
     (let (mBuffer', inBuffer') =
            (if 0 < length inBuffer
             then (case mBuffer of Some b \<Rightarrow> (Some (b @ inBuffer), []) | None \<Rightarrow> (Some inBuffer, []))
             else (mBuffer, inBuffer));
          ok = (case mBuffer' of None \<Rightarrow> False | Some b \<Rightarrow> 0 < length b)
      in (ok, mBuffer', inBuffer'))"

definition TunnelDecoder_takeBuffer :: "bytes option \<Rightarrow> bytes option \<times> bytes option" where
  "TunnelDecoder_takeBuffer mBuffer = (mBuffer, None)"

text \<open>\<open>new SP_BufferMsgBlock( buffer, 1 )\<close>; a NULL buffer would be read by \<open>getSize\<close>.\<close>

definition block_of :: "bytes option \<Rightarrow> msg_block res" where
  "block_of buffer = (case buffer of None \<Rightarrow> Inl NullDeref | Some b \<Rightarrow> Inr (BufferMsgBlock b True))"

subsection \<open>The two handlers\<close>

text \<open>\<open>SP_BackendHandler::start\<close>, its two assignments to the shared object.\<close>

definition BackendHandler_setSid :: "sp_sid \<Rightarrow> tunnel_arg \<Rightarrow> tunnel_arg" where
  "BackendHandler_setSid fromSid a = a\<lparr> ta_mBackendSid := fromSid \<rparr>"

definition BackendHandler_setNormal :: "tunnel_arg \<Rightarrow> tunnel_arg" where
  "BackendHandler_setNormal a = a\<lparr> ta_mBackendStatus := eTunnelNormal \<rparr>"

definition BackendHandler_handle ::
    "tunnel_arg \<Rightarrow> bytes option \<Rightarrow> sp_response \<Rightarrow> (int \<times> bytes option \<times> sp_response) res" where
  "BackendHandler_handle a decoder response =
     (case TunnelDecoder_takeBuffer decoder of (buffer, decoder') \<Rightarrow>
      res_bind (block_of buffer) (\<lambda>blk.
        let msg = Message_setToList (SidList_add (ta_mTunnelSid a) (Message_getToList (Message_new 0))) (Message_new 0);
            msg' = msg\<lparr> mg_mFollowBlockList := Some (MsgBlockList_append blk (Message_getFollowBlockList msg)) \<rparr>
        in Inr (if ta_mTunnelStatus a = eTunnelNormal then 0 else -1, decoder', Response_addMessage msg' response)))"

definition BackendHandler_end :: "tunnel_arg \<Rightarrow> tunnel_arg" where
  "BackendHandler_end a = a\<lparr> ta_mBackendStatus := eDestroy \<rparr>"

text \<open>
  \<open>SP_TunnelHandler::start\<close>: the answer, the shared object and whether a backend session was
  pushed. The parameter stands for \<open>socket\<close> and \<open>connect\<close>: no socket, refused, connected.
\<close>

datatype connect_result = NoSocket | Refused int | Connected

definition TunnelHandler_start :: "sp_sid \<Rightarrow> connect_result \<Rightarrow> tunnel_arg \<Rightarrow> int \<times> tunnel_arg \<times> bool" where
  "TunnelHandler_start fromSid conn a =
     (let a' = a\<lparr> ta_mTunnelSid := fromSid, ta_mTunnelStatus := eTunnelNormal \<rparr>
      in case conn of NoSocket \<Rightarrow> (-1, a', False) | Refused e \<Rightarrow> (e, a', False)
         | Connected \<Rightarrow> (0, TunnelArg_addRef a', True))"

text \<open>The loop that moves the kept blocks into the message.\<close>

function flush_blocks :: "msg_block_list \<Rightarrow> msg_block_list \<Rightarrow> msg_block_list \<times> msg_block_list" where
  "flush_blocks kept follow =
     (if 0 < MsgBlockList_getCount kept
      then (case MsgBlockList_takeItem 0 kept of
              (Some blk, kept') \<Rightarrow> flush_blocks kept' (MsgBlockList_append blk follow)
            | (None, kept') \<Rightarrow> (kept', follow))
      else (kept, follow))"
  by pat_completeness auto
termination
  by (relation "measure (\<lambda>(kept, follow). length kept)")
    (auto simp: MsgBlockList_takeItem_def MsgBlockList_getCount_def lst_take_def lst_index_def LAST_INDEX_def
      Let_def split: if_splits)

declare flush_blocks.simps [simp del]

lemma flush_blocks_eq: "flush_blocks kept follow = ([], follow @ kept)"
proof (induction kept arbitrary: follow)
  case Nil
  then show ?case by (subst flush_blocks.simps) (simp add: MsgBlockList_getCount_def)
next
  case (Cons blk kept)
  then show ?case
    by (subst flush_blocks.simps)
      (simp add: MsgBlockList_getCount_def MsgBlockList_takeItem_def lst_take_first MsgBlockList_append_def)
qed

definition TunnelHandler_handle ::
    "tunnel_arg \<Rightarrow> msg_block_list \<Rightarrow> bytes option \<Rightarrow> sp_response \<Rightarrow>
       (int \<times> msg_block_list \<times> bytes option \<times> sp_response) res" where
  "TunnelHandler_handle a mMsgBlockList decoder response =
     (case TunnelDecoder_takeBuffer decoder of (buffer, decoder') \<Rightarrow>
      res_bind (block_of buffer) (\<lambda>blk.
        let ret = (if ta_mBackendStatus a \<noteq> eDestroy then 0 else -1)
        in if ta_mBackendStatus a = eCreate
           then Inr (ret, MsgBlockList_append blk mMsgBlockList, decoder', response)
           else
             let msg = Message_setToList (SidList_add (ta_mBackendSid a) (Message_getToList (Message_new 0))) (Message_new 0);
                 (kept, follow) = flush_blocks mMsgBlockList (Message_getFollowBlockList msg);
                 msg' = msg\<lparr> mg_mFollowBlockList := Some (MsgBlockList_append blk follow) \<rparr>
             in Inr (ret, kept, decoder', Response_addMessage msg' response)))"

definition TunnelHandler_end :: "tunnel_arg \<Rightarrow> tunnel_arg" where
  "TunnelHandler_end a = a\<lparr> ta_mTunnelStatus := eDestroy \<rparr>"

subsection \<open>The two sessions together\<close>

datatype side = Before | Pushed | SidKnown | Running | Ended

text \<open>
  Each session has an input buffer, a decoder and a handler. \<open>tn_backendSid\<close> is the sid the
  dispatcher gave the backend session. The last five fields are histories: the bytes read from
  the two sockets, the messages the handlers sent, and what was still held when a session ended.
\<close>

record tunnel =
  tn_arg :: "tunnel_arg option"
  tn_side :: side                       \<comment> \<open>of the client's session\<close>
  tn_backSide :: side
  tn_mMsgBlockList :: msg_block_list
  tn_in :: bytes
  tn_decoder :: "bytes option"
  tn_backIn :: bytes
  tn_backDecoder :: "bytes option"
  tn_tunnelSid :: sp_sid
  tn_backendSid :: sp_sid
  tn_read :: bytes
  tn_backRead :: bytes
  tn_sent :: "sp_message list"
  tn_backSent :: "sp_message list"
  tn_dropped :: bytes

definition tunnel_new :: "sp_sid \<Rightarrow> sp_sid \<Rightarrow> tunnel" where
  "tunnel_new tsid bsid =
     \<lparr> tn_arg = Some TunnelArg_create, tn_side = Before, tn_backSide = Before, tn_mMsgBlockList = [],
       tn_in = [], tn_decoder = None, tn_backIn = [], tn_backDecoder = None, tn_tunnelSid = tsid,
       tn_backendSid = bsid, tn_read = [], tn_backRead = [], tn_sent = [], tn_backSent = [], tn_dropped = [] \<rparr>"

definition with_arg :: "tunnel \<Rightarrow> (tunnel_arg \<Rightarrow> tunnel res) \<Rightarrow> tunnel res" where
  "with_arg s f = (case tn_arg s of None \<Rightarrow> Inl UseAfterFree | Some a \<Rightarrow> f a)"

definition block_bytes :: "msg_block \<Rightarrow> bytes" where
  "block_bytes blk = (case MsgBlock_getData blk of Inl e \<Rightarrow> [] | Inr b \<Rightarrow> b)"

definition blocks_bytes :: "msg_block_list \<Rightarrow> bytes" where
  "blocks_bytes l = concat (map block_bytes l)"

text \<open>What the client's session has read and not yet sent on.\<close>

definition tn_held :: "tunnel \<Rightarrow> bytes" where
  "tn_held s = (if tn_side s = Ended then tn_dropped s
     else blocks_bytes (tn_mMsgBlockList s) @ lazy [] (tn_decoder s) @ tn_in s)"

datatype tunnel_event =
    TnStart connect_result            \<comment> \<open>\<open>SP_TunnelHandler::start\<close>\<close>
  | TnRecv bytes                      \<comment> \<open>the client's socket is read\<close>
  | TnHandle                          \<comment> \<open>\<open>decode\<close> and, when it says \<open>eOK\<close>, \<open>handle\<close>\<close>
  | TnEnd                             \<comment> \<open>\<open>error\<close>, \<open>timeout\<close> or \<open>close\<close>, and the destructor\<close>
  | BkSetSid | BkSetNormal            \<comment> \<open>\<open>SP_BackendHandler::start\<close>\<close>
  | BkRecv bytes
  | BkHandle
  | BkEnd

text \<open>The client's session, then the backend's.\<close>

definition tunnel_handle :: "tunnel \<Rightarrow> tunnel res" where
  "tunnel_handle s =
     (case TunnelDecoder_decode (tn_decoder s) (tn_in s) of (ok, d, rest) \<Rightarrow>
        let s' = s\<lparr> tn_decoder := d, tn_in := rest \<rparr>
        in if ok
           then with_arg s' (\<lambda>a.
             res_bind (TunnelHandler_handle a (tn_mMsgBlockList s) d (Response_new (tn_tunnelSid s)))
               (\<lambda>(ret, kept, d', response).
                 Inr (s'\<lparr> tn_mMsgBlockList := kept, tn_decoder := d',
                          tn_sent := tn_sent s @ rs_mList response \<rparr>)))
           else Inr s')"

definition backend_handle :: "tunnel \<Rightarrow> tunnel res" where
  "backend_handle s =
     (case TunnelDecoder_decode (tn_backDecoder s) (tn_backIn s) of (ok, d, rest) \<Rightarrow>
        let s' = s\<lparr> tn_backDecoder := d, tn_backIn := rest \<rparr>
        in if ok
           then with_arg s' (\<lambda>a.
             res_bind (BackendHandler_handle a d (Response_new (tn_backendSid s)))
               (\<lambda>(ret, d', response).
                 Inr (s'\<lparr> tn_backDecoder := d', tn_backSent := tn_backSent s @ rs_mList response \<rparr>)))
           else Inr s')"

text \<open>A step that is not enabled is \<open>None\<close>.\<close>

definition tunnel_step :: "tunnel_event \<Rightarrow> tunnel \<Rightarrow> tunnel res option" where
  "tunnel_step e s =
     (case e of
        TnStart conn \<Rightarrow>
          (if tn_side s = Before
           then Some (with_arg s (\<lambda>a.
             case TunnelHandler_start (tn_tunnelSid s) conn a of (ret, a', pushed) \<Rightarrow>
               Inr (s\<lparr> tn_arg := Some a', tn_side := Running,
                       tn_backSide := (if pushed then Pushed else Before) \<rparr>)))
           else None)
      | TnRecv data \<Rightarrow>
          (if tn_side s = Running
           then Some (Inr (s\<lparr> tn_in := tn_in s @ data, tn_read := tn_read s @ data \<rparr>)) else None)
      | TnHandle \<Rightarrow> (if tn_side s = Running then Some (tunnel_handle s) else None)
      | TnEnd \<Rightarrow>
          (if tn_side s = Running
           then Some (with_arg s (\<lambda>a.
             Inr (s\<lparr> tn_arg := TunnelArg_release (TunnelHandler_end a), tn_side := Ended,
                     tn_dropped := tn_held s \<rparr>)))
           else None)
      | BkSetSid \<Rightarrow>
          (if tn_backSide s = Pushed
           then Some (with_arg s (\<lambda>a. Inr (s\<lparr> tn_arg := Some (BackendHandler_setSid (tn_backendSid s) a),
                                              tn_backSide := SidKnown \<rparr>)))
           else None)
      | BkSetNormal \<Rightarrow>
          (if tn_backSide s = SidKnown
           then Some (with_arg s (\<lambda>a. Inr (s\<lparr> tn_arg := Some (BackendHandler_setNormal a),
                                              tn_backSide := Running \<rparr>)))
           else None)
      | BkRecv data \<Rightarrow>
          (if tn_backSide s = Running
           then Some (Inr (s\<lparr> tn_backIn := tn_backIn s @ data, tn_backRead := tn_backRead s @ data \<rparr>)) else None)
      | BkHandle \<Rightarrow> (if tn_backSide s = Running then Some (backend_handle s) else None)
      | BkEnd \<Rightarrow>
          (if tn_backSide s = Running
           then Some (with_arg s (\<lambda>a.
             Inr (s\<lparr> tn_arg := TunnelArg_release (BackendHandler_end a), tn_backSide := Ended \<rparr>)))
           else None))"

fun tunnel_run :: "tunnel_event list \<Rightarrow> tunnel \<Rightarrow> tunnel res" where
  "tunnel_run [] s = Inr s"
| "tunnel_run (e # es) s =
     (case tunnel_step e s of None \<Rightarrow> tunnel_run es s | Some r \<Rightarrow> res_bind r (tunnel_run es))"

subsection \<open>The invariant\<close>

definition sent_bytes :: "sp_message list \<Rightarrow> bytes" where
  "sent_bytes ms = concat (map (\<lambda>m. blocks_bytes (Message_getFollowBlockList m)) ms)"

definition addressed :: "sp_sid \<Rightarrow> sp_message \<Rightarrow> bool" where
  "addressed sid m \<longleftrightarrow> Message_getToList m = [sid]"

definition holds_arg :: "side \<Rightarrow> nat" where
  "holds_arg d = (if d \<in> {Pushed, SidKnown, Running} then 1 else 0)"

text \<open>
  One reference for each handler that is not deleted: the client's from the beginning, the
  backend's once it has been pushed.
\<close>

definition tn_refs :: "side \<Rightarrow> side \<Rightarrow> nat" where
  "tn_refs d bd = (if d = Ended then 0 else 1) + holds_arg bd"

definition arg_inv :: "tunnel_arg option \<Rightarrow> side \<Rightarrow> side \<Rightarrow> sp_sid \<Rightarrow> sp_sid \<Rightarrow> bool" where
  "arg_inv arg d bd tsid bsid \<longleftrightarrow> (d = Before \<or> d = Running \<or> d = Ended) \<and>
     (case arg of
        None \<Rightarrow> tn_refs d bd = 0
      | Some a \<Rightarrow> tn_refs d bd \<noteq> 0 \<and> ta_mRefCount a = of_nat (tn_refs d bd) \<and>
          (if d = Before then bd = Before else ta_mTunnelSid a = tsid) \<and>
          (if bd \<in> {Before, Pushed, SidKnown} then ta_mBackendStatus a = eCreate
           else ta_mBackendStatus a \<noteq> eCreate \<and> ta_mBackendSid a = bsid) \<and>
          (bd = SidKnown \<longrightarrow> ta_mBackendSid a = bsid))"

definition tunnel_inv :: "tunnel \<Rightarrow> bool" where
  "tunnel_inv s \<longleftrightarrow>
     arg_inv (tn_arg s) (tn_side s) (tn_backSide s) (tn_tunnelSid s) (tn_backendSid s) \<and>
     tn_read s = sent_bytes (tn_sent s) @ tn_held s \<and>
     tn_backRead s = sent_bytes (tn_backSent s) @ lazy [] (tn_backDecoder s) @ tn_backIn s \<and>
     list_all (addressed (tn_backendSid s)) (tn_sent s) \<and>
     list_all (addressed (tn_tunnelSid s)) (tn_backSent s)"

lemma decode_facts:
  assumes "TunnelDecoder_decode d inb = (ok, d', rest)"
  shows "lazy [] d' @ rest = lazy [] d @ inb" and "ok \<Longrightarrow> \<exists>b. d' = Some b \<and> rest = [] \<and> b = lazy [] d @ inb"
  using assms by (auto simp: TunnelDecoder_decode_def lazy_def Let_def split: if_splits option.splits)

lemma bytes_simps [simp]:
  "blocks_bytes [] = []" "blocks_bytes (xs @ ys) = blocks_bytes xs @ blocks_bytes ys"
  "blocks_bytes [BufferMsgBlock b own] = b"
  "sent_bytes [] = []" "sent_bytes (ms @ ns) = sent_bytes ms @ sent_bytes ns"
  by (simp_all add: blocks_bytes_def sent_bytes_def block_bytes_def)

lemma TunnelHandler_handle_ok:
  "\<exists>ret kept' ms. TunnelHandler_handle a kept (Some b) (Response_new sid) =
       Inr (ret, kept', None, (Response_new sid)\<lparr> rs_mList := ms \<rparr>) \<and>
     sent_bytes ms @ blocks_bytes kept' = blocks_bytes kept @ b \<and>
     (ta_mBackendStatus a = eCreate \<longrightarrow> ms = []) \<and>
     (ta_mBackendStatus a \<noteq> eCreate \<longrightarrow> list_all (addressed (ta_mBackendSid a)) ms \<and> kept' = [])"
  by (simp add: TunnelHandler_handle_def TunnelDecoder_takeBuffer_def block_of_def flush_blocks_eq
      Response_new_def Response_addMessage_def MsgBlockList_append_def MsgBlockList_new_def sent_bytes_def
      Message_getFollowBlockList_def Message_setToList_def Message_new_def Message_getToList_def lazy_def
      SidList_add_def SidList_new_def addressed_def Let_def)

lemma BackendHandler_handle_ok:
  "\<exists>ret ms. BackendHandler_handle a (Some b) (Response_new sid) =
       Inr (ret, None, (Response_new sid)\<lparr> rs_mList := ms \<rparr>) \<and>
     sent_bytes ms = b \<and> list_all (addressed (ta_mTunnelSid a)) ms"
  by (simp add: BackendHandler_handle_def TunnelDecoder_takeBuffer_def block_of_def
      Response_new_def Response_addMessage_def MsgBlockList_append_def MsgBlockList_new_def sent_bytes_def
      Message_getFollowBlockList_def Message_setToList_def Message_new_def Message_getToList_def lazy_def
      SidList_add_def SidList_new_def addressed_def Let_def)

lemma tunnel_handle_ok:
  assumes inv: "tunnel_inv s" and r: "tn_side s = Running"
  shows "\<exists>s'. tunnel_handle s = Inr s' \<and> tunnel_inv s'"
proof -
  obtain ok d rest where d: "TunnelDecoder_decode (tn_decoder s) (tn_in s) = (ok, d, rest)"
    using prod_cases3 by blast
  note f = decode_facts [OF d]
  show ?thesis
  proof (cases ok)
    case False
    with inv r d f(1) show ?thesis by (auto simp: tunnel_handle_def tunnel_inv_def tn_held_def)
  next
    case True
    with f(2) obtain b where b: "d = Some b" "rest = []" "b = lazy [] (tn_decoder s) @ tn_in s" by blast
    from inv r obtain a where a: "tn_arg s = Some a"
      by (auto simp: tunnel_inv_def arg_inv_def tn_refs_def split: option.splits)
    from TunnelHandler_handle_ok [of a "tn_mMsgBlockList s" b "tn_tunnelSid s"]
    obtain ret kept ms where h: "TunnelHandler_handle a (tn_mMsgBlockList s) (Some b) (Response_new (tn_tunnelSid s)) =
        Inr (ret, kept, None, (Response_new (tn_tunnelSid s))\<lparr> rs_mList := ms \<rparr>)"
      "sent_bytes ms @ blocks_bytes kept = blocks_bytes (tn_mMsgBlockList s) @ b"
      "ta_mBackendStatus a = eCreate \<longrightarrow> ms = []"
      "ta_mBackendStatus a \<noteq> eCreate \<longrightarrow> list_all (addressed (ta_mBackendSid a)) ms" by blast
    have "list_all (addressed (tn_backendSid s)) ms"
      using inv a h(3,4) by (cases "ta_mBackendStatus a = eCreate") (auto simp: tunnel_inv_def arg_inv_def split: if_splits)
    moreover have "tn_read s = sent_bytes (tn_sent s @ ms) @ blocks_bytes kept"
      using inv r b(3) h(2) by (simp add: tunnel_inv_def tn_held_def)
    ultimately show ?thesis
      using inv r a d True b h(1)
      by (simp add: tunnel_handle_def with_arg_def) (simp add: tunnel_inv_def tn_held_def lazy_def)
  qed
qed

lemma backend_handle_ok:
  assumes inv: "tunnel_inv s" and r: "tn_backSide s = Running"
  shows "\<exists>s'. backend_handle s = Inr s' \<and> tunnel_inv s'"
proof -
  obtain ok d rest where d: "TunnelDecoder_decode (tn_backDecoder s) (tn_backIn s) = (ok, d, rest)"
    using prod_cases3 by blast
  note f = decode_facts [OF d]
  show ?thesis
  proof (cases ok)
    case False
    with inv r d f(1) show ?thesis by (auto simp: backend_handle_def tunnel_inv_def tn_held_def)
  next
    case True
    with f(2) obtain b where b: "d = Some b" "rest = []" "b = lazy [] (tn_backDecoder s) @ tn_backIn s" by blast
    from inv r obtain a where a: "tn_arg s = Some a"
      by (auto simp: tunnel_inv_def arg_inv_def tn_refs_def holds_arg_def split: option.splits)
    from BackendHandler_handle_ok [of a b "tn_backendSid s"] obtain ret ms where
      h: "BackendHandler_handle a (Some b) (Response_new (tn_backendSid s)) =
        Inr (ret, None, (Response_new (tn_backendSid s))\<lparr> rs_mList := ms \<rparr>)"
      "sent_bytes ms = b" "list_all (addressed (ta_mTunnelSid a)) ms" by blast
    have "ta_mTunnelSid a = tn_tunnelSid s" using inv a r by (auto simp: tunnel_inv_def arg_inv_def split: if_splits)
    with inv r a d True b h show ?thesis
      by (simp add: backend_handle_def with_arg_def) (simp add: tunnel_inv_def tn_held_def lazy_def)
  qed
qed

text \<open>The other steps change the shared object and the phase of a session.\<close>

lemma arg_inv_some: "arg_inv arg d bd t b \<Longrightarrow> d \<noteq> Ended \<or> bd = Pushed \<or> bd = SidKnown \<or> bd = Running \<Longrightarrow> \<exists>a. arg = Some a"
  by (cases arg) (auto simp: arg_inv_def tn_refs_def holds_arg_def)

lemma arg_inv_start:
  "arg_inv (Some a) Before bd t b \<Longrightarrow> TunnelHandler_start t conn a = (ret, a', pushed) \<Longrightarrow>
     arg_inv (Some a') Running (if pushed then Pushed else Before) t b"
  by (auto simp: arg_inv_def TunnelHandler_start_def TunnelArg_addRef_def tn_refs_def holds_arg_def Let_def
      split: connect_result.splits)

lemma arg_inv_end:
  "arg_inv (Some a) Running bd t b \<Longrightarrow> arg_inv (TunnelArg_release (TunnelHandler_end a)) Ended bd t b"
  by (cases bd) (simp_all add: arg_inv_def TunnelHandler_end_def TunnelArg_release_def tn_refs_def holds_arg_def Let_def)

lemma arg_inv_setSid:
  "arg_inv (Some a) d Pushed t b \<Longrightarrow> arg_inv (Some (BackendHandler_setSid b a)) d SidKnown t b"
  by (auto simp: arg_inv_def BackendHandler_setSid_def tn_refs_def holds_arg_def split: if_splits)

lemma arg_inv_setNormal:
  "arg_inv (Some a) d SidKnown t b \<Longrightarrow> arg_inv (Some (BackendHandler_setNormal a)) d Running t b"
  by (auto simp: arg_inv_def BackendHandler_setNormal_def tn_refs_def holds_arg_def split: if_splits)

lemma arg_inv_bkend:
  "arg_inv (Some a) d Running t b \<Longrightarrow> arg_inv (TunnelArg_release (BackendHandler_end a)) d Ended t b"
  by (cases d) (simp_all add: arg_inv_def BackendHandler_end_def TunnelArg_release_def tn_refs_def holds_arg_def Let_def)

lemma tunnel_step_ok:
  assumes inv: "tunnel_inv s" and st: "tunnel_step e s = Some r"
  shows "\<exists>s'. r = Inr s' \<and> tunnel_inv s'"
proof -
  have ai: "arg_inv (tn_arg s) (tn_side s) (tn_backSide s) (tn_tunnelSid s) (tn_backendSid s)"
    using inv by (simp add: tunnel_inv_def)
  note a = arg_inv_some [OF ai]
  show ?thesis
  proof (cases e)
    case (TnStart conn)
    with st have b: "tn_side s = Before" by (simp add: tunnel_step_def split: if_splits)
    with a obtain x where x: "tn_arg s = Some x" by auto
    obtain ret a' pushed where h: "TunnelHandler_start (tn_tunnelSid s) conn x = (ret, a', pushed)"
      using prod_cases3 by blast
    from arg_inv_start [OF ai [unfolded x b] h] st b TnStart x h inv show ?thesis
      by (simp add: tunnel_step_def with_arg_def) (auto simp: tunnel_inv_def tn_held_def)
  next
    case TnEnd
    with st have b: "tn_side s = Running" by (simp add: tunnel_step_def split: if_splits)
    with a obtain x where x: "tn_arg s = Some x" by auto
    from arg_inv_end [OF ai [unfolded x b]] st b TnEnd x inv show ?thesis
      by (simp add: tunnel_step_def with_arg_def) (auto simp: tunnel_inv_def tn_held_def)
  next
    case BkSetSid
    with st have b: "tn_backSide s = Pushed" by (simp add: tunnel_step_def split: if_splits)
    with a obtain x where x: "tn_arg s = Some x" by auto
    from arg_inv_setSid [OF ai [unfolded x b]] st b BkSetSid x inv show ?thesis
      by (simp add: tunnel_step_def with_arg_def) (auto simp: tunnel_inv_def tn_held_def)
  next
    case BkSetNormal
    with st have b: "tn_backSide s = SidKnown" by (simp add: tunnel_step_def split: if_splits)
    with a obtain x where x: "tn_arg s = Some x" by auto
    from arg_inv_setNormal [OF ai [unfolded x b]] st b BkSetNormal x inv show ?thesis
      by (simp add: tunnel_step_def with_arg_def) (auto simp: tunnel_inv_def tn_held_def)
  next
    case BkEnd
    with st have b: "tn_backSide s = Running" by (simp add: tunnel_step_def split: if_splits)
    with a obtain x where x: "tn_arg s = Some x" by auto
    from arg_inv_bkend [OF ai [unfolded x b]] st b BkEnd x inv show ?thesis
      by (simp add: tunnel_step_def with_arg_def) (auto simp: tunnel_inv_def tn_held_def)
  next
    case TnHandle
    with st tunnel_handle_ok [OF inv] show ?thesis by (auto simp: tunnel_step_def split: if_splits)
  next
    case BkHandle
    with st backend_handle_ok [OF inv] show ?thesis by (auto simp: tunnel_step_def split: if_splits)
  next
    case (TnRecv data)
    with st have b: "tn_side s = Running"
      "r = Inr (s\<lparr> tn_in := tn_in s @ data, tn_read := tn_read s @ data \<rparr>)"
      by (simp_all add: tunnel_step_def split: if_splits)
    with inv show ?thesis by (simp add: tunnel_inv_def tn_held_def)
  next
    case (BkRecv data)
    with st have "r = Inr (s\<lparr> tn_backIn := tn_backIn s @ data, tn_backRead := tn_backRead s @ data \<rparr>)"
      by (simp add: tunnel_step_def split: if_splits)
    with inv show ?thesis by (simp add: tunnel_inv_def tn_held_def)
  qed
qed

lemma tunnel_run_ok: "tunnel_inv s \<Longrightarrow> \<exists>s'. tunnel_run es s = Inr s' \<and> tunnel_inv s'"
proof (induction es arbitrary: s)
  case (Cons e es)
  show ?case
  proof (cases "tunnel_step e s")
    case None
    with Cons show ?thesis by simp
  next
    case (Some r)
    from tunnel_step_ok [OF Cons.prems this] obtain s1 where "r = Inr s1" "tunnel_inv s1" by blast
    with Cons.IH Some show ?thesis by simp
  qed
qed simp

lemma tunnel_new_inv: "tunnel_inv (tunnel_new tsid bsid)"
  by (simp add: tunnel_inv_def arg_inv_def tunnel_new_def TunnelArg_create_def tn_refs_def holds_arg_def tn_held_def lazy_def)

text \<open>
  C25: however the two sessions interleave, no handler meets a deleted \<open>SP_TunnelArg\<close> or a NULL
  buffer; the bytes sent to the backend, in order, followed by those the tunnel still holds are
  the bytes read from the client, those sent to the client are a prefix of the bytes read from
  the backend, and every message goes to the one session it is meant for.
\<close>

theorem tunnel_relays:
  "\<exists>s rest. tunnel_run es (tunnel_new tsid bsid) = Inr s \<and>
     tn_read s = sent_bytes (tn_sent s) @ tn_held s \<and>
     tn_backRead s = sent_bytes (tn_backSent s) @ rest \<and>
     list_all (addressed bsid) (tn_sent s) \<and> list_all (addressed tsid) (tn_backSent s)"
proof -
  have sids: "tn_tunnelSid s' = tn_tunnelSid s \<and> tn_backendSid s' = tn_backendSid s"
    if "tunnel_run es s = Inr s'" for s s'
    using that
  proof (induction es arbitrary: s)
    case (Cons e es)
    have "tn_tunnelSid s1 = tn_tunnelSid s \<and> tn_backendSid s1 = tn_backendSid s"
      if "tunnel_step e s = Some (Inr s1)" for s1
      using that by (auto simp: tunnel_step_def with_arg_def tunnel_handle_def backend_handle_def res_bind_eq_Inr_iff
          Let_def split: tunnel_event.splits if_splits option.splits prod.splits)
    with Cons show ?case by (auto simp: res_bind_eq_Inr_iff split: option.splits)
  qed simp
  from tunnel_run_ok [OF tunnel_new_inv] obtain s where
    s: "tunnel_run es (tunnel_new tsid bsid) = Inr s" "tunnel_inv s" by blast
  from sids [OF s(1)] s show ?thesis by (auto simp: tunnel_inv_def tunnel_new_def)
qed

text \<open>Events that bring nothing new from the client.\<close>

fun client_quiet :: "tunnel_event \<Rightarrow> bool" where
  "client_quiet (TnRecv data) = False"
| "client_quiet _ = True"

definition stuck :: "tunnel \<Rightarrow> bool" where
  "stuck s \<longleftrightarrow> tn_sent s = [] \<and> tn_in s = [] \<and> tn_decoder s = None"

lemma stuck_step: "stuck s \<Longrightarrow> client_quiet e \<Longrightarrow> tunnel_step e s = Some (Inr s') \<Longrightarrow> stuck s'"
  by (cases e) (auto simp: stuck_def tunnel_step_def with_arg_def tunnel_handle_def backend_handle_def
      TunnelDecoder_decode_def res_bind_eq_Inr_iff Let_def split: if_splits option.splits prod.splits)

lemma stuck_run: "stuck s \<Longrightarrow> list_all client_quiet es \<Longrightarrow> tunnel_run es s = Inr s' \<Longrightarrow> stuck s'"
proof (induction es arbitrary: s)
  case (Cons e es)
  show ?case
  proof (cases "tunnel_step e s")
    case None
    with Cons show ?thesis by simp
  next
    case (Some r)
    with Cons.prems(3) obtain s1 where "r = Inr s1" "tunnel_run es s1 = Inr s'"
      by (auto simp: res_bind_eq_Inr_iff)
    with Cons Some stuck_step show ?thesis by auto
  qed
qed simp

lemma tunnel_run_append:
  "tunnel_run (es @ fs) s = res_bind (tunnel_run es s) (tunnel_run fs)"
proof (induction es arbitrary: s)
  case (Cons e es)
  then show ?case by (cases "tunnel_step e s") (auto split: option.splits sum.splits simp: res_bind_def)
qed simp

text \<open>
  What the client sends before the backend session has started can stay in the tunnel for
  ever. It is kept in \<open>mMsgBlockList\<close>, which only the next \<open>handle\<close> of the client's session
  looks at: a client that sends one request and waits for the answer gets none, whatever the
  backend, the dispatcher and the worker threads do.
\<close>

theorem tunnel_request_stuck:
  "\<exists>s. tunnel_run [TnStart Connected, TnRecv ''GET'', TnHandle, BkSetSid, BkSetNormal]
         (tunnel_new tsid bsid) = Inr s \<and> tn_side s = Running \<and> tn_backSide s = Running \<and>
     tn_held s = ''GET'' \<and>
     \<not> (\<exists>es s'. list_all client_quiet es \<and> tunnel_run es s = Inr s' \<and> tn_sent s' \<noteq> [])"
proof -
  let ?es = "[TnStart Connected, TnRecv ''GET'', TnHandle, BkSetSid, BkSetNormal]"
  obtain s where s: "tunnel_run ?es (tunnel_new tsid bsid) = Inr s"
    using tunnel_run_ok [OF tunnel_new_inv] by blast
  then have f: "stuck s \<and> tn_side s = Running \<and> tn_backSide s = Running \<and> tn_held s = ''GET''"
    by (simp add: tunnel_step_def tunnel_new_def with_arg_def TunnelHandler_start_def TunnelArg_create_def
        TunnelArg_addRef_def tunnel_handle_def TunnelDecoder_decode_def TunnelHandler_handle_def
        TunnelDecoder_takeBuffer_def block_of_def MsgBlockList_append_def Response_new_def
        BackendHandler_setSid_def BackendHandler_setNormal_def stuck_def tn_held_def lazy_def Let_def blocks_bytes_def)
      (drule sym, simp add: block_bytes_def)
  have "tn_sent s' = []" if "list_all client_quiet es" "tunnel_run es s = Inr s'" for es s'
    using stuck_run [OF conjunct1 [OF f] that] by (simp add: stuck_def)
  with s f show ?thesis by blast
qed

end
