(* ===== verification/SP_Iocp.thy ===== *)
theory SP_Iocp
  imports SP_ServerRun
begin

text \<open>
  The event loop of the Windows server (spwin32iocp.hpp, spwin32iocp.cpp, and the parts of
  spiocpevent.cpp it uses): completions of overlapped receives and sends, the timer heap, accepted
  sockets and the queue of responses. Sessions, messages, tasks and the stages of a worker are
  those of \<open>SP_EventCb\<close>; the shared state is an \<open>event_arg\<close> with the parts only this loop has.
  \<open>ss_readEv\<close> and \<open>ss_writeEv\<close> say whether the kernel still owes a completion for the session; the
  stage \<open>Destroying\<close> is a posted \<open>mFreeEvent\<close>, whose completion deletes the session. The heap is
  the set of its events with their times, as \<open>SP_EventHeap\<close> justifies.
\<close>

subsection \<open>SP_IocpEventArg\<close>

text \<open>What \<open>WSARecv\<close> or \<open>WSASend\<close> answers: done at once, pending, no buffers, another error.\<close>

datatype wsa = WsaDone | WsaPending | WsaNoBufs | WsaError

datatype io_kind = IoRecv | IoSend

text \<open>
  \<open>ia_wsa\<close> are the answers the calls of this step will get, \<open>ia_now\<close> is the time of day in
  seconds; both are fresh in every step.
\<close>

record 'd iocp_arg =
  ia_ea :: "'d event_arg"
  ia_mEventHeap :: "(nat \<times> obj \<times> io_kind) list"
  ia_mTimeout :: nat
  ia_now :: nat
  ia_wsa :: "wsa list"

definition IocpEventArg_new :: "nat \<Rightarrow> 'd iocp_arg" where
  "IocpEventArg_new timeout =
     \<lparr> ia_ea = EventArg_new, ia_mEventHeap = [], ia_mTimeout = timeout,
       ia_now = 0, ia_wsa = [] \<rparr>"

definition io_ea :: "('d event_arg \<Rightarrow> 'd event_arg) \<Rightarrow> 'd iocp_arg \<Rightarrow> 'd iocp_arg" where
  "io_ea f ia = ia\<lparr> ia_ea := f (ia_ea ia) \<rparr>"

definition io_get :: "obj \<Rightarrow> 'd iocp_arg \<Rightarrow> 'd session res" where
  "io_get o1 ia = get_session o1 (ia_ea ia)"

definition io_set :: "obj \<Rightarrow> 'd session \<Rightarrow> 'd iocp_arg \<Rightarrow> 'd iocp_arg" where
  "io_set o1 s ia = io_ea (set_session o1 s) ia"

definition io_update :: "obj \<Rightarrow> ('d session \<Rightarrow> 'd session) \<Rightarrow> 'd iocp_arg \<Rightarrow> 'd iocp_arg res" where
  "io_update o1 f ia = res_bind (io_get o1 ia) (\<lambda>s. Inr (io_set o1 (f s) ia))"

text \<open>
  The heap holds pointers into the \<open>SP_IocpSession_t\<close> of the sessions and compares the times of
  its events: with an event of a freed session in it, any use may read freed memory.
\<close>

definition heap_live :: "'d iocp_arg \<Rightarrow> bool" where
  "heap_live ia \<longleftrightarrow> list_all (\<lambda>(t, o1, k). ea_sessions (ia_ea ia) o1 \<noteq> None) (ia_mEventHeap ia)"

definition heap_push :: "obj \<Rightarrow> io_kind \<Rightarrow> 'd iocp_arg \<Rightarrow> 'd iocp_arg res" where
  "heap_push o1 k ia =
     (if heap_live ia
      then Inr (ia\<lparr> ia_mEventHeap := (ia_now ia + ia_mTimeout ia, o1, k) # ia_mEventHeap ia \<rparr>)
      else Inl UseAfterFree)"

definition heap_erase :: "obj \<Rightarrow> io_kind \<Rightarrow> 'd iocp_arg \<Rightarrow> 'd iocp_arg res" where
  "heap_erase o1 k ia =
     (if \<exists>t. (t, o1, k) \<in> set (ia_mEventHeap ia)
      then if heap_live ia
           then Inr (ia\<lparr> ia_mEventHeap := filter (\<lambda>(t, o2, k2). \<not> (o2 = o1 \<and> k2 = k)) (ia_mEventHeap ia) \<rparr>)
           else Inl UseAfterFree
      else Inr ia)"

subsection \<open>SP_IocpEventHelper\<close>

definition IocpHelper_isSystemSid :: "sp_sid \<Rightarrow> bool" where
  "IocpHelper_isSystemSid sid \<longleftrightarrow> sid_mKey sid = eTimerKey \<and> sid_mSeq sid = eTimerSeq"

definition IocpHelper_doCompletion :: "msg_id \<Rightarrow> 'd iocp_arg \<Rightarrow> 'd iocp_arg" where
  "IocpHelper_doCompletion i ia = io_ea (EventHelper_doCompletion i) ia"

definition IocpHelper_doWork :: "obj \<Rightarrow> 'd iocp_arg \<Rightarrow> 'd iocp_arg res" where
  "IocpHelper_doWork o1 ia =
     res_bind (io_get o1 ia) (\<lambda>s.
       if ss_mStatus s = eNormal
       then Inr (io_ea (push_task (Worker o1)) (io_set o1 (s\<lparr> ss_mRunning := True \<rparr>) ia))
       else Inr (io_set o1 (s\<lparr> ss_mInBuffer := [] \<rparr>) ia))"

text \<open>The end of \<open>doClose\<close>, \<open>doError\<close> and \<open>doTimeout\<close>.\<close>

definition leave_table :: "(obj \<Rightarrow> task) \<Rightarrow> obj \<Rightarrow> sp_sid \<Rightarrow> 'd iocp_arg \<Rightarrow> 'd iocp_arg res" where
  "leave_table mk o1 sid ia =
     res_bind ((SessionManager_remove (sid_mKey sid) (sid_mSeq sid) (ea_mSessionManager (ia_ea ia)))) (\<lambda>(_, mgr).
     res_bind (heap_erase o1 IoRecv (io_ea (\<lambda>ea. ea\<lparr> ea_mSessionManager := mgr \<rparr>) ia)) (\<lambda>ia1.
     res_bind (heap_erase o1 IoSend ia1) (\<lambda>ia2. Inr (io_ea (push_task (mk o1)) ia2))))"

definition IocpHelper_doClose :: "obj \<Rightarrow> 'd iocp_arg \<Rightarrow> 'd iocp_arg res" where
  "IocpHelper_doClose o1 ia =
     res_bind (io_get o1 ia) (\<lambda>s.
       leave_table Close o1 (ss_mSid s) (io_set o1 (s\<lparr> ss_mRunning := True \<rparr>) ia))"

definition IocpHelper_fail :: "(obj \<Rightarrow> task) \<Rightarrow> obj \<Rightarrow> 'd iocp_arg \<Rightarrow> 'd iocp_arg res" where
  "IocpHelper_fail mk o1 ia =
     res_bind (io_get o1 ia) (\<lambda>s.
     res_bind ((fail_out_list (ss_mSid s) (ss_mOutList s) (ea_msgs (ia_ea ia))
                (ea_mOutputResultQueue (ia_ea ia)))) (\<lambda>(st, outq).
       leave_table mk o1 (ss_mSid s)
         (io_ea (\<lambda>ea. ea\<lparr> ea_msgs := st, ea_mOutputResultQueue := outq \<rparr>)
           (io_set o1 (s\<lparr> ss_mRunning := True, ss_mOutList := [] \<rparr>) ia))))"

definition IocpHelper_doError :: "obj \<Rightarrow> 'd iocp_arg \<Rightarrow> 'd iocp_arg res" where
  "IocpHelper_doError o1 ia = IocpHelper_fail Error o1 ia"

definition IocpHelper_doTimeout :: "obj \<Rightarrow> 'd iocp_arg \<Rightarrow> 'd iocp_arg res" where
  "IocpHelper_doTimeout o1 ia = IocpHelper_fail Timeout o1 ia"

definition IocpHelper_doStart :: "obj \<Rightarrow> 'd iocp_arg \<Rightarrow> 'd iocp_arg res" where
  "IocpHelper_doStart o1 ia =
     res_bind (io_get o1 ia) (\<lambda>s.
       Inr (io_ea (push_task (Start o1)) (io_set o1 (s\<lparr> ss_mRunning := True \<rparr>) ia)))"

text \<open>A decoder answers \<open>eOK\<close>, \<open>eMoreData\<close> or, as far as this code goes, something else.\<close>

datatype dec_result = DecOK | DecMore | DecError

type_synonym 'd io_decoder = "'d \<Rightarrow> bytes \<Rightarrow> dec_result \<times> 'd \<times> bytes"

definition IocpHelper_doDecodeForWork :: "'d io_decoder \<Rightarrow> obj \<Rightarrow> 'd iocp_arg \<Rightarrow> 'd iocp_arg res" where
  "IocpHelper_doDecodeForWork dec o1 ia =
     res_bind (io_get o1 ia) (\<lambda>s.
       case dec (rq_mDecoder (ss_mRequest s)) (ss_mInBuffer s) of (ret, d', rest) \<Rightarrow>
         let ia' = io_set o1 (s\<lparr> ss_mRequest := Request_setMsgDecoder d' (ss_mRequest s), ss_mInBuffer := rest \<rparr>) ia
         in (case ret of DecOK \<Rightarrow> IocpHelper_doWork o1 ia' | DecError \<Rightarrow> IocpHelper_doError o1 ia'
             | DecMore \<Rightarrow> Inr ia'))"

text \<open>\<open>if( 0 == session->getRunning() ) ...\<close>\<close>

definition unless_running :: "obj \<Rightarrow> (obj \<Rightarrow> 'd iocp_arg \<Rightarrow> 'd iocp_arg res) \<Rightarrow> 'd iocp_arg \<Rightarrow> 'd iocp_arg res" where
  "unless_running o1 f ia = res_bind (io_get o1 ia) (\<lambda>s. if \<not> ss_mRunning s then f o1 ia else Inr ia)"

subsection \<open>SP_IocpEventCallback\<close>

text \<open>
  The retry loop around \<open>WSARecv\<close> and \<open>WSASend\<close> with \<open>n\<close> attempts left, and the answers behind
  those it used; a call that no answer is given for is done at once.
\<close>

definition SP_MAX_RETRY :: nat where "SP_MAX_RETRY = 5"

fun post_retry :: "nat \<Rightarrow> wsa list \<Rightarrow> bool \<times> wsa list" where
  "post_retry n [] = (True, [])"
| "post_retry n (w # ws) =
     (case w of WsaDone \<Rightarrow> (True, ws) | WsaPending \<Rightarrow> (True, ws) | WsaError \<Rightarrow> (False, ws)
      | WsaNoBufs \<Rightarrow> (if 1 < n then post_retry (n - 1) ws else (False, ws)))"

definition io_post :: "'d iocp_arg \<Rightarrow> bool \<times> 'd iocp_arg" where
  "io_post ia = (case post_retry SP_MAX_RETRY (ia_wsa ia) of (ret, ws) \<Rightarrow> (ret, ia\<lparr> ia_wsa := ws \<rparr>))"

definition push_timeout :: "obj \<Rightarrow> io_kind \<Rightarrow> 'd iocp_arg \<Rightarrow> 'd iocp_arg res" where
  "push_timeout o1 k ia = (if 0 < ia_mTimeout ia then heap_push o1 k ia else Inr ia)"

definition IocpCallback_addRecv :: "obj \<Rightarrow> 'd iocp_arg \<Rightarrow> (bool \<times> 'd iocp_arg) res" where
  "IocpCallback_addRecv o1 ia =
     res_bind (io_get o1 ia) (\<lambda>s.
       if \<not> ss_mReading s \<and> ss_mStatus s = eNormal
       then (case io_post ia of (ret, ia1) \<Rightarrow>
          if ret
          then res_bind (io_update o1 (\<lambda>s. s\<lparr> ss_readEv := True, ss_mReading := True \<rparr>) ia1) (\<lambda>ia2.
               res_bind (push_timeout o1 IoRecv ia2) (\<lambda>ia3. Inr (True, ia3)))
          else Inr (False, ia1))
       else Inr (True, ia))"

definition IocpCallback_addSend :: "'d io_decoder \<Rightarrow> obj \<Rightarrow> 'd iocp_arg \<Rightarrow> (bool \<times> 'd iocp_arg) res" where
  "IocpCallback_addSend dec o1 ia =
     res_bind (unless_running o1 (IocpHelper_doDecodeForWork dec) ia) (\<lambda>ia0.
     res_bind (io_get o1 ia0) (\<lambda>s.
       if \<not> ss_mWriting s
       then (case io_post ia0 of (ret, ia1) \<Rightarrow>
          if ret
          then res_bind (push_timeout o1 IoSend ia1) (\<lambda>ia2.
               res_bind (io_update o1 (\<lambda>s. s\<lparr> ss_writeEv := True, ss_mWriting := True \<rparr>) ia2) (\<lambda>ia3. Inr (True, ia3)))
          else Inr (False, ia1))
       else Inr (True, ia0)))"

text \<open>What \<open>receive\<close> brings: data, the end of the stream for no data, \<open>WSAEWOULDBLOCK\<close>, another error.\<close>

datatype io_read = IoData bytes | IoWouldBlock | IoReadError

definition IocpCallback_onRecv :: "'d io_decoder \<Rightarrow> obj \<Rightarrow> io_read \<Rightarrow> 'd iocp_arg \<Rightarrow> 'd iocp_arg res" where
  "IocpCallback_onRecv dec o1 e ia =
     res_bind (heap_erase o1 IoRecv ia) (\<lambda>ia0.
     res_bind (io_update o1 (\<lambda>s. s\<lparr> ss_mReading := False \<rparr>) ia0) (\<lambda>ia1.
       case e of
         IoData data \<Rightarrow>
           if data \<noteq> [] then
             res_bind (io_update o1 (\<lambda>s. Session_addRead (length data) (s\<lparr> ss_mInBuffer := ss_mInBuffer s @ data \<rparr>)) ia1) (\<lambda>ia2.
             res_bind (unless_running o1 (IocpHelper_doDecodeForWork dec) ia2) (\<lambda>ia3.
             res_bind (IocpCallback_addRecv o1 ia3) (\<lambda>(ok, ia4).
               if \<not> ok then unless_running o1 IocpHelper_doError ia4 else Inr ia4)))
           else unless_running o1 IocpHelper_doClose ia1
       | IoWouldBlock \<Rightarrow>
           res_bind (IocpCallback_addRecv o1 ia1) (\<lambda>(ok, ia2).
             if \<not> ok then unless_running o1 IocpHelper_doError ia2 else Inr ia2)
       | IoReadError \<Rightarrow> unless_running o1 IocpHelper_doError ia1))"

text \<open>The answers of \<open>write_vec\<close> for \<open>transmit\<close>, and \<open>WSAGetLastError\<close> when it fails.\<close>

datatype io_error = IoNoBufs | IoBlock | IoOther

definition io_transmit :: "obj \<Rightarrow> int list \<Rightarrow> 'd iocp_arg \<Rightarrow> (int \<times> 'd iocp_arg) res" where
  "io_transmit o1 rets ia =
     res_bind ((run_transmit o1 rets (ia_ea ia))) (\<lambda>(len, ea). Inr (len, ia\<lparr> ia_ea := ea \<rparr>))"

text \<open>The transmission of \<open>onSend\<close>: \<open>ret\<close> and the state after it.\<close>

definition send_part ::
    "'d io_decoder \<Rightarrow> obj \<Rightarrow> int list \<Rightarrow> io_error \<Rightarrow> 'd iocp_arg \<Rightarrow> (int \<times> 'd iocp_arg) res" where
  "send_part dec o1 rets err ia =
     res_bind (io_get o1 ia) (\<lambda>s.
       if ss_mOutList s = [] then Inr (0, ia)
       else
         res_bind (io_transmit o1 rets ia) (\<lambda>(len, ia1).
           if 0 < len then
             res_bind (io_update o1 (Session_addWrite (nat len)) ia1) (\<lambda>ia2.
             res_bind (io_get o1 ia2) (\<lambda>s2.
               if ss_mOutList s2 \<noteq> [] then
                 res_bind (IocpCallback_addSend dec o1 ia2) (\<lambda>(ok, ia3).
                 res_bind (io_get o1 ia3) (\<lambda>s3.
                   if \<not> ok \<and> \<not> ss_mRunning s3
                   then res_bind (IocpHelper_doError o1 ia3) (\<lambda>ia4. Inr (-1, ia4))
                   else Inr (0, ia3)))
               else Inr (0, ia2)))
           else
             res_bind (if err = IoNoBufs \<or> err = IoBlock
                      then IocpCallback_addSend dec o1 ia1 else Inr (False, ia1)) (\<lambda>(ok, ia2).
               if ok then Inr (0, ia2)
               else res_bind (unless_running o1 IocpHelper_doError ia2) (\<lambda>ia3. Inr (-1, ia3)))))"

definition io_exit_part :: "obj \<Rightarrow> int \<Rightarrow> 'd iocp_arg \<Rightarrow> (int \<times> 'd iocp_arg) res" where
  "io_exit_part o1 ret ia =
     res_bind (io_get o1 ia) (\<lambda>s.
       if ret = 0 \<and> ss_mOutList s = [] \<and> ss_mStatus s = eExit
       then res_bind (unless_running o1 IocpHelper_doClose ia) (\<lambda>ia'. Inr (-1, ia'))
       else Inr (ret, ia))"

definition IocpCallback_onSend ::
    "'d io_decoder \<Rightarrow> obj \<Rightarrow> int list \<Rightarrow> io_error \<Rightarrow> 'd iocp_arg \<Rightarrow> 'd iocp_arg res" where
  "IocpCallback_onSend dec o1 rets err ia =
     res_bind (io_update o1 (\<lambda>s. s\<lparr> ss_mWriting := False \<rparr>) ia) (\<lambda>ia1.
     res_bind (send_part dec o1 rets err ia1) (\<lambda>(ret, ia2).
     res_bind (io_exit_part o1 ret ia2) (\<lambda>(ret', ia3).
       if ret' = 0 then unless_running o1 (IocpHelper_doDecodeForWork dec) ia3 else Inr ia3)))"

text \<open>
  \<open>onAccept\<close>, with \<open>addSession\<close>: the first argument says whether the session could be tied to the
  completion port. When it could not, the key is handed back without ever having been put.
\<close>

definition IocpCallback_onAccept ::
    "accept_arg \<Rightarrow> 'd io_decoder \<Rightarrow> bool \<Rightarrow> 'd \<Rightarrow> bytes \<Rightarrow> int \<Rightarrow> 'd iocp_arg \<Rightarrow> 'd iocp_arg res" where
  "IocpCallback_onAccept ac dec added d ip port ia =
     res_bind (SessionManager_allocKey (ea_mSessionManager (ia_ea ia))) (\<lambda>(key, seq, mgr).
       if key = 0 then Inl AssertFail
       else
         let sid = \<lparr> sid_mKey = key, sid_mSeq = the seq \<rparr>;
             o1 = ea_nextObj (ia_ea ia);
             s0 = Session_new d sid;
             s = s0\<lparr> ss_mRequest := Request_setClientPort port (Request_setClientIP ip (ss_mRequest s0)) \<rparr>
         in if added then
           res_bind (SessionManager_put key (the seq) o1 mgr) (\<lambda>mgr'.
             let ia1 = io_ea (\<lambda>ea. (set_session o1 s ea)\<lparr> ea_mSessionManager := mgr', ea_nextObj := o1 + 1 \<rparr>) ia
             in if ac_mMaxConnections ac < SessionManager_getCount mgr' \<or>
                   ac_mReqQueueSize ac \<le> int (length (ea_mInputResultQueue (ia_ea ia)))
                then
                  let i = ea_nextMsg (ia_ea ia);
                      msg = Message_append [CR, LF] (Message_append (cstr (ac_mRefusedMsg ac)) (Message_new 0))
                  in res_bind (IocpCallback_addSend dec o1
                       (io_ea (\<lambda>ea. (set_session o1 (s\<lparr> ss_mOutList := [i], ss_mStatus := eExit \<rparr>) ea)
                          \<lparr> ea_msgs := (ea_msgs ea)(i \<mapsto> msg), ea_nextMsg := i + 1 \<rparr>) ia1)) (\<lambda>(ok, ia2). Inr ia2)
                else IocpHelper_doStart o1 ia1)
         else res_bind (SessionManager_remove key (the seq) mgr) (\<lambda>(_, mgr').
           Inr (io_ea (\<lambda>ea. ea\<lparr> ea_mSessionManager := mgr' \<rparr>) ia)))"

text \<open>\<open>onResponse\<close>: the session the response comes from, its messages, that session again, the sessions to close.\<close>

definition io_from :: "'d io_decoder \<Rightarrow> sp_sid \<Rightarrow> 'd iocp_arg \<Rightarrow> 'd iocp_arg res" where
  "io_from dec fromSid ia =
     (if IocpHelper_isSystemSid fromSid then Inr ia
      else case find_session fromSid (ia_ea ia) of
          None \<Rightarrow> Inr ia
        | Some o1 \<Rightarrow>
            res_bind (io_update o1 (\<lambda>s. if ss_mStatus s = eWouldExit then s\<lparr> ss_mStatus := eExit \<rparr> else s) ia) (\<lambda>ia1.
            res_bind (io_get o1 ia1) (\<lambda>s.
              if ss_mStatus s = eNormal then
                res_bind (IocpCallback_addRecv o1 ia1) (\<lambda>(ok, ia2).
                  unless_running o1 (if ok then IocpHelper_doDecodeForWork dec else IocpHelper_doError) ia2)
              else Inr ia1)))"

fun io_deliver :: "'d io_decoder \<Rightarrow> sp_sid \<Rightarrow> msg_id \<Rightarrow> nat \<Rightarrow> 'd iocp_arg \<Rightarrow> 'd iocp_arg res" where
  "io_deliver dec fromSid i 0 ia = Inr ia"
| "io_deliver dec fromSid i (Suc n) ia =
     res_bind (get_msg (ea_msgs (ia_ea ia)) i) (\<lambda>m.
       let sid = SidList_get (int n) (Message_getToList m);
           failed = io_ea (\<lambda>ea. ea\<lparr> ea_msgs := (ea_msgs ea)(i \<mapsto> Message_addFailure sid
             (Message_setToList (snd (SidList_take (int n) (Message_getToList m))) m)) \<rparr>) ia
       in case find_session sid (ia_ea ia) of
            None \<Rightarrow> io_deliver dec fromSid i n failed
          | Some o1 \<Rightarrow>
              res_bind (io_get o1 ia) (\<lambda>s.
                if \<not> sid_eq fromSid sid \<and> ss_mStatus s = eExit then io_deliver dec fromSid i n failed
                else
                  res_bind (IocpCallback_addSend dec o1 ia) (\<lambda>(ok, ia1).
                  res_bind (if ok then io_update o1 (\<lambda>s. s\<lparr> ss_mOutList := ss_mOutList s @ [i] \<rparr>) ia1
                            else unless_running o1 IocpHelper_doError ia1)
                    (io_deliver dec fromSid i n))))"

definition io_message :: "'d io_decoder \<Rightarrow> sp_sid \<Rightarrow> sp_message \<Rightarrow> 'd iocp_arg \<Rightarrow> 'd iocp_arg res" where
  "io_message dec fromSid m ia =
     (let i = ea_nextMsg (ia_ea ia);
          ia1 = io_ea (\<lambda>ea. ea\<lparr> ea_msgs := (ea_msgs ea)(i \<mapsto> m), ea_nextMsg := i + 1 \<rparr>) ia
      in res_bind
           (if 0 < Message_getTotalSize m
            then io_deliver dec fromSid i (nat (SidList_getCount (Message_getToList m))) ia1
            else Inr (io_ea (\<lambda>ea. ea\<lparr> ea_msgs := (ea_msgs ea)(i \<mapsto> fail_all m) \<rparr>) ia1)) (\<lambda>ia2.
         res_bind (get_msg (ea_msgs (ia_ea ia2)) i) (\<lambda>m2.
           Inr (if SidList_getCount (Message_getToList m2) \<le> 0 then IocpHelper_doCompletion i ia2 else ia2))))"

fun io_messages :: "'d io_decoder \<Rightarrow> sp_sid \<Rightarrow> sp_message list \<Rightarrow> 'd iocp_arg \<Rightarrow> 'd iocp_arg res" where
  "io_messages dec fromSid [] ia = Inr ia"
| "io_messages dec fromSid (m # ms) ia =
     res_bind (io_message dec fromSid m ia) (io_messages dec fromSid ms)"

definition io_close_from :: "sp_sid \<Rightarrow> 'd iocp_arg \<Rightarrow> 'd iocp_arg res" where
  "io_close_from fromSid ia =
     (if IocpHelper_isSystemSid fromSid then Inr ia
      else case find_session fromSid (ia_ea ia) of
          None \<Rightarrow> Inr ia
        | Some o1 \<Rightarrow>
            res_bind (io_get o1 ia) (\<lambda>s.
              if ss_mOutList s = [] \<and> ss_mStatus s = eExit then unless_running o1 IocpHelper_doClose ia else Inr ia))"

fun io_close_sessions :: "'d io_decoder \<Rightarrow> sp_sid list \<Rightarrow> 'd iocp_arg \<Rightarrow> 'd iocp_arg res" where
  "io_close_sessions dec [] ia = Inr ia"
| "io_close_sessions dec (sid # sids) ia =
     (case find_session sid (ia_ea ia) of
        None \<Rightarrow> io_close_sessions dec sids ia
      | Some o1 \<Rightarrow>
          res_bind (io_update o1 (\<lambda>s. s\<lparr> ss_mStatus := eExit \<rparr>) ia) (\<lambda>ia1.
          res_bind (IocpCallback_addSend dec o1 ia1) (\<lambda>(ok, ia2).
          res_bind (if ok then Inr ia2 else unless_running o1 IocpHelper_doError ia2)
            (io_close_sessions dec sids))))"

definition IocpCallback_onResponse :: "'d io_decoder \<Rightarrow> sp_response \<Rightarrow> 'd iocp_arg \<Rightarrow> 'd iocp_arg res" where
  "IocpCallback_onResponse dec response ia =
     res_bind (io_from dec (rs_mFromSid response) ia) (\<lambda>ia1.
     res_bind (io_messages dec (rs_mFromSid response) (Response_takeAll response) ia1) (\<lambda>ia2.
     res_bind (io_close_from (rs_mFromSid response) ia2) (\<lambda>ia3.
       io_close_sessions dec (Response_getToCloseList response) ia3)))"

text \<open>
  \<open>onTimeout\<close>: while the first event of the heap is due, take it out and, unless a worker runs for
  its session, time the session out. The first argument bounds the rounds by the events there are.
\<close>

fun heap_least :: "(nat \<times> obj \<times> io_kind) list \<Rightarrow> (nat \<times> obj \<times> io_kind) option" where
  "heap_least [] = None"
| "heap_least (e # es) =
     (case heap_least es of None \<Rightarrow> Some e | Some e2 \<Rightarrow> if fst e \<le> fst e2 then Some e else Some e2)"

fun io_timeouts :: "nat \<Rightarrow> 'd iocp_arg \<Rightarrow> 'd iocp_arg res" where
  "io_timeouts 0 ia = Inr ia"
| "io_timeouts (Suc n) ia =
     (case heap_least (ia_mEventHeap ia) of
        None \<Rightarrow> Inr ia
      | Some (t, o1, k) \<Rightarrow>
          if ia_now ia < t then Inr ia
          else res_bind (heap_erase o1 k ia) (\<lambda>ia1.
               res_bind (unless_running o1 IocpHelper_doTimeout ia1) (io_timeouts n)))"

definition IocpCallback_onTimeout :: "'d iocp_arg \<Rightarrow> 'd iocp_arg res" where
  "IocpCallback_onTimeout ia = io_timeouts (length (ia_mEventHeap ia)) ia"

subsection \<open>eventLoop\<close>

text \<open>
  What \<open>GetQueuedCompletionStatus\<close> brings, and the steps of the other threads. A completion finds
  its session through the sid that is its key; when the session has left the table, it is ignored.
\<close>

datatype 'd io_step =
    IoAccept bool 'd bytes int
  | IoRecvDone obj io_read
  | IoSendDone obj "int list" io_error
  | IoFailed obj io_kind
  | IoResponse
  | IoTimeout
  | IoTakeTask
  | IoStage nat int "'d handler_result"
  | IoTakeCompleted

definition key_session :: "obj \<Rightarrow> 'd iocp_arg \<Rightarrow> bool" where
  "key_session o1 ia \<longleftrightarrow>
     (case ea_sessions (ia_ea ia) o1 of None \<Rightarrow> False | Some s \<Rightarrow> find_session (ss_mSid s) (ia_ea ia) = Some o1)"

text \<open>
  One turn of \<open>eventLoop\<close>: \<open>timeoutNext\<close> looks at the first event of the heap before the wait. The
  completion of a receive or send takes its event out of the heap; a failed one does not, and
  leaves \<open>mReading\<close> and \<open>mWriting\<close> as they are.
\<close>

definition loop_turn :: "'d iocp_arg res \<Rightarrow> 'd iocp_arg \<Rightarrow> 'd iocp_arg res option" where
  "loop_turn r ia = Some (if heap_live ia then r else Inl UseAfterFree)"

definition io_owes :: "io_kind \<Rightarrow> obj \<Rightarrow> 'd iocp_arg \<Rightarrow> bool" where
  "io_owes k o1 ia \<longleftrightarrow> (case ea_sessions (ia_ea ia) o1 of None \<Rightarrow> False
     | Some s \<Rightarrow> (case k of IoRecv \<Rightarrow> ss_readEv s | IoSend \<Rightarrow> ss_writeEv s))"

definition io_take :: "io_kind \<Rightarrow> 'd session \<Rightarrow> 'd session" where
  "io_take k s = (case k of IoRecv \<Rightarrow> s\<lparr> ss_readEv := False \<rparr> | IoSend \<Rightarrow> s\<lparr> ss_writeEv := False \<rparr>)"

definition io_completion :: "io_kind \<Rightarrow> obj \<Rightarrow> ('d iocp_arg \<Rightarrow> 'd iocp_arg res) \<Rightarrow> 'd iocp_arg \<Rightarrow> 'd iocp_arg res option" where
  "io_completion k o1 f ia =
     (if io_owes k o1 ia \<and> key_session o1 ia then loop_turn (res_bind (io_update o1 (io_take k) ia) f) ia
      else None)"

definition io_step :: "accept_arg \<Rightarrow> 'd io_decoder \<Rightarrow> 'd io_step \<Rightarrow> 'd iocp_arg \<Rightarrow> 'd iocp_arg res option" where
  "io_step ac dec step ia =
     (case step of
        IoAccept added d ip port \<Rightarrow> loop_turn (IocpCallback_onAccept ac dec added d ip port ia) ia
      | IoRecvDone o1 e \<Rightarrow> io_completion IoRecv o1 (IocpCallback_onRecv dec o1 e) ia
      | IoSendDone o1 rets err \<Rightarrow>
          io_completion IoSend o1 (\<lambda>ia1. res_bind (heap_erase o1 IoSend ia1) (IocpCallback_onSend dec o1 rets err)) ia
      | IoFailed o1 k \<Rightarrow> io_completion k o1 (unless_running o1 IocpHelper_doClose) ia
      | IoResponse \<Rightarrow>
          (case ea_mResponseQueue (ia_ea ia) of
             [] \<Rightarrow> None
           | r # rs \<Rightarrow> loop_turn (IocpCallback_onResponse dec r (io_ea (\<lambda>ea. ea\<lparr> ea_mResponseQueue := rs \<rparr>) ia)) ia)
      | IoTimeout \<Rightarrow> loop_turn (IocpCallback_onTimeout ia) ia
      | IoTakeTask \<Rightarrow>
          (case ea_mInputResultQueue (ia_ea ia) of
             [] \<Rightarrow> None
           | t # ts \<Rightarrow> Some (Inr (io_ea (\<lambda>ea. ea\<lparr> ea_mInputResultQueue := ts, ea_active := ea_active ea @ [Taken t] \<rparr>) ia)))
      | IoStage k initRet h \<Rightarrow>
          if k < length (ea_active (ia_ea ia)) \<and> handler_ok h then
            Some (res_bind (worker_stage initRet h (ea_active (ia_ea ia) ! k) (ia_ea ia)) (\<lambda>p.
              Inr (io_ea (\<lambda>_. stage_result k p) ia)))
          else None
      | IoTakeCompleted \<Rightarrow>
          (case ea_mOutputResultQueue (ia_ea ia) of
             [] \<Rightarrow> None
           | i # is \<Rightarrow> Some (res_bind (get_msg (ea_msgs (ia_ea ia)) i) (\<lambda>_.
               Inr (io_ea (\<lambda>ea. ea\<lparr> ea_mOutputResultQueue := is, ea_msgs := (ea_msgs ea)(i := None) \<rparr>) ia)))))"

text \<open>A run: each step with the time of day and the answers of its \<open>WSARecv\<close> and \<open>WSASend\<close> calls.\<close>

definition io_at :: "nat \<Rightarrow> wsa list \<Rightarrow> 'd iocp_arg \<Rightarrow> 'd iocp_arg" where
  "io_at now ws ia = ia\<lparr> ia_now := now, ia_wsa := ws \<rparr>"

fun io_run :: "accept_arg \<Rightarrow> 'd io_decoder \<Rightarrow> (nat \<times> wsa list \<times> 'd io_step) list \<Rightarrow> 'd iocp_arg \<Rightarrow> 'd iocp_arg res" where
  "io_run ac dec [] ia = Inr ia"
| "io_run ac dec ((now, ws, st) # sts) ia =
     (case io_step ac dec st (io_at now ws ia) of
        None \<Rightarrow> io_run ac dec sts ia
      | Some r \<Rightarrow> res_bind r (io_run ac dec sts))"

end
