(* ===== verification/SP_IocpInv.thy ===== *)
theory SP_IocpInv
  imports SP_Iocp
begin

text \<open>
  The Windows server keeps the invariant of \<open>SP_EventInv\<close> in its weak form, and its timer heap
  holds events of sessions in the table only, each at most once and only while the session says
  that it is reading or writing. So no turn of the loop and no worker touches a deleted session,
  event or message, as long as decoders answer one of the two results of their enumeration.
\<close>

subsection \<open>Results\<close>

definition yields :: "('a \<Rightarrow> bool) \<Rightarrow> 'a res \<Rightarrow> bool" where
  "yields Q r \<longleftrightarrow> (\<exists>x. r = Inr x \<and> Q x)"

lemma yields_Inr [simp]: "yields Q (Inr x) = Q x"
  by (simp add: yields_def)

lemma yields_bind: "yields Q r \<Longrightarrow> (\<And>x. Q x \<Longrightarrow> yields P (f x)) \<Longrightarrow> yields P (res_bind r f)"
  by (auto simp: yields_def)

lemma yields_mono: "yields Q r \<Longrightarrow> (\<And>x. Q x \<Longrightarrow> P x) \<Longrightarrow> yields P r"
  by (auto simp: yields_def)

subsection \<open>The invariant\<close>

fun io_flag :: "io_kind \<Rightarrow> 'd session \<Rightarrow> bool" where
  "io_flag IoRecv s = ss_mReading s"
| "io_flag IoSend s = ss_mWriting s"

definition heap_ok :: "(nat \<times> obj \<times> io_kind) list \<Rightarrow> 'd event_arg \<Rightarrow> bool" where
  "heap_ok h ea \<longleftrightarrow> distinct (map snd h) \<and>
     (\<forall>t o1 k. (t, o1, k) \<in> set h \<longrightarrow> (\<exists>s. ea_sessions ea o1 = Some s \<and> in_table ea o1 s \<and> io_flag k s))"

definition io_inv :: "'d iocp_arg \<Rightarrow> bool" where
  "io_inv ia \<longleftrightarrow> server_inv False (ia_ea ia) \<and> heap_ok (ia_mEventHeap ia) (ia_ea ia)"

definition io_live :: "obj \<Rightarrow> 'd iocp_arg \<Rightarrow> bool" where
  "io_live o1 ia \<longleftrightarrow> io_inv ia \<and> live_obj (ia_ea ia) o1"

definition io_stored :: "obj \<Rightarrow> 'd iocp_arg \<Rightarrow> bool" where
  "io_stored o1 ia \<longleftrightarrow> io_inv ia \<and> ea_sessions (ia_ea ia) o1 \<noteq> None"

lemma ia_simps [simp]:
  "ia_ea (io_ea f ia) = f (ia_ea ia)" "ia_ea (io_set o1 s ia) = set_session o1 s (ia_ea ia)"
  "ia_mEventHeap (io_ea f ia) = ia_mEventHeap ia" "ia_mEventHeap (io_set o1 s ia) = ia_mEventHeap ia"
  by (simp_all add: io_ea_def io_set_def)

lemma io_live_stored: "io_live o1 ia \<Longrightarrow> io_stored o1 ia"
  by (auto simp: io_live_def io_stored_def live_obj_def)

lemma heap_ok_live: "heap_ok (ia_mEventHeap ia) (ia_ea ia) \<Longrightarrow> heap_live ia"
  by (fastforce simp: heap_ok_def heap_live_def list_all_iff)

lemma io_get_live:
  assumes "io_live o1 ia"
  obtains s where "io_get o1 ia = Inr s" "ea_sessions (ia_ea ia) o1 = Some s" "in_table (ia_ea ia) o1 s"
  using assms by (auto simp: io_live_def io_get_def live_obj_def get_session_def)

lemma io_get_stored:
  assumes "io_stored o1 ia"
  obtains s where "io_get o1 ia = Inr s" "ea_sessions (ia_ea ia) o1 = Some s"
  using assms by (auto simp: io_stored_def io_get_def get_session_def)

text \<open>A change that leaves table, messages, output lists and the two flags alone.\<close>

definition sameS :: "'d session \<Rightarrow> 'd session \<Rightarrow> bool" where
  "sameS s s' \<longleftrightarrow> ss_mSid s' = ss_mSid s \<and> ss_mOutList s' = ss_mOutList s \<and>
     (\<forall>k. io_flag k s \<longrightarrow> io_flag k s')"

definition soft :: "'d event_arg \<Rightarrow> 'd event_arg \<Rightarrow> bool" where
  "soft ea ea' \<longleftrightarrow> ea_mSessionManager ea' = ea_mSessionManager ea \<and> ea_msgs ea' = ea_msgs ea \<and>
     ea_mOutputResultQueue ea' = ea_mOutputResultQueue ea \<and> ea_nextMsg ea' = ea_nextMsg ea \<and>
     (\<forall>o1. rel_option sameS (ea_sessions ea o1) (ea_sessions ea' o1))"

lemma sameS_refl [simp]: "sameS s s"
  by (simp add: sameS_def)

lemma soft_refl [simp]: "soft ea ea"
  by (auto simp: soft_def intro: option.rel_refl)

lemma soft_trans: "soft ea ea1 \<Longrightarrow> soft ea1 ea2 \<Longrightarrow> soft ea ea2"
proof -
  assume a: "soft ea ea1" and b: "soft ea1 ea2"
  have t: "sameS s s2" if "sameS s s1" "sameS s1 s2" for s s1 s2 :: "'a session"
    using that by (simp add: sameS_def)
  have "rel_option sameS (ea_sessions ea o1) (ea_sessions ea2 o1)" for o1
  proof -
    have "rel_option sameS (ea_sessions ea o1) (ea_sessions ea1 o1)" "rel_option sameS (ea_sessions ea1 o1) (ea_sessions ea2 o1)"
      using a b by (simp_all add: soft_def)
    then show ?thesis
      by (cases "ea_sessions ea o1"; cases "ea_sessions ea1 o1"; cases "ea_sessions ea2 o1") (auto simp: t)
  qed
  then show ?thesis using a b by (simp add: soft_def)
qed

lemma soft_set:
  assumes "ea_sessions ea o1 = Some s" "sameS s s'"
  shows "soft ea (set_session o1 s' ea)" "soft ea (push_task t (set_session o1 s' ea))"
  using assms by (auto simp: soft_def intro: option.rel_refl)

lemma soft_find: "soft ea ea' \<Longrightarrow> find_session sid ea' = find_session sid ea"
  by (simp add: soft_def find_session_def)

lemma soft_session:
  assumes "soft ea ea'" "ea_sessions ea o1 = Some s"
  obtains s' where "ea_sessions ea' o1 = Some s'" "sameS s s'"
  using assms unfolding soft_def by (metis option.rel_cases option.sel option.distinct(1))

lemma soft_live:
  assumes "soft ea ea'" "live_obj ea o1"
  shows "live_obj ea' o1"
proof -
  from assms(2) obtain s where s: "ea_sessions ea o1 = Some s" "in_table ea o1 s" by (auto simp: live_obj_def)
  from soft_session [OF assms(1) s(1)] obtain s' where "ea_sessions ea' o1 = Some s'" "sameS s s'" .
  then show ?thesis using s(2) soft_find [OF assms(1)] by (simp add: live_obj_def in_table_def sameS_def)
qed

lemma soft_occ: "soft ea ea' \<Longrightarrow> occ_of ea' i sid = occ_of ea i sid"
proof -
  assume a: "soft ea ea'"
  have "case_option 0 (\<lambda>s. count_list (ss_mOutList s) i) (ea_sessions ea' o1) =
    case_option 0 (\<lambda>s. count_list (ss_mOutList s) i) (ea_sessions ea o1)" for o1
  proof -
    have "rel_option sameS (ea_sessions ea o1) (ea_sessions ea' o1)" using a by (simp add: soft_def)
    then show ?thesis by cases (simp_all add: sameS_def)
  qed
  then show ?thesis by (simp add: occ_of_def soft_find [OF a] split: option.split)
qed

lemma soft_heap:
  assumes "soft ea ea'" "heap_ok h ea"
  shows "heap_ok h ea'"
proof -
  have "\<exists>s. ea_sessions ea' o1 = Some s \<and> in_table ea' o1 s \<and> io_flag k s" if "(t, o1, k) \<in> set h" for t o1 k
  proof -
    from assms(2) that obtain s where s: "ea_sessions ea o1 = Some s" "in_table ea o1 s" "io_flag k s"
      by (force simp: heap_ok_def)
    from soft_session [OF assms(1) s(1)] obtain s' where "ea_sessions ea' o1 = Some s'" "sameS s s'" .
    then show ?thesis using s(2,3) soft_find [OF assms(1)] by (simp add: in_table_def sameS_def)
  qed
  then show ?thesis using assms(2) by (simp add: heap_ok_def)
qed

subsection \<open>The timer heap\<close>

lemma heap_erase_eq:
  assumes "heap_live ia"
  shows "heap_erase o1 k ia = Inr (ia\<lparr> ia_mEventHeap := filter (\<lambda>e. snd e \<noteq> (o1, k)) (ia_mEventHeap ia) \<rparr>)"
proof -
  have f: "filter (\<lambda>(t, o2, k2). o2 = o1 \<longrightarrow> k2 \<noteq> k) h = filter (\<lambda>e. snd e \<noteq> (o1, k)) h" for h :: "(nat \<times> obj \<times> io_kind) list"
    by (rule filter_cong) auto
  show ?thesis
  proof (cases "\<exists>t. (t, o1, k) \<in> set (ia_mEventHeap ia)")
    case False
    then have "filter (\<lambda>e. snd e \<noteq> (o1, k)) (ia_mEventHeap ia) = ia_mEventHeap ia"
      by (subst filter_id_conv) auto
    with False show ?thesis by (simp add: heap_erase_def)
  qed (simp add: heap_erase_def assms f)
qed

lemma io_inv_heap_live: "io_inv ia \<Longrightarrow> heap_live ia"
  by (rule heap_ok_live) (simp add: io_inv_def)

lemma heap_ok_filter: "heap_ok h ea \<Longrightarrow> heap_ok (filter P h) ea"
  by (auto simp: heap_ok_def distinct_map_filter)

lemma heap_erase_inv:
  assumes "io_inv ia"
  shows "yields (\<lambda>ia'. io_inv ia' \<and> ia_ea ia' = ia_ea ia \<and> (\<forall>t. (t, o1, k) \<notin> set (ia_mEventHeap ia')) \<and>
    set (ia_mEventHeap ia') \<subseteq> set (ia_mEventHeap ia)) (heap_erase o1 k ia)"
  using assms heap_ok_filter by (auto simp: heap_erase_eq [OF io_inv_heap_live [OF assms]] io_inv_def)

text \<open>The session of a heap entry sets the flag that the entry stands for.\<close>

lemma heap_ok_push:
  assumes "heap_ok h ea" "ea_sessions ea o1 = Some s" "in_table ea o1 s" "\<not> io_flag k s"
    and "sameS s s'" "io_flag k s'"
  shows "heap_ok ((t, o1, k) # h) (set_session o1 s' ea)"
proof -
  have "(o1, k) \<notin> snd ` set h" using assms(1,2,4) by (fastforce simp: heap_ok_def)
  moreover have "heap_ok h (set_session o1 s' ea)" by (rule soft_heap [OF soft_set(1) [OF assms(2,5)] assms(1)])
  moreover have "in_table (set_session o1 s' ea) o1 s'" using assms(3,5) by (simp add: in_table_def sameS_def)
  ultimately show ?thesis using assms(6) by (auto simp: heap_ok_def)
qed

subsection \<open>Small steps\<close>

text \<open>A session in the table changes softly.\<close>

lemma set_soft:
  assumes "io_live o1 ia" "ea_sessions (ia_ea ia) o1 = Some s" "sameS s s'" "ss_mRunning s' = ss_mRunning s"
  shows "io_live o1 (io_set o1 s' ia) \<and> soft (ia_ea ia) (ia_ea (io_set o1 s' ia))"
proof -
  have "server_inv False (set_session o1 s' (ia_ea ia)) \<and> live_obj (set_session o1 s' (ia_ea ia)) o1"
    using assms by (intro set_keeps_live [of _ _ _ s]) (simp_all add: io_live_def io_inv_def sameS_def)
  then show ?thesis using soft_set(1) [OF assms(2,3)] soft_heap assms(1)
    by (auto simp: io_live_def io_inv_def)
qed

lemma update_soft:
  assumes "io_live o1 ia" "\<And>s. sameS s (f s)" "\<And>s. ss_mRunning (f s) = ss_mRunning s"
  shows "yields (\<lambda>ia'. io_live o1 ia' \<and> soft (ia_ea ia) (ia_ea ia')) (io_update o1 f ia)"
proof -
  from io_get_live [OF assms(1)] obtain s where s: "io_get o1 ia = Inr s" "ea_sessions (ia_ea ia) o1 = Some s" .
  with set_soft [OF assms(1) s(2) assms(2,3)] show ?thesis by (simp add: io_update_def)
qed

text \<open>The flag of a kind without heap entry is cleared.\<close>

lemma clear_flag:
  assumes "io_live o1 ia" "\<forall>t. (t, o1, k) \<notin> set (ia_mEventHeap ia)"
    and "\<And>s. ss_mSid (f s) = ss_mSid s \<and> ss_mRunning (f s) = ss_mRunning s \<and> ss_mOutList (f s) = ss_mOutList s"
    and "\<And>s k'. k' \<noteq> k \<Longrightarrow> io_flag k' (f s) = io_flag k' s"
  shows "yields (io_live o1) (io_update o1 f ia)"
proof -
  from io_get_live [OF assms(1)] obtain s where
    s: "io_get o1 ia = Inr s" "ea_sessions (ia_ea ia) o1 = Some s" "in_table (ia_ea ia) o1 s" .
  have k: "server_inv False (set_session o1 (f s) (ia_ea ia)) \<and> live_obj (set_session o1 (f s) (ia_ea ia)) o1"
    using assms(1,3) s by (intro set_keeps_live [of _ _ _ s]) (simp_all add: io_live_def io_inv_def)
  have h: "heap_ok (ia_mEventHeap ia) (ia_ea ia)" using assms(1) by (simp add: io_live_def io_inv_def)
  have "\<exists>s'. ea_sessions (set_session o1 (f s) (ia_ea ia)) o2 = Some s' \<and>
      in_table (set_session o1 (f s) (ia_ea ia)) o2 s' \<and> io_flag k2 s'"
    if e: "(t, o2, k2) \<in> set (ia_mEventHeap ia)" for t o2 k2
  proof -
    from h e obtain s2 where s2: "ea_sessions (ia_ea ia) o2 = Some s2" "in_table (ia_ea ia) o2 s2" "io_flag k2 s2"
      by (force simp: heap_ok_def)
    show ?thesis
    proof (cases "o2 = o1")
      case True
      with assms(2) e have "k2 \<noteq> k" by auto
      with True s2 s assms(3,4) show ?thesis by (simp add: in_table_def)
    next
      case False
      with s2 show ?thesis by simp
    qed
  qed
  then have "heap_ok (ia_mEventHeap ia) (set_session o1 (f s) (ia_ea ia))" using h by (simp add: heap_ok_def)
  then show ?thesis using s(1) k by (simp add: io_update_def io_live_def io_inv_def)
qed

definition soft_live_at :: "obj \<Rightarrow> 'd iocp_arg \<Rightarrow> 'd iocp_arg \<Rightarrow> bool" where
  "soft_live_at o1 ia ia' \<longleftrightarrow> io_live o1 ia' \<and> soft (ia_ea ia) (ia_ea ia')"

lemma soft_live_trans: "soft_live_at o1 ia ia1 \<Longrightarrow> soft_live_at o1 ia1 ia2 \<Longrightarrow> soft_live_at o1 ia ia2"
  by (auto simp: soft_live_at_def intro: soft_trans)

lemma soft_live_refl: "io_live o1 ia \<Longrightarrow> soft_live_at o1 ia ia"
  by (simp add: soft_live_at_def)

lemma doWork_soft:
  assumes "io_live o1 ia" "ea_sessions (ia_ea ia) o1 = Some s" "\<not> ss_mRunning s"
  shows "yields (soft_live_at o1 ia) (IocpHelper_doWork o1 ia)"
proof (cases "ss_mStatus s = eNormal")
  case True
  let ?s = "s\<lparr> ss_mRunning := True \<rparr>"
  have same: "sameS s ?s" by (auto simp: sameS_def elim: io_flag.elims)
  have inv: "server_inv False (ia_ea ia)" "live_obj (ia_ea ia) o1" using assms(1) by (simp_all add: io_live_def io_inv_def)
  have "keeps_live False o1 (EventHelper_doWork o1 (ia_ea ia))" by (rule doWork_keeps [OF inv assms(2,3)])
  then have "server_inv False (push_task (Worker o1) (set_session o1 ?s (ia_ea ia)))"
    "live_obj (push_task (Worker o1) (set_session o1 ?s (ia_ea ia))) o1"
    using assms(2) True by (simp_all add: EventHelper_doWork_def get_session_def)
  then show ?thesis using assms(1,2) True soft_set(2) [OF assms(2) same] soft_heap
    by (auto simp: IocpHelper_doWork_def io_get_def get_session_def soft_live_at_def io_live_def io_inv_def)
next
  case False
  have "sameS s (s\<lparr> ss_mInBuffer := [] \<rparr>)" by (auto simp: sameS_def elim: io_flag.elims)
  then show ?thesis using set_soft [OF assms(1,2)] assms(2) False
    by (simp add: IocpHelper_doWork_def io_get_def get_session_def soft_live_at_def)
qed

text \<open>What is relied on from a decoder: \<open>eOK\<close> or \<open>eMoreData\<close>.\<close>

definition decoder_ok :: "'d io_decoder \<Rightarrow> bool" where
  "decoder_ok dec \<longleftrightarrow> (\<forall>d inb. fst (dec d inb) \<noteq> DecError)"

lemma doDecode_soft:
  assumes "decoder_ok dec" "io_live o1 ia" "ea_sessions (ia_ea ia) o1 = Some s" "\<not> ss_mRunning s"
  shows "yields (soft_live_at o1 ia) (IocpHelper_doDecodeForWork dec o1 ia)"
proof -
  obtain ret d' rest where d: "dec (rq_mDecoder (ss_mRequest s)) (ss_mInBuffer s) = (ret, d', rest)" by (rule prod_cases3)
  let ?s = "s\<lparr> ss_mRequest := Request_setMsgDecoder d' (ss_mRequest s), ss_mInBuffer := rest \<rparr>"
  have "sameS s ?s" by (auto simp: sameS_def elim: io_flag.elims)
  then have k: "soft_live_at o1 ia (io_set o1 ?s ia)" using set_soft [OF assms(2,3)] by (simp add: soft_live_at_def)
  then have "yields (soft_live_at o1 (io_set o1 ?s ia)) (IocpHelper_doWork o1 (io_set o1 ?s ia))"
    using assms(4) by (intro doWork_soft [of _ _ ?s]) (simp_all add: soft_live_at_def)
  then have "yields (soft_live_at o1 ia) (IocpHelper_doWork o1 (io_set o1 ?s ia))"
    by (rule yields_mono) (rule soft_live_trans [OF k])
  moreover have "ret \<noteq> DecError" using assms(1) d unfolding decoder_ok_def by (metis fst_conv)
  ultimately show ?thesis using d k assms(3)
    by (auto simp: IocpHelper_doDecodeForWork_def io_get_def get_session_def Let_def split: dec_result.splits)
qed

lemma unless_running_live:
  assumes "io_live o1 ia"
    and "\<And>s. ea_sessions (ia_ea ia) o1 = Some s \<Longrightarrow> \<not> ss_mRunning s \<Longrightarrow> yields Q (f o1 ia)" "Q ia"
  shows "yields Q (unless_running o1 f ia)"
  using assms by (auto elim: io_get_live simp: unless_running_def)

lemma decode_unless_running:
  assumes "decoder_ok dec" "io_live o1 ia"
  shows "yields (soft_live_at o1 ia) (unless_running o1 (IocpHelper_doDecodeForWork dec) ia)"
  by (rule unless_running_live [OF assms(2)]) (simp_all add: doDecode_soft assms soft_live_refl)

subsection \<open>addRecv and addSend\<close>

lemma io_post_eq:
  obtains ret ws where "io_post ia = (ret, ia\<lparr> ia_wsa := ws \<rparr>)"
  by (cases "post_retry SP_MAX_RETRY (ia_wsa ia)") (simp add: io_post_def)

lemma wsa_same [simp]:
  "io_live o1 (ia\<lparr> ia_wsa := ws \<rparr>) = io_live o1 ia" "io_stored o1 (ia\<lparr> ia_wsa := ws \<rparr>) = io_stored o1 ia"
  "io_inv (ia\<lparr> ia_wsa := ws \<rparr>) = io_inv ia" "heap_live (ia\<lparr> ia_wsa := ws \<rparr>) = heap_live ia"
  by (simp_all add: io_live_def io_inv_def io_stored_def heap_live_def)

text \<open>The session that is about to read or write, with or without a timeout in the heap.\<close>

lemma posted_soft:
  assumes "io_live o1 ia" "ea_sessions (ia_ea ia) o1 = Some s" "\<not> io_flag k s"
    and "sameS s s'" "ss_mRunning s' = ss_mRunning s" "io_flag k s'"
    and "ia_ea ia' = set_session o1 s' (ia_ea ia)"
    and "ia_mEventHeap ia' = ia_mEventHeap ia \<or> ia_mEventHeap ia' = (t, o1, k) # ia_mEventHeap ia"
  shows "soft_live_at o1 ia ia'"
proof -
  have inv: "io_live o1 (io_set o1 s' ia)" "soft (ia_ea ia) (ia_ea ia')"
    using set_soft [OF assms(1,2,4,5)] assms(7) by simp_all
  have "in_table (ia_ea ia) o1 s" using assms(1,2) by (auto simp: io_live_def live_obj_def)
  then have "heap_ok ((t, o1, k) # ia_mEventHeap ia) (ia_ea ia')" unfolding assms(7)
    using assms(1) by (intro heap_ok_push [OF _ assms(2) _ assms(3,4,6)]) (simp_all add: io_live_def io_inv_def)
  then show ?thesis using inv assms(7,8)
    by (auto simp: soft_live_at_def io_live_def io_inv_def)
qed

lemma addRecv_soft:
  assumes "io_live o1 ia"
  shows "yields (\<lambda>(ok, ia'). soft_live_at o1 ia ia') (IocpCallback_addRecv o1 ia)"
proof -
  from io_get_live [OF assms] obtain s where s: "io_get o1 ia = Inr s" "ea_sessions (ia_ea ia) o1 = Some s" .
  obtain ret ws where p: "io_post ia = (ret, ia\<lparr> ia_wsa := ws \<rparr>)" by (rule io_post_eq)
  let ?s = "s\<lparr> ss_readEv := True, ss_mReading := True \<rparr>"
  let ?ia = "io_set o1 ?s (ia\<lparr> ia_wsa := ws \<rparr>)"
  have same: "sameS s ?s" by (auto simp: sameS_def elim: io_flag.elims)
  have get: "io_get o1 (ia\<lparr> ia_wsa := ws \<rparr>) = Inr s" using s(1) by (simp add: io_get_def)
  show ?thesis
  proof (cases "\<not> ss_mReading s \<and> ss_mStatus s = eNormal \<and> ret")
    case True
    have soft: "soft_live_at o1 ia ?ia"
      by (rule posted_soft [where k = IoRecv, OF assms s(2) _ same]) (use True in simp_all)
    have push: "soft_live_at o1 ia (?ia\<lparr> ia_mEventHeap := (t, o1, IoRecv) # ia_mEventHeap ?ia \<rparr>)" for t
      by (rule posted_soft [where k = IoRecv, OF assms s(2) _ same]) (use True in simp_all)
    have "heap_live ?ia" using soft by (intro heap_ok_live) (simp add: soft_live_at_def io_live_def io_inv_def)
    then show ?thesis using True s(1) p get soft push
      by (simp add: IocpCallback_addRecv_def io_update_def push_timeout_def heap_push_def)
  next
    case False
    have "soft_live_at o1 ia (ia\<lparr> ia_wsa := ws \<rparr>)" using assms by (simp add: soft_live_at_def)
    then show ?thesis using False s(1) p soft_live_refl [OF assms] by (auto simp: IocpCallback_addRecv_def)
  qed
qed

text \<open>A failed \<open>addSend\<close> has found the session not writing.\<close>

lemma addSend_soft:
  assumes "decoder_ok dec" "io_live o1 ia"
  shows "yields (\<lambda>(ok, ia'). soft_live_at o1 ia ia' \<and>
      (\<forall>s. ea_sessions (ia_ea ia') o1 = Some s \<longrightarrow> ss_mWriting s = ok)) (IocpCallback_addSend dec o1 ia)"
  unfolding IocpCallback_addSend_def
proof (rule yields_bind [OF decode_unless_running [OF assms]])
  fix ia0 assume "soft_live_at o1 ia ia0"
  then have soft0: "soft_live_at o1 ia ia0" and live: "io_live o1 ia0" by (simp_all add: soft_live_at_def)
  from io_get_live [OF live] obtain s where s: "io_get o1 ia0 = Inr s" "ea_sessions (ia_ea ia0) o1 = Some s" .
  obtain ret ws where p: "io_post ia0 = (ret, ia0\<lparr> ia_wsa := ws \<rparr>)" by (rule io_post_eq)
  let ?s = "s\<lparr> ss_writeEv := True, ss_mWriting := True \<rparr>"
  let ?ia = "io_set o1 ?s (ia0\<lparr> ia_wsa := ws \<rparr>)"
  have same: "sameS s ?s" by (auto simp: sameS_def elim: io_flag.elims)
  have get: "io_get o1 (ia0\<lparr> ia_wsa := ws, ia_mEventHeap := h \<rparr>) = Inr s" "io_get o1 (ia0\<lparr> ia_wsa := ws \<rparr>) = Inr s" for h
    using s(1) by (simp_all add: io_get_def)
  show "yields (\<lambda>(ok, ia'). soft_live_at o1 ia ia' \<and> (\<forall>s. ea_sessions (ia_ea ia') o1 = Some s \<longrightarrow> ss_mWriting s = ok))
    (res_bind (io_get o1 ia0) (\<lambda>s. if \<not> ss_mWriting s
       then (case io_post ia0 of (ret, ia1) \<Rightarrow>
          if ret
          then res_bind (push_timeout o1 IoSend ia1) (\<lambda>ia2.
               res_bind (io_update o1 (\<lambda>s. s\<lparr> ss_writeEv := True, ss_mWriting := True \<rparr>) ia2) (\<lambda>ia3. Inr (True, ia3)))
          else Inr (False, ia1))
       else Inr (True, ia0)))"
  proof (cases "\<not> ss_mWriting s \<and> ret")
    case True
    have soft: "soft_live_at o1 ia0 ?ia"
      by (rule posted_soft [where k = IoSend, OF live s(2) _ same]) (use True in simp_all)
    have push: "soft_live_at o1 ia0 (io_set o1 ?s (ia0\<lparr> ia_wsa := ws, ia_mEventHeap := (t, o1, IoSend) # ia_mEventHeap ia0 \<rparr>))" for t
      by (rule posted_soft [where k = IoSend, OF live s(2) _ same]) (use True in simp_all)
    have "heap_live ia0" using live by (intro heap_ok_live) (simp add: io_live_def io_inv_def)
    then show ?thesis using True s(1) p get soft_live_trans [OF soft0 soft] soft_live_trans [OF soft0 push]
      by (simp add: io_update_def push_timeout_def heap_push_def)
  next
    case False
    have "soft_live_at o1 ia0 (ia0\<lparr> ia_wsa := ws \<rparr>)" using live by (simp add: soft_live_at_def)
    from soft_live_trans [OF soft0 this] show ?thesis using False s p soft0 by auto
  qed
qed

subsection \<open>Leaving the table\<close>

lemma heap_ok_leave:
  assumes inv: "server_inv False ea" and h: "heap_ok h ea" and s: "ea_sessions ea o1 = Some s" "in_table ea o1 s"
    and ea': "ea_sessions ea' = (ea_sessions ea)(o1 \<mapsto> s')"
      "\<And>sid. find_session sid ea' = (if sid = ss_mSid s then None else find_session sid ea)"
  shows "heap_ok (filter (\<lambda>e. fst (snd e) \<noteq> o1) h) ea'"
proof -
  have "\<exists>s2. ea_sessions ea' o2 = Some s2 \<and> in_table ea' o2 s2 \<and> io_flag k s2" if "(t, o2, k) \<in> set h" "o2 \<noteq> o1" for t o2 k
  proof -
    from h that(1) obtain s2 where s2: "ea_sessions ea o2 = Some s2" "in_table ea o2 s2" "io_flag k s2"
      by (force simp: heap_ok_def)
    with s(2) that(2) have "ss_mSid s2 \<noteq> ss_mSid s" by (auto simp: in_table_def)
    with s2 that(2) show ?thesis by (simp add: ea' in_table_def)
  qed
  then show ?thesis using h by (auto simp: heap_ok_def distinct_map_filter)
qed

lemma leave_table_stored:
  assumes live: "io_live o1 ia" and s: "ea_sessions (ia_ea ia) o1 = Some s" "\<not> ss_mRunning s"
    and s': "ss_mSid s' = ss_mSid s" and t: "task_holder (mk o1) = (o1, True)"
    and m: "\<forall>j. msg_inv False st q (occ_upd (occ_of (ia_ea ia)) (ss_mSid s) []) j"
      "\<forall>j. st j = None \<longleftrightarrow> ea_msgs (ia_ea ia) j = None"
    and ia1: "ia_ea ia1 = (set_session o1 s' (ia_ea ia))\<lparr> ea_msgs := st, ea_mOutputResultQueue := q \<rparr>"
      "ia_mEventHeap ia1 = ia_mEventHeap ia"
  shows "yields (\<lambda>ia'. io_stored o1 ia' \<and> ea_msgs (ia_ea ia') = st \<and> ea_mOutputResultQueue (ia_ea ia') = q \<and>
      ea_nextMsg (ia_ea ia') = ea_nextMsg (ia_ea ia) \<and>
      (\<forall>o2. o2 \<noteq> o1 \<longrightarrow> ea_sessions (ia_ea ia') o2 = ea_sessions (ia_ea ia) o2) \<and>
      (\<forall>sid. find_session sid (ia_ea ia') = (if sid = ss_mSid s then None else find_session sid (ia_ea ia))))
    (leave_table mk o1 (ss_mSid s) ia1)"
proof -
  let ?ea = "ia_ea ia"
  have inv: "server_inv False ?ea" "heap_ok (ia_mEventHeap ia) ?ea" and tab: "in_table ?ea o1 s"
    using live s(1) by (auto simp: io_live_def io_inv_def live_obj_def)
  have sinv: "sess_inv False ?ea" using inv(1) by (simp add: server_inv_def)
  from remove_session [OF sinv s(1) tab] obtain mgr where
    mgr: "SessionManager_remove (sid_mKey (ss_mSid s)) (sid_mSeq (ss_mSid s)) (ea_mSessionManager ?ea) = Inr (Some o1, mgr)"
      "table_inv mgr" "session_of mgr = (session_of (ea_mSessionManager ?ea))(ss_mSid s := None)" by blast
  define ea' where "ea' = push_task (mk o1) ((set_session o1 s' ?ea)
      \<lparr> ea_msgs := st, ea_mOutputResultQueue := q, ea_mSessionManager := mgr \<rparr>)"
  have inv': "server_inv False ea'" unfolding ea'_def
    by (rule server_inv_leave [OF inv(1) s(1) tab s(2) s' _ t mgr(2,3) m]) simp
  have find: "find_session sid ea' = (if sid = ss_mSid s then None else find_session sid ?ea)" for sid
    unfolding ea'_def by (simp add: mgr(3)) (simp add: find_session_def)
  have ses: "ea_sessions ea' = (ea_sessions ?ea)(o1 \<mapsto> s')" by (simp add: ea'_def)
  have heap: "heap_ok (filter (\<lambda>e. fst (snd e) \<noteq> o1) (ia_mEventHeap ia)) ea'"
    by (rule heap_ok_leave [OF inv s(1) tab ses find])
  define ia2 where "ia2 = io_ea (\<lambda>ea. ea\<lparr> ea_mSessionManager := mgr \<rparr>) ia1"
  define ia3 where "ia3 = ia2\<lparr> ia_mEventHeap := filter (\<lambda>e. snd e \<noteq> (o1, IoRecv)) (ia_mEventHeap ia2) \<rparr>"
  define ia4 where "ia4 = ia3\<lparr> ia_mEventHeap := filter (\<lambda>e. snd e \<noteq> (o1, IoSend)) (ia_mEventHeap ia3) \<rparr>"
  have "heap_live ia" using inv(2) by (rule heap_ok_live)
  then have l2: "heap_live ia2" using ia1 by (auto simp: ia2_def heap_live_def list_all_iff)
  then have l3: "heap_live ia3" by (auto simp: ia3_def heap_live_def list_all_iff)
  have k: "snd e = (o1, IoRecv) \<or> snd e = (o1, IoSend) \<longleftrightarrow> fst (snd e) = o1" for e :: "nat \<times> obj \<times> io_kind"
    by (cases e) (metis fst_conv io_kind.exhaust prod.collapse snd_conv)
  have "ia_mEventHeap ia4 = filter (\<lambda>e. fst (snd e) \<noteq> o1) (ia_mEventHeap ia)"
    using ia1(2) by (auto simp: ia4_def ia3_def ia2_def k [symmetric] intro!: filter_cong)
  moreover have "push_task (mk o1) (ia_ea ia4) = ea'" using ia1(1) by (simp add: ia4_def ia3_def ia2_def ea'_def)
  moreover have "leave_table mk o1 (ss_mSid s) ia1 = Inr (io_ea (push_task (mk o1)) ia4)"
    using mgr(1) ia1 heap_erase_eq [OF l2, of o1 IoRecv] heap_erase_eq [OF l3, of o1 IoSend]
    by (simp add: leave_table_def ia2_def [symmetric] ia3_def [symmetric] ia4_def [symmetric])
  ultimately show ?thesis using inv' heap find ses
    by (simp add: io_stored_def io_inv_def) (simp add: ea'_def)
qed

lemma msg_inv_less:
  assumes "msg_inv False st q occ i" "\<And>sid. occ' i sid \<le> occ i sid"
  shows "msg_inv False st q occ' i"
proof (cases "st i")
  case None
  then show ?thesis using assms by (simp add: msg_inv_def)
next
  case (Some m)
  have le: "occ i x \<le> b \<Longrightarrow> occ' i x \<le> b" for x b using assms(2) order_trans by blast
  from assms(1) Some have m: "msg_ok m"
    "(\<forall>x. occ i x \<le> count_list (Message_getToList m) x) \<or>
      Message_getToList m = [] \<and> (\<exists>s0. \<forall>x. occ i x \<le> (if x = s0 then 1 else 0))"
    "count_list q i \<le> (if Message_getToList m = [] \<and> (\<forall>x. occ i x = 0) then 1 else 0)"
    by (simp_all add: msg_inv_def)
  from m(2) have "(\<forall>x. occ' i x \<le> count_list (Message_getToList m) x) \<or>
      Message_getToList m = [] \<and> (\<exists>s0. \<forall>x. occ' i x \<le> (if x = s0 then 1 else 0))"
    using le by blast
  moreover have "(\<forall>x. occ i x = 0) \<Longrightarrow> (\<forall>x. occ' i x = 0)" using assms(2) by (metis le_zero_eq)
  with m(3) have "count_list q i \<le> (if Message_getToList m = [] \<and> (\<forall>x. occ' i x = 0) then 1 else 0)"
    by (simp split: if_splits)
  ultimately show ?thesis using m(1) Some unfolding msg_inv_def by simp
qed

lemma doClose_stored:
  assumes "io_live o1 ia" "ea_sessions (ia_ea ia) o1 = Some s" "\<not> ss_mRunning s"
  shows "yields (io_stored o1) (IocpHelper_doClose o1 ia)"
proof -
  let ?ea = "ia_ea ia" and ?s = "s\<lparr> ss_mRunning := True \<rparr>"
  have "\<forall>j. msg_inv False (ea_msgs ?ea) (ea_mOutputResultQueue ?ea) (occ_of ?ea) j"
    using assms(1) by (simp add: io_live_def io_inv_def server_inv_def msgs_inv_def)
  then have "\<forall>j. msg_inv False (ea_msgs ?ea) (ea_mOutputResultQueue ?ea) (occ_upd (occ_of ?ea) (ss_mSid s) []) j"
    by (auto intro: msg_inv_less simp: occ_upd_def)
  from leave_table_stored [where mk = Close, OF assms _ _ this _, of ?s "io_set o1 ?s ia"]
  have "yields (io_stored o1) (leave_table Close o1 (ss_mSid s) (io_set o1 ?s ia))"
    by (rule yields_mono) (simp_all add: set_session_def)
  then show ?thesis using assms(2) by (simp add: IocpHelper_doClose_def io_get_def get_session_def)
qed

text \<open>What \<open>doError\<close> does to the messages of others is nothing.\<close>

lemma fail_out_list_other:
  "fail_out_list sid l st q = Inr (st', q') \<Longrightarrow> i \<notin> set l \<Longrightarrow> st' i = st i \<and> (i \<in> set q' \<longleftrightarrow> i \<in> set q)"
proof (induction l arbitrary: st q rule: rev_induct)
  case Nil
  then show ?case
    by (subst (asm) fail_out_list.simps) (simp add: lst_take_def lst_index_def LAST_INDEX_def Let_def)
next
  case (snoc j l)
  from snoc.prems(1) obtain m where m: "st j = Some m"
    by (subst (asm) fail_out_list.simps) (auto simp: lst_take_last get_msg_def split: option.splits)
  have "fail_out_list sid l (st(j \<mapsto> Message_done False sid m))
      (if SidList_getCount (Message_getToList (Message_done False sid m)) \<le> 0 then q @ [j] else q) = Inr (st', q')"
    using snoc.prems(1) m by (subst (asm) fail_out_list.simps) (simp add: lst_take_last get_msg_def Let_def)
  from snoc.IH [OF this] snoc.prems(2) show ?case by (auto split: if_splits)
qed

definition leaves :: "obj \<Rightarrow> 'd iocp_arg \<Rightarrow> 'd iocp_arg \<Rightarrow> bool" where
  "leaves o1 ia ia' \<longleftrightarrow> io_stored o1 ia' \<and> ea_nextMsg (ia_ea ia') = ea_nextMsg (ia_ea ia) \<and>
     (\<forall>o2. o2 \<noteq> o1 \<longrightarrow> ea_sessions (ia_ea ia') o2 = ea_sessions (ia_ea ia) o2) \<and>
     (\<exists>s. ea_sessions (ia_ea ia) o1 = Some s \<and>
        (\<forall>sid. find_session sid (ia_ea ia') = (if sid = ss_mSid s then None else find_session sid (ia_ea ia))) \<and>
        (\<forall>i. i \<notin> set (ss_mOutList s) \<longrightarrow> ea_msgs (ia_ea ia') i = ea_msgs (ia_ea ia) i \<and>
           (i \<in> set (ea_mOutputResultQueue (ia_ea ia')) \<longleftrightarrow> i \<in> set (ea_mOutputResultQueue (ia_ea ia)))))"

lemma fail_leaves:
  assumes "io_live o1 ia" "ea_sessions (ia_ea ia) o1 = Some s" "\<not> ss_mRunning s" "task_holder (mk o1) = (o1, True)"
  shows "yields (leaves o1 ia) (IocpHelper_fail mk o1 ia)"
proof -
  let ?ea = "ia_ea ia" and ?s = "s\<lparr> ss_mRunning := True, ss_mOutList := [] \<rparr>"
  have inv: "sess_inv False ?ea" "msgs_inv False ?ea" and tab: "in_table ?ea o1 s"
    using assms(1,2) by (auto simp: io_live_def io_inv_def server_inv_def live_obj_def)
  have "\<forall>j. msg_inv False (ea_msgs ?ea) (ea_mOutputResultQueue ?ea) (occ_upd (occ_of ?ea) (ss_mSid s) (ss_mOutList s)) j"
    using inv(2) occ_of_self [OF inv(1) assms(2) tab] by (simp add: msgs_inv_def)
  from fail_out_list_inv [OF this] obtain st q where
    f: "fail_out_list (ss_mSid s) (ss_mOutList s) (ea_msgs ?ea) (ea_mOutputResultQueue ?ea) = Inr (st, q)"
      "\<forall>j. msg_inv False st q (occ_upd (occ_of ?ea) (ss_mSid s) []) j" "\<forall>j. st j = None \<longleftrightarrow> ea_msgs ?ea j = None" by blast
  let ?ia = "io_ea (\<lambda>ea. ea\<lparr> ea_msgs := st, ea_mOutputResultQueue := q \<rparr>) (io_set o1 ?s ia)"
  from leave_table_stored [where mk = mk, OF assms(1-3) _ assms(4) f(2,3), of ?s ?ia]
  have "yields (leaves o1 ia) (leave_table mk o1 (ss_mSid s) ?ia)"
  proof (rule yields_mono, goal_cases)
    case (4 ia')
    then show ?case using assms(2) fail_out_list_other [OF f(1)] by (auto simp: leaves_def)
  qed simp_all
  then show ?thesis using f(1) assms(2) by (simp add: IocpHelper_fail_def io_get_def get_session_def)
qed

lemma leaves_stored: "leaves o1 ia ia' \<Longrightarrow> io_stored o1 ia'"
  by (simp add: leaves_def)

lemma doError_leaves:
  "io_live o1 ia \<Longrightarrow> ea_sessions (ia_ea ia) o1 = Some s \<Longrightarrow> \<not> ss_mRunning s \<Longrightarrow> yields (leaves o1 ia) (IocpHelper_doError o1 ia)"
  by (simp add: IocpHelper_doError_def fail_leaves)

lemma doError_stored:
  "io_live o1 ia \<Longrightarrow> ea_sessions (ia_ea ia) o1 = Some s \<Longrightarrow> \<not> ss_mRunning s \<Longrightarrow> yields (io_stored o1) (IocpHelper_doError o1 ia)"
  by (rule yields_mono [OF doError_leaves leaves_stored])

lemma doTimeout_stored:
  "io_live o1 ia \<Longrightarrow> ea_sessions (ia_ea ia) o1 = Some s \<Longrightarrow> \<not> ss_mRunning s \<Longrightarrow> yields (io_stored o1) (IocpHelper_doTimeout o1 ia)"
  by (rule yields_mono [OF fail_leaves [of _ _ _ Timeout, folded IocpHelper_doTimeout_def] leaves_stored]) simp_all

lemma unless_running_stored:
  assumes "io_live o1 ia"
  shows "yields (io_stored o1) (unless_running o1 IocpHelper_doError ia)"
    "yields (io_stored o1) (unless_running o1 IocpHelper_doTimeout ia)"
    "yields (io_stored o1) (unless_running o1 IocpHelper_doClose ia)"
  by (rule unless_running_live [OF assms]; simp add: doError_stored doTimeout_stored doClose_stored assms io_live_stored)+

subsection \<open>onRecv and onSend\<close>

lemma stored_inv: "io_stored o1 ia \<Longrightarrow> io_inv ia"
  by (simp add: io_stored_def)

lemma stored_yields: "yields (io_stored o1) r \<Longrightarrow> yields io_inv r"
  by (erule yields_mono) (rule stored_inv)

lemma soft_live_live: "soft_live_at o1 ia ia' \<Longrightarrow> io_live o1 ia'"
  by (simp add: soft_live_at_def)

lemma addRecv_live: "io_live o1 ia \<Longrightarrow> yields (\<lambda>(ok, ia'). io_live o1 ia') (IocpCallback_addRecv o1 ia)"
  by (rule yields_mono [OF addRecv_soft]) (auto simp: soft_live_live)

lemma addSend_live: "decoder_ok dec \<Longrightarrow> io_live o1 ia \<Longrightarrow> yields (\<lambda>(ok, ia'). io_live o1 ia') (IocpCallback_addSend dec o1 ia)"
  by (rule yields_mono [OF addSend_soft]) (auto simp: soft_live_live)

lemma decode_live:
  "decoder_ok dec \<Longrightarrow> io_live o1 ia \<Longrightarrow> yields (io_live o1) (unless_running o1 (IocpHelper_doDecodeForWork dec) ia)"
  by (rule yields_mono [OF decode_unless_running soft_live_live])

lemma update_live:
  "io_live o1 ia \<Longrightarrow> (\<And>s. sameS s (f s)) \<Longrightarrow> (\<And>s. ss_mRunning (f s) = ss_mRunning s) \<Longrightarrow> yields (io_live o1) (io_update o1 f ia)"
  by (rule yields_mono [OF update_soft]) auto

lemma sameS_simps [simp]:
  "sameS s (s\<lparr> ss_mStatus := x \<rparr>)" "sameS s (Session_addRead n s)" "sameS s (Session_addWrite n s)"
  "sameS s (Session_addRead n (s\<lparr> ss_mInBuffer := b \<rparr>))"
  "sameS s (if c then s\<lparr> ss_mStatus := x \<rparr> else s)"
  by (auto simp: sameS_def Session_addRead_def Session_addWrite_def elim: io_flag.elims)

lemma running_simps [simp]:
  "ss_mRunning (Session_addRead n s) = ss_mRunning s" "ss_mRunning (Session_addWrite n s) = ss_mRunning s"
  by (simp_all add: Session_addRead_def Session_addWrite_def)

lemma io_live_erase:
  assumes "io_live o1 ia"
  shows "yields (\<lambda>ia'. io_live o1 ia' \<and> (\<forall>t. (t, o1, k) \<notin> set (ia_mEventHeap ia'))) (heap_erase o1 k ia)"
  using assms by (intro yields_mono [OF heap_erase_inv [of ia o1 k]]) (auto simp: io_live_def)

lemma retry_recv:
  assumes "io_live o1 ia"
  shows "yields io_inv (res_bind (IocpCallback_addRecv o1 ia) (\<lambda>(ok, ia2).
    if \<not> ok then unless_running o1 IocpHelper_doError ia2 else Inr ia2))"
proof (rule yields_bind [OF addRecv_live [OF assms]], clarify)
  fix ok and ia2 :: "'a iocp_arg" assume l: "io_live o1 ia2"
  show "yields io_inv (if \<not> ok then unless_running o1 IocpHelper_doError ia2 else Inr ia2)"
    using stored_yields [OF unless_running_stored(1) [OF l]] l by (simp add: io_live_def)
qed

lemma onRecv_inv:
  assumes "decoder_ok dec" "io_live o1 ia"
  shows "yields io_inv (IocpCallback_onRecv dec o1 e ia)"
  unfolding IocpCallback_onRecv_def
proof (rule yields_bind [OF io_live_erase [OF assms(2)]])
  fix ia0 :: "'a iocp_arg" assume "io_live o1 ia0 \<and> (\<forall>t. (t, o1, IoRecv) \<notin> set (ia_mEventHeap ia0))"
  then have l0: "io_live o1 ia0" "\<forall>t. (t, o1, IoRecv) \<notin> set (ia_mEventHeap ia0)" by simp_all
  have "yields (io_live o1) (io_update o1 (\<lambda>s. s\<lparr> ss_mReading := False \<rparr>) ia0)"
    by (rule clear_flag [OF l0]) (auto elim: io_flag.elims)
  then show "yields io_inv (res_bind (io_update o1 (\<lambda>s. s\<lparr> ss_mReading := False \<rparr>) ia0) (\<lambda>ia1.
       case e of
         IoData data \<Rightarrow>
           if data \<noteq> [] then
             res_bind (io_update o1 (\<lambda>s. Session_addRead (length data) (s\<lparr> ss_mInBuffer := ss_mInBuffer s @ data \<rparr>)) ia1) (\<lambda>ia2.
             res_bind (unless_running o1 (IocpHelper_doDecodeForWork dec) ia2) (\<lambda>ia3.
             res_bind (IocpCallback_addRecv o1 ia3) (\<lambda>(ok, ia4).
               if \<not> ok then unless_running o1 IocpHelper_doError ia4 else Inr ia4)))
           else unless_running o1 IocpHelper_doClose ia1
       | IoWouldBlock \<Rightarrow>
           res_bind (IocpCallback_addRecv o1 ia1) (\<lambda>(ok, ia2).
             if \<not> ok then unless_running o1 IocpHelper_doError ia2 else Inr ia2)
       | IoReadError \<Rightarrow> unless_running o1 IocpHelper_doError ia1))"
  proof (rule yields_bind)
    fix ia1 :: "'a iocp_arg" assume l1: "io_live o1 ia1"
    have data: "yields io_inv (res_bind (io_update o1 (\<lambda>s. Session_addRead (length data) (s\<lparr> ss_mInBuffer := ss_mInBuffer s @ data \<rparr>)) ia1) (\<lambda>ia2.
             res_bind (unless_running o1 (IocpHelper_doDecodeForWork dec) ia2) (\<lambda>ia3.
             res_bind (IocpCallback_addRecv o1 ia3) (\<lambda>(ok, ia4).
               if \<not> ok then unless_running o1 IocpHelper_doError ia4 else Inr ia4))))" for data :: bytes
      by (rule yields_bind [OF update_live [OF l1]], simp_all) (rule yields_bind [OF decode_live [OF assms(1)]], assumption, rule retry_recv)
    show "yields io_inv (case e of
         IoData data \<Rightarrow>
           if data \<noteq> [] then
             res_bind (io_update o1 (\<lambda>s. Session_addRead (length data) (s\<lparr> ss_mInBuffer := ss_mInBuffer s @ data \<rparr>)) ia1) (\<lambda>ia2.
             res_bind (unless_running o1 (IocpHelper_doDecodeForWork dec) ia2) (\<lambda>ia3.
             res_bind (IocpCallback_addRecv o1 ia3) (\<lambda>(ok, ia4).
               if \<not> ok then unless_running o1 IocpHelper_doError ia4 else Inr ia4)))
           else unless_running o1 IocpHelper_doClose ia1
       | IoWouldBlock \<Rightarrow>
           res_bind (IocpCallback_addRecv o1 ia1) (\<lambda>(ok, ia2).
             if \<not> ok then unless_running o1 IocpHelper_doError ia2 else Inr ia2)
       | IoReadError \<Rightarrow> unless_running o1 IocpHelper_doError ia1)"
      using data retry_recv [OF l1] unless_running_stored [OF l1, THEN stored_yields]
      by (cases e) auto
  qed
qed

lemma io_transmit_live:
  assumes "io_live o1 ia"
  shows "yields (\<lambda>(len, ia'). io_live o1 ia') (io_transmit o1 rets ia)"
proof -
  have inv: "server_inv False (ia_ea ia)" "live_obj (ia_ea ia) o1" "heap_ok (ia_mEventHeap ia) (ia_ea ia)"
    using assms by (simp_all add: io_live_def io_inv_def)
  from run_transmit_keeps [OF inv(1,2), of rets] obtain len ea' where
    r: "run_transmit o1 rets (ia_ea ia) = Inr (len, ea')" "server_inv False ea'" "live_obj ea' o1" by blast
  from get_live [OF inv(2)] obtain s where s: "get_session o1 (ia_ea ia) = Inr s" "ea_sessions (ia_ea ia) o1 = Some s" by blast
  from r(1) s obtain s' where f: "ea_sessions ea' = (ea_sessions (ia_ea ia))(o1 \<mapsto> s')" "ss_mSid s' = ss_mSid s"
    "ss_mReading s' = ss_mReading s" "ss_mWriting s' = ss_mWriting s" "\<And>sid. find_session sid ea' = find_session sid (ia_ea ia)"
    by (auto simp: run_transmit_def res_bind_eq_Inr_iff)
  have "\<exists>s2. ea_sessions ea' o2 = Some s2 \<and> in_table ea' o2 s2 \<and> io_flag k s2"
    if e: "(t, o2, k) \<in> set (ia_mEventHeap ia)" for t o2 k
  proof -
    from inv(3) e obtain s2 where s2: "ea_sessions (ia_ea ia) o2 = Some s2" "in_table (ia_ea ia) o2 s2" "io_flag k s2"
      by (force simp: heap_ok_def)
    then show ?thesis using s(2) f by (cases "o2 = o1"; cases k) (auto simp: in_table_def)
  qed
  then have "heap_ok (ia_mEventHeap ia) ea'" using inv(3) by (simp add: heap_ok_def)
  then show ?thesis using r by (simp add: io_transmit_def io_live_def io_inv_def)
qed

definition ret_live :: "obj \<Rightarrow> int \<times> 'd iocp_arg \<Rightarrow> bool" where
  "ret_live o1 p \<longleftrightarrow> io_stored o1 (snd p) \<and> (fst p = 0 \<longrightarrow> io_live o1 (snd p))"

lemma ret_error: "yields (io_stored o1) r \<Longrightarrow> yields (ret_live o1) (res_bind r (\<lambda>ia. Inr (-1, ia)))"
  by (erule yields_bind) (simp add: ret_live_def)

lemma ret_ok: "io_live o1 ia \<Longrightarrow> yields (ret_live o1) (Inr (0, ia))"
  by (simp add: ret_live_def io_live_stored)

lemma send_part_live:
  assumes "decoder_ok dec" "io_live o1 ia"
  shows "yields (ret_live o1) (send_part dec o1 rets err ia)"
proof -
  from io_get_live [OF assms(2)] obtain s where s: "io_get o1 ia = Inr s" .
  have more: "yields (ret_live o1) (res_bind (IocpCallback_addSend dec o1 ia2) (\<lambda>(ok, ia3).
      res_bind (io_get o1 ia3) (\<lambda>s3. if \<not> ok \<and> \<not> ss_mRunning s3
        then res_bind (IocpHelper_doError o1 ia3) (\<lambda>ia4. Inr (-1, ia4)) else Inr (0, ia3))))"
    if l2: "io_live o1 ia2" for ia2 :: "'a iocp_arg"
  proof (rule yields_bind [OF addSend_live [OF assms(1) l2]], clarify)
    fix ok and ia3 :: "'a iocp_arg" assume l3: "io_live o1 ia3"
    from io_get_live [OF l3] obtain s3 where "io_get o1 ia3 = Inr s3" "ea_sessions (ia_ea ia3) o1 = Some s3" .
    then show "yields (ret_live o1) (res_bind (io_get o1 ia3) (\<lambda>s3. if \<not> ok \<and> \<not> ss_mRunning s3
        then res_bind (IocpHelper_doError o1 ia3) (\<lambda>ia4. Inr (-1, ia4)) else Inr (0, ia3)))"
      using ret_error [OF doError_stored [OF l3]] ret_ok [OF l3] by simp
  qed
  have again: "yields (ret_live o1) (res_bind (if c then IocpCallback_addSend dec o1 ia1 else Inr (False, ia1)) (\<lambda>(ok, ia2).
      if ok then Inr (0, ia2) else res_bind (unless_running o1 IocpHelper_doError ia2) (\<lambda>ia3. Inr (-1, ia3))))"
    if l1: "io_live o1 ia1" for c and ia1 :: "'a iocp_arg"
  proof (rule yields_bind [where Q = "\<lambda>(ok, ia2). io_live o1 ia2"], goal_cases)
    case 1
    then show ?case using addSend_live [OF assms(1) l1] l1 by simp
  next
    case (2 x)
    then show ?case by (cases x) (auto simp: ret_live_def io_live_stored intro!: ret_error unless_running_stored(1))
  qed
  show ?thesis
  proof (cases "ss_mOutList s = []")
    case True
    then show ?thesis using s ret_ok [OF assms(2)] by (simp add: send_part_def)
  next
    case False
    have "yields (ret_live o1) (res_bind (io_transmit o1 rets ia) (\<lambda>(len, ia1).
           if 0 < len then
             res_bind (io_update o1 (Session_addWrite (nat len)) ia1) (\<lambda>ia2.
             res_bind (io_get o1 ia2) (\<lambda>s2.
               if ss_mOutList s2 \<noteq> [] then
                 res_bind (IocpCallback_addSend dec o1 ia2) (\<lambda>(ok, ia3).
                 res_bind (io_get o1 ia3) (\<lambda>s3.
                   if \<not> ok \<and> \<not> ss_mRunning s3
                   then res_bind (IocpHelper_doError o1 ia3) (\<lambda>ia4. Inr (-1, ia4))
                   else Inr (0, ia3)))
               else Inr (0, ia2)))
           else
             res_bind (if err = IoNoBufs \<or> err = IoBlock
                      then IocpCallback_addSend dec o1 ia1 else Inr (False, ia1)) (\<lambda>(ok, ia2).
               if ok then Inr (0, ia2)
               else res_bind (unless_running o1 IocpHelper_doError ia2) (\<lambda>ia3. Inr (-1, ia3)))))"
    proof (rule yields_bind [OF io_transmit_live [OF assms(2)]], clarify)
      fix len and ia1 :: "'a iocp_arg" assume l1: "io_live o1 ia1"
      have "yields (ret_live o1) (res_bind (io_update o1 (Session_addWrite (nat len)) ia1) (\<lambda>ia2.
             res_bind (io_get o1 ia2) (\<lambda>s2.
               if ss_mOutList s2 \<noteq> [] then
                 res_bind (IocpCallback_addSend dec o1 ia2) (\<lambda>(ok, ia3).
                 res_bind (io_get o1 ia3) (\<lambda>s3.
                   if \<not> ok \<and> \<not> ss_mRunning s3
                   then res_bind (IocpHelper_doError o1 ia3) (\<lambda>ia4. Inr (-1, ia4))
                   else Inr (0, ia3)))
               else Inr (0, ia2))))" (is "yields _ (res_bind _ ?f)")
      proof (rule yields_bind [OF update_live [OF l1]], simp_all)
        fix ia2 :: "'a iocp_arg" assume l2: "io_live o1 ia2"
        from io_get_live [OF l2] obtain s2 where "io_get o1 ia2 = Inr s2" .
        then show "yields (ret_live o1) (?f ia2)" using more [OF l2] ret_ok [OF l2] by simp
      qed
      then show "yields (ret_live o1) (if 0 < len then res_bind (io_update o1 (Session_addWrite (nat len)) ia1) ?f
           else res_bind (if err = IoNoBufs \<or> err = IoBlock
                      then IocpCallback_addSend dec o1 ia1 else Inr (False, ia1)) (\<lambda>(ok, ia2).
               if ok then Inr (0, ia2)
               else res_bind (unless_running o1 IocpHelper_doError ia2) (\<lambda>ia3. Inr (-1, ia3))))"
        using again [OF l1] by simp
    qed
    then show ?thesis using s False by (simp add: send_part_def)
  qed
qed

lemma io_exit_part_live:
  assumes "ret_live o1 (ret, ia)"
  shows "yields (ret_live o1) (io_exit_part o1 ret ia)"
proof -
  from assms have "io_stored o1 ia" by (simp add: ret_live_def)
  from io_get_stored [OF this] obtain s where s: "io_get o1 ia = Inr s" .
  show ?thesis
  proof (cases "ret = 0 \<and> ss_mOutList s = [] \<and> ss_mStatus s = eExit")
    case True
    then have "io_live o1 ia" using assms by (simp add: ret_live_def)
    from ret_error [OF unless_running_stored(3) [OF this]] show ?thesis using True s by (simp add: io_exit_part_def)
  next
    case False
    then show ?thesis using s assms by (auto simp: io_exit_part_def)
  qed
qed

lemma onSend_inv:
  assumes "decoder_ok dec" "io_live o1 ia" "\<forall>t. (t, o1, IoSend) \<notin> set (ia_mEventHeap ia)"
  shows "yields io_inv (IocpCallback_onSend dec o1 rets err ia)"
  unfolding IocpCallback_onSend_def
proof (rule yields_bind [OF clear_flag [OF assms(2,3)]])
  fix ia1 :: "'a iocp_arg" assume l1: "io_live o1 ia1"
  show "yields io_inv (res_bind (send_part dec o1 rets err ia1) (\<lambda>(ret, ia2).
     res_bind (io_exit_part o1 ret ia2) (\<lambda>(ret', ia3).
       if ret' = 0 then unless_running o1 (IocpHelper_doDecodeForWork dec) ia3 else Inr ia3)))"
  proof (rule yields_bind [OF send_part_live [OF assms(1) l1]], clarify)
    fix ret and ia2 :: "'a iocp_arg" assume "ret_live o1 (ret, ia2)"
    then show "yields io_inv (res_bind (io_exit_part o1 ret ia2) (\<lambda>(ret', ia3).
       if ret' = 0 then unless_running o1 (IocpHelper_doDecodeForWork dec) ia3 else Inr ia3))"
    proof (rule yields_bind [OF io_exit_part_live], clarify)
      fix ret' and ia3 :: "'a iocp_arg" assume "ret_live o1 (ret', ia3)"
      then show "yields io_inv (if ret' = 0 then unless_running o1 (IocpHelper_doDecodeForWork dec) ia3 else Inr ia3)"
        using yields_mono [OF decode_live [OF assms(1)], of o1 ia3 io_inv]
        by (auto simp: ret_live_def stored_inv) (simp add: io_live_def)
    qed
  qed
qed (auto elim: io_flag.elims)

end
