(* ===== verification/SP_IocpRun.thy ===== *)
theory SP_IocpRun
  imports SP_IocpInv
begin

text \<open>
  Responses, accepted connections, timeouts and the whole Windows server (spwin32iocp.cpp): every
  interleaving of its loop thread, workers and completion thread keeps the invariant of
  \<open>SP_IocpInv\<close>; and a run in which a message is lost for ever.
\<close>

subsection \<open>onResponse\<close>

lemma io_inv_parts:
  "io_inv ia \<longleftrightarrow> sess_inv False (ia_ea ia) \<and> msgs_inv False (ia_ea ia) \<and> heap_ok (ia_mEventHeap ia) (ia_ea ia)"
  by (auto simp: io_inv_def server_inv_def)

lemma io_find_live:
  assumes "io_inv ia" "find_session sid (ia_ea ia) = Some o1"
  shows "io_live o1 ia"
proof -
  have "sess_inv False (ia_ea ia)" using assms(1) by (simp add: io_inv_parts)
  from find_session_object [OF this assms(2)] show ?thesis using assms(1) by (auto simp: io_live_def live_obj_def)
qed

lemma heap_ok_cong:
  assumes "ea_sessions ea' = ea_sessions ea" "ea_mSessionManager ea' = ea_mSessionManager ea"
  shows "heap_ok h ea' = heap_ok h ea"
  by (simp add: heap_ok_def in_table_def find_session_def assms)

lemma heap_ok_simps [simp]:
  "heap_ok h (ea\<lparr> ea_msgs := st \<rparr>) = heap_ok h ea"
  "heap_ok h (ea\<lparr> ea_mOutputResultQueue := q \<rparr>) = heap_ok h ea"
  "heap_ok h (ea\<lparr> ea_mResponseQueue := rq \<rparr>) = heap_ok h ea"
  "heap_ok h (ea\<lparr> ea_nextMsg := n \<rparr>) = heap_ok h ea"
  "heap_ok h (ea\<lparr> ea_active := a \<rparr>) = heap_ok h ea"
  "heap_ok h (ea\<lparr> ea_mInputResultQueue := iq \<rparr>) = heap_ok h ea"
  "heap_ok h (push_task t ea) = heap_ok h ea"
  by (rule heap_ok_cong; simp)+

lemma heap_ok_set:
  assumes "heap_ok h ea" "ea_sessions ea o1 = Some s" "ss_mSid s' = ss_mSid s" "\<And>k. io_flag k s \<Longrightarrow> io_flag k s'"
  shows "heap_ok h (set_session o1 s' ea)"
proof -
  have "\<exists>s2. ea_sessions (set_session o1 s' ea) o2 = Some s2 \<and> in_table (set_session o1 s' ea) o2 s2 \<and> io_flag k s2"
    if "(t, o2, k) \<in> set h" for t o2 k
  proof -
    from assms(1) that obtain s2 where "ea_sessions ea o2 = Some s2" "in_table ea o2 s2" "io_flag k s2"
      by (force simp: heap_ok_def)
    then show ?thesis using assms(2-4) by (cases "o2 = o1") (auto simp: in_table_def)
  qed
  then show ?thesis using assms(1) by (simp add: heap_ok_def)
qed

text \<open>
  While \<open>io_deliver\<close> works on message \<open>i\<close>, the receivers still to be seen are in its to list beside
  those that have it in their output lists, and a session that has it is writing.
\<close>

definition io_deliver_inv :: "msg_id \<Rightarrow> nat \<Rightarrow> 'd iocp_arg \<Rightarrow> bool" where
  "io_deliver_inv i n ia \<longleftrightarrow> io_inv ia \<and> i \<notin> set (ea_mOutputResultQueue (ia_ea ia)) \<and>
     (\<exists>m. ea_msgs (ia_ea ia) i = Some m \<and> n \<le> length (Message_getToList m) \<and>
        (\<forall>sid. occ_of (ia_ea ia) i sid + count_list (take n (Message_getToList m)) sid \<le> count_list (Message_getToList m) sid)) \<and>
     (\<forall>o1 s. ea_sessions (ia_ea ia) o1 = Some s \<and> in_table (ia_ea ia) o1 s \<and> i \<in> set (ss_mOutList s) \<longrightarrow> ss_mWriting s)"

lemma io_inv_set_msg:
  assumes "io_inv ia" "ea_msgs (ia_ea ia) i = Some m" "i \<notin> set (ea_mOutputResultQueue (ia_ea ia))"
    and "msg_ok m'" "\<And>sid. occ_of (ia_ea ia) i sid \<le> count_list (Message_getToList m') sid"
  shows "io_inv (io_ea (\<lambda>ea. ea\<lparr> ea_msgs := (ea_msgs ea)(i \<mapsto> m') \<rparr>) ia)"
proof -
  let ?ea = "ia_ea ia"
  have inv: "sess_inv False ?ea" "msgs_inv False ?ea" "heap_ok (ia_mEventHeap ia) ?ea" using assms(1) by (simp_all add: io_inv_parts)
  have "msg_inv False ((ea_msgs ?ea)(i \<mapsto> m')) (ea_mOutputResultQueue ?ea) (occ_of ?ea) j" for j
  proof (cases "j = i")
    case True
    have "count_list (ea_mOutputResultQueue ?ea) i = 0" using assms(3) by (simp add: count_list_0_iff)
    then show ?thesis using True assms(4,5) by (simp add: msg_inv_def)
  next
    case False
    then have "msg_inv False ((ea_msgs ?ea)(i \<mapsto> m')) (ea_mOutputResultQueue ?ea) (occ_of ?ea) j =
      msg_inv False (ea_msgs ?ea) (ea_mOutputResultQueue ?ea) (occ_of ?ea) j" by (intro msg_inv_cong) simp_all
    then show ?thesis using inv(2) by (simp add: msgs_inv_def)
  qed
  then show ?thesis using inv assms(2) by (auto simp: io_inv_parts msgs_inv_def)
qed

lemma io_msg_ok: "io_inv ia \<Longrightarrow> ea_msgs (ia_ea ia) i = Some m \<Longrightarrow> msg_ok m"
  by (auto simp: io_inv_parts msgs_inv_def msg_inv_def dest!: spec [of _ i])

lemma count_take_le: "count_list (take n l) x \<le> count_list (take (Suc n) l) x"
  by (cases "n < length l") (simp_all add: take_Suc_conv_app_nth)

lemma io_deliver_fail:
  assumes "io_deliver_inv i (Suc n) ia" "ea_msgs (ia_ea ia) i = Some m"
  shows "io_deliver_inv i n (io_ea (\<lambda>ea. ea\<lparr> ea_msgs := (ea_msgs ea)(i \<mapsto> Message_addFailure sid
      (Message_setToList (snd (SidList_take (int n) (Message_getToList m))) m)) \<rparr>) ia)"
proof -
  let ?l = "Message_getToList m"
  let ?m = "Message_addFailure sid (Message_setToList (del_at n ?l) m)"
  have inv: "io_inv ia" "i \<notin> set (ea_mOutputResultQueue (ia_ea ia))" and l: "n < length ?l"
    "\<forall>x. occ_of (ia_ea ia) i x + count_list (take (Suc n) ?l) x \<le> count_list ?l x"
    using assms by (auto simp: io_deliver_inv_def)
  have ok: "msg_ok ?m" using io_msg_ok [OF inv(1) assms(2)]
    by (simp add: msg_ok_def Message_addFailure_def Message_setToList_def Message_getFollowBlockList_def)
  have bal: "occ_of (ia_ea ia) i x + count_list (take n ?l) x \<le> count_list (del_at n ?l) x" for x
    using l(2) [rule_format, of x] count_list_del_at [OF l(1), of x]
    by (simp add: take_Suc_conv_app_nth [OF l(1)] split: if_splits)
  have "io_inv (io_ea (\<lambda>ea. ea\<lparr> ea_msgs := (ea_msgs ea)(i \<mapsto> ?m) \<rparr>) ia)"
  proof (rule io_inv_set_msg [OF inv(1) assms(2) inv(2) ok])
    show "occ_of (ia_ea ia) i x \<le> count_list (Message_getToList ?m) x" for x using bal [of x] by simp
  qed
  then show ?thesis
    using assms(1) inv(2) l(1) bal
    by (auto simp: io_deliver_inv_def SidList_take_def lst_take_nth take_del_at in_table_def)
qed

lemma io_deliver_soft:
  assumes "io_deliver_inv i n ia" "soft (ia_ea ia) (ia_ea ia')" "io_inv ia'"
  shows "io_deliver_inv i n ia'"
proof -
  let ?ea = "ia_ea ia" and ?ea' = "ia_ea ia'"
  have same: "ea_msgs ?ea' = ea_msgs ?ea" "ea_mOutputResultQueue ?ea' = ea_mOutputResultQueue ?ea"
    using assms(2) by (simp_all add: soft_def)
  have "ss_mWriting s'" if s': "ea_sessions ?ea' o1 = Some s'" "in_table ?ea' o1 s'" "i \<in> set (ss_mOutList s')" for o1 s'
  proof -
    have "rel_option sameS (ea_sessions ?ea o1) (ea_sessions ?ea' o1)" using assms(2) by (simp add: soft_def)
    with s'(1) obtain s where s: "ea_sessions ?ea o1 = Some s" "sameS s s'" by (auto elim: option.rel_cases)
    then have "ss_mWriting s" using assms(1) s' soft_find [OF assms(2)]
      by (auto simp: io_deliver_inv_def in_table_def sameS_def)
    then have "io_flag IoSend s" by simp
    with s(2) have "io_flag IoSend s'" unfolding sameS_def by blast
    then show ?thesis by simp
  qed
  then show ?thesis using assms(1,3) soft_occ [OF assms(2)] by (auto simp: io_deliver_inv_def same)
qed

lemma io_deliver_append:
  assumes d: "io_deliver_inv i (Suc n) ia" and m: "ea_msgs (ia_ea ia) i = Some m" "Message_getToList m ! n = ss_mSid s"
    and s: "ea_sessions (ia_ea ia) o1 = Some s" "in_table (ia_ea ia) o1 s" "ss_mWriting s"
  shows "io_deliver_inv i n (io_set o1 (s\<lparr> ss_mOutList := ss_mOutList s @ [i] \<rparr>) ia)"
proof -
  let ?ea = "ia_ea ia" and ?s = "s\<lparr> ss_mOutList := ss_mOutList s @ [i] \<rparr>" and ?l = "Message_getToList m"
  have inv: "sess_inv False ?ea" "msgs_inv False ?ea" "heap_ok (ia_mEventHeap ia) ?ea"
    and q: "i \<notin> set (ea_mOutputResultQueue ?ea)" and l: "n < length ?l"
    "\<forall>x. occ_of ?ea i x + count_list (take (Suc n) ?l) x \<le> count_list ?l x"
    using d m(1) by (auto simp: io_deliver_inv_def io_inv_parts)
  have occ: "occ_of (set_session o1 ?s ?ea) j x = occ_of ?ea j x + (if x = ss_mSid s \<and> j = i then 1 else 0)" for j x
    using occ_of_set [OF inv(1) s(1,2), of ?s] occ_of_in [OF s(1,2), of j] by (auto simp: occ_upd_def)
  have bal: "occ_of (set_session o1 ?s ?ea) i x + count_list (take n ?l) x \<le> count_list ?l x" for x
    using l(2) [rule_format, of x] m(2) unfolding occ by (simp add: take_Suc_conv_app_nth [OF l(1)] split: if_splits)
  have "msg_inv False (ea_msgs ?ea) (ea_mOutputResultQueue ?ea) (occ_of (set_session o1 ?s ?ea)) j" for j
  proof (cases "j = i")
    case True
    have "count_list (ea_mOutputResultQueue ?ea) i = 0" using q by (simp add: count_list_0_iff)
    moreover have "msg_ok m" using io_msg_ok d m(1) by (auto simp: io_deliver_inv_def)
    moreover have "occ_of (set_session o1 ?s ?ea) i x \<le> count_list ?l x" for x using bal [of x] by simp
    ultimately show ?thesis using True m(1) by (simp add: msg_inv_def)
  next
    case False
    then have "msg_inv False (ea_msgs ?ea) (ea_mOutputResultQueue ?ea) (occ_of (set_session o1 ?s ?ea)) j =
      msg_inv False (ea_msgs ?ea) (ea_mOutputResultQueue ?ea) (occ_of ?ea) j"
      using occ by (intro msg_inv_cong) simp_all
    then show ?thesis using inv(2) by (simp add: msgs_inv_def)
  qed
  then have "msgs_inv False (set_session o1 ?s ?ea)" using inv(2) by (simp add: msgs_inv_def)
  moreover have "sess_inv False (set_session o1 ?s ?ea)" by (rule sess_inv_update [OF inv(1) s(1,2)]) simp_all
  moreover have "heap_ok (ia_mEventHeap ia) (set_session o1 ?s ?ea)"
    by (rule heap_ok_set [OF inv(3) s(1)]) (auto elim: io_flag.elims)
  ultimately have "io_inv (io_set o1 ?s ia)" by (simp add: io_inv_parts)
  then show ?thesis using d m(1) q l(1) bal s(3) by (auto simp: io_deliver_inv_def in_table_def)
qed

lemma io_deliver_leaves:
  assumes d: "io_deliver_inv i n ia" and live: "io_live o1 ia" and l: "leaves o1 ia ia'"
    and s: "ea_sessions (ia_ea ia) o1 = Some s" "\<not> ss_mWriting s"
  shows "io_deliver_inv i n ia'"
proof -
  let ?ea = "ia_ea ia" and ?ea' = "ia_ea ia'"
  have tab: "in_table ?ea o1 s" and sinv: "sess_inv False ?ea"
    using live s(1) by (auto simp: io_live_def live_obj_def io_inv_parts)
  have out: "i \<notin> set (ss_mOutList s)" using d s tab by (auto simp: io_deliver_inv_def)
  have l': "io_inv ia'" "\<And>o2. o2 \<noteq> o1 \<Longrightarrow> ea_sessions ?ea' o2 = ea_sessions ?ea o2"
    "\<And>sid. find_session sid ?ea' = (if sid = ss_mSid s then None else find_session sid ?ea)"
    "ea_msgs ?ea' i = ea_msgs ?ea i" "i \<in> set (ea_mOutputResultQueue ?ea') \<longleftrightarrow> i \<in> set (ea_mOutputResultQueue ?ea)"
    using l s(1) out by (auto simp: leaves_def io_stored_def)
  have only: "find_session sid ?ea' \<noteq> Some o1" for sid
    using l'(3) sess_inv_obj [OF sinv, of o1] s(1) by (auto simp: obj_inv_def only_sid_def)
  have "occ_of ?ea' i sid \<le> occ_of ?ea i sid" for sid
    using l'(2,3) only [of sid] by (auto simp: occ_of_def split: option.splits)
  then have "occ_of ?ea' i sid + k \<le> b" if "occ_of ?ea i sid + k \<le> b" for sid k b
    using that by (meson add_le_mono1 order_trans)
  moreover have "ss_mWriting s2" if "ea_sessions ?ea' o2 = Some s2" "in_table ?ea' o2 s2" "i \<in> set (ss_mOutList s2)" for o2 s2
  proof -
    have "o2 \<noteq> o1" using that(2) only by (auto simp: in_table_def)
    moreover have "in_table ?ea o2 s2" using that(2) l'(3) by (auto simp: in_table_def split: if_splits)
    ultimately show ?thesis using that l'(2) d by (auto simp: io_deliver_inv_def)
  qed
  ultimately show ?thesis using d l'(1,4,5) by (auto simp: io_deliver_inv_def)
qed

lemma io_deliver_less: "io_deliver_inv i (Suc n) ia \<Longrightarrow> io_deliver_inv i n ia"
proof -
  assume d: "io_deliver_inv i (Suc n) ia"
  then obtain m where m: "ea_msgs (ia_ea ia) i = Some m" "Suc n \<le> length (Message_getToList m)"
    "\<forall>x. occ_of (ia_ea ia) i x + count_list (take (Suc n) (Message_getToList m)) x \<le> count_list (Message_getToList m) x"
    by (auto simp: io_deliver_inv_def)
  have "occ_of (ia_ea ia) i x + count_list (take n (Message_getToList m)) x \<le> count_list (Message_getToList m) x" for x
    using m(3) [rule_format, of x] count_take_le [of n "Message_getToList m" x] by linarith
  then show ?thesis using d m by (auto simp: io_deliver_inv_def)
qed

lemma io_deliver_ok:
  assumes "decoder_ok dec"
  shows "io_deliver_inv i n ia \<Longrightarrow> yields (io_deliver_inv i 0) (io_deliver dec fromSid i n ia)"
proof (induction n arbitrary: ia)
  case (Suc n)
  then obtain m where m: "ea_msgs (ia_ea ia) i = Some m" "Suc n \<le> length (Message_getToList m)"
    by (auto simp: io_deliver_inv_def)
  define sid where "sid = SidList_get (int n) (Message_getToList m)"
  have nth: "Message_getToList m ! n = sid" using m(2) by (simp add: sid_def SidList_get_def lst_get_nth)
  define failed where "failed = io_ea (\<lambda>ea. ea\<lparr> ea_msgs := (ea_msgs ea)(i \<mapsto> Message_addFailure sid
             (Message_setToList (snd (SidList_take (int n) (Message_getToList m))) m)) \<rparr>) ia"
  have f: "yields (io_deliver_inv i 0) (io_deliver dec fromSid i n failed)"
    unfolding failed_def by (rule Suc.IH) (rule io_deliver_fail [OF Suc.prems m(1)])
  show ?case
  proof (cases "find_session sid (ia_ea ia)")
    case None
    then show ?thesis using f m(1) by (simp add: get_msg_def Let_def sid_def [symmetric] failed_def)
  next
    case (Some o1)
    have inv: "io_inv ia" using Suc.prems by (simp add: io_deliver_inv_def)
    then have live: "io_live o1 ia" using Some by (rule io_find_live)
    have "sess_inv False (ia_ea ia)" using inv by (simp add: io_inv_parts)
    from find_session_object [OF this Some] obtain s where s: "ea_sessions (ia_ea ia) o1 = Some s" "ss_mSid s = sid" .
    have send: "yields (io_deliver_inv i 0) (res_bind (IocpCallback_addSend dec o1 ia) (\<lambda>(ok, ia1).
        res_bind (if ok then io_update o1 (\<lambda>s. s\<lparr> ss_mOutList := ss_mOutList s @ [i] \<rparr>) ia1
                  else unless_running o1 IocpHelper_doError ia1) (io_deliver dec fromSid i n)))"
    proof (rule yields_bind [OF addSend_soft [OF assms live]], clarify)
      fix ok and ia1 :: "'a iocp_arg"
      assume so: "soft_live_at o1 ia ia1" and wr: "\<forall>s. ea_sessions (ia_ea ia1) o1 = Some s \<longrightarrow> ss_mWriting s = ok"
      have soft: "soft (ia_ea ia) (ia_ea ia1)" and l1: "io_live o1 ia1" using so by (simp_all add: soft_live_at_def)
      have d1: "io_deliver_inv i (Suc n) ia1" using l1 by (intro io_deliver_soft [OF Suc.prems soft]) (simp add: io_live_def)
      have m1: "ea_msgs (ia_ea ia1) i = Some m" using soft m(1) by (simp add: soft_def)
      from io_get_live [OF l1] obtain s1 where
        s1: "io_get o1 ia1 = Inr s1" "ea_sessions (ia_ea ia1) o1 = Some s1" "in_table (ia_ea ia1) o1 s1" .
      from soft_session [OF soft s(1)] s1(2) s(2) have sid1: "ss_mSid s1 = sid" by (auto simp: sameS_def)
      show "yields (io_deliver_inv i 0) (res_bind (if ok then io_update o1 (\<lambda>s. s\<lparr> ss_mOutList := ss_mOutList s @ [i] \<rparr>) ia1
          else unless_running o1 IocpHelper_doError ia1) (io_deliver dec fromSid i n))"
      proof (cases ok)
        case True
        then have "io_deliver_inv i n (io_set o1 (s1\<lparr> ss_mOutList := ss_mOutList s1 @ [i] \<rparr>) ia1)"
          using wr s1(2) nth sid1 by (intro io_deliver_append [OF d1 m1 _ s1(2,3)]) simp_all
        then show ?thesis using True s1(1) Suc.IH by (simp add: io_update_def)
      next
        case False
        have "yields (io_deliver_inv i n) (unless_running o1 IocpHelper_doError ia1)"
        proof (rule unless_running_live [OF l1])
          show "io_deliver_inv i n ia1" by (rule io_deliver_less [OF d1])
          fix s2 assume s2: "ea_sessions (ia_ea ia1) o1 = Some s2" "\<not> ss_mRunning s2"
          then have w: "\<not> ss_mWriting s2" using wr False by simp
          show "yields (io_deliver_inv i n) (IocpHelper_doError o1 ia1)"
            by (rule yields_mono [OF doError_leaves [OF l1 s2]])
              (rule io_deliver_leaves [OF io_deliver_less [OF d1] l1 _ s2(1) w])
        qed
        then have "yields (io_deliver_inv i 0) (res_bind (unless_running o1 IocpHelper_doError ia1) (io_deliver dec fromSid i n))"
          by (rule yields_bind) (rule Suc.IH)
        then show ?thesis using False by simp
      qed
    qed
    from live s(1) have get: "io_get o1 ia = Inr s" by (simp add: io_get_def get_session_def)
    show ?thesis using f send m(1) Some get
      by (simp add: get_msg_def Let_def sid_def [symmetric] failed_def)
  qed
qed simp

lemma io_inv_complete:
  assumes "io_deliver_inv i 0 ia" "ea_msgs (ia_ea ia) i = Some m"
  shows "io_inv (if SidList_getCount (Message_getToList m) \<le> 0 then IocpHelper_doCompletion i ia else ia)"
proof (cases "Message_getToList m = []")
  case True
  let ?ea = "ia_ea ia"
  have inv: "sess_inv False ?ea" "msgs_inv False ?ea" "heap_ok (ia_mEventHeap ia) ?ea" "i \<notin> set (ea_mOutputResultQueue ?ea)"
    "\<forall>sid. occ_of ?ea i sid \<le> 0" "msg_ok m"
    using assms True io_msg_ok by (auto simp: io_deliver_inv_def io_inv_parts)
  have "msg_inv False (ea_msgs ?ea) (ea_mOutputResultQueue ?ea @ [i]) (occ_of ?ea) j" for j
  proof (cases "j = i")
    case eq: True
    have "count_list (ea_mOutputResultQueue ?ea) i = 0" using inv(4) by (simp add: count_list_0_iff)
    then show ?thesis using eq inv(5,6) assms(2) True by (simp add: msg_inv_def)
  next
    case False
    then have "msg_inv False (ea_msgs ?ea) (ea_mOutputResultQueue ?ea @ [i]) (occ_of ?ea) j =
      msg_inv False (ea_msgs ?ea) (ea_mOutputResultQueue ?ea) (occ_of ?ea) j" by (intro msg_inv_cong) simp_all
    then show ?thesis using inv(2) by (simp add: msgs_inv_def)
  qed
  then have "msgs_inv False (EventHelper_doCompletion i ?ea)" using inv(2)
    by (simp add: msgs_inv_def EventHelper_doCompletion_def)
  moreover have "sess_inv False (EventHelper_doCompletion i ?ea)" "heap_ok (ia_mEventHeap ia) (EventHelper_doCompletion i ?ea)"
    using inv(1,3) by (simp_all add: EventHelper_doCompletion_def)
  ultimately show ?thesis using True by (simp add: IocpHelper_doCompletion_def io_inv_parts)
next
  case False
  then show ?thesis using assms(1) by (simp add: io_deliver_inv_def)
qed

text \<open>A message enters the store with nobody's output list holding it.\<close>

lemma io_inv_new_msg:
  assumes "io_inv ia" "msg_ok m"
  shows "io_deliver_inv (ea_nextMsg (ia_ea ia)) (length (Message_getToList m))
    (io_ea (\<lambda>ea. ea\<lparr> ea_msgs := (ea_msgs ea)(ea_nextMsg ea \<mapsto> m), ea_nextMsg := ea_nextMsg ea + 1 \<rparr>) ia)"
proof -
  let ?ea = "ia_ea ia" let ?i = "ea_nextMsg ?ea"
  have inv: "sess_inv False ?ea" "msgs_inv False ?ea" "heap_ok (ia_mEventHeap ia) ?ea" using assms(1) by (simp_all add: io_inv_parts)
  then have none: "ea_msgs ?ea ?i = None" "\<And>j. msg_inv False (ea_msgs ?ea) (ea_mOutputResultQueue ?ea) (occ_of ?ea) j"
    by (simp_all add: msgs_inv_def)
  have zero: "\<forall>sid. occ_of ?ea ?i sid = 0" "?i \<notin> set (ea_mOutputResultQueue ?ea)"
    using none(2) [of ?i] none(1) by (simp_all add: msg_inv_def)
  then have q: "count_list (ea_mOutputResultQueue ?ea) ?i = 0" by (simp add: count_list_0_iff)
  have "msg_inv False ((ea_msgs ?ea)(?i \<mapsto> m)) (ea_mOutputResultQueue ?ea) (occ_of ?ea) j" for j
  proof (cases "j = ?i")
    case True
    then show ?thesis using zero q assms(2) by (simp add: msg_inv_def)
  next
    case False
    then have "msg_inv False ((ea_msgs ?ea)(?i \<mapsto> m)) (ea_mOutputResultQueue ?ea) (occ_of ?ea) j =
      msg_inv False (ea_msgs ?ea) (ea_mOutputResultQueue ?ea) (occ_of ?ea) j" by (intro msg_inv_cong) simp_all
    then show ?thesis using none(2) by simp
  qed
  then have "msgs_inv False (?ea\<lparr> ea_msgs := (ea_msgs ?ea)(?i \<mapsto> m), ea_nextMsg := ?i + 1 \<rparr>)"
    using inv(2) by (simp add: msgs_inv_def)
  moreover have "ss_mWriting s" if s: "ea_sessions ?ea o1 = Some s" "in_table ?ea o1 s" "?i \<in> set (ss_mOutList s)" for o1 s
    using zero(1) occ_of_in [OF s(1,2), of ?i] s(3) by (simp add: count_list_0_iff)
  ultimately show ?thesis using inv(1,3) zero by (auto simp: io_deliver_inv_def io_inv_parts in_table_def)
qed

lemma io_message_inv:
  assumes "decoder_ok dec" "io_inv ia" "msg_ok m"
  shows "yields io_inv (io_message dec fromSid m ia)"
proof -
  let ?i = "ea_nextMsg (ia_ea ia)"
  define ia1 where "ia1 = io_ea (\<lambda>ea. ea\<lparr> ea_msgs := (ea_msgs ea)(?i \<mapsto> m), ea_nextMsg := ?i + 1 \<rparr>) ia"
  have ia1_eq: "ia1 = io_ea (\<lambda>ea. ea\<lparr> ea_msgs := (ea_msgs ea)(ea_nextMsg ea \<mapsto> m), ea_nextMsg := ea_nextMsg ea + 1 \<rparr>) ia"
    by (simp add: ia1_def io_ea_def)
  have start: "io_deliver_inv ?i (length (Message_getToList m)) ia1"
    unfolding ia1_eq by (rule io_inv_new_msg [OF assms(2,3)])
  have "yields (io_deliver_inv ?i 0) (if 0 < Message_getTotalSize m
      then io_deliver dec fromSid ?i (nat (SidList_getCount (Message_getToList m))) ia1
      else Inr (io_ea (\<lambda>ea. ea\<lparr> ea_msgs := (ea_msgs ea)(?i \<mapsto> fail_all m) \<rparr>) ia1))"
  proof (cases "0 < Message_getTotalSize m")
    case True
    then show ?thesis using io_deliver_ok [OF assms(1) start] by (simp add: SidList_getCount_def)
  next
    case False
    have inv1: "io_inv ia1" "?i \<notin> set (ea_mOutputResultQueue (ia_ea ia1))" "ea_msgs (ia_ea ia1) ?i = Some m"
      using start by (simp_all add: io_deliver_inv_def) (simp add: ia1_def)
    have zero: "occ_of (ia_ea ia1) ?i sid = 0" for sid
      using start inv1(3) by (auto simp: io_deliver_inv_def)
    have "io_inv (io_ea (\<lambda>ea. ea\<lparr> ea_msgs := (ea_msgs ea)(?i \<mapsto> fail_all m) \<rparr>) ia1)"
      by (rule io_inv_set_msg [OF inv1(1,3,2)]) (use assms(3) fail_all_eq [of m] zero in simp_all)
    then show ?thesis using False start zero by (auto simp: io_deliver_inv_def in_table_def)
  qed
  then show ?thesis unfolding io_message_def Let_def ia1_def [symmetric]
  proof (rule yields_bind)
    fix ia2 :: "'a iocp_arg" assume d: "io_deliver_inv ?i 0 ia2"
    then obtain m2 where "ea_msgs (ia_ea ia2) ?i = Some m2" by (auto simp: io_deliver_inv_def)
    then show "yields io_inv (res_bind (get_msg (ea_msgs (ia_ea ia2)) ?i) (\<lambda>m2.
           Inr (if SidList_getCount (Message_getToList m2) \<le> 0 then IocpHelper_doCompletion ?i ia2 else ia2)))"
      using io_inv_complete [OF d] by (simp only: get_msg_def option.case res_bind_simps yields_Inr)
  qed
qed

lemma io_messages_inv:
  "decoder_ok dec \<Longrightarrow> io_inv ia \<Longrightarrow> list_all msg_ok ms \<Longrightarrow> yields io_inv (io_messages dec fromSid ms ia)"
proof (induction ms arbitrary: ia)
  case (Cons m ms)
  have "yields io_inv (io_message dec fromSid m ia)" using Cons.prems by (intro io_message_inv) simp_all
  then show ?case using Cons by (auto intro: yields_bind)
qed simp

lemma io_from_inv:
  assumes "decoder_ok dec" "io_inv ia"
  shows "yields io_inv (io_from dec sid ia)"
proof (cases "\<not> IocpHelper_isSystemSid sid \<and> find_session sid (ia_ea ia) \<noteq> None")
  case True
  then obtain o1 where o1: "find_session sid (ia_ea ia) = Some o1" by blast
  have live: "io_live o1 ia" by (rule io_find_live [OF assms(2) o1])
  have "yields io_inv (res_bind (io_update o1 (\<lambda>s. if ss_mStatus s = eWouldExit then s\<lparr> ss_mStatus := eExit \<rparr> else s) ia) (\<lambda>ia1.
            res_bind (io_get o1 ia1) (\<lambda>s.
              if ss_mStatus s = eNormal then
                res_bind (IocpCallback_addRecv o1 ia1) (\<lambda>(ok, ia2).
                  unless_running o1 (if ok then IocpHelper_doDecodeForWork dec else IocpHelper_doError) ia2)
              else Inr ia1)))"
  proof (rule yields_bind [OF update_live [OF live]], simp, simp)
    fix ia1 :: "'a iocp_arg" assume l1: "io_live o1 ia1"
    from io_get_live [OF l1] obtain s where s: "io_get o1 ia1 = Inr s" .
    have "yields io_inv (res_bind (IocpCallback_addRecv o1 ia1) (\<lambda>(ok, ia2).
        unless_running o1 (if ok then IocpHelper_doDecodeForWork dec else IocpHelper_doError) ia2))"
    proof (rule yields_bind [OF addRecv_live [OF l1]], clarify)
      fix ok and ia2 :: "'a iocp_arg" assume l2: "io_live o1 ia2"
      show "yields io_inv (unless_running o1 (if ok then IocpHelper_doDecodeForWork dec else IocpHelper_doError) ia2)"
        using stored_yields [OF unless_running_stored(1) [OF l2]] yields_mono [OF decode_live [OF assms(1) l2], of io_inv]
        by (simp add: io_live_def)
    qed
    then show "yields io_inv (res_bind (io_get o1 ia1) (\<lambda>s.
              if ss_mStatus s = eNormal then
                res_bind (IocpCallback_addRecv o1 ia1) (\<lambda>(ok, ia2).
                  unless_running o1 (if ok then IocpHelper_doDecodeForWork dec else IocpHelper_doError) ia2)
              else Inr ia1))" using s l1 by (simp add: io_live_def)
  qed
  then show ?thesis using True o1 by (simp add: io_from_def)
qed (use assms(2) in \<open>auto simp: io_from_def\<close>)

lemma io_close_from_inv:
  assumes "io_inv ia"
  shows "yields io_inv (io_close_from sid ia)"
proof (cases "\<not> IocpHelper_isSystemSid sid \<and> find_session sid (ia_ea ia) \<noteq> None")
  case True
  then obtain o1 where o1: "find_session sid (ia_ea ia) = Some o1" by blast
  have live: "io_live o1 ia" by (rule io_find_live [OF assms o1])
  from io_get_live [OF live] obtain s where "io_get o1 ia = Inr s" .
  then show ?thesis using True o1 assms stored_yields [OF unless_running_stored(3) [OF live]] by (simp add: io_close_from_def)
qed (use assms in \<open>auto simp: io_close_from_def\<close>)

lemma io_close_sessions_inv: "decoder_ok dec \<Longrightarrow> io_inv ia \<Longrightarrow> yields io_inv (io_close_sessions dec sids ia)"
proof (induction sids arbitrary: ia)
  case (Cons sid sids)
  show ?case
  proof (cases "find_session sid (ia_ea ia)")
    case None
    then show ?thesis using Cons by simp
  next
    case (Some o1)
    have "yields io_inv (res_bind (io_update o1 (\<lambda>s. s\<lparr> ss_mStatus := eExit \<rparr>) ia) (\<lambda>ia1.
          res_bind (IocpCallback_addSend dec o1 ia1) (\<lambda>(ok, ia2).
          res_bind (if ok then Inr ia2 else unless_running o1 IocpHelper_doError ia2)
            (io_close_sessions dec sids))))"
    proof (rule yields_bind [OF update_live [OF io_find_live [OF Cons.prems(2) Some]]], simp, simp)
      fix ia1 :: "'a iocp_arg" assume l1: "io_live o1 ia1"
      show "yields io_inv (res_bind (IocpCallback_addSend dec o1 ia1) (\<lambda>(ok, ia2).
          res_bind (if ok then Inr ia2 else unless_running o1 IocpHelper_doError ia2) (io_close_sessions dec sids)))"
      proof (rule yields_bind [OF addSend_live [OF Cons.prems(1) l1]], clarify)
        fix ok and ia2 :: "'a iocp_arg" assume l2: "io_live o1 ia2"
        have "yields io_inv (if ok then Inr ia2 else unless_running o1 IocpHelper_doError ia2)"
          using stored_yields [OF unless_running_stored(1) [OF l2]] l2 by (simp add: io_live_def)
        then show "yields io_inv (res_bind (if ok then Inr ia2 else unless_running o1 IocpHelper_doError ia2) (io_close_sessions dec sids))"
          by (rule yields_bind) (rule Cons.IH [OF Cons.prems(1)])
      qed
    qed
    then show ?thesis using Some by simp
  qed
qed simp

lemma io_onResponse_inv:
  assumes "decoder_ok dec" "io_inv ia" "response_ok r"
  shows "yields io_inv (IocpCallback_onResponse dec r ia)"
proof -
  have ms: "list_all msg_ok (Response_takeAll r)" using assms(3) by (simp add: response_ok_def Response_takeAll_eq)
  show ?thesis unfolding IocpCallback_onResponse_def
    by (rule yields_bind [OF io_from_inv [OF assms(1,2)]])
      (rule yields_bind [OF io_messages_inv [OF assms(1) _ ms]], assumption,
       rule yields_bind [OF io_close_from_inv], assumption, rule io_close_sessions_inv [OF assms(1)])
qed

subsection \<open>onAccept\<close>

lemma io_flag_simps [simp]:
  "io_flag k (s\<lparr> ss_mRunning := b \<rparr>) = io_flag k s" "io_flag k (s\<lparr> ss_mStatus := x \<rparr>) = io_flag k s"
  "io_flag k (s\<lparr> ss_mRequest := r \<rparr>) = io_flag k s" "io_flag k (s\<lparr> ss_readEv := b \<rparr>) = io_flag k s"
  "io_flag k (s\<lparr> ss_writeEv := b \<rparr>) = io_flag k s" "io_flag k (s\<lparr> ss_mOutList := l \<rparr>) = io_flag k s"
  by (cases k; simp)+

lemma io_doStart_inv:
  assumes "io_live o1 ia" "ea_sessions (ia_ea ia) o1 = Some s" "\<not> ss_mRunning s"
  shows "yields io_inv (IocpHelper_doStart o1 ia)"
proof -
  let ?ea = "push_task (Start o1) (set_session o1 (s\<lparr> ss_mRunning := True \<rparr>) (ia_ea ia))"
  have inv: "server_inv False (ia_ea ia)" "live_obj (ia_ea ia) o1" "heap_ok (ia_mEventHeap ia) (ia_ea ia)"
    using assms(1) by (simp_all add: io_live_def io_inv_def)
  have "server_inv False ?ea" using doStart_keeps [OF inv(1,2) assms(2,3)] assms(2)
    by (simp add: EventHelper_doStart_def get_session_def)
  moreover have "heap_ok (ia_mEventHeap ia) ?ea" using heap_ok_set [OF inv(3) assms(2)] by simp
  ultimately show ?thesis using assms(2) by (simp add: IocpHelper_doStart_def io_get_def get_session_def io_inv_def)
qed

lemma heap_ok_new:
  assumes "heap_ok h ea" "ea_sessions ea o1 = None"
    and "ea_sessions ea' = (ea_sessions ea)(o1 \<mapsto> s)"
    and "\<And>sid. find_session sid ea \<noteq> None \<Longrightarrow> find_session sid ea' = find_session sid ea"
  shows "heap_ok h ea'"
proof -
  have "\<exists>s2. ea_sessions ea' o2 = Some s2 \<and> in_table ea' o2 s2 \<and> io_flag k s2" if "(t, o2, k) \<in> set h" for t o2 k
  proof -
    from assms(1) that obtain s2 where s2: "ea_sessions ea o2 = Some s2" "in_table ea o2 s2" "io_flag k s2"
      by (force simp: heap_ok_def)
    with assms(2) have "o2 \<noteq> o1" by auto
    with s2 assms(3,4) show ?thesis by (auto simp: in_table_def)
  qed
  then show ?thesis using assms(1) by (simp add: heap_ok_def)
qed

lemma io_onAccept_inv:
  assumes dec: "decoder_ok dec" and inv: "io_inv ia"
  shows "if table_full (ia_ea ia) then IocpCallback_onAccept ac dec True d ip port ia = Inl AssertFail
    else yields io_inv (IocpCallback_onAccept ac dec True d ip port ia)"
proof -
  let ?ea = "ia_ea ia" let ?o1 = "ea_nextObj ?ea"
  have tab: "table_inv (ea_mSessionManager ?ea)" and sinv: "server_inv False ?ea" "heap_ok (ia_mEventHeap ia) ?ea"
    using inv by (simp_all add: io_inv_def server_inv_def sess_inv_def)
  show ?thesis
  proof (rule onAccept_table [OF tab, of _ ?o1], goal_cases)
    case (1 sq n)
    then show ?case by (simp add: IocpCallback_onAccept_def table_full_def)
  next
    case (2 key sq n n')
    define sid where "sid = \<lparr> sid_mKey = key, sid_mSeq = the sq \<rparr>"
    define s0 where "s0 = Session_new d sid"
    define s where "s = s0\<lparr> ss_mRequest := Request_setClientPort port (Request_setClientIP ip (ss_mRequest s0)) \<rparr>"
    have s: "ss_mSid s = sid" "\<not> ss_mRunning s" "ss_mOutList s = []"
      by (simp_all add: s_def s0_def Session_new_def)
    define ea1 where "ea1 = (set_session ?o1 s ?ea)\<lparr> ea_mSessionManager := n', ea_nextObj := ?o1 + 1 \<rparr>"
    have ea1: "server_inv False ea1" "live_obj ea1 ?o1" "ea_sessions ea1 ?o1 = Some s"
      using server_inv_new [OF sinv(1) refl, of s n'] s 2 by (simp_all add: ea1_def sid_def find_session_def)
    have gone: "ea_sessions ?ea ?o1 = None" using sinv(1) by (simp add: server_inv_def sess_inv_def)
    have "find_session x ea1 = find_session x ?ea" if "find_session x ?ea \<noteq> None" for x
      using that 2 by (auto simp: ea1_def find_session_def)
    then have heap: "heap_ok (ia_mEventHeap ia) ea1"
      by (intro heap_ok_new [OF sinv(2) gone, where s = s]) (simp_all add: ea1_def)
    define ia1 where "ia1 = ia\<lparr> ia_ea := ea1 \<rparr>"
    have ia1: "io_live ?o1 ia1" using ea1 heap by (simp add: ia1_def io_live_def io_inv_def)
    define msg where "msg = Message_append [CR, LF] (Message_append (cstr (ac_mRefusedMsg ac)) (Message_new 0))"
    have msg: "msg_ok msg" "Message_getToList msg = []"
      by (simp_all add: msg_def msg_ok_def Message_append_def Message_new_def Message_getFollowBlockList_def
          Message_getToList_def lazy_def MsgBlockList_new_def SidList_new_def)
    let ?s = "s\<lparr> ss_mOutList := [ea_nextMsg ?ea], ss_mStatus := eExit \<rparr>"
    define ea2 where "ea2 = (set_session ?o1 ?s ea1)\<lparr> ea_msgs := (ea_msgs ?ea)(ea_nextMsg ?ea \<mapsto> msg), ea_nextMsg := ea_nextMsg ?ea + 1 \<rparr>"
    have eq: "ea_msgs ea1 = ea_msgs ?ea" "ea_nextMsg ea1 = ea_nextMsg ?ea" by (simp_all add: ea1_def)
    have "server_inv False ea2" using refuse_keeps [OF ea1 s(3), of ?s msg] s msg unfolding eq ea2_def by simp
    moreover have "heap_ok (ia_mEventHeap ia) ea2" using heap_ok_set [OF heap ea1(3), of ?s] by (simp add: ea2_def)
    moreover have "live_obj ea2 ?o1" using ea1(2,3) by (simp add: ea2_def live_obj_def in_table_def)
    ultimately have ia2: "io_live ?o1 (ia\<lparr> ia_ea := ea2 \<rparr>)" by (simp add: io_live_def io_inv_def)
    have refuse: "yields io_inv (res_bind (IocpCallback_addSend dec ?o1 (ia\<lparr> ia_ea := ea2 \<rparr>)) (\<lambda>(ok, ia2). Inr ia2))"
      by (rule yields_bind [OF addSend_live [OF dec ia2]]) (auto simp: io_live_def)
    have "IocpCallback_onAccept ac dec True d ip port ia =
      (if ac_mMaxConnections ac < SessionManager_getCount n' \<or> ac_mReqQueueSize ac \<le> int (length (ea_mInputResultQueue ?ea))
       then res_bind (IocpCallback_addSend dec ?o1 (ia\<lparr> ia_ea := ea2 \<rparr>)) (\<lambda>(ok, ia2). Inr ia2)
       else IocpHelper_doStart ?o1 ia1)"
      using 2 unfolding IocpCallback_onAccept_def Let_def ia1_def ea2_def msg_def ea1_def s_def s0_def sid_def
      by (simp add: io_ea_def)
    moreover have "yields io_inv (IocpHelper_doStart ?o1 ia1)"
      by (rule io_doStart_inv [OF ia1 _ s(2)]) (use ea1(3) in \<open>simp add: ia1_def\<close>)
    moreover have "\<not> table_full ?ea" using 2 by (simp add: table_full_def)
    ultimately show ?case using refuse by simp
  qed
qed

subsection \<open>onTimeout\<close>

lemma heap_least_in: "heap_least h = Some e \<Longrightarrow> e \<in> set h"
  by (induction h arbitrary: e) (auto split: option.splits if_splits)

lemma io_timeouts_inv: "io_inv ia \<Longrightarrow> yields io_inv (io_timeouts n ia)"
proof (induction n arbitrary: ia)
  case (Suc n)
  show ?case
  proof (cases "heap_least (ia_mEventHeap ia)")
    case None
    then show ?thesis using Suc.prems by simp
  next
    case (Some e)
    obtain t o1 k where e: "e = (t, o1, k)" by (rule prod_cases3)
    have "(t, o1, k) \<in> set (ia_mEventHeap ia)" using heap_least_in [OF Some] e by simp
    then have "live_obj (ia_ea ia) o1" using Suc.prems by (force simp: io_inv_def heap_ok_def live_obj_def)
    then have live: "io_live o1 ia" using Suc.prems by (simp add: io_live_def)
    have "yields io_inv (res_bind (heap_erase o1 k ia) (\<lambda>ia1. res_bind (unless_running o1 IocpHelper_doTimeout ia1) (io_timeouts n)))"
    proof (rule yields_bind [OF io_live_erase [OF live]])
      fix ia1 :: "'a iocp_arg" assume "io_live o1 ia1 \<and> (\<forall>t. (t, o1, k) \<notin> set (ia_mEventHeap ia1))"
      then have "yields io_inv (unless_running o1 IocpHelper_doTimeout ia1)" by (blast intro: stored_yields unless_running_stored(2))
      then show "yields io_inv (res_bind (unless_running o1 IocpHelper_doTimeout ia1) (io_timeouts n))"
        by (rule yields_bind) (rule Suc.IH)
    qed
    then show ?thesis using Some e Suc.prems by simp
  qed
qed simp

text \<open>The rounds that \<open>onTimeout\<close> has are enough: no event that is due is left.\<close>

lemma heap_least_min:
  "heap_least h = None \<longleftrightarrow> h = []" "heap_least h = Some e \<Longrightarrow> x \<in> set h \<Longrightarrow> fst e \<le> fst x"
proof -
  show none: "heap_least h = None \<longleftrightarrow> h = []" for h by (cases h) (auto split: option.splits)
  show "heap_least h = Some e \<Longrightarrow> x \<in> set h \<Longrightarrow> fst e \<le> fst x"
    by (induction h arbitrary: e x) (auto simp: none split: option.splits if_splits, force+)
qed

lemma doTimeout_heap:
  assumes "unless_running o1 IocpHelper_doTimeout ia = Inr ia'"
  shows "ia_now ia' = ia_now ia \<and> length (ia_mEventHeap ia') \<le> length (ia_mEventHeap ia)"
  using assms
  by (auto simp: unless_running_def IocpHelper_doTimeout_def IocpHelper_fail_def leave_table_def heap_erase_def
      res_bind_eq_Inr_iff io_ea_def io_set_def split: if_splits intro: order_trans [OF length_filter_le])

lemma io_timeouts_done:
  "io_timeouts n ia = Inr ia' \<Longrightarrow> length (ia_mEventHeap ia) \<le> n \<Longrightarrow>
     ia_now ia' = ia_now ia \<and> list_all (\<lambda>e. ia_now ia' < fst e) (ia_mEventHeap ia')"
proof (induction n arbitrary: ia)
  case (Suc n)
  show ?case
  proof (cases "heap_least (ia_mEventHeap ia)")
    case None
    then show ?thesis using Suc.prems(1) by (auto simp: heap_least_min(1))
  next
    case (Some e)
    obtain t o1 k where e: "e = (t, o1, k)" by (rule prod_cases3)
    show ?thesis
    proof (cases "ia_now ia < t")
      case True
      then show ?thesis using Suc.prems(1) Some e heap_least_min(2) [OF Some]
        by (auto simp: list_all_iff intro: less_le_trans)
    next
      case False
      with Suc.prems(1) Some e obtain ia1 ia2 where r: "heap_erase o1 k ia = Inr ia1"
        "unless_running o1 IocpHelper_doTimeout ia1 = Inr ia2" "io_timeouts n ia2 = Inr ia'"
        by (auto simp: res_bind_eq_Inr_iff)
      have "(t, o1, k) \<in> set (ia_mEventHeap ia)" using heap_least_in [OF Some] e by simp
      then have "length (ia_mEventHeap ia1) < length (ia_mEventHeap ia)" "ia_now ia1 = ia_now ia"
        using r(1) by (auto simp: heap_erase_def split: if_splits intro!: length_filter_less)
      moreover have h2: "ia_now ia2 = ia_now ia1" "length (ia_mEventHeap ia2) \<le> length (ia_mEventHeap ia1)"
        using doTimeout_heap [OF r(2)] by simp_all
      ultimately have "length (ia_mEventHeap ia2) \<le> n" using Suc.prems(2) by linarith
      from Suc.IH [OF r(3) this] h2(1) \<open>ia_now ia1 = ia_now ia\<close> show ?thesis by metis
    qed
  qed
qed simp

subsection \<open>The workers\<close>

lemma worker_stage_effect:
  assumes "worker_stage initRet h st ea = Inr (st', ea')" "\<And>o1. st = Destroying o1 \<Longrightarrow> no_sid ea o1"
    and "ea_sessions ea o2 = Some s" "in_table ea o2 s"
  shows "ea_mSessionManager ea' = ea_mSessionManager ea \<and>
    (\<exists>s'. ea_sessions ea' o2 = Some s' \<and> ss_mSid s' = ss_mSid s \<and> (\<forall>k. io_flag k s' = io_flag k s))"
  using assms
  by (cases "(initRet, h, st, ea)" rule: worker_stage.cases)
    (auto simp: EventHelper_worker_def EventHelper_start_def EventHelper_error_def EventHelper_timeout_def
      EventHelper_myclose_def get_session_def update_session_def push_response_def res_bind_eq_Inr_iff Let_def
      no_sid_def in_table_def split: option.splits)

lemma io_stage_inv:
  assumes inv: "io_inv ia" and k: "k < length (ea_active (ia_ea ia))" and h: "handler_ok h"
  shows "yields io_inv (res_bind (worker_stage initRet h (ea_active (ia_ea ia) ! k) (ia_ea ia)) (\<lambda>p.
              Inr (io_ea (\<lambda>_. stage_result k p) ia)))"
proof -
  let ?ea = "ia_ea ia"
  have sinv: "server_inv False ?ea" "heap_ok (ia_mEventHeap ia) ?ea" "sess_inv False ?ea"
    using inv by (simp_all add: io_inv_def server_inv_def)
  from worker_stage_keeps [OF sinv(1) k h, of initRet] obtain st' ea' where
    w: "worker_stage initRet h (ea_active ?ea ! k) ?ea = Inr (st', ea')" "server_inv False (stage_result k (st', ea'))"
    by (auto simp: keeps_def res_bind_eq_Inr_iff)
  have doomed: "no_sid ?ea o1" if "ea_active ?ea ! k = Destroying o1" for o1
  proof -
    have "(o1, True) \<in># holders ?ea" using holders_split(1) [OF k] that by (simp add: opt_mset_def)
    from holder_doomed [OF sinv(3) this] show ?thesis by blast
  qed
  have "\<exists>s2. ea_sessions ea' o2 = Some s2 \<and> in_table ea' o2 s2 \<and> io_flag kd s2"
    if e: "(t, o2, kd) \<in> set (ia_mEventHeap ia)" for t o2 kd
  proof -
    from sinv(2) e obtain s2 where s2: "ea_sessions ?ea o2 = Some s2" "in_table ?ea o2 s2" "io_flag kd s2"
      by (force simp: heap_ok_def)
    from worker_stage_effect [OF w(1) doomed s2(1,2)] s2(2,3) show ?thesis
      by (auto simp: in_table_def find_session_def)
  qed
  then have "heap_ok (ia_mEventHeap ia) ea'" using sinv(2) by (simp add: heap_ok_def)
  then have "heap_ok (ia_mEventHeap ia) (stage_result k (st', ea'))" by (cases st') simp_all
  then show ?thesis using w by (simp add: io_inv_def)
qed

subsection \<open>The server\<close>

lemma io_completion_inv:
  assumes inv: "io_inv ia" and f: "\<And>ia1 :: 'd iocp_arg. io_live o1 ia1 \<Longrightarrow> yields io_inv (f ia1)"
    and r: "io_completion k o1 f ia = Some r"
  shows "yields io_inv r"
proof -
  have key: "key_session o1 ia" and r': "r = res_bind (io_update o1 (io_take k) ia) f"
    using r io_inv_heap_live [OF inv] by (auto simp: io_completion_def loop_turn_def split: if_splits)
  have live: "io_live o1 ia" using key inv
    by (auto simp: key_session_def io_live_def live_obj_def in_table_def split: option.splits)
  have "yields (io_live o1) (io_update o1 (io_take k) ia)"
    by (rule update_live [OF live]) (cases k; simp add: io_take_def sameS_def)+
  then show ?thesis unfolding r' using f by (rule yields_bind)
qed

fun io_accepts :: "'d io_step \<Rightarrow> bool" where
  "io_accepts (IoAccept added d ip port) = True"
| "io_accepts _ = False"

text \<open>A connection that is accepted can be tied to the completion port.\<close>

fun io_added :: "'d io_step \<Rightarrow> bool" where
  "io_added (IoAccept added d ip port) = added"
| "io_added _ = True"

lemma io_step_inv:
  assumes dec: "decoder_ok dec" and inv: "io_inv ia" and step: "io_step ac dec st ia = Some r" "io_added st"
  shows "if io_accepts st \<and> table_full (ia_ea ia) then r = Inl AssertFail else yields io_inv r"
proof -
  have live: "heap_live ia" by (rule io_inv_heap_live [OF inv])
  have sinv: "server_inv False (ia_ea ia)" "heap_ok (ia_mEventHeap ia) (ia_ea ia)" using inv by (simp_all add: io_inv_def)
  show ?thesis
  proof (cases st)
    case (IoAccept added d ip port)
    then show ?thesis using step live io_onAccept_inv [OF dec inv, of ac d ip port] by (auto simp: io_step_def loop_turn_def)
  next
    case (IoRecvDone o1 e)
    then show ?thesis using step io_completion_inv [OF inv onRecv_inv [OF dec]] by (auto simp: io_step_def)
  next
    case (IoSendDone o1 rets err)
    have x: "yields io_inv (res_bind (heap_erase o1 IoSend ia1) (IocpCallback_onSend dec o1 rets err))" if "io_live o1 ia1" for ia1 :: "'a iocp_arg"
      by (rule yields_bind [OF io_live_erase [OF that]]) (rule onSend_inv [OF dec]; simp)
    show ?thesis using IoSendDone step io_completion_inv [OF inv x] by (auto simp: io_step_def)
  next
    case (IoFailed o1 k)
    have x: "yields io_inv (unless_running o1 IocpHelper_doClose ia1)" if "io_live o1 ia1" for ia1 :: "'a iocp_arg"
      by (rule stored_yields [OF unless_running_stored(3) [OF that]])
    show ?thesis using IoFailed step io_completion_inv [OF inv x] by (auto simp: io_step_def)
  next
    case IoResponse
    then obtain q rs where q: "ea_mResponseQueue (ia_ea ia) = q # rs"
      "r = IocpCallback_onResponse dec q (io_ea (\<lambda>ea. ea\<lparr> ea_mResponseQueue := rs \<rparr>) ia)"
      using step live by (auto simp: io_step_def loop_turn_def split: list.splits)
    from take_response_inv [OF sinv(1) q(1)] have "io_inv (io_ea (\<lambda>ea. ea\<lparr> ea_mResponseQueue := rs \<rparr>) ia)" "response_ok q"
      using sinv(2) by (simp_all add: io_inv_def)
    then show ?thesis using q(2) IoResponse io_onResponse_inv [OF dec] by simp
  next
    case IoTimeout
    then show ?thesis using step live io_timeouts_inv [OF inv]
      by (auto simp: io_step_def loop_turn_def IocpCallback_onTimeout_def)
  next
    case IoTakeTask
    then show ?thesis using step take_task_inv [OF sinv(1)] sinv(2)
      by (auto simp: io_step_def io_inv_def split: list.splits)
  next
    case (IoStage k initRet h)
    then show ?thesis using step io_stage_inv [OF inv, of k h initRet] by (auto simp: io_step_def split: if_splits)
  next
    case IoTakeCompleted
    then show ?thesis using step take_completed_inv [OF sinv(1)] sinv(2)
      by (auto simp: io_step_def get_msg_def io_inv_def split: list.splits)
  qed
qed

text \<open>The exact invariant of the other server implies the weak one; a new server satisfies both.\<close>

lemma server_inv_weak: "server_inv True ea \<Longrightarrow> server_inv False ea"
proof -
  have "obj_inv True ea o1 \<Longrightarrow> obj_inv False ea o1" for o1
    by (auto simp: obj_inv_def split: option.splits)
  moreover have "msg_inv False st q occ i" if a: "msg_inv True st q occ i" for st q occ i
  proof (cases "st i")
    case (Some m)
    with a have m: "msg_ok m" "(\<forall>x. occ i x = count_list (Message_getToList m) x) \<or>
        Message_getToList m = [] \<and> (\<exists>s0. \<forall>x. occ i x = (if x = s0 then 1 else 0))"
      "count_list q i = (if Message_getToList m = [] \<and> (\<forall>x. occ i x = 0) then 1 else 0)" by (simp_all add: msg_inv_def)
    from m(2) have "(\<forall>x. occ i x \<le> count_list (Message_getToList m) x) \<or>
        Message_getToList m = [] \<and> (\<exists>s0. \<forall>x. occ i x \<le> (if x = s0 then 1 else 0))" by (metis order_refl)
    with m(1,3) Some show ?thesis unfolding msg_inv_def by simp
  qed (use a in \<open>simp add: msg_inv_def\<close>)
  ultimately show "server_inv True ea \<Longrightarrow> server_inv False ea"
    by (auto simp: server_inv_def sess_inv_def msgs_inv_def)
qed

lemma io_inv_start: "io_inv (IocpEventArg_new timeout)"
  by (simp add: io_inv_def IocpEventArg_new_def heap_ok_def server_inv_weak [OF server_inv_start])

lemma io_inv_at [simp]: "io_inv (io_at now ws ia) = io_inv ia" "ia_ea (io_at now ws ia) = ia_ea ia"
  by (simp_all add: io_inv_def io_at_def)

definition io_timed_step :: "accept_arg \<Rightarrow> 'd io_decoder \<Rightarrow> nat \<times> wsa list \<times> 'd io_step \<Rightarrow> 'd iocp_arg \<Rightarrow> 'd iocp_arg res option" where
  "io_timed_step ac dec = (\<lambda>(now, ws, st) ia. io_step ac dec st (io_at now ws ia))"

lemma io_run_steps: "io_run ac dec sts ia = run_steps (io_timed_step ac dec) sts ia"
  by (induction sts arbitrary: ia) (auto split: option.splits sum.splits simp: res_bind_def io_timed_step_def)

interpretation io: stepper "io_timed_step ac dec" "\<lambda>(now, ws, st). decoder_ok dec \<and> io_added st" io_inv
    "\<lambda>f x ia. case x of (now, ws, st) \<Rightarrow> f = AssertFail \<and> io_accepts st \<and> table_full (ia_ea ia)" for ac :: accept_arg and dec :: "'d io_decoder"
proof
  fix ia :: "'d iocp_arg" and x :: "nat \<times> wsa list \<times> 'd io_step" and r
  obtain now ws st where x: "x = (now, ws, st)" by (rule prod_cases3)
  assume "io_inv ia" "case x of (now, ws, st) \<Rightarrow> decoder_ok dec \<and> io_added st" "io_timed_step ac dec x ia = Some r"
  then have a: "io_inv (io_at now ws ia)" "decoder_ok dec" "io_added st" "io_step ac dec st (io_at now ws ia) = Some r"
    using x by (simp_all add: io_timed_step_def)
  from io_step_inv [OF a(2,1,4,3)] x
  show "case r of Inr ia' \<Rightarrow> io_inv ia'
    | Inl f \<Rightarrow> case x of (now, ws, st) \<Rightarrow> f = AssertFail \<and> io_accepts st \<and> table_full (ia_ea ia)"
    by (auto simp: yields_def split: if_splits)
qed

lemma io_run_inv:
  assumes "io_inv ia" "decoder_ok dec" "list_all (\<lambda>(now, ws, st). io_added st) sts"
  shows "case io_run ac dec sts ia of
     Inr ia' \<Rightarrow> io_inv ia'
   | Inl f \<Rightarrow> f = AssertFail \<and> (\<exists>before now ws st after ia'. sts = before @ (now, ws, st) # after \<and>
       io_run ac dec before ia = Inr ia' \<and> io_accepts st \<and> table_full (ia_ea ia'))"
proof -
  have "list_all (\<lambda>(now, ws, st). decoder_ok dec \<and> io_added st) sts" using assms(2,3) by (auto simp: list_all_iff)
  note inv = io.run_inv [OF assms(1) this, of ac, folded io_run_steps]
  show ?thesis
  proof (cases "io_run ac dec sts ia")
    case (Inl f)
    with inv obtain before x after ia' where b: "sts = before @ x # after" "io_run ac dec before ia = Inr ia'"
      "case x of (now, ws, st) \<Rightarrow> f = AssertFail \<and> io_accepts st \<and> table_full (ia_ea ia')"
      by (auto simp: faulted_def io_run_steps)
    obtain now ws st where "x = (now, ws, st)" by (rule prod_cases3)
    with b have "f = AssertFail" "sts = before @ (now, ws, st) # after" "io_accepts st" "table_full (ia_ea ia')" by simp_all
    with b(2) show ?thesis unfolding Inl sum.case by blast
  qed (use inv in simp)
qed

subsection \<open>A lost message\<close>

definition io_byte_decoder :: "unit io_decoder" where
  "io_byte_decoder d buf = (case buf of [] \<Rightarrow> (DecMore, d, []) | x # xs \<Rightarrow> (DecOK, d, xs))"

lemma io_byte_decoder_ok: "decoder_ok io_byte_decoder"
  by (simp add: decoder_ok_def io_byte_decoder_def split: list.splits)

definition calmly :: "'d io_step list \<Rightarrow> (nat \<times> wsa list \<times> 'd io_step) list" where
  "calmly sts = map (\<lambda>st. (0, [], st)) sts"

text \<open>
  A client connects, sends one request and closes its side of the connection at once; the reply is
  in the output list of the session when the loop sees the close.
\<close>

definition lost_steps :: "sp_sid \<Rightarrow> unit io_step list" where
  "lost_steps sid = [IoAccept True () [] 0, IoTakeTask, IoStage 0 0 silent_result, IoStage 0 0 silent_result,
     IoStage 0 0 silent_result, IoStage 0 0 silent_result, IoResponse, IoRecvDone 0 (IoData ''1''), IoTakeTask,
     IoStage 0 0 (reply_result sid ''one''), IoStage 0 0 (reply_result sid ''one''), IoStage 0 0 (reply_result sid ''one''),
     IoResponse, IoRecvDone 0 (IoData []), IoTakeTask, IoStage 0 0 silent_result, IoStage 0 0 silent_result]"

lemma io_accept_first:
  assumes "1 \<le> ac_mMaxConnections ac" "1 \<le> ac_mReqQueueSize ac"
  shows "\<exists>sid mgr mgr'. session_of mgr = [sid \<mapsto> 0] \<and> session_of mgr' = Map.empty \<and> IocpHelper_isSystemSid sid = False \<and>
    SessionManager_remove (sid_mKey sid) (sid_mSeq sid) mgr = Inr (Some 0, mgr') \<and>
    io_step ac dec (IoAccept True d ip port) (io_at 0 [] (IocpEventArg_new 0)) = Some (Inr
      \<lparr> ia_ea = \<lparr> ea_mSessionManager = mgr,
         ea_sessions = [0 \<mapsto> (Session_new d sid)\<lparr> ss_mRunning := True,
           ss_mRequest := Request_setClientPort port (Request_setClientIP ip (Request_new d)) \<rparr>],
         ea_msgs = Map.empty, ea_mInputResultQueue = [Start 0], ea_mOutputResultQueue = [],
         ea_mResponseQueue = [], ea_active = [], ea_nextObj = 1, ea_nextMsg = 0 \<rparr>,
       ia_mEventHeap = [], ia_mTimeout = 0, ia_now = 0, ia_wsa = [] \<rparr>)"
proof (rule first_session)
  fix key sq n mgr mgr'
  assume k: "SessionManager_allocKey (SessionManager_new :: obj session_manager) = Inr (key, sq, n)"
    "key \<noteq> 0" "SessionManager_put key (the sq) 0 n = Inr mgr" "SessionManager_getCount mgr = 1"
    "session_of mgr = [\<lparr> sid_mKey = key, sid_mSeq = the sq \<rparr> \<mapsto> 0]" "eColPerRow \<le> unat key"
    "SessionManager_remove key (the sq) mgr = Inr (Some 0, mgr')" "session_of mgr' = Map.empty"
  let ?sid = "\<lparr> sid_mKey = key, sid_mSeq = the sq \<rparr>"
  have "IocpHelper_isSystemSid ?sid = False"
    using k(6) by (auto simp: IocpHelper_isSystemSid_def eTimerKey_def eColPerRow_def)
  then show ?thesis
    using assms k(2,5,7,8)
    by (intro exI [of _ ?sid] exI [of _ mgr] exI [of _ mgr'])
      (simp add: io_step_def loop_turn_def heap_live_def io_at_def IocpCallback_onAccept_def IocpEventArg_new_def EventArg_new_def
        k(1,3,4) Let_def IocpHelper_doStart_def
        io_ea_def io_get_def io_set_def get_session_def set_session_def push_task_def Session_new_def Request_new_def)
qed

lemmas io_run_simps = io_step_def loop_turn_def io_completion_def io_owes_def key_session_def io_update_def io_take_def
  io_at_def io_get_def io_set_def io_ea_def heap_live_def heap_erase_def IocpCallback_onRecv_def IocpCallback_onResponse_def
  io_from_def io_close_from_def io_message_def IocpCallback_addRecv_def IocpCallback_addSend_def unless_running_def
  IocpHelper_doDecodeForWork_def IocpHelper_doWork_def IocpHelper_doClose_def leave_table_def io_post_def push_timeout_def
  IocpHelper_doCompletion_def io_byte_decoder_def

lemmas io_msg_simps = get_msg_def SidList_getCount_def SidList_get_def lst_get_def lst_index_def LAST_INDEX_def
  Message_append_def Message_new_def Message_setToList_def Message_getToList_def Message_getTotalSize_def Message_getMsg_def
  Message_getSuccess_def Message_getFailure_def msg_ok_def Message_getFollowBlockList_def MsgBlockList_new_def del_at_def

lemma small_server_ok: "1 \<le> ac_mMaxConnections small_server" "1 \<le> ac_mReqQueueSize small_server"
  by (simp_all add: small_server_def)

lemma lost_run:
  "\<exists>sid ia m. io_run small_server io_byte_decoder (calmly (lost_steps sid)) (IocpEventArg_new 0) = Inr ia \<and>
     ea_sessions (ia_ea ia) = Map.empty \<and> ea_active (ia_ea ia) = [] \<and> ea_mInputResultQueue (ia_ea ia) = [] \<and>
     ea_mResponseQueue (ia_ea ia) = [] \<and> ea_mOutputResultQueue (ia_ea ia) = [] \<and>
     ea_msgs (ia_ea ia) 0 = Some m \<and> Message_getToList m = [sid] \<and> Message_getSuccess m = [] \<and> Message_getFailure m = []"
proof -
  from io_accept_first [OF small_server_ok, of io_byte_decoder "()" "[]" 0] obtain sid mgr mgr' where
    a: "session_of mgr = [sid \<mapsto> 0]" "session_of mgr' = Map.empty" "IocpHelper_isSystemSid sid = False"
      "SessionManager_remove (sid_mKey sid) (sid_mSeq sid) mgr = Inr (Some 0, mgr')" and
    first: "io_step small_server io_byte_decoder (IoAccept True () [] 0) (io_at 0 [] (IocpEventArg_new 0)) = Some (Inr
      \<lparr> ia_ea = \<lparr> ea_mSessionManager = mgr,
         ea_sessions = [0 \<mapsto> (Session_new () sid)\<lparr> ss_mRunning := True,
           ss_mRequest := Request_setClientPort 0 (Request_setClientIP [] (Request_new ())) \<rparr>],
         ea_msgs = Map.empty, ea_mInputResultQueue = [Start 0], ea_mOutputResultQueue = [],
         ea_mResponseQueue = [], ea_active = [], ea_nextObj = 1, ea_nextMsg = 0 \<rparr>,
       ia_mEventHeap = [], ia_mTimeout = 0, ia_now = 0, ia_wsa = [] \<rparr>)" by blast
  show ?thesis
    unfolding calmly_def lost_steps_def list.map io_run.simps first option.case res_bind_simps
    by (rule exI [of _ sid]) (simp add: a io_run_simps run_simps silent_result_def reply_result_def Session_new_def
      stage_result_def io_msg_simps EventHelper_myclose_def)
qed

text \<open>
  A client sends a request and breaks the connection while the handler runs; the handler has
  nothing to reply.
\<close>

definition hang_steps :: "unit io_step list" where
  "hang_steps = [IoAccept True () [] 0, IoTakeTask, IoStage 0 0 silent_result, IoStage 0 0 silent_result,
     IoStage 0 0 silent_result, IoStage 0 0 silent_result, IoResponse, IoRecvDone 0 (IoData ''1''), IoTakeTask,
     IoFailed 0 IoRecv, IoStage 0 0 silent_result, IoStage 0 0 silent_result, IoStage 0 0 silent_result, IoResponse]"

lemma hang_run:
  "\<exists>ia s. io_run small_server io_byte_decoder (calmly hang_steps) (IocpEventArg_new 0) = Inr ia \<and>
     key_session 0 ia \<and> ea_sessions (ia_ea ia) 0 = Some s \<and> \<not> ss_mRunning s \<and> ss_mReading s \<and>
     \<not> ss_readEv s \<and> \<not> ss_writeEv s \<and> ia_mEventHeap ia = [] \<and>
     ea_mInputResultQueue (ia_ea ia) = [] \<and> ea_active (ia_ea ia) = [] \<and> ea_mResponseQueue (ia_ea ia) = []"
proof -
  from io_accept_first [OF small_server_ok, of io_byte_decoder "()" "[]" 0] obtain sid mgr where
    a: "session_of mgr = [sid \<mapsto> 0]" "IocpHelper_isSystemSid sid = False" and
    first: "io_step small_server io_byte_decoder (IoAccept True () [] 0) (io_at 0 [] (IocpEventArg_new 0)) = Some (Inr
      \<lparr> ia_ea = \<lparr> ea_mSessionManager = mgr,
         ea_sessions = [0 \<mapsto> (Session_new () sid)\<lparr> ss_mRunning := True,
           ss_mRequest := Request_setClientPort 0 (Request_setClientIP [] (Request_new ())) \<rparr>],
         ea_msgs = Map.empty, ea_mInputResultQueue = [Start 0], ea_mOutputResultQueue = [],
         ea_mResponseQueue = [], ea_active = [], ea_nextObj = 1, ea_nextMsg = 0 \<rparr>,
       ia_mEventHeap = [], ia_mTimeout = 0, ia_now = 0, ia_wsa = [] \<rparr>)" by blast
  show ?thesis
    unfolding calmly_def hang_steps_def list.map io_run.simps first option.case res_bind_simps
    by (simp add: a io_run_simps run_simps silent_result_def Session_new_def stage_result_def io_msg_simps)
qed

subsection \<open>Properties\<close>

text \<open>
  C5: Whatever completions arrive, in whatever order the threads run and whatever the calls of the
  operating system answer, the server on completion ports runs without a fault as long as decoders
  answer eOK or eMoreData and accepted sockets can be tied to the port: no deleted session, event
  or message is touched; only the assertion of onAccept can fail, in a step that accepts while the
  table is full. Otherwise every session has its one holder, the timer heap holds each event of a
  session in the table at most once, and a message is completed at most once and only when no
  receiver is left.
\<close>

theorem iocp_run_safe:
  assumes "decoder_ok dec" "list_all (\<lambda>(now, ws, st). io_added st) steps"
  shows "case io_run ac dec steps (IocpEventArg_new timeout) of
     Inr ia \<Rightarrow> io_inv ia
   | Inl f \<Rightarrow> f = AssertFail \<and> (\<exists>before now ws st after ia. steps = before @ (now, ws, st) # after \<and>
       io_run ac dec before (IocpEventArg_new timeout) = Inr ia \<and> io_accepts st \<and> table_full (ia_ea ia))"
  by (rule io_run_inv [OF io_inv_start assms])

theorem iocp_run_safe_witness:
  "\<exists>sid ia. io_run small_server io_byte_decoder (calmly (lost_steps sid)) (IocpEventArg_new 0) = Inr ia \<and> io_inv ia"
proof -
  from lost_run obtain sid ia where
    r: "io_run small_server io_byte_decoder (calmly (lost_steps sid)) (IocpEventArg_new 0) = Inr ia" by blast
  have "list_all (\<lambda>(now, ws, st). io_added st) (calmly (lost_steps sid))" by (simp add: calmly_def lost_steps_def)
  from iocp_run_safe [OF io_byte_decoder_ok this, of small_server 0] r show ?thesis by auto
qed

text \<open>
  C39: A message can be lost. A client sends a request and closes its side of the connection at
  once; doClose, unlike doError, leaves the output list alone. In the end the session is deleted,
  every queue is empty and no thread has anything to do, and the reply is neither completed nor
  failed: the completion handler never sees it and it is never deleted.
\<close>

theorem iocp_message_lost:
  "\<exists>sid ia m. io_run small_server io_byte_decoder (calmly (lost_steps sid)) (IocpEventArg_new 0) = Inr ia \<and>
     ea_sessions (ia_ea ia) = Map.empty \<and> ea_active (ia_ea ia) = [] \<and> ea_mInputResultQueue (ia_ea ia) = [] \<and>
     ea_mResponseQueue (ia_ea ia) = [] \<and> ea_mOutputResultQueue (ia_ea ia) = [] \<and>
     ea_msgs (ia_ea ia) 0 = Some m \<and> Message_getToList m = [sid] \<and> Message_getSuccess m = [] \<and> Message_getFailure m = []"
  by (rule lost_run)

text \<open>
  A session can hang. When the receive of a session fails while a handler runs for it, the
  failure is dropped and mReading stays set: afterwards no completion is owed, no task and no
  response is on its way, addRecv posts no further receive, and without a timeout the session
  stays in the table.
\<close>

theorem iocp_session_hangs:
  "\<exists>ia s. io_run small_server io_byte_decoder (calmly hang_steps) (IocpEventArg_new 0) = Inr ia \<and>
     key_session 0 ia \<and> ea_sessions (ia_ea ia) 0 = Some s \<and> \<not> ss_mRunning s \<and> ss_mReading s \<and>
     \<not> ss_readEv s \<and> \<not> ss_writeEv s \<and> ia_mEventHeap ia = [] \<and>
     ea_mInputResultQueue (ia_ea ia) = [] \<and> ea_active (ia_ea ia) = [] \<and> ea_mResponseQueue (ia_ea ia) = []"
  by (rule hang_run)

end
