(* ===== verification/SP_Dispatcher.thy ===== *)
theory SP_Dispatcher
  imports SP_ServerRun
begin

text \<open>
  \<open>SP_Dispatcher\<close> (spdispatcher.cpp): the event loop of speventcb.cpp without an acceptor. Threads
  push connected sockets, timers and responses; the loop thread takes the pushed items from
  \<open>mPushQueue\<close>, opens sessions and arms timers; a timer that is due becomes a task, and the worker
  that runs it calls the user's handler and pushes the timer again or deletes it. An
  \<open>SP_PushArg_t\<close> is reached by the push queue, the armed event, a task and a worker: it is an object
  of a store, and reading a freed one is the fault \<open>UseAfterFree\<close>.
\<close>

subsection \<open>The state\<close>

type_synonym timer = nat

text \<open>
  An \<open>SP_PushArg_t\<close> for a socket is owned by the queue until \<open>onPush\<close> frees it, so it is a value: the
  state of its request's decoder and \<open>mNeedStart\<close>. One for a timer is an object.
\<close>

datatype 'd push_arg = PushFd 'd bool | PushTimer timer

text \<open>How far a worker is with \<open>timer( arg )\<close>.\<close>

datatype timer_stage =
    TimerTask timer
  | TimerAgain timer sp_response  \<comment> \<open>the handler answered 0: before \<open>msgqueue_push\<close> of \<open>arg\<close>\<close>
  | TimerEnd timer sp_response    \<comment> \<open>before \<open>free( pushArg )\<close>\<close>
  | TimerAnswer sp_response       \<comment> \<open>before the response is pushed\<close>

text \<open>
  \<open>dp_timers\<close> is the store of timers with their \<open>mTimeout\<close>, \<open>dp_armed\<close> are the events libevent holds
  with the time they are due, \<open>dp_timerTasks\<close> the timer tasks of the input queue. They have a list of
  their own: the executor runs tasks concurrently, so their order among the tasks of sessions has
  no effect. \<open>dp_now\<close> is the clock of libevent. The event loop below, \<open>dp_mEventArg\<close>, is a parameter of the type, because the dispatcher
  on completion ports does the same with timers.
\<close>

record ('d, 'e) dispatcher_of =
  dp_mEventArg :: 'e
  dp_mPushQueue :: "'d push_arg list"
  dp_timers :: "timer \<Rightarrow> nat option"
  dp_armed :: "(timer \<times> nat) list"
  dp_timerTasks :: "timer list"
  dp_running :: "timer_stage list"
  dp_nextTimer :: timer
  dp_now :: nat

type_synonym 'd dispatcher = "('d, 'd event_arg) dispatcher_of"

definition Dispatcher_new :: "'d dispatcher" where
  "Dispatcher_new = \<lparr> dp_mEventArg = EventArg_new, dp_mPushQueue = [], dp_timers = Map.empty, dp_armed = [],
     dp_timerTasks = [], dp_running = [], dp_nextTimer = 0, dp_now = 0 \<rparr>"

definition get_timer :: "timer \<Rightarrow> ('d, 'e) dispatcher_of \<Rightarrow> nat res" where
  "get_timer t dp = (case dp_timers dp t of None \<Rightarrow> Inl UseAfterFree | Some timeout \<Rightarrow> Inr timeout)"

subsection \<open>The calls of other threads\<close>

definition Dispatcher_push_fd :: "'d \<Rightarrow> bool \<Rightarrow> ('d, 'e) dispatcher_of \<Rightarrow> ('d, 'e) dispatcher_of" where
  "Dispatcher_push_fd d needStart dp = dp\<lparr> dp_mPushQueue := dp_mPushQueue dp @ [PushFd d needStart] \<rparr>"

definition Dispatcher_push_timer :: "nat \<Rightarrow> ('d, 'e) dispatcher_of \<Rightarrow> ('d, 'e) dispatcher_of" where
  "Dispatcher_push_timer timeout dp =
     (let t = dp_nextTimer dp in
      dp\<lparr> dp_timers := (dp_timers dp)(t \<mapsto> timeout), dp_nextTimer := t + 1,
          dp_mPushQueue := dp_mPushQueue dp @ [PushTimer t] \<rparr>)"

definition Dispatcher_push_response :: "sp_response \<Rightarrow> 'd dispatcher \<Rightarrow> 'd dispatcher" where
  "Dispatcher_push_response r dp = dp\<lparr> dp_mEventArg := push_response r (dp_mEventArg dp) \<rparr>"

subsection \<open>The loop thread\<close>

text \<open>
  The part of \<open>onPush\<close> for a socket: a session that either starts, like an accepted one, or waits
  for input and output at once. Nothing bounds the number of sessions but the table.
\<close>

definition Dispatcher_open :: "'d \<Rightarrow> bool \<Rightarrow> bytes \<Rightarrow> int \<Rightarrow> 'd event_arg \<Rightarrow> 'd event_arg res" where
  "Dispatcher_open d needStart ip port ea =
     res_bind (SessionManager_allocKey (ea_mSessionManager ea)) (\<lambda>(key, seq, mgr).
       if key = 0 then Inl AssertFail
       else
         let sid = \<lparr> sid_mKey = key, sid_mSeq = the seq \<rparr>;
             o1 = ea_nextObj ea;
             s0 = Session_new d sid;
             s = s0\<lparr> ss_mRequest := Request_setClientIP ip (Request_setClientPort port (ss_mRequest s0)) \<rparr>
         in res_bind (SessionManager_put key (the seq) o1 mgr) (\<lambda>mgr'.
           let ea1 = (set_session o1 s ea)\<lparr> ea_mSessionManager := mgr', ea_nextObj := o1 + 1 \<rparr>
           in if needStart then EventHelper_doStart o1 ea1
              else res_bind (update_session o1 (EventCallback_addEvent True False) ea1)
                     (update_session o1 (EventCallback_addEvent False True))))"

definition Dispatcher_arm :: "timer \<Rightarrow> nat \<Rightarrow> ('d, 'e) dispatcher_of \<Rightarrow> ('d, 'e) dispatcher_of" where
  "Dispatcher_arm t timeout dp =
     dp\<lparr> dp_armed := filter (\<lambda>(t2, _). t2 \<noteq> t) (dp_armed dp) @ [(t, dp_now dp + timeout)] \<rparr>"

definition Dispatcher_onPush :: "bytes \<Rightarrow> int \<Rightarrow> 'd push_arg \<Rightarrow> 'd dispatcher \<Rightarrow> 'd dispatcher res" where
  "Dispatcher_onPush ip port arg dp =
     (case arg of
        PushFd d needStart \<Rightarrow>
          res_bind (Dispatcher_open d needStart ip port (dp_mEventArg dp)) (\<lambda>ea. Inr (dp\<lparr> dp_mEventArg := ea \<rparr>))
      | PushTimer t \<Rightarrow> res_bind (get_timer t dp) (\<lambda>timeout. Inr (Dispatcher_arm t timeout dp)))"

definition Dispatcher_onTimer :: "timer \<Rightarrow> ('d, 'e) dispatcher_of \<Rightarrow> ('d, 'e) dispatcher_of res" where
  "Dispatcher_onTimer t dp =
     res_bind (get_timer t dp) (\<lambda>_. Inr (dp\<lparr> dp_timerTasks := dp_timerTasks dp @ [t] \<rparr>))"

subsection \<open>The workers\<close>

text \<open>
  \<open>timer( arg )\<close>: the handler answers, fills the response and may change the timeout; then the timer
  is pushed again or deleted, then the response is pushed, with \<open>push\<close>. A timer handler has no decoder.
\<close>

definition timer_handle :: "nat \<Rightarrow> unit handler_result \<Rightarrow> timer \<Rightarrow> ('d, 'e) dispatcher_of \<Rightarrow> (timer_stage \<times> ('d, 'e) dispatcher_of) res" where
  "timer_handle timeout h t dp =
     res_bind (get_timer t dp) (\<lambda>_.
       let response = fill_response h (Response_new \<lparr> sid_mKey = eTimerKey, sid_mSeq = eTimerSeq \<rparr>)
       in Inr (if hr_ret h = 0 then TimerAgain t response else TimerEnd t response,
               dp\<lparr> dp_timers := (dp_timers dp)(t \<mapsto> timeout) \<rparr>))"

fun timer_run :: "(sp_response \<Rightarrow> 'e \<Rightarrow> 'e) \<Rightarrow> nat \<Rightarrow> unit handler_result \<Rightarrow> timer_stage \<Rightarrow> ('d, 'e) dispatcher_of \<Rightarrow>
    (timer_stage option \<times> ('d, 'e) dispatcher_of) res" where
  "timer_run push timeout h (TimerTask t) dp =
     res_bind (timer_handle timeout h t dp) (\<lambda>(st, dp'). Inr (Some st, dp'))"
| "timer_run push timeout h (TimerAgain t r) dp =
     res_bind (get_timer t dp) (\<lambda>_.
       Inr (Some (TimerAnswer r), dp\<lparr> dp_mPushQueue := dp_mPushQueue dp @ [PushTimer t] \<rparr>))"
| "timer_run push timeout h (TimerEnd t r) dp =
     res_bind (get_timer t dp) (\<lambda>_. Inr (Some (TimerAnswer r), dp\<lparr> dp_timers := (dp_timers dp)(t := None) \<rparr>))"
| "timer_run push timeout h (TimerAnswer r) dp = Inr (None, dp\<lparr> dp_mEventArg := push r (dp_mEventArg dp) \<rparr>)"

definition Dispatcher_timer ::
    "nat \<Rightarrow> unit handler_result \<Rightarrow> timer_stage \<Rightarrow> 'd dispatcher \<Rightarrow> (timer_stage option \<times> 'd dispatcher) res" where
  "Dispatcher_timer = timer_run push_response"

definition running_result :: "nat \<Rightarrow> timer_stage option \<times> ('d, 'e) dispatcher_of \<Rightarrow> ('d, 'e) dispatcher_of" where
  "running_result k p = (case p of (st, dp) \<Rightarrow>
     dp\<lparr> dp_running := (case st of None \<Rightarrow> del_at k (dp_running dp) | Some st' \<Rightarrow> (dp_running dp)[k := st']) \<rparr>)"

subsection \<open>Interleaving\<close>

text \<open>
  \<open>DpLoop\<close> is a step of the event loop, its workers or the completion thread; there is no acceptor.
  \<open>DpElapse\<close> lets time pass.
\<close>

datatype 'd dp_step =
    DpLoop "'d server_step"
  | DpPushFd 'd bool
  | DpPushTimer nat
  | DpPushResponse sp_response
  | DpOnPush bytes int
  | DpElapse nat
  | DpOnTimer timer
  | DpTakeTimer
  | DpTimer nat nat "unit handler_result"

definition no_acceptor :: accept_arg where
  "no_acceptor = \<lparr> ac_mReqQueueSize = 0, ac_mMaxConnections = 0, ac_mRefusedMsg = [] \<rparr>"

definition on_loop :: "'d dispatcher \<Rightarrow> 'd event_arg res option \<Rightarrow> 'd dispatcher res option" where
  "on_loop dp r = map_option (\<lambda>r. res_bind r (\<lambda>ea. Inr (dp\<lparr> dp_mEventArg := ea \<rparr>))) r"

definition dp_step :: "'d decoder \<Rightarrow> 'd dp_step \<Rightarrow> 'd dispatcher \<Rightarrow> 'd dispatcher res option" where
  "dp_step dec step dp =
     (case step of
        DpLoop st \<Rightarrow> if is_accept st then None else on_loop dp (server_step no_acceptor dec st (dp_mEventArg dp))
      | DpPushFd d needStart \<Rightarrow> Some (Inr (Dispatcher_push_fd d needStart dp))
      | DpPushTimer timeout \<Rightarrow> Some (Inr (Dispatcher_push_timer timeout dp))
      | DpPushResponse r \<Rightarrow> if list_all msg_ok (rs_mList r) then Some (Inr (Dispatcher_push_response r dp)) else None
      | DpOnPush ip port \<Rightarrow>
          (case dp_mPushQueue dp of
             [] \<Rightarrow> None
           | a # as \<Rightarrow> Some (Dispatcher_onPush ip port a (dp\<lparr> dp_mPushQueue := as \<rparr>)))
      | DpElapse n \<Rightarrow> Some (Inr (dp\<lparr> dp_now := dp_now dp + n \<rparr>))
      | DpOnTimer t \<Rightarrow>
          (case map_of (dp_armed dp) t of
             None \<Rightarrow> None
           | Some due \<Rightarrow>
               if due \<le> dp_now dp
               then Some (Dispatcher_onTimer t (dp\<lparr> dp_armed := filter (\<lambda>(t2, _). t2 \<noteq> t) (dp_armed dp) \<rparr>))
               else None)
      | DpTakeTimer \<Rightarrow>
          (case dp_timerTasks dp of
             [] \<Rightarrow> None
           | t # ts \<Rightarrow> Some (Inr (dp\<lparr> dp_timerTasks := ts, dp_running := dp_running dp @ [TimerTask t] \<rparr>)))
      | DpTimer k timeout h \<Rightarrow>
          if k < length (dp_running dp) \<and> handler_ok h
          then Some (res_bind (Dispatcher_timer timeout h (dp_running dp ! k) dp) (\<lambda>p. Inr (running_result k p)))
          else None)"

definition dp_run :: "'d decoder \<Rightarrow> 'd dp_step list \<Rightarrow> 'd dispatcher \<Rightarrow> 'd dispatcher res" where
  "dp_run dec = run_steps (dp_step dec)"

subsection \<open>Where a timer is\<close>

fun push_timer :: "'d push_arg \<Rightarrow> timer option" where
  "push_timer (PushFd d needStart) = None"
| "push_timer (PushTimer t) = Some t"

fun stage_timer :: "timer_stage \<Rightarrow> timer option" where
  "stage_timer (TimerTask t) = Some t"
| "stage_timer (TimerAgain t r) = Some t"
| "stage_timer (TimerEnd t r) = Some t"
| "stage_timer (TimerAnswer r) = None"

fun timer_response :: "timer_stage \<Rightarrow> sp_response option" where
  "timer_response (TimerTask t) = None"
| "timer_response (TimerAgain t r) = Some r"
| "timer_response (TimerEnd t r) = Some r"
| "timer_response (TimerAnswer r) = Some r"

definition refs :: "('a \<Rightarrow> timer option) \<Rightarrow> 'a list \<Rightarrow> timer multiset" where
  "refs f xs = sum_list (map (\<lambda>x. opt_mset (f x)) xs)"

lemma refs_simps [simp]:
  "refs f [] = {#}" "refs f (x # xs) = opt_mset (f x) + refs f xs" "refs f (xs @ ys) = refs f xs + refs f ys"
  by (simp_all add: refs_def)

lemma opt_mset_simps [simp]: "opt_mset None = {#}" "opt_mset (Some x) = {#x#}"
  by (simp_all add: opt_mset_def)

lemma refs_at:
  assumes "k < length xs"
  shows "refs f xs = opt_mset (f (xs ! k)) + refs f (del_at k xs)"
    "refs f (xs[k := x]) = opt_mset (f x) + refs f (del_at k xs)"
  using sum_list_del_at [OF assms, of "\<lambda>x. opt_mset (f x)"]
    sum_list_del_at [of k "xs[k := x]" "\<lambda>x. opt_mset (f x)"] assms
  by (simp_all add: refs_def del_at_update)

text \<open>
  A stored timer is in one place: the push queue, the events of libevent, the tasks, or a worker. A
  freed one is in none.
\<close>

definition timer_refs :: "('d, 'e) dispatcher_of \<Rightarrow> timer multiset" where
  "timer_refs dp = refs push_timer (dp_mPushQueue dp) + mset (map fst (dp_armed dp)) +
     mset (dp_timerTasks dp) + refs stage_timer (dp_running dp)"

definition timers_inv :: "('d, 'e) dispatcher_of \<Rightarrow> bool" where
  "timers_inv dp \<longleftrightarrow>
     (\<forall>t. count (timer_refs dp) t = (if dp_timers dp t = None then 0 else 1)) \<and>
     (\<forall>t \<ge> dp_nextTimer dp. dp_timers dp t = None) \<and>
     list_all (\<lambda>st. \<forall>r. timer_response st = Some r \<longrightarrow> response_ok r) (dp_running dp)"

definition dp_inv :: "'d dispatcher \<Rightarrow> bool" where
  "dp_inv dp \<longleftrightarrow> server_inv True (dp_mEventArg dp) \<and> timers_inv dp"

lemma timers_inv_cong:
  assumes "timer_refs dp' = timer_refs dp" "dp_timers dp' = dp_timers dp" "dp_nextTimer dp' = dp_nextTimer dp"
    "dp_running dp' = dp_running dp"
  shows "timers_inv dp' = timers_inv dp"
  by (simp add: timers_inv_def assms)

lemma timers_inv_ea [simp]: "timers_inv (dp\<lparr> dp_mEventArg := ea \<rparr>) = timers_inv dp"
  by (rule timers_inv_cong) (simp_all add: timer_refs_def)

lemma timers_inv_now [simp]: "timers_inv (dp\<lparr> dp_now := n \<rparr>) = timers_inv dp"
  by (rule timers_inv_cong) (simp_all add: timer_refs_def)

text \<open>A reference to a timer is to a stored one, and it is the only one.\<close>

lemma ref_stored:
  assumes "timers_inv dp" "timer_refs dp = add_mset t rest"
  shows "\<exists>timeout. dp_timers dp t = Some timeout" "t \<notin># rest"
proof -
  have "count (timer_refs dp) t = (if dp_timers dp t = None then 0 else 1)" using assms(1) by (simp add: timers_inv_def)
  then show "\<exists>timeout. dp_timers dp t = Some timeout" "t \<notin># rest"
    using assms(2) by (auto simp: not_in_iff split: if_splits)
qed

lemma armed_split:
  assumes "map_of xs t = Some due"
  shows "t \<in># mset (map fst xs)" "distinct (map fst xs) \<Longrightarrow>
    mset (map fst xs) = add_mset t (mset (map fst (filter (\<lambda>(t2, _). t2 \<noteq> t) xs)))"
proof -
  show "t \<in># mset (map fst xs)" using map_of_SomeD [OF assms] by force
  assume d: "distinct (map fst xs)"
  have "mset (map fst (filter (\<lambda>(t2, _). t2 \<noteq> t) xs)) = filter_mset (\<lambda>x. x \<noteq> t) (mset (map fst xs))"
    by (induction xs) auto
  moreover have "count (mset (map fst xs)) t = 1"
    using d map_of_SomeD [OF assms] by (simp add: distinct_count_atmost_1 image_iff) (metis fst_conv)
  ultimately show "mset (map fst xs) = add_mset t (mset (map fst (filter (\<lambda>(t2, _). t2 \<noteq> t) xs)))"
    by (intro multiset_eqI) auto
qed

lemma armed_distinct: "timers_inv dp \<Longrightarrow> distinct (map fst (dp_armed dp))"
proof -
  assume inv: "timers_inv dp"
  have "count (mset (map fst (dp_armed dp))) t \<le> count (timer_refs dp) t" for t by (simp add: timer_refs_def)
  moreover have "count (timer_refs dp) t \<le> 1" for t using inv by (simp add: timers_inv_def)
  ultimately have "count (mset (map fst (dp_armed dp))) t \<le> 1" for t using order_trans by blast
  then show ?thesis unfolding distinct_count_atmost_1
    by (metis One_nat_def count_mset_0_iff le_Suc_eq le_zero_eq set_mset_mset)
qed

subsection \<open>Every step keeps the invariant\<close>

lemma Dispatcher_open_keeps:
  assumes inv: "server_inv True ea"
  shows "if table_full ea then Dispatcher_open d needStart ip port ea = Inl AssertFail
    else keeps True (Dispatcher_open d needStart ip port ea)"
proof -
  have tab: "table_inv (ea_mSessionManager ea)" using inv by (simp add: server_inv_def sess_inv_def)
  show ?thesis
  proof (rule onAccept_table [OF tab, of _ "ea_nextObj ea"], goal_cases)
    case (1 sq n)
    then show ?case by (simp add: Dispatcher_open_def table_full_def)
  next
    case (2 key sq n n')
    define sid where "sid = \<lparr> sid_mKey = key, sid_mSeq = the sq \<rparr>"
    define s where "s = (Session_new d sid)\<lparr> ss_mRequest := Request_setClientIP ip
      (Request_setClientPort port (ss_mRequest (Session_new d sid))) \<rparr>"
    define ea1 where "ea1 = (set_session (ea_nextObj ea) s ea)\<lparr> ea_mSessionManager := n', ea_nextObj := ea_nextObj ea + 1 \<rparr>"
    have s: "ss_mSid s = sid" "\<not> ss_mRunning s" "ss_mOutList s = []" by (simp_all add: s_def Session_new_def)
    have ea1: "server_inv True ea1" "live_obj ea1 (ea_nextObj ea)" "ea_sessions ea1 (ea_nextObj ea) = Some s"
      using server_inv_new [OF inv refl, of s n'] s 2 by (simp_all add: ea1_def sid_def find_session_def)
    have "keeps_live True (ea_nextObj ea) (res_bind (update_session (ea_nextObj ea) (EventCallback_addEvent True False) ea1)
        (update_session (ea_nextObj ea) (EventCallback_addEvent False True)))"
      using update_keeps_live [OF ea1(1,2), of "EventCallback_addEvent True False"]
      by (rule keeps_live_bind) (auto intro: update_keeps_live)
    then have "keeps True (res_bind (update_session (ea_nextObj ea) (EventCallback_addEvent True False) ea1)
        (update_session (ea_nextObj ea) (EventCallback_addEvent False True)))" by (rule keeps_live_keeps)
    moreover have "\<not> table_full ea" using 2 by (simp add: table_full_def)
    moreover have "Dispatcher_open d needStart ip port ea =
      (if needStart then EventHelper_doStart (ea_nextObj ea) ea1
       else res_bind (update_session (ea_nextObj ea) (EventCallback_addEvent True False) ea1)
         (update_session (ea_nextObj ea) (EventCallback_addEvent False True)))"
      using 2 unfolding Dispatcher_open_def Let_def ea1_def s_def sid_def by simp
    ultimately show ?case using doStart_keeps [OF ea1 s(2)] by simp
  qed
qed

definition dp_keeps :: "'d dispatcher res \<Rightarrow> bool" where
  "dp_keeps r \<longleftrightarrow> (\<exists>dp. r = Inr dp \<and> dp_inv dp)"

lemma on_loop_keeps: "timers_inv dp \<Longrightarrow> keeps True r \<Longrightarrow> dp_keeps (res_bind r (\<lambda>ea. Inr (dp\<lparr> dp_mEventArg := ea \<rparr>)))"
  by (auto simp: keeps_def dp_keeps_def dp_inv_def)

text \<open>A step that moves references to timers about and stores no other ones.\<close>

lemma timers_inv_move:
  assumes "timers_inv dp" "timer_refs dp' = timer_refs dp" "dp_nextTimer dp' = dp_nextTimer dp"
    "\<And>t. dp_timers dp' t = None \<longleftrightarrow> dp_timers dp t = None"
    "list_all (\<lambda>st. \<forall>r. timer_response st = Some r \<longrightarrow> response_ok r) (dp_running dp')"
  shows "timers_inv dp'"
  using assms by (simp add: timers_inv_def)

text \<open>What happens to timers alone, whatever the event loop below.\<close>

lemma arm_timers:
  assumes inv: "timers_inv dp" and q: "dp_mPushQueue dp = PushTimer t # as"
  shows "\<exists>timeout. get_timer t (dp\<lparr> dp_mPushQueue := as \<rparr>) = Inr timeout \<and>
    timers_inv (Dispatcher_arm t timeout (dp\<lparr> dp_mPushQueue := as \<rparr>))"
proof -
  let ?dp = "dp\<lparr> dp_mPushQueue := as \<rparr>"
  have r: "timer_refs dp = add_mset t (timer_refs ?dp)" using q by (simp add: timer_refs_def)
  from ref_stored [OF inv r] obtain timeout where t: "dp_timers dp t = Some timeout" "t \<notin># timer_refs ?dp" by blast
  then have "t \<notin> fst ` set (dp_armed dp)" by (auto simp: timer_refs_def)
  then have "filter (\<lambda>(t2, _). t2 \<noteq> t) (dp_armed dp) = dp_armed dp" by (force simp: filter_id_conv)
  then have "timer_refs (Dispatcher_arm t timeout ?dp) = timer_refs dp"
    unfolding r by (simp add: Dispatcher_arm_def timer_refs_def)
  then have "timers_inv (Dispatcher_arm t timeout ?dp)"
    by (intro timers_inv_move [OF inv]) (use inv in \<open>simp_all add: timers_inv_def Dispatcher_arm_def\<close>)
  then show ?thesis using t(1) by (simp add: get_timer_def)
qed

lemma push_timer_timers: "timers_inv dp \<Longrightarrow> timers_inv (Dispatcher_push_timer timeout dp)"
proof -
  assume inv: "timers_inv dp"
  let ?t = "dp_nextTimer dp"
  have "timer_refs (Dispatcher_push_timer timeout dp) = add_mset ?t (timer_refs dp)"
    by (simp add: Dispatcher_push_timer_def timer_refs_def Let_def)
  moreover have "count (timer_refs dp) ?t = 0" using inv by (simp add: timers_inv_def)
  ultimately show ?thesis using inv by (auto simp: timers_inv_def Dispatcher_push_timer_def Let_def)
qed

lemma push_fd_timers: "timers_inv dp \<Longrightarrow> timers_inv (Dispatcher_push_fd d needStart dp)"
  by (rule timers_inv_move) (simp_all add: Dispatcher_push_fd_def timer_refs_def timers_inv_def)

lemma pop_fd_timers:
  "timers_inv dp \<Longrightarrow> dp_mPushQueue dp = PushFd d needStart # as \<Longrightarrow> timers_inv (dp\<lparr> dp_mPushQueue := as \<rparr>)"
  by (rule timers_inv_move) (simp_all add: timer_refs_def timers_inv_def)

lemma onTimer_timers:
  assumes inv: "timers_inv dp" and a: "map_of (dp_armed dp) t = Some due"
  shows "\<exists>dp'. Dispatcher_onTimer t (dp\<lparr> dp_armed := filter (\<lambda>(t2, _). t2 \<noteq> t) (dp_armed dp) \<rparr>) = Inr dp' \<and>
    timers_inv dp' \<and> dp_mEventArg dp' = dp_mEventArg dp"
proof -
  let ?dp = "dp\<lparr> dp_armed := filter (\<lambda>(t2, _). t2 \<noteq> t) (dp_armed dp) \<rparr>"
  have r: "timer_refs dp = add_mset t (timer_refs ?dp)"
    using armed_split(2) [OF a armed_distinct [OF inv]] by (simp add: timer_refs_def)
  from ref_stored(1) [OF inv r] obtain timeout where t: "dp_timers dp t = Some timeout" by blast
  have "timers_inv (?dp\<lparr> dp_timerTasks := dp_timerTasks dp @ [t] \<rparr>)"
    by (intro timers_inv_move [OF inv]) (use inv r in \<open>simp_all add: timers_inv_def timer_refs_def\<close>)
  then show ?thesis using t by (simp add: Dispatcher_onTimer_def get_timer_def)
qed

lemma take_timer_timers:
  "timers_inv dp \<Longrightarrow> dp_timerTasks dp = t # ts \<Longrightarrow>
    timers_inv (dp\<lparr> dp_timerTasks := ts, dp_running := dp_running dp @ [TimerTask t] \<rparr>)"
  by (rule timers_inv_move) (simp_all add: timer_refs_def timers_inv_def)

lemma onPush_keeps:
  assumes inv: "dp_inv dp" and q: "dp_mPushQueue dp = a # as"
  shows "if table_full (dp_mEventArg dp) \<and> push_timer a = None
    then Dispatcher_onPush ip port a (dp\<lparr> dp_mPushQueue := as \<rparr>) = Inl AssertFail
    else dp_keeps (Dispatcher_onPush ip port a (dp\<lparr> dp_mPushQueue := as \<rparr>))"
proof -
  let ?dp = "dp\<lparr> dp_mPushQueue := as \<rparr>"
  have sinv: "server_inv True (dp_mEventArg dp)" and tinv: "timers_inv dp" using inv by (simp_all add: dp_inv_def)
  show ?thesis
  proof (cases a)
    case (PushFd d needStart)
    have "timers_inv ?dp" using pop_fd_timers [OF tinv] q PushFd by simp
    then show ?thesis using PushFd Dispatcher_open_keeps [OF sinv, of d needStart ip port] on_loop_keeps [of ?dp]
      by (simp add: Dispatcher_onPush_def)
  next
    case (PushTimer t)
    then show ?thesis using arm_timers [OF tinv, of t as] q sinv
      by (auto simp: Dispatcher_onPush_def dp_keeps_def dp_inv_def Dispatcher_arm_def)
  qed
qed

lemma onTimer_keeps:
  assumes inv: "dp_inv dp" and a: "map_of (dp_armed dp) t = Some due"
  shows "dp_keeps (Dispatcher_onTimer t (dp\<lparr> dp_armed := filter (\<lambda>(t2, _). t2 \<noteq> t) (dp_armed dp) \<rparr>))"
  using onTimer_timers [OF _ a] inv by (auto simp: dp_keeps_def dp_inv_def)

lemma timer_run_timers:
  assumes tinv: "timers_inv dp" and k: "k < length (dp_running dp)" and h: "handler_ok h"
  shows "\<exists>dp'. res_bind (timer_run push timeout h (dp_running dp ! k) dp) (\<lambda>p. Inr (running_result k p)) = Inr dp' \<and>
    timers_inv dp' \<and> (dp_mEventArg dp' = dp_mEventArg dp \<or>
      (\<exists>r. response_ok r \<and> dp_mEventArg dp' = push r (dp_mEventArg dp)))"
proof -
  define rest where "rest = refs push_timer (dp_mPushQueue dp) + mset (map fst (dp_armed dp)) + mset (dp_timerTasks dp) +
     refs stage_timer (del_at k (dp_running dp))"
  have r: "timer_refs dp = opt_mset (stage_timer (dp_running dp ! k)) + rest"
    unfolding timer_refs_def rest_def by (subst refs_at(1) [OF k]) simp
  note r' = refs_at(2) [OF k, of stage_timer]
  have ok: "list_all (\<lambda>st. \<forall>r. timer_response st = Some r \<longrightarrow> response_ok r) (dp_running dp)"
    using tinv by (simp add: timers_inv_def)
  have resp: "response_ok r" if "timer_response (dp_running dp ! k) = Some r" for r
    using ok k that by (auto simp: list_all_length)
  have upd: "list_all (\<lambda>st. \<forall>r. timer_response st = Some r \<longrightarrow> response_ok r) ((dp_running dp)[k := st])"
    if "\<And>r. timer_response st = Some r \<Longrightarrow> response_ok r" for st
    using ok that by (simp add: list_all_update)
  have stored: "\<exists>timeout. dp_timers dp t = Some timeout" "t \<notin># rest" if "stage_timer (dp_running dp ! k) = Some t" for t
    using ref_stored [OF tinv, of t rest] r that by simp_all
  show ?thesis
  proof (cases "dp_running dp ! k")
    case (TimerTask t)
    let ?r = "fill_response h (Response_new \<lparr> sid_mKey = eTimerKey, sid_mSeq = eTimerSeq \<rparr>)"
    let ?st = "if hr_ret h = 0 then TimerAgain t ?r else TimerEnd t ?r"
    let ?dp = "dp\<lparr> dp_timers := (dp_timers dp)(t \<mapsto> timeout), dp_running := (dp_running dp)[k := ?st] \<rparr>"
    from stored TimerTask obtain u where u: "dp_timers dp t = Some u" by auto
    have "timer_refs ?dp = timer_refs dp" unfolding r by (simp add: timer_refs_def rest_def r' TimerTask)
    then have "timers_inv ?dp"
      by (rule timers_inv_move [OF tinv]) (use u upd [of ?st] fill_response_ok [OF h] in \<open>auto split: if_splits\<close>)
    then show ?thesis using TimerTask u
      by (simp add: timer_handle_def get_timer_def running_result_def Let_def)
  next
    case (TimerAgain t r1)
    let ?dp = "dp\<lparr> dp_mPushQueue := dp_mPushQueue dp @ [PushTimer t], dp_running := (dp_running dp)[k := TimerAnswer r1] \<rparr>"
    from stored TimerAgain obtain u where u: "dp_timers dp t = Some u" by auto
    have "timer_refs ?dp = timer_refs dp" unfolding r by (simp add: timer_refs_def rest_def r' TimerAgain)
    then have "timers_inv ?dp"
      by (rule timers_inv_move [OF tinv]) (use u upd [of "TimerAnswer r1"] resp TimerAgain in auto)
    then show ?thesis using TimerAgain u by (simp add: get_timer_def running_result_def)
  next
    case (TimerEnd t r1)
    let ?dp = "dp\<lparr> dp_timers := (dp_timers dp)(t := None), dp_running := (dp_running dp)[k := TimerAnswer r1] \<rparr>"
    from stored TimerEnd obtain u where u: "dp_timers dp t = Some u" and gone: "t \<notin># rest" by auto
    have "timer_refs ?dp = rest" by (simp add: timer_refs_def rest_def r')
    have "timer_refs dp = add_mset t rest" using r TimerEnd by simp
    have one: "count (timer_refs dp) t2 = (if dp_timers dp t2 = None then 0 else 1)" for t2
      using tinv by (simp add: timers_inv_def)
    have "count rest t2 = (if dp_timers ?dp t2 = None then 0 else 1)" for t2
      using gone one [of t2] \<open>timer_refs dp = add_mset t rest\<close> by (auto simp: not_in_iff split: if_splits)
    then have "timers_inv ?dp" using \<open>timer_refs ?dp = rest\<close> tinv upd [of "TimerAnswer r1"] resp TimerEnd
      by (simp add: timers_inv_def)
    then show ?thesis using TimerEnd u by (simp add: get_timer_def running_result_def)
  next
    case (TimerAnswer r1)
    let ?dp = "dp\<lparr> dp_mEventArg := push r1 (dp_mEventArg dp), dp_running := del_at k (dp_running dp) \<rparr>"
    have "timer_refs ?dp = timer_refs dp" unfolding r by (simp add: timer_refs_def rest_def TimerAnswer)
    then have "timers_inv ?dp"
      by (rule timers_inv_move [OF tinv]) (use ok in \<open>auto intro: list_all_del_at\<close>)
    moreover have "response_ok r1" using resp TimerAnswer by simp
    ultimately show ?thesis using TimerAnswer by (auto simp: running_result_def)
  qed
qed

lemma timer_stage_keeps:
  assumes inv: "dp_inv dp" and k: "k < length (dp_running dp)" and h: "handler_ok h"
  shows "dp_keeps (res_bind (Dispatcher_timer timeout h (dp_running dp ! k) dp) (\<lambda>p. Inr (running_result k p)))"
  using timer_run_timers [OF _ k h, of push_response timeout] inv push_response_inv [of True "dp_mEventArg dp"]
  by (fastforce simp: dp_keeps_def dp_inv_def Dispatcher_timer_def)

fun opens_session :: "'d dp_step \<Rightarrow> bool" where
  "opens_session (DpOnPush ip port) = True"
| "opens_session _ = False"

lemma dp_step_keeps:
  assumes inv: "dp_inv dp" and step: "dp_step dec st dp = Some r"
  shows "r = Inl AssertFail \<and> opens_session st \<and> table_full (dp_mEventArg dp) \<or> dp_keeps r"
proof -
  have sinv: "server_inv True (dp_mEventArg dp)" and tinv: "timers_inv dp" using inv by (simp_all add: dp_inv_def)
  show ?thesis
  proof (cases st)
    case (DpLoop st1)
    then obtain r1 where r1: "server_step no_acceptor dec st1 (dp_mEventArg dp) = Some r1" "\<not> is_accept st1"
      "r = res_bind r1 (\<lambda>ea. Inr (dp\<lparr> dp_mEventArg := ea \<rparr>))"
      using step by (auto simp: dp_step_def on_loop_def split: if_splits)
    then show ?thesis using server_step_keeps [OF sinv r1(1)] on_loop_keeps [OF tinv] by simp
  next
    case (DpPushFd d needStart)
    have "timers_inv (Dispatcher_push_fd d needStart dp)" by (rule push_fd_timers [OF tinv])
    then show ?thesis using DpPushFd step sinv
      by (auto simp: dp_step_def dp_keeps_def dp_inv_def Dispatcher_push_fd_def)
  next
    case (DpPushTimer timeout)
    have "timers_inv (Dispatcher_push_timer timeout dp)" by (rule push_timer_timers [OF tinv])
    then show ?thesis using DpPushTimer step sinv
      by (auto simp: dp_step_def dp_keeps_def dp_inv_def Dispatcher_push_timer_def Let_def)
  next
    case (DpPushResponse r1)
    then show ?thesis using step tinv push_response_inv [OF sinv, of r1]
      by (auto simp: dp_step_def dp_keeps_def dp_inv_def Dispatcher_push_response_def response_ok_def split: if_splits)
  next
    case (DpOnPush ip port)
    then obtain a as where q: "dp_mPushQueue dp = a # as" "r = Dispatcher_onPush ip port a (dp\<lparr> dp_mPushQueue := as \<rparr>)"
      using step by (auto simp: dp_step_def split: list.splits)
    then show ?thesis using onPush_keeps [OF inv q(1), of ip port] DpOnPush by (simp split: if_splits)
  next
    case (DpElapse n)
    then show ?thesis using step sinv tinv by (auto simp: dp_step_def dp_keeps_def dp_inv_def)
  next
    case (DpOnTimer t)
    then show ?thesis using step onTimer_keeps [OF inv]
      by (auto simp: dp_step_def split: option.splits if_splits)
  next
    case DpTakeTimer
    then obtain t ts where q: "dp_timerTasks dp = t # ts"
      "r = Inr (dp\<lparr> dp_timerTasks := ts, dp_running := dp_running dp @ [TimerTask t] \<rparr>)"
      using step by (auto simp: dp_step_def split: list.splits)
    have "timers_inv (dp\<lparr> dp_timerTasks := ts, dp_running := dp_running dp @ [TimerTask t] \<rparr>)"
      by (rule take_timer_timers [OF tinv q(1)])
    then show ?thesis using q(2) sinv by (simp add: dp_keeps_def dp_inv_def)
  next
    case (DpTimer k timeout h)
    then show ?thesis using step timer_stage_keeps [OF inv, of k h timeout]
      by (auto simp: dp_step_def split: if_splits)
  qed
qed

lemma dp_inv_start: "dp_inv Dispatcher_new"
  by (simp add: dp_inv_def Dispatcher_new_def server_inv_start timers_inv_def timer_refs_def)

interpretation dp: stepper "dp_step dec" "\<lambda>_. True" dp_inv
    "\<lambda>f st dp. f = AssertFail \<and> opens_session st \<and> table_full (dp_mEventArg dp)" for dec :: "'d decoder"
proof
  fix dp :: "'d dispatcher" and st r
  assume "dp_inv dp" "dp_step dec st dp = Some r"
  from dp_step_keeps [OF this]
  show "case r of Inr dp' \<Rightarrow> dp_inv dp' | Inl f \<Rightarrow> f = AssertFail \<and> opens_session st \<and> table_full (dp_mEventArg dp)"
    by (auto simp: dp_keeps_def)
qed

lemma dp_run_inv:
  "case dp_run dec steps Dispatcher_new of
     Inr dp \<Rightarrow> dp_inv dp
   | Inl f \<Rightarrow> f = AssertFail \<and> (\<exists>before st after dp. steps = before @ st # after \<and>
       dp_run dec before Dispatcher_new = Inr dp \<and> opens_session st \<and> table_full (dp_mEventArg dp))"
  using dp.run_inv [OF dp_inv_start, of steps dec]
  by (auto simp: dp_run_def faulted_def list_all_iff split: sum.splits)

subsection \<open>The end of a dispatcher\<close>

text \<open>
  The thread that \<open>dispatch\<close> creates runs \<open>eventLoop\<close>; the destructor waits until \<open>mIsRunning\<close> is 0 and
  then the object is gone. \<open>dl_alive\<close> says that it is not; the calls of \<open>sleep\<close> are no steps.
\<close>

datatype loop_thread = LoopCreated | LoopTest | LoopEvents | LoopLeft | LoopGone

datatype dtor_thread = DtorCalled | DtorShutdown | DtorWait | DtorGone

record dp_life =
  dl_mIsShutdown :: bool
  dl_mIsRunning :: bool
  dl_alive :: bool
  dl_loop :: loop_thread
  dl_dtor :: dtor_thread

definition life_created :: dp_life where
  "life_created = \<lparr> dl_mIsShutdown = False, dl_mIsRunning = False, dl_alive = True, dl_loop = LoopCreated, dl_dtor = DtorCalled \<rparr>"

text \<open>The event loop has written \<open>mIsRunning\<close> when the destructor is called.\<close>

definition life_started :: dp_life where
  "life_started = life_created\<lparr> dl_mIsRunning := True, dl_loop := LoopTest \<rparr>"

definition Dispatcher_eventLoop :: "dp_life \<Rightarrow> dp_life res" where
  "Dispatcher_eventLoop l =
     (if \<not> dl_alive l then Inl UseAfterFree
      else Inr (case dl_loop l of
          LoopCreated \<Rightarrow> l\<lparr> dl_mIsRunning := True, dl_loop := LoopTest \<rparr>
        | LoopTest \<Rightarrow> l\<lparr> dl_loop := (if dl_mIsShutdown l then LoopLeft else LoopEvents) \<rparr>
        | LoopEvents \<Rightarrow> l\<lparr> dl_loop := LoopTest \<rparr>
        | LoopLeft \<Rightarrow> l\<lparr> dl_mIsRunning := False, dl_loop := LoopGone \<rparr>
        | LoopGone \<Rightarrow> l))"

definition Dispatcher_delete :: "dp_life \<Rightarrow> dp_life" where
  "Dispatcher_delete l =
     (case dl_dtor l of
        DtorCalled \<Rightarrow> l\<lparr> dl_dtor := DtorShutdown \<rparr>
      | DtorShutdown \<Rightarrow> l\<lparr> dl_mIsShutdown := True, dl_dtor := DtorWait \<rparr>
      | DtorWait \<Rightarrow> if dl_mIsRunning l then l else l\<lparr> dl_alive := False, dl_dtor := DtorGone \<rparr>
      | DtorGone \<Rightarrow> l)"

datatype life_step = LoopStep | DtorStep

definition life_step :: "life_step \<Rightarrow> dp_life \<Rightarrow> dp_life res option" where
  "life_step st l =
     (case st of
        LoopStep \<Rightarrow> if dl_loop l = LoopGone then None else Some (Dispatcher_eventLoop l)
      | DtorStep \<Rightarrow> Some (Inr (Dispatcher_delete l)))"

definition life_inv :: "dp_life \<Rightarrow> bool" where
  "life_inv l \<longleftrightarrow> dl_loop l \<noteq> LoopCreated \<and> (dl_mIsRunning l \<longleftrightarrow> dl_loop l \<noteq> LoopGone) \<and> (\<not> dl_alive l \<longrightarrow> dl_loop l = LoopGone)"

interpretation life: stepper life_step "\<lambda>_. True" life_inv "\<lambda>f st l. False"
proof
  fix l st r
  assume "life_inv l" "life_step st l = Some r"
  then show "case r of Inr l' \<Rightarrow> life_inv l' | Inl f \<Rightarrow> False"
    by (auto simp: life_inv_def life_step_def Dispatcher_eventLoop_def Dispatcher_delete_def
        split: life_step.splits loop_thread.splits dtor_thread.splits if_splits)
qed

text \<open>
  A timer goes round: it fires, the executor takes the tasks before it and then its own, and a worker
  runs the three stages of its handler.
\<close>

definition timer_turn :: "timer \<Rightarrow> nat \<Rightarrow> unit handler_result \<Rightarrow> 'd dispatcher \<Rightarrow> 'd dp_step list" where
  "timer_turn t timeout h dp =
     DpOnTimer t # replicate (length (dp_timerTasks dp) + 1) DpTakeTimer @
     replicate 3 (DpTimer (length (dp_running dp) + length (dp_timerTasks dp)) timeout h)"

lemma dp_run_simps [simp]:
  "dp_run dec [] dp = Inr dp"
  "dp_run dec (xs @ ys) dp = res_bind (dp_run dec xs dp) (dp_run dec ys)"
  by (simp_all add: dp_run_def run_steps_append)

lemma dp_run_Cons: "dp_step dec st dp = Some r \<Longrightarrow> dp_run dec (st # sts) dp = res_bind r (dp_run dec sts)"
  by (simp add: dp_run_def)

lemma take_tasks:
  "dp_run dec (replicate (length (dp_timerTasks dp)) DpTakeTimer) dp =
     Inr (dp\<lparr> dp_timerTasks := [], dp_running := dp_running dp @ map TimerTask (dp_timerTasks dp) \<rparr>)"
proof (induction "dp_timerTasks dp" arbitrary: dp)
  case (Cons t ts)
  let ?dp = "dp\<lparr> dp_timerTasks := ts, dp_running := dp_running dp @ [TimerTask t] \<rparr>"
  have "dp_step dec DpTakeTimer dp = Some (Inr ?dp)" using Cons.hyps(2) [symmetric] by (simp add: dp_step_def)
  moreover note Cons.hyps(1) [of ?dp]
  ultimately show ?case using Cons.hyps(2) [symmetric] by (simp add: dp_run_Cons)
qed simp

lemma timer_stages:
  fixes dp :: "'d dispatcher"
  assumes k: "dp_running dp = rs @ [TimerTask t]" "dp_timers dp t = Some u" and h: "handler_ok h"
  shows "dp_run dec (replicate 3 (DpTimer (length rs) timeout h)) dp = Inr (dp\<lparr> dp_running := rs,
    dp_timers := (dp_timers dp)(t := (if hr_ret h = 0 then Some timeout else None)),
    dp_mPushQueue := dp_mPushQueue dp @ (if hr_ret h = 0 then [PushTimer t] else []),
    dp_mEventArg := push_response (fill_response h (Response_new \<lparr> sid_mKey = eTimerKey, sid_mSeq = eTimerSeq \<rparr>)) (dp_mEventArg dp) \<rparr>)"
  using k h by (simp add: numeral_3_eq_3 dp_run_def dp_step_def Dispatcher_timer_def timer_handle_def get_timer_def
      running_result_def Let_def del_at_def nth_append)

lemma timer_turn_run:
  fixes dp :: "'d dispatcher"
  assumes inv: "dp_inv dp" and due: "map_of (dp_armed dp) t = Some due" "due \<le> dp_now dp" and h: "handler_ok h"
  shows "dp_run dec (timer_turn t timeout h dp) dp = Inr (dp\<lparr> dp_armed := filter (\<lambda>(t2, _). t2 \<noteq> t) (dp_armed dp),
    dp_timerTasks := [], dp_running := dp_running dp @ map TimerTask (dp_timerTasks dp),
    dp_timers := (dp_timers dp)(t := (if hr_ret h = 0 then Some timeout else None)),
    dp_mPushQueue := dp_mPushQueue dp @ (if hr_ret h = 0 then [PushTimer t] else []),
    dp_mEventArg := push_response (fill_response h (Response_new \<lparr> sid_mKey = eTimerKey, sid_mSeq = eTimerSeq \<rparr>)) (dp_mEventArg dp) \<rparr>)"
proof -
  have tinv: "timers_inv dp" using inv by (simp add: dp_inv_def)
  have "t \<in># timer_refs dp" using armed_split(1) [OF due(1)] by (simp add: timer_refs_def)
  then obtain u where u: "dp_timers dp t = Some u" using ref_stored(1) [OF tinv] by (metis insert_DiffM)
  let ?dp1 = "dp\<lparr> dp_armed := filter (\<lambda>(t2, _). t2 \<noteq> t) (dp_armed dp), dp_timerTasks := dp_timerTasks dp @ [t] \<rparr>"
  let ?dp2 = "?dp1\<lparr> dp_timerTasks := [], dp_running := dp_running dp @ map TimerTask (dp_timerTasks dp @ [t]) \<rparr>"
  let ?k = "length (dp_running dp) + length (dp_timerTasks dp)"
  have step: "dp_step dec (DpOnTimer t) dp = Some (Inr ?dp1)"
    using due u by (simp add: dp_step_def Dispatcher_onTimer_def get_timer_def)
  have take: "dp_run dec (replicate (length (dp_timerTasks dp) + 1) DpTakeTimer) ?dp1 = Inr ?dp2"
    using take_tasks [of dec ?dp1] by simp
  have "dp_run dec (timer_turn t timeout h dp) dp = dp_run dec (replicate 3 (DpTimer ?k timeout h)) ?dp2"
    unfolding timer_turn_def dp_run_Cons [OF step] res_bind_simps dp_run_simps take ..
  moreover note timer_stages [of ?dp2 "dp_running dp @ map TimerTask (dp_timerTasks dp)" t u h dec timeout]
  ultimately show ?thesis using h u by simp
qed

text \<open>
  Until \<open>onPush\<close> takes it and arms it, a timer in the push queue stays there and keeps its timeout,
  whatever the threads do.
\<close>

lemma map_of_filter_key: "map_of (filter (\<lambda>(t2, _). t2 \<noteq> t) xs) t = None"
  by (auto simp: map_of_eq_None_iff)

lemma queued_step:
  fixes dp :: "'d dispatcher"
  assumes inv: "dp_inv dp" and q: "PushTimer t \<in> set (dp_mPushQueue dp)" "dp_timers dp t = Some u"
    and step: "dp_step dec st dp = Some (Inr dp')"
  shows "PushTimer t \<in> set (dp_mPushQueue dp') \<and> dp_timers dp' t = Some u \<or>
    (\<exists>ip port. st = DpOnPush ip port) \<and> map_of (dp_armed dp') t = Some (dp_now dp + u)"
proof -
  have tinv: "timers_inv dp" using inv by (simp add: dp_inv_def)
  have new: "t < dp_nextTimer dp" using tinv q(2) unfolding timers_inv_def by (metis not_le option.distinct(1))
  have run: "t \<notin># refs stage_timer (dp_running dp)"
  proof
    assume "t \<in># refs stage_timer (dp_running dp)"
    moreover have "t \<in># refs push_timer (dp_mPushQueue dp)"
      using split_list [OF q(1)] by auto
    ultimately have "2 \<le> count (timer_refs dp) t"
      by (simp add: timer_refs_def Suc_le_eq numeral_2_eq_2 count_greater_zero_iff [symmetric] del: count_greater_zero_iff)
    then show False using tinv by (simp add: timers_inv_def split: if_splits)
  qed
  show ?thesis
  proof (cases st)
    case (DpLoop st1)
    then show ?thesis using step q by (auto simp: dp_step_def on_loop_def res_bind_eq_Inr_iff split: if_splits)
  next
    case (DpPushTimer n)
    then show ?thesis using step q new by (auto simp: dp_step_def Dispatcher_push_timer_def Let_def)
  next
    case (DpOnPush ip port)
    then obtain a as where a: "dp_mPushQueue dp = a # as"
      "Dispatcher_onPush ip port a (dp\<lparr> dp_mPushQueue := as \<rparr>) = Inr dp'"
      using step by (auto simp: dp_step_def split: list.splits)
    show ?thesis
    proof (cases "a = PushTimer t")
      case True
      then show ?thesis using a q DpOnPush by (auto simp: Dispatcher_onPush_def get_timer_def Dispatcher_arm_def map_of_append map_add_def map_of_filter_key)
    next
      case False
      then show ?thesis using a q
        by (auto simp: Dispatcher_onPush_def get_timer_def Dispatcher_arm_def res_bind_eq_Inr_iff split: push_arg.splits option.splits)
    qed
  next
    case (DpTimer k n h)
    then have k: "k < length (dp_running dp)"
      "res_bind (timer_run push_response n h (dp_running dp ! k) dp) (\<lambda>p. Inr (running_result k p)) = Inr dp'"
      using step by (simp_all add: dp_step_def Dispatcher_timer_def split: if_splits)
    have "stage_timer (dp_running dp ! k) \<noteq> Some t" using run refs_at(1) [OF k(1), of stage_timer] by auto
    then show ?thesis using k(2) q
      by (cases "dp_running dp ! k")
        (auto simp: timer_handle_def running_result_def get_timer_def Let_def split: option.splits)
  qed (use step q in \<open>auto simp: dp_step_def Dispatcher_push_fd_def Dispatcher_push_response_def Dispatcher_onTimer_def get_timer_def
      split: if_splits option.splits list.splits\<close>)
qed

lemma dp_run_inv_from: "dp_inv dp \<Longrightarrow> dp_run dec sts dp = Inr dp' \<Longrightarrow> dp_inv dp'"
  using dp.run_inv [of dp sts dec] by (simp add: dp_run_def list_all_iff)

lemma queued_run:
  fixes dp :: "'d dispatcher"
  assumes "dp_inv dp" "PushTimer t \<in> set (dp_mPushQueue dp)" "dp_timers dp t = Some u" "dp_run dec sts dp = Inr dp'"
  shows "PushTimer t \<in> set (dp_mPushQueue dp') \<and> dp_timers dp' t = Some u \<or>
    (\<exists>m1 ip port m2 dp3 dp4. sts = m1 @ DpOnPush ip port # m2 \<and> dp_run dec m1 dp = Inr dp3 \<and>
      dp_step dec (DpOnPush ip port) dp3 = Some (Inr dp4) \<and> map_of (dp_armed dp4) t = Some (dp_now dp3 + u))"
  using assms
proof (induction sts arbitrary: dp)
  case (Cons st sts)
  show ?case
  proof (cases "dp_step dec st dp")
    case None
    then have r: "dp_run dec (st # ys) dp = dp_run dec ys dp" for ys by (simp add: dp_run_def)
    from Cons.IH [OF Cons.prems(1-3)] Cons.prems(4) r show ?thesis by (metis append_Cons)
  next
    case (Some r)
    then obtain dp1 where r: "r = Inr dp1" using Cons.prems(4) by (cases r) (auto simp: dp_run_Cons)
    then have run: "dp_run dec (st # ys) dp = dp_run dec ys dp1" for ys using Some by (simp add: dp_run_Cons)
    have "dp_inv dp1" using dp_run_inv_from [OF Cons.prems(1), of dec "[st]" dp1] run [of "[]"] by simp
    from queued_step [OF Cons.prems(1-3) Some [unfolded r]]
    consider "PushTimer t \<in> set (dp_mPushQueue dp1)" "dp_timers dp1 t = Some u"
      | ip port where "st = DpOnPush ip port" "map_of (dp_armed dp1) t = Some (dp_now dp + u)" by blast
    then show ?thesis
    proof cases
      case 1
      from Cons.IH [OF \<open>dp_inv dp1\<close> 1] Cons.prems(4) run show ?thesis by (metis append_Cons)
    next
      case 2
      then show ?thesis using Some r
        by (intro disjI2 exI [of _ "[]"] exI [of _ ip] exI [of _ port] exI [of _ sts] exI [of _ dp] exI [of _ dp1]) simp
    qed
  qed
qed simp

subsection \<open>Properties\<close>

text \<open>
  C6: Whatever is pushed, whatever the handlers of sessions and timers answer and however the threads
  interleave, the dispatcher runs without a fault: no session, message or timer is used after it
  was freed, and the only assertion that can fail is the one of onPush, for a socket while the
  table of sessions is full. Otherwise the invariant of the server holds, and a timer that is not
  freed is in exactly one place: the push queue, the events of libevent, the tasks, or a worker.
\<close>

theorem dispatcher_run_safe:
  "case dp_run dec steps Dispatcher_new of
     Inr dp \<Rightarrow> server_inv True (dp_mEventArg dp) \<and>
       (\<forall>t. count (timer_refs dp) t = (if dp_timers dp t = None then 0 else 1))
   | Inl f \<Rightarrow> f = AssertFail \<and> (\<exists>before st after dp. steps = before @ st # after \<and>
       dp_run dec before Dispatcher_new = Inr dp \<and> opens_session st \<and> table_full (dp_mEventArg dp))"
  using dp_run_inv [of steps dec] by (auto simp: dp_inv_def timers_inv_def split: sum.splits)



text \<open>
  The destructor is safe only once the event loop runs. When the thread that dispatch created has
  written mIsRunning, no schedule of the two threads uses the dispatcher after it is gone; when it
  has not, the destructor, which sleeps for a second and then believes mIsRunning, can finish first.
\<close>

theorem dispatcher_deleted_early:
  "(\<forall>steps. \<exists>l. run_steps life_step steps life_started = Inr l) \<and>
   (\<exists>steps. run_steps life_step steps life_created = Inl UseAfterFree)"
proof
  have "\<exists>l. run_steps life_step steps life_started = Inr l" for steps
    using life.run_inv [of life_started steps]
    by (auto simp: life_inv_def life_started_def life_created_def faulted_def list_all_iff split: sum.splits)
  then show "\<forall>steps. \<exists>l. run_steps life_step steps life_started = Inr l" by blast
  have "run_steps life_step [DtorStep, DtorStep, DtorStep, LoopStep] life_created = Inl UseAfterFree"
    by (simp add: life_step_def life_created_def Dispatcher_delete_def Dispatcher_eventLoop_def)
  then show "\<exists>steps. run_steps life_step steps life_created = Inl UseAfterFree" by blast
qed

end
