(* ===== verification/SP_Server.thy ===== *)
theory SP_Server
  imports SP_ServerRun
begin

text \<open>
  The two servers on libevent and the threads they run the event loop with: \<open>SP_Server\<close>
  (spserver.cpp), where one thread loops and hands tasks and completed messages to two executors,
  and \<open>SP_LFServer\<close> (splfserver.cpp), where the threads of one pool take turns at the loop. Both do
  to the shared state what \<open>server_step\<close> of \<open>SP_EventCb\<close> does, in an order they choose.
\<close>

subsection \<open>Limits\<close>

text \<open>The setters of both servers; \<open>strdup\<close> copies the C string of the message.\<close>

record limits =
  li_mMaxThreads :: int
  li_mAcceptArg :: accept_arg

definition limits_new :: "bytes \<Rightarrow> limits" where
  "limits_new msg = \<lparr> li_mMaxThreads = 4,
     li_mAcceptArg = \<lparr> ac_mReqQueueSize = 128, ac_mMaxConnections = 256, ac_mRefusedMsg = msg \<rparr> \<rparr>"

definition LFServer_setMaxConnections :: "int \<Rightarrow> limits \<Rightarrow> limits" where
  "LFServer_setMaxConnections n li =
     (let ac = li_mAcceptArg li
      in li\<lparr> li_mAcceptArg := ac\<lparr> ac_mMaxConnections := (if 0 < n then n else ac_mMaxConnections ac) \<rparr> \<rparr>)"

definition LFServer_setMaxThreads :: "int \<Rightarrow> limits \<Rightarrow> limits" where
  "LFServer_setMaxThreads n li = li\<lparr> li_mMaxThreads := (if 0 < n then n else li_mMaxThreads li) \<rparr>"

definition LFServer_setReqQueueSize :: "int \<Rightarrow> bytes \<Rightarrow> limits \<Rightarrow> limits" where
  "LFServer_setReqQueueSize n msg li =
     (let ac = li_mAcceptArg li
      in li\<lparr> li_mAcceptArg := ac\<lparr> ac_mReqQueueSize := (if 0 < n then n else ac_mReqQueueSize ac),
           ac_mRefusedMsg := cstr msg \<rparr> \<rparr>)"

datatype limit_op = SetMaxConnections int | SetMaxThreads int | SetReqQueueSize int bytes

fun set_limit :: "limit_op \<Rightarrow> limits \<Rightarrow> limits" where
  "set_limit (SetMaxConnections n) li = LFServer_setMaxConnections n li"
| "set_limit (SetMaxThreads n) li = LFServer_setMaxThreads n li"
| "set_limit (SetReqQueueSize n msg) li = LFServer_setReqQueueSize n msg li"

definition limits_ok :: "limits \<Rightarrow> bool" where
  "limits_ok li \<longleftrightarrow> 0 < li_mMaxThreads li \<and> 0 < ac_mMaxConnections (li_mAcceptArg li) \<and>
     0 < ac_mReqQueueSize (li_mAcceptArg li)"

lemma limits_new_ok: "limits_ok (limits_new msg)"
  by (simp add: limits_ok_def limits_new_def)

lemma set_limit_ok: "limits_ok li \<Longrightarrow> limits_ok (set_limit op li)"
  by (cases op) (simp_all add: limits_ok_def LFServer_setMaxConnections_def LFServer_setMaxThreads_def
      LFServer_setReqQueueSize_def Let_def)

lemma set_limits_ok: "limits_ok (fold set_limit ops (limits_new msg))"
proof -
  have "limits_ok li \<Longrightarrow> limits_ok (fold set_limit ops li)" for li
    by (induction ops arbitrary: li) (simp_all add: set_limit_ok)
  then show ?thesis by (simp add: limits_new_ok)
qed

text \<open>The steps that run inside \<open>event_base_loop\<close>.\<close>

fun loop_event :: "'d server_step \<Rightarrow> bool" where
  "loop_event (Accept d ip port serverIP) = True"
| "loop_event (Readable o1 e) = True"
| "loop_event (Writeable o1 e) = True"
| "loop_event TakeResponse = True"
| "loop_event _ = False"

subsection \<open>SP_Server\<close>

text \<open>
  \<open>start\<close>: the loop thread is inside \<open>event_base_loop\<close>, drains one of the two queues, tests
  \<open>mIsShutdown\<close>, has deleted the completion handler, or has destroyed the executors. A task given to
  the worker executor is one of \<open>ea_active\<close>; \<open>sv_act\<close> are the messages given to the executor of the
  completion handler, \<open>sv_handler\<close> says that the handler is not deleted.
\<close>

datatype server_pc = InEvents | DrainTasks | DrainCompleted | TestShutdown | HandlerDeleted | Stopped

record 'd server =
  sv_mEventArg :: "'d event_arg"
  sv_mIsShutdown :: bool
  sv_pc :: server_pc
  sv_act :: "sp_message list"
  sv_handler :: bool

definition Server_start :: "'d server" where
  "Server_start = \<lparr> sv_mEventArg = EventArg_new, sv_mIsShutdown = False, sv_pc = TestShutdown, sv_act = [], sv_handler = True \<rparr>"

definition Server_outputCompleted :: "'d server \<Rightarrow> 'd server res" where
  "Server_outputCompleted sv = (if sv_handler sv then Inr (sv\<lparr> sv_act := tl (sv_act sv) \<rparr>) else Inl UseAfterFree)"

datatype 'd sv_step =
    SvEvent "'d server_step"
  | SvReturn
  | SvLoop
  | SvWorker nat int "'d handler_result"
  | SvAct
  | SvShutdown

definition on_server :: "'d server \<Rightarrow> 'd event_arg res option \<Rightarrow> 'd server res option" where
  "on_server sv r = map_option (\<lambda>r. res_bind r (\<lambda>ea. Inr (sv\<lparr> sv_mEventArg := ea \<rparr>))) r"

text \<open>A turn of the loop thread outside of \<open>event_base_loop\<close>.\<close>

definition Server_loop :: "accept_arg \<Rightarrow> 'd decoder \<Rightarrow> 'd server \<Rightarrow> 'd server res option" where
  "Server_loop ac dec sv =
     (let ea = sv_mEventArg sv in
      case sv_pc sv of
        InEvents \<Rightarrow> None
      | DrainTasks \<Rightarrow>
          if ea_mInputResultQueue ea \<noteq> [] then on_server sv (server_step ac dec TakeTask ea)
          else Some (Inr (sv\<lparr> sv_pc := DrainCompleted \<rparr>))
      | DrainCompleted \<Rightarrow>
          (case ea_mOutputResultQueue ea of
             [] \<Rightarrow> Some (Inr (sv\<lparr> sv_pc := TestShutdown \<rparr>))
           | i # is \<Rightarrow>
               (case ea_msgs ea i of None \<Rightarrow> Some (Inl UseAfterFree)
                | Some m \<Rightarrow> on_server (sv\<lparr> sv_act := sv_act sv @ [m] \<rparr>) (server_step ac dec TakeCompleted ea)))
      | TestShutdown \<Rightarrow>
          Some (Inr (if sv_mIsShutdown sv then sv\<lparr> sv_pc := HandlerDeleted, sv_handler := False \<rparr>
                     else sv\<lparr> sv_pc := InEvents \<rparr>))
      | HandlerDeleted \<Rightarrow> Some (Inr (sv\<lparr> sv_pc := Stopped, sv_act := [] \<rparr>))
      | Stopped \<Rightarrow> None)"

definition sv_step :: "accept_arg \<Rightarrow> 'd decoder \<Rightarrow> 'd sv_step \<Rightarrow> 'd server \<Rightarrow> 'd server res option" where
  "sv_step ac dec step sv =
     (case step of
        SvEvent st \<Rightarrow>
          if sv_pc sv = InEvents \<and> loop_event st then on_server sv (server_step ac dec st (sv_mEventArg sv)) else None
      | SvReturn \<Rightarrow> if sv_pc sv = InEvents then Some (Inr (sv\<lparr> sv_pc := DrainTasks \<rparr>)) else None
      | SvLoop \<Rightarrow> Server_loop ac dec sv
      | SvWorker k initRet h \<Rightarrow>
          if sv_pc sv \<noteq> Stopped then on_server sv (server_step ac dec (WorkerStage k initRet h) (sv_mEventArg sv)) else None
      | SvAct \<Rightarrow> if sv_act sv \<noteq> [] then Some (Server_outputCompleted sv) else None
      | SvShutdown \<Rightarrow> Some (Inr (sv\<lparr> sv_mIsShutdown := True \<rparr>)))"

definition sv_bad :: "fault \<Rightarrow> 'd sv_step \<Rightarrow> 'd server \<Rightarrow> bool" where
  "sv_bad f st sv \<longleftrightarrow>
     f = AssertFail \<and> (\<exists>st1. st = SvEvent st1 \<and> is_accept st1) \<and> table_full (sv_mEventArg sv) \<or>
     f = UseAfterFree \<and> st = SvAct \<and> sv_pc sv = HandlerDeleted"

definition sv_inv :: "'d server \<Rightarrow> bool" where
  "sv_inv sv \<longleftrightarrow> server_inv True (sv_mEventArg sv) \<and>
     (sv_handler sv \<longleftrightarrow> sv_pc sv \<noteq> HandlerDeleted \<and> sv_pc sv \<noteq> Stopped) \<and>
     (sv_pc sv = Stopped \<longrightarrow> sv_act sv = [])"

lemma server_keeps_cases:
  assumes "server_inv True ea" "server_step ac dec st ea = Some r"
  obtains "r = Inl AssertFail" "is_accept st" "table_full ea" | ea' where "r = Inr ea'" "server_inv True ea'"
  using server_step_keeps [OF assms] that by (auto simp: keeps_def split: if_splits)

lemma on_server_keeps:
  assumes "sv_inv sv" "on_server (sv\<lparr> sv_act := a \<rparr>) (server_step ac dec st (sv_mEventArg sv)) = Some r" "sv_pc sv \<noteq> Stopped"
  shows "case r of Inr sv' \<Rightarrow> sv_inv sv' | Inl f \<Rightarrow> f = AssertFail \<and> is_accept st \<and> table_full (sv_mEventArg sv)"
proof -
  from assms(2) obtain r1 where r1: "server_step ac dec st (sv_mEventArg sv) = Some r1"
    "r = res_bind r1 (\<lambda>ea. Inr (sv\<lparr> sv_act := a, sv_mEventArg := ea \<rparr>))" by (auto simp: on_server_def)
  have "server_inv True (sv_mEventArg sv)" using assms(1) by (simp add: sv_inv_def)
  from this r1(1) show ?thesis by (rule server_keeps_cases) (use r1(2) assms in \<open>simp_all add: sv_inv_def\<close>)
qed

lemma sv_same: "sv\<lparr> sv_act := sv_act sv \<rparr> = sv"
  by simp

lemma Server_loop_keeps:
  assumes inv: "sv_inv sv" and step: "Server_loop ac dec sv = Some r"
  shows "\<exists>sv'. r = Inr sv' \<and> sv_inv sv'"
proof (cases "sv_pc sv")
  case DrainTasks
  then show ?thesis using step inv on_server_keeps [OF inv, of "sv_act sv" ac dec TakeTask r]
    by (auto simp: Server_loop_def Let_def sv_inv_def split: if_splits sum.splits)
next
  case DrainCompleted
  show ?thesis
  proof (cases "ea_mOutputResultQueue (sv_mEventArg sv)")
    case Nil
    then show ?thesis using step inv DrainCompleted by (auto simp: Server_loop_def Let_def sv_inv_def)
  next
    case (Cons i "is")
    then obtain m where m: "ea_msgs (sv_mEventArg sv) i = Some m"
      using take_completed_inv [of True "sv_mEventArg sv" i "is"] inv by (auto simp: sv_inv_def)
    then have "on_server (sv\<lparr> sv_act := sv_act sv @ [m] \<rparr>) (server_step ac dec TakeCompleted (sv_mEventArg sv)) = Some r"
      using step DrainCompleted Cons by (simp add: Server_loop_def Let_def)
    from on_server_keeps [OF inv this] show ?thesis using DrainCompleted by (auto split: sum.splits)
  qed
qed (use step inv in \<open>auto simp: Server_loop_def Let_def sv_inv_def\<close>)

interpretation sf: stepper "sv_step ac dec" "\<lambda>_. True" sv_inv sv_bad for ac :: accept_arg and dec :: "'d decoder"
proof
  fix sv :: "'d server" and st r
  assume inv: "sv_inv sv" and step: "sv_step ac dec st sv = Some r"
  show "case r of Inr sv' \<Rightarrow> sv_inv sv' | Inl f \<Rightarrow> sv_bad f st sv"
  proof (cases st)
    case (SvEvent st1)
    then show ?thesis using step on_server_keeps [OF inv, of "sv_act sv" ac dec st1 r]
      by (auto simp: sv_step_def sv_bad_def split: if_splits sum.splits)
  next
    case (SvWorker k initRet h)
    then show ?thesis using step on_server_keeps [OF inv, of "sv_act sv" ac dec "WorkerStage k initRet h" r]
      by (auto simp: sv_step_def sv_bad_def split: if_splits sum.splits)
  next
    case SvLoop
    then show ?thesis using step Server_loop_keeps [OF inv, of ac dec r] by (auto simp: sv_step_def)
  next
    case SvAct
    then show ?thesis using step inv
      by (auto simp: sv_step_def sv_bad_def sv_inv_def Server_outputCompleted_def split: if_splits)
  qed (use step inv in \<open>auto simp: sv_step_def sv_inv_def split: if_splits\<close>)
qed

lemma sv_inv_start: "sv_inv Server_start"
  by (simp add: sv_inv_def Server_start_def server_inv_start)

text \<open>
  A run in which a message is completed and given to the executor of the completion handler just
  before the server is shut down: the start handler of the only client sends a message to nobody.
\<close>

definition note_result :: "unit handler_result" where
  "note_result = \<lparr> hr_ret = 0, hr_decoder = (), hr_messages = [Message_new 0], hr_toClose = [] \<rparr>"

definition shutdown_steps :: "unit sv_step list" where
  "shutdown_steps = [SvLoop, SvEvent (Accept () [] 0 None), SvReturn, SvLoop, SvWorker 0 0 note_result,
     SvWorker 0 0 note_result, SvWorker 0 0 note_result, SvWorker 0 0 note_result, SvLoop, SvLoop, SvLoop,
     SvEvent TakeResponse, SvReturn, SvLoop, SvLoop, SvShutdown, SvLoop, SvLoop, SvAct]"

lemma fail_all_none: "Message_getToList m = [] \<Longrightarrow> fail_all m = m"
  by (subst fail_all.simps) (simp add: SidList_getCount_def)

lemma shutdown_run: "run_steps (sv_step small_server byte_decoder) shutdown_steps Server_start = Inl UseAfterFree"
proof -
  have ok: "1 \<le> ac_mMaxConnections small_server" "1 \<le> ac_mReqQueueSize small_server" by (simp_all add: small_server_def)
  from accept_first [OF ok, of "()" "[]" 0] obtain sid mgr where
    a: "session_of mgr = [sid \<mapsto> 0]" "EventHelper_isSystemSid sid = False" and
    first: "EventCallback_onAccept small_server () [] 0 None EventArg_new = Inr
      \<lparr> ea_mSessionManager = mgr,
         ea_sessions = [0 \<mapsto> (Session_new () sid)\<lparr> ss_mRunning := True,
           ss_mRequest := Request_setClientPort 0 (Request_setClientIP [] (Request_new ())) \<rparr>],
         ea_msgs = Map.empty, ea_mInputResultQueue = [Start 0], ea_mOutputResultQueue = [],
         ea_mResponseQueue = [], ea_active = [], ea_nextObj = 1, ea_nextMsg = 0 \<rparr>" by blast
  have q: "ea_mInputResultQueue EventArg_new = []" by (simp add: EventArg_new_def)
  have m: "Message_getToList (Message_new 0) = []" "\<not> 0 < Message_getTotalSize (Message_new 0)" "msg_ok (Message_new 0)"
    by (simp_all add: Message_getToList_def Message_new_def Message_getTotalSize_def msg_ok_def lazy_def SidList_new_def
        Message_getFollowBlockList_def MsgBlockList_new_def)
  show ?thesis
    by (simp add: shutdown_steps_def Server_start_def sv_step_def Server_loop_def on_server_def q first a m run_simps
        note_result_def Session_new_def process_message_def EventHelper_doCompletion_def get_msg_def SidList_getCount_def
        del_at_def fail_all_none Server_outputCompleted_def)
qed

subsection \<open>SP_LFServer\<close>

text \<open>
  The threads of the pool all run \<open>lfHandler\<close>, so they are counted, not named: those about to test
  \<open>mIsShutdown\<close>, those that wait for the mutex, the one that holds it, those that run a task (each a
  stage of \<open>ea_active\<close>), and those that are gone. The leader tests the queues or is inside
  \<open>event_base_loop\<close>, which returns once it has handled an event.
\<close>

datatype leader = NoLeader | LeadTest | LeadEvents bool

record 'd lf_server =
  lf_mEventArg :: "'d event_arg"
  lf_mIsShutdown :: bool
  lf_leader :: leader
  lf_idle :: nat
  lf_waiting :: nat
  lf_gone :: nat

definition LFServer_run :: "nat \<Rightarrow> 'd lf_server" where
  "LFServer_run maxThreads = \<lparr> lf_mEventArg = EventArg_new, lf_mIsShutdown = False, lf_leader = NoLeader,
     lf_idle = maxThreads, lf_waiting = 0, lf_gone = 0 \<rparr>"

definition LFServer_lfHandler :: "'d lf_server \<Rightarrow> 'd lf_server" where
  "LFServer_lfHandler lf =
     (if lf_mIsShutdown lf then lf\<lparr> lf_idle := lf_idle lf - 1, lf_gone := lf_gone lf + 1 \<rparr>
      else lf\<lparr> lf_idle := lf_idle lf - 1, lf_waiting := lf_waiting lf + 1 \<rparr>)"

definition on_lf :: "('d event_arg \<Rightarrow> 'd event_arg \<Rightarrow> 'd lf_server) \<Rightarrow> 'd event_arg \<Rightarrow> 'd event_arg res option \<Rightarrow> 'd lf_server res option" where
  "on_lf f ea r = map_option (\<lambda>r. res_bind r (\<lambda>ea'. Inr (f ea ea'))) r"

text \<open>\<open>handleOneEvent\<close>: the test and one round of the loop, by the thread that holds the mutex.\<close>

definition LFServer_handleOneEvent :: "accept_arg \<Rightarrow> 'd decoder \<Rightarrow> 'd lf_server \<Rightarrow> 'd lf_server res option" where
  "LFServer_handleOneEvent ac dec lf =
     (let ea = lf_mEventArg lf in
      if lf_mIsShutdown lf then Some (Inr (lf\<lparr> lf_leader := NoLeader, lf_idle := lf_idle lf + 1 \<rparr>))
      else if ea_mInputResultQueue ea \<noteq> [] then
        on_lf (\<lambda>_ ea'. lf\<lparr> lf_mEventArg := ea', lf_leader := NoLeader \<rparr>) ea (server_step ac dec TakeTask ea)
      else if ea_mOutputResultQueue ea \<noteq> [] then
        on_lf (\<lambda>_ ea'. lf\<lparr> lf_mEventArg := ea', lf_leader := NoLeader, lf_idle := lf_idle lf + 1 \<rparr>) ea
          (server_step ac dec TakeCompleted ea)
      else Some (Inr (lf\<lparr> lf_leader := LeadEvents False \<rparr>)))"

datatype 'd lf_step =
    LfTest
  | LfLock
  | LfLead
  | LfEvent "'d server_step"
  | LfSignal
  | LfReturn
  | LfWorker nat int "'d handler_result"
  | LfShutdown

definition lf_step :: "accept_arg \<Rightarrow> 'd decoder \<Rightarrow> 'd lf_step \<Rightarrow> 'd lf_server \<Rightarrow> 'd lf_server res option" where
  "lf_step ac dec step lf =
     (let ea = lf_mEventArg lf in
      case step of
        LfTest \<Rightarrow> if 0 < lf_idle lf then Some (Inr (LFServer_lfHandler lf)) else None
      | LfLock \<Rightarrow>
          if 0 < lf_waiting lf \<and> lf_leader lf = NoLeader
          then Some (Inr (lf\<lparr> lf_waiting := lf_waiting lf - 1, lf_leader := LeadTest \<rparr>)) else None
      | LfLead \<Rightarrow> if lf_leader lf = LeadTest then LFServer_handleOneEvent ac dec lf else None
      | LfEvent st \<Rightarrow>
          (case lf_leader lf of
             LeadEvents b \<Rightarrow>
               if loop_event st
               then on_lf (\<lambda>_ ea'. lf\<lparr> lf_mEventArg := ea', lf_leader := LeadEvents True \<rparr>) ea (server_step ac dec st ea)
               else None
           | _ \<Rightarrow> None)
      | LfSignal \<Rightarrow>
          (case lf_leader lf of
             LeadEvents b \<Rightarrow> Some (Inr (lf\<lparr> lf_mIsShutdown := True, lf_leader := LeadEvents True \<rparr>))
           | _ \<Rightarrow> None)
      | LfReturn \<Rightarrow> if lf_leader lf = LeadEvents True then Some (Inr (lf\<lparr> lf_leader := LeadTest \<rparr>)) else None
      | LfWorker k initRet h \<Rightarrow>
          on_lf (\<lambda>ea ea'. lf\<lparr> lf_mEventArg := ea',
              lf_idle := (if length (ea_active ea') < length (ea_active ea) then lf_idle lf + 1 else lf_idle lf) \<rparr>)
            ea (server_step ac dec (WorkerStage k initRet h) ea)
      | LfShutdown \<Rightarrow> Some (Inr (lf\<lparr> lf_mIsShutdown := True \<rparr>)))"

definition lf_threads :: "'d lf_server \<Rightarrow> nat" where
  "lf_threads lf = lf_idle lf + lf_waiting lf + (if lf_leader lf = NoLeader then 0 else 1) +
     length (ea_active (lf_mEventArg lf)) + lf_gone lf"

definition lf_inv :: "nat \<Rightarrow> 'd lf_server \<Rightarrow> bool" where
  "lf_inv n lf \<longleftrightarrow> server_inv True (lf_mEventArg lf) \<and> lf_threads lf = n"

text \<open>How the steps of the server change the number of tasks that run.\<close>

lemma stage_result_length:
  assumes "k < length (ea_active ea)"
  shows "length (ea_active (stage_result k (st, ea))) = (if st = None then length (ea_active ea) - 1 else length (ea_active ea))"
  using assms by (cases st) (simp_all add: del_at_def)

lemma worker_stage_active:
  "worker_stage initRet h st ea = Inr (st', ea') \<Longrightarrow> ea_active ea' = ea_active ea"
  by (cases "(initRet, h, st, ea)" rule: worker_stage.cases)
    (auto simp: EventHelper_worker_def EventHelper_start_def EventHelper_error_def EventHelper_timeout_def
      EventHelper_myclose_def get_session_def update_session_def push_response_def res_bind_eq_Inr_iff Let_def
      set_session_def split: option.splits)

lemma worker_step_length:
  assumes "server_step ac dec (WorkerStage k initRet h) ea = Some (Inr ea')"
  shows "length (ea_active ea') = length (ea_active ea) \<or> length (ea_active ea) = Suc (length (ea_active ea'))"
proof -
  from assms obtain st ea1 where "k < length (ea_active ea)" "worker_stage initRet h (ea_active ea ! k) ea = Inr (st, ea1)"
    "ea' = stage_result k (st, ea1)"
    by (auto simp: server_step_def res_bind_eq_Inr_iff stage_result_def split: if_splits)
  then show ?thesis using stage_result_length [of k ea1 st] worker_stage_active [of initRet h "ea_active ea ! k" ea st ea1]
    by auto
qed

text \<open>The callbacks of the loop leave the running tasks alone.\<close>

named_theorems same_active

lemmas active_simps = res_bind_eq_Inr_iff get_session_def set_session_def push_task_def Let_def

lemma update_active [same_active]: "update_session o1 f ea = Inr ea' \<Longrightarrow> ea_active ea' = ea_active ea"
  by (auto simp: update_session_def active_simps split: option.splits)

lemma doWork_active [same_active]: "EventHelper_doWork o1 ea = Inr ea' \<Longrightarrow> ea_active ea' = ea_active ea"
  by (auto simp: EventHelper_doWork_def active_simps split: option.splits if_splits)

lemma decode_and_work_active [same_active]: "decode_and_work dec o1 ea = Inr ea' \<Longrightarrow> ea_active ea' = ea_active ea"
  by (auto simp: decode_and_work_def active_simps split: option.splits if_splits prod.splits dest!: doWork_active)

lemma fail_active [same_active]: "EventHelper_fail mk o1 ea = Inr ea' \<Longrightarrow> ea_active ea' = ea_active ea"
  by (auto simp: EventHelper_fail_def active_simps split: option.splits)

lemma doClose_active [same_active]: "EventHelper_doClose o1 ea = Inr ea' \<Longrightarrow> ea_active ea' = ea_active ea"
  by (auto simp: EventHelper_doClose_def active_simps split: option.splits)

lemma doStart_active [same_active]: "EventHelper_doStart o1 ea = Inr ea' \<Longrightarrow> ea_active ea' = ea_active ea"
  by (auto simp: EventHelper_doStart_def active_simps split: option.splits)

lemma onAccept_active: "EventCallback_onAccept ac d ip port sip ea = Inr ea' \<Longrightarrow> ea_active ea' = ea_active ea"
  by (auto simp: EventCallback_onAccept_def res_bind_eq_Inr_iff set_session_def Let_def split: if_splits dest!: same_active)

lemma onRead_active: "EventCallback_onRead dec o1 e ea = Inr ea' \<Longrightarrow> ea_active ea' = ea_active ea"
  by (auto simp: EventCallback_onRead_def EventHelper_doTimeout_def EventHelper_doError_def res_bind_eq_Inr_iff
      get_session_def set_session_def Let_def
      split: if_splits read_event.splits option.splits dest!: same_active)

lemma run_transmit_active [same_active]: "run_transmit o1 rets ea = Inr (len, ea') \<Longrightarrow> ea_active ea' = ea_active ea"
  by (auto simp: run_transmit_def active_simps simp del: transmit.simps split: option.splits)

lemma write_part_active [same_active]: "write_part o1 rets eagain ea = Inr (ret, ea') \<Longrightarrow> ea_active ea' = ea_active ea"
  by (auto simp: write_part_def EventHelper_doError_def res_bind_eq_Inr_iff get_session_def set_session_def Let_def
      split: if_splits option.splits dest!: same_active)

lemma exit_part_active [same_active]: "exit_part o1 ret ea = Inr (ret', ea') \<Longrightarrow> ea_active ea' = ea_active ea"
  by (auto simp: exit_part_def res_bind_eq_Inr_iff get_session_def split: if_splits option.splits dest!: same_active)

lemma onWrite_active: "EventCallback_onWrite dec o1 e ea = Inr ea' \<Longrightarrow> ea_active ea' = ea_active ea"
  by (auto simp: EventCallback_onWrite_def EventHelper_doTimeout_def res_bind_eq_Inr_iff get_session_def
      split: if_splits write_event.splits option.splits dest!: same_active)

lemma deliver_active [same_active]: "deliver fromSid i n ea = Inr ea' \<Longrightarrow> ea_active ea' = ea_active ea"
proof (induction n arbitrary: ea)
  case (Suc n)
  then show ?case
    by (fastforce simp: res_bind_eq_Inr_iff Let_def set_session_def dest!: Suc.IH split: option.splits if_splits)
qed simp

lemma process_messages_active [same_active]:
  "process_messages fromSid ms ea = Inr ea' \<Longrightarrow> ea_active ea' = ea_active ea"
proof (induction ms arbitrary: ea)
  case (Cons m ms)
  from Cons.prems obtain ea1 where "process_message fromSid m ea = Inr ea1" "process_messages fromSid ms ea1 = Inr ea'"
    by (auto simp: res_bind_eq_Inr_iff)
  moreover from this(1) have "ea_active ea1 = ea_active ea"
    by (auto simp: process_message_def res_bind_eq_Inr_iff Let_def EventHelper_doCompletion_def
        split: if_splits dest!: deliver_active)
  ultimately show ?case using Cons.IH by metis
qed simp

lemma close_sessions_active [same_active]: "close_sessions sids ea = Inr ea' \<Longrightarrow> ea_active ea' = ea_active ea"
proof (induction sids arbitrary: ea)
  case (Cons sid sids)
  then show ?case
    by (fastforce simp: res_bind_eq_Inr_iff split: option.splits dest!: Cons.IH update_active)
qed simp

lemma onResponse_active: "EventCallback_onResponse r ea = Inr ea' \<Longrightarrow> ea_active ea' = ea_active ea"
  by (auto simp: EventCallback_onResponse_def res_bind_eq_Inr_iff Let_def
      split: if_splits option.splits dest!: same_active)

lemma loop_event_active:
  "loop_event st \<Longrightarrow> server_step ac dec st ea = Some (Inr ea') \<Longrightarrow> ea_active ea' = ea_active ea"
  by (cases st)
    (auto simp: server_step_def split: option.splits if_splits list.splits
      dest: onAccept_active onRead_active onWrite_active onResponse_active)

subsection \<open>A machine that drives another one\<close>

text \<open>
  Each step of the driver makes at most one step of the machine it drives, or ends in a fault of its
  own. Then what a run of the driver does to the machine is a run of the machine.
\<close>

locale driver =
  fixes step :: "'st \<Rightarrow> 's \<Rightarrow> 's res option" and state :: "'s \<Rightarrow> 't" and sub :: "'u \<Rightarrow> 't \<Rightarrow> 't res option"
    and own :: "fault \<Rightarrow> bool"
  assumes drives: "step st s = Some r \<Longrightarrow>
    (case r of Inr s' \<Rightarrow> state s' = state s \<or> (\<exists>u. sub u (state s) = Some (Inr (state s')))
     | Inl f \<Rightarrow> own f \<or> (\<exists>u. sub u (state s) = Some (Inl f)))"
begin

lemma run_driven:
  "case run_steps step sts s of
     Inr s' \<Rightarrow> \<exists>us. run_steps sub us (state s) = Inr (state s')
   | Inl f \<Rightarrow> own f \<or> (\<exists>us. run_steps sub us (state s) = Inl f)"
proof (induction sts arbitrary: s)
  case Nil
  have "run_steps sub [] (state s) = Inr (state s)" by simp
  then show ?case by (auto intro: exI [of _ "[]"])
next
  case (Cons st sts)
  have later: "case run_steps step (st # sts) s of
      Inr s' \<Rightarrow> \<exists>us. run_steps sub us (state s) = Inr (state s')
    | Inl f \<Rightarrow> own f \<or> (\<exists>us. run_steps sub us (state s) = Inl f)"
    if run: "run_steps step (st # sts) s = run_steps step sts s1"
      and us: "\<And>us. \<exists>us'. run_steps sub us' (state s) = run_steps sub us (state s1)" for s1
    using Cons.IH [of s1] us unfolding run by (auto split: sum.splits) metis+
  show ?case
  proof (cases "step st s")
    case None
    then show ?thesis by (intro later [of s]) auto
  next
    case (Some r)
    show ?thesis
    proof (cases r)
      case (Inl f)
      then consider "own f" | u where "sub u (state s) = Some (Inl f)" using drives [OF Some] by auto
      then show ?thesis
      proof cases
        case (2 u)
        then have "run_steps sub [u] (state s) = Inl f" by simp
        then show ?thesis using Some Inl by (auto intro: exI [of _ "[u]"])
      qed (use Some Inl in simp)
    next
      case (Inr s1)
      then consider "state s1 = state s" | u where "sub u (state s) = Some (Inr (state s1))" using drives [OF Some] by auto
      then show ?thesis
      proof cases
        case 1
        then show ?thesis using Some Inr by (intro later [of s1]) auto
      next
        case (2 u)
        have "run_steps sub (u # us) (state s) = run_steps sub us (state s1)" for us using 2 by simp
        then show ?thesis using Some Inr by (intro later [of s1]) (simp, blast)
      qed
    qed
  qed
qed

end

interpretation svd: driver "sv_step ac dec" sv_mEventArg "server_step ac dec" "\<lambda>f. f = UseAfterFree"
  for ac :: accept_arg and dec :: "'d decoder"
proof
  fix sv :: "'d server" and st r
  have on: "case r of
      Inr sv' \<Rightarrow> sv_mEventArg sv' = ea \<or> (\<exists>u. server_step ac dec u ea = Some (Inr (sv_mEventArg sv')))
    | Inl f \<Rightarrow> f = UseAfterFree \<or> (\<exists>u. server_step ac dec u ea = Some (Inl f))"
    if "on_server sv1 (server_step ac dec u ea) = Some r" for sv1 :: "'d server" and u ea
  proof -
    from that obtain r1 where "server_step ac dec u ea = Some r1" "r = res_bind r1 (\<lambda>ea. Inr (sv1\<lparr> sv_mEventArg := ea \<rparr>))"
      by (auto simp: on_server_def)
    then show ?thesis by (cases r1) auto
  qed
  assume "sv_step ac dec st sv = Some r"
  then show "case r of
      Inr sv' \<Rightarrow> sv_mEventArg sv' = sv_mEventArg sv \<or> (\<exists>u. server_step ac dec u (sv_mEventArg sv) = Some (Inr (sv_mEventArg sv')))
    | Inl f \<Rightarrow> f = UseAfterFree \<or> (\<exists>u. server_step ac dec u (sv_mEventArg sv) = Some (Inl f))"
    by (cases st)
      (auto simp: sv_step_def Server_loop_def Let_def Server_outputCompleted_def dest!: on
        split: if_splits server_pc.splits list.splits option.splits)
qed

lemma on_lf_cases:
  assumes "on_lf f ea (server_step ac dec u ea) = Some r"
  obtains ea' where "r = Inr (f ea ea')" "server_step ac dec u ea = Some (Inr ea')"
  | e where "r = Inl e" "server_step ac dec u ea = Some (Inl e)"
proof -
  from assms obtain r1 where "server_step ac dec u ea = Some r1" "r = res_bind r1 (\<lambda>ea'. Inr (f ea ea'))"
    by (auto simp: on_lf_def)
  then show thesis by (cases r1) (simp_all add: that)
qed

interpretation lfd: driver "lf_step ac dec" lf_mEventArg "server_step ac dec" "\<lambda>f. False"
  for ac :: accept_arg and dec :: "'d decoder"
proof
  fix lf :: "'d lf_server" and st r
  let ?ea = "lf_mEventArg lf"
  have on: "case r of
      Inr lf' \<Rightarrow> lf_mEventArg lf' = ?ea \<or> (\<exists>u. server_step ac dec u ?ea = Some (Inr (lf_mEventArg lf')))
    | Inl f \<Rightarrow> False \<or> (\<exists>u. server_step ac dec u ?ea = Some (Inl f))"
    if "on_lf f ?ea (server_step ac dec u ?ea) = Some r" "\<And>ea'. lf_mEventArg (f ?ea ea') = ea'" for f u
    using that(1) by (rule on_lf_cases) (use that(2) in auto)
  assume "lf_step ac dec st lf = Some r"
  then show "case r of
      Inr lf' \<Rightarrow> lf_mEventArg lf' = ?ea \<or> (\<exists>u. server_step ac dec u ?ea = Some (Inr (lf_mEventArg lf')))
    | Inl f \<Rightarrow> False \<or> (\<exists>u. server_step ac dec u ?ea = Some (Inl f))"
    by (cases st)
      (auto simp: lf_step_def LFServer_handleOneEvent_def LFServer_lfHandler_def Let_def dest!: on
        split: if_splits leader.splits)
qed

subsection \<open>The threads of SP_LFServer\<close>

lemma lf_step_keeps:
  assumes inv: "lf_inv n lf" and step: "lf_step ac dec st lf = Some r"
  shows "case r of Inr lf' \<Rightarrow> lf_inv n lf'
    | Inl f \<Rightarrow> f = AssertFail \<and> (\<exists>st1. st = LfEvent st1 \<and> is_accept st1) \<and> table_full (lf_mEventArg lf)"
proof -
  let ?ea = "lf_mEventArg lf"
  have sinv: "server_inv True ?ea" and n: "lf_threads lf = n" using inv by (simp_all add: lf_inv_def)
  have on: "case r of Inr lf' \<Rightarrow> lf_inv n lf' | Inl f \<Rightarrow> f = AssertFail \<and> is_accept u \<and> table_full ?ea"
    if o: "on_lf f ?ea (server_step ac dec u ?ea) = Some r" and ea: "\<And>ea'. lf_mEventArg (f ?ea ea') = ea'"
      and t: "\<And>ea'. server_step ac dec u ?ea = Some (Inr ea') \<Longrightarrow> lf_threads (f ?ea ea') = n" for f u
    using o
  proof (rule on_lf_cases)
    fix ea' assume "r = Inr (f ?ea ea')" "server_step ac dec u ?ea = Some (Inr ea')"
    with server_step_keeps [OF sinv this(2)] ea [of ea'] t [of ea'] show ?thesis
      by (auto simp: lf_inv_def split: if_splits)
  next
    fix e assume "r = Inl e" "server_step ac dec u ?ea = Some (Inl e)"
    with server_step_keeps [OF sinv this(2)] show ?thesis by (auto simp: keeps_def split: if_splits)
  qed
  show ?thesis
  proof (cases st)
    case LfLead
    then have lead: "lf_leader lf = LeadTest" "LFServer_handleOneEvent ac dec lf = Some r"
      using step by (simp_all add: lf_step_def Let_def split: if_splits)
    consider "lf_mIsShutdown lf \<or> ea_mInputResultQueue ?ea = [] \<and> ea_mOutputResultQueue ?ea = []"
      | "\<not> lf_mIsShutdown lf" "ea_mInputResultQueue ?ea \<noteq> []"
      | "\<not> lf_mIsShutdown lf" "ea_mInputResultQueue ?ea = []" "ea_mOutputResultQueue ?ea \<noteq> []" by blast
    then show ?thesis
    proof cases
      case 1
      then show ?thesis using lead n sinv
        by (auto simp: LFServer_handleOneEvent_def Let_def lf_inv_def lf_threads_def split: if_splits)
    next
      case 2
      then have o: "on_lf (\<lambda>_ ea'. lf\<lparr> lf_mEventArg := ea', lf_leader := NoLeader \<rparr>) ?ea (server_step ac dec TakeTask ?ea) = Some r"
        using lead by (simp add: LFServer_handleOneEvent_def Let_def)
      have "case r of Inr lf' \<Rightarrow> lf_inv n lf' | Inl f \<Rightarrow> f = AssertFail \<and> is_accept (TakeTask :: 'a server_step) \<and> table_full ?ea"
        by (rule on [OF o]) (use n lead(1) in \<open>auto simp: server_step_def lf_threads_def split: list.splits\<close>)
      then show ?thesis by (auto split: sum.splits)
    next
      case 3
      then have o: "on_lf (\<lambda>_ ea'. lf\<lparr> lf_mEventArg := ea', lf_leader := NoLeader, lf_idle := lf_idle lf + 1 \<rparr>) ?ea
          (server_step ac dec TakeCompleted ?ea) = Some r"
        using lead by (simp add: LFServer_handleOneEvent_def Let_def)
      have "case r of Inr lf' \<Rightarrow> lf_inv n lf' | Inl f \<Rightarrow> f = AssertFail \<and> is_accept (TakeCompleted :: 'a server_step) \<and> table_full ?ea"
        by (rule on [OF o])
          (use n lead(1) in \<open>auto simp: server_step_def lf_threads_def res_bind_eq_Inr_iff split: list.splits\<close>)
      then show ?thesis by (auto split: sum.splits)
    qed
  next
    case (LfEvent st1)
    then obtain b where lead: "lf_leader lf = LeadEvents b" "loop_event st1"
      "on_lf (\<lambda>_ ea'. lf\<lparr> lf_mEventArg := ea', lf_leader := LeadEvents True \<rparr>) ?ea (server_step ac dec st1 ?ea) = Some r"
      using step by (auto simp: lf_step_def Let_def split: leader.splits if_splits)
    have "case r of Inr lf' \<Rightarrow> lf_inv n lf' | Inl f \<Rightarrow> f = AssertFail \<and> is_accept st1 \<and> table_full ?ea"
      by (rule on [OF lead(3)]) (use n lead(1) loop_event_active [OF lead(2)] in \<open>auto simp: lf_threads_def\<close>)
    then show ?thesis using LfEvent by (auto split: sum.splits)
  next
    case (LfWorker k initRet h)
    then have o: "on_lf (\<lambda>ea ea'. lf\<lparr> lf_mEventArg := ea',
              lf_idle := (if length (ea_active ea') < length (ea_active ea) then lf_idle lf + 1 else lf_idle lf) \<rparr>)
            ?ea (server_step ac dec (WorkerStage k initRet h) ?ea) = Some r"
      using step by (simp add: lf_step_def Let_def)
    have "case r of Inr lf' \<Rightarrow> lf_inv n lf' | Inl f \<Rightarrow> f = AssertFail \<and> is_accept (WorkerStage k initRet h) \<and> table_full ?ea"
      by (rule on [OF o]) (use n worker_step_length [of ac dec k initRet h ?ea] in \<open>auto simp: lf_threads_def\<close>)
    then show ?thesis by (auto split: sum.splits)
  qed (use step n sinv in \<open>auto simp: lf_step_def Let_def LFServer_lfHandler_def lf_inv_def lf_threads_def
        split: if_splits leader.splits\<close>)
qed

interpretation lfs: stepper "lf_step ac dec" "\<lambda>_. True" "lf_inv n"
    "\<lambda>f st lf. f = AssertFail \<and> (\<exists>st1. st = LfEvent st1 \<and> is_accept st1) \<and> table_full (lf_mEventArg lf)"
  for ac :: accept_arg and dec :: "'d decoder" and n :: nat
  by unfold_locales (rule lf_step_keeps)

lemma lf_inv_start: "lf_inv n (LFServer_run n)"
  by (simp add: lf_inv_def LFServer_run_def lf_threads_def server_inv_start) (simp add: EventArg_new_def)

text \<open>
  A thread asks for the shutdown while the leader waits inside \<open>event_base_loop\<close>: no step but an event
  or a signal moves the leader.
\<close>

fun lf_quiet :: "'d lf_step \<Rightarrow> bool" where
  "lf_quiet (LfEvent st) = False"
| "lf_quiet LfSignal = False"
| "lf_quiet _ = True"

lemma lf_quiet_step:
  assumes "lf_leader lf = LeadEvents False" "lf_quiet st" "lf_step ac dec st lf = Some (Inr lf')"
  shows "lf_leader lf' = LeadEvents False"
  using assms by (cases st)
    (auto simp: lf_step_def Let_def LFServer_lfHandler_def on_lf_def res_bind_eq_Inr_iff split: if_splits)

interpretation lfq: stepper "lf_step ac dec" lf_quiet "\<lambda>lf. lf_inv n lf \<and> lf_leader lf = LeadEvents False" "\<lambda>f st lf. False"
  for ac :: accept_arg and dec :: "'d decoder" and n :: nat
proof
  fix lf :: "'d lf_server" and st r
  assume a: "lf_inv n lf \<and> lf_leader lf = LeadEvents False" "lf_quiet st" "lf_step ac dec st lf = Some r"
  then show "case r of Inr lf' \<Rightarrow> lf_inv n lf' \<and> lf_leader lf' = LeadEvents False | Inl f \<Rightarrow> False"
    using lf_step_keeps [of n lf ac dec st r] lf_quiet_step [of lf st ac dec] by (cases r) auto
qed

lemma lf_quiet_run:
  assumes "lf_inv n lf" "lf_leader lf = LeadEvents False"
  shows "\<exists>lf'. run_steps (lf_step ac dec) (filter lf_quiet steps) lf = Inr lf' \<and> lf_leader lf' = LeadEvents False \<and> lf_gone lf' < n"
proof -
  have "list_all lf_quiet (filter lf_quiet steps)" by (simp add: list_all_iff)
  from lfq.run_inv [OF conjI [OF assms] this, of ac dec] obtain lf' where
    "run_steps (lf_step ac dec) (filter lf_quiet steps) lf = Inr lf'" "lf_inv n lf'" "lf_leader lf' = LeadEvents False"
    by (auto simp: faulted_def split: sum.splits)
  then show ?thesis by (auto simp: lf_inv_def lf_threads_def)
qed

subsection \<open>Properties\<close>

text \<open>
  C9: The thread of SP_Server, its two executors and the shutdown do to the shared state what some run
  of server_step does, so all that holds of those runs holds of the server. It can fail in two
  places only: the assertion of onAccept while the table is full, and a completion that runs after
  start has deleted the completion handler.
\<close>

theorem Server_refines:
  "case run_steps (sv_step ac dec) steps Server_start of
     Inr sv \<Rightarrow> \<exists>us. server_run ac dec us EventArg_new = Inr (sv_mEventArg sv)
   | Inl f \<Rightarrow> faulted (sv_step ac dec) sv_bad f steps Server_start"
proof -
  have start: "sv_mEventArg Server_start = EventArg_new" by (simp add: Server_start_def)
  show ?thesis
    using sf.run_inv [OF sv_inv_start, of steps ac dec] svd.run_driven [of ac dec Server_start steps]
    by (auto simp: start server_run_steps list_all_iff split: sum.splits)
qed

text \<open>
  The completion handler is deleted too early. start deletes it before actExecutor is destroyed,
  and a message given to that executor just before the shutdown is completed by a deleted handler.
\<close>

theorem Server_handler_deleted_early:
  "run_steps (sv_step small_server byte_decoder) shutdown_steps Server_start = Inl UseAfterFree"
  by (rule shutdown_run)

text \<open>
  C8: The threads of SP_LFServer that take turns at the loop do to the shared state what some run of
  server_step does; only the assertion of onAccept can fail, as there. Each thread is idle, waits
  for the mutex, leads, runs one task, or is gone, so no more tasks than threads run at a time.
\<close>

theorem LFServer_refines:
  "case run_steps (lf_step ac dec) steps (LFServer_run n) of
     Inr lf \<Rightarrow> lf_threads lf = n \<and> (\<exists>us. server_run ac dec us EventArg_new = Inr (lf_mEventArg lf))
   | Inl f \<Rightarrow> f = AssertFail \<and> (\<exists>us. server_run ac dec us EventArg_new = Inl f)"
proof -
  have start: "lf_mEventArg (LFServer_run n) = EventArg_new" by (simp add: LFServer_run_def)
  show ?thesis
    using lfs.run_inv [OF lf_inv_start, of steps ac dec n] lfd.run_driven [of ac dec "LFServer_run n" steps]
    by (auto simp: start server_run_steps list_all_iff lf_inv_def faulted_def split: sum.splits)
qed

text \<open>
  SP_LFServer cannot be shut down while it is quiet. When shutdown is called while the leader waits
  in event_base_loop, it stays there until an event or a signal comes; the other threads wait for the
  mutex or leave, and the destructor waits for all four.
\<close>

theorem LFServer_shutdown_hangs:
  "\<exists>lf. run_steps (lf_step ac dec) [LfTest, LfLock, LfLead, LfShutdown] (LFServer_run 4) = Inr lf \<and> lf_mIsShutdown lf \<and>
     (\<forall>steps. \<exists>lf'. run_steps (lf_step ac dec) (filter lf_quiet steps) lf = Inr lf' \<and>
        lf_leader lf' = LeadEvents False \<and> lf_gone lf' < 4)"
proof -
  have q: "ea_mInputResultQueue EventArg_new = []" "ea_mOutputResultQueue EventArg_new = []" by (simp_all add: EventArg_new_def)
  let ?lf = "\<lparr> lf_mEventArg = EventArg_new, lf_mIsShutdown = True, lf_leader = LeadEvents False, lf_idle = 3, lf_waiting = 0, lf_gone = 0 \<rparr>"
  have run: "run_steps (lf_step ac dec) [LfTest, LfLock, LfLead, LfShutdown] (LFServer_run 4) = Inr ?lf"
    by (simp add: lf_step_def LFServer_run_def LFServer_lfHandler_def LFServer_handleOneEvent_def q)
  have "lf_inv 4 ?lf" by (simp add: lf_inv_def lf_threads_def server_inv_start) (simp add: EventArg_new_def)
  then have "\<exists>lf'. run_steps (lf_step ac dec) (filter lf_quiet steps) ?lf = Inr lf' \<and> lf_leader lf' = LeadEvents False \<and> lf_gone lf' < 4" for steps
    by (rule lf_quiet_run) simp
  with run show ?thesis by (intro exI [of _ ?lf]) simp
qed

end
