(* ===== verification/SP_Win32.thy ===== *)
theory SP_Win32
  imports SP_BlockingQueue SP_Run
begin

text \<open>
  What the Windows build does differently: condition variables are auto-reset events
  (spthread.cpp), the queue of responses wakes the loop by a completion (\<open>SP_IocpMsgQueue\<close>,
  spiocpevent.cpp), and a thread posts one accept at a time (\<open>acceptThread\<close>, spiocpserver.cpp).
  The first changes what holds of \<open>SP_BlockingQueue\<close>.
\<close>

subsection \<open>Condition variables\<close>

text \<open>
  \<open>sp_thread_cond_init\<close> creates an auto-reset event that is not set: \<open>SetEvent\<close> sets it, whether or
  not a thread waits, and \<open>WaitForSingleObject\<close> returns to one thread and resets it. The queue and
  the threads inside \<open>sp_thread_cond_wait\<close> are those of \<open>SP_BlockingQueue\<close>: \<open>bq_waiting\<close> are the
  threads that have released the mutex and wait for the event, \<open>bq_woken\<close> those that wait for the
  mutex again.
\<close>

record 'a win_queue =
  wq_queue :: "'a blocking_queue"
  wq_mCond :: bool

definition sp_thread_cond_init :: bool where
  "sp_thread_cond_init = False"

definition sp_thread_cond_signal :: "'a win_queue \<Rightarrow> 'a win_queue" where
  "sp_thread_cond_signal w = w\<lparr> wq_mCond := True \<rparr>"

text \<open>\<open>sp_thread_cond_wait\<close> up to \<open>WaitForSingleObject\<close>, and its return.\<close>

definition sp_thread_cond_wait :: "thread_id \<Rightarrow> 'a win_queue \<Rightarrow> 'a win_queue" where
  "sp_thread_cond_wait t w = w\<lparr> wq_queue := (wq_queue w)\<lparr> bq_waiting := insert t (bq_waiting (wq_queue w)) \<rparr> \<rparr>"

definition cond_wait_returns :: "thread_id \<Rightarrow> 'a win_queue \<Rightarrow> 'a win_queue" where
  "cond_wait_returns t w =
     (let s = wq_queue w
      in w\<lparr> wq_mCond := False,
            wq_queue := s\<lparr> bq_waiting := bq_waiting s - {t}, bq_woken := insert t (bq_woken s) \<rparr> \<rparr>)"

definition win_queue_new :: "'a win_queue" where
  "win_queue_new = \<lparr> wq_queue = BlockingQueue_new, wq_mCond = sp_thread_cond_init \<rparr>"

datatype 'a wq_step = WqPush 'a | WqPop thread_id | WqReturn thread_id | WqWake thread_id

definition wq_step :: "'a wq_step \<Rightarrow> 'a win_queue \<Rightarrow> 'a win_queue res option" where
  "wq_step st w =
     (let s = wq_queue w in
      case st of
        WqPush x \<Rightarrow> Some (Inr (sp_thread_cond_signal (w\<lparr> wq_queue := BlockingQueue_push x None s \<rparr>)))
      | WqPop t \<Rightarrow>
          if bq_idle t s
          then Some (Inr (if BlockingQueue_getLength s = 0 then sp_thread_cond_wait t w
                          else w\<lparr> wq_queue := BlockingQueue_pop t s \<rparr>))
          else None
      | WqReturn t \<Rightarrow> if t \<in> bq_waiting s \<and> wq_mCond w then Some (Inr (cond_wait_returns t w)) else None
      | WqWake t \<Rightarrow> if t \<in> bq_woken s then Some (Inr (w\<lparr> wq_queue := BlockingQueue_pop t s \<rparr>)) else None)"

text \<open>With one consumer: when it waits and the queue holds an item, the event is set.\<close>

fun wq_by :: "thread_id \<Rightarrow> 'a wq_step \<Rightarrow> bool" where
  "wq_by c (WqPush x) = True"
| "wq_by c (WqPop t) = (t = c)"
| "wq_by c (WqReturn t) = (t = c)"
| "wq_by c (WqWake t) = (t = c)"

definition wq_inv :: "thread_id \<Rightarrow> 'a win_queue \<Rightarrow> bool" where
  "wq_inv c w \<longleftrightarrow>
     bq_inv (wq_queue w) \<and> bq_waiting (wq_queue w) \<union> bq_woken (wq_queue w) \<subseteq> {c} \<and>
     bq_waiting (wq_queue w) \<inter> bq_woken (wq_queue w) = {} \<and>
     (bq_waiting (wq_queue w) \<noteq> {} \<and> CircleQueue_abs (bq_mQueue (wq_queue w)) \<noteq> [] \<longrightarrow> wq_mCond w)"

lemma wq_inv_new: "wq_inv c win_queue_new"
  using bq_run_inv [OF bq_run.start]
  by (simp add: wq_inv_def win_queue_new_def) (simp add: BlockingQueue_new_def)

lemma getLength_zero: "BlockingQueue_getLength s = 0 \<longleftrightarrow> CircleQueue_abs (bq_mQueue s) = []"
  using cq_mCount_pos [of "bq_mQueue s"] by (auto simp: BlockingQueue_getLength_def CircleQueue_getLength_def)

interpretation wq: stepper wq_step "wq_by c" "wq_inv c" "\<lambda>f st w. False" for c :: thread_id
proof
  fix w :: "'a win_queue" and st r
  let ?s = "wq_queue w"
  assume inv: "wq_inv c w" and mine: "wq_by c st" and step: "wq_step st w = Some r"
  then have q: "bq_inv ?s" by (simp add: wq_inv_def)
  show "case r of Inr w' \<Rightarrow> wq_inv c w' | Inl f \<Rightarrow> False"
  proof (cases st)
    case (WqPush x)
    then show ?thesis using step inv BlockingQueue_push_inv [OF q, of x None]
      by (auto simp: wq_step_def Let_def sp_thread_cond_signal_def wq_inv_def BlockingQueue_push_def)
  next
    case (WqPop t)
    show ?thesis
    proof (cases "BlockingQueue_getLength ?s = 0")
      case True
      have "bq_inv (?s\<lparr> bq_waiting := insert t (bq_waiting ?s) \<rparr>)" using q by (simp add: bq_inv_def bq_delivered_def)
      then show ?thesis using step inv mine WqPop True getLength_zero [of ?s]
        by (auto simp: wq_step_def Let_def sp_thread_cond_wait_def wq_inv_def bq_idle_def split: if_splits)
    next
      case False
      then show ?thesis using step inv mine WqPop BlockingQueue_pop_inv [OF q, of t]
        by (auto simp: wq_step_def Let_def wq_inv_def bq_pop_sets bq_idle_def split: if_splits)
    qed
  next
    case (WqReturn t)
    have "bq_inv (?s\<lparr> bq_waiting := bq_waiting ?s - {t}, bq_woken := insert t (bq_woken ?s) \<rparr>)"
      using q by (simp add: bq_inv_def bq_delivered_def)
    then show ?thesis using step inv mine WqReturn
      by (auto simp: wq_step_def Let_def cond_wait_returns_def wq_inv_def split: if_splits)
  next
    case (WqWake t)
    have r: "r = Inr (w\<lparr> wq_queue := BlockingQueue_pop t ?s \<rparr>)" and t: "t = c" "c \<in> bq_woken ?s"
      using step mine WqWake by (auto simp: wq_step_def Let_def split: if_splits)
    then have "bq_waiting ?s = {}" "bq_woken ?s = {c}" using inv by (auto simp: wq_inv_def)
    then show ?thesis using BlockingQueue_pop_inv [OF q, of t] by (simp add: r t(1) wq_inv_def bq_pop_sets)
  qed
qed

subsection \<open>SP_IocpMsgQueue\<close>

text \<open>
  \<open>push\<close> posts a packet only when the item it added is the only one; the loop thread takes a packet
  from the completion port and runs \<open>process\<close>, which empties the queue and releases the mutex while it
  runs \<open>mFunc\<close>. \<open>im_handled\<close> and \<open>im_pushed\<close> are histories. \<open>PostQueuedCompletionStatus\<close> may fail; the
  code does not look at its answer.
\<close>

record 'a iocp_msgqueue =
  im_mQueue :: "'a circle_queue"
  im_packets :: nat
  im_processing :: bool
  im_pushed :: "'a list"
  im_handled :: "'a list"

definition IocpMsgQueue_new :: "'a iocp_msgqueue" where
  "IocpMsgQueue_new = \<lparr> im_mQueue = CircleQueue_new, im_packets = 0, im_processing = False, im_pushed = [], im_handled = [] \<rparr>"

definition IocpMsgQueue_push :: "bool \<Rightarrow> 'a \<Rightarrow> 'a iocp_msgqueue \<Rightarrow> 'a iocp_msgqueue" where
  "IocpMsgQueue_push posted x mq =
     (let q = CircleQueue_push x (im_mQueue mq)
      in mq\<lparr> im_mQueue := q, im_pushed := im_pushed mq @ [x],
             im_packets := (if CircleQueue_getLength q = 1 \<and> posted then im_packets mq + 1 else im_packets mq) \<rparr>)"

text \<open>One round of the loop of \<open>process\<close>, with the call of \<open>mFunc\<close>.\<close>

definition IocpMsgQueue_process :: "'a iocp_msgqueue \<Rightarrow> 'a iocp_msgqueue" where
  "IocpMsgQueue_process mq =
     (if 0 < CircleQueue_getLength (im_mQueue mq)
      then case CircleQueue_pop (im_mQueue mq) of (ret, q) \<Rightarrow>
             mq\<lparr> im_mQueue := q, im_handled := im_handled mq @ (case ret of None \<Rightarrow> [] | Some x \<Rightarrow> [x]) \<rparr>
      else mq\<lparr> im_processing := False \<rparr>)"

datatype 'a im_step = ImPush bool 'a | ImPacket | ImProcess

definition im_step :: "'a im_step \<Rightarrow> 'a iocp_msgqueue \<Rightarrow> 'a iocp_msgqueue res option" where
  "im_step st mq =
     (case st of
        ImPush posted x \<Rightarrow> Some (Inr (IocpMsgQueue_push posted x mq))
      | ImPacket \<Rightarrow>
          if 0 < im_packets mq \<and> \<not> im_processing mq
          then Some (Inr (mq\<lparr> im_packets := im_packets mq - 1, im_processing := True \<rparr>)) else None
      | ImProcess \<Rightarrow> if im_processing mq then Some (Inr (IocpMsgQueue_process mq)) else None)"

definition im_ok :: "'a iocp_msgqueue \<Rightarrow> bool" where
  "im_ok mq \<longleftrightarrow> CircleQueue_inv (im_mQueue mq) \<and> im_pushed mq = im_handled mq @ CircleQueue_abs (im_mQueue mq)"

definition im_awake :: "'a iocp_msgqueue \<Rightarrow> bool" where
  "im_awake mq \<longleftrightarrow> CircleQueue_abs (im_mQueue mq) \<noteq> [] \<longrightarrow> 0 < im_packets mq \<or> im_processing mq"

lemma CircleQueue_push_abs:
  "CircleQueue_inv q \<Longrightarrow> CircleQueue_abs (CircleQueue_push x q) = CircleQueue_abs q @ [x] \<and> CircleQueue_inv (CircleQueue_push x q)"
  using cq.push_abs [of q x] cq.push_inv [of q x] by simp

lemma push_im:
  assumes "im_ok mq"
  shows "im_ok (IocpMsgQueue_push posted x mq)"
    "im_packets (IocpMsgQueue_push posted x mq) =
       (if CircleQueue_abs (im_mQueue mq) = [] \<and> posted then im_packets mq + 1 else im_packets mq)"
    "im_processing (IocpMsgQueue_push posted x mq) = im_processing mq"
    "CircleQueue_abs (im_mQueue (IocpMsgQueue_push posted x mq)) = CircleQueue_abs (im_mQueue mq) @ [x]"
proof -
  have q: "CircleQueue_inv (im_mQueue mq)" using assms by (simp add: im_ok_def)
  have "CircleQueue_getLength (CircleQueue_push x (im_mQueue mq)) = Suc (length (CircleQueue_abs (im_mQueue mq)))"
    using cq.len_abs [of "CircleQueue_push x (im_mQueue mq)"] CircleQueue_push_abs [OF q, of x]
    by (simp del: length_CircleQueue_abs)
  then show "im_ok (IocpMsgQueue_push posted x mq)"
    "im_packets (IocpMsgQueue_push posted x mq) =
       (if CircleQueue_abs (im_mQueue mq) = [] \<and> posted then im_packets mq + 1 else im_packets mq)"
    "im_processing (IocpMsgQueue_push posted x mq) = im_processing mq"
    "CircleQueue_abs (im_mQueue (IocpMsgQueue_push posted x mq)) = CircleQueue_abs (im_mQueue mq) @ [x]"
    using assms CircleQueue_push_abs [OF q, of x]
    by (simp_all add: IocpMsgQueue_push_def Let_def im_ok_def del: length_CircleQueue_abs)
qed

lemma process_im:
  assumes "im_ok mq"
  shows "im_ok (IocpMsgQueue_process mq)" "im_packets (IocpMsgQueue_process mq) = im_packets mq"
    "CircleQueue_abs (im_mQueue (IocpMsgQueue_process mq)) = tl (CircleQueue_abs (im_mQueue mq))"
    "im_processing (IocpMsgQueue_process mq) \<longleftrightarrow> CircleQueue_abs (im_mQueue mq) \<noteq> [] \<and> im_processing mq"
proof -
  have q: "CircleQueue_inv (im_mQueue mq)" using assms by (simp add: im_ok_def)
  obtain ret q' where p: "CircleQueue_pop (im_mQueue mq) = (ret, q')" by fastforce
  have len: "0 < CircleQueue_getLength (im_mQueue mq) \<longleftrightarrow> CircleQueue_abs (im_mQueue mq) \<noteq> []"
    using cq_mCount_pos [of "im_mQueue mq"] by (simp add: CircleQueue_getLength_def)
  show "im_ok (IocpMsgQueue_process mq)" "im_packets (IocpMsgQueue_process mq) = im_packets mq"
    "CircleQueue_abs (im_mQueue (IocpMsgQueue_process mq)) = tl (CircleQueue_abs (im_mQueue mq))"
    "im_processing (IocpMsgQueue_process mq) \<longleftrightarrow> CircleQueue_abs (im_mQueue mq) \<noteq> [] \<and> im_processing mq"
    using assms p len cq.pop_fst [OF q] cq.pop_abs [OF q] cq.pop_inv [OF q]
    by (auto simp: IocpMsgQueue_process_def im_ok_def split: list.splits)
qed

fun im_posts :: "'a im_step \<Rightarrow> bool" where
  "im_posts (ImPush posted x) = posted"
| "im_posts _ = True"

interpretation im: stepper im_step "\<lambda>_. True" im_ok "\<lambda>f st mq. False"
proof
  fix mq :: "'a iocp_msgqueue" and st r
  assume "im_ok mq" "im_step st mq = Some r"
  then show "case r of Inr mq' \<Rightarrow> im_ok mq' | Inl f \<Rightarrow> False"
    by (cases st) (auto simp: im_step_def push_im(1) process_im(1) split: if_splits, simp add: im_ok_def)
qed

interpretation ima: stepper im_step im_posts "\<lambda>mq. im_ok mq \<and> im_awake mq" "\<lambda>f st mq. False"
proof
  fix mq :: "'a iocp_msgqueue" and st r
  assume "im_ok mq \<and> im_awake mq" "im_posts st" "im_step st mq = Some r"
  then show "case r of Inr mq' \<Rightarrow> im_ok mq' \<and> im_awake mq' | Inl f \<Rightarrow> False"
    using push_im [of mq] process_im [of mq]
    by (cases st) (auto simp: im_step_def im_awake_def im_ok_def split: if_splits)
qed

text \<open>Nothing posts a packet any more: the queue holds an item, no packet is posted and the loop does not process.\<close>

interpretation imd: stepper im_step "\<lambda>_. True"
    "\<lambda>mq. im_ok mq \<and> CircleQueue_abs (im_mQueue mq) \<noteq> [] \<and> im_packets mq = 0 \<and> \<not> im_processing mq \<and> im_handled mq = hs"
    "\<lambda>f st mq. False" for hs :: "'a list"
proof
  fix mq :: "'a iocp_msgqueue" and st r
  assume "im_ok mq \<and> CircleQueue_abs (im_mQueue mq) \<noteq> [] \<and> im_packets mq = 0 \<and> \<not> im_processing mq \<and> im_handled mq = hs"
    "im_step st mq = Some r"
  then show "case r of Inr mq \<Rightarrow> im_ok mq \<and> CircleQueue_abs (im_mQueue mq) \<noteq> [] \<and> im_packets mq = 0 \<and> \<not> im_processing mq \<and> im_handled mq = hs
    | Inl f \<Rightarrow> False"
    using push_im [of mq] by (cases st) (auto simp: im_step_def IocpMsgQueue_push_def Let_def split: if_splits)
qed

subsection \<open>acceptThread\<close>

text \<open>
  \<open>acceptThread\<close> and the event loop share one \<open>SP_IocpAcceptArg_t\<close>: the thread creates a socket, puts it
  into \<open>mClientSocket\<close>, starts \<open>AcceptEx\<close> on it and waits for \<open>mAcceptEvent\<close>, a manual-reset event that
  the loop sets at the end of \<open>onAccept\<close> or after a failed accept. \<open>ap_pending\<close> is the socket whose
  \<open>AcceptEx\<close> the kernel has not completed. Using a socket that is not ready for it is a fault.
\<close>

datatype sock_state = Opened | Accepting | InSession | Closed

datatype accept_pc = ApSocket | ApAccept | ApWait | ApReset

record accept_state =
  ap_mClientSocket :: "nat option"
  ap_mAcceptEvent :: bool
  ap_pc :: accept_pc
  ap_pending :: "nat option"
  ap_socks :: "nat \<Rightarrow> sock_state option"
  ap_next :: nat

definition acceptThread_start :: accept_state where
  "acceptThread_start = \<lparr> ap_mClientSocket = None, ap_mAcceptEvent = False, ap_pc = ApSocket, ap_pending = None,
     ap_socks = Map.empty, ap_next = 0 \<rparr>"

text \<open>The socket in \<open>mClientSocket\<close> goes from one state to another.\<close>

definition move_socket :: "sock_state \<Rightarrow> sock_state \<Rightarrow> accept_state \<Rightarrow> accept_state res" where
  "move_socket from_state to_state ap =
     (case ap_mClientSocket ap of
        None \<Rightarrow> Inl UseAfterFree
      | Some k \<Rightarrow> if ap_socks ap k = Some from_state then Inr (ap\<lparr> ap_socks := (ap_socks ap)(k \<mapsto> to_state) \<rparr>)
                  else Inl UseAfterFree)"

text \<open>\<open>ok\<close> says whether \<open>WSASocket\<close> gave a socket, and whether \<open>AcceptEx\<close> succeeded or is pending.\<close>

definition acceptThread :: "bool \<Rightarrow> accept_state \<Rightarrow> accept_state res option" where
  "acceptThread ok ap =
     (case ap_pc ap of
        ApSocket \<Rightarrow>
          Some (Inr (if ok then ap\<lparr> ap_mClientSocket := Some (ap_next ap), ap_socks := (ap_socks ap)(ap_next ap \<mapsto> Opened),
                        ap_next := ap_next ap + 1, ap_pc := ApAccept \<rparr>
                     else ap\<lparr> ap_mClientSocket := None \<rparr>))
      | ApAccept \<Rightarrow>
          Some (if ok then res_bind (move_socket Opened Accepting ap) (\<lambda>ap'. Inr (ap'\<lparr> ap_pending := ap_mClientSocket ap, ap_pc := ApWait \<rparr>))
                else res_bind (move_socket Opened Closed ap) (\<lambda>ap'. Inr (ap'\<lparr> ap_pc := ApSocket \<rparr>)))
      | ApWait \<Rightarrow> if ap_mAcceptEvent ap then Some (Inr (ap\<lparr> ap_pc := ApReset \<rparr>)) else None
      | ApReset \<Rightarrow> Some (Inr (ap\<lparr> ap_mAcceptEvent := False, ap_pc := ApSocket \<rparr>)))"

text \<open>
  The loop thread: \<open>onAccept\<close> after a completed accept gives the socket to a session, or closes it when
  \<open>addSession\<close> fails; a failed accept closes it. Both set the event.
\<close>

definition accept_completes :: "bool \<Rightarrow> accept_state \<Rightarrow> accept_state res option" where
  "accept_completes added ap =
     (case ap_pending ap of
        None \<Rightarrow> None
      | Some _ \<Rightarrow> Some (res_bind (move_socket Accepting (if added then InSession else Closed) (ap\<lparr> ap_pending := None \<rparr>))
          (\<lambda>ap'. Inr (ap'\<lparr> ap_mAcceptEvent := True \<rparr>))))"

datatype ap_step = ApThread bool | ApDone bool

definition ap_step :: "ap_step \<Rightarrow> accept_state \<Rightarrow> accept_state res option" where
  "ap_step st ap = (case st of ApThread ok \<Rightarrow> acceptThread ok ap | ApDone added \<Rightarrow> accept_completes added ap)"

definition ap_inv :: "accept_state \<Rightarrow> bool" where
  "ap_inv ap \<longleftrightarrow>
     (\<forall>k. ap_socks ap k = Some Opened \<longleftrightarrow> ap_pc ap = ApAccept \<and> ap_mClientSocket ap = Some k) \<and>
     (\<forall>k. ap_socks ap k = Some Accepting \<longleftrightarrow> ap_pending ap = Some k) \<and>
     (ap_pc ap = ApAccept \<longrightarrow> ap_mClientSocket ap \<noteq> None) \<and>
     (ap_pending ap \<noteq> None \<longrightarrow> ap_pc ap = ApWait \<and> \<not> ap_mAcceptEvent ap \<and> ap_mClientSocket ap = ap_pending ap) \<and>
     (ap_pc ap = ApWait \<and> ap_pending ap = None \<longrightarrow> ap_mAcceptEvent ap) \<and>
     (ap_mAcceptEvent ap \<longrightarrow> ap_pc ap = ApWait \<or> ap_pc ap = ApReset) \<and>
     (\<forall>k \<ge> ap_next ap. ap_socks ap k = None)"

lemma ap_inv_start: "ap_inv acceptThread_start"
  by (simp add: ap_inv_def acceptThread_start_def)

lemma acceptThread_keeps:
  assumes inv: "ap_inv ap" and step: "acceptThread ok ap = Some r"
  shows "\<exists>ap'. r = Inr ap' \<and> ap_inv ap'"
proof (cases "ap_pc ap")
  case ApSocket
  then have "ap_pending ap = None" using inv by (auto simp: ap_inv_def)
  with ApSocket show ?thesis using step inv
    by (cases ok) (auto simp: acceptThread_def ap_inv_def, (metis nle_le not_less_eq_eq option.distinct(1))?)
next
  case ApAccept
  then obtain k where k: "ap_mClientSocket ap = Some k" using inv by (auto simp: ap_inv_def)
  with ApAccept have o: "ap_socks ap k = Some Opened" "ap_pending ap = None" using inv by (auto simp: ap_inv_def)
  have "ap_next ap \<le> k \<Longrightarrow> ap_socks ap k = None" using inv by (simp add: ap_inv_def)
  with o have "\<not> ap_next ap \<le> k" by auto
  with o k ApAccept show ?thesis using step inv
    by (cases ok) (auto simp: acceptThread_def move_socket_def ap_inv_def)
qed (use step inv in \<open>auto simp: acceptThread_def ap_inv_def split: if_splits\<close>)

lemma accept_completes_keeps:
  assumes inv: "ap_inv ap" and step: "accept_completes added ap = Some r"
  shows "\<exists>ap'. r = Inr ap' \<and> ap_inv ap'"
proof -
  from step obtain k where k: "ap_pending ap = Some k" by (auto simp: accept_completes_def split: option.splits)
  then have o: "ap_mClientSocket ap = Some k" "ap_socks ap k = Some Accepting" "ap_pc ap = ApWait"
    using inv by (auto simp: ap_inv_def)
  have "ap_next ap \<le> k \<Longrightarrow> ap_socks ap k = None" using inv by (simp add: ap_inv_def)
  with o have "\<not> ap_next ap \<le> k" by auto
  with o k show ?thesis using step inv
    by (auto simp: accept_completes_def move_socket_def ap_inv_def)
qed

interpretation ap: stepper ap_step "\<lambda>_. True" ap_inv "\<lambda>f st ap. False"
proof
  fix ap st r
  assume "ap_inv ap" "ap_step st ap = Some r"
  then show "case r of Inr ap' \<Rightarrow> ap_inv ap' | Inl f \<Rightarrow> False"
    using acceptThread_keeps [of ap] accept_completes_keeps [of ap]
    by (cases st) (fastforce simp: ap_step_def)+
qed

subsection \<open>Properties\<close>

text \<open>
  C38: On Windows a queue with one consumer loses no wake-up: whatever the interleaving with the
  producers, items leave in the order they were pushed, and when the consumer waits while the queue
  holds an item, the event is set and its wait returns.
\<close>

theorem win_queue_no_lost_wakeup:
  "\<exists>w. run_steps wq_step (filter (wq_by c) steps) win_queue_new = Inr w \<and>
    bq_pushed (wq_queue w) = bq_delivered (wq_queue w) @ CircleQueue_abs (bq_mQueue (wq_queue w)) \<and>
    (bq_waiting (wq_queue w) = {} \<or> CircleQueue_abs (bq_mQueue (wq_queue w)) = [] \<or> wq_mCond w)"
  using wq.run_inv [OF wq_inv_new, of c "filter (wq_by c) steps"]
  by (auto simp: faulted_def wq_inv_def bq_inv_def list_all_iff split: sum.splits)

text \<open>
  The event of sp_thread_cond_signal is not a condition variable. A signal that nobody waits for
  is kept: a lone consumer pops an item that was pushed before, without waiting, pops again and gets NULL
  at once, which under POSIX only a spurious wake-up can do. And two signals are one: two consumers wait, two items are pushed, and one of the
  consumers waits on with an item in the queue and no signal left.
\<close>

theorem win_queue_signals:
  "(\<exists>w. run_steps wq_step [WqPush (7 :: nat), WqPop 1, WqPop 1, WqReturn 1, WqWake 1] win_queue_new = Inr w \<and>
      bq_popped (wq_queue w) = [(1, Some 7), (1, None)]) \<and>
   (\<exists>w. run_steps wq_step [WqPop 1, WqPop 2, WqPush (7 :: nat), WqPush 8, WqReturn 1, WqWake 1] win_queue_new = Inr w \<and>
      bq_popped (wq_queue w) = [(1, Some 7)] \<and> BlockingQueue_getLength (wq_queue w) = 1 \<and>
      bq_waiting (wq_queue w) = {2} \<and> wq_step (WqReturn 2) w = None)"
  by (simp add: wq_step_def win_queue_new_def Let_def bq_idle_def BlockingQueue_new_def BlockingQueue_getLength_def
      BlockingQueue_push_def BlockingQueue_pop_def CircleQueue_getLength_def CircleQueue_push_def CircleQueue_pop_def
      CircleQueue_grow_def CircleQueue_new_def sp_thread_cond_signal_def sp_thread_cond_wait_def cond_wait_returns_def
      sp_thread_cond_init_def) auto

text \<open>
  C37: The message queue of the completion port handles every item once and in order, and as long as
  every post succeeds, an item in it is never forgotten: a packet is posted or the loop is processing.
\<close>

theorem IocpMsgQueue_awake:
  "\<exists>mq. run_steps im_step (filter im_posts steps) IocpMsgQueue_new = Inr mq \<and>
    im_pushed mq = im_handled mq @ CircleQueue_abs (im_mQueue mq) \<and>
    (CircleQueue_abs (im_mQueue mq) = [] \<or> 0 < im_packets mq \<or> im_processing mq)"
proof -
  have "im_ok (IocpMsgQueue_new :: 'a iocp_msgqueue) \<and> im_awake (IocpMsgQueue_new :: 'a iocp_msgqueue)"
    by (simp add: im_ok_def im_awake_def IocpMsgQueue_new_def)
  from ima.run_inv [OF this, of "filter im_posts steps"] show ?thesis
    by (auto simp: faulted_def im_ok_def im_awake_def list_all_iff split: sum.splits)
qed

text \<open>
  One failed post stops the queue for good. push does not look at the answer of
  PostQueuedCompletionStatus and posts for the first item only: once that post has failed, no schedule
  and no later push, however it fares, makes the loop handle any item again.
\<close>

theorem IocpMsgQueue_stuck:
  "\<forall>steps. \<exists>mq. run_steps im_step (ImPush False x # steps) IocpMsgQueue_new = Inr mq \<and> im_handled mq = []"
proof
  fix steps
  let ?mq = "IocpMsgQueue_push False x IocpMsgQueue_new"
  have new: "im_ok (IocpMsgQueue_new :: 'a iocp_msgqueue)" by (simp add: im_ok_def IocpMsgQueue_new_def)
  have "im_ok ?mq \<and> CircleQueue_abs (im_mQueue ?mq) \<noteq> [] \<and> im_packets ?mq = 0 \<and> \<not> im_processing ?mq \<and> im_handled ?mq = []"
    using push_im [OF new, of False x] by (simp add: IocpMsgQueue_push_def IocpMsgQueue_new_def Let_def)
  from imd.run_inv [OF this, of steps]
  show "\<exists>mq. run_steps im_step (ImPush False x # steps) IocpMsgQueue_new = Inr mq \<and> im_handled mq = []"
    by (auto simp: faulted_def list_all_iff im_step_def split: sum.splits)
qed

text \<open>
  C34: The thread that accepts and the loop hand the socket over without a lock: in every schedule the
  loop finds in mClientSocket the socket whose AcceptEx completed, no socket is closed twice or used
  after it was closed, and every socket but the current one is in a session or closed.
\<close>

theorem accept_handshake:
  "\<exists>ap. run_steps ap_step steps acceptThread_start = Inr ap \<and>
     (case ap_pending ap of None \<Rightarrow> True | Some k \<Rightarrow> ap_mClientSocket ap = Some k \<and> ap_socks ap k = Some Accepting) \<and>
     {k. ap_socks ap k \<in> {Some Opened, Some Accepting}} \<subseteq> set_option (ap_mClientSocket ap)"
proof -
  have "list_all (\<lambda>_. True) steps" by (simp add: list_all_iff)
  from ap.run_inv [OF ap_inv_start this] obtain ap where r: "run_steps ap_step steps acceptThread_start = Inr ap" "ap_inv ap"
    by (auto simp: faulted_def split: sum.splits)
  then show ?thesis by (intro exI [of _ ap]) (auto simp: ap_inv_def split: option.splits)
qed

end
