(* ===== verification/SP_Matrixssl.thy ===== *)
theory SP_Matrixssl
  imports SP_IOChannel
begin

text \<open>
  The TLS channel on MatrixSSL: \<open>sslRead\<close>, \<open>sslWrite\<close> and \<open>sslAccept\<close> (matrixssl/sslSocket.c) and
  \<open>SP_MatrixsslChannel\<close> (matrixssl/spmatrixssl.cpp). The library itself, \<open>matrixSslDecode\<close>,
  \<open>matrixSslEncode\<close> and \<open>matrixSslHandshakeIsComplete\<close>, and the constant \<open>SSL_MAX_BUF_SIZE\<close> are
  parameters; \<open>'k\<close> is the type of its session \<open>ssl_t\<close>.
\<close>

subsection \<open>Connections and sockets\<close>

text \<open>
  \<open>SSL_ALERT\<close> carries whether the alert is \<open>SSL_ALERT_CLOSE_NOTIFY\<close>. \<open>matrixSslDecode\<close> gets the session,
  the bytes in \<open>insock\<close> and the room in \<open>inbuf\<close>; it answers the code, the new session, how many bytes it took
  from \<open>insock\<close> and what it put into \<open>inbuf\<close>. \<open>matrixSslEncode\<close> appends to \<open>outsock\<close>.
\<close>

datatype ssl_rc = SSL_SUCCESS | SSL_PROCESS_DATA | SSL_SEND_RESPONSE | SSL_ERROR | SSL_ALERT bool | SSL_PARTIAL | SSL_FULL

type_synonym 'k ssl_decode = "'k \<Rightarrow> bytes \<Rightarrow> nat \<Rightarrow> ssl_rc \<times> 'k \<times> nat \<times> bytes"
type_synonym 'k ssl_encode = "'k \<Rightarrow> bytes \<Rightarrow> nat \<Rightarrow> ssl_rc \<times> 'k \<times> bytes"

text \<open>\<open>sslBuf_t\<close>: how far \<open>start\<close> is from \<open>buf\<close>, the bytes from \<open>start\<close> to \<open>end\<close>, and \<open>size\<close>.\<close>

record ssl_buf =
  sb_start :: nat
  sb_data :: bytes
  sb_size :: nat

record 'k ssl_conn =
  cn_ssl :: 'k
  cn_inbuf :: "ssl_buf option"
  cn_insock :: ssl_buf
  cn_outsock :: ssl_buf
  cn_outBufferCount :: nat

definition EAGAIN :: int where "EAGAIN = 11"
definition SSLSOCKET_EOF :: int where "SSLSOCKET_EOF = 1"
definition SSLSOCKET_CLOSE_NOTIFY :: int where "SSLSOCKET_CLOSE_NOTIFY = 2"

text \<open>
  A socket: the segments (\<open>Inr\<close>) and errors (\<open>Inl\<close>) that \<open>recv\<close> meets, the empty segment is the end
  of the stream; what the next calls of \<open>send\<close> answer; what was sent. When the list of segments is
  used up, a blocking \<open>recv\<close> does not return (\<open>None\<close>); a blocking \<open>send\<close> sends everything.
\<close>

record ssl_net =
  nt_block :: bool
  nt_recv :: "(int + bytes) list"
  nt_send :: "(int + nat) list"
  nt_sent :: bytes

definition sock_recv :: "nat \<Rightarrow> ssl_net \<Rightarrow> ((int + bytes) \<times> ssl_net) option" where
  "sock_recv n net =
     (case nt_recv net of
        [] \<Rightarrow> if nt_block net then None else Some (Inl EAGAIN, net)
      | Inl e # r \<Rightarrow> Some (Inl e, net\<lparr> nt_recv := r \<rparr>)
      | Inr b # r \<Rightarrow> Some (Inr (take n b), net\<lparr> nt_recv := (if n < length b \<or> b = [] then Inr (drop n b) # r else r) \<rparr>))"

definition sock_send :: "bytes \<Rightarrow> ssl_net \<Rightarrow> (int + nat) \<times> ssl_net" where
  "sock_send data net =
     (case nt_send net of
        [] \<Rightarrow> if nt_block net then (Inr (length data), net\<lparr> nt_sent := nt_sent net @ data \<rparr>) else (Inl EAGAIN, net)
      | Inl e # r \<Rightarrow> (Inl e, net\<lparr> nt_send := r \<rparr>)
      | Inr k # r \<Rightarrow>
          let n = (if nt_block net then length data else min k (length data))
          in (Inr n, net\<lparr> nt_send := r, nt_sent := nt_sent net @ take n data \<rparr>))"

definition setSocketBlock :: "ssl_net \<Rightarrow> ssl_net" where "setSocketBlock net = net\<lparr> nt_block := True \<rparr>"
definition setSocketNonblock :: "ssl_net \<Rightarrow> ssl_net" where "setSocketNonblock net = net\<lparr> nt_block := False \<rparr>"

text \<open>Packing moves the bytes to the start of the allocation.\<close>

definition ssl_pack :: "ssl_buf \<Rightarrow> ssl_buf" where
  "ssl_pack b = (if 0 < sb_start b then b\<lparr> sb_start := 0 \<rparr> else b)"

definition ssl_take :: "nat \<Rightarrow> ssl_buf \<Rightarrow> ssl_buf" where
  "ssl_take n b = b\<lparr> sb_start := sb_start b + min n (length (sb_data b)), sb_data := drop n (sb_data b) \<rparr>"

definition ssl_room :: "ssl_buf \<Rightarrow> nat" where
  "ssl_room b = sb_size b - (sb_start b + length (sb_data b))"

subsection \<open>sslRead\<close>

text \<open>The loop at \<open>decodeMore\<close>: as long as the answer is \<open>SSL_FULL\<close>, a buffer of twice the size.\<close>

partial_function (option) decodeMore :: "'k ssl_decode \<Rightarrow> nat \<Rightarrow> 'k ssl_conn \<Rightarrow> (ssl_rc \<times> 'k ssl_conn) option" where
  "decodeMore dec room cp =
     (case dec (cn_ssl cp) (sb_data (cn_insock cp)) room of (rc, k, n, out) \<Rightarrow>
        let cp' = cp\<lparr> cn_ssl := k, cn_insock := ssl_take n (cn_insock cp),
                     cn_inbuf := Some \<lparr> sb_start = 0, sb_data = out, sb_size = room \<rparr> \<rparr>
        in if rc = SSL_FULL then decodeMore dec (room * 2) cp' else Some (rc, cp'))"

text \<open>
  An answer of \<open>sslRead\<close>: the return value, \<open>status\<close>, the bytes put into the caller's buffer, the
  connection and the socket.
\<close>

type_synonym 'k ssl_read = "(int \<times> int \<times> bytes \<times> 'k ssl_conn \<times> ssl_net) res option"

definition inbuf_data :: "'k ssl_conn \<Rightarrow> bytes" where
  "inbuf_data cp = (case cn_inbuf cp of None \<Rightarrow> [] | Some b \<Rightarrow> sb_data b)"

definition inbuf_take :: "nat \<Rightarrow> 'k ssl_conn \<Rightarrow> 'k ssl_conn" where
  "inbuf_take n cp = cp\<lparr> cn_inbuf := map_option (ssl_take n) (cn_inbuf cp) \<rparr>"

text \<open>
  A response to the peer. When the first \<open>send\<close> would block, -1 is added to \<open>start\<close> and the next send
  begins in front of the allocation.
\<close>

definition send_response :: "'k ssl_conn \<Rightarrow> ssl_net \<Rightarrow> 'k ssl_read" where
  "send_response cp net =
     (let reset = cp\<lparr> cn_inbuf := map_option (\<lambda>b. b\<lparr> sb_start := 0, sb_data := [] \<rparr>) (cn_inbuf cp) \<rparr> in
      case sock_send (inbuf_data cp) net of
        (Inl e, net1) \<Rightarrow> if e \<noteq> EAGAIN then Some (Inr (-1, e, [], cp, net1)) else Some (Inl OutOfBounds)
      | (Inr n, net1) \<Rightarrow>
          if n < length (inbuf_data cp) then
            (case sock_send (drop n (inbuf_data cp)) (setSocketBlock net1) of
               (Inl e, net2) \<Rightarrow> Some (Inr (-1, e, [], inbuf_take n cp, net2))
             | (Inr n2, net2) \<Rightarrow> Some (Inr (0, 0, [], reset, setSocketNonblock net2)))
          else Some (Inr (0, 0, [], reset, net1)))"

text \<open>\<open>insock\<close> is full and the record is not complete.\<close>

definition grow_insock :: "nat \<Rightarrow> ssl_buf \<Rightarrow> ssl_buf option" where
  "grow_insock mx b =
     (if sb_start b = 0 \<and> length (sb_data b) = sb_size b
      then if mx < sb_size b then None else Some (b\<lparr> sb_size := sb_size b * 2 \<rparr>)
      else Some b)"

text \<open>
  From the allocation of \<open>inbuf\<close> to the end. \<open>again\<close> is the jump to \<open>readMore\<close>, there only when
  \<open>performRead\<close> is not set.
\<close>

definition read_decode :: "'k ssl_decode \<Rightarrow> nat \<Rightarrow> nat \<Rightarrow> ('k ssl_conn \<Rightarrow> ssl_net \<Rightarrow> 'k ssl_read) option \<Rightarrow>
    'k ssl_conn \<Rightarrow> ssl_net \<Rightarrow> 'k ssl_read" where
  "read_decode dec mx len again cp0 net =
     (case decodeMore dec len cp0 of
        None \<Rightarrow> None
      | Some (rc, cp) \<Rightarrow>
          (case rc of
             SSL_PROCESS_DATA \<Rightarrow>
               let n = min (length (inbuf_data cp)) len
               in Some (Inr (int n, 0, take n (inbuf_data cp), inbuf_take n cp, net))
           | SSL_SEND_RESPONSE \<Rightarrow> send_response cp net
           | SSL_ERROR \<Rightarrow>
               Some (Inr (-1, 0, [], cp,
                 if inbuf_data cp \<noteq> [] then snd (sock_send (inbuf_data cp) (setSocketNonblock net)) else net))
           | SSL_ALERT closing \<Rightarrow>
               Some (Inr (if closing then (0, SSLSOCKET_CLOSE_NOTIFY, [], cp, net) else (-1, 0, [], cp, net)))
           | SSL_PARTIAL \<Rightarrow>
               (case grow_insock mx (cn_insock cp) of
                  None \<Rightarrow> Some (Inr (-1, 0, [], cp, net))
                | Some b \<Rightarrow>
                    (case again of
                       None \<Rightarrow> Some (Inr (0, 0, [], cp\<lparr> cn_insock := b \<rparr>, net))
                     | Some jump \<Rightarrow> jump (cp\<lparr> cn_insock := b, cn_inbuf := None \<rparr>) net))
           | _ \<Rightarrow> Some (Inr (0, 0, [], cp, net))))"

text \<open>\<open>readMore\<close> with \<open>performRead\<close> set.\<close>

definition readMore :: "'k ssl_decode \<Rightarrow> nat \<Rightarrow> nat \<Rightarrow> 'k ssl_conn \<Rightarrow> ssl_net \<Rightarrow> 'k ssl_read" where
  "readMore dec mx len cp net =
     (case sock_recv (ssl_room (cn_insock cp)) net of
        None \<Rightarrow> None
      | Some (Inl e, net1) \<Rightarrow> Some (Inr (-1, e, [], cp, net1))
      | Some (Inr bs, net1) \<Rightarrow>
          if bs = [] then Some (Inr (0, SSLSOCKET_EOF, [], cp, net1))
          else read_decode dec mx len None
                 (cp\<lparr> cn_insock := (cn_insock cp)\<lparr> sb_data := sb_data (cn_insock cp) @ bs \<rparr> \<rparr>) net1)"

definition sslRead :: "'k ssl_decode \<Rightarrow> nat \<Rightarrow> nat \<Rightarrow> 'k ssl_conn \<Rightarrow> ssl_net \<Rightarrow> 'k ssl_read" where
  "sslRead dec mx len cp net =
     (if len = 0 then Some (Inr (-1, 0, [], cp, net))
      else if inbuf_data cp \<noteq> [] then
        let n = min len (length (inbuf_data cp))
        in Some (Inr (int n, 0, take n (inbuf_data cp), inbuf_take n cp, net))
      else
        let cp1 = cp\<lparr> cn_inbuf := None, cn_insock := ssl_pack (cn_insock cp) \<rparr>
        in if sb_data (cn_insock cp1) = [] then readMore dec mx len cp1 net
           else read_decode dec mx len (Some (readMore dec mx len)) cp1 net)"

subsection \<open>sslWrite\<close>

partial_function (option) retryEncode :: "'k ssl_encode \<Rightarrow> nat \<Rightarrow> bytes \<Rightarrow> 'k ssl_conn \<Rightarrow> (bool \<times> 'k ssl_conn) option" where
  "retryEncode enc mx buf cp =
     (let b = cn_outsock cp in
      case enc (cn_ssl cp) buf (ssl_room b) of (rc, k, out) \<Rightarrow>
        if rc = SSL_ERROR then Some (False, cp\<lparr> cn_ssl := k \<rparr>)
        else if rc = SSL_FULL then
          if mx < sb_size b then Some (False, cp\<lparr> cn_ssl := k \<rparr>)
          else retryEncode enc mx buf (cp\<lparr> cn_ssl := k, cn_outsock := b\<lparr> sb_start := 0, sb_size := sb_size b * 2 \<rparr> \<rparr>)
        else Some (True, cp\<lparr> cn_ssl := k, cn_outsock := b\<lparr> sb_data := sb_data b @ out \<rparr> \<rparr>))"

text \<open>The answer: the return value, \<open>status\<close>, the connection, the socket.\<close>

definition write_out :: "nat \<Rightarrow> 'k ssl_conn \<Rightarrow> ssl_net \<Rightarrow> int \<times> int \<times> 'k ssl_conn \<times> ssl_net" where
  "write_out len cp net =
     (case sock_send (sb_data (cn_outsock cp)) net of
        (Inl e, net1) \<Rightarrow> (-1, e, cp, net1)
      | (Inr n, net1) \<Rightarrow>
          let cp1 = cp\<lparr> cn_outsock := ssl_take n (cn_outsock cp) \<rparr>
          in if sb_data (cn_outsock cp1) = [] then (int len, 0, cp1\<lparr> cn_outBufferCount := 0 \<rparr>, net1)
             else (0, 0, cp1\<lparr> cn_outBufferCount := len \<rparr>, net1))"

definition sslWrite :: "'k ssl_encode \<Rightarrow> nat \<Rightarrow> bytes \<Rightarrow> 'k ssl_conn \<Rightarrow> ssl_net \<Rightarrow>
    (int \<times> int \<times> 'k ssl_conn \<times> ssl_net) option" where
  "sslWrite enc mx buf cp0 net =
     (let cp = cp0\<lparr> cn_outsock := ssl_pack (cn_outsock cp0) \<rparr> in
      if 0 < cn_outBufferCount cp \<and> length buf \<noteq> cn_outBufferCount cp then Some (-1, 0, cp, net)
      else if cn_outBufferCount cp = 0 then
        (case retryEncode enc mx buf cp of
           None \<Rightarrow> None
         | Some (encoded, cp1) \<Rightarrow> Some (if encoded then write_out (length buf) cp1 net else (-1, 0, cp1, net)))
      else Some (write_out (length buf) cp net))"

subsection \<open>The channel\<close>

text \<open>
  \<open>write_vec\<close> is the same loop in all four channels: one call of the library for each block, until one
  does not take its whole block. \<open>wr\<close> is that call, with its answer.
\<close>

fun tls_write_vec :: "(bytes \<Rightarrow> 's \<Rightarrow> (int \<times> 's) option) \<Rightarrow> bytes list \<Rightarrow> int \<Rightarrow> 's \<Rightarrow> (int \<times> 's) option" where
  "tls_write_vec wr [] len s = Some (len, s)"
| "tls_write_vec wr (b # bs) len s =
     (case wr b s of
        None \<Rightarrow> None
      | Some (ret, s1) \<Rightarrow>
          let len1 = (if 0 < ret then len + ret else len)
          in if ret \<noteq> int (length b) then Some (len1, s1) else tls_write_vec wr bs len1 s1)"

text \<open>In \<open>SP_MatrixsslChannel\<close> the status goes to \<open>errno\<close>.\<close>

definition Matrixssl_write_vec :: "'k ssl_encode \<Rightarrow> nat \<Rightarrow> bytes list \<Rightarrow> 'k ssl_conn \<times> ssl_net \<times> int \<Rightarrow>
    (int \<times> 'k ssl_conn \<times> ssl_net \<times> int) option" where
  "Matrixssl_write_vec enc mx iov =
     tls_write_vec (\<lambda>b (cp, net, errno).
       map_option (\<lambda>(ret, status, cp', net'). (ret, cp', net', status)) (sslWrite enc mx b cp net)) iov 0"

definition Matrixssl_receive :: "'k ssl_decode \<Rightarrow> nat \<Rightarrow> bytes \<Rightarrow> 'k ssl_conn \<Rightarrow> ssl_net \<Rightarrow>
    (int \<times> int \<times> bytes \<times> 'k ssl_conn \<times> ssl_net) res option" where
  "Matrixssl_receive dec mx inBuffer cp net =
     map_option (\<lambda>r. res_bind r (\<lambda>(ret, status, bs, cp', net').
       Inr (ret, status, if 0 < ret then inBuffer @ bs else inBuffer, cp', net'))) (sslRead dec mx 4096 cp net)"

text \<open>
  \<open>mConn\<close> is \<open>NULL\<close> (\<open>None\<close>) or points to a connection that is there or freed. \<open>sslAccept\<close> has put its
  connection into \<open>*cpp\<close> before it reads.
\<close>

datatype 'k conn_cell = Live "'k ssl_conn" | Freed

definition sslAccept_new :: "'k \<Rightarrow> 'k ssl_conn" where
  "sslAccept_new k = \<lparr> cn_ssl = k, cn_inbuf = None, cn_insock = \<lparr> sb_start = 0, sb_data = [], sb_size = 1024 \<rparr>,
     cn_outsock = \<lparr> sb_start = 0, sb_data = [], sb_size = 1024 \<rparr>, cn_outBufferCount = 0 \<rparr>"

partial_function (option) accept_loop :: "'k ssl_decode \<Rightarrow> ('k \<Rightarrow> bool) \<Rightarrow> nat \<Rightarrow> 'k ssl_conn \<Rightarrow> ssl_net \<Rightarrow>
    (int \<times> 'k conn_cell option \<times> ssl_net) res option" where
  "accept_loop dec complete mx cp net =
     (case sslRead dec mx 1024 cp net of
        None \<Rightarrow> None
      | Some (Inl f) \<Rightarrow> Some (Inl f)
      | Some (Inr (rc, status, bs, cp1, net1)) \<Rightarrow>
          if rc = 0 then
            if status = SSLSOCKET_EOF \<or> status = SSLSOCKET_CLOSE_NOTIFY then Some (Inr (-1, Some Freed, net1))
            else if \<not> complete (cn_ssl cp1) then accept_loop dec complete mx cp1 net1
            else Some (Inr (0, Some (Live cp1), net1))
          else if 0 < rc then Some (Inr (-1, Some (Live cp1), net1))
          else Some (Inr (-1, Some Freed, net1)))"

text \<open>\<open>session\<close> is what \<open>matrixSslNewSession\<close> makes, \<open>None\<close> when it fails.\<close>

definition sslAccept :: "'k ssl_decode \<Rightarrow> ('k \<Rightarrow> bool) \<Rightarrow> nat \<Rightarrow> 'k option \<Rightarrow> ssl_net \<Rightarrow>
    (int \<times> 'k conn_cell option \<times> ssl_net) res option" where
  "sslAccept dec complete mx session net =
     (case session of
        None \<Rightarrow> Some (Inr (-1, None, net))
      | Some k \<Rightarrow> accept_loop dec complete mx (sslAccept_new k) net)"

definition Matrixssl_init :: "'k ssl_decode \<Rightarrow> ('k \<Rightarrow> bool) \<Rightarrow> nat \<Rightarrow> 'k option \<Rightarrow> ssl_net \<Rightarrow>
    (int \<times> 'k conn_cell option \<times> ssl_net) res option" where
  "Matrixssl_init dec complete mx session net =
     map_option (\<lambda>r. res_bind r (\<lambda>(ret, mConn, net'). Inr (if ret \<noteq> 0 then -1 else 0, mConn, setSocketNonblock net')))
       (sslAccept dec complete mx session (setSocketBlock net))"

definition sslFreeConnection :: "'k conn_cell \<Rightarrow> unit res" where
  "sslFreeConnection c = (case c of Freed \<Rightarrow> Inl UseAfterFree | Live cp \<Rightarrow> Inr ())"

definition Matrixssl_delete :: "'k conn_cell option \<Rightarrow> unit res" where
  "Matrixssl_delete mConn = (case mConn of None \<Rightarrow> Inr () | Some c \<Rightarrow> sslFreeConnection c)"

subsection \<open>What a decoder promises\<close>

text \<open>
  \<open>recs k d\<close> is the first record of the bytes \<open>d\<close> in session \<open>k\<close>, when they hold a complete one: the
  code, the next session, the length of the record and its content. A decoder that is documented by
  \<open>recs\<close> answers \<open>SSL_PARTIAL\<close> without a complete record and \<open>SSL_FULL\<close> without room for the content, and then
  changes nothing; what follows a complete record does not matter to it.
\<close>

type_synonym 'k ssl_records = "'k \<Rightarrow> bytes \<Rightarrow> (ssl_rc \<times> 'k \<times> nat \<times> bytes) option"

definition record_ok :: "'k ssl_records \<Rightarrow> bool" where
  "record_ok recs \<longleftrightarrow> (\<forall>k d rc k' n out. recs k d = Some (rc, k', n, out) \<longrightarrow>
     0 < n \<and> n \<le> length d \<and> rc \<noteq> SSL_PARTIAL \<and> rc \<noteq> SSL_FULL \<and>
     (out = [] \<or> rc = SSL_PROCESS_DATA \<or> rc = SSL_SEND_RESPONSE \<or> rc = SSL_ERROR) \<and>
     (\<forall>e. recs k (d @ e) = Some (rc, k', n, out)))"

definition ssl_decoder_ok :: "'k ssl_records \<Rightarrow> 'k ssl_decode \<Rightarrow> bool" where
  "ssl_decoder_ok recs dec \<longleftrightarrow> record_ok recs \<and> (\<forall>k d room. dec k d room =
     (case recs k d of
        None \<Rightarrow> (SSL_PARTIAL, k, 0, [])
      | Some (rc, k', n, out) \<Rightarrow> if room < length out then (SSL_FULL, k, 0, []) else (rc, k', n, out)))"

text \<open>The plaintext in a stream of bytes, up to the record that ends the connection.\<close>

definition ends :: "ssl_rc \<Rightarrow> bool" where
  "ends rc \<longleftrightarrow> rc \<in> {SSL_ERROR, SSL_ALERT True, SSL_ALERT False}"

function plain :: "'k ssl_records \<Rightarrow> 'k \<Rightarrow> bytes \<Rightarrow> bytes" where
  "plain recs k d =
     (case recs k d of
        None \<Rightarrow> []
      | Some (rc, k', n, out) \<Rightarrow>
          if n = 0 \<or> d = [] \<or> ends rc then []
          else (if rc = SSL_PROCESS_DATA then out else []) @ plain recs k' (drop n d))"
  by pat_completeness auto
termination by (relation "measure (\<lambda>(recs, k, d). length d)") auto

declare plain.simps [simp del]

definition incoming :: "ssl_net \<Rightarrow> bytes" where
  "incoming net = concat (map (case_sum (\<lambda>_. []) id) (nt_recv net))"

text \<open>What a reader of the connection is still to get.\<close>

definition conn_plain :: "'k ssl_records \<Rightarrow> 'k ssl_conn \<Rightarrow> ssl_net \<Rightarrow> bytes" where
  "conn_plain recs cp net = inbuf_data cp @ plain recs (cn_ssl cp) (sb_data (cn_insock cp) @ incoming net)"

text \<open>
  What a call of \<open>sslRead\<close> meets: the code of the first record that has not been handed over, what \<open>recv\<close>
  answers first, and whether the first \<open>send\<close> would block.
\<close>

definition first_rc :: "'k ssl_records \<Rightarrow> 'k ssl_conn \<Rightarrow> ssl_net \<Rightarrow> ssl_rc option" where
  "first_rc recs cp net = map_option fst (recs (cn_ssl cp) (sb_data (cn_insock cp) @ incoming net))"

definition recv_meets :: "ssl_net \<Rightarrow> int + bytes" where
  "recv_meets net = (case nt_recv net of [] \<Rightarrow> Inl EAGAIN | x # r \<Rightarrow> x)"

definition send_blocks :: "ssl_net \<Rightarrow> bool" where
  "send_blocks net = (case nt_send net of [] \<Rightarrow> True | x # r \<Rightarrow> x = Inl EAGAIN)"

text \<open>A byte that is still in the network counts for more than one that has been received.\<close>

definition unread :: "'k ssl_conn \<Rightarrow> ssl_net \<Rightarrow> nat" where
  "unread cp net = length (sb_data (cn_insock cp)) + 2 * length (incoming net)"

definition insock_ok :: "ssl_buf \<Rightarrow> bool" where
  "insock_ok b \<longleftrightarrow> 0 < sb_size b \<and> sb_start b + length (sb_data b) \<le> sb_size b"

text \<open>
  The ways to fail: \<open>recv\<close> answers an error, or a record does not fit into the largest buffer, and then the
  stream is what it was; the record is fatal; or the peer cannot be answered.
\<close>

definition read_failed :: "'k ssl_records \<Rightarrow> nat \<Rightarrow> (int + bytes) option \<Rightarrow> 'k ssl_conn \<Rightarrow> ssl_net \<Rightarrow> int \<Rightarrow> 'k ssl_conn \<Rightarrow> ssl_net \<Rightarrow> bool" where
  "read_failed recs mx met cp net status cp' net' \<longleftrightarrow>
     conn_plain recs cp' net' = conn_plain recs cp net \<and> \<not> nt_block net' \<and>
       (met = Some (Inl status) \<or>
        status = 0 \<and> recs (cn_ssl cp') (sb_data (cn_insock cp')) = None \<and> ssl_room (cn_insock cp') = 0 \<and> mx < sb_size (cn_insock cp')) \<or>
     status = 0 \<and> first_rc recs cp net \<in> {Some SSL_ERROR, Some (SSL_ALERT False)} \<or>
     first_rc recs cp net = Some SSL_SEND_RESPONSE \<and> Inl status \<in> set (take 2 (nt_send net))"

text \<open>
  What a call answers. \<open>met\<close> is what \<open>recv\<close> can have answered, and a call that hands over nothing leaves less
  than \<open>u\<close> unread.
\<close>

definition read_ok :: "'k ssl_records \<Rightarrow> nat \<Rightarrow> nat \<Rightarrow> (int + bytes) option \<Rightarrow> nat \<Rightarrow> 'k ssl_conn \<Rightarrow> ssl_net \<Rightarrow> 'k ssl_read \<Rightarrow> bool" where
  "read_ok recs mx len met u cp net r =
     (case r of
        None \<Rightarrow> False
      | Some (Inl f) \<Rightarrow> f = OutOfBounds \<and> first_rc recs cp net = Some SSL_SEND_RESPONSE \<and> send_blocks net
      | Some (Inr (ret, status, bs, cp', net')) \<Rightarrow> insock_ok (cn_insock cp') \<and>
          (if ret < 0 then ret = -1 \<and> bs = [] \<and> inbuf_data cp = [] \<and> read_failed recs mx met cp net status cp' net'
           else ret = int (length bs) \<and> length bs \<le> len \<and> \<not> nt_block net' \<and>
             (if status = SSLSOCKET_CLOSE_NOTIFY then bs = [] \<and> first_rc recs cp net = Some (SSL_ALERT True) \<and> conn_plain recs cp net = []
              else conn_plain recs cp net = bs @ conn_plain recs cp' net' \<and>
                (status = SSLSOCKET_EOF \<and> bs = [] \<and> met = Some (Inr []) \<or>
                 status = 0 \<and> (bs = [] \<longrightarrow> unread cp' net' < u)))))"

lemma read_ok_same:
  assumes "cn_ssl cp1 = cn_ssl cp" "sb_data (cn_insock cp1) = sb_data (cn_insock cp)" "inbuf_data cp1 = inbuf_data cp"
  shows "read_ok recs mx len met u cp1 net r = read_ok recs mx len met u cp net r"
proof -
  have "conn_plain recs cp1 = conn_plain recs cp" "first_rc recs cp1 = first_rc recs cp"
    using assms by (auto simp: conn_plain_def first_rc_def fun_eq_iff)
  then show ?thesis by (simp only: read_ok_def read_failed_def assms(3))
qed

text \<open>A step of the network between the state of the call and the state that is decoded.\<close>

lemma read_ok_received:
  assumes r: "read_ok recs mx len None u cp1 net1 r"
    and same: "cn_ssl cp1 = cn_ssl cp" "inbuf_data cp = []" "inbuf_data cp1 = []" "nt_send net1 = nt_send net"
      "sb_data (cn_insock cp1) @ incoming net1 = sb_data (cn_insock cp) @ incoming net"
  shows "read_ok recs mx len met u cp net r"
proof -
  have p: "conn_plain recs cp1 net1 = conn_plain recs cp net" using same by (simp add: conn_plain_def)
  have f: "first_rc recs cp1 net1 = first_rc recs cp net" using same by (simp add: first_rc_def)
  show ?thesis using r unfolding read_ok_def read_failed_def p f send_blocks_def same(4)
    by (auto simp: same split: option.splits sum.splits prod.splits if_splits)
qed

lemma insock_ok_take [simp]: "insock_ok b \<Longrightarrow> insock_ok (ssl_take n b)"
  by (auto simp: insock_ok_def ssl_take_def)

lemma insock_ok_pack [simp]: "insock_ok b \<Longrightarrow> insock_ok (ssl_pack b)"
  by (auto simp: insock_ok_def ssl_pack_def)

lemma insock_ok_append: "insock_ok b \<Longrightarrow> length bs \<le> ssl_room b \<Longrightarrow> insock_ok (b\<lparr> sb_data := sb_data b @ bs \<rparr>)"
  by (auto simp: insock_ok_def ssl_room_def)

lemma grow_insock_cases:
  assumes "insock_ok b"
  obtains "grow_insock mx b = None" "mx < sb_size b" "ssl_room b = 0"
  | b' where "grow_insock mx b = Some b'" "sb_data b' = sb_data b" "insock_ok b'"
      "sb_start b = 0 \<Longrightarrow> 0 < ssl_room b'"
proof (cases "sb_start b = 0 \<and> length (sb_data b) = sb_size b")
  case True
  then show ?thesis using assms by (cases "mx < sb_size b") (auto simp: grow_insock_def insock_ok_def ssl_room_def intro: that)
next
  case False
  then show ?thesis using assms by (auto simp: grow_insock_def insock_ok_def ssl_room_def intro: that(2))
qed

lemma incoming_send [simp]: "incoming (snd (sock_send d net)) = incoming net"
  by (auto simp: sock_send_def incoming_def Let_def split: list.splits sum.splits)

lemma nt_block_send [simp]: "nt_block (snd (sock_send d net)) = nt_block net"
  by (auto simp: sock_send_def Let_def split: list.splits sum.splits)

lemma incoming_block [simp]:
  "incoming (setSocketBlock net) = incoming net" "incoming (setSocketNonblock net) = incoming net"
  "\<not> nt_block (setSocketNonblock net)"
  by (simp_all add: incoming_def setSocketBlock_def setSocketNonblock_def)

lemma sock_recv_cases:
  assumes "\<not> nt_block net" "0 < n"
  obtains e net1 where "sock_recv n net = Some (Inl e, net1)" "recv_meets net = Inl e" "incoming net1 = incoming net" "\<not> nt_block net1"
  | bs net1 where "sock_recv n net = Some (Inr bs, net1)" "incoming net = bs @ incoming net1" "\<not> nt_block net1"
      "nt_send net1 = nt_send net" "length bs \<le> n" "bs = [] \<Longrightarrow> recv_meets net = Inr []"
proof (cases "nt_recv net")
  case Nil
  then show ?thesis using assms that(1) by (simp add: sock_recv_def recv_meets_def)
next
  case (Cons x r)
  show ?thesis
  proof (cases x)
    case (Inl e)
    then show ?thesis using assms Cons that(1) by (simp add: sock_recv_def recv_meets_def incoming_def)
  next
    case (Inr b)
    let ?net = "net\<lparr> nt_recv := (if n < length b \<or> b = [] then Inr (drop n b) # r else r) \<rparr>"
    have "sock_recv n net = Some (Inr (take n b), ?net)" using Cons Inr by (simp add: sock_recv_def)
    moreover have "incoming net = take n b @ incoming ?net" using Cons Inr by (simp add: incoming_def)
    moreover have "\<not> nt_block ?net" "nt_send ?net = nt_send net" "length (take n b) \<le> n" using assms by simp_all
    moreover have "recv_meets net = Inr []" if "take n b = []" using that assms(2) Cons Inr by (simp add: recv_meets_def)
    ultimately show ?thesis by (rule that(2))
  qed
qed

lemma decodeMore_ok:
  assumes "ssl_decoder_ok recs dec" "0 < room"
  shows "\<exists>room'. decodeMore dec room cp = Some
     (case recs (cn_ssl cp) (sb_data (cn_insock cp)) of
        None \<Rightarrow> (SSL_PARTIAL, cp\<lparr> cn_inbuf := Some \<lparr> sb_start = 0, sb_data = [], sb_size = room' \<rparr> \<rparr>)
      | Some (rc, k, n, out) \<Rightarrow> (rc, cp\<lparr> cn_ssl := k, cn_insock := ssl_take n (cn_insock cp),
          cn_inbuf := Some \<lparr> sb_start = 0, sb_data = out, sb_size = room' \<rparr> \<rparr>))"
  using assms(2)
proof (induction "(case recs (cn_ssl cp) (sb_data (cn_insock cp)) of None \<Rightarrow> 0 | Some (rc, k, n, out) \<Rightarrow> length out) - room"
    arbitrary: room cp rule: less_induct)
  case less
  let ?r = "recs (cn_ssl cp) (sb_data (cn_insock cp))"
  have take0: "ssl_take 0 b = b" for b by (simp add: ssl_take_def)
  show ?case
  proof (cases ?r)
    case None
    then show ?thesis using assms(1)
      by (subst decodeMore.simps) (auto simp: ssl_decoder_ok_def take0 intro!: exI [of _ room])
  next
    case (Some x)
    obtain rc k n out where x: "x = (rc, k, n, out)" by (cases x)
    have rc: "rc \<noteq> SSL_FULL" using assms(1) Some x by (auto simp: ssl_decoder_ok_def record_ok_def)
    show ?thesis
    proof (cases "room < length out")
      case True
      let ?cp = "cp\<lparr> cn_inbuf := Some \<lparr> sb_start = 0, sb_data = [], sb_size = room \<rparr> \<rparr>"
      have "decodeMore dec room cp = decodeMore dec (room * 2) ?cp"
        using assms(1) Some x True by (subst decodeMore.simps) (simp add: ssl_decoder_ok_def take0)
      moreover have "length out - room * 2 < length out - room" using less.prems True by simp
      ultimately show ?thesis using less.hyps [of ?cp "room * 2"] less.prems Some x by simp
    next
      case False
      then show ?thesis using assms(1) Some x rc
        by (subst decodeMore.simps) (auto simp: ssl_decoder_ok_def intro!: exI [of _ room])
    qed
  qed
qed

lemma plain_record:
  assumes "record_ok recs" "recs k d = Some (rc, k', n, out)"
  shows "plain recs k (d @ e) = (if ends rc then [] else (if rc = SSL_PROCESS_DATA then out else []) @ plain recs k' (drop n d @ e))"
proof -
  from assms have "recs k (d @ e) = Some (rc, k', n, out)" "0 < n" "n \<le> length d" unfolding record_ok_def by blast+
  then show ?thesis by (subst plain.simps) auto
qed

text \<open>What \<open>send_response\<close> answers about the decoded state.\<close>

lemma sock_send_cases:
  obtains e net1 where "sock_send d net = (Inl e, net1)" "Inl e \<in> set (take 1 (nt_send net)) \<or> e = EAGAIN"
      "e = EAGAIN \<Longrightarrow> send_blocks net" "nt_block net \<Longrightarrow> Inl e \<in> set (take 1 (nt_send net))"
      "incoming net1 = incoming net" "nt_block net1 = nt_block net"
  | n net1 where "sock_send d net = (Inr n, net1)" "set (take 1 (nt_send net1)) \<subseteq> set (take 2 (nt_send net))"
      "incoming net1 = incoming net" "nt_block net1 = nt_block net"
proof (cases "nt_send net")
  case Nil
  then show ?thesis
    by (cases "nt_block net") (auto simp: sock_send_def send_blocks_def incoming_def intro: that)
next
  case (Cons x r)
  then show ?thesis
    by (cases x; cases r) (auto simp: sock_send_def send_blocks_def incoming_def Let_def intro: that)
qed

lemma send_response_ok:
  assumes block: "\<not> nt_block net" and cp: "insock_ok (cn_insock cp)"
    and o1: "first_rc recs cp0 net = Some SSL_SEND_RESPONSE" "inbuf_data cp0 = []"
      "conn_plain recs cp0 net = plain recs (cn_ssl cp) (sb_data (cn_insock cp) @ incoming net)" "unread cp net < u"
  shows "read_ok recs mx len met u cp0 net (send_response cp net)"
proof -
  let ?d = "inbuf_data cp"
  have empty: "inbuf_data (cp\<lparr> cn_inbuf := map_option (\<lambda>b. b\<lparr> sb_start := 0, sb_data := [] \<rparr>) (cn_inbuf cp) \<rparr>) = []"
    by (cases "cn_inbuf cp") (simp_all add: inbuf_data_def)
  have two: "set (take 1 xs) \<subseteq> set (take 2 xs)" for xs :: "(int + nat) list" by (cases xs) auto
  show ?thesis
  proof (cases rule: sock_send_cases [of ?d net])
    case (1 e net1)
    then show ?thesis using o1 cp two by (auto simp: send_response_def read_ok_def read_failed_def)
  next
    case s1: (2 n net1)
    show ?thesis
    proof (cases "n < length ?d")
      case False
      then show ?thesis using s1 block cp o1 empty
        by (simp add: send_response_def Let_def read_ok_def conn_plain_def unread_def SSLSOCKET_CLOSE_NOTIFY_def)
    next
      case True
      have sb: "nt_send (setSocketBlock net1) = nt_send net1" "nt_block (setSocketBlock net1)" by (simp_all add: setSocketBlock_def)
      show ?thesis
      proof (cases rule: sock_send_cases [of "drop n ?d" "setSocketBlock net1"])
        case (1 e net2)
        then have "Inl e \<in> set (take 2 (nt_send net))" using s1 sb by auto
        then show ?thesis using 1(1) s1(1) True cp o1 by (simp add: send_response_def Let_def read_ok_def read_failed_def inbuf_take_def)
      next
        case (2 n2 net2)
        then show ?thesis using s1 True cp o1 empty
          by (simp add: send_response_def Let_def read_ok_def conn_plain_def unread_def SSLSOCKET_CLOSE_NOTIFY_def)
      qed
    qed
  qed
qed

lemma unread_inbuf [simp]: "unread (inbuf_take m cp) net = unread cp net" "unread (cp\<lparr> cn_inbuf := i \<rparr>) net = unread cp net"
  by (simp_all add: unread_def inbuf_take_def)

lemma read_decode_ok:
  assumes dec: "ssl_decoder_ok recs dec" and len: "0 < len" and block: "\<not> nt_block net" and cp: "insock_ok (cn_insock cp)" "cn_inbuf cp = None"
    and u: "unread cp net \<le> u" "again = None \<Longrightarrow> unread cp net < u"
    and jump: "\<And>j b'. again = Some j \<Longrightarrow> grow_insock mx (cn_insock cp) = Some b' \<Longrightarrow>
      read_ok recs mx len met u cp net (j (cp\<lparr> cn_insock := b', cn_inbuf := None \<rparr>) net)"
  shows "read_ok recs mx len met u cp net (read_decode dec mx len again cp net)"
proof -
  obtain room' where d: "decodeMore dec len cp = Some
     (case recs (cn_ssl cp) (sb_data (cn_insock cp)) of
        None \<Rightarrow> (SSL_PARTIAL, cp\<lparr> cn_inbuf := Some \<lparr> sb_start = 0, sb_data = [], sb_size = room' \<rparr> \<rparr>)
      | Some (rc, k, n, out) \<Rightarrow> (rc, cp\<lparr> cn_ssl := k, cn_insock := ssl_take n (cn_insock cp),
          cn_inbuf := Some \<lparr> sb_start = 0, sb_data = out, sb_size = room' \<rparr> \<rparr>))"
    using decodeMore_ok [OF dec len, of cp] by blast
  have ok: "record_ok recs" using dec by (simp add: ssl_decoder_ok_def)
  have empty: "inbuf_data cp = []" using cp(2) by (simp add: inbuf_data_def)
  show ?thesis
  proof (cases "recs (cn_ssl cp) (sb_data (cn_insock cp))")
    case None
    show ?thesis
    proof (cases rule: grow_insock_cases [OF cp(1), of mx])
      case 1
      then show ?thesis using d None block cp empty
        by (simp add: read_decode_def read_ok_def read_failed_def conn_plain_def inbuf_data_def)
    next
      case (2 b')
      then show ?thesis using d None block empty u jump
        by (cases again) (simp_all add: read_decode_def, simp add: read_ok_def conn_plain_def inbuf_data_def unread_def SSLSOCKET_CLOSE_NOTIFY_def)
    qed
  next
    case (Some x)
    obtain rc k n out where x: "x = (rc, k, n, out)" by (cases x)
    let ?cp = "cp\<lparr> cn_ssl := k, cn_insock := ssl_take n (cn_insock cp),
          cn_inbuf := Some \<lparr> sb_start = 0, sb_data = out, sb_size = room' \<rparr> \<rparr>"
    have rec: "recs (cn_ssl cp) (sb_data (cn_insock cp)) = Some (rc, k, n, out)" using Some x by simp
    have rc: "rc \<noteq> SSL_PARTIAL" "rc \<noteq> SSL_FULL" "out = [] \<or> rc = SSL_PROCESS_DATA \<or> rc = SSL_SEND_RESPONSE \<or> rc = SSL_ERROR"
      and n: "0 < n" "n \<le> length (sb_data (cn_insock cp))"
      and more: "recs (cn_ssl cp) (sb_data (cn_insock cp) @ incoming net) = Some (rc, k, n, out)"
      using ok rec unfolding record_ok_def by blast+
    have p: "conn_plain recs cp net = (if ends rc then [] else (if rc = SSL_PROCESS_DATA then out else []) @
        plain recs (cn_ssl ?cp) (sb_data (cn_insock ?cp) @ incoming net))"
      using plain_record [OF ok rec, of "incoming net"] empty by (simp add: ssl_take_def conn_plain_def)
    have d': "decodeMore dec len cp = Some (rc, ?cp)" using d rec by simp
    have f: "first_rc recs cp net = Some rc" using more by (simp add: first_rc_def)
    have smaller: "unread ?cp net < u" using u n by (simp add: unread_def ssl_take_def)
    have ins: "insock_ok (cn_insock ?cp)" using cp(1) by simp
    have inb: "inbuf_data ?cp = out" by (simp add: inbuf_data_def)
    have send: "rc = SSL_SEND_RESPONSE \<Longrightarrow> read_ok recs mx len met u cp net (send_response ?cp net)"
      using send_response_ok [OF block ins _ empty _ smaller, of recs mx len met] p f by (simp add: ends_def)
    show ?thesis
    proof (cases rc)
      case SSL_PROCESS_DATA
      have "inbuf_data (inbuf_take m ?cp) = drop m out" for m by (simp add: inbuf_data_def inbuf_take_def ssl_take_def)
      moreover have "cn_insock (inbuf_take m ?cp) = cn_insock ?cp" "cn_ssl (inbuf_take m ?cp) = k" for m by (simp_all add: inbuf_take_def)
      ultimately show ?thesis using d' p block ins smaller inb SSL_PROCESS_DATA
        by (simp add: read_decode_def Let_def read_ok_def ends_def conn_plain_def SSLSOCKET_CLOSE_NOTIFY_def del: append_assoc add: append_assoc [symmetric])
    next
      case SSL_SEND_RESPONSE
      then show ?thesis using d' send by (simp add: read_decode_def)
    next
      case SSL_ERROR
      then show ?thesis using d' f ins empty by (simp add: read_decode_def read_ok_def read_failed_def)
    next
      case (SSL_ALERT closing)
      then show ?thesis using d' f ins empty p block by (simp add: read_decode_def read_ok_def read_failed_def ends_def)
    next
      case SSL_SUCCESS
      then show ?thesis using d' rc p block ins smaller inb
        by (simp add: read_decode_def read_ok_def ends_def conn_plain_def SSLSOCKET_CLOSE_NOTIFY_def)
    qed (use rc in simp_all)
  qed
qed

lemma readMore_ok:
  assumes dec: "ssl_decoder_ok recs dec" and len: "0 < len" and block: "\<not> nt_block net"
    and cp: "cn_inbuf cp = None" "insock_ok (cn_insock cp)" "0 < ssl_room (cn_insock cp)"
  shows "read_ok recs mx len (Some (recv_meets net)) (unread cp net) cp net (readMore dec mx len cp net)"
proof (cases rule: sock_recv_cases [OF block cp(3)])
  case (1 e net1)
  then show ?thesis using cp by (simp add: readMore_def read_ok_def read_failed_def conn_plain_def inbuf_data_def)
next
  case (2 bs net1)
  show ?thesis
  proof (cases "bs = []")
    case True
    then show ?thesis using 2 cp by (simp add: readMore_def read_ok_def conn_plain_def inbuf_data_def SSLSOCKET_CLOSE_NOTIFY_def SSLSOCKET_EOF_def)
  next
    case False
    let ?cp = "cp\<lparr> cn_insock := (cn_insock cp)\<lparr> sb_data := sb_data (cn_insock cp) @ bs \<rparr> \<rparr>"
    have less: "unread ?cp net1 < unread cp net" using 2(2) False by (simp add: unread_def)
    have ins: "insock_ok (cn_insock ?cp)" "cn_inbuf ?cp = None" using insock_ok_append [OF cp(2) 2(5)] cp(1) by simp_all
    have "read_ok recs mx len None (unread cp net) ?cp net1 (read_decode dec mx len None ?cp net1)"
      using less by (intro read_decode_ok [OF dec len 2(3) ins]) auto
    then have "read_ok recs mx len (Some (recv_meets net)) (unread cp net) cp net (read_decode dec mx len None ?cp net1)"
      by (rule read_ok_received) (use 2 cp in \<open>simp_all add: inbuf_data_def\<close>)
    then show ?thesis using 2(1) False by (simp add: readMore_def)
  qed
qed

lemma sslRead_ok:
  assumes dec: "ssl_decoder_ok recs dec" and len: "0 < len" and block: "\<not> nt_block net" and cp: "insock_ok (cn_insock cp)"
  shows "read_ok recs mx len (Some (recv_meets net)) (unread cp net) cp net (sslRead dec mx len cp net)"
proof (cases "inbuf_data cp = []")
  case False
  define n where "n = min len (length (inbuf_data cp))"
  have n: "0 < n" "n \<le> len" "n \<le> length (inbuf_data cp)" using False len by (auto simp: n_def)
  have "inbuf_data (inbuf_take n cp) = drop n (inbuf_data cp)"
    by (cases "cn_inbuf cp") (simp_all add: inbuf_data_def inbuf_take_def ssl_take_def)
  moreover have "cn_ssl (inbuf_take n cp) = cn_ssl cp" "cn_insock (inbuf_take n cp) = cn_insock cp" by (simp_all add: inbuf_take_def)
  moreover have "take n (inbuf_data cp) \<noteq> []" using n by auto
  ultimately have "read_ok recs mx len (Some (recv_meets net)) (unread cp net) cp net
      (Some (Inr (int n, 0, take n (inbuf_data cp), inbuf_take n cp, net)))"
    using cp block n unfolding read_ok_def conn_plain_def
    by (simp add: SSLSOCKET_CLOSE_NOTIFY_def append_assoc [symmetric] del: append_assoc)
  then show ?thesis using False len by (simp add: sslRead_def Let_def n_def)
next
  case True
  let ?cp = "cp\<lparr> cn_inbuf := None, cn_insock := ssl_pack (cn_insock cp) \<rparr>"
  have same: "cn_ssl ?cp = cn_ssl cp" "sb_data (cn_insock ?cp) = sb_data (cn_insock cp)" "inbuf_data ?cp = inbuf_data cp"
    using True by (simp_all add: ssl_pack_def inbuf_data_def)
  have u: "unread ?cp net = unread cp net" by (simp add: unread_def ssl_pack_def)
  have c: "insock_ok (cn_insock ?cp)" "cn_inbuf ?cp = None" "sb_start (cn_insock ?cp) = 0"
    using cp insock_ok_pack by (simp, simp, simp add: ssl_pack_def)
  have go: "read_ok recs mx len (Some (recv_meets net)) (unread cp net) ?cp net (sslRead dec mx len cp net)"
  proof (cases "sb_data (cn_insock ?cp) = []")
    case data: True
    then have "0 < ssl_room (cn_insock ?cp)" using c by (simp add: ssl_room_def insock_ok_def)
    from readMore_ok [OF dec len block c(2,1) this, of mx] show ?thesis using True len data u by (simp add: sslRead_def Let_def)
  next
    case data: False
    have jump: "read_ok recs mx len (Some (recv_meets net)) (unread cp net) ?cp net
        (readMore dec mx len (?cp\<lparr> cn_insock := b', cn_inbuf := None \<rparr>) net)"
      if g: "grow_insock mx (cn_insock ?cp) = Some b'" for b'
    proof (cases rule: grow_insock_cases [OF c(1), of mx])
      case 1
      then show ?thesis using g by simp
    next
      case (2 b)
      let ?cp' = "?cp\<lparr> cn_insock := b', cn_inbuf := None \<rparr>"
      have b: "sb_data b' = sb_data (cn_insock ?cp)" "insock_ok b'" "0 < ssl_room b'" using 2 g c(3) by simp_all
      have "read_ok recs mx len (Some (recv_meets net)) (unread ?cp' net) ?cp' net (readMore dec mx len ?cp' net)"
        by (rule readMore_ok [OF dec len block]) (use b in simp_all)
      moreover have "unread ?cp' net = unread cp net" using b(1) u by (simp add: unread_def)
      ultimately show ?thesis using read_ok_same [of ?cp' ?cp] b(1) by (simp add: inbuf_data_def)
    qed
    have "read_ok recs mx len (Some (recv_meets net)) (unread cp net) ?cp net (read_decode dec mx len (Some (readMore dec mx len)) ?cp net)"
      by (rule read_decode_ok [OF dec len block c(1,2)]) (use u jump in auto)
    then show ?thesis using True len data by (simp add: sslRead_def Let_def)
  qed
  then show ?thesis using read_ok_same [OF same] by simp
qed

subsection \<open>What an encoder promises\<close>

text \<open>\<open>recd k buf\<close> is the record that \<open>buf\<close> becomes in session \<open>k\<close>, with the next session.\<close>

definition ssl_encoder_ok :: "('k \<Rightarrow> bytes \<Rightarrow> 'k \<times> bytes) \<Rightarrow> 'k ssl_encode \<Rightarrow> bool" where
  "ssl_encoder_ok recd enc \<longleftrightarrow> (\<forall>k buf room. enc k buf room =
     (if length (snd (recd k buf)) \<le> room then (SSL_SUCCESS, recd k buf) else (SSL_FULL, k, [])))"

text \<open>The bytes on their way to the peer.\<close>

definition wire :: "'k ssl_conn \<Rightarrow> ssl_net \<Rightarrow> bytes" where
  "wire cp net = nt_sent net @ sb_data (cn_outsock cp)"

lemma retryEncode_ok:
  assumes "ssl_encoder_ok recd enc" "0 < sb_size (cn_outsock cp)" "sb_start (cn_outsock cp) = 0"
  shows "\<exists>size. 0 < size \<and>
     (retryEncode enc mx buf cp = Some (False, cp\<lparr> cn_outsock := (cn_outsock cp)\<lparr> sb_size := size \<rparr> \<rparr>) \<or>
      retryEncode enc mx buf cp = Some (True, cp\<lparr> cn_ssl := fst (recd (cn_ssl cp) buf),
        cn_outsock := (cn_outsock cp)\<lparr> sb_data := sb_data (cn_outsock cp) @ snd (recd (cn_ssl cp) buf), sb_size := size \<rparr> \<rparr>))"
  using assms(2,3)
proof (induction "Suc mx - sb_size (cn_outsock cp)" arbitrary: cp rule: less_induct)
  case less
  let ?b = "cn_outsock cp"
  obtain k out where r: "recd (cn_ssl cp) buf = (k, out)" by fastforce
  show ?case
  proof (cases "length out \<le> ssl_room ?b")
    case True
    then show ?thesis using assms(1) r less.prems
      by (subst (1 2) retryEncode.simps) (auto simp: ssl_encoder_ok_def Let_def intro!: exI [of _ "sb_size ?b"])
  next
    case False
    show ?thesis
    proof (cases "mx < sb_size ?b")
      case True
      then show ?thesis using assms(1) r False less.prems
        by (subst (1 2) retryEncode.simps) (auto simp: ssl_encoder_ok_def Let_def intro!: exI [of _ "sb_size ?b"])
    next
      case small: False
      let ?cp = "cp\<lparr> cn_outsock := ?b\<lparr> sb_size := sb_size ?b * 2 \<rparr> \<rparr>"
      have "?b\<lparr> sb_start := 0, sb_size := sb_size ?b * 2 \<rparr> = ?b\<lparr> sb_size := sb_size ?b * 2 \<rparr>"
        using less.prems by (cases ?b) simp
      then have eq: "retryEncode enc mx buf cp = retryEncode enc mx buf ?cp"
        using assms(1) r False small by (subst retryEncode.simps) (simp add: ssl_encoder_ok_def Let_def)
      have "Suc mx - sb_size (cn_outsock ?cp) < Suc mx - sb_size ?b" using less.prems small by simp
      from less.hyps [OF this] less.prems show ?thesis unfolding eq by simp
    qed
  qed
qed

text \<open>\<open>write_out\<close> moves bytes from \<open>outsock\<close> to the wire.\<close>

lemma write_out_ok:
  assumes "nt_send net = Inr n # r"
  shows "\<exists>ret cp' net'. write_out len cp net = (ret, 0, cp', net') \<and> wire cp' net' = wire cp net \<and>
     nt_send net' = r \<and> nt_block net' = nt_block net \<and> sb_size (cn_outsock cp') = sb_size (cn_outsock cp) \<and>
     (ret = int len \<and> sb_data (cn_outsock cp') = [] \<and> cn_outBufferCount cp' = 0 \<or>
      ret = 0 \<and> sb_data (cn_outsock cp') \<noteq> [] \<and> cn_outBufferCount cp' = len)"
  using assms by (auto simp: write_out_def sock_send_def Let_def wire_def ssl_take_def min_def)

text \<open>A client that follows the rule of \<open>sslWrite\<close>: an answer 0 means the same call again.\<close>

fun retry_write :: "'k ssl_encode \<Rightarrow> nat \<Rightarrow> bytes \<Rightarrow> nat \<Rightarrow> 'k ssl_conn \<Rightarrow> ssl_net \<Rightarrow> (int \<times> 'k ssl_conn \<times> ssl_net) option" where
  "retry_write enc mx buf 0 cp net = Some (0, cp, net)"
| "retry_write enc mx buf (Suc n) cp net =
     (case sslWrite enc mx buf cp net of
        None \<Rightarrow> None
      | Some (ret, status, cp', net') \<Rightarrow>
          if ret = 0 then retry_write enc mx buf n cp' net' else Some (ret, cp', net'))"

lemma wire_pack [simp]: "wire (cp\<lparr> cn_outsock := ssl_pack (cn_outsock cp) \<rparr>) net = wire cp net"
  by (simp add: wire_def ssl_pack_def)

lemma retry_write_rest:
  assumes "buf \<noteq> []" "n \<le> length ns"
  shows "nt_send net = map Inr ns \<Longrightarrow> cn_outBufferCount cp = length buf \<Longrightarrow> sb_data (cn_outsock cp) \<noteq> [] \<Longrightarrow>
     \<exists>ret cp' net'. retry_write enc mx buf n cp net = Some (ret, cp', net') \<and> wire cp' net' = wire cp net \<and>
       (ret = int (length buf) \<and> sb_data (cn_outsock cp') = [] \<and> cn_outBufferCount cp' = 0 \<or>
        ret = 0 \<and> cn_outBufferCount cp' = length buf)"
  using assms(2)
proof (induction n arbitrary: ns cp net)
  case (Suc n)
  then obtain m ms where ns: "ns = m # ms" by (cases ns) auto
  let ?cp = "cp\<lparr> cn_outsock := ssl_pack (cn_outsock cp) \<rparr>"
  obtain ret cp' net' where w: "write_out (length buf) ?cp net = (ret, 0, cp', net')" "wire cp' net' = wire cp net"
    "nt_send net' = map Inr ms"
    "ret = int (length buf) \<and> sb_data (cn_outsock cp') = [] \<and> cn_outBufferCount cp' = 0 \<or>
     ret = 0 \<and> sb_data (cn_outsock cp') \<noteq> [] \<and> cn_outBufferCount cp' = length buf"
    using write_out_ok [of net m "map Inr ms" "length buf" ?cp] Suc.prems(1) ns by auto
  have s: "sslWrite enc mx buf cp net = Some (ret, 0, cp', net')"
    using w(1) Suc.prems(2) assms(1) by (simp add: sslWrite_def Let_def)
  show ?case
  proof (cases "ret = 0")
    case True
    then have "sb_data (cn_outsock cp') \<noteq> []" "cn_outBufferCount cp' = length buf" using w(4) assms(1) by auto
    from Suc.IH [OF w(3) this(2,1)] Suc.prems(4) ns s True w(2) show ?thesis by simp
  next
    case False
    then show ?thesis using s w(2,4) by simp
  qed
qed simp

subsection \<open>A sample codec\<close>

text \<open>A record is its length in one byte and its content; the encoder leaves the bytes as they are.\<close>

definition sample_records :: "unit ssl_records" where
  "sample_records k d =
     (case d of [] \<Rightarrow> None
      | c # r \<Rightarrow> if length r < of_char c then None else Some (SSL_PROCESS_DATA, (), Suc (of_char c), take (of_char c) r))"

definition sample_decode :: "unit ssl_decode" where
  "sample_decode k d room =
     (case sample_records k d of
        None \<Rightarrow> (SSL_PARTIAL, k, 0, [])
      | Some (rc, k', n, out) \<Rightarrow> if room < length out then (SSL_FULL, k, 0, []) else (rc, k', n, out))"

definition sample_encode :: "unit ssl_encode" where
  "sample_encode k buf room = (if length buf \<le> room then (SSL_SUCCESS, (), buf) else (SSL_FULL, k, []))"

lemma sample_ok: "ssl_decoder_ok sample_records sample_decode" "ssl_encoder_ok (\<lambda>k buf. ((), buf)) sample_encode"
  by (auto simp: ssl_decoder_ok_def record_ok_def ssl_encoder_ok_def sample_decode_def sample_records_def sample_encode_def
      split: list.splits if_splits)

definition sample_net :: "(int + bytes) list \<Rightarrow> (int + nat) list \<Rightarrow> ssl_net" where
  "sample_net rs ss = \<lparr> nt_block = False, nt_recv = rs, nt_send = ss, nt_sent = [] \<rparr>"

lemma tls_write_vec_bounds:
  assumes "\<And>b s ret s'. wr b s = Some (ret, s') \<Longrightarrow> ret \<le> int (length b)"
  shows "tls_write_vec wr iov len s = Some (len', s') \<Longrightarrow> len \<le> len' \<and> len' \<le> len + int (length (concat iov))"
proof (induction iov arbitrary: len s)
  case (Cons b bs)
  from Cons.prems obtain ret s1 where w: "wr b s = Some (ret, s1)" by (auto split: option.splits)
  have "ret \<le> int (length b)" using assms [OF w] .
  then show ?case using Cons.prems Cons.IH [of "if 0 < ret then len + ret else len" s1] w
    by (auto simp: Let_def split: if_splits)
qed simp

lemma sslWrite_le:
  assumes "sslWrite enc mx buf cp net = Some (ret, status, cp', net')"
  shows "ret \<le> int (length buf)"
proof -
  have w: "write_out len c m = (r, st, c', m') \<Longrightarrow> r \<le> int len" for len r st m m' and c c' :: "'a ssl_conn"
    by (auto simp: write_out_def Let_def split: sum.splits prod.splits if_splits)
  show ?thesis
    using assms unfolding sslWrite_def Let_def
    by (simp split: if_split_asm option.split_asm prod.split_asm) (auto dest: w)
qed

lemma first_write:
  assumes "ssl_encoder_ok recd enc" "0 < sb_size (cn_outsock cp)" "cn_outBufferCount cp = 0" "sb_data (cn_outsock cp) = []"
    "nt_send net = Inr m # r"
  shows "\<exists>ret cp' net'. sslWrite enc mx buf cp net = Some (ret, 0, cp', net') \<and>
     (ret = -1 \<and> wire cp' net' = nt_sent net \<or>
      nt_send net' = r \<and> wire cp' net' = nt_sent net @ snd (recd (cn_ssl cp) buf) \<and>
      (ret = int (length buf) \<and> sb_data (cn_outsock cp') = [] \<and> cn_outBufferCount cp' = 0 \<or>
       ret = 0 \<and> sb_data (cn_outsock cp') \<noteq> [] \<and> cn_outBufferCount cp' = length buf))"
proof -
  let ?cp = "cp\<lparr> cn_outsock := ssl_pack (cn_outsock cp) \<rparr>"
  have pack: "0 < sb_size (cn_outsock ?cp)" "sb_start (cn_outsock ?cp) = 0" "sb_data (cn_outsock ?cp) = []"
    using assms(2,4) by (auto simp: ssl_pack_def)
  obtain size where "retryEncode enc mx buf ?cp = Some (False, ?cp\<lparr> cn_outsock := (cn_outsock ?cp)\<lparr> sb_size := size \<rparr> \<rparr>) \<or>
      retryEncode enc mx buf ?cp = Some (True, ?cp\<lparr> cn_ssl := fst (recd (cn_ssl ?cp) buf),
        cn_outsock := (cn_outsock ?cp)\<lparr> sb_data := sb_data (cn_outsock ?cp) @ snd (recd (cn_ssl ?cp) buf), sb_size := size \<rparr> \<rparr>)"
    (is "_ = Some (False, ?no) \<or> _ = Some (True, ?yes)")
    using retryEncode_ok [OF assms(1) pack(1,2), of mx buf] by blast
  then show ?thesis
  proof
    assume "retryEncode enc mx buf ?cp = Some (False, ?no)"
    then show ?thesis using assms(3) pack by (simp add: sslWrite_def Let_def wire_def)
  next
    assume yes: "retryEncode enc mx buf ?cp = Some (True, ?yes)"
    have "sslWrite enc mx buf cp net = Some (write_out (length buf) ?yes net)"
      using yes assms(3) by (simp add: sslWrite_def Let_def)
    moreover have "wire ?yes net = nt_sent net @ snd (recd (cn_ssl cp) buf)" using pack by (simp add: wire_def)
    ultimately show ?thesis using write_out_ok [OF assms(5), of "length buf" ?yes] by fastforce
  qed
qed

text \<open>\<open>transmit\<close> may rely on the channel: it never answers more than the vector holds, and never less than 0.\<close>

lemma Matrixssl_write_vec_bounds:
  "Matrixssl_write_vec enc mx iov s = Some (len, s') \<Longrightarrow> 0 \<le> len \<and> len \<le> int (length (concat iov))"
  unfolding Matrixssl_write_vec_def
  by (drule tls_write_vec_bounds [rotated]) (auto dest: sslWrite_le)

subsection \<open>Properties\<close>

text \<open>
  C23: sslRead reads the plaintext stream, for a decoder that takes its records one by one and an insock
  that lies within its allocation, as sslAccept makes it and every call leaves it, whatever the segments in which a record arrives and whatever the sizes of the caller's buffer and of the records. A
  call on a non-blocking socket returns. When it answers 0 or more it hands over the next bytes of the
  stream, none lost and none twice; when it hands over nothing and is not at the end, less is left to
  read; the end of the connection is announced only where recv met it, the end of the stream only at a
  close notification. When recv would block or answers another error, or a record does not fit into the
  largest buffer, it answers -1 and the stream is what it was, so the next call goes on. It fails
  otherwise only at a fatal record or when the response to a record cannot be sent, and its only
  fault is in front of the response buffer, when the first send of a response would block.
\<close>

theorem sslRead_reads_stream:
  assumes "ssl_decoder_ok recs dec" "0 < len" "\<not> nt_block net" "insock_ok (cn_insock cp)"
  shows "case sslRead dec mx len cp net of
      None \<Rightarrow> False
    | Some (Inl f) \<Rightarrow> f = OutOfBounds \<and> first_rc recs cp net = Some SSL_SEND_RESPONSE \<and> send_blocks net
    | Some (Inr (ret, status, bs, cp', net')) \<Rightarrow> insock_ok (cn_insock cp') \<and>
        (if ret < 0 then
           ret = -1 \<and> bs = [] \<and>
           (conn_plain recs cp' net' = conn_plain recs cp net \<and> \<not> nt_block net' \<and>
              (recv_meets net = Inl status \<or> status = 0 \<and> recs (cn_ssl cp') (sb_data (cn_insock cp')) = None \<and>
                 ssl_room (cn_insock cp') = 0 \<and> mx < sb_size (cn_insock cp')) \<or>
            status = 0 \<and> first_rc recs cp net \<in> {Some SSL_ERROR, Some (SSL_ALERT False)} \<or>
            first_rc recs cp net = Some SSL_SEND_RESPONSE \<and> Inl status \<in> set (take 2 (nt_send net)))
         else
           ret = int (length bs) \<and> length bs \<le> len \<and> \<not> nt_block net' \<and>
           (if status = SSLSOCKET_CLOSE_NOTIFY then bs = [] \<and> first_rc recs cp net = Some (SSL_ALERT True) \<and> conn_plain recs cp net = []
            else conn_plain recs cp net = bs @ conn_plain recs cp' net' \<and>
              (status = SSLSOCKET_EOF \<and> bs = [] \<and> recv_meets net = Inr [] \<or>
               status = 0 \<and> (bs = [] \<longrightarrow> unread cp' net' < unread cp net))))"
  using sslRead_ok [OF assms, of mx] unfolding read_ok_def read_failed_def
  by (auto split: option.splits sum.splits)

text \<open>A record that arrives in two segments: the first call takes the part that is there, the second finds nothing, the third hands it over.\<close>

lemma sslRead_reads_stream_witness:
  "\<exists>cp net. sslRead sample_decode 100 1 (sslAccept_new ()) (sample_net [Inr [CHR 0x02, CHR ''o''], Inl EAGAIN, Inr ''k''] []) = Some (Inr (0, 0, [], cp, net)) \<and>
    conn_plain sample_records cp net = ''ok'' \<and>
    (\<exists>cp1 net1. sslRead sample_decode 100 1 cp net = Some (Inr (-1, EAGAIN, [], cp1, net1)) \<and> conn_plain sample_records cp1 net1 = ''ok'' \<and>
      (\<exists>cp2 net2. sslRead sample_decode 100 1 cp1 net1 = Some (Inr (1, 0, ''o'', cp2, net2)) \<and> conn_plain sample_records cp2 net2 = ''k''))"
proof -
  let ?new = "sslAccept_new ()" and ?net = "sample_net [Inr [CHR 0x02, CHR ''o''], Inl EAGAIN, Inr ''k''] []"
  let ?step = "\<lambda>cp net ret status bs cp' net'. sslRead sample_decode 100 1 cp net = Some (Inr (ret, status, bs, cp', net'))"
  note run = sslRead_def readMore_def read_decode_def decodeMore.simps sslAccept_new_def sample_net_def
    inbuf_data_def inbuf_take_def Let_def ssl_pack_def sock_recv_def ssl_room_def sample_decode_def sample_records_def
    ssl_take_def grow_insock_def EAGAIN_def
  have "\<exists>cp net cp1 net1 cp2 net2. ?step ?new ?net 0 0 [] cp net \<and> ?step cp net (-1) EAGAIN [] cp1 net1 \<and> ?step cp1 net1 1 0 ''o'' cp2 net2 \<and>
      \<not> nt_block ?net \<and> \<not> nt_block net \<and> \<not> nt_block net1 \<and> insock_ok (cn_insock ?new) \<and> insock_ok (cn_insock cp) \<and> insock_ok (cn_insock cp1)"
    by (simp add: run insock_ok_def)
  then obtain cp net cp1 net1 cp2 net2 where s: "?step ?new ?net 0 0 [] cp net" "?step cp net (-1) EAGAIN [] cp1 net1" "?step cp1 net1 1 0 ''o'' cp2 net2"
    and h: "\<not> nt_block ?net" "\<not> nt_block net" "\<not> nt_block net1" "insock_ok (cn_insock ?new)" "insock_ok (cn_insock cp)" "insock_ok (cn_insock cp1)"
    by blast
  have p: "conn_plain sample_records ?new ?net = ''ok''"
    by (simp add: conn_plain_def sslAccept_new_def inbuf_data_def incoming_def sample_net_def plain.simps sample_records_def ends_def)
  note reads = sslRead_reads_stream [OF sample_ok(1), where mx = 100 and len = 1]
  have 1: "conn_plain sample_records cp net = ''ok''"
    using reads [OF _ h(1,4)] s(1) p by (simp add: SSLSOCKET_CLOSE_NOTIFY_def)
  have never: "first_rc sample_records c m \<notin> {Some SSL_ERROR, Some (SSL_ALERT False), Some SSL_SEND_RESPONSE}" for c m
    by (auto simp: first_rc_def sample_records_def Let_def split: list.splits if_splits)
  have 2: "conn_plain sample_records cp1 net1 = ''ok''"
    using reads [OF _ h(2,5)] s(2) 1 never [of cp net] by (auto simp: EAGAIN_def)
  have 3: "conn_plain sample_records cp2 net2 = ''k''"
    using reads [OF _ h(3,6)] s(3) 2 by (simp add: SSLSOCKET_CLOSE_NOTIFY_def)
  show ?thesis using s 1 2 3 by blast
qed

text \<open>
  C24: A block reaches the peer once: when send takes any part of what it is given, and a call that
  answered 0 is made again with the same block, the bytes on the wire and in the output buffer are those that were
  sent before and one record of the block, at every point; the last answer says the block is out.
\<close>

theorem sslWrite_once:
  assumes "ssl_encoder_ok recd enc" "0 < sb_size (cn_outsock cp)" "cn_outBufferCount cp = 0" "sb_data (cn_outsock cp) = []"
    "buf \<noteq> []" "0 < n" "n \<le> length ns" "nt_send net = map Inr ns"
  shows "\<exists>ret cp' net'. retry_write enc mx buf n cp net = Some (ret, cp', net') \<and>
    (ret = -1 \<and> wire cp' net' = nt_sent net \<or>
     wire cp' net' = nt_sent net @ snd (recd (cn_ssl cp) buf) \<and>
     (ret = int (length buf) \<and> sb_data (cn_outsock cp') = [] \<or> ret = 0))"
proof -
  obtain m ms where ns: "ns = m # ms" using assms(6,7) by (cases ns) auto
  obtain n' where n: "n = Suc n'" using assms(6) by (cases n) auto
  have send: "nt_send net = Inr m # map Inr ms" using assms(8) ns by simp
  obtain ret cp1 net1 where w: "sslWrite enc mx buf cp net = Some (ret, 0, cp1, net1)"
    and c: "ret = -1 \<and> wire cp1 net1 = nt_sent net \<or>
      nt_send net1 = map Inr ms \<and> wire cp1 net1 = nt_sent net @ snd (recd (cn_ssl cp) buf) \<and>
      (ret = int (length buf) \<and> sb_data (cn_outsock cp1) = [] \<and> cn_outBufferCount cp1 = 0 \<or>
       ret = 0 \<and> sb_data (cn_outsock cp1) \<noteq> [] \<and> cn_outBufferCount cp1 = length buf)"
    using first_write [OF assms(1-4) send, of mx buf] by blast
  show ?thesis
  proof (cases "ret = 0")
    case True
    then have "nt_send net1 = map Inr ms" "cn_outBufferCount cp1 = length buf" "sb_data (cn_outsock cp1) \<noteq> []"
      and wire: "wire cp1 net1 = nt_sent net @ snd (recd (cn_ssl cp) buf)" using c assms(5) by auto
    moreover have "n' \<le> length ms" using assms(7) ns n by simp
    ultimately show ?thesis using retry_write_rest [OF assms(5), of n' ms net1 cp1 enc mx] n w True by auto
  next
    case False
    then show ?thesis using c w n by auto
  qed
qed

lemma sslWrite_once_witness:
  "\<exists>ret cp' net'. retry_write sample_encode 100 ''hello'' 2 (sslAccept_new ()) (sample_net [] [Inr 2, Inr 9]) = Some (ret, cp', net') \<and>
    (ret = -1 \<and> wire cp' net' = [] \<or> wire cp' net' = ''hello'' \<and> (ret = 5 \<and> sb_data (cn_outsock cp') = [] \<or> ret = 0))"
  using sslWrite_once [OF sample_ok(2), of "sslAccept_new ()" "''hello''" 2 "[2, 9]" "sample_net [] [Inr 2, Inr 9]" 100]
  by (simp add: sslAccept_new_def sample_net_def)

text \<open>
  A send that would block makes the block go out twice. sslWrite has encoded it by then but has not
  set outBufferCount; the channel answers 0 with EAGAIN in errno, for which onWrite waits and transmits
  again, and the second call encodes the block again. And a send that takes a part makes the channel answer
  0 with errno 0, for which onWrite closes the session.
\<close>

theorem Matrixssl_write_twice:
  "(\<exists>cp. Matrixssl_write_vec sample_encode 100 [''ab''] (sslAccept_new (), sample_net [] [Inl EAGAIN, Inr 9], 0) =
      Some (0, cp, sample_net [] [Inr 9], EAGAIN) \<and>
    (\<exists>cp' net'. Matrixssl_write_vec sample_encode 100 [''ab''] (cp, sample_net [] [Inr 9], 0) = Some (2, cp', net', 0) \<and>
      nt_sent net' = ''abab'')) \<and>
   (\<exists>cp net. Matrixssl_write_vec sample_encode 100 [''ab''] (sslAccept_new (), sample_net [] [Inr 1], 0) = Some (0, cp, net, 0))"
  by (simp add: Matrixssl_write_vec_def sslWrite_def Let_def sslAccept_new_def sample_net_def ssl_pack_def retryEncode.simps
      sample_encode_def ssl_room_def write_out_def sock_send_def ssl_take_def EAGAIN_def)

text \<open>
  C40: A handshake that ends early crashes the server later: when the peer closes or its socket fails before
  sslAccept is done, sslAccept frees the connection but leaves the pointer to it in the channel, and
  the destructor of the channel uses it.
\<close>

theorem Matrixssl_failed_handshake:
  "map_option (\<lambda>r. res_bind r (\<lambda>(ret, mConn, net'). Inr (ret, Matrixssl_delete mConn)))
     (Matrixssl_init dec complete mx (Some k) (net\<lparr> nt_recv := Inr [] # rs \<rparr>)) = Some (Inr (-1, Inl UseAfterFree)) \<and>
   map_option (\<lambda>r. res_bind r (\<lambda>(ret, mConn, net'). Inr (ret, Matrixssl_delete mConn)))
     (Matrixssl_init dec complete mx (Some k) (net\<lparr> nt_recv := Inl e # rs \<rparr>)) = Some (Inr (-1, Inl UseAfterFree))"
  by (simp add: Matrixssl_init_def sslAccept_def accept_loop.simps sslRead_def sslAccept_new_def inbuf_data_def Let_def
      ssl_pack_def readMore_def sock_recv_def setSocketBlock_def Matrixssl_delete_def sslFreeConnection_def)

text \<open>
  What the channel makes of a stream that sslRead handles: a record that arrives in two segments
  answers 0 with errno 0, for which onRead closes the session; of two records in one segment one
  is handed over and the other waits inside the channel with nothing left in the socket to wake the loop; and when
  a response cannot be sent at once, the code reads in front of its buffer.
\<close>

theorem Matrixssl_receive_stops:
  "(\<exists>cp net. Matrixssl_receive sample_decode 100 [] (sslAccept_new ()) (sample_net [Inr [CHR 0x02, CHR ''o'']] []) =
      Some (Inr (0, 0, [], cp, net))) \<and>
   (\<exists>cp net. Matrixssl_receive sample_decode 100 [] (sslAccept_new ())
        (sample_net [Inr [CHR 0x01, CHR ''a'', CHR 0x01, CHR ''b'']] []) = Some (Inr (1, 0, ''a'', cp, net)) \<and>
      nt_recv net = [] \<and> conn_plain sample_records cp net = ''b'') \<and>
   Matrixssl_receive (\<lambda>k d room. (SSL_SEND_RESPONSE, k, 1, ''r'')) 100 [] (sslAccept_new ()) (sample_net [Inr ''x''] []) =
      Some (Inl OutOfBounds)"
  by (simp add: Matrixssl_receive_def sslRead_def readMore_def read_decode_def decodeMore.simps sslAccept_new_def sample_net_def
      inbuf_data_def inbuf_take_def Let_def ssl_pack_def sock_recv_def ssl_room_def sample_decode_def sample_records_def ssl_take_def
      grow_insock_def conn_plain_def incoming_def plain.simps ends_def send_response_def sock_send_def EAGAIN_def)

end
