(* ===== verification/SP_Port.thy ===== *)
theory SP_Port
  imports SP_CString "HOL-Library.Word"
begin

unbundle bit_operations_syntax

text \<open>
  Calls of the operating system behind one function: the listening sockets of spioutils.cpp, and from
  spwin32port.cpp the pair of sockets, the time of day and the text of an error. What a call answers is a
  parameter; a function is modelled with the list of the calls it makes, so that one can say which
  sockets it leaves open.
\<close>

lemma unat_less: "unat (x :: 'a::len word) < 2 ^ LENGTH('a)"
  by (rule unsigned_less)

subsection \<open>Flags of a socket\<close>

text \<open>\<open>getfl\<close> is what \<open>F_GETFL\<close> answers (\<open>None\<close>: a negative number), \<open>setfl\<close> whether \<open>F_SETFL\<close> succeeds. The answer is
  that of the function and the flags that were set.\<close>

definition O_NONBLOCK :: "32 word" where "O_NONBLOCK = 0x800"

definition setNonblock :: "32 word option \<Rightarrow> bool \<Rightarrow> int \<times> 32 word option" where
  "setNonblock getfl setfl =
     (case getfl of
        None \<Rightarrow> (-1, None)
      | Some flags \<Rightarrow> if setfl then (0, Some (flags OR O_NONBLOCK)) else (-1, Some flags))"

definition setBlock :: "32 word option \<Rightarrow> bool \<Rightarrow> int \<times> 32 word option" where
  "setBlock getfl setfl =
     (case getfl of
        None \<Rightarrow> (-1, None)
      | Some flags \<Rightarrow> if setfl then (0, Some (flags AND NOT O_NONBLOCK)) else (-1, Some flags))"

lemma setBlock_undoes:
  "setBlock (snd (setNonblock (Some flags) True)) True = (0, Some (flags AND NOT O_NONBLOCK))"
  by (simp add: setBlock_def setNonblock_def bit_eq_iff bit_simps) blast

subsection \<open>inetNtoa\<close>

text \<open>The four bytes of an address; \<open>snprintf\<close> writes at most \<open>size - 1\<close> characters.\<close>

definition inetNtoa :: "8 word list \<Rightarrow> nat \<Rightarrow> bytes" where
  "inetNtoa p sz = take (sz - 1)
     (digits 10 (unat (p ! 0)) @ ''.'' @ digits 10 (unat (p ! 1)) @ ''.'' @
      digits 10 (unat (p ! 2)) @ ''.'' @ digits 10 (unat (p ! 3)))"

fun dotted :: "bytes \<Rightarrow> bytes \<Rightarrow> nat list" where
  "dotted acc [] = [digits_val 10 acc]"
| "dotted acc (c # s) = (if c = CHR ''.'' then digits_val 10 acc # dotted [] s else dotted (acc @ [c]) s)"

lemma dotted_number: "list_all (is_digit_of 10) ds \<Longrightarrow> dotted acc (ds @ s) = dotted (acc @ ds) s"
proof (induction ds arbitrary: acc)
  case (Cons d ds)
  then have "d \<noteq> CHR ''.''" by (auto simp: is_digit_of_def digit_val_def)
  then show ?case using Cons by simp
qed simp

lemma dotted_digits:
  "dotted [] (digits 10 n) = [n]" "dotted [] (digits 10 n @ CHR ''.'' # s) = n # dotted [] s"
  using digits_ok [of 10 n] dotted_number [of "digits 10 n" "[]" "[]"] dotted_number [of "digits 10 n" "[]" "CHR ''.'' # s"]
  by simp_all

lemma length_digits_byte: "n < 1000 \<Longrightarrow> length (digits 10 n) \<le> 3"
  by (subst digits.simps, subst digits.simps, subst digits.simps) auto

lemma inetNtoa_full:
  assumes "16 \<le> sz"
  shows "inetNtoa [a, b, c, d] sz =
    digits 10 (unat a) @ ''.'' @ digits 10 (unat b) @ ''.'' @ digits 10 (unat c) @ ''.'' @ digits 10 (unat d)"
proof -
  have "length (digits 10 (unat x)) \<le> 3" for x :: "8 word"
    using unat_less [of x] by (intro length_digits_byte) simp
  from this [of a] this [of b] this [of c] this [of d] show ?thesis
    using assms by (simp add: inetNtoa_def)
qed

subsection \<open>tcpListen\<close>

datatype os_call = Os_socket | Os_nonblock int | Os_reuseaddr int | Os_nodelay int | Os_aton bytes | Os_bind int "16 word"
  | Os_bind_path int bytes | Os_listen int | Os_close int | Os_access bytes | Os_unlink bytes | Os_fchmod int

record listen_os =
  lo_socket :: int
  lo_nonblock :: bool
  lo_reuseaddr :: bool
  lo_nodelay :: bool
  lo_aton :: bool
  lo_bind :: bool
  lo_listen :: bool
  lo_access :: bool
  lo_unlink :: bool

text \<open>One step of the setup: it is taken only when every step before it succeeded.\<close>

definition attempt :: "bool \<Rightarrow> os_call list \<Rightarrow> int \<times> os_call list \<Rightarrow> int \<times> os_call list" where
  "attempt ok cs st = (if fst st = 0 then (if ok then 0 else -1, snd st @ cs) else st)"

definition finish_listen :: "int \<Rightarrow> int \<times> os_call list \<Rightarrow> int \<times> int option \<times> os_call list" where
  "finish_listen listenFd st =
     (fst st, if fst st = 0 then Some listenFd else None,
      if fst st \<noteq> 0 \<and> 0 \<le> listenFd then snd st @ [Os_close listenFd] else snd st)"

text \<open>Both options are set even when the first fails. The port goes through \<open>htons\<close>, 16 bits.\<close>

definition tcpListen :: "listen_os \<Rightarrow> bytes \<Rightarrow> int \<Rightarrow> bool \<Rightarrow> int \<times> int option \<times> os_call list" where
  "tcpListen os ip port blocking =
     (let fd = lo_socket os;
          s0 = (if fd < 0 then -1 else 0, [Os_socket]);
          s1 = (if \<not> blocking then attempt (lo_nonblock os) [Os_nonblock fd] s0 else s0);
          s2 = attempt (lo_reuseaddr os \<and> lo_nodelay os) [Os_reuseaddr fd, Os_nodelay fd] s1;
          s3 = (if ip \<noteq> [] then attempt (lo_aton os) [Os_aton ip] s2 else s2);
          s4 = attempt (lo_bind os) [Os_bind fd (word_of_int port)] s3
      in finish_listen fd (attempt (lo_listen os) [Os_listen fd] s4))"

text \<open>On a path: \<open>sun_path\<close> has 108 bytes.\<close>

definition tcpListen_path :: "listen_os \<Rightarrow> bytes \<Rightarrow> bool \<Rightarrow> int \<Rightarrow> int \<times> int option \<times> os_call list" where
  "tcpListen_path os path blocking mode =
     (if 108 - 1 < length path then (-1, None, [])
      else if lo_access os \<and> \<not> lo_unlink os then (-1, None, [Os_access path, Os_unlink path])
      else
        let fd = lo_socket os;
            s0 = (if fd < 0 then -1 else 0, Os_access path # (if lo_access os then [Os_unlink path] else []) @ [Os_socket]);
            s1 = (if \<not> blocking then attempt (lo_nonblock os) [Os_nonblock fd] s0 else s0);
            s2 = attempt (lo_reuseaddr os) [Os_reuseaddr fd] s1;
            s3 = attempt (lo_bind os) [Os_bind_path fd path] s2
        in case finish_listen fd (attempt (lo_listen os) [Os_listen fd] s3) of
             (ret, fdo, calls) \<Rightarrow> (ret, fdo, if ret = 0 \<and> 0 < mode then calls @ [Os_fchmod fd] else calls))"

fun is_close :: "os_call \<Rightarrow> bool" where
  "is_close (Os_close fd) = True"
| "is_close _ = False"

text \<open>What \<open>attempt\<close> keeps: no socket is closed, and without one nothing is done with it.\<close>

definition listening :: "int \<Rightarrow> bool \<Rightarrow> int \<times> os_call list \<Rightarrow> bool" where
  "listening fd oks st \<longleftrightarrow> Os_socket \<in> set (snd st) \<and> filter is_close (snd st) = [] \<and> (fst st = 0 \<longleftrightarrow> 0 \<le> fd \<and> oks)"

lemma listening_attempt:
  "listening fd oks st \<Longrightarrow> filter is_close cs = [] \<Longrightarrow> listening fd (oks \<and> ok) (attempt ok cs st)"
  by (auto simp: listening_def attempt_def)

lemma listening_finish:
  "listening fd oks st \<Longrightarrow> finish_listen fd st = (ret, fdo, calls) \<Longrightarrow>
     Os_socket \<in> set calls \<and> (ret = 0 \<longleftrightarrow> 0 \<le> fd \<and> oks) \<and> fdo = (if ret = 0 then Some fd else None) \<and>
     filter is_close calls = (if ret \<noteq> 0 \<and> 0 \<le> fd then [Os_close fd] else [])"
  by (auto simp: listening_def finish_listen_def)

lemma listening_start:
  "filter is_close cs = [] \<Longrightarrow> Os_socket \<in> set cs \<Longrightarrow> listening fd True (if fd < 0 then -1 else 0, cs)"
  by (simp add: listening_def)

lemma listening_if:
  "listening fd oks st \<Longrightarrow> filter is_close cs = [] \<Longrightarrow> listening fd (oks \<and> (\<not> c \<or> ok)) (if c then attempt ok cs st else st)"
  using listening_attempt [of fd oks st cs ok] by auto

lemma tcpListen_ok:
  assumes "tcpListen os ip port blocking = (ret, fd, calls)"
  shows "(ret = 0 \<longleftrightarrow> 0 \<le> lo_socket os \<and> (blocking \<or> lo_nonblock os) \<and> lo_reuseaddr os \<and> lo_nodelay os \<and>
         (ip = [] \<or> lo_aton os) \<and> lo_bind os \<and> lo_listen os) \<and>
      fd = (if ret = 0 then Some (lo_socket os) else None) \<and>
      filter is_close calls = (if ret \<noteq> 0 \<and> 0 \<le> lo_socket os then [Os_close (lo_socket os)] else [])"
proof -
  let ?s1 = "if \<not> blocking then attempt (lo_nonblock os) [Os_nonblock (lo_socket os)] (if lo_socket os < 0 then -1 else 0, [Os_socket])
    else (if lo_socket os < 0 then -1 else 0, [Os_socket])"
  let ?s2 = "attempt (lo_reuseaddr os \<and> lo_nodelay os) [Os_reuseaddr (lo_socket os), Os_nodelay (lo_socket os)] ?s1"
  obtain st where st: "listening (lo_socket os) (((((True \<and> (\<not> \<not> blocking \<or> lo_nonblock os)) \<and> lo_reuseaddr os \<and> lo_nodelay os) \<and>
      (\<not> ip \<noteq> [] \<or> lo_aton os)) \<and> lo_bind os) \<and> lo_listen os) st" "finish_listen (lo_socket os) st = (ret, fd, calls)"
  proof
    show "finish_listen (lo_socket os) (attempt (lo_listen os) [Os_listen (lo_socket os)]
       (attempt (lo_bind os) [Os_bind (lo_socket os) (word_of_int port)]
        (if ip \<noteq> [] then attempt (lo_aton os) [Os_aton ip] ?s2 else ?s2))) = (ret, fd, calls)"
      using assms by (simp only: tcpListen_def Let_def)
  qed (intro listening_attempt listening_if listening_start; simp)
  show ?thesis using listening_finish [OF st] by auto
qed

lemma tcpListen_path_ok:
  assumes "tcpListen_path os path blocking mode = (ret, fd, calls)"
  shows "fd = (if ret = 0 then Some (lo_socket os) else None) \<and>
      filter is_close calls = (if ret \<noteq> 0 \<and> Os_socket \<in> set calls \<and> 0 \<le> lo_socket os then [Os_close (lo_socket os)] else [])"
proof (cases "108 - 1 < length path \<or> lo_access os \<and> \<not> lo_unlink os")
  case True
  then show ?thesis using assms by (cases "107 < length path") (auto simp: tcpListen_path_def)
next
  case False
  let ?fd = "lo_socket os"
  let ?st = "attempt (lo_listen os) [Os_listen ?fd] (attempt (lo_bind os) [Os_bind_path ?fd path]
    (attempt (lo_reuseaddr os) [Os_reuseaddr ?fd] (if \<not> blocking then attempt (lo_nonblock os) [Os_nonblock ?fd]
      (if ?fd < 0 then -1 else 0, Os_access path # (if lo_access os then [Os_unlink path] else []) @ [Os_socket])
      else (if ?fd < 0 then -1 else 0, Os_access path # (if lo_access os then [Os_unlink path] else []) @ [Os_socket]))))"
  have st: "listening ?fd ((((True \<and> (\<not> \<not> blocking \<or> lo_nonblock os)) \<and> lo_reuseaddr os) \<and> lo_bind os) \<and> lo_listen os) ?st"
    by (intro listening_attempt listening_if listening_start) auto
  obtain ret' fd' calls' where fin: "finish_listen ?fd ?st = (ret', fd', calls')" by (cases "finish_listen ?fd ?st")
  have no: "(108 - 1 < length path) = False" "(lo_access os \<and> \<not> lo_unlink os) = False" using False by blast+
  have "tcpListen_path os path blocking mode =
      (ret', fd', if ret' = 0 \<and> 0 < mode then calls' @ [Os_fchmod ?fd] else calls')"
    by (simp only: tcpListen_path_def Let_def no if_False fin prod.case)
  then have "ret' = ret" "fd' = fd" "calls = (if ret = 0 \<and> 0 < mode then calls' @ [Os_fchmod ?fd] else calls')"
    using assms by simp_all
  then show ?thesis using listening_finish [OF st fin] by auto
qed

subsection \<open>spwin32_socketpair\<close>

text \<open>
  The answers are sockets, \<open>-1\<close> for \<open>INVALID_SOCKET\<close>. The result: the return value, \<open>socks\<close>, the
  sockets that were opened and the arguments of \<open>closesocket\<close>.
\<close>

record pair_os =
  po_listener :: int
  po_bind :: bool
  po_getsockname :: bool
  po_listen :: bool
  po_socket :: int
  po_connect :: bool
  po_accept :: int

definition valid :: "int \<Rightarrow> bool" where "valid s \<longleftrightarrow> s \<noteq> -1"

definition spwin32_socketpair :: "pair_os \<Rightarrow> int \<times> (int \<times> int) \<times> int list \<times> int list" where
  "spwin32_socketpair os =
     (let l = po_listener os in
      if \<not> valid l then (-1, (-1, -1), [], [])
      else if \<not> po_bind os \<or> \<not> po_getsockname os then (-1, (-1, -1), [l], [l])
      else
        let s0 = (if po_listen os then po_socket os else -1);
            s1 = (if valid s0 \<and> po_connect os then po_accept os else -1);
            opened = filter valid [l, s0, s1]
        in if valid s1 then (0, (s0, s1), opened, [l]) else (-1, (s0, s1), opened, [l, s0, s1]))"

subsection \<open>spwin32_gettimeofday and spwin32_strerror\<close>

definition spwin32_gettimeofday :: "32 word \<Rightarrow> 32 word \<Rightarrow> int \<times> int" where
  "spwin32_gettimeofday high low =
     (let tmpres = push_bit 32 (ucast high) OR ucast low :: 64 word;
          us = tmpres div 10 - 11644473600000000
      in (sint (ucast (us div 1000000) :: 32 word), sint (ucast (us mod 1000000) :: 32 word)))"

text \<open>\<open>formatMessage e\<close> is the text of an error or the error that prevents it.\<close>

partial_function (option) spwin32_strerror :: "('e \<Rightarrow> 'e + bytes) \<Rightarrow> 'e \<Rightarrow> bytes option" where
  "spwin32_strerror formatMessage lastError =
     (case formatMessage lastError of
        Inr errmsg \<Rightarrow> Some errmsg
      | Inl e \<Rightarrow> spwin32_strerror formatMessage e)"

lemma strerror_fails:
  assumes "\<And>e. \<exists>e'. formatMessage e = Inl e'" "spwin32_strerror formatMessage e = Some s"
  shows False
proof (rule spwin32_strerror.raw_induct [where P = "\<lambda>fm e s. (\<forall>e. \<exists>e'. fm e = Inl e') \<longrightarrow> False", THEN mp, OF _ assms(2)])
  fix f fm e s
  assume IH: "\<And>fm e s. f fm e = Some s \<Longrightarrow> (\<forall>e. \<exists>e'. fm e = Inl e') \<longrightarrow> False"
    and eq: "(case fm e of Inr errmsg \<Rightarrow> Some errmsg | Inl e \<Rightarrow> f fm e) = Some s"
  show "(\<forall>e. \<exists>e'. fm e = Inl e') \<longrightarrow> False"
    using eq IH by (cases "fm e") (auto, metis sum.distinct(1))
qed (use assms(1) in blast)

lemma filetime:
  "unat (push_bit 32 (ucast high) OR ucast low :: 64 word) = unat (high :: 32 word) * 2 ^ 32 + unat (low :: 32 word)"
proof -
  let ?h = "push_bit 32 (ucast high) :: 64 word" and ?l = "ucast low :: 64 word"
  have dis: "\<not> bit ?h n \<or> \<not> bit ?l n" for n
    using bit_imp_le_length [of low n] by (auto simp: bit_simps)
  have h: "unat ?h = unat high * 2 ^ 32"
    using unat_less [of high]
    unfolding unsigned_push_bit_eq by (simp add: unsigned_ucast_eq take_bit_eq_mod push_bit_eq_mult)
  have l: "unat ?l = unat low" using unat_less [of low] by (simp add: unsigned_ucast_eq take_bit_eq_mod)
  have "?h OR ?l = ?h + ?l" using disjunctive_add [of ?h ?l] dis by simp
  moreover have "unat (?h + ?l) = unat ?h + unat ?l"
    using unat_less [of high] unat_less [of low] by (intro unat_add_lem [THEN iffD1]) (simp add: h l)
  ultimately show ?thesis by (simp add: h l)
qed

lemma sint_small:
  assumes "unat (x :: 64 word) < 2 ^ 31"
  shows "sint (ucast x :: 32 word) = int (unat x)"
proof -
  have u: "unat (ucast x :: 32 word) = unat x" using assms by (simp add: unsigned_ucast_eq take_bit_eq_mod)
  then have i: "uint (ucast x :: 32 word) = int (unat x)" by (metis of_nat_unat)
  have "sint (ucast x :: 32 word) = signed_take_bit 31 (uint (ucast x :: 32 word))" by (simp add: sint_uint)
  also have "\<dots> = int (unat x)" unfolding i
    by (intro signed_take_bit_int_eq_self) (use assms in \<open>simp_all del: of_nat_unat\<close>)
  finally show ?thesis .
qed

lemma gettimeofday_word:
  assumes "116444736000000000 \<le> t" "t < 116444736000000000 + 2 ^ 31 * 10000000"
    "t = unat high * 2 ^ 32 + unat low"
  shows "spwin32_gettimeofday high low =
    (int ((t div 10 - 11644473600000000) div 1000000), int ((t div 10 - 11644473600000000) mod 1000000))"
proof -
  let ?u = "push_bit 32 (ucast high) OR ucast low :: 64 word"
  let ?us = "?u div 10 - 11644473600000000"
  have u: "unat ?u = t" using filetime [of high low] assms(3) by simp
  then have d: "unat (?u div 10) = t div 10" by (simp add: unat_div_distrib)
  have t: "11644473600000000 \<le> t div 10" using assms(1) by simp
  then have "(11644473600000000 :: 64 word) \<le> ?u div 10" unfolding word_le_nat_alt d by simp
  then have us: "unat ?us = t div 10 - 11644473600000000" using d t by (simp add: unat_sub_if')
  then have "unat (?us div 1000000) = (t div 10 - 11644473600000000) div 1000000"
    "unat (?us mod 1000000) = (t div 10 - 11644473600000000) mod 1000000"
    by (simp_all add: unat_div_distrib unat_mod_distrib)
  moreover have "(t div 10 - 11644473600000000) div 1000000 < 2 ^ 31" using assms(2) by simp
  moreover have "(t div 10 - 11644473600000000) mod 1000000 < 2 ^ 31" by (rule less_trans [of _ 1000000]) simp_all
  ultimately show ?thesis by (simp add: spwin32_gettimeofday_def Let_def sint_small)
qed

subsection \<open>Properties\<close>

text \<open>
  C36: tcpListen for a port succeeds exactly when every step of the setup does. For a port and for a path,
  success answers the socket and leaves it open; otherwise no socket is answered, and one that had been
  created is closed once.
\<close>

theorem tcpListen_closes_once:
  "(case tcpListen os ip port blocking of (ret, fd, calls) \<Rightarrow>
      (ret = 0 \<longleftrightarrow> 0 \<le> lo_socket os \<and> (blocking \<or> lo_nonblock os) \<and> lo_reuseaddr os \<and> lo_nodelay os \<and>
         (ip = [] \<or> lo_aton os) \<and> lo_bind os \<and> lo_listen os) \<and>
      fd = (if ret = 0 then Some (lo_socket os) else None) \<and>
      filter is_close calls = (if ret \<noteq> 0 \<and> 0 \<le> lo_socket os then [Os_close (lo_socket os)] else [])) \<and>
   (case tcpListen_path os path blocking mode of (ret, fd, calls) \<Rightarrow>
      fd = (if ret = 0 then Some (lo_socket os) else None) \<and>
      filter is_close calls = (if ret \<noteq> 0 \<and> Os_socket \<in> set calls \<and> 0 \<le> lo_socket os then [Os_close (lo_socket os)] else []))"
proof (rule conjI, goal_cases)
  case 1
  obtain ret fd calls where "tcpListen os ip port blocking = (ret, fd, calls)" by (cases "tcpListen os ip port blocking")
  from this tcpListen_ok [OF this] show ?case by simp
next
  case 2
  obtain ret fd calls where "tcpListen_path os path blocking mode = (ret, fd, calls)"
    by (cases "tcpListen_path os path blocking mode")
  from this tcpListen_path_ok [OF this] show ?case by simp
qed

text \<open>
  The text of an address is read back to its four bytes, and a buffer of 16 bytes, which every caller
  has, holds it.
\<close>

theorem inetNtoa_roundtrip:
  "dotted [] (inetNtoa [a, b, c, d] 16) = [unat a, unat b, unat c, unat d] \<and>
   inetNtoa [a, b, c, d] 32 = inetNtoa [a, b, c, d] 16"
  using inetNtoa_full [of 16 a b c d] inetNtoa_full [of 32 a b c d] by (simp add: dotted_digits)

text \<open>
  The Windows time of day: from 1970 to January 2038 the seconds and microseconds are the time since 1970 to
  the microsecond, the microseconds below a million.
\<close>

theorem gettimeofday_exact:
  assumes "116444736000000000 \<le> t" "t < 116444736000000000 + 2 ^ 31 * 10000000"
    "t = unat high * 2 ^ 32 + unat low"
  shows "case spwin32_gettimeofday high low of (sec, usec) \<Rightarrow>
    0 \<le> sec \<and> 0 \<le> usec \<and> usec < 1000000 \<and> sec * 1000000 + usec = int (t div 10 - 11644473600000000)"
proof -
  let ?n = "t div 10 - 11644473600000000"
  have "int (?n div 1000000) * 1000000 + int (?n mod 1000000) = int ?n"
    unfolding of_nat_div of_nat_mod by simp
  then show ?thesis by (simp add: gettimeofday_word [OF assms])
qed

lemma gettimeofday_exact_witness:
  "case spwin32_gettimeofday 0x01BF53EB 0x256D4000 of (sec, usec) \<Rightarrow>
    0 \<le> sec \<and> 0 \<le> usec \<and> usec < 1000000 \<and> sec * 1000000 + usec = 946684800000000"
proof -
  have "(125911584000000000 :: nat) = unat (0x01BF53EB :: 32 word) * 2 ^ 32 + unat (0x256D4000 :: 32 word)" by simp
  moreover have "int (125911584000000000 div 10 - 11644473600000000) = 946684800000000" by simp
  ultimately show ?thesis using gettimeofday_exact [of 125911584000000000 "0x01BF53EB" "0x256D4000"] by (simp only:) simp
qed

text \<open>
  Spwin32_socketpair leaves no socket behind: when it fails, what it closes is what it opened, and when
  it succeeds it has closed the listener only.
\<close>

theorem socketpair_closes:
  "case spwin32_socketpair os of (ret, (s0, s1), opened, closed) \<Rightarrow>
     if ret = 0 then closed = [po_listener os] \<and> opened = [po_listener os, s0, s1] \<and> s0 \<noteq> -1 \<and> s1 \<noteq> -1
     else filter valid closed = opened"
  by (auto simp: spwin32_socketpair_def Let_def valid_def)

text \<open>
  Spwin32_strerror does not return when the text of no error can be had, as with a buffer that is too
  small: it asks for the text of the error that prevented it, again and again.
\<close>

theorem strerror_never_returns:
  "spwin32_strerror (\<lambda>e. Inl (insufficient e)) lastError = None"
  using strerror_fails [of "\<lambda>e. Inl (insufficient e)" lastError]
  by (cases "spwin32_strerror (\<lambda>e. Inl (insufficient e)) lastError") auto

end
