(* ===== verification/SP_IocpServer.thy ===== *)
theory SP_IocpServer
  imports SP_Server SP_IocpRun
begin

text \<open>
  The two servers on completion ports, \<open>SP_IocpServer\<close> (spiocpserver.cpp) and \<open>SP_IocpLFServer\<close>
  (spiocplfserver.cpp). Their threads do to the shared state what \<open>io_step\<close> of \<open>SP_Iocp\<close> does;
  \<open>shutdown\<close> posts a packet that wakes the thread in the event loop.
\<close>

subsection \<open>One call of eventLoop\<close>

text \<open>
  The thread waits in \<open>GetQueuedCompletionStatus\<close>, or is in the loop of \<open>SP_IocpMsgQueue::process\<close>, which
  handles responses until there is none. Every other completion ends the call. A packet is what
  \<open>shutdown\<close> posts; \<open>TsNone\<close> stands for a completion of a session that is gone and for a failed wait.
\<close>

datatype turn = TurnWait | TurnProcess

datatype 'd turn_step = TsEvent nat "wsa list" "'d io_step" | TsPacket | TsNone | TsDone

fun io_loop_event :: "'d io_step \<Rightarrow> bool" where
  "io_loop_event (IoAccept added d ip port) = True"
| "io_loop_event (IoRecvDone o1 e) = True"
| "io_loop_event (IoSendDone o1 rets err) = True"
| "io_loop_event (IoFailed o1 k) = True"
| "io_loop_event IoTimeout = True"
| "io_loop_event _ = False"

definition IocpCallback_eventLoop :: "accept_arg \<Rightarrow> 'd io_decoder \<Rightarrow> 'd turn_step \<Rightarrow> turn \<Rightarrow> 'd iocp_arg \<Rightarrow> nat \<Rightarrow>
    (turn option \<times> 'd iocp_arg \<times> nat) res option" where
  "IocpCallback_eventLoop ac dec ts t ia packets =
     (case ts of
        TsEvent now ws st \<Rightarrow>
          if st = IoResponse \<or> t = TurnWait \<and> io_loop_event st
          then map_option (\<lambda>r. res_bind r (\<lambda>ia'. Inr (if st = IoResponse then Some TurnProcess else None, ia', packets)))
                 (io_timed_step ac dec (now, ws, st) ia)
          else None
      | TsPacket \<Rightarrow> if t = TurnWait \<and> 0 < packets then Some (Inr (None, ia, packets - 1)) else None
      | TsNone \<Rightarrow> if t = TurnWait then Some (Inr (None, ia, packets)) else None
      | TsDone \<Rightarrow> if t = TurnProcess then Some (Inr (None, ia, packets)) else None)"

lemma eventLoop_cases:
  assumes "IocpCallback_eventLoop ac dec ts t ia packets = Some r"
  obtains f now ws st where "r = Inl f" "ts = TsEvent now ws st" "io_timed_step ac dec (now, ws, st) ia = Some (Inl f)"
  | ia' now ws st where "ts = TsEvent now ws st" "io_timed_step ac dec (now, ws, st) ia = Some (Inr ia')"
      "r = Inr (if st = IoResponse then Some TurnProcess else None, ia', packets)"
  | p where "r = Inr (None, ia, p)"
proof (cases ts)
  case (TsEvent now ws st)
  with assms obtain r1 where r1: "io_timed_step ac dec (now, ws, st) ia = Some r1"
    "r = res_bind r1 (\<lambda>ia'. Inr (if st = IoResponse then Some TurnProcess else None, ia', packets))"
    by (auto simp: IocpCallback_eventLoop_def split: if_splits)
  then show thesis by (cases r1) (simp_all add: that(1) [OF _ TsEvent] that(2) [OF TsEvent])
qed (use assms that(3) in \<open>auto simp: IocpCallback_eventLoop_def split: if_splits\<close>)

text \<open>What the other threads and the drains do with the state at hand.\<close>

lemma io_timed_now: "io_timed_step ac dec (ia_now ia, ia_wsa ia, st) ia = io_step ac dec st ia"
  by (simp add: io_timed_step_def io_at_def)

lemma io_step_keeps:
  assumes "decoder_ok dec" "io_inv ia" "io_step ac dec st ia = Some r" "\<not> io_accepts st"
  obtains ia' where "r = Inr ia'" "io_inv ia'"
proof -
  have "io_added st" using assms(4) by (cases st) auto
  then have "yields io_inv r" using io_step_inv [OF assms(1-3)] assms(4) by simp
  then show thesis by (auto simp: yields_def intro: that split: sum.splits)
qed

subsection \<open>SP_IocpServer\<close>

text \<open>
  \<open>start\<close>, as in \<open>SP_Server\<close>. \<open>is_packets\<close> are the packets of \<open>shutdown\<close> on the port, \<open>is_posting\<close> the calls of
  \<open>shutdown\<close> between the flag and the post.
\<close>

datatype is_pc = IsLoop turn | IsTasks | IsCompleted | IsTest | IsDeleted | IsStopped

record 'd iocp_server =
  is_mEventArg :: "'d iocp_arg"
  is_mIsShutdown :: bool
  is_pc :: is_pc
  is_packets :: nat
  is_posting :: nat
  is_act :: "sp_message list"
  is_handler :: bool

definition IocpServer_start :: "nat \<Rightarrow> 'd iocp_server" where
  "IocpServer_start timeout = \<lparr> is_mEventArg = IocpEventArg_new timeout, is_mIsShutdown = False, is_pc = IsTest,
     is_packets = 0, is_posting = 0, is_act = [], is_handler = True \<rparr>"

definition IocpServer_outputCompleted :: "'d iocp_server \<Rightarrow> 'd iocp_server res" where
  "IocpServer_outputCompleted s = (if is_handler s then Inr (s\<lparr> is_act := tl (is_act s) \<rparr>) else Inl UseAfterFree)"

definition on_iocp :: "'d iocp_server \<Rightarrow> 'd iocp_arg res option \<Rightarrow> 'd iocp_server res option" where
  "on_iocp s r = map_option (\<lambda>r. res_bind r (\<lambda>ia. Inr (s\<lparr> is_mEventArg := ia \<rparr>))) r"

definition IocpServer_loop :: "accept_arg \<Rightarrow> 'd io_decoder \<Rightarrow> 'd iocp_server \<Rightarrow> 'd iocp_server res option" where
  "IocpServer_loop ac dec s =
     (let ia = is_mEventArg s in
      case is_pc s of
        IsLoop t \<Rightarrow> None
      | IsTasks \<Rightarrow>
          if ea_mInputResultQueue (ia_ea ia) \<noteq> [] then on_iocp s (io_step ac dec IoTakeTask ia)
          else Some (Inr (s\<lparr> is_pc := IsCompleted \<rparr>))
      | IsCompleted \<Rightarrow>
          (case ea_mOutputResultQueue (ia_ea ia) of
             [] \<Rightarrow> Some (Inr (s\<lparr> is_pc := IsTest \<rparr>))
           | i # is \<Rightarrow>
               (case ea_msgs (ia_ea ia) i of None \<Rightarrow> Some (Inl UseAfterFree)
                | Some m \<Rightarrow> on_iocp (s\<lparr> is_act := is_act s @ [m] \<rparr>) (io_step ac dec IoTakeCompleted ia)))
      | IsTest \<Rightarrow>
          Some (Inr (if is_mIsShutdown s then s\<lparr> is_pc := IsDeleted, is_handler := False \<rparr>
                     else s\<lparr> is_pc := IsLoop TurnWait \<rparr>))
      | IsDeleted \<Rightarrow> Some (Inr (s\<lparr> is_pc := IsStopped, is_act := [] \<rparr>))
      | IsStopped \<Rightarrow> None)"

text \<open>\<open>IsPost ok\<close>: whether \<open>PostQueuedCompletionStatus\<close> succeeds.\<close>

datatype 'd is_step =
    IsTurn "'d turn_step"
  | IsMove
  | IsWorker nat int "'d handler_result"
  | IsAct
  | IsShutdown
  | IsPost bool

definition is_step :: "accept_arg \<Rightarrow> 'd io_decoder \<Rightarrow> 'd is_step \<Rightarrow> 'd iocp_server \<Rightarrow> 'd iocp_server res option" where
  "is_step ac dec step s =
     (case step of
        IsTurn ts \<Rightarrow>
          (case is_pc s of
             IsLoop t \<Rightarrow>
               map_option (\<lambda>r. res_bind r (\<lambda>(t', ia, p). Inr (s\<lparr> is_mEventArg := ia, is_packets := p,
                   is_pc := (case t' of None \<Rightarrow> IsTasks | Some t1 \<Rightarrow> IsLoop t1) \<rparr>)))
                 (IocpCallback_eventLoop ac dec ts t (is_mEventArg s) (is_packets s))
           | _ \<Rightarrow> None)
      | IsMove \<Rightarrow> IocpServer_loop ac dec s
      | IsWorker k initRet h \<Rightarrow>
          if is_pc s \<noteq> IsStopped then on_iocp s (io_step ac dec (IoStage k initRet h) (is_mEventArg s)) else None
      | IsAct \<Rightarrow> if is_act s \<noteq> [] then Some (IocpServer_outputCompleted s) else None
      | IsShutdown \<Rightarrow> Some (Inr (s\<lparr> is_mIsShutdown := True, is_posting := is_posting s + 1 \<rparr>))
      | IsPost ok \<Rightarrow>
          if 0 < is_posting s
          then Some (Inr (s\<lparr> is_posting := is_posting s - 1, is_packets := (if ok then is_packets s + 1 else is_packets s) \<rparr>))
          else None)"

definition is_bad :: "fault \<Rightarrow> 'd is_step \<Rightarrow> 'd iocp_server \<Rightarrow> bool" where
  "is_bad f step s \<longleftrightarrow>
     f = AssertFail \<and> (\<exists>now ws st. step = IsTurn (TsEvent now ws st) \<and> io_accepts st) \<and> table_full (ia_ea (is_mEventArg s)) \<or>
     f = UseAfterFree \<and> step = IsAct \<and> is_pc s = IsDeleted"

fun is_ok :: "'d is_step \<Rightarrow> bool" where
  "is_ok (IsTurn (TsEvent now ws st)) = io_added st"
| "is_ok (IsPost ok) = ok"
| "is_ok _ = True"

definition is_inv :: "'d iocp_server \<Rightarrow> bool" where
  "is_inv s \<longleftrightarrow> io_inv (is_mEventArg s) \<and>
     (is_handler s \<longleftrightarrow> is_pc s \<noteq> IsDeleted \<and> is_pc s \<noteq> IsStopped) \<and>
     (is_pc s = IsStopped \<longrightarrow> is_act s = []) \<and>
     (is_mIsShutdown s \<and> is_pc s = IsLoop TurnWait \<longrightarrow> 0 < is_packets s \<or> 0 < is_posting s)"

lemma on_iocp_keeps:
  assumes dec: "decoder_ok dec" and inv: "is_inv s" "is_pc s \<noteq> IsStopped"
    and step: "on_iocp (s\<lparr> is_act := a \<rparr>) (io_step ac dec st (is_mEventArg s)) = Some r" and st: "\<not> io_accepts st"
  shows "\<exists>s'. r = Inr s' \<and> is_inv s'"
proof -
  from step obtain r1 where r1: "io_step ac dec st (is_mEventArg s) = Some r1"
    "r = res_bind r1 (\<lambda>ia. Inr (s\<lparr> is_act := a, is_mEventArg := ia \<rparr>))" by (auto simp: on_iocp_def)
  have "io_inv (is_mEventArg s)" using inv(1) by (simp add: is_inv_def)
  from io_step_keeps [OF dec this r1(1) st] obtain ia' where "r1 = Inr ia'" "io_inv ia'" by blast
  then show ?thesis using r1(2) inv by (simp add: is_inv_def)
qed

lemma IocpServer_loop_keeps:
  assumes dec: "decoder_ok dec" and inv: "is_inv s" and step: "IocpServer_loop ac dec s = Some r"
  shows "\<exists>s'. r = Inr s' \<and> is_inv s'"
proof (cases "is_pc s")
  case IsTasks
  then show ?thesis using step inv on_iocp_keeps [OF dec inv, of "is_act s" ac IoTakeTask r]
    by (auto simp: IocpServer_loop_def Let_def is_inv_def split: if_splits)
next
  case IsCompleted
  show ?thesis
  proof (cases "ea_mOutputResultQueue (ia_ea (is_mEventArg s))")
    case Nil
    then show ?thesis using step inv IsCompleted by (auto simp: IocpServer_loop_def Let_def is_inv_def)
  next
    case (Cons i "is")
    then obtain m where m: "ea_msgs (ia_ea (is_mEventArg s)) i = Some m"
      using take_completed_inv [of False "ia_ea (is_mEventArg s)" i "is"] inv by (auto simp: is_inv_def io_inv_def)
    then have "on_iocp (s\<lparr> is_act := is_act s @ [m] \<rparr>) (io_step ac dec IoTakeCompleted (is_mEventArg s)) = Some r"
      using step IsCompleted Cons by (simp add: IocpServer_loop_def Let_def)
    from on_iocp_keeps [OF dec inv _ this] show ?thesis using IsCompleted by simp
  qed
qed (use step inv in \<open>auto simp: IocpServer_loop_def Let_def is_inv_def\<close>)

lemma eventLoop_keeps:
  assumes dec: "decoder_ok dec" and inv: "io_inv ia" and step: "IocpCallback_eventLoop ac dec ts t ia p = Some r"
    and ok: "is_ok (IsTurn ts)"
  shows "case r of
      Inr (t', ia', p') \<Rightarrow> io_inv ia' \<and> t' \<noteq> Some TurnWait
    | Inl f \<Rightarrow> f = AssertFail \<and> (\<exists>now ws st. ts = TsEvent now ws st \<and> io_accepts st) \<and> table_full (ia_ea ia)"
  using step
proof (cases rule: eventLoop_cases)
  case (1 f now ws st)
  have "io_step ac dec st (io_at now ws ia) = Some (Inl f)" "io_added st"
    using 1 ok by (simp_all add: io_timed_step_def)
  from io_step_inv [OF dec _ this] inv 1 show ?thesis by (auto simp: yields_def split: if_splits)
next
  case (2 ia' now ws st)
  have "io_step ac dec st (io_at now ws ia) = Some (Inr ia')" "io_added st"
    using 2 ok by (simp_all add: io_timed_step_def)
  from io_step_inv [OF dec _ this] inv 2 show ?thesis by (auto simp: yields_def split: if_splits)
next
  case (3 p')
  then show ?thesis using inv by simp
qed

interpretation isv: stepper "is_step ac dec" "\<lambda>st. decoder_ok dec \<and> is_ok st" is_inv is_bad
  for ac :: accept_arg and dec :: "'d io_decoder"
proof
  fix s :: "'d iocp_server" and st r
  assume inv: "is_inv s" and ok: "decoder_ok dec \<and> is_ok st" and step: "is_step ac dec st s = Some r"
  have dec: "decoder_ok dec" and io: "io_inv (is_mEventArg s)" using ok inv by (simp_all add: is_inv_def)
  show "case r of Inr s' \<Rightarrow> is_inv s' | Inl f \<Rightarrow> is_bad f st s"
  proof (cases st)
    case (IsTurn ts)
    then obtain t r1 where t: "is_pc s = IsLoop t" "IocpCallback_eventLoop ac dec ts t (is_mEventArg s) (is_packets s) = Some r1"
      "r = res_bind r1 (\<lambda>(t', ia, p). Inr (s\<lparr> is_mEventArg := ia, is_packets := p,
                   is_pc := (case t' of None \<Rightarrow> IsTasks | Some t1 \<Rightarrow> IsLoop t1) \<rparr>))"
      using step by (auto simp: is_step_def split: is_pc.splits)
    have "is_ok (IsTurn ts)" using ok IsTurn by simp
    from eventLoop_keeps [OF dec io t(2) this] show ?thesis using t(1,3) inv IsTurn
      by (auto simp: is_inv_def is_bad_def split: sum.splits option.splits)
  next
    case IsMove
    then show ?thesis using step IocpServer_loop_keeps [OF dec inv, of ac r] by (auto simp: is_step_def)
  next
    case (IsWorker k initRet h)
    then show ?thesis using step on_iocp_keeps [OF dec inv, of "is_act s" ac "IoStage k initRet h" r]
      by (auto simp: is_step_def split: if_splits)
  next
    case IsAct
    then show ?thesis using step inv
      by (auto simp: is_step_def is_bad_def is_inv_def IocpServer_outputCompleted_def split: if_splits)
  next
    case (IsPost b)
    then show ?thesis using step inv ok by (auto simp: is_step_def is_inv_def split: if_splits)
  qed (use step inv in \<open>auto simp: is_step_def is_inv_def\<close>)
qed

lemma is_inv_start: "is_inv (IocpServer_start timeout)"
  by (simp add: is_inv_def IocpServer_start_def io_inv_start)

interpretation isd: driver "is_step ac dec" is_mEventArg "io_timed_step ac dec" "\<lambda>f. f = UseAfterFree"
  for ac :: accept_arg and dec :: "'d io_decoder"
proof
  fix s :: "'d iocp_server" and st r
  have on: "case r of
      Inr s' \<Rightarrow> is_mEventArg s' = ia \<or> (\<exists>u. io_timed_step ac dec u ia = Some (Inr (is_mEventArg s')))
    | Inl f \<Rightarrow> f = UseAfterFree \<or> (\<exists>u. io_timed_step ac dec u ia = Some (Inl f))"
    if "on_iocp s1 (io_step ac dec u ia) = Some r" for s1 :: "'d iocp_server" and u ia
  proof -
    from that obtain r1 where "io_timed_step ac dec (ia_now ia, ia_wsa ia, u) ia = Some r1"
      "r = res_bind r1 (\<lambda>ia. Inr (s1\<lparr> is_mEventArg := ia \<rparr>))" by (auto simp: on_iocp_def io_timed_now)
    then show ?thesis by (cases r1) auto
  qed
  have turn: "case r of
      Inr s' \<Rightarrow> is_mEventArg s' = is_mEventArg s \<or> (\<exists>u. io_timed_step ac dec u (is_mEventArg s) = Some (Inr (is_mEventArg s')))
    | Inl f \<Rightarrow> f = UseAfterFree \<or> (\<exists>u. io_timed_step ac dec u (is_mEventArg s) = Some (Inl f))"
    if "IocpCallback_eventLoop ac dec ts t (is_mEventArg s) p = Some r1"
      "r = res_bind r1 (\<lambda>(t', ia, p'). Inr (f t' ia p'))" "\<And>t' ia p'. is_mEventArg (f t' ia p') = ia" for ts t p r1 f
    using that(1) by (cases rule: eventLoop_cases) (use that(2,3) in auto)
  assume step: "is_step ac dec st s = Some r"
  show "case r of
      Inr s' \<Rightarrow> is_mEventArg s' = is_mEventArg s \<or> (\<exists>u. io_timed_step ac dec u (is_mEventArg s) = Some (Inr (is_mEventArg s')))
    | Inl f \<Rightarrow> f = UseAfterFree \<or> (\<exists>u. io_timed_step ac dec u (is_mEventArg s) = Some (Inl f))"
  proof (cases st)
    case (IsTurn ts)
    then obtain t r1 where "IocpCallback_eventLoop ac dec ts t (is_mEventArg s) (is_packets s) = Some r1"
      "r = res_bind r1 (\<lambda>(t', ia, p). Inr (s\<lparr> is_mEventArg := ia, is_packets := p,
                   is_pc := (case t' of None \<Rightarrow> IsTasks | Some t1 \<Rightarrow> IsLoop t1) \<rparr>))"
      using step by (auto simp: is_step_def split: is_pc.splits)
    then show ?thesis by (rule turn) simp
  qed (use step in \<open>auto simp: is_step_def IocpServer_loop_def Let_def IocpServer_outputCompleted_def dest!: on
        split: if_splits is_pc.splits list.splits option.splits\<close>)
qed

subsection \<open>SP_IocpLFServer\<close>

text \<open>
  As \<open>SP_LFServer\<close>, with \<open>eventLoop\<close> in place of \<open>event_base_loop\<close>. The thread that holds the mutex tests
  the flag and the queues or is inside a call of \<open>eventLoop\<close>.
\<close>

datatype il_leader = IlNone | IlLead | IlLoop turn

record 'd iocp_lf_server =
  il_mEventArg :: "'d iocp_arg"
  il_mIsShutdown :: bool
  il_mIsRunning :: bool
  il_leader :: il_leader
  il_idle :: nat
  il_waiting :: nat
  il_gone :: nat
  il_packets :: nat
  il_posting :: nat

definition IocpLFServer_run :: "nat \<Rightarrow> nat \<Rightarrow> 'd iocp_lf_server" where
  "IocpLFServer_run timeout maxThreads = \<lparr> il_mEventArg = IocpEventArg_new timeout, il_mIsShutdown = False, il_mIsRunning = True,
     il_leader = IlNone, il_idle = maxThreads, il_waiting = 0, il_gone = 0, il_packets = 0, il_posting = 0 \<rparr>"

definition IocpLFServer_lfHandler :: "'d iocp_lf_server \<Rightarrow> 'd iocp_lf_server" where
  "IocpLFServer_lfHandler l =
     (if il_mIsShutdown l then l\<lparr> il_idle := il_idle l - 1, il_gone := il_gone l + 1, il_mIsRunning := False \<rparr>
      else l\<lparr> il_idle := il_idle l - 1, il_waiting := il_waiting l + 1 \<rparr>)"

definition on_il :: "('d iocp_arg \<Rightarrow> 'd iocp_lf_server) \<Rightarrow> 'd iocp_arg res option \<Rightarrow> 'd iocp_lf_server res option" where
  "on_il f r = map_option (\<lambda>r. res_bind r (\<lambda>ia. Inr (f ia))) r"

definition IocpLFServer_handleOneEvent :: "accept_arg \<Rightarrow> 'd io_decoder \<Rightarrow> 'd iocp_lf_server \<Rightarrow> 'd iocp_lf_server res option" where
  "IocpLFServer_handleOneEvent ac dec l =
     (let ia = il_mEventArg l in
      if il_mIsShutdown l then Some (Inr (l\<lparr> il_leader := IlNone, il_idle := il_idle l + 1 \<rparr>))
      else if ea_mInputResultQueue (ia_ea ia) \<noteq> [] then
        on_il (\<lambda>ia'. l\<lparr> il_mEventArg := ia', il_leader := IlNone \<rparr>) (io_step ac dec IoTakeTask ia)
      else if ea_mOutputResultQueue (ia_ea ia) \<noteq> [] then
        on_il (\<lambda>ia'. l\<lparr> il_mEventArg := ia', il_leader := IlNone, il_idle := il_idle l + 1 \<rparr>) (io_step ac dec IoTakeCompleted ia)
      else Some (Inr (l\<lparr> il_leader := IlLoop TurnWait \<rparr>)))"

datatype 'd il_step =
    IlTest
  | IlLock
  | IlMove
  | IlTurn "'d turn_step"
  | IlWorker nat int "'d handler_result"
  | IlShutdown
  | IlPost bool

definition il_step :: "accept_arg \<Rightarrow> 'd io_decoder \<Rightarrow> 'd il_step \<Rightarrow> 'd iocp_lf_server \<Rightarrow> 'd iocp_lf_server res option" where
  "il_step ac dec step l =
     (let ia = il_mEventArg l in
      case step of
        IlTest \<Rightarrow> if 0 < il_idle l then Some (Inr (IocpLFServer_lfHandler l)) else None
      | IlLock \<Rightarrow>
          if 0 < il_waiting l \<and> il_leader l = IlNone
          then Some (Inr (l\<lparr> il_waiting := il_waiting l - 1, il_leader := IlLead \<rparr>)) else None
      | IlMove \<Rightarrow> if il_leader l = IlLead then IocpLFServer_handleOneEvent ac dec l else None
      | IlTurn ts \<Rightarrow>
          (case il_leader l of
             IlLoop t \<Rightarrow>
               map_option (\<lambda>r. res_bind r (\<lambda>(t', ia, p). Inr (l\<lparr> il_mEventArg := ia, il_packets := p,
                   il_leader := (case t' of None \<Rightarrow> IlLead | Some t1 \<Rightarrow> IlLoop t1) \<rparr>)))
                 (IocpCallback_eventLoop ac dec ts t ia (il_packets l))
           | _ \<Rightarrow> None)
      | IlWorker k initRet h \<Rightarrow>
          on_il (\<lambda>ia'. l\<lparr> il_mEventArg := ia',
              il_idle := (if length (ea_active (ia_ea ia')) < length (ea_active (ia_ea ia)) then il_idle l + 1 else il_idle l) \<rparr>)
            (io_step ac dec (IoStage k initRet h) ia)
      | IlShutdown \<Rightarrow> Some (Inr (l\<lparr> il_mIsShutdown := True, il_posting := il_posting l + 1 \<rparr>))
      | IlPost ok \<Rightarrow>
          if 0 < il_posting l
          then Some (Inr (l\<lparr> il_posting := il_posting l - 1, il_packets := (if ok then il_packets l + 1 else il_packets l) \<rparr>))
          else None)"

fun il_ok :: "'d il_step \<Rightarrow> bool" where
  "il_ok (IlTurn (TsEvent now ws st)) = io_added st"
| "il_ok (IlPost ok) = ok"
| "il_ok _ = True"

definition il_inv :: "'d iocp_lf_server \<Rightarrow> bool" where
  "il_inv l \<longleftrightarrow> io_inv (il_mEventArg l) \<and>
     (il_mIsShutdown l \<and> il_leader l = IlLoop TurnWait \<longrightarrow> 0 < il_packets l \<or> 0 < il_posting l)"

definition il_bad :: "fault \<Rightarrow> 'd il_step \<Rightarrow> 'd iocp_lf_server \<Rightarrow> bool" where
  "il_bad f step l \<longleftrightarrow>
     f = AssertFail \<and> (\<exists>now ws st. step = IlTurn (TsEvent now ws st) \<and> io_accepts st) \<and> table_full (ia_ea (il_mEventArg l))"

lemma on_il_keeps:
  assumes dec: "decoder_ok dec" and inv: "io_inv (il_mEventArg l)" and step: "on_il f (io_step ac dec st (il_mEventArg l)) = Some r"
    and st: "\<not> io_accepts st" and f: "\<And>ia. io_inv ia \<Longrightarrow> il_inv (f ia)"
  shows "\<exists>l'. r = Inr l' \<and> il_inv l'"
proof -
  from step obtain r1 where r1: "io_step ac dec st (il_mEventArg l) = Some r1" "r = res_bind r1 (\<lambda>ia. Inr (f ia))"
    by (auto simp: on_il_def)
  from io_step_keeps [OF dec inv r1(1) st] obtain ia' where "r1 = Inr ia'" "io_inv ia'" by blast
  then show ?thesis using r1(2) f by simp
qed

lemma handleOneEvent_keeps:
  assumes dec: "decoder_ok dec" and inv: "il_inv l" and step: "IocpLFServer_handleOneEvent ac dec l = Some r"
  shows "\<exists>l'. r = Inr l' \<and> il_inv l'"
proof -
  have io: "io_inv (il_mEventArg l)" using inv by (simp add: il_inv_def)
  show ?thesis
  proof (cases "il_mIsShutdown l \<or> ea_mInputResultQueue (ia_ea (il_mEventArg l)) = [] \<and> ea_mOutputResultQueue (ia_ea (il_mEventArg l)) = []")
    case True
    then show ?thesis using step inv by (auto simp: IocpLFServer_handleOneEvent_def Let_def il_inv_def split: if_splits)
  next
    case False
    show ?thesis
    proof (cases "ea_mInputResultQueue (ia_ea (il_mEventArg l)) \<noteq> []")
      case True
      then have "on_il (\<lambda>ia'. l\<lparr> il_mEventArg := ia', il_leader := IlNone \<rparr>) (io_step ac dec IoTakeTask (il_mEventArg l)) = Some r"
        using step False by (simp add: IocpLFServer_handleOneEvent_def Let_def)
      then show ?thesis by (rule on_il_keeps [OF dec io]) (simp_all add: il_inv_def)
    next
      case out: False
      then have "on_il (\<lambda>ia'. l\<lparr> il_mEventArg := ia', il_leader := IlNone, il_idle := il_idle l + 1 \<rparr>)
          (io_step ac dec IoTakeCompleted (il_mEventArg l)) = Some r"
        using step False by (simp add: IocpLFServer_handleOneEvent_def Let_def)
      then show ?thesis by (rule on_il_keeps [OF dec io]) (simp_all add: il_inv_def)
    qed
  qed
qed

interpretation ils: stepper "il_step ac dec" "\<lambda>st. decoder_ok dec \<and> il_ok st" il_inv il_bad
  for ac :: accept_arg and dec :: "'d io_decoder"
proof
  fix l :: "'d iocp_lf_server" and st r
  assume inv: "il_inv l" and ok: "decoder_ok dec \<and> il_ok st" and step: "il_step ac dec st l = Some r"
  have dec: "decoder_ok dec" and io: "io_inv (il_mEventArg l)" using ok inv by (simp_all add: il_inv_def)
  show "case r of Inr l' \<Rightarrow> il_inv l' | Inl f \<Rightarrow> il_bad f st l"
  proof (cases st)
    case (IlTurn ts)
    then obtain t r1 where t: "il_leader l = IlLoop t" "IocpCallback_eventLoop ac dec ts t (il_mEventArg l) (il_packets l) = Some r1"
      "r = res_bind r1 (\<lambda>(t', ia, p). Inr (l\<lparr> il_mEventArg := ia, il_packets := p,
                   il_leader := (case t' of None \<Rightarrow> IlLead | Some t1 \<Rightarrow> IlLoop t1) \<rparr>))"
      using step by (auto simp: il_step_def Let_def split: il_leader.splits)
    have "is_ok (IsTurn ts)" using ok IlTurn by (cases ts) simp_all
    from eventLoop_keeps [OF dec io t(2) this] show ?thesis using t(1,3) inv IlTurn
      by (auto simp: il_inv_def il_bad_def split: sum.splits option.splits)
  next
    case IlMove
    then show ?thesis using step handleOneEvent_keeps [OF dec inv, of ac r] by (auto simp: il_step_def split: if_splits)
  next
    case (IlWorker k initRet h)
    then have "on_il (\<lambda>ia'. l\<lparr> il_mEventArg := ia', il_idle := (if length (ea_active (ia_ea ia')) < length (ea_active (ia_ea (il_mEventArg l)))
          then il_idle l + 1 else il_idle l) \<rparr>) (io_step ac dec (IoStage k initRet h) (il_mEventArg l)) = Some r"
      using step by (simp add: il_step_def Let_def)
    then have "\<exists>l'. r = Inr l' \<and> il_inv l'"
      by (rule on_il_keeps [OF dec io]) (use inv in \<open>simp_all add: il_inv_def\<close>)
    then show ?thesis by auto
  next
    case (IlPost b)
    then show ?thesis using step inv ok by (auto simp: il_step_def Let_def il_inv_def split: if_splits)
  qed (use step inv in \<open>auto simp: il_step_def Let_def IocpLFServer_lfHandler_def il_inv_def split: if_splits\<close>)
qed

lemma il_inv_start: "il_inv (IocpLFServer_run timeout n)"
  by (simp add: il_inv_def IocpLFServer_run_def io_inv_start)

interpretation ild: driver "il_step ac dec" il_mEventArg "io_timed_step ac dec" "\<lambda>f. False"
  for ac :: accept_arg and dec :: "'d io_decoder"
proof
  fix l :: "'d iocp_lf_server" and st and r :: "'d iocp_lf_server res"
  let ?goal = "case r of
      Inr l' \<Rightarrow> il_mEventArg l' = il_mEventArg l \<or> (\<exists>u. io_timed_step ac dec u (il_mEventArg l) = Some (Inr (il_mEventArg l')))
    | Inl f \<Rightarrow> False \<or> (\<exists>u. io_timed_step ac dec u (il_mEventArg l) = Some (Inl f))"
  have on: ?goal if o: "on_il f (io_step ac dec u (il_mEventArg l)) = Some r" and f: "\<And>ia. il_mEventArg (f ia) = ia" for f u
  proof -
    from o obtain r1 where "io_timed_step ac dec (ia_now (il_mEventArg l), ia_wsa (il_mEventArg l), u) (il_mEventArg l) = Some r1"
      "r = res_bind r1 (\<lambda>ia. Inr (f ia))" by (auto simp: on_il_def io_timed_now)
    then show ?thesis using f by (cases r1) auto
  qed
  assume step: "il_step ac dec st l = Some r"
  show ?goal
  proof (cases st)
    case (IlTurn ts)
    then obtain t r1 where t: "IocpCallback_eventLoop ac dec ts t (il_mEventArg l) (il_packets l) = Some r1"
      "r = res_bind r1 (\<lambda>(t', ia, p). Inr (l\<lparr> il_mEventArg := ia, il_packets := p,
                   il_leader := (case t' of None \<Rightarrow> IlLead | Some t1 \<Rightarrow> IlLoop t1) \<rparr>))"
      using step by (auto simp: il_step_def Let_def split: il_leader.splits)
    from t(1) show ?thesis by (cases rule: eventLoop_cases) (use t(2) in auto)
  next
    case IlMove
    let ?on = "\<lambda>f u. on_il f (io_step ac dec u (il_mEventArg l)) = Some r"
    consider l' where "r = Inr l'" "il_mEventArg l' = il_mEventArg l"
      | "?on (\<lambda>ia'. l\<lparr> il_mEventArg := ia', il_leader := IlNone \<rparr>) IoTakeTask"
      | "?on (\<lambda>ia'. l\<lparr> il_mEventArg := ia', il_leader := IlNone, il_idle := il_idle l + 1 \<rparr>) IoTakeCompleted"
      using step IlMove by (auto simp: il_step_def IocpLFServer_handleOneEvent_def Let_def split: if_splits)
    then show ?thesis
    proof cases
      case 2
      then show ?thesis by (rule on) simp
    next
      case 3
      then show ?thesis by (rule on) simp
    qed simp
  next
    case (IlWorker k initRet h)
    then have "on_il (\<lambda>ia'. l\<lparr> il_mEventArg := ia', il_idle := (if length (ea_active (ia_ea ia')) < length (ea_active (ia_ea (il_mEventArg l)))
          then il_idle l + 1 else il_idle l) \<rparr>) (io_step ac dec (IoStage k initRet h) (il_mEventArg l)) = Some r"
      using step by (simp add: il_step_def Let_def)
    then show ?thesis by (rule on) simp
  qed (use step in \<open>auto simp: il_step_def Let_def IocpLFServer_lfHandler_def split: if_splits\<close>)
qed

subsection \<open>Properties\<close>

text \<open>
  C11: The threads of SP_IocpServer do to the shared state what some run of io_step does, so all that
  holds of those runs holds of the server, when decoders answer eOK or eMoreData and accepted sockets
  can be tied to the port. It fails in two places only: the assertion of onAccept while the table is
  full, and a completion by the handler that start has deleted. As long as posts succeed, a shutdown
  wakes the loop: a loop thread that waits after the flag is set has a packet coming.
\<close>

theorem IocpServer_refines:
  assumes "decoder_ok dec" "list_all is_ok steps"
  shows "case run_steps (is_step ac dec) steps (IocpServer_start timeout) of
     Inr s \<Rightarrow> (\<exists>us. io_run ac dec us (IocpEventArg_new timeout) = Inr (is_mEventArg s)) \<and>
       (is_mIsShutdown s \<and> is_pc s = IsLoop TurnWait \<longrightarrow> 0 < is_packets s + is_posting s)
   | Inl f \<Rightarrow> faulted (is_step ac dec) is_bad f steps (IocpServer_start timeout)"
proof -
  have start: "is_mEventArg (IocpServer_start timeout) = IocpEventArg_new timeout" by (simp add: IocpServer_start_def)
  have "list_all (\<lambda>st. decoder_ok dec \<and> is_ok st) steps" using assms by (auto simp: list_all_iff)
  from isv.run_inv [OF is_inv_start this, of ac timeout] isd.run_driven [of ac dec "IocpServer_start timeout" steps]
  show ?thesis by (auto simp: start io_run_steps is_inv_def split: sum.splits)
qed

text \<open>A shutdown while the loop waits for a packet: one is coming, and the loop takes it and ends.\<close>

lemma IocpServer_refines_witness:
  "\<exists>s. run_steps (is_step small_server io_byte_decoder) [IsMove, IsShutdown, IsPost True] (IocpServer_start 0) = Inr s \<and>
     is_mIsShutdown s \<and> is_pc s = IsLoop TurnWait \<and> is_posting s = 0 \<and> 0 < is_packets s \<and>
     (\<exists>us. io_run small_server io_byte_decoder us (IocpEventArg_new 0) = Inr (is_mEventArg s))"
proof -
  let ?steps = "[IsMove, IsShutdown, IsPost True]"
  obtain s where s: "run_steps (is_step small_server io_byte_decoder) ?steps (IocpServer_start 0) = Inr s"
      "is_mIsShutdown s" "is_pc s = IsLoop TurnWait" "is_posting s = 0"
    by (auto simp: is_step_def IocpServer_loop_def IocpServer_start_def)
  have "list_all is_ok ?steps" by simp
  from IocpServer_refines [OF io_byte_decoder_ok this, of small_server 0] s show ?thesis by auto
qed

text \<open>
  C10: The same for SP_IocpLFServer, whose threads take turns at the loop: what they do to the shared state
  is what some run of io_step does, when decoders answer eOK or eMoreData and accepted sockets can be tied
  to the port, and only the assertion of onAccept can fail. As long as posts succeed, a leader that
  waits after the flag is set has a packet coming, so unlike SP_LFServer this server can be shut down
  while it is quiet.
\<close>

theorem IocpLFServer_refines:
  assumes "decoder_ok dec" "list_all il_ok steps"
  shows "case run_steps (il_step ac dec) steps (IocpLFServer_run timeout n) of
     Inr l \<Rightarrow> (\<exists>us. io_run ac dec us (IocpEventArg_new timeout) = Inr (il_mEventArg l)) \<and>
       (il_mIsShutdown l \<and> il_leader l = IlLoop TurnWait \<longrightarrow> 0 < il_packets l + il_posting l)
   | Inl f \<Rightarrow> f = AssertFail \<and> (\<exists>us. io_run ac dec us (IocpEventArg_new timeout) = Inl f)"
proof -
  have start: "il_mEventArg (IocpLFServer_run timeout n) = IocpEventArg_new timeout" by (simp add: IocpLFServer_run_def)
  have "list_all (\<lambda>st. decoder_ok dec \<and> il_ok st) steps" using assms by (auto simp: list_all_iff)
  from ils.run_inv [OF il_inv_start this, of ac timeout n] ild.run_driven [of ac dec "IocpLFServer_run timeout n" steps]
  show ?thesis by (auto simp: start io_run_steps il_inv_def il_bad_def faulted_def split: sum.splits)
qed

lemma IocpLFServer_refines_witness:
  "\<exists>l. run_steps (il_step small_server io_byte_decoder) [IlTest, IlLock, IlMove, IlShutdown, IlPost True] (IocpLFServer_run 0 4) = Inr l \<and>
     il_mIsShutdown l \<and> il_leader l = IlLoop TurnWait \<and> il_posting l = 0 \<and> 0 < il_packets l \<and>
     (\<exists>us. io_run small_server io_byte_decoder us (IocpEventArg_new 0) = Inr (il_mEventArg l))"
proof -
  let ?steps = "[IlTest, IlLock, IlMove, IlShutdown, IlPost True]"
  obtain l where l: "run_steps (il_step small_server io_byte_decoder) ?steps (IocpLFServer_run 0 4) = Inr l"
      "il_mIsShutdown l" "il_leader l = IlLoop TurnWait" "il_posting l = 0"
    by (auto simp: il_step_def IocpLFServer_handleOneEvent_def IocpLFServer_lfHandler_def IocpLFServer_run_def
        IocpEventArg_new_def EventArg_new_def)
  have "list_all il_ok ?steps" by simp
  from IocpLFServer_refines [OF io_byte_decoder_ok this, of small_server 0 4] l show ?thesis by auto
qed

end
