(* ===== verification/SP_IocpDispatcher.thy ===== *)
theory SP_IocpDispatcher
  imports SP_Dispatcher SP_IocpRun
begin

text \<open>
  \<open>SP_IocpDispatcher\<close> (spiocpdispatcher.cpp): \<open>SP_Dispatcher\<close> on the completion port. Pushed items come
  through an \<open>SP_IocpMsgQueue\<close>, timers lie in the heap of \<open>SP_EventHeap\<close>, and an opened session only
  posts a receive. What happens to a timer is as in \<open>SP_Dispatcher\<close>, whose state it shares.
\<close>

type_synonym 'd iocp_dispatcher = "('d, 'd iocp_arg) dispatcher_of"

definition IocpDispatcher_new :: "nat \<Rightarrow> 'd iocp_dispatcher" where
  "IocpDispatcher_new timeout = \<lparr> dp_mEventArg = IocpEventArg_new timeout, dp_mPushQueue = [], dp_timers = Map.empty,
     dp_armed = [], dp_timerTasks = [], dp_running = [], dp_nextTimer = 0, dp_now = 0 \<rparr>"

text \<open>
  \<open>onPush\<close> for a socket. When the socket cannot be tied to the port, the session is deleted and its key
  stays taken; the answer of \<open>addRecv\<close> is not looked at.
\<close>

definition IocpDispatcher_open :: "bool \<Rightarrow> 'd \<Rightarrow> bool \<Rightarrow> bytes \<Rightarrow> int \<Rightarrow> 'd iocp_arg \<Rightarrow> 'd iocp_arg res" where
  "IocpDispatcher_open added d needStart ip port ia =
     res_bind (SessionManager_allocKey (ea_mSessionManager (ia_ea ia))) (\<lambda>(key, seq, mgr).
       if key = 0 then Inl AssertFail
       else
         let sid = \<lparr> sid_mKey = key, sid_mSeq = the seq \<rparr>;
             o1 = ea_nextObj (ia_ea ia);
             s0 = Session_new d sid;
             s = s0\<lparr> ss_mRequest := Request_setClientIP ip (Request_setClientPort port (ss_mRequest s0)) \<rparr>
         in if added then
              res_bind (SessionManager_put key (the seq) o1 mgr) (\<lambda>mgr'.
                let ia1 = io_ea (\<lambda>ea. (set_session o1 s ea)\<lparr> ea_mSessionManager := mgr', ea_nextObj := o1 + 1 \<rparr>) ia
                in if needStart then IocpHelper_doStart o1 ia1
                   else res_bind (IocpCallback_addRecv o1 ia1) (\<lambda>(ok, ia2). Inr ia2))
            else Inr (io_ea (\<lambda>ea. ea\<lparr> ea_mSessionManager := mgr \<rparr>) ia))"

definition IocpDispatcher_onPush :: "bool \<Rightarrow> bytes \<Rightarrow> int \<Rightarrow> 'd push_arg \<Rightarrow> 'd iocp_dispatcher \<Rightarrow> 'd iocp_dispatcher res" where
  "IocpDispatcher_onPush added ip port arg dp =
     (case arg of
        PushFd d needStart \<Rightarrow>
          res_bind (IocpDispatcher_open added d needStart ip port (dp_mEventArg dp)) (\<lambda>ia. Inr (dp\<lparr> dp_mEventArg := ia \<rparr>))
      | PushTimer t \<Rightarrow> res_bind (get_timer t dp) (\<lambda>timeout. Inr (Dispatcher_arm t timeout dp)))"

definition io_push_response :: "sp_response \<Rightarrow> 'd iocp_arg \<Rightarrow> 'd iocp_arg" where
  "io_push_response r = io_ea (push_response r)"

definition IocpDispatcher_timer ::
    "nat \<Rightarrow> unit handler_result \<Rightarrow> timer_stage \<Rightarrow> 'd iocp_dispatcher \<Rightarrow> (timer_stage option \<times> 'd iocp_dispatcher) res" where
  "IocpDispatcher_timer = timer_run io_push_response"

text \<open>
  The clock of the timers is the time of day that \<open>io_step\<close> sees. \<open>wsa\<close> lists are the answers of the
  calls of \<open>WSARecv\<close> and \<open>WSASend\<close>.
\<close>

datatype 'd id_step =
    IdLoop "wsa list" "'d io_step"
  | IdPushFd 'd bool
  | IdPushTimer nat
  | IdPushResponse sp_response
  | IdOnPush "wsa list" bool bytes int
  | IdElapse nat
  | IdOnTimer timer
  | IdTakeTimer
  | IdTimer nat nat "unit handler_result"

definition id_step :: "'d io_decoder \<Rightarrow> 'd id_step \<Rightarrow> 'd iocp_dispatcher \<Rightarrow> 'd iocp_dispatcher res option" where
  "id_step dec step dp =
     (case step of
        IdLoop ws st \<Rightarrow>
          if io_accepts st then None
          else map_option (\<lambda>r. res_bind r (\<lambda>ia. Inr (dp\<lparr> dp_mEventArg := ia \<rparr>)))
                 (io_timed_step no_acceptor dec (dp_now dp, ws, st) (dp_mEventArg dp))
      | IdPushFd d needStart \<Rightarrow> Some (Inr (Dispatcher_push_fd d needStart dp))
      | IdPushTimer timeout \<Rightarrow> Some (Inr (Dispatcher_push_timer timeout dp))
      | IdPushResponse r \<Rightarrow>
          if list_all msg_ok (rs_mList r)
          then Some (Inr (dp\<lparr> dp_mEventArg := io_push_response r (dp_mEventArg dp) \<rparr>)) else None
      | IdOnPush ws added ip port \<Rightarrow>
          (case dp_mPushQueue dp of
             [] \<Rightarrow> None
           | a # as \<Rightarrow> Some (IocpDispatcher_onPush added ip port a
               (dp\<lparr> dp_mPushQueue := as, dp_mEventArg := io_at (dp_now dp) ws (dp_mEventArg dp) \<rparr>)))
      | IdElapse n \<Rightarrow> Some (Inr (dp\<lparr> dp_now := dp_now dp + n \<rparr>))
      | IdOnTimer t \<Rightarrow>
          (case map_of (dp_armed dp) t of
             None \<Rightarrow> None
           | Some due \<Rightarrow>
               if due \<le> dp_now dp
               then Some (Dispatcher_onTimer t (dp\<lparr> dp_armed := filter (\<lambda>(t2, _). t2 \<noteq> t) (dp_armed dp) \<rparr>))
               else None)
      | IdTakeTimer \<Rightarrow>
          (case dp_timerTasks dp of
             [] \<Rightarrow> None
           | t # ts \<Rightarrow> Some (Inr (dp\<lparr> dp_timerTasks := ts, dp_running := dp_running dp @ [TimerTask t] \<rparr>)))
      | IdTimer k timeout h \<Rightarrow>
          if k < length (dp_running dp) \<and> handler_ok h
          then Some (res_bind (IocpDispatcher_timer timeout h (dp_running dp ! k) dp) (\<lambda>p. Inr (running_result k p)))
          else None)"

fun id_added :: "'d id_step \<Rightarrow> bool" where
  "id_added (IdOnPush ws added ip port) = added"
| "id_added _ = True"

fun id_opens :: "'d id_step \<Rightarrow> bool" where
  "id_opens (IdOnPush ws added ip port) = True"
| "id_opens _ = False"

definition id_inv :: "'d iocp_dispatcher \<Rightarrow> bool" where
  "id_inv dp \<longleftrightarrow> io_inv (dp_mEventArg dp) \<and> timers_inv dp"

lemma IocpDispatcher_open_inv:
  assumes inv: "io_inv ia"
  shows "if table_full (ia_ea ia) then IocpDispatcher_open True d needStart ip port ia = Inl AssertFail
    else yields io_inv (IocpDispatcher_open True d needStart ip port ia)"
proof -
  let ?ea = "ia_ea ia" let ?o1 = "ea_nextObj ?ea"
  have tab: "table_inv (ea_mSessionManager ?ea)" and sinv: "server_inv False ?ea" "heap_ok (ia_mEventHeap ia) ?ea"
    using inv by (simp_all add: io_inv_def server_inv_def sess_inv_def)
  show ?thesis
  proof (rule onAccept_table [OF tab, of _ ?o1], goal_cases)
    case (1 sq n)
    then show ?case by (simp add: IocpDispatcher_open_def table_full_def)
  next
    case (2 key sq n n')
    define sid where "sid = \<lparr> sid_mKey = key, sid_mSeq = the sq \<rparr>"
    define s where "s = (Session_new d sid)\<lparr> ss_mRequest := Request_setClientIP ip
      (Request_setClientPort port (ss_mRequest (Session_new d sid))) \<rparr>"
    have s: "ss_mSid s = sid" "\<not> ss_mRunning s" "ss_mOutList s = []" by (simp_all add: s_def Session_new_def)
    define ea1 where "ea1 = (set_session ?o1 s ?ea)\<lparr> ea_mSessionManager := n', ea_nextObj := ?o1 + 1 \<rparr>"
    have ea1: "server_inv False ea1" "live_obj ea1 ?o1" "ea_sessions ea1 ?o1 = Some s"
      using server_inv_new [OF sinv(1) refl, of s n'] s 2 by (simp_all add: ea1_def sid_def find_session_def)
    have gone: "ea_sessions ?ea ?o1 = None" using sinv(1) by (simp add: server_inv_def sess_inv_def)
    have "find_session x ea1 = find_session x ?ea" if "find_session x ?ea \<noteq> None" for x
      using that 2 by (auto simp: ea1_def find_session_def)
    then have heap: "heap_ok (ia_mEventHeap ia) ea1"
      by (intro heap_ok_new [OF sinv(2) gone, where s = s]) (simp_all add: ea1_def)
    define ia1 where "ia1 = ia\<lparr> ia_ea := ea1 \<rparr>"
    have ia1: "io_live ?o1 ia1" using ea1 heap by (simp add: ia1_def io_live_def io_inv_def)
    have "IocpDispatcher_open True d needStart ip port ia =
      (if needStart then IocpHelper_doStart ?o1 ia1 else res_bind (IocpCallback_addRecv ?o1 ia1) (\<lambda>(ok, ia2). Inr ia2))"
      using 2 unfolding IocpDispatcher_open_def Let_def ia1_def ea1_def s_def sid_def by (simp add: io_ea_def)
    moreover have "yields io_inv (IocpHelper_doStart ?o1 ia1)"
      by (rule io_doStart_inv [OF ia1 _ s(2)]) (use ea1(3) in \<open>simp add: ia1_def\<close>)
    moreover have "yields io_inv (res_bind (IocpCallback_addRecv ?o1 ia1) (\<lambda>(ok, ia2). Inr ia2))"
      by (rule yields_bind [OF addRecv_live [OF ia1]]) (auto simp: io_live_def)
    moreover have "\<not> table_full ?ea" using 2 by (simp add: table_full_def)
    ultimately show ?case by simp
  qed
qed

lemma io_push_response_inv: "io_inv ia \<Longrightarrow> response_ok r \<Longrightarrow> io_inv (io_push_response r ia)"
  using push_response_inv [of False "ia_ea ia" r]
  by (simp add: io_push_response_def io_inv_def io_ea_def push_response_def)

lemma timers_at [simp]: "timers_inv (dp\<lparr> dp_mPushQueue := as, dp_mEventArg := x \<rparr>) = timers_inv (dp\<lparr> dp_mPushQueue := as \<rparr>)"
  using timers_inv_ea [of x "dp\<lparr> dp_mPushQueue := as \<rparr>"] by simp

lemma id_onPush_keeps:
  assumes inv: "id_inv dp" and q: "dp_mPushQueue dp = a # as"
    and r: "r = IocpDispatcher_onPush True ip port a (dp\<lparr> dp_mPushQueue := as, dp_mEventArg := io_at now ws (dp_mEventArg dp) \<rparr>)"
  shows "r = Inl AssertFail \<and> table_full (ia_ea (dp_mEventArg dp)) \<or> (\<exists>dp'. r = Inr dp' \<and> id_inv dp')"
proof (cases a)
  case (PushFd d needStart)
  let ?ia = "io_at now ws (dp_mEventArg dp)"
  have "io_inv ?ia" "timers_inv (dp\<lparr> dp_mPushQueue := as \<rparr>)"
    using inv pop_fd_timers [of dp d needStart as] q PushFd by (simp_all add: id_inv_def)
  then show ?thesis using IocpDispatcher_open_inv [of ?ia d needStart ip port] r PushFd
    by (auto simp: IocpDispatcher_onPush_def id_inv_def yields_def split: if_splits sum.splits)
next
  case (PushTimer t)
  let ?dp = "dp\<lparr> dp_mPushQueue := as, dp_mEventArg := io_at now ws (dp_mEventArg dp) \<rparr>"
  have "timers_inv dp" using inv by (simp add: id_inv_def)
  from arm_timers [OF this, of t as] q PushTimer obtain timeout where
    t: "get_timer t (dp\<lparr> dp_mPushQueue := as \<rparr>) = Inr timeout" "timers_inv (Dispatcher_arm t timeout (dp\<lparr> dp_mPushQueue := as \<rparr>))"
    by auto
  have "Dispatcher_arm t timeout ?dp = (Dispatcher_arm t timeout (dp\<lparr> dp_mPushQueue := as \<rparr>))\<lparr> dp_mEventArg := io_at now ws (dp_mEventArg dp) \<rparr>"
    by (simp add: Dispatcher_arm_def)
  then have "id_inv (Dispatcher_arm t timeout ?dp)" using inv t(2) by (simp add: id_inv_def)
  moreover have "get_timer t ?dp = Inr timeout" using t(1) by (simp add: get_timer_def)
  ultimately show ?thesis using r PushTimer by (simp add: IocpDispatcher_onPush_def)
qed

interpretation idp: stepper "id_step dec" "\<lambda>st. decoder_ok dec \<and> id_added st" id_inv
    "\<lambda>f st dp. f = AssertFail \<and> id_opens st \<and> table_full (ia_ea (dp_mEventArg dp))" for dec :: "'d io_decoder"
proof
  fix dp :: "'d iocp_dispatcher" and st r
  assume inv: "id_inv dp" and ok: "decoder_ok dec \<and> id_added st" and step: "id_step dec st dp = Some r"
  have io: "io_inv (dp_mEventArg dp)" and tinv: "timers_inv dp" using inv by (simp_all add: id_inv_def)
  show "case r of Inr dp' \<Rightarrow> id_inv dp'
    | Inl f \<Rightarrow> f = AssertFail \<and> id_opens st \<and> table_full (ia_ea (dp_mEventArg dp))"
  proof (cases st)
    case (IdLoop ws st1)
    then obtain r1 where r1: "io_step no_acceptor dec st1 (io_at (dp_now dp) ws (dp_mEventArg dp)) = Some r1"
      "r = res_bind r1 (\<lambda>ia. Inr (dp\<lparr> dp_mEventArg := ia \<rparr>))" "\<not> io_accepts st1"
      using step by (auto simp: id_step_def io_timed_step_def split: if_splits)
    have "io_added st1" using r1(3) by (cases st1) auto
    then have "yields io_inv r1" using io_step_inv [OF _ _ r1(1)] ok io r1(3) by simp
    then show ?thesis using r1(2) tinv by (auto simp: yields_def id_inv_def split: sum.splits)
  next
    case (IdPushFd d needStart)
    then show ?thesis using step io push_fd_timers [OF tinv, of d needStart]
      by (auto simp: id_step_def id_inv_def Dispatcher_push_fd_def)
  next
    case (IdPushTimer timeout)
    then show ?thesis using step io push_timer_timers [OF tinv, of timeout]
      by (auto simp: id_step_def id_inv_def Dispatcher_push_timer_def Let_def)
  next
    case (IdPushResponse r1)
    then show ?thesis using step tinv io_push_response_inv [OF io, of r1]
      by (auto simp: id_step_def id_inv_def response_ok_def split: if_splits)
  next
    case (IdOnPush ws added ip port)
    then obtain a as where q: "dp_mPushQueue dp = a # as"
      "r = IocpDispatcher_onPush True ip port a (dp\<lparr> dp_mPushQueue := as, dp_mEventArg := io_at (dp_now dp) ws (dp_mEventArg dp) \<rparr>)"
      using step ok by (auto simp: id_step_def split: list.splits)
    from id_onPush_keeps [OF inv q] show ?thesis using IdOnPush by (auto split: sum.splits)
  next
    case (IdOnTimer t)
    then obtain due where a: "map_of (dp_armed dp) t = Some due"
      "r = Dispatcher_onTimer t (dp\<lparr> dp_armed := filter (\<lambda>(t2, _). t2 \<noteq> t) (dp_armed dp) \<rparr>)"
      using step by (auto simp: id_step_def split: option.splits if_splits)
    from onTimer_timers [OF tinv a(1)] a(2) io show ?thesis by (auto simp: id_inv_def)
  next
    case IdTakeTimer
    then obtain t ts where q: "dp_timerTasks dp = t # ts"
      "r = Inr (dp\<lparr> dp_timerTasks := ts, dp_running := dp_running dp @ [TimerTask t] \<rparr>)"
      using step by (auto simp: id_step_def split: list.splits)
    from take_timer_timers [OF tinv q(1)] q(2) io show ?thesis by (simp add: id_inv_def)
  next
    case (IdTimer k timeout h)
    then have k: "k < length (dp_running dp)" "handler_ok h"
      "r = res_bind (timer_run io_push_response timeout h (dp_running dp ! k) dp) (\<lambda>p. Inr (running_result k p))"
      using step by (simp_all add: id_step_def IocpDispatcher_timer_def split: if_splits)
    from timer_run_timers [OF tinv k(1,2), of io_push_response timeout] k(3) obtain dp' where
      "r = Inr dp'" "timers_inv dp'" "dp_mEventArg dp' = dp_mEventArg dp \<or>
        (\<exists>r. response_ok r \<and> dp_mEventArg dp' = io_push_response r (dp_mEventArg dp))" by auto
    then show ?thesis using io io_push_response_inv [OF io] by (auto simp: id_inv_def)
  qed (use step io tinv in \<open>auto simp: id_step_def id_inv_def\<close>)
qed

lemma id_inv_start: "id_inv (IocpDispatcher_new timeout)"
  by (simp add: id_inv_def IocpDispatcher_new_def io_inv_start timers_inv_def timer_refs_def)

section \<open>Properties\<close>

text \<open>
  C7: Whatever is pushed, whatever the handlers of sessions and timers answer and however completions,
  timeouts and threads interleave, the dispatcher on the completion port runs without a fault, as
  long as decoders answer eOK or eMoreData and every socket can be tied to the port: the only
  assertion that can fail is the one of onPush, for a socket while the table of sessions is full. Otherwise the invariant of the loop
  holds, and a timer that is not freed is in exactly one place: the push queue, the heap of events,
  the tasks, or a worker.
\<close>

theorem iocp_dispatcher_run_safe:
  assumes "decoder_ok dec" "list_all id_added steps"
  shows "case run_steps (id_step dec) steps (IocpDispatcher_new timeout) of
     Inr dp \<Rightarrow> io_inv (dp_mEventArg dp) \<and>
       (\<forall>t. count (timer_refs dp) t = (if dp_timers dp t = None then 0 else 1))
   | Inl f \<Rightarrow> f = AssertFail \<and> (\<exists>before st after dp. steps = before @ st # after \<and>
       run_steps (id_step dec) before (IocpDispatcher_new timeout) = Inr dp \<and> id_opens st \<and>
       table_full (ia_ea (dp_mEventArg dp)))"
proof -
  have "list_all (\<lambda>st. decoder_ok dec \<and> id_added st) steps" using assms by (simp add: list_all_iff)
  from idp.run_inv [OF id_inv_start this, of timeout] show ?thesis
    by (auto simp: id_inv_def timers_inv_def faulted_def split: sum.splits)
qed

definition id_demo :: "unit id_step list" where
  "id_demo = [IdPushTimer 5, IdOnPush [] True [] 0, IdElapse 7, IdOnTimer 0, IdTakeTimer,
     IdTimer 0 3 silent_result, IdTimer 0 3 silent_result, IdTimer 0 3 silent_result,
     IdOnPush [] True [] 0, IdPushFd () True, IdOnPush [] True ''10.0.0.1'' 80]"

lemma id_demo_runs:
  "\<exists>dp. run_steps (id_step io_byte_decoder) id_demo (IocpDispatcher_new 0) = Inr dp \<and>
     dp_armed dp = [(0, 10)] \<and> ea_mInputResultQueue (ia_ea (dp_mEventArg dp)) = [Start 0] \<and> dp_timers dp 0 = Some 3"
proof (rule first_session)
  fix key sq n mgr mgr'
  assume k: "SessionManager_allocKey (SessionManager_new :: obj session_manager) = Inr (key, sq, n)"
    "key \<noteq> 0" "SessionManager_put key (the sq) 0 n = Inr mgr"
  show ?thesis
    using k(2)
    by (simp add: id_demo_def id_step_def Dispatcher_push_timer_def Dispatcher_push_fd_def IocpDispatcher_new_def
        IocpDispatcher_onPush_def get_timer_def Dispatcher_arm_def Dispatcher_onTimer_def IocpDispatcher_timer_def
        timer_handle_def running_result_def handler_ok_def silent_result_def Let_def del_at_def
        io_push_response_def push_response_def io_ea_def io_at_def IocpEventArg_new_def EventArg_new_def
        IocpDispatcher_open_def k(1,3) IocpHelper_doStart_def io_get_def io_set_def get_session_def set_session_def
        push_task_def Session_new_def Request_new_def)
qed

lemma iocp_dispatcher_run_safe_witness:
  "\<exists>dp. run_steps (id_step io_byte_decoder) id_demo (IocpDispatcher_new 0) = Inr dp \<and> io_inv (dp_mEventArg dp) \<and>
     dp_timers dp 0 = Some 3 \<and> count (timer_refs dp) 0 = 1 \<and> ea_mInputResultQueue (ia_ea (dp_mEventArg dp)) = [Start 0]"
proof -
  obtain dp where dp: "run_steps (id_step io_byte_decoder) id_demo (IocpDispatcher_new 0) = Inr dp"
    "ea_mInputResultQueue (ia_ea (dp_mEventArg dp)) = [Start 0]" "dp_timers dp 0 = Some 3"
    using id_demo_runs by blast
  have "list_all id_added id_demo" by (simp add: id_demo_def)
  from iocp_dispatcher_run_safe [OF io_byte_decoder_ok this, of 0] dp show ?thesis by simp
qed

end
