(* ===== verification/Spec2Isabelle.thy ===== *)
theory Spec2Isabelle
  imports SP_Base SP_ArrayList SP_CircleQueue SP_BlockingQueue SP_SidList SP_SessionManager
    SP_Win32Buffer SP_Buffer SP_MsgDecoder SP_StrUtils SP_Message SP_IOChannel SP_EventCb
    SP_EventInv SP_EventSteps SP_EventLoop SP_ServerRun SP_CString SP_HttpMsg SP_HttpParser
    SP_HttpRound SP_Http SP_Smtp SP_EventHeap SP_MsgQueue SP_ThreadPool SP_Executor SP_Tunnel
    SP_Iocp SP_IocpInv SP_IocpRun SP_Dispatcher SP_Server SP_Win32 SP_Matrixssl SP_Port
    SP_IocpServer SP_IocpDispatcher
begin

text \<open>
  A verification library of spserver, a server framework in C++ (src/spserver), and of the
  tunnel built on it (src/sptunnel). The theories model the code as HOL functions and step
  relations and prove what makes each part correct; where the code does not do what it means
  to, a theorem exhibits the run.

  The program. A server is an event loop with a table of sessions. The loop thread accepts
  connections, reads and writes their sockets (speventcb.cpp, on libevent) and cuts what it has
  read into messages (spmsgdecoder.cpp, or the parser of sphttpmsg.cpp). A complete message
  becomes a task in the input queue; the executor (spexecutor.cpp) hands tasks to the threads of
  a pool (spthreadpool.cpp), which run the user's handler. The handler answers with a response:
  messages, each with a list of receiving sessions. Responses go back to the loop through a
  message queue (event_msgqueue.c); the loop puts the messages into the output lists of the
  sessions, writes them (spiochannel.cpp) and hands a finished message to the completion
  handler. Sessions are named by sids, a key and a sequence number of the session table
  (spsession.cpp). sphttp.cpp and spsmtp.cpp are handlers for HTTP and SMTP; the Windows server
  (spwin32iocp.cpp) replaces libevent by a completion port and a heap of timers
  (spiocpevent.cpp).

  The theories, from the bottom up. Definitions carry the names of the C++ methods.

    SP_Base            faults, the result type \<open>'a res\<close> (\<open>Inl\<close> a fault), C strings, C library
                       characters, numbers and searches; the locale \<open>simulation\<close>
    SP_ArrayList       \<open>SP_ArrayList\<close> (sputils.cpp); its list view is used from there on
    SP_CircleQueue     \<open>SP_CircleQueue\<close> (sputils.cpp) and the locale \<open>fifo\<close>
    SP_BlockingQueue   \<open>SP_BlockingQueue\<close> (sputils.cpp): waiting, signals, spurious wake-ups
    SP_StrUtils        \<open>sp_strtok\<close>, \<open>sp_strlcpy\<close> (sputils.cpp)
    SP_SidList         \<open>SP_SidList\<close>, \<open>sp_sid\<close> (spresponse.cpp)
    SP_SessionManager  \<open>SP_SessionManager\<close> (spsession.cpp), the locale \<open>session_table\<close>
    SP_Win32Buffer     spwin32buffer.cpp, the bytes under \<open>SP_Buffer\<close>
    SP_Buffer          \<open>SP_Buffer\<close> (spbuffer.cpp)
    SP_MsgDecoder      the decoders of spmsgdecoder.cpp
    SP_Message         blocks, messages, responses, requests (spmsgblock.cpp, spresponse.cpp,
                       sprequest.cpp)
    SP_IOChannel       \<open>SP_IOChannel::transmit\<close> (spiochannel.cpp)
    SP_EventCb         sessions, \<open>SP_EventHelper\<close> and \<open>SP_EventCallback\<close> (speventcb.cpp,
                       spsession.cpp) and the interleaving of all threads, \<open>server_step\<close>
    SP_EventInv, SP_EventSteps, SP_EventLoop, SP_ServerRun
                       the invariant of the server, that every step keeps it, and its runs
    SP_Run             runs of a step function: when each step keeps an invariant, each run does (the
                       locale \<open>stepper\<close>)
    SP_Server          the loops of \<open>SP_Server\<close> (spserver.cpp) and \<open>SP_LFServer\<close> (splfserver.cpp) as
                       drivers of \<open>server_step\<close>
    SP_IocpServer      the loops of \<open>SP_IocpServer\<close> (spiocpserver.cpp) and \<open>SP_IocpLFServer\<close>
                       (spiocplfserver.cpp) as drivers of \<open>io_step\<close>
    SP_Dispatcher      \<open>SP_Dispatcher\<close> (spdispatcher.cpp): pushed sockets and timers on the same loop
    SP_IocpDispatcher  \<open>SP_IocpDispatcher\<close> (spiocpdispatcher.cpp): the same on the loop of the completion
                       port
    SP_CString         string functions of the C library, \<open>sp_strsep\<close>
    SP_HttpMsg         \<open>SP_HttpMessage\<close>, requests, responses (sphttpmsg.cpp)
    SP_HttpParser      \<open>SP_HttpMsgParser\<close> (sphttpmsg.cpp)
    SP_HttpRound       what a peer prints is what the parser reads
    SP_Http            the decoder, adapter and reply blocks of sphttp.cpp
    SP_Smtp            spsmtp.cpp: session, commands, decoders
    SP_EventHeap       the timer heap (spiocpevent.cpp), \<open>onTimeout\<close> and \<open>timeoutNext\<close>
                       (spwin32iocp.cpp)
    SP_Iocp            the event loop of the Windows server (spwin32iocp.cpp, spiocpevent.cpp)
    SP_IocpInv, SP_IocpRun
                       its invariant, that every step keeps it, and its runs
    SP_Win32           what Windows does differently: condition variables (spthread.cpp), the queue of
                       responses (spiocpevent.cpp), the accept thread (spiocpserver.cpp)
    SP_Matrixssl       the TLS channel on MatrixSSL (matrixssl/spmatrixssl.cpp) with \<open>sslRead\<close>, \<open>sslWrite\<close>
                       and \<open>sslAccept\<close> (matrixssl/sslSocket.c); \<open>write_vec\<close> of all TLS channels
    SP_Port            sockets that listen, their flags and addresses (spioutils.cpp); socket pairs,
                       time and error texts on Windows (spwin32port.cpp)
    SP_MsgQueue        event_msgqueue.c: the power-of-two ring and the wake-up byte
    SP_ThreadPool      \<open>SP_ThreadPool\<close> (spthreadpool.cpp)
    SP_Executor        \<open>SP_Executor\<close> (spexecutor.cpp) on SP_BlockingQueue and SP_ThreadPool
    SP_Tunnel          sptunnelimpl.cpp: two handlers and the object they share

  State and operations. A class is a record with the fields of the class (mCount becomes
  \<open>.._mCount\<close>), a method is a function from the object and its arguments to the answer and the
  new object; a method that can fault answers in \<open>res\<close>. Sizes that the code keeps in an integer
  type that can wrap stay words (session keys and sequence numbers of 16 bits, ring indices and
  totals of 32 bits, the reference count of 8 bits) or are computed through \<open>int_add\<close>, which
  faults on signed overflow. Objects that several owners reach (messages in output lists,
  sessions in tasks) live in a store, and a deleted object is a number the store does not map,
  so that a use after free is a fault. Concurrency is a step function or an inductive step
  relation whose steps are the critical sections of the code, or the pieces between two
  accesses to shared state; runs are lists of steps, and the theorems hold for every run. Fields
  that are histories, with no counterpart in the code, are named as such.

  What the lemmas show. Containers: the ring, the array, the buffer and the timer heap implement
  a list, a byte stream and a set ordered by time (\<open>CircleQueue_is_fifo\<close>, \<open>ArrayList_is_list\<close>,
  \<open>SPBuffer_is_stream\<close>, \<open>EventHeap_is_timer_set\<close>); the session table is a map from sids that
  never issues a sid twice within 65535 removals. The server: no interleaving uses a deleted
  session or message, a session is held by one thread at a time, every message is completed
  exactly once; two responses of one connection can overtake each other. Both event loops share
  the invariant of SP_EventInv: with its parameter \<open>exact\<close> it says that the flags of a session
  agree with what is pending for it, which the libevent loop keeps; the completion port loop keeps
  one direction only, and there messages can be lost and sessions can hang. Threads: the queue of
  responses loses no wake-up but can deadlock, the pool runs each task once unless a wake-up is
  spurious, the executor keeps every task in one place. Protocols: an HTTP request or reply is
  read back to its last byte, with its content whole or in chunks, and the parser stays inside its
  input; the SMTP handler sees its calls in order. Error theorems show faults that inputs or
  schedules can reach.

  Interfaces. \<open>simulation\<close> (an implementation that answers as its specification does, interpreted
  on the timer heap), \<open>simulation_upto\<close> (the same for one that may end in a fault that the state
  explains, interpreted on the buffer), \<open>item_list\<close> (the array and its list view), \<open>fifo\<close> (the
  ring of sputils.cpp and the one of event_msgqueue.c), \<open>session_table\<close> (the session manager),
  \<open>stepper\<close> (every step keeps an invariant, so every run does; interpreted on the step functions of
  the servers, the dispatcher and the queues), \<open>driver\<close> (a server frame whose moves are runs of
  \<open>server_step\<close> or of \<open>io_step\<close>), \<open>smtp_observer\<close> (what a user's SMTP handler may count on, for any handler and for one that logs
  its calls).

  Bounds and fuel. Loops of the code are functions with a termination proof, or take fuel that a
  lemma shows is enough: the size of the input and one more for the multi line decoder, the
  number of events for \<open>onTimeout\<close> (in both models of it), the number of items for the destructors of lists. Counts of
  items are natural numbers where more than \<open>2 ^ 30\<close> of them cannot be stored.

  Parameters. \<open>malloc\<close>, where its failure matters; the answers of sockets (\<open>read\<close>, \<open>writev\<close>,
  \<open>connect\<close>); the user's handlers and decoders; the date of a reply; the bytes that memory holds
  before they are written. The invariant of the completion port loop assumes that a decoder
  answers \<open>eOK\<close> or \<open>eMoreData\<close>, the two values its interface names, and that an accepted socket
  can be tied to the completion port; that a waiting loop there is woken assumes that posts
  succeed. The decoders are proved for a \<open>malloc\<close> that does not fail, the buffer for any. The
  executor keeps its tasks as long as no pool thread wakes up without a signal. \<open>SP_MAX_IOV\<close>, which
  depends on the platform (Windows and most others name their own), is the 8 of the code on both
  loops; what is proved of \<open>transmit\<close> holds for every length of the vector.

  Not modelled. Programs and tests (\<open>test*.cpp\<close>, sptunnel.cpp, spgetopt.c) only wire the parts
  together. Of the TLS channels on gnutls, openssl and xyssl only \<open>write_vec\<close> is more than a call into their
  library; of the one on matrixssl the client side and the helpers for plain sockets are left out.
  The rest of spwin32port.cpp maps one call of the operating system to another, and \<open>initDaemon\<close> of
  spioutils.cpp is a sequence of such calls. Of the servers and the dispatchers the creation
  of threads and sockets is left out; the thread of \<open>SP_IocpDispatcher\<close> lives and ends as that of
  \<open>SP_Dispatcher\<close>, for which this is modelled.
  PROJECT.json lists these parts with their reasons.
\<close>

end
